(* ===== verification/Prelude.thy ===== *)
theory Prelude
  imports "HOL-Library.Word"
begin

text \<open>
  What every other theory of the development shares: the machine types of the i386 target,
  the result type of code that can fail, and the generic facts on results, lists and words
  that the component proofs use.

  The kernel and the C library are C++ compiled with assertions enabled. A failed
  \<open>assert\<close> ends in \<open>__assert\<close> of \<open>src/libc/assert.cpp\<close> (a message, then a trap), an
  \<open>abort()\<close> in \<open>src/libc/stdlib.cpp\<close>. Neither returns to the caller, so a computation is
  either a \<open>fault\<close> (\<open>Inl\<close>) or a value (\<open>Inr\<close>). Faults that are not in the program's text
  (a read past the end of an array, a pointer to a deleted object) are faults of the model
  too: what the machine does then is not specified by the language.
\<close>

section \<open>Machine types\<close>

type_synonym u8 = "8 word"
type_synonym u16 = "16 word"
type_synonym u32 = "32 word"
type_synonym u64 = "64 word"

unbundle bit_operations_syntax

section \<open>Results\<close>

datatype fault =
    Assert_failed   \<comment> \<open>\<open>assert\<close>\<close>
  | Abort_called    \<comment> \<open>\<open>abort\<close>\<close>
  | Trap            \<comment> \<open>\<open>__builtin_trap\<close>\<close>
  | Out_of_bounds   \<comment> \<open>an array access outside the array\<close>
  | Use_after_free  \<comment> \<open>an access through a pointer to an object that is gone\<close>
  | Page_fault      \<comment> \<open>an access to an address no page is mapped at\<close>
  | Out_of_fuel     \<comment> \<open>the bound a loop of the model was given is used up\<close>

type_synonym 'a result = "fault + 'a"

fun bindr :: "'a result \<Rightarrow> ('a \<Rightarrow> 'b result) \<Rightarrow> 'b result" where
  "bindr (Inl e) f = Inl e"
| "bindr (Inr x) f = f x"

definition check :: "bool \<Rightarrow> 'a result \<Rightarrow> 'a result" where
  "check b r = (if b then r else Inl Assert_failed)"

named_theorems result_simps "case rules for results"

lemma check_simps [simp]:
  "check True r = r"
  "check False r = Inl Assert_failed"
  by (simp_all add: check_def)

lemma check_Inl_Assert [simp]: "check b (Inl Assert_failed) = Inl Assert_failed"
  by (simp add: check_def)

lemma check_True [result_simps]: "b \<Longrightarrow> check b r = r"
  by simp

lemma check_eq_Inr [simp]: "check b r = Inr x \<longleftrightarrow> b \<and> r = Inr x"
  by (simp add: check_def)

lemma bindr_eq_Inr [simp]: "bindr r f = Inr y \<longleftrightarrow> (\<exists>x. r = Inr x \<and> f x = Inr y)"
  by (cases r) auto

lemma Inr_eq_bindr [simp]: "Inr y = bindr r f \<longleftrightarrow> (\<exists>x. r = Inr x \<and> f x = Inr y)"
  by (cases r) auto

lemma bindr_assoc: "bindr (bindr r f) g = bindr r (\<lambda>x. bindr (f x) g)"
  by (cases r) auto

lemma bindr_cong [fundef_cong]:
  "r = r' \<Longrightarrow> (\<And>x. r' = Inr x \<Longrightarrow> f x = g x) \<Longrightarrow> bindr r f = bindr r' g"
  by (cases r') auto

lemma bindr_check: "bindr (check b r) f = check b (bindr r f)"
  by (simp add: check_def)

lemma bindr_if: "bindr (if b then r else r') f = (if b then bindr r f else bindr r' f)"
  by simp

section \<open>Words as naturals\<close>

lemma unat_of_nat_u32: "n < 4294967296 \<Longrightarrow> unat (word_of_nat n :: u32) = n"
  by (rule of_nat_inverse) simp_all

lemma of_nat_eq_u32:
  "a < 4294967296 \<Longrightarrow> b < 4294967296 \<Longrightarrow> (word_of_nat a :: u32) = word_of_nat b \<longleftrightarrow> a = b"
  by (metis unat_of_nat_u32)

lemma of_nat_less_u32:
  "a < 4294967296 \<Longrightarrow> b < 4294967296 \<Longrightarrow> (word_of_nat a :: u32) < word_of_nat b \<longleftrightarrow> a < b"
  by (simp add: word_less_nat_alt unat_of_nat_u32)

lemma of_nat_le_u32:
  "a < 4294967296 \<Longrightarrow> b < 4294967296 \<Longrightarrow> (word_of_nat a :: u32) \<le> word_of_nat b \<longleftrightarrow> a \<le> b"
  by (simp add: word_le_nat_alt unat_of_nat_u32)

lemma unat_lt_u32: "unat (w :: u32) < 4294967296"
  using unsigned_less [of w] by simp

lemma unat_add_u32:
  "unat a + unat b < 4294967296 \<Longrightarrow> unat (a + b :: u32) = unat a + unat b"
  by (simp add: unat_plus_if')

lemma unat_sub_u32: "b \<le> a \<Longrightarrow> unat (a - b :: u32) = unat a - unat b"
  by (rule unat_sub)

lemma of_nat_diff_word:
  "b \<le> a \<Longrightarrow> (word_of_nat (a - b) :: 'l::len word) = word_of_nat a - word_of_nat b"
  by (simp add: of_nat_diff)

lemmas u32_nat = unat_of_nat_u32 of_nat_eq_u32 of_nat_less_u32 of_nat_le_u32

section \<open>Lists\<close>

lemma list_update_take_drop:
  "i < length xs \<Longrightarrow> xs[i := x] = take i xs @ x # drop (Suc i) xs"
  by (rule upd_conv_take_nth_drop)

end
