(* ===== verification/CString.thy ===== *)
theory CString
  imports Prelude "HOL-Library.Sublist"
begin

text \<open>
  The string functions of \<open>src/libc/string.cpp\<close> and the character classes of \<open>ctype.cpp\<close>, on memory as a function from
  addresses to bytes. A loop that looks for a zero byte need not end, so it is a partial function: \<open>None\<close> is
  a call that does not return. \<open>char\<close> is signed on the target, so the comparisons subtract signed
  bytes; \<open>memcmp\<close> uses unsigned ones. A string at an address is described by \<open>cstr\<close>.
\<close>

type_synonym bmem = "u32 \<Rightarrow> u8"

section \<open>Blocks of memory\<close>

fun memset :: "bmem \<Rightarrow> u32 \<Rightarrow> u8 \<Rightarrow> nat \<Rightarrow> bmem" where
  "memset m p val 0 = m"
| "memset m p val (Suc n) = memset (m(p := val)) (p + 1) val n"

fun memcpy_bytes :: "bmem \<Rightarrow> u32 \<Rightarrow> u32 \<Rightarrow> nat \<Rightarrow> bmem" where
  "memcpy_bytes m dst src 0 = m"
| "memcpy_bytes m dst src (Suc n) = memcpy_bytes (m(dst := m src)) (dst + 1) (src + 1) n"

text \<open>\<open>memmove\<close> goes through a block from \<open>malloc\<close>, at \<open>temp\<close>.\<close>

definition memmove :: "u32 \<Rightarrow> bmem \<Rightarrow> u32 \<Rightarrow> u32 \<Rightarrow> nat \<Rightarrow> bmem" where
  "memmove temp m dest src n = (if n = 0 then m else memcpy_bytes (memcpy_bytes m temp src n) dest temp n)"

fun memcmp :: "bmem \<Rightarrow> u32 \<Rightarrow> u32 \<Rightarrow> nat \<Rightarrow> int" where
  "memcmp m v1 v2 0 = uint (m v1) - uint (m v2)"
| "memcmp m v1 v2 (Suc n) = (if m v1 = m v2 then memcmp m (v1 + 1) (v2 + 1) n else uint (m v1) - uint (m v2))"

section \<open>Strings\<close>

partial_function (option) strlen_from :: "bmem \<Rightarrow> u32 \<Rightarrow> u32 \<Rightarrow> u32 option" where
  "strlen_from m str len = (if m (str + len) \<noteq> 0 then strlen_from m str (len + 1) else Some len)"

definition strlen :: "bmem \<Rightarrow> u32 \<Rightarrow> u32 option" where
  "strlen m str = strlen_from m str 0"

fun strncpy_pad :: "bmem \<Rightarrow> u32 \<Rightarrow> nat \<Rightarrow> bmem \<times> u32" where
  "strncpy_pad m dst 0 = (m, dst)"
| "strncpy_pad m dst (Suc n) = strncpy_pad (m(dst := 0)) (dst + 1) n"

text \<open>The result is where the last write ended, not the start of the copy.\<close>

definition strncpy :: "bmem \<Rightarrow> u32 \<Rightarrow> u32 \<Rightarrow> nat \<Rightarrow> (bmem \<times> u32) option" where
  "strncpy m dst src num =
     (case strlen m src of None \<Rightarrow> None
      | Some len \<Rightarrow> let cpy = (if unat len < num then unat len else num) in
          Some (strncpy_pad (memcpy_bytes m dst src cpy) (dst + word_of_nat cpy) (num - cpy)))"

definition strcpy :: "bmem \<Rightarrow> u32 \<Rightarrow> u32 \<Rightarrow> (bmem \<times> u32) option" where
  "strcpy m dst src = (case strlen m src of None \<Rightarrow> None | Some len \<Rightarrow> strncpy m dst src (unat len))"

partial_function (option) strcmp :: "bmem \<Rightarrow> u32 \<Rightarrow> u32 \<Rightarrow> int option" where
  "strcmp m s1 s2 = (if m s1 \<noteq> 0 \<and> m s1 = m s2 then strcmp m (s1 + 1) (s2 + 1) else Some (sint (m s1) - sint (m s2)))"

text \<open>\<open>n\<close> is a \<open>size_t\<close>: the \<open>n--\<close> that finds 0 leaves the largest value.\<close>

partial_function (option) strncmp_loop :: "bmem \<Rightarrow> u32 \<Rightarrow> u32 \<Rightarrow> u32 \<Rightarrow> int option" where
  "strncmp_loop m s1 s2 n =
     (if m s1 \<noteq> 0 \<and> m s1 = m s2
      then if n \<noteq> 0 then strncmp_loop m (s1 + 1) (s2 + 1) (n - 1) else Some (if n - 1 \<noteq> 0 then sint (m s1) - sint (m s2) else 0)
      else Some (if n \<noteq> 0 then sint (m s1) - sint (m s2) else 0))"

definition strncmp :: "bmem \<Rightarrow> u32 \<Rightarrow> u32 \<Rightarrow> u32 \<Rightarrow> int option" where
  "strncmp m s1 s2 n = (if n = 0 then Some 0 else strncmp_loop m s1 s2 n)"

partial_function (option) strstr_match :: "bmem \<Rightarrow> u32 \<Rightarrow> u32 \<Rightarrow> u32 \<Rightarrow> u32 option" where
  "strstr_match m s sub j = (if m (s + j) \<noteq> 0 \<and> m (s + j) = m (sub + j) then strstr_match m s sub (j + 1) else Some j)"

text \<open>The result is an address, 0 the null pointer.\<close>

partial_function (option) strstr_loop :: "bmem \<Rightarrow> u32 \<Rightarrow> u32 \<Rightarrow> u32 \<Rightarrow> u32 option" where
  "strstr_loop m str sub i =
     (if m (str + i) \<noteq> 0
      then Option.bind (strstr_match m (str + i) sub 0) (\<lambda>j. if m (sub + j) = 0 then Some (str + i) else strstr_loop m str sub (i + 1))
      else Some 0)"

definition strstr :: "bmem \<Rightarrow> u32 \<Rightarrow> u32 \<Rightarrow> u32 option" where
  "strstr m str sub = (if m sub = 0 then Some str else strstr_loop m str sub 0)"

partial_function (option) strchr :: "bmem \<Rightarrow> u32 \<Rightarrow> u8 \<Rightarrow> u32 option" where
  "strchr m src ch = (if m src \<noteq> 0 \<and> m src \<noteq> ch then strchr m (src + 1) ch else Some (if m src = ch then src else 0))"

section \<open>Character classes\<close>

definition isspace :: "u8 \<Rightarrow> bool" where
  "isspace c \<longleftrightarrow> c = 0x20 \<or> c = 0x0C \<or> c = 0x0A \<or> c = 0x0D \<or> c = 0x09 \<or> c = 0x0B"

definition isprint :: "u32 \<Rightarrow> bool" where
  "isprint c \<longleftrightarrow> c - 0x20 < 95"

section \<open>Strings in memory\<close>

fun cstr :: "bmem \<Rightarrow> u32 \<Rightarrow> u8 list \<Rightarrow> bool" where
  "cstr m a [] \<longleftrightarrow> m a = 0"
| "cstr m a (c # cs) \<longleftrightarrow> m a = c \<and> c \<noteq> 0 \<and> cstr m (a + 1) cs"

definition bytes_at :: "bmem \<Rightarrow> u32 \<Rightarrow> nat \<Rightarrow> u8 list" where
  "bytes_at m a n = map (\<lambda>i. m (a + word_of_nat i)) [0..<n]"

lemma bytes_at_Suc: "bytes_at m a (Suc n) = m a # bytes_at m (a + 1) n"
  unfolding bytes_at_def by (simp add: upt_conv_Cons map_Suc_upt [symmetric] comp_def algebra_simps del: upt_Suc)

lemma bytes_at_0 [simp]: "bytes_at m a 0 = []"
  by (simp add: bytes_at_def)

lemma bytes_at_nth: "i < n \<Longrightarrow> bytes_at m a n ! i = m (a + word_of_nat i)"
  by (simp add: bytes_at_def)

lemma bytes_at_length [simp]: "length (bytes_at m a n) = n"
  by (simp add: bytes_at_def)

lemma cstr_bytes: "cstr m a s \<Longrightarrow> bytes_at m a (length s) = s \<and> m (a + word_of_nat (length s)) = 0 \<and> 0 \<notin> set s"
  by (induction s arbitrary: a) (auto simp: bytes_at_Suc add.assoc [symmetric])

lemma strlen_from_cstr: "cstr m (a + i) s \<Longrightarrow> strlen_from m a i = Some (i + word_of_nat (length s))"
proof (induction s arbitrary: i)
  case Nil
  then show ?case by (subst strlen_from.simps) simp
next
  case (Cons c s)
  have "cstr m (a + (i + 1)) s" using Cons.prems by (simp add: add.assoc)
  from Cons.IH [OF this] Cons.prems show ?case by (subst strlen_from.simps) (simp add: algebra_simps)
qed

lemma strlen_cstr: "cstr m a s \<Longrightarrow> strlen m a = Some (word_of_nat (length s))"
  using strlen_from_cstr [of m a 0 s] by (simp add: strlen_def)

text \<open>No string fills the whole address space: the addresses would repeat and the terminator be inside.\<close>

lemma cstr_length: "cstr m a s \<Longrightarrow> length s < 4294967296"
proof (rule ccontr)
  assume c: "cstr m a s" and "\<not> length s < 4294967296"
  note b = cstr_bytes [OF c]
  let ?i = "length s mod 4294967296"
  have i: "?i < length s" using \<open>\<not> length s < 4294967296\<close> by (metis linorder_not_less mod_less_divisor less_le_trans zero_less_numeral)
  have "(word_of_nat ?i :: u32) = word_of_nat (length s)" by (simp add: of_nat_mod word_of_nat_eq_iff take_bit_eq_mod)
  then have "s ! ?i = 0" using b bytes_at_nth [OF i, of m a] by metis
  then show False using b i by (metis nth_mem)
qed


section \<open>Comparing\<close>

text \<open>Lexicographic comparison with the difference of the first bytes that differ.\<close>

fun cmp_ref :: "u8 list \<Rightarrow> u8 list \<Rightarrow> int" where
  "cmp_ref [] [] = 0"
| "cmp_ref [] (y # ys) = - sint y"
| "cmp_ref (x # xs) [] = sint x"
| "cmp_ref (x # xs) (y # ys) = (if x = y then cmp_ref xs ys else sint x - sint y)"

lemma cmp_ref_0: "0 \<notin> set s \<Longrightarrow> 0 \<notin> set t \<Longrightarrow> cmp_ref s t = 0 \<longleftrightarrow> s = t"
  by (induction s t rule: cmp_ref.induct) (auto simp: signed_eq_0_iff dest: signed_word_eqI)

lemma strcmp_cstr: "cstr m a s \<Longrightarrow> cstr m b t \<Longrightarrow> strcmp m a b = Some (cmp_ref s t)"
proof (induction s t arbitrary: a b rule: cmp_ref.induct)
  case (4 x xs y ys)
  show ?case
  proof (cases "x = y")
    case True
    with 4 show ?thesis by (subst strcmp.simps) simp
  next
    case False
    with 4 show ?thesis by (subst strcmp.simps) simp
  qed
qed (subst strcmp.simps, simp)+

lemma strncmp_loop_cstr: "cstr m a s \<Longrightarrow> cstr m b t \<Longrightarrow> strncmp_loop m a b n = Some (cmp_ref (take (unat n) s) (take (unat n) t))"
proof (induction s t arbitrary: a b n rule: cmp_ref.induct)
  case (4 x xs y ys)
  show ?case
  proof (cases "n = 0")
    case True
    with 4(2,3) show ?thesis by (subst strncmp_loop.simps) (cases "x = y", simp_all)
  next
    case False
    then have u: "unat n = Suc (unat (n - 1))" by (simp add: unat_minus_one) (metis Suc_pred unat_gt_0)
    with 4 False show ?thesis by (subst strncmp_loop.simps) (simp add: u)
  qed
next
  case (1)
  then show ?case by (subst strncmp_loop.simps) simp
next
  case (2 y ys)
  then show ?case by (subst strncmp_loop.simps) (cases "unat n", auto simp: unat_eq_zero)
next
  case (3 x xs)
  then show ?case by (subst strncmp_loop.simps) (cases "unat n", auto simp: unat_eq_zero)
qed

text \<open>\<open>strcmp\<close> and \<open>strncmp\<close> end on strings and compare them, in full or their first \<open>n\<close> bytes: the result is the difference of the
  first signed bytes that differ, and \<open>strcmp\<close> answers 0 for equal strings only.\<close>

theorem string_compare:
  assumes "cstr m a s" "cstr m b t"
  shows "strcmp m a b = Some (cmp_ref s t) \<and> strncmp m a b n = Some (cmp_ref (take (unat n) s) (take (unat n) t)) \<and> (cmp_ref s t = 0 \<longleftrightarrow> s = t)"
  using strcmp_cstr [OF assms] strncmp_loop_cstr [OF assms] cmp_ref_0 cstr_bytes [OF assms(1)] cstr_bytes [OF assms(2)]
  by (simp add: strncmp_def)

definition example_strings :: bmem where
  "example_strings = (\<lambda>_. 0)(0x10 := 0x61, 0x11 := 0x62, 0x12 := 0x63, 0x20 := 0x61, 0x21 := 0x62, 0x22 := 0x64)"

lemma example_cstr: "cstr example_strings 0x10 [0x61, 0x62, 0x63]" "cstr example_strings 0x20 [0x61, 0x62, 0x64]" "cstr example_strings 0x11 [0x62, 0x63]"
  by (simp_all add: example_strings_def)

theorem string_compare_witness:
  "strcmp example_strings 0x10 0x20 = Some (- 1) \<and> strncmp example_strings 0x10 0x20 2 = Some 0"
  using string_compare [OF example_cstr(1,2), of 2] by simp

text \<open>\<open>memcmp\<close> answers the difference at the first byte that differs, but when the blocks are equal it goes on to the bytes
  behind them and answers their difference.\<close>

theorem memcmp_past_end:
  "\<exists>i \<le> n. (\<forall>j < i. m (a + word_of_nat j) = m (b + word_of_nat j)) \<and> (i < n \<longrightarrow> m (a + word_of_nat i) \<noteq> m (b + word_of_nat i))
    \<and> memcmp m a b n = uint (m (a + word_of_nat i)) - uint (m (b + word_of_nat i))"
proof (induction n arbitrary: a b)
  case (Suc n)
  show ?case
  proof (cases "m a = m b")
    case True
    from Suc.IH [of "a + 1" "b + 1"] obtain i where i: "i \<le> n" "\<forall>j < i. m (a + 1 + word_of_nat j) = m (b + 1 + word_of_nat j)"
      "i < n \<longrightarrow> m (a + 1 + word_of_nat i) \<noteq> m (b + 1 + word_of_nat i)" "memcmp m (a + 1) (b + 1) n = uint (m (a + 1 + word_of_nat i)) - uint (m (b + 1 + word_of_nat i))"
      by blast
    have "m (a + word_of_nat j) = m (b + word_of_nat j)" if "j < Suc i" for j
      using that True i(2) by (cases j) (auto simp: add.assoc)
    with True i(1,3,4) show ?thesis by (intro exI [of _ "Suc i"]) (auto simp: add.assoc)
  next
    case False
    then show ?thesis by (intro exI [of _ 0]) simp
  qed
qed simp

lemma memcmp_equal_blocks: "memcmp example_strings 0x10 0x20 2 = - 1"
  by code_simp

section \<open>Searching\<close>

lemma strstr_match_cstr:
  "cstr m (p + j) u \<Longrightarrow> cstr m (b + j) t \<Longrightarrow> \<exists>l. strstr_match m p b j = Some l \<and> (m (b + l) = 0 \<longleftrightarrow> prefix t u)"
proof (induction u arbitrary: j t)
  case Nil
  then show ?case by (cases t; subst strstr_match.simps) auto
next
  case (Cons c u)
  show ?case
  proof (cases t)
    case Nil
    with Cons.prems show ?thesis by (subst strstr_match.simps) auto
  next
    case t: (Cons d t')
    show ?thesis
    proof (cases "c = d")
      case True
      have "cstr m (p + (j + 1)) u" "cstr m (b + (j + 1)) t'" using Cons.prems t by (simp_all add: add.assoc)
      from Cons.IH [OF this] Cons.prems t True show ?thesis by (subst strstr_match.simps) simp
    next
      case False
      with Cons.prems t show ?thesis by (subst strstr_match.simps) auto
    qed
  qed
qed

lemma strstr_loop_cstr:
  assumes "cstr m b t" "t \<noteq> []"
  shows "cstr m (a + i) s \<Longrightarrow> \<exists>r. strstr_loop m a b i = Some r \<and>
    ((\<exists>k < length s. r = a + i + word_of_nat k \<and> prefix t (drop k s) \<and> (\<forall>l < k. \<not> prefix t (drop l s))) \<or> r = 0 \<and> (\<forall>k. \<not> prefix t (drop k s)))"
proof (induction s arbitrary: i)
  case Nil
  then show ?case using assms(2) by (subst strstr_loop.simps) simp
next
  case (Cons c s)
  from strstr_match_cstr [of m "a + i" 0 "c # s" b t] Cons.prems assms(1)
  obtain l where l: "strstr_match m (a + i) b 0 = Some l" "m (b + l) = 0 \<longleftrightarrow> prefix t (c # s)" by auto
  show ?case
  proof (cases "prefix t (c # s)")
    case True
    with l Cons.prems show ?thesis by (subst strstr_loop.simps) (auto intro!: exI [of _ 0])
  next
    case False
    have "cstr m (a + (i + 1)) s" using Cons.prems by (simp add: add.assoc)
    from Cons.IH [OF this] obtain r where r: "strstr_loop m a b (i + 1) = Some r"
      "(\<exists>k < length s. r = a + (i + 1) + word_of_nat k \<and> prefix t (drop k s) \<and> (\<forall>l < k. \<not> prefix t (drop l s))) \<or> r = 0 \<and> (\<forall>k. \<not> prefix t (drop k s))" by blast
    have e: "strstr_loop m a b i = Some r" using l False Cons.prems r(1) by (subst strstr_loop.simps) simp
    have d: "prefix t (drop k (c # s)) \<longleftrightarrow> (\<exists>k'. k = Suc k' \<and> prefix t (drop k' s))" for k using False by (cases k) auto
    from r(2) show ?thesis
    proof (elim disjE exE conjE)
      fix k assume k: "k < length s" "r = a + (i + 1) + word_of_nat k" "prefix t (drop k s)" "\<forall>l < k. \<not> prefix t (drop l s)"
      then have "\<forall>l < Suc k. \<not> prefix t (drop l (c # s))" using d by auto
      with k e show ?thesis by (auto intro!: exI [of _ "Suc k"] simp: algebra_simps)
    next
      assume "r = 0" "\<forall>k. \<not> prefix t (drop k s)"
      with e d show ?thesis by auto
    qed
  qed
qed

text \<open>\<open>strstr\<close> ends on strings and answers the address of the first occurrence, the null pointer when there is none; the empty
  string occurs at the start.\<close>

theorem strstr_first:
  assumes "cstr m a s" "cstr m b t"
  shows "\<exists>r. strstr m a b = Some r \<and>
    ((\<exists>k \<le> length s. r = a + word_of_nat k \<and> prefix t (drop k s) \<and> (\<forall>l < k. \<not> prefix t (drop l s))) \<or> r = 0 \<and> (\<forall>k. \<not> prefix t (drop k s)))"
proof (cases t)
  case Nil
  with assms(2) show ?thesis by (auto simp: strstr_def)
next
  case (Cons d t')
  then have "m b \<noteq> 0" "t \<noteq> []" using assms(2) by auto
  from strstr_loop_cstr [OF assms(2) this(2), of a 0 s] assms(1) this(1) show ?thesis by (auto simp: strstr_def intro: less_imp_le)
qed

theorem strstr_first_witness: "strstr example_strings 0x10 0x11 = Some 0x11"
proof -
  have n: "\<not> prefix [0x62, 0x63] (drop 0 [0x61, 0x62, 0x63 :: u8])" "prefix [0x62, 0x63] (drop 1 [0x61, 0x62, 0x63 :: u8])" by simp_all
  from strstr_first [OF example_cstr(1,3)] show ?thesis
  proof (elim exE conjE disjE)
    fix r k assume k: "strstr example_strings 0x10 0x11 = Some r" "r = 0x10 + word_of_nat k" "prefix [0x62, 0x63] (drop k [0x61, 0x62, 0x63 :: u8])"
      "\<forall>l < k. \<not> prefix [0x62, 0x63] (drop l [0x61, 0x62, 0x63 :: u8])"
    have "k \<noteq> 0" by (rule notI) (use k(3) n(1) in \<open>simp only: simp_thms\<close>)
    moreover have "\<not> 1 < k" using k(4) [rule_format, of 1] n(2) by blast
    ultimately have "k = 1" by simp
    with k(1,2) show ?thesis by simp
  next
    assume a: "\<forall>k. \<not> prefix [0x62, 0x63] (drop k [0x61, 0x62, 0x63 :: u8])"
    show ?thesis using a [rule_format, of 1] n(2) by (simp only: simp_thms)
  qed
qed


section \<open>Copying\<close>

text \<open>\<open>x\<close> is one of the \<open>n\<close> bytes from \<open>a\<close> on; the addresses wrap around.\<close>

definition in_block :: "u32 \<Rightarrow> u32 \<Rightarrow> nat \<Rightarrow> bool" where
  "in_block x a n \<longleftrightarrow> unat (x - a) < n"

lemma in_block_Suc: "n < 4294967296 \<Longrightarrow> in_block x a (Suc n) \<longleftrightarrow> x = a \<or> in_block x (a + 1) n"
proof -
  assume n: "n < 4294967296"
  show ?thesis
  proof (cases "x = a")
    case False
    then have "x - a \<noteq> 0" by simp
    then have "unat (x - a - 1) = unat (x - a) - 1" "unat (x - a) \<noteq> 0" by (rule unat_minus_one) (use False in \<open>simp add: unat_eq_zero\<close>)
    then have "unat (x - a) = Suc (unat (x - a - 1))" by linarith
    moreover have "x - a - 1 = x - (a + 1)" by simp
    ultimately show ?thesis using False by (simp add: in_block_def)
  qed (simp add: in_block_def)
qed

lemma memcpy_bytes_apart:
  "n < 4294967296 \<Longrightarrow> \<forall>i < n. \<not> in_block (src + word_of_nat i) dst n \<Longrightarrow>
    memcpy_bytes m dst src n x = (if in_block x dst n then m (src + (x - dst)) else m x)"
proof (induction n arbitrary: m dst src)
  case (Suc n)
  have n: "n < 4294967296" using Suc.prems(1) by simp
  have ap: "\<forall>i < n. \<not> in_block (src + 1 + word_of_nat i) (dst + 1) n"
  proof (intro allI impI)
    fix i assume "i < n"
    then have "\<not> in_block (src + word_of_nat (Suc i)) dst (Suc n)" using Suc.prems(2) by (metis Suc_mono)
    then show "\<not> in_block (src + 1 + word_of_nat i) (dst + 1) n" unfolding in_block_Suc [OF n] by (simp add: add.assoc)
  qed
  have self: "\<not> in_block dst (dst + 1) n"
  proof -
    have "dst - (dst + 1) = (- 1 :: u32)" by simp
    moreover have "unat (- 1 :: u32) = 4294967295" by (simp add: unsigned_minus_1_eq_mask mask_eq_exp_minus_1)
    ultimately show ?thesis using Suc.prems(1) by (simp add: in_block_def)
  qed
  have keep: "src + 1 + (x - (dst + 1)) \<noteq> dst" if "in_block x (dst + 1) n"
  proof
    assume e: "src + 1 + (x - (dst + 1)) = dst"
    let ?i = "Suc (unat (x - (dst + 1)))"
    have "src + word_of_nat ?i = dst" using e by (simp add: add.assoc)
    moreover have "?i < Suc n" using that by (simp add: in_block_def)
    ultimately show False using Suc.prems(2) by (force simp: in_block_def)
  qed
  have e: "src + 1 + (x - (dst + 1)) = src + (x - dst)" by simp
  show ?case unfolding memcpy_bytes.simps Suc.IH [OF n ap] in_block_Suc [OF n] using self keep by (auto simp: e)
qed (simp add: in_block_def)

lemma block_apart_sym:
  assumes "n < 4294967296" "\<forall>i < n. \<not> in_block (a + word_of_nat i) b n"
  shows "\<forall>i < n. \<not> in_block (b + word_of_nat i) a n"
proof (intro allI impI notI)
  fix i assume i: "i < n" "in_block (b + word_of_nat i) a n"
  let ?j = "unat (b + word_of_nat i - a)"
  have "a + word_of_nat ?j = b + word_of_nat i" by simp
  moreover have "in_block (b + word_of_nat i) b n" using i(1) assms(1) by (simp add: in_block_def unat_of_nat_u32)
  ultimately show False using assms(2) i(2) by (metis in_block_def)
qed

text \<open>\<open>memmove\<close> copies correctly even when source and destination overlap, provided the temporary block \<open>malloc\<close>
  returned is apart from both: afterwards every byte of the destination has the source's old byte, and nothing outside
  destination and temporary block changed.\<close>

theorem memmove_overlap:
  assumes "n < 4294967296" "\<forall>i < n. \<not> in_block (src + word_of_nat i) temp n" "\<forall>i < n. \<not> in_block (dest + word_of_nat i) temp n"
  shows "(\<forall>i < n. memmove temp m dest src n (dest + word_of_nat i) = m (src + word_of_nat i))
    \<and> (\<forall>x. \<not> in_block x dest n \<longrightarrow> \<not> in_block x temp n \<longrightarrow> memmove temp m dest src n x = m x)"
proof (cases "n = 0")
  case True
  then show ?thesis by (simp add: memmove_def)
next
  case False
  let ?m = "memcpy_bytes m temp src n"
  have f: "?m x = (if in_block x temp n then m (src + (x - temp)) else m x)" for x by (rule memcpy_bytes_apart [OF assms(1,2)])
  have g: "memmove temp m dest src n x = (if in_block x dest n then ?m (temp + (x - dest)) else ?m x)" for x
    using False memcpy_bytes_apart [OF assms(1) block_apart_sym [OF assms(1,3)], of ?m] by (simp add: memmove_def)
  have "memmove temp m dest src n (dest + word_of_nat i) = m (src + word_of_nat i)" if "i < n" for i
  proof -
    have u: "unat (word_of_nat i :: u32) = i" using that assms(1) by (simp add: unat_of_nat_u32)
    then have "in_block (dest + word_of_nat i) dest n" "in_block (temp + word_of_nat i) temp n" using that by (simp_all add: in_block_def)
    then show ?thesis unfolding g by (simp add: f)
  qed
  moreover have "memmove temp m dest src n x = m x" if "\<not> in_block x dest n" "\<not> in_block x temp n" for x using that g f by simp
  ultimately show ?thesis by blast
qed

theorem memmove_overlap_witness:
  "memmove 0x100 example_strings 0x11 0x10 3 0x13 = 0x63"
proof -
  have "i = 0 \<or> i = 1 \<or> i = 2" if "i < 3" for i :: nat using that by linarith
  then have "\<forall>i < 3. \<not> in_block (0x10 + word_of_nat i) 0x100 3" "\<forall>i < 3. \<not> in_block (0x11 + word_of_nat i) 0x100 3"
    by (fastforce simp: in_block_def)+
  from memmove_overlap [OF _ this, of example_strings]
  have a: "\<forall>i < 3. memmove 0x100 example_strings 0x11 0x10 3 (0x11 + word_of_nat i) = example_strings (0x10 + word_of_nat i)" by simp
  have "memmove 0x100 example_strings 0x11 0x10 3 (0x11 + word_of_nat 2) = example_strings (0x10 + word_of_nat 2)" by (rule a [rule_format]) simp
  then show ?thesis by (simp add: example_strings_def)
qed

text \<open>\<open>strcpy\<close> copies the bytes of the string without its terminator: the byte behind the copy keeps its old value.\<close>

lemma strcpy_not_terminated:
  assumes "cstr m src s" "\<forall>i < length s. \<not> in_block (src + word_of_nat i) dst (length s)"
  shows "\<exists>m'. strcpy m dst src = Some (m', dst + word_of_nat (length s)) \<and> bytes_at m' dst (length s) = s
    \<and> m' (dst + word_of_nat (length s)) = m (dst + word_of_nat (length s))"
proof -
  have l: "length s < 4294967296" by (rule cstr_length [OF assms(1)])
  let ?m = "memcpy_bytes m dst src (length s)"
  have u: "unat (word_of_nat i :: u32) = i" if "i \<le> length s" for i using that l by (simp add: unat_of_nat_u32)
  have f: "?m x = (if in_block x dst (length s) then m (src + (x - dst)) else m x)" for x by (rule memcpy_bytes_apart [OF l assms(2)])
  have c: "strcpy m dst src = Some (?m, dst + word_of_nat (length s))"
    using strlen_cstr [OF assms(1)] u [of "length s"] by (simp add: strcpy_def strncpy_def Let_def)
  have "bytes_at ?m dst (length s) = bytes_at m src (length s)"
    by (rule nth_equalityI) (auto simp: bytes_at_nth f in_block_def u)
  moreover have "?m (dst + word_of_nat (length s)) = m (dst + word_of_nat (length s))" by (simp add: f in_block_def u)
  ultimately show ?thesis using c cstr_bytes [OF assms(1)] by simp
qed

end
