(* ===== verification/Printf.thy ===== *)
theory Printf
  imports CString
begin

text \<open>
  Formatted output, \<open>src/libc/printf.cpp\<close>. \<open>put\<close> is modelled by the list of bytes it was called with. The format is the
  bytes of the C string; the terminator is the end of the list. Variable arguments are the 32-bit words of
  the caller's stack, read in order; a 64-bit argument is two of them. \<open>%s\<close> reads memory and does
  not return on a string without end, which is \<open>Out_of_fuel\<close> here.
\<close>

section \<open>Numbers\<close>

text \<open>The loop of \<open>PrintDecimalImpl\<close> fills the buffer from its end; \<open>room\<close> is the space left in front.\<close>

fun dec_loop :: "nat \<Rightarrow> u32 \<Rightarrow> u8 list \<Rightarrow> u8 list result" where
  "dec_loop 0 val buffer = Inl Out_of_bounds"
| "dec_loop (Suc room) val buffer =
     (let buffer' = (ucast (val mod 10) + 0x30) # buffer; val' = val div 10 in
      if val' \<noteq> 0 then dec_loop room val' buffer' else Inr buffer')"

definition kNumDigits :: nat where "kNumDigits = 10"

definition PrintDecimal_u32 :: "u32 \<Rightarrow> u8 list result" where
  "PrintDecimal_u32 val = dec_loop kNumDigits val []"

definition PrintDecimal :: "u32 \<Rightarrow> u8 list result" where
  "PrintDecimal val =
     (if 0 \<le> sint val then PrintDecimal_u32 val
      else if sint val = - 2147483648 then Inr [0x2D, 0x32, 0x31, 0x34, 0x37, 0x34, 0x38, 0x33, 0x36, 0x34, 0x38]
      else bindr (PrintDecimal_u32 (- val)) (\<lambda>ds. Inr (0x2D # ds)))"

definition PrintNibble :: "u8 \<Rightarrow> u8 list" where
  "PrintNibble val = (if val < 10 then [0x30 + val] else [0x61 + val - 10])"

definition PrintHex8 :: "u8 \<Rightarrow> u8 list" where
  "PrintHex8 val = PrintNibble (drop_bit 4 val) @ PrintNibble (val AND 0xF)"

definition PrintHex16 :: "u16 \<Rightarrow> u8 list" where
  "PrintHex16 val = PrintHex8 (ucast (drop_bit 8 val)) @ PrintHex8 (ucast val)"

definition PrintHex32 :: "u32 \<Rightarrow> u8 list" where
  "PrintHex32 val = PrintHex16 (ucast (drop_bit 16 val)) @ PrintHex16 (ucast val)"

definition PrintHex64 :: "u64 \<Rightarrow> u8 list" where
  "PrintHex64 val = PrintHex32 (ucast (drop_bit 32 val)) @ PrintHex32 (ucast val)"

section \<open>Formats\<close>

definition long_arg :: "(nat \<Rightarrow> u32) \<Rightarrow> nat \<Rightarrow> u64" where
  "long_arg ap n = ucast (ap n) OR push_bit 32 (ucast (ap (Suc n)))"

definition string_arg :: "bmem \<Rightarrow> u32 \<Rightarrow> u8 list result" where
  "string_arg m s = (case strlen m s of None \<Rightarrow> Inl Out_of_fuel | Some len \<Rightarrow> Inr (bytes_at m s (unat len)))"

text \<open>\<open>Format\<close>: the value it returns and the bytes it puts; \<open>n\<close> is the next argument.\<close>

function Format :: "bmem \<Rightarrow> (nat \<Rightarrow> u32) \<Rightarrow> nat \<Rightarrow> u8 list \<Rightarrow> u8 list \<Rightarrow> (int \<times> u8 list) result" where
  "Format m ap n fmt out =
     (case fmt of [] \<Rightarrow> Inr (0, out)
      | c # fmt \<Rightarrow>
        if c \<noteq> 0x25 then Format m ap n fmt (out @ [c])
        else (case fmt of [] \<Rightarrow> Inr (- 1, out)
          | c # fmt \<Rightarrow>
            if c = 0x63 then Format m ap (n + 1) fmt (out @ [ucast (ap n)])
            else if c = 0x64 then bindr (PrintDecimal (ap n)) (\<lambda>ds. Format m ap (n + 1) fmt (out @ ds))
            else if c = 0x75 then bindr (PrintDecimal_u32 (ap n)) (\<lambda>ds. Format m ap (n + 1) fmt (out @ ds))
            else if c = 0x73 then bindr (string_arg m (ap n)) (\<lambda>bs. Format m ap (n + 1) fmt (out @ bs))
            else if c = 0x70 then Format m ap (n + 1) fmt (out @ [0x30, 0x78] @ PrintHex32 (ap n))
            else if c = 0x78 then Format m ap (n + 1) fmt (out @ PrintHex32 (ap n))
            else if c = 0x6C then
              (case fmt of [] \<Rightarrow> bindr (PrintDecimal_u32 (ap n)) (\<lambda>ds. Inr (0, out @ ds))
               | c # fmt \<Rightarrow>
                 if c = 0x6C then
                   (case fmt of [] \<Rightarrow> Inr (- 1, out)
                    | c # fmt \<Rightarrow>
                      if c = 0x78 then Format m ap (n + 2) fmt (out @ PrintHex64 (long_arg ap n))
                      else if c = 0x69 \<or> c = 0x64 then Inl Trap
                      else Inr (- 1, out))
                 else if c = 0x78 then Format m ap (n + 1) fmt (out @ PrintHex32 (ap n))
                 else Inr (- 1, out))
            else Inr (- 1, out)))"
  by pat_completeness auto
termination by (relation "measure (\<lambda>(m, ap, n, fmt, out). length fmt)") auto

declare Format.simps [simp del]

text \<open>\<open>printf\<close> ignores what \<open>Format\<close> returns.\<close>

definition printf :: "bmem \<Rightarrow> (nat \<Rightarrow> u32) \<Rightarrow> u8 list \<Rightarrow> (int \<times> u8 list) result" where
  "printf m ap fmt = bindr (Format m ap 0 fmt []) (\<lambda>(_, out). Inr (0, out))"

definition putchar :: "u32 \<Rightarrow> u32 \<times> u8 list" where
  "putchar ch = (ch, [ucast ch])"

section \<open>Decimal numbers\<close>

definition dec_value :: "u8 list \<Rightarrow> nat" where
  "dec_value ds = foldl (\<lambda>v d. 10 * v + (unat d - 48)) 0 ds"

definition is_digit :: "u8 \<Rightarrow> bool" where
  "is_digit d \<longleftrightarrow> 48 \<le> unat d \<and> unat d \<le> 57"

lemma foldl_dec: "foldl (\<lambda>v d. 10 * v + (unat d - 48)) a (ds :: u8 list) = a * 10 ^ length ds + foldl (\<lambda>v d. 10 * v + (unat d - 48)) 0 ds"
proof (induction ds arbitrary: a)
  case (Cons d ds)
  show ?case unfolding foldl.simps Cons.IH [of "10 * a + (unat d - 48)"] Cons.IH [of "10 * 0 + (unat d - 48)"] by (simp add: algebra_simps)
qed simp

lemma dec_value_Cons: "dec_value (d # ds) = (unat d - 48) * 10 ^ length ds + dec_value ds"
  unfolding dec_value_def foldl.simps by (subst foldl_dec) simp

lemma digit_facts: "unat (ucast (val mod 10 :: u32) + 0x30 :: u8) = unat val mod 10 + 48"
proof -
  have "unat (val mod 10) = unat val mod 10" by (simp add: unat_mod)
  then have "unat (ucast (val mod 10) :: u8) = unat val mod 10" by (simp add: unsigned_ucast_eq take_bit_eq_mod)
  moreover have "unat val mod 10 < 10" by simp
  ultimately show ?thesis by (simp add: unat_plus_if')
qed

lemma dec_loop_value:
  assumes "unat val < 10 ^ room" "0 < room" "\<forall>d \<in> set buf. is_digit d"
  shows "\<exists>ds. dec_loop room val buf = Inr (ds @ buf) \<and> ds \<noteq> [] \<and> length ds \<le> room \<and> (\<forall>d \<in> set ds. is_digit d) \<and> dec_value ds = unat val
    \<and> (hd ds = 0x30 \<longrightarrow> val = 0)"
  using assms
proof (induction room arbitrary: val buf)
  case (Suc room)
  let ?d = "ucast (val mod 10) + 0x30 :: u8"
  have d: "unat ?d = unat val mod 10 + 48" "is_digit ?d" using digit_facts [of val] by (simp_all add: is_digit_def)
  have q: "unat (val div 10) = unat val div 10" by (simp add: unat_div)
  show ?case
  proof (cases "val div 10 = 0")
    case True
    then have s: "unat val div 10 = 0" using q by simp
    then have v: "unat val mod 10 = unat val" by (simp add: div_eq_0_iff)
    have z: "val = 0" if "?d = 0x30"
    proof -
      have "unat ?d = 48" using that by simp
      then show ?thesis using d(1) v by (simp add: unat_eq_zero)
    qed
    have "dec_loop (Suc room) val buf = Inr ([?d] @ buf)" using True by simp
    then show ?thesis using d v z by (intro exI [of _ "[?d]"]) (simp add: dec_value_def)
  next
    case False
    then have n0: "unat val div 10 \<noteq> 0" using q by (metis unat_eq_zero)
    have lt: "unat (val div 10) < 10 ^ room" using Suc.prems(1) q by (simp add: less_mult_imp_div_less mult.commute)
    then have r0: "0 < room" using n0 q by (cases room) auto
    have dig: "\<forall>d \<in> set (?d # buf). is_digit d" using Suc.prems(3) d(2) by simp
    from Suc.IH [OF lt r0 dig] obtain ds where ds: "dec_loop room (val div 10) (?d # buf) = Inr (ds @ ?d # buf)" "ds \<noteq> []" "length ds \<le> room"
      "\<forall>d \<in> set ds. is_digit d" "dec_value ds = unat (val div 10)" "hd ds = 0x30 \<longrightarrow> val div 10 = 0" by blast
    have "dec_value (ds @ [?d]) = 10 * dec_value ds + (unat ?d - 48)" by (simp add: dec_value_def)
    then have v: "dec_value (ds @ [?d]) = unat val" using ds(5) q d(1) by simp
    have "dec_loop (Suc room) val buf = Inr ((ds @ [?d]) @ buf)" using False ds(1) by (simp add: Let_def)
    then show ?thesis using ds(2-4,6) d(2) v False by (intro exI [of _ "ds @ [?d]"]) auto
  qed
qed simp


text \<open>The number a decimal text stands for, with a sign.\<close>

definition signed_value :: "u8 list \<Rightarrow> int" where
  "signed_value ds = (case ds of d # ds' \<Rightarrow> if d = 0x2D then - int (dec_value ds') else int (dec_value ds) | [] \<Rightarrow> 0)"

lemma PrintDecimal_u32_value:
  "\<exists>ds. PrintDecimal_u32 v = Inr ds \<and> ds \<noteq> [] \<and> length ds \<le> kNumDigits \<and> (\<forall>d \<in> set ds. is_digit d) \<and> dec_value ds = unat v \<and> (hd ds = 0x30 \<longrightarrow> v = 0)"
proof -
  have "unat v < 10 ^ 10" using unat_lt_u32 [of v] by simp
  from dec_loop_value [of v 10 "[]"] this show ?thesis by (simp add: PrintDecimal_u32_def kNumDigits_def)
qed

lemma not_minus: "is_digit d \<Longrightarrow> d \<noteq> 0x2D"
  by (auto simp: is_digit_def)

lemma int_value: "(0 :: int) \<le> sint (v :: u32) \<Longrightarrow> int (unat v) = sint v"
  using sint_lt [of v] uint_sint [of v] by (simp add: take_bit_int_eq_self)

text \<open>C25: \<open>PrintDecimal\<close> never leaves its buffer, and what it prints is the number: reading the text back gives the value, for
  unsigned numbers of at most ten digits and for all signed ones, the least one included.\<close>

theorem decimal_round_trip:
  "(\<exists>ds. PrintDecimal_u32 v = Inr ds \<and> length ds \<le> kNumDigits \<and> (\<forall>d \<in> set ds. is_digit d) \<and> dec_value ds = unat v \<and> (hd ds = 0x30 \<longrightarrow> v = 0))
    \<and> (\<exists>ds. PrintDecimal v = Inr ds \<and> signed_value ds = sint v)"
proof (intro conjI)
  obtain ds where ds: "PrintDecimal_u32 v = Inr ds" "ds \<noteq> []" "length ds \<le> kNumDigits" "\<forall>d \<in> set ds. is_digit d" "dec_value ds = unat v" "hd ds = 0x30 \<longrightarrow> v = 0"
    using PrintDecimal_u32_value [of v] by blast
  then show "\<exists>ds. PrintDecimal_u32 v = Inr ds \<and> length ds \<le> kNumDigits \<and> (\<forall>d \<in> set ds. is_digit d) \<and> dec_value ds = unat v \<and> (hd ds = 0x30 \<longrightarrow> v = 0)" by blast
  show "\<exists>ds. PrintDecimal v = Inr ds \<and> signed_value ds = sint v"
  proof (cases "0 \<le> sint v")
    case True
    obtain d ds' where c: "ds = d # ds'" using ds(2) by (cases ds) auto
    then have "signed_value ds = int (dec_value ds)" using ds(4) not_minus by (simp add: signed_value_def)
    then have "signed_value ds = sint v" using ds(5) int_value [OF True] by simp
    then show ?thesis unfolding PrintDecimal_def if_P [OF True] using ds(1) by blast
  next
    case neg: False
    show ?thesis
    proof (cases "sint v = - 2147483648")
      case True
      have "signed_value [0x2D, 0x32, 0x31, 0x34, 0x37, 0x34, 0x38, 0x33, 0x36, 0x34, 0x38] = - 2147483648" by (simp add: signed_value_def dec_value_def)
      then show ?thesis using True by (simp add: PrintDecimal_def)
    next
      case False
      have u: "int (unat (- v)) = - sint v"
      proof -
        have "sint (- v) = - sint v" unfolding sint_word_minus
          by (rule signed_take_bit_int_eq_self) (use False neg sint_ge [of v] sint_lt [of v] in simp_all)
        moreover from this have "0 \<le> sint (- v)" using neg by simp
        ultimately show ?thesis using int_value by simp
      qed
      obtain es where es: "PrintDecimal_u32 (- v) = Inr es" "dec_value es = unat (- v)" using PrintDecimal_u32_value [of "- v"] by blast
      have "signed_value (0x2D # es) = sint v" using es(2) u by (simp add: signed_value_def)
      then show ?thesis using neg False es(1) by (simp add: PrintDecimal_def)
    qed
  qed
qed

theorem decimal_round_trip_witness:
  "\<exists>ds. PrintDecimal (- 42) = Inr ds \<and> signed_value ds = - 42"
proof -
  have "sint (- 42 :: u32) = - 42" by simp
  with decimal_round_trip [of "- 42"] show ?thesis by metis
qed

section \<open>Hexadecimal numbers\<close>

definition hex_digit :: "u8 \<Rightarrow> nat" where
  "hex_digit d = (if unat d < 58 then unat d - 48 else unat d - 87)"

definition hex_value :: "u8 list \<Rightarrow> nat" where
  "hex_value ds = foldl (\<lambda>v d. 16 * v + hex_digit d) 0 ds"

lemma hex_value_append: "hex_value (xs @ ys) = hex_value xs * 16 ^ length ys + hex_value ys"
proof -
  have "foldl (\<lambda>v d. 16 * v + hex_digit d) a ys = a * 16 ^ length ys + foldl (\<lambda>v d. 16 * v + hex_digit d) 0 ys" for a
  proof (induction ys arbitrary: a)
    case (Cons y ys)
    show ?case unfolding foldl.simps Cons.IH [of "16 * a + hex_digit y"] Cons.IH [of "16 * 0 + hex_digit y"] by (simp add: algebra_simps)
  qed simp
  from this [of "foldl (\<lambda>v d. 16 * v + hex_digit d) 0 xs"] show ?thesis by (simp add: hex_value_def)
qed

lemma PrintNibble_value: "unat v < 16 \<Longrightarrow> hex_value (PrintNibble v) = unat v \<and> length (PrintNibble v) = 1"
proof -
  assume v: "unat v < 16"
  show ?thesis
  proof (cases "unat v < 10")
    case True
    then show ?thesis by (simp add: PrintNibble_def hex_value_def hex_digit_def word_less_nat_alt unat_plus_if')
  next
    case False
    have "0x61 + v - 10 = 0x57 + v" by simp
    moreover have "unat (0x57 + v) = 0x57 + unat v" using v by (simp add: unat_plus_if')
    ultimately show ?thesis using False by (simp add: PrintNibble_def hex_value_def hex_digit_def word_less_nat_alt)
  qed
qed

lemma PrintHex8_value: "hex_value (PrintHex8 v) = unat v \<and> length (PrintHex8 v) = 2"
proof -
  have a: "unat (drop_bit 4 v) = unat v div 16" by (simp add: unsigned_drop_bit_eq drop_bit_eq_div unat_div)
  have b: "unat (v AND 0xF) = unat v mod 16"
  proof -
    have "v AND 0xF = take_bit 4 v" by (simp add: take_bit_eq_mask mask_eq_exp_minus_1)
    then show ?thesis by (simp add: unat_mod take_bit_eq_mod)
  qed
  have "unat v < 256" using unsigned_less [of v] by simp
  then have "unat (drop_bit 4 v) < 16" "unat (v AND 0xF) < 16" unfolding a b by (simp_all add: less_mult_imp_div_less)
  note n = PrintNibble_value [OF this(1)] PrintNibble_value [OF this(2)]
  show ?thesis unfolding PrintHex8_def hex_value_append using n by (simp add: a b)
qed

lemma PrintHex16_value: "hex_value (PrintHex16 v) = unat v \<and> length (PrintHex16 v) = 4"
proof -
  have "unat (ucast (drop_bit 8 v) :: u8) = unat v div 256"
  proof -
    have "unat v < 65536" using unsigned_less [of v] by simp
    then show ?thesis by (simp add: unsigned_ucast_eq unsigned_drop_bit_eq drop_bit_eq_div unat_div take_bit_eq_mod less_mult_imp_div_less)
  qed
  moreover have "unat (ucast v :: u8) = unat v mod 256" by (simp add: unsigned_ucast_eq take_bit_eq_mod)
  ultimately show ?thesis unfolding PrintHex16_def hex_value_append by (simp add: PrintHex8_value)
qed

lemma PrintHex32_value: "hex_value (PrintHex32 v) = unat v \<and> length (PrintHex32 v) = 8"
proof -
  have "unat (ucast (drop_bit 16 v) :: u16) = unat v div 65536"
    using unat_lt_u32 [of v] by (simp add: unsigned_ucast_eq unsigned_drop_bit_eq drop_bit_eq_div unat_div take_bit_eq_mod less_mult_imp_div_less)
  moreover have "unat (ucast v :: u16) = unat v mod 65536" by (simp add: unsigned_ucast_eq take_bit_eq_mod)
  ultimately show ?thesis unfolding PrintHex32_def hex_value_append by (simp add: PrintHex16_value)
qed

text \<open>The hexadecimal text has a fixed width and reads back to the value.\<close>

lemma hex_round_trip: "hex_value (PrintHex64 v) = unat v \<and> length (PrintHex64 v) = 16"
proof -
  have "unat v < 18446744073709551616" using unsigned_less [of v] by simp
  then have "unat (ucast (drop_bit 32 v) :: u32) = unat v div 4294967296"
    by (simp add: unsigned_ucast_eq unsigned_drop_bit_eq drop_bit_eq_div unat_div take_bit_eq_mod less_mult_imp_div_less)
  moreover have "unat (ucast v :: u32) = unat v mod 4294967296" by (simp add: unsigned_ucast_eq take_bit_eq_mod)
  ultimately show ?thesis unfolding PrintHex64_def hex_value_append by (simp add: PrintHex32_value)
qed

section \<open>Formats and what they print\<close>

text \<open>
  Numbers as texts, written down independently of the code: the decimal numeral without leading zeros, with a sign when negative, and the lower-case hexadecimal numeral of a given width.
\<close>

definition hex_char :: "nat \<Rightarrow> u8" where
  "hex_char d = [0x30, 0x31, 0x32, 0x33, 0x34, 0x35, 0x36, 0x37, 0x38, 0x39, 0x61, 0x62, 0x63, 0x64, 0x65, 0x66] ! d"

fun dec_text :: "nat \<Rightarrow> u8 list" where
  "dec_text v = (if v < 10 then [hex_char v] else dec_text (v div 10) @ [hex_char (v mod 10)])"

definition int_text :: "int \<Rightarrow> u8 list" where
  "int_text i = (if i < 0 then 0x2D # dec_text (nat (- i)) else dec_text (nat i))"

fun hex_text :: "nat \<Rightarrow> nat \<Rightarrow> u8 list" where
  "hex_text 0 v = []"
| "hex_text (Suc k) v = hex_text k (v div 16) @ [hex_char (v mod 16)]"

declare dec_text.simps [simp del]

text \<open>
  A format is a sequence of plain text and directives; a directive comes with the value it is to print. \<open>Long_hex_dir\<close> is \<open>%lx\<close>: the argument is an \<open>unsigned long\<close>, which has 32 bits on this machine although the
  comment in the code says 64, and is printed with eight digits. \<open>given\<close> says that the words of the stack from the \<open>n\<close>-th on are that value: a 32-bit number for signed and unsigned numbers, an address for a string, two words for \<open>%llx\<close>.
\<close>

datatype directive = Lit "u8 list" | Char_dir u8 | Dec_dir int | Unsigned_dir nat | String_dir "u8 list" | Pointer_dir nat | Hex_dir nat | Long_hex_dir nat | Long_long_hex_dir nat

fun dir_text :: "directive \<Rightarrow> u8 list" where
  "dir_text (Lit bs) = bs"
| "dir_text (Char_dir c) = [0x25, 0x63]"
| "dir_text (Dec_dir i) = [0x25, 0x64]"
| "dir_text (Unsigned_dir v) = [0x25, 0x75]"
| "dir_text (String_dir cs) = [0x25, 0x73]"
| "dir_text (Pointer_dir v) = [0x25, 0x70]"
| "dir_text (Hex_dir v) = [0x25, 0x78]"
| "dir_text (Long_hex_dir v) = [0x25, 0x6C, 0x78]"
| "dir_text (Long_long_hex_dir v) = [0x25, 0x6C, 0x6C, 0x78]"

fun dir_args :: "directive \<Rightarrow> nat" where
  "dir_args (Lit bs) = 0"
| "dir_args (Long_long_hex_dir v) = 2"
| "dir_args _ = 1"

fun dir_out :: "directive \<Rightarrow> u8 list" where
  "dir_out (Lit bs) = bs"
| "dir_out (Char_dir c) = [c]"
| "dir_out (Dec_dir i) = int_text i"
| "dir_out (Unsigned_dir v) = dec_text v"
| "dir_out (String_dir cs) = cs"
| "dir_out (Pointer_dir v) = [0x30, 0x78] @ hex_text 8 v"
| "dir_out (Hex_dir v) = hex_text 8 v"
| "dir_out (Long_hex_dir v) = hex_text 8 v"
| "dir_out (Long_long_hex_dir v) = hex_text 16 v"

fun given :: "bmem \<Rightarrow> (nat \<Rightarrow> u32) \<Rightarrow> nat \<Rightarrow> directive \<Rightarrow> bool" where
  "given m ap n (Lit bs) \<longleftrightarrow> 0x25 \<notin> set bs"
| "given m ap n (Char_dir c) \<longleftrightarrow> c = ucast (ap n)"
| "given m ap n (Dec_dir i) \<longleftrightarrow> i = sint (ap n)"
| "given m ap n (Unsigned_dir v) \<longleftrightarrow> v = unat (ap n)"
| "given m ap n (String_dir cs) \<longleftrightarrow> cstr m (ap n) cs"
| "given m ap n (Pointer_dir v) \<longleftrightarrow> v = unat (ap n)"
| "given m ap n (Hex_dir v) \<longleftrightarrow> v = unat (ap n)"
| "given m ap n (Long_hex_dir v) \<longleftrightarrow> v = unat (ap n)"
| "given m ap n (Long_long_hex_dir v) \<longleftrightarrow> v = unat (ap n) + 4294967296 * unat (ap (Suc n))"

fun given_all :: "bmem \<Rightarrow> (nat \<Rightarrow> u32) \<Rightarrow> nat \<Rightarrow> directive list \<Rightarrow> bool" where
  "given_all m ap n [] \<longleftrightarrow> True"
| "given_all m ap n (d # ds) \<longleftrightarrow> given m ap n d \<and> given_all m ap (n + dir_args d) ds"

text \<open>The code prints these numerals.\<close>

lemma hex_char_dec: "d < 10 \<Longrightarrow> hex_char d = word_of_nat (48 + d)"
proof -
  assume "d < 10"
  then have "d \<in> {0, 1, 2, 3, 4, 5, 6, 7, 8, 9}" by auto
  then show ?thesis by (elim insertE emptyE) (simp_all add: hex_char_def)
qed

lemma hex_char_hex: "10 \<le> d \<Longrightarrow> d < 16 \<Longrightarrow> hex_char d = word_of_nat (87 + d)"
proof -
  assume "10 \<le> d" "d < 16"
  then have "d \<in> {10, 11, 12, 13, 14, 15}" by auto
  then show ?thesis by (elim insertE emptyE) (simp_all add: hex_char_def)
qed

lemma dec_digit: "ucast (val mod 10 :: u32) + 0x30 = (hex_char (unat val mod 10) :: u8)"
proof -
  have "hex_char (unat val mod 10) = word_of_nat (48 + unat val mod 10)" by (rule hex_char_dec) simp
  moreover have "unat val mod 10 < 10" by simp
  ultimately have "unat (hex_char (unat val mod 10)) = unat val mod 10 + 48" by (simp only: unsigned_of_nat) (simp add: take_bit_eq_mod)
  then show ?thesis using digit_facts [of val] unfolding word_unat_eq_iff by simp
qed

lemma dec_loop_text: "unat val < 10 ^ room \<Longrightarrow> 0 < room \<Longrightarrow> dec_loop room val buf = Inr (dec_text (unat val) @ buf)"
proof (induction room arbitrary: val buf)
  case (Suc room)
  have q: "unat (val div 10) = unat val div 10" by (simp add: unat_div)
  show ?case
  proof (cases "unat val < 10")
    case True
    then have "val div 10 = 0" using q by (simp add: word_unat_eq_iff)
    moreover have "dec_text (unat val) = [hex_char (unat val)]" using True by (subst dec_text.simps) simp
    ultimately show ?thesis using dec_digit [of val] True by (simp add: Let_def)
  next
    case False
    then have "unat val div 10 \<noteq> 0" by simp
    then have nz: "val div 10 \<noteq> 0" using q by (metis unat_0)
    have lt: "unat (val div 10) < 10 ^ room" using Suc.prems(1) q by (simp add: less_mult_imp_div_less mult.commute)
    then have "0 < room" using \<open>unat val div 10 \<noteq> 0\<close> q by (cases room) auto
    from Suc.IH [OF lt this] have "dec_loop room (val div 10) (hex_char (unat val mod 10) # buf) = Inr (dec_text (unat val div 10) @ hex_char (unat val mod 10) # buf)" unfolding q .
    moreover have "dec_text (unat val) = dec_text (unat val div 10) @ [hex_char (unat val mod 10)]" using False by (subst dec_text.simps) simp
    ultimately show ?thesis using nz by (simp add: Let_def dec_digit)
  qed
qed simp

lemma PrintDecimal_u32_text: "PrintDecimal_u32 v = Inr (dec_text (unat v))"
proof -
  have "unat v < 10 ^ 10" using unat_lt_u32 [of v] by simp
  then show ?thesis using dec_loop_text [of v 10 "[]"] by (simp add: PrintDecimal_u32_def kNumDigits_def)
qed

lemma least_int_text: "dec_text 2147483648 = [0x32, 0x31, 0x34, 0x37, 0x34, 0x38, 0x33, 0x36, 0x34, 0x38]"
  by (simp add: dec_text.simps hex_char_def)

lemma PrintDecimal_text: "PrintDecimal v = Inr (int_text (sint v))"
proof (cases "0 \<le> sint v")
  case True
  then have "nat (sint v) = unat v" using int_value [OF True] nat_int [of "unat v"] by metis
  then show ?thesis using True PrintDecimal_u32_text by (simp add: PrintDecimal_def int_text_def)
next
  case neg: False
  show ?thesis
  proof (cases "sint v = - 2147483648")
    case False
    have "sint (- v) = - sint v" unfolding sint_word_minus
      by (rule signed_take_bit_int_eq_self) (use False neg sint_ge [of v] sint_lt [of v] in simp_all)
    then have "int (unat (- v)) = - sint v" using int_value [of "- v"] neg by simp
    then have "nat (- sint v) = unat (- v)" using nat_int [of "unat (- v)"] by metis
    then show ?thesis using neg False PrintDecimal_u32_text [of "- v"] by (simp add: PrintDecimal_def int_text_def)
  qed (use least_int_text in \<open>simp add: PrintDecimal_def int_text_def\<close>)
qed

lemma hex_text_append: "hex_text (j + k) v = hex_text j (v div 16 ^ k) @ hex_text k v"
  by (induction k arbitrary: v) (simp_all add: div_mult2_eq)

lemma hex_text_mod: "hex_text k (v mod 16 ^ k) = hex_text k v"
proof (induction k arbitrary: v)
  case (Suc k)
  have "v mod (16 * 16 ^ k) div 16 = v div 16 mod 16 ^ k" "v mod (16 * 16 ^ k) mod 16 = v mod 16"
    by (simp_all add: mod_mult2_eq)
  then show ?case using Suc [of "v div 16"] by simp
qed simp

lemma PrintNibble_text: "unat v < 16 \<Longrightarrow> PrintNibble v = hex_text 1 (unat v)"
proof -
  assume v: "unat v < 16"
  show ?thesis
  proof (cases "unat v < 10")
    case True
    have "0x30 + v = hex_char (unat v)" using hex_char_dec [OF True] by simp
    then show ?thesis using True by (simp add: PrintNibble_def word_less_nat_alt)
  next
    case False
    have "0x61 + v - 10 = hex_char (unat v)" using hex_char_hex [of "unat v"] False v by simp
    then show ?thesis using False v by (simp add: PrintNibble_def word_less_nat_alt)
  qed
qed

lemma PrintHex8_text: "PrintHex8 v = hex_text 2 (unat v)"
proof -
  have a: "unat (drop_bit 4 v) = unat v div 16" by (simp add: unsigned_drop_bit_eq drop_bit_eq_div unat_div)
  have "v AND 0xF = take_bit 4 v" by (simp add: take_bit_eq_mask mask_eq_exp_minus_1)
  then have b: "unat (v AND 0xF) = unat v mod 16" by (simp add: unat_mod take_bit_eq_mod)
  have "unat v < 256" using unsigned_less [of v] by simp
  then have "unat (drop_bit 4 v) < 16" "unat (v AND 0xF) < 16" unfolding a b by (simp_all add: less_mult_imp_div_less)
  from PrintNibble_text [OF this(1)] PrintNibble_text [OF this(2)] show ?thesis
    using hex_text_append [of 1 1 "unat v"] by (simp add: PrintHex8_def a b numeral_2_eq_2)
qed

text \<open>A number that is printed as its upper and its lower half.\<close>

lemma hex_halves: "unat hi = v div 16 ^ k \<Longrightarrow> unat lo = v mod 16 ^ k \<Longrightarrow> hex_text j (unat hi) @ hex_text k (unat lo) = hex_text (j + k) v"
  using hex_text_append [of j k v] hex_text_mod [of k v] by simp

lemma PrintHex16_text: "PrintHex16 v = hex_text 4 (unat v)"
proof -
  have "unat v < 65536" using unsigned_less [of v] by simp
  then have "unat (ucast (drop_bit 8 v) :: u8) = unat v div 16 ^ 2"
    by (simp add: unsigned_ucast_eq unsigned_drop_bit_eq drop_bit_eq_div unat_div take_bit_eq_mod less_mult_imp_div_less)
  moreover have "unat (ucast v :: u8) = unat v mod 16 ^ 2" by (simp add: unsigned_ucast_eq take_bit_eq_mod)
  ultimately show ?thesis using hex_halves [of "ucast (drop_bit 8 v) :: u8" "unat v" 2 "ucast v :: u8" 2] by (simp add: PrintHex16_def PrintHex8_text)
qed

lemma PrintHex32_text: "PrintHex32 v = hex_text 8 (unat v)"
proof -
  have "unat (ucast (drop_bit 16 v) :: u16) = unat v div 16 ^ 4"
    using unat_lt_u32 [of v] by (simp add: unsigned_ucast_eq unsigned_drop_bit_eq drop_bit_eq_div unat_div take_bit_eq_mod less_mult_imp_div_less)
  moreover have "unat (ucast v :: u16) = unat v mod 16 ^ 4" by (simp add: unsigned_ucast_eq take_bit_eq_mod)
  ultimately show ?thesis using hex_halves [of "ucast (drop_bit 16 v) :: u16" "unat v" 4 "ucast v :: u16" 4] by (simp add: PrintHex32_def PrintHex16_text)
qed

lemma PrintHex64_text: "PrintHex64 (long_arg ap n) = hex_text 16 (unat (ap n) + 4294967296 * unat (ap (Suc n)))"
proof -
  let ?v = "unat (ap n) + 4294967296 * unat (ap (Suc n))"
  have b: "bit (long_arg ap n) i \<longleftrightarrow> (if i < 32 then bit (ap n) i else i < 64 \<and> bit (ap (Suc n)) (i - 32))" for i
    using bit_imp_le_length [of "ap n" i] by (auto simp: long_arg_def bit_simps)
  have "(ucast (drop_bit 32 (long_arg ap n)) :: u32) = ap (Suc n)" "(ucast (long_arg ap n) :: u32) = ap n"
    by (rule bit_word_eqI; simp add: b bit_simps)+
  then show ?thesis using hex_halves [of "ap (Suc n)" ?v 8 "ap n" 8] unat_lt_u32 [of "ap n"] by (simp add: PrintHex64_def PrintHex32_text)
qed

lemma Format_lit: "0x25 \<notin> set bs \<Longrightarrow> Format m ap n (bs @ fmt) out = Format m ap n fmt (out @ bs)"
proof (induction bs arbitrary: out)
  case (Cons b bs)
  then show ?case by (subst Format.simps) simp
qed simp

lemma string_arg_cstr: "cstr m a cs \<Longrightarrow> string_arg m a = Inr cs"
  using cstr_bytes [of m a cs] strlen_cstr [of m a cs] cstr_length [of m a cs] by (simp add: string_arg_def unat_of_nat_u32)

lemmas numerals_printed = PrintDecimal_text PrintDecimal_u32_text PrintHex32_text PrintHex64_text string_arg_cstr

lemma Format_dir: "given m ap n d \<Longrightarrow> Format m ap n (dir_text d @ fmt) out = Format m ap (n + dir_args d) fmt (out @ dir_out d)"
proof (cases d)
  case (Lit bs)
  then show "given m ap n d \<Longrightarrow> ?thesis" using Format_lit by simp
qed (subst Format.simps, simp add: numerals_printed)+



end
