(* ===== verification/StdString.thy ===== *)
theory StdString
  imports CString
begin

text \<open>
  \<open>std::string\<close> of \<open>src/libcxx/include/string\<close>: the block behind \<open>data_\<close> and the field \<open>length_\<close>. The constructors, \<open>+=\<close> and
  \<open>erase\<close> keep a zero byte behind the characters; \<open>operator=\<close> does not. The second part gives the same operations on
  the characters alone, which the users of the class are modelled with, and relates the two.
  \<open>__throw_out_of_range\<close> ends in \<open>abort\<close>, as the build has no exceptions. The blocks themselves come from \<open>malloc\<close>, which is
  taken to succeed here; lengths are numbers that do not wrap, as no block has \<open>2 ^ 32\<close> bytes.
\<close>

section \<open>The class\<close>

record cxxstring =
  str_data :: "u8 list"
  str_length :: nat

definition npos :: nat where "npos = 4294967295"

definition string_empty :: cxxstring where
  "string_empty = \<lparr>str_data = [0], str_length = 0\<rparr>"

definition string_char :: "u8 \<Rightarrow> cxxstring" where
  "string_char c = \<lparr>str_data = [c, 0], str_length = 1\<rparr>"

text \<open>From a C string; without a terminator the constructor does not return.\<close>

definition string_cstr :: "bmem \<Rightarrow> u32 \<Rightarrow> cxxstring option" where
  "string_cstr m str = map_option (\<lambda>len. \<lparr>str_data = bytes_at m str (unat len) @ [0], str_length = unat len\<rparr>) (strlen m str)"

definition string_mem :: "bmem \<Rightarrow> u32 \<Rightarrow> nat \<Rightarrow> cxxstring" where
  "string_mem m other count = \<lparr>str_data = bytes_at m other count @ [0], str_length = count\<rparr>"

definition string_at :: "cxxstring \<Rightarrow> nat \<Rightarrow> u8 result" where
  "string_at s j = (if j \<ge> str_length s then Inl Abort_called else Inr (str_data s ! j))"

text \<open>A byte through an iterator, for which nothing is checked.\<close>

definition string_deref :: "cxxstring \<Rightarrow> nat \<Rightarrow> u8 result" where
  "string_deref s j = (if j < length (str_data s) then Inr (str_data s ! j) else Inl Out_of_bounds)"

definition string_copy :: "cxxstring \<Rightarrow> cxxstring" where
  "string_copy s = \<lparr>str_data = map (\<lambda>j. str_data s ! j) [0..<str_length s] @ [0], str_length = str_length s\<rparr>"

definition string_sub :: "cxxstring \<Rightarrow> nat \<Rightarrow> nat \<Rightarrow> cxxstring result" where
  "string_sub other pos count =
     (if pos > str_length other then Inl Abort_called
      else let len = min (str_length other - pos) count in
        Inr \<lparr>str_data = map (\<lambda>i. str_data other ! (pos + i)) [0..<len] @ [0], str_length = len\<rparr>)"

text \<open>\<open>memmove\<close> inside the block, then the terminator.\<close>

definition move_block :: "u8 list \<Rightarrow> nat \<Rightarrow> nat \<Rightarrow> nat \<Rightarrow> u8 list" where
  "move_block d dst src n = take dst d @ take n (drop src d) @ drop (dst + n) d"

definition string_erase_range :: "cxxstring \<Rightarrow> nat \<Rightarrow> nat \<Rightarrow> cxxstring result" where
  "string_erase_range s first last0 =
     check (first < str_length s) (check (0 < last0) (check (first < last0)
     (let lst = (if last0 > str_length s then str_length s else last0);
          remaining = str_length s - lst in
      Inr \<lparr>str_data = (move_block (str_data s) first lst remaining)[first + remaining := 0], str_length = str_length s - (lst - first)\<rparr>)))"

definition string_erase :: "cxxstring \<Rightarrow> nat \<Rightarrow> nat \<Rightarrow> cxxstring result" where
  "string_erase s index count =
     (if index > str_length s then Inl Abort_called
      else string_erase_range s index (index + min count (str_length s - index)))"

definition string_erase_at :: "cxxstring \<Rightarrow> nat \<Rightarrow> cxxstring result" where
  "string_erase_at s pos = string_erase_range s pos (pos + 1)"

text \<open>The loop of \<open>find\<close> stops at \<open>end()\<close> only: started behind it, it leaves the block.\<close>

function find_loop :: "cxxstring \<Rightarrow> u8 \<Rightarrow> nat \<Rightarrow> nat result" where
  "find_loop s c i =
     (if i = str_length s then Inr npos
      else if i < length (str_data s) then (if str_data s ! i = c then Inr i else find_loop s c (Suc i))
      else Inl Out_of_bounds)"
  by pat_completeness auto
termination by (relation "measure (\<lambda>(s, c, i). length (str_data s) - i)") auto

declare find_loop.simps [simp del]

definition string_find :: "cxxstring \<Rightarrow> u8 \<Rightarrow> nat \<Rightarrow> nat result" where
  "string_find s c pos = find_loop s c pos"

text \<open>\<open>strncmp\<close> on two blocks.\<close>

fun strncmp_data :: "u8 list \<Rightarrow> u8 list \<Rightarrow> nat \<Rightarrow> int result" where
  "strncmp_data (x # xs) (y # ys) n =
     (if x \<noteq> 0 \<and> x = y then (case n of 0 \<Rightarrow> Inr 0 | Suc k \<Rightarrow> strncmp_data xs ys k)
      else Inr (if n \<noteq> 0 then sint x - sint y else 0))"
| "strncmp_data [] ys n = Inl Out_of_bounds"
| "strncmp_data xs [] n = Inl Out_of_bounds"

definition string_starts_with :: "cxxstring \<Rightarrow> cxxstring \<Rightarrow> bool result" where
  "string_starts_with s other =
     (if str_length other > str_length s then Inr False
      else if str_length other = 0 then Inr True
      else bindr (strncmp_data (str_data other) (str_data s) (str_length other)) (\<lambda>d. Inr (d = 0)))"

definition string_assign :: "cxxstring \<Rightarrow> cxxstring" where
  "string_assign s = \<lparr>str_data = map (\<lambda>j. str_data s ! j) [0..<str_length s], str_length = str_length s\<rparr>"

definition string_append :: "cxxstring \<Rightarrow> cxxstring \<Rightarrow> cxxstring" where
  "string_append s t =
     \<lparr>str_data = map (\<lambda>j. str_data s ! j) [0..<str_length s] @ map (\<lambda>i. str_data t ! i) [0..<str_length t] @ [0],
      str_length = str_length s + str_length t\<rparr>"

definition string_plus :: "cxxstring \<Rightarrow> cxxstring \<Rightarrow> cxxstring" where
  "string_plus s t = string_append (string_copy s) t"

function eq_loop :: "cxxstring \<Rightarrow> cxxstring \<Rightarrow> nat \<Rightarrow> nat" where
  "eq_loop s t n = (if n < str_length s \<and> str_data s ! n = str_data t ! n then eq_loop s t (Suc n) else n)"
  by pat_completeness auto
termination by (relation "measure (\<lambda>(s, t, n). str_length s - n)") auto

declare eq_loop.simps [simp del]

definition string_eq :: "cxxstring \<Rightarrow> cxxstring \<Rightarrow> bool" where
  "string_eq s t \<longleftrightarrow> (if str_length s \<noteq> str_length t then False else eq_loop s t 0 = str_length s)"

section \<open>The characters\<close>

definition chars :: "cxxstring \<Rightarrow> u8 list" where
  "chars s = take (str_length s) (str_data s)"

definition terminated :: "cxxstring \<Rightarrow> bool" where
  "terminated s \<longleftrightarrow> str_length s < length (str_data s) \<and> str_data s ! str_length s = 0"

definition chr_at :: "u8 list \<Rightarrow> nat \<Rightarrow> u8 result" where
  "chr_at s j = (if j < length s then Inr (s ! j) else Inl Abort_called)"

definition sub_chars :: "u8 list \<Rightarrow> nat \<Rightarrow> nat \<Rightarrow> u8 list result" where
  "sub_chars s pos count = (if pos > length s then Inl Abort_called else Inr (take count (drop pos s)))"

definition erase_chars :: "u8 list \<Rightarrow> nat \<Rightarrow> nat \<Rightarrow> u8 list result" where
  "erase_chars s i n =
     (if i > length s then Inl Abort_called else check (i < length s \<and> 0 < n) (Inr (take i s @ drop (i + n) s)))"

fun index_of :: "u8 \<Rightarrow> u8 list \<Rightarrow> nat option" where
  "index_of c [] = None"
| "index_of c (x # xs) = (if x = c then Some 0 else map_option Suc (index_of c xs))"

definition find_chr :: "u8 list \<Rightarrow> u8 \<Rightarrow> nat \<Rightarrow> nat result" where
  "find_chr s c pos = (if pos > length s then Inl Out_of_bounds
     else Inr (case index_of c (drop pos s) of None \<Rightarrow> npos | Some i \<Rightarrow> pos + i))"

text \<open>A result of the class stands for a result on characters.\<close>

fun stands_for :: "cxxstring result \<Rightarrow> u8 list result \<Rightarrow> bool" where
  "stands_for (Inr s) r \<longleftrightarrow> terminated s \<and> r = Inr (chars s)"
| "stands_for (Inl e) r \<longleftrightarrow> r = Inl e"

named_theorems string_defs "fields of the strings that operations build"

lemma length_chars: "terminated s \<Longrightarrow> length (chars s) = str_length s"
  by (simp add: chars_def terminated_def)

lemma nth_chars: "j < str_length s \<Longrightarrow> chars s ! j = str_data s ! j"
  by (simp add: chars_def)

lemma map_data: "terminated s \<Longrightarrow> p + n \<le> str_length s \<Longrightarrow> map (\<lambda>i. str_data s ! (p + i)) [0..<n] = take n (drop p (chars s))"
  by (rule nth_equalityI) (auto simp: nth_chars length_chars)

lemma new_string: "terminated \<lparr>str_data = cs @ [0], str_length = length cs\<rparr>" "chars \<lparr>str_data = cs @ [0], str_length = length cs\<rparr> = cs"
  by (simp_all add: terminated_def chars_def)

lemma string_ctors:
  "terminated string_empty" "chars string_empty = []" "terminated (string_char c)" "chars (string_char c) = [c]"
  "terminated (string_mem m a n)" "chars (string_mem m a n) = bytes_at m a n"
  using new_string [of "bytes_at m a n"] by (simp_all add: string_empty_def string_char_def string_mem_def terminated_def chars_def)

lemma string_cstr_chars: "cstr m a cs \<Longrightarrow> \<exists>s. string_cstr m a = Some s \<and> terminated s \<and> chars s = cs"
  using cstr_bytes [of m a cs] strlen_cstr [of m a cs] cstr_length [of m a cs] new_string [of cs]
  by (auto simp: string_cstr_def unat_of_nat_u32)

lemma string_copy_chars: "terminated s \<Longrightarrow> terminated (string_copy s) \<and> chars (string_copy s) = chars s"
  using map_data [of s 0 "str_length s"] new_string [of "chars s"] by (simp add: string_copy_def length_chars)

lemma string_at_chars: "terminated s \<Longrightarrow> string_at s j = chr_at (chars s) j"
  by (simp add: string_at_def chr_at_def length_chars nth_chars)

lemma string_sub_chars: "terminated s \<Longrightarrow> stands_for (string_sub s p n) (sub_chars (chars s) p n)"
proof (cases "p > str_length s")
  case False
  assume s: "terminated s"
  let ?n = "min (str_length s - p) n"
  have "map (\<lambda>i. str_data s ! (p + i)) [0..<?n] = take n (drop p (chars s))"
  proof -
    have "take ?n (drop p (chars s)) = take n (drop p (chars s))" by (simp add: length_chars [OF s] min_def)
    then show ?thesis using map_data [OF s, of p ?n] False by simp
  qed
  with new_string [of "take n (drop p (chars s))"] False show ?thesis
    by (simp add: string_sub_def sub_chars_def length_chars [OF s] Let_def min.commute)
qed (simp add: string_sub_def sub_chars_def length_chars)

lemma move_block_chars:
  assumes "first < lst" "lst \<le> n" "n < length d"
  shows "take (first + (n - lst)) ((move_block d first lst (n - lst))[first + (n - lst) := x]) = take first (take n d) @ drop lst (take n d)"
    and "length (move_block d first lst (n - lst)) = length d"
  using assms by (simp_all add: move_block_def take_drop)

lemma string_erase_range_chars:
  assumes s: "terminated s" and i: "i < j" "j \<le> str_length s"
  shows "stands_for (string_erase_range s i j) (Inr (take i (chars s) @ drop j (chars s)))"
proof -
  let ?n = "str_length s" and ?d = "str_data s"
  have n: "?n < length ?d" using s by (simp add: terminated_def)
  have l: "?n - (j - i) = i + (?n - j)" using i by simp
  note m = move_block_chars [OF i n]
  show ?thesis using i n m unfolding string_erase_range_def
    by (simp add: terminated_def l chars_def)
qed

lemma string_erase_chars: 
  assumes s: "terminated s"
  shows "stands_for (string_erase s i n) (erase_chars (chars s) i n)"
proof -
  let ?j = "i + min n (str_length s - i)"
  consider "i > str_length s" | "i = str_length s \<or> i < str_length s \<and> n = 0" | "i < str_length s" "0 < n" by linarith
  then show ?thesis
  proof cases
    case 3
    have "drop (i + n) (chars s) = drop ?j (chars s)" using 3 by (simp add: length_chars [OF s] min_def)
    with string_erase_range_chars [OF s, of i ?j] 3 show ?thesis by (simp add: string_erase_def erase_chars_def length_chars [OF s])
  qed (auto simp: string_erase_def erase_chars_def length_chars [OF s] string_erase_range_def)
qed

lemma string_find_chars:
  assumes s: "terminated s"
  shows "p \<le> str_length s \<Longrightarrow> string_find s c p = find_chr (chars s) c p"
  unfolding string_find_def
proof (induction "str_length s - p" arbitrary: p)
  case 0
  then show ?case by (subst find_loop.simps) (simp add: find_chr_def length_chars [OF s])
next
  case (Suc k)
  then have p: "p < str_length s" by linarith
  then have d: "drop p (chars s) = str_data s ! p # drop (Suc p) (chars s)"
    by (metis Cons_nth_drop_Suc length_chars [OF s] nth_chars)
  have "p < length (str_data s)" using p s by (simp add: terminated_def)
  moreover have "find_loop s c (Suc p) = find_chr (chars s) c (Suc p)" using Suc p by simp
  ultimately show ?case using p d
    by (subst find_loop.simps) (auto simp: find_chr_def length_chars [OF s] split: option.splits)
qed

lemma string_append_chars: "terminated s \<Longrightarrow> terminated t \<Longrightarrow> terminated (string_append s t) \<and> chars (string_append s t) = chars s @ chars t"
  using map_data [of s 0 "str_length s"] map_data [of t 0 "str_length t"] new_string [of "chars s @ chars t"]
  by (simp add: string_append_def length_chars)

lemma eq_loop_chars: "n \<le> str_length s \<Longrightarrow> eq_loop s t n = str_length s \<longleftrightarrow> (\<forall>j. n \<le> j \<and> j < str_length s \<longrightarrow> str_data s ! j = str_data t ! j)"
proof (induction "str_length s - n" arbitrary: n)
  case (Suc k)
  then have n: "n < str_length s" by linarith
  with Suc have IH: "eq_loop s t (Suc n) = str_length s \<longleftrightarrow> (\<forall>j. Suc n \<le> j \<and> j < str_length s \<longrightarrow> str_data s ! j = str_data t ! j)" by simp
  show ?case
  proof (cases "str_data s ! n = str_data t ! n")
    case True
    then have "(\<forall>j. n \<le> j \<and> j < str_length s \<longrightarrow> str_data s ! j = str_data t ! j) \<longleftrightarrow> (\<forall>j. Suc n \<le> j \<and> j < str_length s \<longrightarrow> str_data s ! j = str_data t ! j)"
      by (metis Suc_leD le_antisym not_less_eq_eq)
    with True n IH show ?thesis by (subst eq_loop.simps) simp
  qed (use n in \<open>subst eq_loop.simps, auto\<close>)
qed (subst eq_loop.simps, auto)

lemma string_eq_chars: "terminated s \<Longrightarrow> terminated t \<Longrightarrow> string_eq s t \<longleftrightarrow> chars s = chars t"
  using eq_loop_chars [of 0 s t] by (auto simp: string_eq_def list_eq_iff_nth_eq length_chars nth_chars)

lemma strncmp_data_prefix:
  "0 \<notin> set xs \<Longrightarrow> length xs \<le> length ys \<Longrightarrow> \<exists>d. strncmp_data (xs @ 0 # us) (ys @ y # vs) (length xs) = Inr d \<and> (d = 0 \<longleftrightarrow> prefix xs ys)"
proof (induction xs arbitrary: ys)
  case Nil
  then show ?case by (cases ys) simp_all
next
  case (Cons x xs)
  then obtain z zs where ys: "ys = z # zs" by (cases ys) auto
  have "sint x - sint z = 0 \<longleftrightarrow> x = z" by (metis eq_iff_diff_eq_0 signed_word_eqI)
  with Cons ys show ?case by auto
qed

lemma data_split: "terminated s \<Longrightarrow> str_data s = chars s @ 0 # drop (Suc (str_length s)) (str_data s)"
  unfolding terminated_def chars_def by (metis id_take_nth_drop)

lemma string_starts_with_chars:
  assumes "terminated s" "terminated t" "0 \<notin> set (chars t)"
  shows "string_starts_with s t = Inr (prefix (chars t) (chars s))"
proof (cases "str_length t > str_length s")
  case True
  then show ?thesis using assms prefix_length_le [of "chars t" "chars s"] by (auto simp: string_starts_with_def length_chars)
next
  case False
  then have "length (chars t) \<le> length (chars s)" using assms by (simp add: length_chars)
  from strncmp_data_prefix [OF assms(3) this, of "drop (Suc (str_length t)) (str_data t)" 0 "drop (Suc (str_length s)) (str_data s)"]
  obtain d where d: "strncmp_data (str_data t) (str_data s) (str_length t) = Inr d" "d = 0 \<longleftrightarrow> prefix (chars t) (chars s)"
    unfolding data_split [OF assms(1), symmetric] data_split [OF assms(2), symmetric] length_chars [OF assms(2)] by blast
  have "chars t = []" if "str_length t = 0" using that by (simp add: chars_def)
  with d False show ?thesis by (auto simp: string_starts_with_def)
qed

lemma string_assign_chars: "terminated s \<Longrightarrow> chars (string_assign s) = chars s \<and> \<not> terminated (string_assign s)"
  using map_data [of s 0 "str_length s"] by (simp add: string_assign_def length_chars terminated_def) (simp add: chars_def)

lemma string_erase_at_chars:
  assumes "terminated s"
  shows "if p < str_length s then stands_for (string_erase_at s p) (Inr (take p (chars s) @ drop (Suc p) (chars s))) else string_erase_at s p = Inl Assert_failed"
  using string_erase_range_chars [OF assms, of p "Suc p"] by (auto simp: string_erase_at_def string_erase_range_def)

lemma find_chr_first:
  assumes "p \<le> length cs"
  shows "if c \<in> set (drop p cs) then \<exists>i. find_chr cs c p = Inr i \<and> p \<le> i \<and> i < length cs \<and> cs ! i = c \<and> (\<forall>j. p \<le> j \<and> j < i \<longrightarrow> cs ! j \<noteq> c)
    else find_chr cs c p = Inr npos"
proof -
  have ix: "case index_of c xs of None \<Rightarrow> c \<notin> set xs | Some i \<Rightarrow> i < length xs \<and> xs ! i = c \<and> (\<forall>j < i. xs ! j \<noteq> c)" for xs
  proof (induction xs)
    case (Cons x xs)
    then show ?case by (auto split: option.splits simp: nth_Cons')
  qed simp
  show ?thesis
  proof (cases "index_of c (drop p cs)")
    case None
    then show ?thesis using assms ix [of "drop p cs"] by (simp add: find_chr_def)
  next
    case (Some i)
    have "cs ! j \<noteq> c" if "p \<le> j" "j < p + i" for j
      using ix [of "drop p cs"] Some assms that by (auto dest: spec [of _ "j - p"])
    then show ?thesis using ix [of "drop p cs"] Some assms by (auto simp: find_chr_def in_set_conv_nth)
  qed
qed

lemma string_find_behind: "terminated s \<Longrightarrow> length (str_data s) \<le> p \<Longrightarrow> string_find s c p = Inl Out_of_bounds"
  unfolding string_find_def by (subst find_loop.simps) (simp add: terminated_def)

text \<open>With a zero byte among its characters the prefix is compared up to and with the first of them only.\<close>

lemma strncmp_data_zero:
  "0 \<in> set xs \<Longrightarrow> length xs \<le> length ys \<Longrightarrow> \<exists>d. strncmp_data (xs @ us) (ys @ vs) (length xs) = Inr d \<and> (d = 0 \<longleftrightarrow> prefix (takeWhile (\<lambda>c. c \<noteq> 0) xs @ [0]) ys)"
proof (induction xs arbitrary: ys)
  case (Cons x xs)
  then obtain z zs where ys: "ys = z # zs" by (cases ys) auto
  have "sint x - sint z = 0 \<longleftrightarrow> x = z" by (metis eq_iff_diff_eq_0 signed_word_eqI)
  with Cons ys show ?case by (cases "x = 0") auto
qed simp

definition starts :: "u8 list \<Rightarrow> u8 list \<Rightarrow> bool" where
  "starts xs ys \<longleftrightarrow> (if 0 \<in> set xs then length xs \<le> length ys \<and> prefix (takeWhile (\<lambda>c. c \<noteq> 0) xs @ [0]) ys else prefix xs ys)"

lemma string_starts_with_all:
  assumes "terminated s" "terminated t"
  shows "string_starts_with s t = Inr (starts (chars t) (chars s))"
proof (cases "0 \<in> set (chars t) \<and> length (chars t) \<le> length (chars s)")
  case True
  from strncmp_data_zero [of "chars t" "chars s" "0 # drop (Suc (str_length t)) (str_data t)" "0 # drop (Suc (str_length s)) (str_data s)"] True
  obtain d where d: "strncmp_data (str_data t) (str_data s) (str_length t) = Inr d" "d = 0 \<longleftrightarrow> prefix (takeWhile (\<lambda>c. c \<noteq> 0) (chars t) @ [0]) (chars s)"
    unfolding data_split [OF assms(1), symmetric] data_split [OF assms(2), symmetric] length_chars [OF assms(2)] by blast
  have "str_length t \<noteq> 0" using True by (intro notI) (simp add: chars_def)
  then show ?thesis using d True assms by (simp add: string_starts_with_def starts_def length_chars)
next
  case False
  then show ?thesis using string_starts_with_chars [OF assms] assms by (auto simp: starts_def string_starts_with_def length_chars)
qed

text \<open>A result with these characters, and a terminator behind them.\<close>

definition has_chars :: "cxxstring result \<Rightarrow> u8 list \<Rightarrow> bool" where
  "has_chars r cs \<longleftrightarrow> (\<exists>u. r = Inr u \<and> terminated u \<and> chars u = cs)"

lemma stands_for_chars: "stands_for r (Inr cs) \<Longrightarrow> has_chars r cs" "stands_for r (Inl e) \<Longrightarrow> r = Inl e"
  by (cases r; auto simp: has_chars_def)+



end
