(* ===== verification/Channel.thy ===== *)
theory Channel
  imports Prelude
begin

text \<open>
  Channels, \<open>src/kernel/channel.cpp\<close>: pairs of endpoints with a byte buffer each, kept in a
  \<open>std::vector<Channel>\<close> (\<open>src/libcxx/include/vector\<close>). Endpoint handles, and the \<open>other_\<close>
  pointers between endpoints, are addresses into the vector's buffer, so the model keeps that
  address: growing the vector moves every channel to a new buffer, erasing one shifts the later
  ones down, and pointers are not updated.

  \<open>ep_data\<close> (the \<open>data_\<close> of the code) is the initialised part of the allocation behind an endpoint, \<open>ep_capacity\<close> its size;
  \<open>mok n\<close> says that \<open>malloc(n)\<close> does not return null. Task pointers are addresses.
\<close>

section \<open>Endpoints\<close>

record endpoint =
  other_ep :: u32
  ep_size :: u32
  ep_capacity :: u32
  ep_data :: "u8 list"

definition kDefaultCapacity :: u32 where "kDefaultCapacity = 8"

definition new_endpoint :: endpoint where
  "new_endpoint = \<lparr>other_ep = 0, ep_size = 0, ep_capacity = max 0 kDefaultCapacity, ep_data = []\<rparr>"

definition ReserveIfNeeded :: "(u32 \<Rightarrow> bool) \<Rightarrow> endpoint \<Rightarrow> u32 \<Rightarrow> endpoint result" where
  "ReserveIfNeeded mok e amt =
     (if amt > ep_capacity e then check (mok amt) (Inr (e\<lparr>ep_capacity := amt\<rparr>)) else Inr e)"

definition ShrinkCapacity :: "(u32 \<Rightarrow> bool) \<Rightarrow> endpoint \<Rightarrow> u32 \<Rightarrow> endpoint result" where
  "ShrinkCapacity mok e amt =
     (if amt \<ge> ep_size e \<and> amt < ep_capacity e
      then if amt = 0 then Inr (e\<lparr>ep_capacity := amt\<rparr>) else check (mok amt) (Inr (e\<lparr>ep_capacity := amt\<rparr>))
      else Inr e)"

definition WriteSelf :: "(u32 \<Rightarrow> bool) \<Rightarrow> endpoint \<Rightarrow> u8 list \<Rightarrow> endpoint result" where
  "WriteSelf mok e src =
     (let sz = word_of_nat (length src) in
      bindr (ReserveIfNeeded mok e (ep_size e + sz)) (\<lambda>e1.
      if unat (ep_size e1) + length src \<le> unat (ep_capacity e1)
      then Inr (e1\<lparr>ep_data := ep_data e1 @ src, ep_size := ep_size e1 + sz\<rparr>) else Inl Out_of_bounds))"

text \<open>The answer: whether \<open>size\<close> bytes were read, the bytes, \<open>*bytes_available\<close> when it is set.
  \<open>memmove\<close> takes a temporary allocation unless nothing is moved.\<close>

definition ReadSelf :: "(u32 \<Rightarrow> bool) \<Rightarrow> endpoint \<Rightarrow> u32 \<Rightarrow> (bool \<times> u8 list \<times> u32 option \<times> endpoint) result" where
  "ReadSelf mok e sz =
     (if sz = 0 then Inr (True, [], None, e)
      else if sz > ep_size e then Inr (False, [], Some (ep_size e), e)
      else if ep_size e - sz \<noteq> 0 \<and> \<not> mok (ep_size e - sz) then Inl Page_fault
      else let e1 = e\<lparr>ep_data := drop (unat sz) (ep_data e), ep_size := ep_size e - sz\<rparr> in
        bindr (ShrinkCapacity mok e1 (ep_size e1)) (\<lambda>e2. Inr (True, take (unat sz) (ep_data e), None, e2)))"

section \<open>The vector of channels\<close>

record channel =
  end1 :: endpoint
  end2 :: endpoint
  owner1 :: u32
  owner2 :: u32

text \<open>\<open>slots\<close> are the slots of the buffer that were ever constructed; those from \<open>vsize\<close> on hold
  what an erased element left behind.\<close>

record chvec =
  elements :: u32
  slots :: "channel list"
  vsize :: nat
  vspace :: nat

definition channel_Initialize :: chvec where
  "channel_Initialize = \<lparr>elements = 0, slots = [], vsize = 0, vspace = 0\<rparr>"

definition sizeof_Channel :: nat where "sizeof_Channel = 40"

definition ep_addr :: "chvec \<Rightarrow> nat \<Rightarrow> bool \<Rightarrow> u32" where
  "ep_addr v i second = elements v + word_of_nat (sizeof_Channel * i + (if second then 16 else 0))"

definition get_end :: "channel \<Rightarrow> bool \<Rightarrow> endpoint" where
  "get_end c second = (if second then end2 c else end1 c)"

definition set_end :: "channel \<Rightarrow> bool \<Rightarrow> endpoint \<Rightarrow> channel" where
  "set_end c second e = (if second then c\<lparr>end2 := e\<rparr> else c\<lparr>end1 := e\<rparr>)"

definition get_ep :: "chvec \<Rightarrow> nat \<Rightarrow> bool \<Rightarrow> endpoint" where
  "get_ep v i second = get_end (slots v ! i) second"

definition set_ep :: "chvec \<Rightarrow> nat \<Rightarrow> bool \<Rightarrow> endpoint \<Rightarrow> chvec" where
  "set_ep v i second e = v\<lparr>slots := (slots v)[i := set_end (slots v ! i) second e]\<rparr>"

text \<open>Dereferencing an endpoint pointer: it must point to an endpoint of a live channel.\<close>

definition deref_ep :: "chvec \<Rightarrow> u32 \<Rightarrow> (nat \<times> bool) result" where
  "deref_ep v a =
     (case find (\<lambda>(i, second). ep_addr v i second = a) (concat (map (\<lambda>i. [(i, False), (i, True)]) [0..<vsize v])) of
        Some r \<Rightarrow> Inr r | None \<Rightarrow> Inl Use_after_free)"

definition reserve :: "(u32 \<Rightarrow> bool) \<Rightarrow> chvec \<Rightarrow> nat \<Rightarrow> u32 \<Rightarrow> chvec result" where
  "reserve mok v newalloc newbuf =
     (if newalloc \<le> vspace v then Inr v
      else if \<not> mok (word_of_nat (sizeof_Channel * newalloc)) then Inl Page_fault
      else Inr (v\<lparr>elements := newbuf, slots := take (vsize v) (slots v), vspace := newalloc\<rparr>))"

definition ReserveMoreIfNeeded :: "(u32 \<Rightarrow> bool) \<Rightarrow> chvec \<Rightarrow> u32 \<Rightarrow> chvec result" where
  "ReserveMoreIfNeeded mok v newbuf =
     (if vspace v = 0 then reserve mok v 8 newbuf
      else if vsize v = vspace v then reserve mok v (2 * vspace v) newbuf
      else Inr v)"

definition emplace_back :: "(u32 \<Rightarrow> bool) \<Rightarrow> chvec \<Rightarrow> u32 \<Rightarrow> channel \<Rightarrow> (nat \<times> chvec) result" where
  "emplace_back mok v newbuf c =
     bindr (ReserveMoreIfNeeded mok v newbuf) (\<lambda>v1.
       Inr (vsize v1, v1\<lparr>slots := take (vsize v1) (slots v1) @ c # drop (Suc (vsize v1)) (slots v1),
                         vsize := Suc (vsize v1)\<rparr>))"

definition erase :: "chvec \<Rightarrow> nat \<Rightarrow> chvec" where
  "erase v i = v\<lparr>slots := take i (slots v) @ drop (Suc i) (take (vsize v) (slots v)) @ drop (vsize v - 1) (slots v),
                 vsize := vsize v - 1\<rparr>"

section \<open>Channels\<close>

definition new_channel :: "u32 \<Rightarrow> channel" where
  "new_channel owner = \<lparr>end1 = new_endpoint, end2 = new_endpoint, owner1 = owner, owner2 = owner\<rparr>"

text \<open>\<open>Create\<close>: \<open>newbuf\<close> is the buffer a growing vector gets.\<close>

definition Create :: "(u32 \<Rightarrow> bool) \<Rightarrow> chvec \<Rightarrow> u32 \<Rightarrow> u32 \<Rightarrow> (u32 \<times> u32 \<times> chvec) result" where
  "Create mok v newbuf current_task =
     bindr (emplace_back mok v newbuf (new_channel current_task)) (\<lambda>(i, v1).
       let v2 = set_ep v1 i False (get_ep v1 i False\<lparr>other_ep := ep_addr v1 i True\<rparr>);
           v3 = set_ep v2 i True (get_ep v2 i True\<lparr>other_ep := ep_addr v2 i False\<rparr>)
       in Inr (ep_addr v3 i False, ep_addr v3 i True, v3))"

definition Endpoint_Read :: "(u32 \<Rightarrow> bool) \<Rightarrow> chvec \<Rightarrow> u32 \<Rightarrow> u32 \<Rightarrow> (bool \<times> u8 list \<times> u32 option \<times> chvec) result" where
  "Endpoint_Read mok v this sz =
     bindr (deref_ep v this) (\<lambda>(i, b).
     bindr (ReadSelf mok (get_ep v i b) sz) (\<lambda>(ok, bs, avail, e). Inr (ok, bs, avail, set_ep v i b e)))"

definition Endpoint_Write :: "(u32 \<Rightarrow> bool) \<Rightarrow> chvec \<Rightarrow> u32 \<Rightarrow> u8 list \<Rightarrow> chvec result" where
  "Endpoint_Write mok v this src =
     bindr (deref_ep v this) (\<lambda>(i, b).
     if other_ep (get_ep v i b) \<noteq> 0
     then bindr (deref_ep v (other_ep (get_ep v i b))) (\<lambda>(j, c).
          bindr (WriteSelf mok (get_ep v j c) src) (\<lambda>e. Inr (set_ep v j c e)))
     else Inr v)"

text \<open>\<open>Close\<close> of the endpoint in slot \<open>i\<close>: the loop looks for the channel that holds it and erases
  it when its other endpoint is closed as well.\<close>

fun close_loop :: "chvec \<Rightarrow> u32 \<Rightarrow> nat list \<Rightarrow> bool \<times> chvec" where
  "close_loop v this [] = (False, v)"
| "close_loop v this (j # js) =
     (if (ep_addr v j False = this \<and> other_ep (get_ep v j True) = 0) \<or>
         (ep_addr v j True = this \<and> other_ep (get_ep v j False) = 0)
      then (True, erase v j) else close_loop v this js)"

definition Close_at :: "chvec \<Rightarrow> nat \<Rightarrow> bool \<Rightarrow> bool \<times> chvec" where
  "Close_at v i b =
     (if other_ep (get_ep v i b) = 0 then (False, v)
      else let v1 = set_ep v i b (get_ep v i b\<lparr>other_ep := 0\<rparr>)
        in close_loop v1 (ep_addr v1 i b) [0..<vsize v1])"

definition Endpoint_Close :: "chvec \<Rightarrow> u32 \<Rightarrow> (bool \<times> chvec) result" where
  "Endpoint_Close v this = bindr (deref_ep v this) (\<lambda>(i, b). Inr (Close_at v i b))"

definition TransferOwner :: "chvec \<Rightarrow> u32 \<Rightarrow> u32 \<Rightarrow> chvec" where
  "TransferOwner v this newowner =
     (case find (\<lambda>i. ep_addr v i False = this \<or> ep_addr v i True = this) [0..<vsize v] of
        None \<Rightarrow> v
      | Some i \<Rightarrow> if ep_addr v i False = this
                 then v\<lparr>slots := (slots v)[i := (slots v ! i)\<lparr>owner1 := newowner\<rparr>]\<rparr>
                 else v\<lparr>slots := (slots v)[i := (slots v ! i)\<lparr>owner2 := newowner\<rparr>]\<rparr>)"

lemma close_loop_vsize:
  "close_loop v this js = (r, v') \<Longrightarrow> set js \<subseteq> {..<vsize v} \<Longrightarrow> (r \<longrightarrow> vsize v' < vsize v) \<and> (\<not> r \<longrightarrow> v' = v)"
  by (induction v this js rule: close_loop.induct) (auto simp: erase_def split: if_splits)

lemma Close_at_vsize:
  "Close_at v i b = (r, v') \<Longrightarrow> (r \<longrightarrow> vsize v' < vsize v) \<and> (\<not> r \<longrightarrow> vsize v' = vsize v)"
proof -
  assume c: "Close_at v i b = (r, v')"
  have s: "vsize (set_ep v i b e) = vsize v" for e by (simp add: set_ep_def)
  let ?v = "set_ep v i b (get_ep v i b\<lparr>other_ep := 0\<rparr>)"
  have "set [0..<vsize v] \<subseteq> {..<vsize ?v}" by (auto simp: s)
  from c close_loop_vsize [OF _ this, of "ep_addr ?v i b" r v'] show ?thesis
    by (auto simp: Close_at_def Let_def s split: if_splits)
qed

text \<open>One turn of the loop of \<open>CloseEndpointsOwnedByTask\<close> at slot \<open>it\<close>: \<open>channel\<close> is a reference to the
  slot, read again after the first \<open>Close\<close>.\<close>

definition close_slot :: "chvec \<Rightarrow> nat \<Rightarrow> u32 \<Rightarrow> bool \<times> chvec" where
  "close_slot v it owner =
     (let (r1, v1) = (if owner1 (slots v ! it) = owner then Close_at v it False else (False, v));
          (r2, v2) = (if owner2 (slots v1 ! it) = owner then Close_at v1 it True else (False, v1))
      in (r1 \<or> r2, v2))"

lemma close_slot_vsize:
  "close_slot v it owner = (r, v') \<Longrightarrow> (r \<longrightarrow> vsize v' < vsize v) \<and> (\<not> r \<longrightarrow> vsize v' = vsize v)"
  by (auto simp: close_slot_def split: if_splits prod.splits dest!: Close_at_vsize)

function close_owned :: "chvec \<Rightarrow> nat \<Rightarrow> u32 \<Rightarrow> chvec" where
  "close_owned v it owner =
     (if it < vsize v
      then let (r, v') = close_slot v it owner in close_owned v' (if r then 0 else Suc it) owner
      else v)"
  by pat_completeness auto
termination
  by (relation "measures [\<lambda>(v, it, owner). vsize v, \<lambda>(v, it, owner). vsize v - it]")
    (auto dest!: sym [THEN close_slot_vsize] split: if_splits)

definition CloseEndpointsOwnedByTask :: "chvec \<Rightarrow> u32 \<Rightarrow> chvec" where
  "CloseEndpointsOwnedByTask v owner = close_owned v 0 owner"

declare close_owned.simps [simp del]


section \<open>Buffers are queues\<close>

definition endpoint_ok :: "endpoint \<Rightarrow> bool" where
  "endpoint_ok e \<longleftrightarrow> length (ep_data e) = unat (ep_size e) \<and> ep_size e \<le> ep_capacity e"

lemma endpoint_ok_new: "endpoint_ok new_endpoint"
  by (simp add: endpoint_ok_def new_endpoint_def kDefaultCapacity_def)

lemma WriteSelf_queue:
  assumes "endpoint_ok e" "length (ep_data e) + length bs < 4294967296" "\<forall>n. mok n"
  shows "\<exists>e'. WriteSelf mok e bs = Inr e' \<and> endpoint_ok e' \<and> ep_data e' = ep_data e @ bs \<and> other_ep e' = other_ep e"
proof -
  have u: "unat (ep_size e + word_of_nat (length bs)) = unat (ep_size e) + length bs"
    using assms(1,2) by (subst unat_add_u32) (auto simp: endpoint_ok_def unat_of_nat_u32)
  have "unat (ep_size e) \<le> unat (ep_capacity e)" using assms(1) by (simp add: endpoint_ok_def word_le_nat_alt)
  with assms u show ?thesis
    by (auto simp: WriteSelf_def ReserveIfNeeded_def Let_def endpoint_ok_def word_le_nat_alt word_less_nat_alt not_less)
qed

lemma ReadSelf_queue:
  assumes "endpoint_ok e" "\<forall>n. mok n" "unat n \<le> length (ep_data e)"
  shows "\<exists>e'. ReadSelf mok e n = Inr (True, take (unat n) (ep_data e), None, e') \<and> endpoint_ok e'
    \<and> ep_data e' = drop (unat n) (ep_data e) \<and> other_ep e' = other_ep e"
proof (cases "n = 0")
  case False
  have le: "n \<le> ep_size e" using assms(1,3) by (simp add: endpoint_ok_def word_le_nat_alt)
  have u: "unat (ep_size e - n) = unat (ep_size e) - unat n" by (rule unat_sub_u32 [OF le])
  have "\<not> n > ep_size e" "ep_size e - n \<le> ep_capacity e"
    using le u assms(1) by (auto simp: endpoint_ok_def word_le_nat_alt word_less_nat_alt)
  with False assms(1,2) u show ?thesis
    by (auto simp: ReadSelf_def ShrinkCapacity_def Let_def endpoint_ok_def)
qed (use assms in \<open>auto simp: ReadSelf_def\<close>)

lemma ReadSelf_short:
  assumes "endpoint_ok e" "length (ep_data e) < unat n"
  shows "ReadSelf mok e n = Inr (False, [], Some (word_of_nat (length (ep_data e))), e)"
  using assms by (auto simp: ReadSelf_def endpoint_ok_def word_less_nat_alt)

fun put_all :: "('q \<Rightarrow> 'b list \<Rightarrow> 'q result) \<Rightarrow> 'q \<Rightarrow> 'b list list \<Rightarrow> 'q result" where
  "put_all put q [] = Inr q"
| "put_all put q (m # ms) = bindr (put q m) (\<lambda>q'. put_all put q' ms)"

fun get_all :: "('q \<Rightarrow> nat \<Rightarrow> ('b list \<times> 'q) result) \<Rightarrow> 'q \<Rightarrow> nat list \<Rightarrow> ('b list list \<times> 'q) result" where
  "get_all get q [] = Inr ([], q)"
| "get_all get q (n # ns) = bindr (get q n) (\<lambda>(m, q'). bindr (get_all get q' ns) (\<lambda>(ms, q''). Inr (m # ms, q'')))"

text \<open>What a reader of a queue of bytes relies on.\<close>

locale byte_source =
  fixes ok :: "'q \<Rightarrow> bool"
    and contents :: "'q \<Rightarrow> 'b list"
    and limit :: nat
    and get :: "'q \<Rightarrow> nat \<Rightarrow> ('b list \<times> 'q) result"
  assumes get_law: "ok q \<Longrightarrow> n \<le> length (contents q) \<Longrightarrow> n < limit \<Longrightarrow>
      \<exists>q'. get q n = Inr (take n (contents q), q') \<and> ok q' \<and> contents q' = drop n (contents q)"
begin

text \<open>Messages come out as they went in, in order.\<close>

lemma get_all_put_all:
  "ok q \<Longrightarrow> contents q = concat ms @ rest \<Longrightarrow> length (contents q) < limit \<Longrightarrow>
    \<exists>q'. get_all get q (map length ms) = Inr (ms, q') \<and> ok q' \<and> contents q' = rest"
proof (induction ms arbitrary: q)
  case (Cons m ms)
  then obtain q' where "get q (length m) = Inr (m, q')" "ok q'" "contents q' = concat ms @ rest"
    using get_law [of q "length m"] by auto
  with Cons(1) [of q'] Cons(3,4) show ?case by auto
qed simp

end

text \<open>Who writes to it, too.\<close>

locale byte_queue = byte_source ok contents limit get
  for ok :: "'q \<Rightarrow> bool" and contents :: "'q \<Rightarrow> 'b list" and limit :: nat and get :: "'q \<Rightarrow> nat \<Rightarrow> ('b list \<times> 'q) result" +
  fixes put :: "'q \<Rightarrow> 'b list \<Rightarrow> 'q result"
  assumes put_law: "ok q \<Longrightarrow> length (contents q) + length bs < limit \<Longrightarrow>
      \<exists>q'. put q bs = Inr q' \<and> ok q' \<and> contents q' = contents q @ bs"
begin

lemma put_all_contents:
  "ok q \<Longrightarrow> length (contents q) + length (concat ms) < limit \<Longrightarrow>
    \<exists>q'. put_all put q ms = Inr q' \<and> ok q' \<and> contents q' = contents q @ concat ms"
proof (induction ms arbitrary: q)
  case (Cons m ms)
  then obtain q' where "put q m = Inr q'" "ok q'" "contents q' = contents q @ m" using put_law [of q m] by auto
  with Cons(1) [of q'] Cons(3) show ?case by auto
qed simp

end

section \<open>The vector\<close>

definition ends_ok :: "chvec \<Rightarrow> nat \<Rightarrow> bool" where
  "ends_ok v i \<longleftrightarrow> (\<forall>b. endpoint_ok (get_ep v i b) \<and> other_ep (get_ep v i b) \<in> {0, ep_addr v i (\<not> b)})"

definition ch_wf :: "chvec \<Rightarrow> bool" where
  "ch_wf v \<longleftrightarrow> vsize v \<le> length (slots v) \<and> vsize v \<le> vspace v \<and> unat (elements v) + 40 * vspace v \<le> 4294967296
     \<and> (0 < vspace v \<longrightarrow> elements v \<noteq> 0) \<and> (\<forall>i < vsize v. ends_ok v i)"

lemma unat_ep_addr:
  assumes "unat (elements v) + 40 * vspace v \<le> 4294967296" "i < vspace v"
  shows "unat (ep_addr v i b) = unat (elements v) + 40 * i + (if b then 16 else 0)"
proof -
  have "unat (word_of_nat (40 * i + (if b then 16 else 0)) :: u32) = 40 * i + (if b then 16 else 0)"
    by (rule unat_of_nat_u32) (use assms in auto)
  then show ?thesis using assms unfolding ep_addr_def sizeof_Channel_def
    by (subst unat_add_u32) auto
qed

lemma ep_addr_inj:
  assumes "unat (elements v) + 40 * vspace v \<le> 4294967296" "i < vspace v" "j < vspace v" "ep_addr v i b = ep_addr v j c"
  shows "i = j \<and> b = c"
proof -
  have "40 * i + (if b then 16 else 0) = 40 * j + (if c then 16 else (0::nat))"
    using unat_ep_addr [OF assms(1,2), of b] unat_ep_addr [OF assms(1,3), of c] assms(4) by simp
  then show ?thesis by (auto split: if_splits) presburger+
qed

lemma find_unique: "x \<in> set xs \<Longrightarrow> P x \<Longrightarrow> (\<And>y. y \<in> set xs \<Longrightarrow> P y \<Longrightarrow> y = x) \<Longrightarrow> find P xs = Some x"
proof (induction xs)
  case (Cons a xs)
  show ?case
  proof (cases "P a")
    case True
    then have "a = x" by (intro Cons(4)) simp
    with True show ?thesis by simp
  next
    case False
    with Cons(2,3) have "x \<in> set xs" by auto
    then have "find P xs = Some x" by (rule Cons(1)) (use Cons(3,4) in simp_all)
    with False show ?thesis by simp
  qed
qed simp

lemma deref_at:
  assumes s: "unat (elements v) + 40 * vspace v \<le> 4294967296" "vsize v \<le> vspace v" and i: "i < vsize v"
  shows "deref_ep v (ep_addr v i b) = Inr (i, b)"
proof -
  have "find (\<lambda>(j, c). ep_addr v j c = ep_addr v i b) (concat (map (\<lambda>i. [(i, False), (i, True)]) [0..<vsize v])) = Some (i, b)"
  proof (rule find_unique)
    show "(i, b) \<in> set (concat (map (\<lambda>i. [(i, False), (i, True)]) [0..<vsize v]))" using i by (cases b) auto
    fix y assume y: "y \<in> set (concat (map (\<lambda>i. [(i, False), (i, True)]) [0..<vsize v]))" "case y of (j, c) \<Rightarrow> ep_addr v j c = ep_addr v i b"
    obtain j c where jc: "y = (j, c)" by (cases y)
    have "j < vsize v" using y(1) jc by auto
    then show "y = (i, b)" using ep_addr_inj [OF s(1), of j i c b] y(2) jc s(2) i by simp
  qed simp
  then show ?thesis by (simp add: deref_ep_def)
qed

lemma deref_live: "ch_wf v \<Longrightarrow> i < vsize v \<Longrightarrow> deref_ep v (ep_addr v i b) = Inr (i, b)"
  by (rule deref_at) (auto simp: ch_wf_def)

lemma deref_dead:
  assumes "\<And>i b. i < vsize v \<Longrightarrow> ep_addr v i b \<noteq> a" shows "deref_ep v a = Inl Use_after_free"
proof -
  have "find (\<lambda>(j, c). ep_addr v j c = a) (concat (map (\<lambda>i. [(i, False), (i, True)]) [0..<vsize v])) = None"
    unfolding find_None_iff
  proof (intro notI, elim exE conjE)
    fix y assume y: "y \<in> set (concat (map (\<lambda>i. [(i, False), (i, True)]) [0..<vsize v]))" "case y of (j, c) \<Rightarrow> ep_addr v j c = a"
    obtain j c where "y = (j, c)" by (cases y)
    with y assms [of j c] show False by auto
  qed
  then show ?thesis by (simp add: deref_ep_def)
qed


lemma set_ep_simps [simp]:
  "vsize (set_ep v i b e) = vsize v" "vspace (set_ep v i b e) = vspace v" "elements (set_ep v i b e) = elements v"
  "length (slots (set_ep v i b e)) = length (slots v)" "ep_addr (set_ep v i b e) = ep_addr v"
  by (simp_all add: set_ep_def ep_addr_def fun_eq_iff)

lemma get_set_ep:
  "i < length (slots v) \<Longrightarrow> get_ep (set_ep v i b e) j c = (if j = i \<and> c = b then e else get_ep v j c)"
  by (cases "j = i"; cases b; cases c) (auto simp: set_ep_def get_ep_def get_end_def set_end_def)

lemma set_ep_wf:
  assumes "ch_wf v" "i < vsize v" "endpoint_ok e" "other_ep e \<in> {0, ep_addr v i (\<not> b)}"
  shows "ch_wf (set_ep v i b e)"
proof -
  have l: "i < length (slots v)" using assms(1,2) by (simp add: ch_wf_def)
  show ?thesis using assms get_set_ep [OF l, of b e] by (auto simp: ch_wf_def ends_ok_def)
qed

lemma ep_addr_nonzero: "ch_wf v \<Longrightarrow> i < vsize v \<Longrightarrow> ep_addr v i b \<noteq> 0"
proof -
  assume a: "ch_wf v" "i < vsize v"
  have "unat (ep_addr v i b) = unat (elements v) + 40 * i + (if b then 16 else 0)"
    by (rule unat_ep_addr) (use a in \<open>auto simp: ch_wf_def\<close>)
  moreover have "unat (elements v) \<noteq> 0" using a by (auto simp: ch_wf_def unat_eq_0)
  ultimately show ?thesis by (metis add_is_0 unat_0)
qed

lemma Create_spare:
  assumes wf: "ch_wf v" and sp: "vsize v < vspace v"
  shows "\<exists>v'. Create mok v newbuf t = Inr (ep_addr v (vsize v) False, ep_addr v (vsize v) True, v') \<and> ch_wf v'
    \<and> vsize v' = Suc (vsize v) \<and> ep_addr v' = ep_addr v
    \<and> (\<forall>b. ep_data (get_ep v' (vsize v) b) = [] \<and> other_ep (get_ep v' (vsize v) b) = ep_addr v (vsize v) (\<not> b))
    \<and> (\<forall>j < vsize v. slots v' ! j = slots v ! j) \<and> owner1 (slots v' ! vsize v) = t \<and> owner2 (slots v' ! vsize v) = t"
proof -
  let ?n = "vsize v"
  define v1 where "v1 = v\<lparr>slots := take ?n (slots v) @ new_channel t # drop (Suc ?n) (slots v), vsize := Suc ?n\<rparr>"
  have l: "?n \<le> length (slots v)" using wf by (simp add: ch_wf_def)
  have l1: "?n < length (slots v1)" using l by (simp add: v1_def)
  have a1: "ep_addr v1 = ep_addr v" by (simp add: v1_def ep_addr_def fun_eq_iff)
  have e: "emplace_back mok v newbuf (new_channel t) = Inr (?n, v1)"
    using sp by (simp add: emplace_back_def ReserveMoreIfNeeded_def v1_def)
  have g1: "get_ep v1 ?n b = new_endpoint" for b using l by (simp add: v1_def get_ep_def get_end_def new_channel_def nth_append)
  have s1: "slots v1 ! j = slots v ! j" if "j < ?n" for j using that l by (simp add: v1_def nth_append)
  let ?v2 = "set_ep v1 ?n False (new_endpoint\<lparr>other_ep := ep_addr v ?n True\<rparr>)"
  let ?v3 = "set_ep ?v2 ?n True (new_endpoint\<lparr>other_ep := ep_addr v ?n False\<rparr>)"
  have g3: "get_ep ?v3 j b = (if j = ?n then new_endpoint\<lparr>other_ep := ep_addr v ?n (\<not> b)\<rparr> else get_ep v1 j b)" for j b
    using l1 by (cases b) (simp_all add: get_set_ep g1)
  have s3: "slots ?v3 ! j = slots v ! j" if "j < ?n" for j using that s1 by (simp add: set_ep_def)
  have "Create mok v newbuf t = Inr (ep_addr v ?n False, ep_addr v ?n True, ?v3)"
    using l1 by (simp add: Create_def e Let_def get_set_ep g1 a1)
  moreover have "ch_wf ?v3"
  proof -
    have "ends_ok ?v3 j" if "j < Suc ?n" for j
    proof (cases "j = ?n")
      case True
      then show ?thesis using endpoint_ok_new by (auto simp: ends_ok_def g3 a1 endpoint_ok_def)
    next
      case False
      with that have "j < ?n" by simp
      then have "ends_ok v j" "get_ep ?v3 j = get_ep v j"
        using wf False g3 [of j] s1 [of j] by (auto simp: ch_wf_def get_ep_def fun_eq_iff)
      then show ?thesis by (simp add: ends_ok_def a1)
    qed
    then show ?thesis using wf sp l by (auto simp: ch_wf_def v1_def)
  qed
  moreover have "vsize ?v3 = Suc ?n" "ep_addr ?v3 = ep_addr v" by (simp_all add: v1_def) (simp add: a1 [unfolded v1_def])
  moreover have "owner1 (slots ?v3 ! ?n) = t" "owner2 (slots ?v3 ! ?n) = t"
    using l by (simp_all add: set_ep_def set_end_def v1_def new_channel_def nth_append)
  ultimately show ?thesis using s3 g3 by (intro exI [of _ ?v3]) (simp add: new_endpoint_def)
qed

lemma Write_live:
  assumes wf: "ch_wf v" and i: "i < vsize v" and o: "other_ep (get_ep v i b) \<noteq> 0"
    and len: "length (ep_data (get_ep v i (\<not> b))) + length bs < 4294967296" and m: "\<forall>n. mok n"
  shows "\<exists>e. Endpoint_Write mok v (ep_addr v i b) bs = Inr (set_ep v i (\<not> b) e) \<and> ch_wf (set_ep v i (\<not> b) e)
    \<and> ep_data e = ep_data (get_ep v i (\<not> b)) @ bs \<and> other_ep e = other_ep (get_ep v i (\<not> b))"
proof -
  have en: "ends_ok v i" using wf i by (simp add: ch_wf_def)
  then have ot: "other_ep (get_ep v i b) = ep_addr v i (\<not> b)" using o by (auto simp: ends_ok_def)
  from WriteSelf_queue [of "get_ep v i (\<not> b)" bs mok] en len m obtain e where
    e: "WriteSelf mok (get_ep v i (\<not> b)) bs = Inr e" "endpoint_ok e" "ep_data e = ep_data (get_ep v i (\<not> b)) @ bs"
      "other_ep e = other_ep (get_ep v i (\<not> b))" by (auto simp: ends_ok_def)
  have "other_ep (get_ep v i (\<not> b)) \<in> {0, ep_addr v i b}" using en [unfolded ends_ok_def, rule_format, of "\<not> b"] by simp
  with e wf i have "ch_wf (set_ep v i (\<not> b) e)" by (intro set_ep_wf) auto
  with e o ot show ?thesis
    by (intro exI [of _ e]) (simp add: Endpoint_Write_def deref_live [OF wf i])
qed

lemma Read_live:
  assumes wf: "ch_wf v" and i: "i < vsize v" and m: "\<forall>n. mok n" and n: "unat n \<le> length (ep_data (get_ep v i b))"
  shows "\<exists>e. Endpoint_Read mok v (ep_addr v i b) n = Inr (True, take (unat n) (ep_data (get_ep v i b)), None, set_ep v i b e)
    \<and> ch_wf (set_ep v i b e) \<and> ep_data e = drop (unat n) (ep_data (get_ep v i b)) \<and> other_ep e = other_ep (get_ep v i b)"
proof -
  have en: "ends_ok v i" using wf i by (simp add: ch_wf_def)
  from ReadSelf_queue [of "get_ep v i b" mok n] en m n obtain e where
    e: "ReadSelf mok (get_ep v i b) n = Inr (True, take (unat n) (ep_data (get_ep v i b)), None, e)" "endpoint_ok e"
      "ep_data e = drop (unat n) (ep_data (get_ep v i b))" "other_ep e = other_ep (get_ep v i b)" by (auto simp: ends_ok_def)
  have "other_ep (get_ep v i b) \<in> {0, ep_addr v i (\<not> b)}" using en by (simp add: ends_ok_def)
  with e wf i have "ch_wf (set_ep v i b e)" by (intro set_ep_wf) auto
  with e show ?thesis by (intro exI [of _ e]) (simp add: Endpoint_Read_def deref_live [OF wf i])
qed


section \<open>A channel as a queue\<close>

text \<open>Writing at one endpoint and reading at the other, for the endpoint \<open>b\<close> of the channel in slot \<open>i\<close>
  at address \<open>a\<close>, its peer at \<open>a'\<close>.\<close>

definition chan_open :: "nat \<Rightarrow> bool \<Rightarrow> u32 \<Rightarrow> u32 \<Rightarrow> chvec \<Rightarrow> bool" where
  "chan_open i b a a' v \<longleftrightarrow> ch_wf v \<and> i < vsize v \<and> ep_addr v i b = a \<and> ep_addr v i (\<not> b) = a' \<and> other_ep (get_ep v i b) \<noteq> 0"

definition chan_write :: "u32 \<Rightarrow> chvec \<Rightarrow> u8 list \<Rightarrow> chvec result" where
  "chan_write a v bs = Endpoint_Write (\<lambda>_. True) v a bs"

definition chan_read :: "u32 \<Rightarrow> chvec \<Rightarrow> nat \<Rightarrow> (u8 list \<times> chvec) result" where
  "chan_read a' v n = bindr (Endpoint_Read (\<lambda>_. True) v a' (word_of_nat n)) (\<lambda>(ok, bs, _, v'). check ok (Inr (bs, v')))"

interpretation chan: byte_queue "chan_open i b a a'" "\<lambda>v. ep_data (get_ep v i (\<not> b))" 4294967296 "chan_read a'" "chan_write a"
  for i b a a'
proof
  fix v n assume o: "chan_open i b a a' v" and n: "n \<le> length (ep_data (get_ep v i (\<not> b)))" "n < 4294967296"
  then have c: "ch_wf v" "i < vsize v" "ep_addr v i (\<not> b) = a'" by (auto simp: chan_open_def)
  have l: "i < length (slots v)" using c by (simp add: ch_wf_def)
  from Read_live [OF c(1,2), of "\<lambda>_. True" "word_of_nat n" "\<not> b"] n obtain e where
    e: "Endpoint_Read (\<lambda>_. True) v (ep_addr v i (\<not> b)) (word_of_nat n) =
        Inr (True, take n (ep_data (get_ep v i (\<not> b))), None, set_ep v i (\<not> b) e)"
      "ch_wf (set_ep v i (\<not> b) e)" "ep_data e = drop n (ep_data (get_ep v i (\<not> b)))" by (auto simp: unat_of_nat_u32)
  with o l c(3) show
    "\<exists>v'. chan_read a' v n = Inr (take n (ep_data (get_ep v i (\<not> b))), v') \<and> chan_open i b a a' v'
      \<and> ep_data (get_ep v' i (\<not> b)) = drop n (ep_data (get_ep v i (\<not> b)))"
    by (intro exI [of _ "set_ep v i (\<not> b) e"]) (auto simp: chan_read_def chan_open_def get_set_ep)
next
  fix v and bs :: "u8 list" assume o: "chan_open i b a a' v" and len: "length (ep_data (get_ep v i (\<not> b))) + length bs < 4294967296"
  then have c: "ch_wf v" "i < vsize v" "other_ep (get_ep v i b) \<noteq> 0" "ep_addr v i b = a" by (auto simp: chan_open_def)
  have l: "i < length (slots v)" using c by (simp add: ch_wf_def)
  from Write_live [OF c(1-3) len, of "\<lambda>_. True"] o l c(4) show
    "\<exists>v'. chan_write a v bs = Inr v' \<and> chan_open i b a a' v' \<and> ep_data (get_ep v' i (\<not> b)) = ep_data (get_ep v i (\<not> b)) @ bs"
    by (auto simp: chan_write_def chan_open_def get_set_ep)
qed

section \<open>Properties\<close>

definition example_chans :: chvec where
  "example_chans = \<lparr>elements = 0x1000,
     slots = [\<lparr>end1 = new_endpoint\<lparr>other_ep := 0x1010\<rparr>, end2 = new_endpoint\<lparr>other_ep := 0x1000\<rparr>, owner1 = 5, owner2 = 6\<rparr>],
     vsize = 1, vspace = 8\<rparr>"

lemma example_chans_wf: "ch_wf example_chans"
proof -
  have "ends_ok example_chans 0"
    using endpoint_ok_new
    by (simp add: ends_ok_def example_chans_def get_ep_def get_end_def ep_addr_def sizeof_Channel_def endpoint_ok_def all_bool_eq)
  then show ?thesis by (simp add: ch_wf_def example_chans_def)
qed

lemma example_chans_facts:
  "vsize example_chans = 1" "ep_addr example_chans 0 False = 0x1000" "ep_addr example_chans 0 True = 0x1010"
  "ep_data (get_ep example_chans 0 b) = []" "other_ep (get_ep example_chans 0 b) \<noteq> 0"
  by (simp_all add: example_chans_def get_ep_def get_end_def ep_addr_def sizeof_Channel_def new_endpoint_def)

text \<open>C11: Messages written at one endpoint of an open channel are read at the other endpoint, complete and in
  order, whatever was in the buffer before first.\<close>

theorem channel_fifo:
  assumes "ch_wf v" "i < vsize v" "other_ep (get_ep v i b) \<noteq> 0"
    "length (ep_data (get_ep v i (\<not> b))) + length (concat ms) < 4294967296"
  shows "\<exists>v1 v2 v3. put_all (chan_write (ep_addr v i b)) v ms = Inr v1
    \<and> chan_read (ep_addr v i (\<not> b)) v1 (length (ep_data (get_ep v i (\<not> b)))) = Inr (ep_data (get_ep v i (\<not> b)), v2)
    \<and> get_all (chan_read (ep_addr v i (\<not> b))) v2 (map length ms) = Inr (ms, v3)
    \<and> ch_wf v3 \<and> ep_data (get_ep v3 i (\<not> b)) = []"
proof -
  let ?a = "ep_addr v i b" and ?a' = "ep_addr v i (\<not> b)" and ?d = "ep_data (get_ep v i (\<not> b))"
  have o: "chan_open i b ?a ?a' v" using assms by (simp add: chan_open_def)
  from chan.put_all_contents [OF o assms(4)] obtain v1 where v1: "put_all (chan_write ?a) v ms = Inr v1"
    "chan_open i b ?a ?a' v1" "ep_data (get_ep v1 i (\<not> b)) = ?d @ concat ms" by blast
  with chan.get_law [OF v1(2), of "length ?d"] assms(4) obtain v2 where v2: "chan_read ?a' v1 (length ?d) = Inr (?d, v2)"
    "chan_open i b ?a ?a' v2" "ep_data (get_ep v2 i (\<not> b)) = concat ms" by auto
  with chan.get_all_put_all [OF v2(2), of ms "[]"] assms(4) obtain v3 where
    "get_all (chan_read ?a') v2 (map length ms) = Inr (ms, v3)" "chan_open i b ?a ?a' v3" "ep_data (get_ep v3 i (\<not> b)) = []" by auto
  with v1 v2 show ?thesis by (auto simp: chan_open_def)
qed

theorem channel_fifo_witness:
  "\<exists>v1 v2 v3. put_all (chan_write 0x1000) example_chans [[1, 2, 3], [4]] = Inr v1
    \<and> chan_read 0x1010 v1 0 = Inr ([], v2) \<and> get_all (chan_read 0x1010) v2 [3, 1] = Inr ([[1, 2, 3], [4]], v3) \<and> ch_wf v3"
  using channel_fifo [OF example_chans_wf, of 0 False "[[1, 2, 3], [4]]"]
  by (simp add: example_chans_facts numeral_3_eq_3 del: put_all.simps get_all.simps) blast

text \<open>A read of more bytes than the buffer holds leaves everything as it is and reports how many there are.\<close>

theorem channel_short_read:
  assumes "ch_wf v" "i < vsize v" "length (ep_data (get_ep v i b)) < unat n"
  shows "Endpoint_Read mok v (ep_addr v i b) n = Inr (False, [], Some (word_of_nat (length (ep_data (get_ep v i b)))), v)"
proof -
  have e: "endpoint_ok (get_ep v i b)" using assms(1,2) by (simp add: ch_wf_def ends_ok_def)
  have "set_ep v i b (get_ep v i b) = v"
    using assms(1,2) by (cases v) (simp add: set_ep_def get_ep_def get_end_def set_end_def)
  with ReadSelf_short [OF e assms(3)] show ?thesis
    by (simp add: Endpoint_Read_def deref_live [OF assms(1,2)])
qed

theorem channel_short_read_witness: "Endpoint_Read (\<lambda>_. True) example_chans 0x1010 3 = Inr (False, [], Some 0, example_chans)"
  using channel_short_read [OF example_chans_wf, of 0 True 3 "\<lambda>_. True"] by (simp add: example_chans_facts)


text \<open>\<open>Create\<close> into spare capacity adds one channel at the end, both endpoints open, empty and owned by the
  current task, pointing at each other; the other channels and all handles stay as they are.\<close>

theorem channel_create:
  assumes "ch_wf v" "vsize v < vspace v"
  shows "\<exists>v'. Create mok v newbuf t = Inr (ep_addr v (vsize v) False, ep_addr v (vsize v) True, v') \<and> ch_wf v'
    \<and> vsize v' = Suc (vsize v) \<and> ep_addr v' = ep_addr v
    \<and> (\<forall>b. ep_data (get_ep v' (vsize v) b) = [] \<and> other_ep (get_ep v' (vsize v) b) = ep_addr v (vsize v) (\<not> b))
    \<and> (\<forall>j < vsize v. slots v' ! j = slots v ! j) \<and> owner1 (slots v' ! vsize v) = t \<and> owner2 (slots v' ! vsize v) = t"
  by (rule Create_spare [OF assms])

theorem channel_create_witness:
  "\<exists>v'. Create (\<lambda>_. True) example_chans 0x9000 7 = Inr (0x1028, 0x1038, v') \<and> ch_wf v' \<and> vsize v' = 2"
  using channel_create [OF example_chans_wf, of "\<lambda>_. True" "0x9000" 7]
  by (auto simp: example_chans_def ep_addr_def sizeof_Channel_def numeral_2_eq_2)

text \<open>\<open>Create\<close> on a full vector moves every channel to a new buffer. The handles given out before are dangling
  then, and a write through a moved endpoint follows the \<open>other_\<close> pointer it was moved with into the freed buffer.\<close>

theorem channel_growth_dangles:
  assumes "ch_wf v" "0 < vspace v" "vsize v = vspace v" "i < vsize v" "other_ep (get_ep v i b) \<noteq> 0"
    "mok (word_of_nat (sizeof_Channel * (2 * vspace v)))" "unat newbuf + 80 * vspace v \<le> 4294967296"
    "unat newbuf + 80 * vspace v \<le> unat (elements v) \<or> unat (elements v) + 40 * vspace v \<le> unat newbuf"
  shows "\<exists>h1 h2 v'. Create mok v newbuf t = Inr (h1, h2, v') \<and> vsize v' = Suc (vsize v)
    \<and> deref_ep v' (ep_addr v i b) = Inl Use_after_free
    \<and> deref_ep v' (ep_addr v' i b) = Inr (i, b)
    \<and> Endpoint_Write mok v' (ep_addr v' i b) bs = Inl Use_after_free"
proof -
  let ?n = "vsize v"
  define v1 where "v1 = v\<lparr>elements := newbuf, slots := take ?n (slots v), vspace := 2 * vspace v\<rparr>"
  define v2 where "v2 = v1\<lparr>slots := slots v1 @ [new_channel t], vsize := Suc ?n\<rparr>"
  have l: "?n \<le> length (slots v)" "unat (elements v) + 40 * vspace v \<le> 4294967296" using assms(1) by (auto simp: ch_wf_def)
  have e: "emplace_back mok v newbuf (new_channel t) = Inr (?n, v2)"
    using assms(2,3,6) l(1) by (simp add: emplace_back_def ReserveMoreIfNeeded_def reserve_def v1_def v2_def)
  let ?v3 = "set_ep v2 ?n False (get_ep v2 ?n False\<lparr>other_ep := ep_addr v2 ?n True\<rparr>)"
  let ?v4 = "set_ep ?v3 ?n True (get_ep ?v3 ?n True\<lparr>other_ep := ep_addr ?v3 ?n False\<rparr>)"
  have c: "Create mok v newbuf t = Inr (ep_addr ?v4 ?n False, ep_addr ?v4 ?n True, ?v4)"
    by (simp add: Create_def e Let_def)
  have fit: "unat (elements ?v4) + 40 * vspace ?v4 \<le> 4294967296" "vsize ?v4 = Suc ?n" "Suc ?n \<le> vspace ?v4"
    using assms(2,3,7) by (simp_all add: v1_def v2_def)
  have ad: "unat (ep_addr ?v4 j c) = unat newbuf + 40 * j + (if c then 16 else 0)" if "j < Suc ?n" for j c
    using unat_ep_addr [OF fit(1), of j c] that fit(3) by (simp add: v1_def v2_def)
  have old: "unat (ep_addr v j c) = unat (elements v) + 40 * j + (if c then 16 else 0)" if "j < ?n" for j c
    using unat_ep_addr [OF l(2), of j c] that assms(3) by simp
  have apart: "ep_addr ?v4 j c \<noteq> ep_addr v k d" if "j < Suc ?n" "k < ?n" for j c k d
  proof
    assume "ep_addr ?v4 j c = ep_addr v k d"
    then have "unat newbuf + 40 * j + (if c then 16 else 0) = unat (elements v) + 40 * k + (if d then 16 else 0)"
      using ad [OF that(1), of c] old [OF that(2), of d] by metis
    then show False using assms(3,8) that by (auto split: if_splits)
  qed
  have dead: "deref_ep ?v4 (ep_addr v k d) = Inl Use_after_free" if "k < ?n" for k d
    by (rule deref_dead) (use apart that fit(2) in simp)
  have len: "length (slots v2) = Suc ?n" using l(1) by (simp add: v1_def v2_def)
  have g: "get_ep ?v4 i b = get_ep v i b"
    using assms(4) len l(1) by (simp add: get_set_ep) (simp add: get_ep_def v1_def v2_def nth_append)
  have live: "deref_ep ?v4 (ep_addr ?v4 i b) = Inr (i, b)"
    by (rule deref_at) (use fit assms(4) in auto)
  have "other_ep (get_ep v i b) = ep_addr v i (\<not> b)" using assms(1,4,5) by (auto simp: ch_wf_def ends_ok_def)
  with assms(5) g dead [OF assms(4)] live have "Endpoint_Write mok ?v4 (ep_addr ?v4 i b) bs = Inl Use_after_free"
    by (simp add: Endpoint_Write_def)
  with c dead [OF assms(4)] live fit(2) show ?thesis by blast
qed


theorem channel_growth_dangles_witness:
  "\<exists>h1 h2 v'. Create (\<lambda>_. True) (example_chans\<lparr>vspace := 1\<rparr>) 0x9000 7 = Inr (h1, h2, v')
    \<and> Endpoint_Write (\<lambda>_. True) v' (ep_addr v' 0 False) [1] = Inl Use_after_free"
proof -
  have w: "ch_wf (example_chans\<lparr>vspace := 1\<rparr>)"
    using example_chans_wf by (auto simp: ch_wf_def ends_ok_def example_chans_def get_ep_def ep_addr_def)
  have "other_ep (get_ep (example_chans\<lparr>vspace := 1\<rparr>) 0 False) \<noteq> 0"
    using example_chans_facts(5) [of False] by (simp add: get_ep_def)
  then show ?thesis
    using channel_growth_dangles [OF w, of 0 False "\<lambda>_. True" "0x9000" 7 "[1]"] by (auto simp: example_chans_def)
qed

text \<open>\<open>Close\<close> of an open endpoint.\<close>

lemma close_loop_at:
  assumes "unat (elements v) + 40 * vspace v \<le> 4294967296" "vsize v \<le> vspace v" "i < vsize v"
  shows "close_loop v (ep_addr v i b) [0..<vsize v] =
    (if other_ep (get_ep v i (\<not> b)) = 0 then (True, erase v i) else (False, v))"
proof -
  have inj: "ep_addr v j c = ep_addr v i d \<longleftrightarrow> j = i \<and> c = d" if "j < vsize v" for j c d
    using ep_addr_inj [OF assms(1), of j i c d] that assms(2,3) by auto
  have "close_loop v (ep_addr v i b) js =
      (if i \<in> set js \<and> other_ep (get_ep v i (\<not> b)) = 0 then (True, erase v i) else (False, v))"
    if "set js \<subseteq> {..<vsize v}" for js
    using that by (cases b; induction js) (auto simp: inj)
  from this [of "[0..<vsize v]"] assms(3) show ?thesis by (simp add: subset_iff)
qed

lemma Close_at_open:
  assumes "unat (elements v) + 40 * vspace v \<le> 4294967296" "vsize v \<le> vspace v" "vsize v \<le> length (slots v)"
    "i < vsize v" "other_ep (get_ep v i b) \<noteq> 0"
  shows "Close_at v i b = (let v1 = set_ep v i b (get_ep v i b\<lparr>other_ep := 0\<rparr>) in
    if other_ep (get_ep v i (\<not> b)) = 0 then (True, erase v1 i) else (False, v1))"
proof -
  let ?v1 = "set_ep v i b (get_ep v i b\<lparr>other_ep := 0\<rparr>)"
  have "i < length (slots v)" using assms(3,4) by simp
  then have "get_ep ?v1 i (\<not> b) = get_ep v i (\<not> b)" by (simp add: get_set_ep)
  then show ?thesis using close_loop_at [of ?v1 i b] assms by (simp add: Close_at_def Let_def)
qed

text \<open>Closing one endpoint of an open channel keeps the channel: what is in its buffers can still be read at
  both ends, and writes at the other end still reach the closed endpoint's buffer, since only the closed
  endpoint's own pointer is cleared.\<close>

theorem channel_half_closed:
  assumes "ch_wf v" "i < vsize v" "other_ep (get_ep v i b) \<noteq> 0" "other_ep (get_ep v i (\<not> b)) \<noteq> 0"
    "length (ep_data (get_ep v i b)) + length bs < 4294967296" "\<forall>n. mok n"
  shows "\<exists>v' e. Endpoint_Close v (ep_addr v i b) = Inr (False, v') \<and> ch_wf v' \<and> vsize v' = vsize v
    \<and> Endpoint_Write mok v' (ep_addr v i b) bs = Inr v'
    \<and> Endpoint_Write mok v' (ep_addr v i (\<not> b)) bs = Inr (set_ep v' i b e)
    \<and> ep_data e = ep_data (get_ep v i b) @ bs \<and> (\<forall>c. ep_data (get_ep v' i c) = ep_data (get_ep v i c))"
proof -
  let ?v' = "set_ep v i b (get_ep v i b\<lparr>other_ep := 0\<rparr>)"
  have w: "unat (elements v) + 40 * vspace v \<le> 4294967296" "vsize v \<le> vspace v" "vsize v \<le> length (slots v)" "ends_ok v i"
    using assms(1,2) by (auto simp: ch_wf_def)
  have l: "i < length (slots v)" using w(3) assms(2) by simp
  have wf: "ch_wf ?v'"
    using w(4) by (intro set_ep_wf [OF assms(1,2)]) (auto simp: ends_ok_def endpoint_ok_def)
  have c: "Endpoint_Close v (ep_addr v i b) = Inr (False, ?v')"
    using Close_at_open [OF w(1-3) assms(2,3)] assms(4) by (simp add: Endpoint_Close_def deref_live [OF assms(1,2)] Let_def)
  have none: "Endpoint_Write mok ?v' (ep_addr v i b) bs = Inr ?v'"
    using deref_live [OF wf, of i b] assms(2) l by (simp add: Endpoint_Write_def get_set_ep)
  have "length (ep_data (get_ep ?v' i (\<not> \<not> b))) + length bs < 4294967296" "other_ep (get_ep ?v' i (\<not> b)) \<noteq> 0"
    using assms(4,5) l by (simp_all add: get_set_ep)
  from Write_live [OF wf _ this(2,1) assms(6)] assms(2) l obtain e where
    "Endpoint_Write mok ?v' (ep_addr v i (\<not> b)) bs = Inr (set_ep ?v' i b e)" "ep_data e = ep_data (get_ep v i b) @ bs"
    by (auto simp: get_set_ep)
  with c none wf l show ?thesis by (intro exI [of _ ?v'] exI [of _ e]) (simp add: get_set_ep)
qed

theorem channel_half_closed_witness:
  "\<exists>v' e. Endpoint_Close example_chans 0x1000 = Inr (False, v') \<and> ch_wf v'
    \<and> Endpoint_Write (\<lambda>_. True) v' 0x1010 [9] = Inr (set_ep v' 0 False e) \<and> ep_data e = [9]"
  using channel_half_closed [OF example_chans_wf, of 0 False "[9]" "\<lambda>_. True"]
  by (auto simp: example_chans_facts)

definition closed_for :: "u32 \<Rightarrow> chvec \<Rightarrow> nat \<Rightarrow> bool" where
  "closed_for t v j \<longleftrightarrow> (owner1 (slots v ! j) = t \<longrightarrow> other_ep (get_ep v j False) = 0)
     \<and> (owner2 (slots v ! j) = t \<longrightarrow> other_ep (get_ep v j True) = 0)"

definition vec_ok :: "chvec \<Rightarrow> bool" where
  "vec_ok v \<longleftrightarrow> unat (elements v) + 40 * vspace v \<le> 4294967296 \<and> vsize v \<le> vspace v \<and> vsize v \<le> length (slots v)"

lemma set_get_ep: "i < length (slots v) \<Longrightarrow> set_ep v i b (get_ep v i b) = v"
  by (cases v) (simp add: set_ep_def get_ep_def get_end_def set_end_def)

lemma set_ep_owners [simp]:
  "i < length (slots v) \<Longrightarrow> owner1 (slots (set_ep v i b e) ! j) = owner1 (slots v ! j)"
  "i < length (slots v) \<Longrightarrow> owner2 (slots (set_ep v i b e) ! j) = owner2 (slots v ! j)"
  by (auto simp: set_ep_def set_end_def nth_list_update)

lemma Close_at_cases:
  assumes "vec_ok v" "i < vsize v" "Close_at v i b = (r, v')"
  shows "vec_ok v' \<and> (\<not> r \<longrightarrow> v' = set_ep v i b (get_ep v i b\<lparr>other_ep := 0\<rparr>))"
proof (cases "other_ep (get_ep v i b) = 0")
  case True
  have "i < length (slots v)" using assms by (auto simp: vec_ok_def)
  moreover have "get_ep v i b\<lparr>other_ep := 0\<rparr> = get_ep v i b" using True by simp
  ultimately have "set_ep v i b (get_ep v i b\<lparr>other_ep := 0\<rparr>) = v" using set_get_ep by metis
  then show ?thesis using True assms by (auto simp: Close_at_def)
next
  case False
  with assms Close_at_open [of v i b] show ?thesis
    by (auto simp: vec_ok_def Let_def erase_def split: if_splits)
qed

lemma close_loop_vec_ok:
  "vec_ok v \<Longrightarrow> set js \<subseteq> {..<vsize v} \<Longrightarrow> vec_ok (snd (close_loop v this js))"
  by (induction v this js rule: close_loop.induct) (auto simp: vec_ok_def erase_def)

lemma Close_at_vec_ok: "vec_ok v \<Longrightarrow> vec_ok (snd (Close_at v i b))"
proof -
  assume v: "vec_ok v"
  let ?v = "set_ep v i b (get_ep v i b\<lparr>other_ep := 0\<rparr>)"
  have "vec_ok ?v" "set [0..<vsize ?v] \<subseteq> {..<vsize ?v}" using v by (auto simp: vec_ok_def)
  from close_loop_vec_ok [OF this] v show ?thesis by (simp add: Close_at_def Let_def)
qed

lemma close_slot_cases:
  assumes "vec_ok v" "it < vsize v" "close_slot v it t = (r, v')"
  shows "vec_ok v' \<and> (\<not> r \<longrightarrow> closed_for t v' it \<and> (\<forall>j. j \<noteq> it \<longrightarrow> closed_for t v' j = closed_for t v j))"
proof -
  obtain ra v1 where a: "(if owner1 (slots v ! it) = t then Close_at v it False else (False, v)) = (ra, v1)" by fastforce
  obtain rb v2 where b: "(if owner2 (slots v1 ! it) = t then Close_at v1 it True else (False, v1)) = (rb, v2)" by fastforce
  have r: "r = (ra \<or> rb)" "v' = v2" using assms(3) a b by (simp_all add: close_slot_def Let_def)
  have l: "it < length (slots v)" using assms(1,2) by (simp add: vec_ok_def)
  have 1: "vec_ok v1 \<and> (\<not> ra \<longrightarrow> vsize v1 = vsize v \<and> (\<forall>j. owner1 (slots v1 ! j) = owner1 (slots v ! j) \<and> owner2 (slots v1 ! j) = owner2 (slots v ! j))
      \<and> (\<forall>j c. get_ep v1 j c = (if j = it \<and> \<not> c \<and> owner1 (slots v ! it) = t then get_ep v j c\<lparr>other_ep := 0\<rparr> else get_ep v j c)))"
    using a Close_at_cases [OF assms(1,2), of False ra v1] assms(1) l
    by (auto simp: get_set_ep split: if_splits)
  show ?thesis
  proof (cases ra)
    case True
    have "vec_ok v2" using b 1 Close_at_vec_ok [of v1 it True] by (auto split: if_splits)
    then show ?thesis using True r by simp
  next
    case False
    with 1 have v1: "vec_ok v1" "it < vsize v1" using assms(2) by auto
    have l1: "it < length (slots v1)" using v1 by (simp add: vec_ok_def)
    have 2: "vec_ok v2 \<and> (\<not> rb \<longrightarrow> (\<forall>j. owner1 (slots v2 ! j) = owner1 (slots v1 ! j) \<and> owner2 (slots v2 ! j) = owner2 (slots v1 ! j))
        \<and> (\<forall>j c. get_ep v2 j c = (if j = it \<and> c \<and> owner2 (slots v1 ! it) = t then get_ep v1 j c\<lparr>other_ep := 0\<rparr> else get_ep v1 j c)))"
      using b Close_at_cases [OF v1, of True rb v2] v1(1) l1 by (auto simp: get_set_ep split: if_splits)
    show ?thesis using 1 2 False r by (auto simp: closed_for_def)
  qed
qed

text \<open>C12: After \<open>CloseEndpointsOwnedByTask\<close> no endpoint of a channel that is left is both open and owned by the task.\<close>

theorem close_endpoints_closes_all:
  assumes "vec_ok v" "j < vsize (CloseEndpointsOwnedByTask v t)"
  shows "closed_for t (CloseEndpointsOwnedByTask v t) j"
proof -
  have "\<forall>j < vsize (close_owned v it t). closed_for t (close_owned v it t) j"
    if "vec_ok v" "\<forall>j < it. closed_for t v j" for it
    using that
  proof (induction v it t rule: close_owned.induct)
    case (1 v it t)
    show ?case
    proof (cases "it < vsize v")
      case True
      obtain r v' where c: "close_slot v it t = (r, v')" by (cases "close_slot v it t")
      have s: "close_owned v it t = close_owned v' (if r then 0 else Suc it) t"
        using True c by (subst close_owned.simps) simp
      have "\<forall>j < (if r then 0 else Suc it). closed_for t v' j"
        using close_slot_cases [OF 1(2) True c] 1(3) by (auto simp: less_Suc_eq)
      with 1(1) [OF True c [symmetric]] close_slot_cases [OF 1(2) True c] s show ?thesis by simp
    next
      case False
      then show ?thesis using 1(3) by (subst (1 2) close_owned.simps) simp
    qed
  qed
  from this [OF assms(1), of 0] assms(2) show ?thesis by (simp add: CloseEndpointsOwnedByTask_def)
qed

theorem close_endpoints_closes_all_witness:
  "vsize (CloseEndpointsOwnedByTask example_chans 5) = 1 \<and> closed_for 5 (CloseEndpointsOwnedByTask example_chans 5) 0"
proof -
  have "vec_ok example_chans" using example_chans_wf by (simp add: ch_wf_def vec_ok_def)
  moreover have "vsize (CloseEndpointsOwnedByTask example_chans 5) = 1" by code_simp
  ultimately show ?thesis using close_endpoints_closes_all [of example_chans 0 5] by simp
qed

end
