(* ===== verification/ByteMem.thy ===== *)
theory ByteMem
  imports CString
begin

text \<open>
  Stores of several bytes and of little-endian words in memory as a function from addresses to bytes, for the parts of the library
  that lay out structures in memory: the arguments and the environment of a process, ELF files, command lines.
\<close>

section \<open>Words as bytes\<close>

definition bytes32 :: "u32 \<Rightarrow> u8 list" where
  "bytes32 w = [ucast w, ucast (drop_bit 8 w), ucast (drop_bit 16 w), ucast (drop_bit 24 w)]"

definition word32 :: "u8 list \<Rightarrow> u32" where
  "word32 bs = ucast (bs ! 0) OR push_bit 8 (ucast (bs ! 1)) OR push_bit 16 (ucast (bs ! 2)) OR push_bit 24 (ucast (bs ! 3))"

lemma length_bytes32 [simp]: "length (bytes32 w) = 4"
  by (simp add: bytes32_def)

lemma word32_bytes32 [simp]: "word32 (bytes32 w) = w"
proof (rule bit_word_eqI)
  fix n assume "n < LENGTH(32)"
  consider "n < 8" | "8 \<le> n" "n - 8 < 8" | "16 \<le> n" "n - 16 < 8" | "24 \<le> n" by linarith
  then show "bit (word32 (bytes32 w)) n = bit w n"
    by cases (use \<open>n < LENGTH(32)\<close> in \<open>auto simp: word32_def bytes32_def bit_simps\<close>)
qed

section \<open>Stores\<close>

fun store_bytes :: "bmem \<Rightarrow> u32 \<Rightarrow> u8 list \<Rightarrow> bmem" where
  "store_bytes m a [] = m"
| "store_bytes m a (b # bs) = store_bytes (m(a := b)) (a + 1) bs"

definition rd32 :: "bmem \<Rightarrow> u32 \<Rightarrow> u32" where
  "rd32 m a = word32 (bytes_at m a 4)"

definition wr32 :: "bmem \<Rightarrow> u32 \<Rightarrow> u32 \<Rightarrow> bmem" where
  "wr32 m a w = store_bytes m a (bytes32 w)"

definition region :: "u32 \<Rightarrow> nat \<Rightarrow> u32 set" where
  "region a n = {x. unat (x - a) < n}"

lemma region_nat: "unat a + n \<le> 4294967296 \<Longrightarrow> x \<in> region a n \<longleftrightarrow> unat a \<le> unat x \<and> unat x < unat a + n"
  unfolding region_def using unat_lt_u32 [of x] by (auto simp: unat_sub_if')

lemma region_apart: "unat a + n \<le> unat b \<Longrightarrow> unat b + k \<le> 4294967296 \<Longrightarrow> region a n \<inter> region b k = {}"
  by (auto simp: region_nat)

lemma store_bytes_at: "length bs \<le> 4294967296 \<Longrightarrow> store_bytes m a bs x = (if unat (x - a) < length bs then bs ! unat (x - a) else m x)"
proof (induction bs arbitrary: m a)
  case (Cons b bs)
  have IH: "store_bytes (m(a := b)) (a + 1) bs x = (if unat (x - (a + 1)) < length bs then bs ! unat (x - (a + 1)) else (m(a := b)) x)"
    using Cons by simp
  show ?case
  proof (cases "x = a")
    case True
    have "a - (a + 1) = 0xFFFFFFFF" by simp
    then have "unat (a - (a + 1)) = 4294967295" by (simp only:) simp
    then show ?thesis using True IH Cons.prems by simp
  next
    case False
    have u: "unat (x - (a + 1)) = unat (x - a) - 1" "0 < unat (x - a)" using False by (simp_all add: unat_minus_one unat_gt_0 diff_diff_eq [symmetric])
    then show ?thesis using False IH by (auto simp: nth_Cons')
  qed
qed simp

lemma store_out: "x \<notin> region a (length bs) \<Longrightarrow> length bs \<le> 4294967296 \<Longrightarrow> store_bytes m a bs x = m x"
  by (simp add: store_bytes_at region_def)

lemma bytes_at_cong: "(\<And>x. x \<in> region a n \<Longrightarrow> m x = m' x) \<Longrightarrow> n \<le> 4294967296 \<Longrightarrow> bytes_at m a n = bytes_at m' a n"
  by (rule nth_equalityI) (auto simp: bytes_at_nth region_def unat_of_nat_u32)

lemma bytes_at_store: "length bs \<le> 4294967296 \<Longrightarrow> bytes_at (store_bytes m a bs) a (length bs) = bs"
  by (rule nth_equalityI) (auto simp: bytes_at_nth store_bytes_at unat_of_nat_u32)

lemma bytes_at_store_out: "region a (length bs) \<inter> region b n = {} \<Longrightarrow> length bs \<le> 4294967296 \<Longrightarrow> n \<le> 4294967296 \<Longrightarrow> bytes_at (store_bytes m a bs) b n = bytes_at m b n"
  by (rule bytes_at_cong, rule store_out) (auto simp: disjoint_iff)

lemma rd32_wr32: "rd32 (wr32 m a w) a = w"
  using bytes_at_store [of "bytes32 w" m a] by (simp add: rd32_def wr32_def)

lemma wr32_out: "x \<notin> region a 4 \<Longrightarrow> wr32 m a w x = m x"
  by (simp add: wr32_def store_out)

lemma rd32_cong: "(\<And>x. x \<in> region a 4 \<Longrightarrow> m x = m' x) \<Longrightarrow> rd32 m a = rd32 m' a"
  unfolding rd32_def by (subst bytes_at_cong [of a 4 m m']) simp_all

lemma cstr_region: "bytes_at m a (Suc (length s)) = s @ [0] \<Longrightarrow> 0 \<notin> set s \<Longrightarrow> cstr m a s"
  by (induction s arbitrary: a) (auto simp: bytes_at_Suc)

lemma store_bytes_append: "store_bytes m a (xs @ ys) = store_bytes (store_bytes m a xs) (a + word_of_nat (length xs)) ys"
  by (induction xs arbitrary: m a) (simp_all add: add.assoc)

lemma memset_store: "memset m a v n = store_bytes m a (replicate n v)"
  by (induction n arbitrary: m a) simp_all

lemma memcpy_store:
  assumes "n < 4294967296" "region src n \<inter> region dst n = {}"
  shows "memcpy_bytes m dst src n = store_bytes m dst (bytes_at m src n)"
proof
  fix x
  have "\<not> in_block (src + word_of_nat i) dst n" if "i < n" for i
  proof -
    have "src + word_of_nat i \<in> region src n" using that assms(1) by (simp add: region_def unat_of_nat_u32)
    then have "src + word_of_nat i \<notin> region dst n" using assms(2) by blast
    then show ?thesis by (simp add: region_def in_block_def)
  qed
  then have "memcpy_bytes m dst src n x = (if in_block x dst n then m (src + (x - dst)) else m x)"
    using memcpy_bytes_apart [OF assms(1)] by blast
  moreover have "bytes_at m src n ! unat (x - dst) = m (src + (x - dst))" if "in_block x dst n"
    using that by (simp add: in_block_def bytes_at_nth)
  ultimately show "memcpy_bytes m dst src n x = store_bytes m dst (bytes_at m src n) x"
    using assms(1) by (simp add: store_bytes_at in_block_def)
qed


lemma unat_add_nat: "unat a + n < 4294967296 \<Longrightarrow> unat (a + word_of_nat n :: u32) = unat a + n"
  by (subst unat_add_u32) (simp_all add: unat_of_nat_u32)

lemma in_region: "i < n \<Longrightarrow> n < 4294967296 \<Longrightarrow> a + word_of_nat i \<in> region a n"
  by (simp add: region_def unat_of_nat_u32)

lemma region_sub:
  assumes "unat a + len < 4294967296" "i + n \<le> len" "x \<in> region (a + word_of_nat i) n"
  shows "x \<in> region a len"
proof -
  have "unat (a + word_of_nat i) = unat a + i" using assms(1,2) by (subst unat_add_u32) (simp_all add: unat_of_nat_u32)
  then show ?thesis using assms by (auto simp: region_nat)
qed

lemma bytes_at_snoc: "bytes_at m a (Suc n) = bytes_at m a n @ [m (a + word_of_nat n)]"
  by (simp add: bytes_at_def)

end
