(* ===== verification/Buffer.thy ===== *)
theory Buffer
  imports Channel ByteMem
begin

text \<open>
  \<open>ResizableBuffer\<close>, \<open>src/libc/include/libc/resizable_buffer.h\<close>: a block from \<open>malloc\<close>, its capacity and the number of bytes in use.
  What \<open>malloc\<close> answers is the environment: the sizes it can serve, and the bytes a new block happens to hold. A null block faults
  when it is first written to. Sizes are \<open>size_t\<close>, so sums wrap.
\<close>

section \<open>The code\<close>

record alloc_env =
  can_alloc :: "u32 \<Rightarrow> bool"
  junk :: "nat \<Rightarrow> u8"

record rbuffer =
  rb_size :: u32
  rb_capacity :: u32
  rb_data :: "u8 list option"

definition malloc_bytes :: "alloc_env \<Rightarrow> u32 \<Rightarrow> u8 list option" where
  "malloc_bytes e sz = (if can_alloc e sz then Some (map (junk e) [0..<unat sz]) else None)"

definition buffer_new :: "alloc_env \<Rightarrow> u32 \<Rightarrow> rbuffer" where
  "buffer_new e sz = \<lparr>rb_size = sz, rb_capacity = max sz 8, rb_data = malloc_bytes e (max sz 8)\<rparr>"

text \<open>Writing and reading bytes of a block.\<close>

definition put_bytes :: "u8 list option \<Rightarrow> nat \<Rightarrow> u8 list \<Rightarrow> u8 list option result" where
  "put_bytes d i bs =
     (if bs = [] then Inr d
      else case d of None \<Rightarrow> Inl Page_fault
           | Some xs \<Rightarrow> if i + length bs \<le> length xs then Inr (Some (take i xs @ bs @ drop (i + length bs) xs)) else Inl Out_of_bounds)"

definition get_bytes :: "u8 list option \<Rightarrow> nat \<Rightarrow> nat \<Rightarrow> u8 list result" where
  "get_bytes d i n =
     (if n = 0 then Inr []
      else case d of None \<Rightarrow> Inl Page_fault
           | Some xs \<Rightarrow> if i + n \<le> length xs then Inr (take n (drop i xs)) else Inl Out_of_bounds)"

text \<open>\<open>memmove\<close> inside the block, through a temporary block of the same size.\<close>

definition move_bytes :: "alloc_env \<Rightarrow> u8 list option \<Rightarrow> nat \<Rightarrow> nat \<Rightarrow> u32 \<Rightarrow> u8 list option result" where
  "move_bytes e d dst src sz =
     (if sz = 0 then Inr d
      else if \<not> can_alloc e sz then Inl Page_fault
      else bindr (get_bytes d src (unat sz)) (put_bytes d dst))"

definition buffer_ReserveIfNeeded :: "alloc_env \<Rightarrow> rbuffer \<Rightarrow> u32 \<Rightarrow> rbuffer result" where
  "buffer_ReserveIfNeeded e b newsize =
     (if newsize > rb_capacity b
      then bindr (get_bytes (rb_data b) 0 (unat (rb_size b))) (\<lambda>bs.
           bindr (put_bytes (malloc_bytes e newsize) 0 bs) (\<lambda>newalloc.
           Inr (b\<lparr>rb_data := newalloc, rb_capacity := newsize\<rparr>)))
      else Inr b)"

definition buffer_Write :: "alloc_env \<Rightarrow> rbuffer \<Rightarrow> u8 list \<Rightarrow> u32 \<Rightarrow> rbuffer result" where
  "buffer_Write e b src sz =
     bindr (buffer_ReserveIfNeeded e b (sz + rb_size b)) (\<lambda>b1.
     bindr (put_bytes (rb_data b1) (unat (rb_size b1)) src) (\<lambda>d.
     Inr (b1\<lparr>rb_data := d, rb_size := rb_size b1 + sz\<rparr>)))"

definition buffer_WriteFront :: "alloc_env \<Rightarrow> rbuffer \<Rightarrow> u8 list \<Rightarrow> u32 \<Rightarrow> rbuffer result" where
  "buffer_WriteFront e b src sz =
     bindr (buffer_ReserveIfNeeded e b (sz + rb_size b)) (\<lambda>b1.
     bindr (move_bytes e (rb_data b1) (unat sz) 0 (rb_size b1)) (\<lambda>d1.
     bindr (put_bytes d1 0 src) (\<lambda>d2.
     Inr (b1\<lparr>rb_data := d2, rb_size := rb_size b1 + sz\<rparr>))))"

definition buffer_Write_len :: "alloc_env \<Rightarrow> rbuffer \<Rightarrow> u32 \<Rightarrow> rbuffer result" where
  "buffer_Write_len e b sz = buffer_Write e b (bytes32 sz) 4"

definition WriteLenAndData :: "alloc_env \<Rightarrow> rbuffer \<Rightarrow> u8 list \<Rightarrow> u32 \<Rightarrow> rbuffer result" where
  "WriteLenAndData e b src sz = bindr (buffer_Write_len e b sz) (\<lambda>b1. buffer_Write e b1 src sz)"

definition buffer_Resize :: "alloc_env \<Rightarrow> rbuffer \<Rightarrow> u32 \<Rightarrow> rbuffer result" where
  "buffer_Resize e b sz =
     bindr (if sz > rb_size b then buffer_ReserveIfNeeded e b sz else Inr b) (\<lambda>b1. Inr (b1\<lparr>rb_size := sz\<rparr>))"

definition buffer_Read :: "alloc_env \<Rightarrow> rbuffer \<Rightarrow> bool \<Rightarrow> u32 \<Rightarrow> (u8 list \<times> rbuffer) result" where
  "buffer_Read e b dst sz =
     check (rb_size b \<ge> sz)
     (bindr (if dst then get_bytes (rb_data b) 0 (unat sz) else Inr []) (\<lambda>bs.
      bindr (move_bytes e (rb_data b) 0 (unat sz) (rb_size b - sz)) (\<lambda>d.
      Inr (bs, b\<lparr>rb_data := d, rb_size := rb_size b - sz\<rparr>))))"

definition ReadLen :: "alloc_env \<Rightarrow> rbuffer \<Rightarrow> (u32 \<times> rbuffer) result" where
  "ReadLen e b = bindr (buffer_Read e b True 4) (\<lambda>(bs, b'). Inr (word32 bs, b'))"

definition Skip :: "alloc_env \<Rightarrow> rbuffer \<Rightarrow> u32 \<Rightarrow> rbuffer result" where
  "Skip e b sz = bindr (buffer_Read e b False sz) (\<lambda>(_, b'). Inr b')"

definition buffer_Clear :: "rbuffer \<Rightarrow> rbuffer" where
  "buffer_Clear b = b\<lparr>rb_size := 0\<rparr>"

section \<open>The buffer as a queue of bytes\<close>

definition buffer_wf :: "rbuffer \<Rightarrow> bool" where
  "buffer_wf b \<longleftrightarrow> rb_size b \<le> rb_capacity b \<and> (\<exists>xs. rb_data b = Some xs \<and> length xs = unat (rb_capacity b))"

definition contents_of :: "rbuffer \<Rightarrow> u8 list" where
  "contents_of b = take (unat (rb_size b)) (the (rb_data b))"

definition enough :: "alloc_env \<Rightarrow> bool" where
  "enough e \<longleftrightarrow> (\<forall>n. can_alloc e n)"

lemma buffer_wfE:
  assumes "buffer_wf b"
  obtains xs where "rb_data b = Some xs" "length xs = unat (rb_capacity b)" "unat (rb_size b) \<le> length xs" "contents_of b = take (unat (rb_size b)) xs"
    "length (contents_of b) = unat (rb_size b)"
  using assms by (auto simp: buffer_wf_def contents_of_def word_le_nat_alt)

lemma buffer_new_wf: "enough e \<Longrightarrow> buffer_wf (buffer_new e sz) \<and> rb_size (buffer_new e sz) = sz"
  by (simp add: buffer_wf_def buffer_new_def malloc_bytes_def enough_def max_def)

lemma buffer_new_empty: "contents_of (buffer_new e 0) = []"
  by (simp add: contents_of_def buffer_new_def)

lemma put_bytes_some: "i + length bs \<le> length xs \<Longrightarrow> put_bytes (Some xs) i bs = Inr (Some (take i xs @ bs @ drop (i + length bs) xs))"
  by (simp add: put_bytes_def)

lemma get_bytes_some: "i + n \<le> length xs \<Longrightarrow> get_bytes (Some xs) i n = Inr (take n (drop i xs))"
  by (simp add: get_bytes_def)

lemma Reserve_wf:
  assumes e: "enough e" and wf: "buffer_wf b"
  shows "\<exists>b'. buffer_ReserveIfNeeded e b n = Inr b' \<and> buffer_wf b' \<and> rb_size b' = rb_size b \<and> contents_of b' = contents_of b \<and> n \<le> rb_capacity b'"
proof (cases "n > rb_capacity b")
  case True
  from wf obtain xs where xs: "rb_data b = Some xs" "length xs = unat (rb_capacity b)" "unat (rb_size b) \<le> length xs" "contents_of b = take (unat (rb_size b)) xs"
    by (rule buffer_wfE)
  have lt: "unat (rb_size b) < unat n" using True xs by (simp add: word_less_nat_alt)
  let ?new = "map (junk e) [0..<unat n]"
  let ?d = "take (unat (rb_size b)) xs @ drop (unat (rb_size b)) ?new"
  have d: "put_bytes (malloc_bytes e n) 0 (take (unat (rb_size b)) xs) = Inr (Some ?d)"
    using e lt xs(3) by (simp add: malloc_bytes_def enough_def put_bytes_some min_def)
  have "length ?d = unat n" using lt xs(3) by simp
  moreover have "rb_size b \<le> n" using lt by (simp add: word_le_nat_alt)
  ultimately show ?thesis using True d xs
    by (simp add: buffer_ReserveIfNeeded_def get_bytes_some buffer_wf_def contents_of_def)
qed (use wf in \<open>simp add: buffer_ReserveIfNeeded_def\<close>)

lemma Write_wf:
  assumes e: "enough e" and wf: "buffer_wf b" and len: "unat sz = length bs" "length (contents_of b) + length bs < 4294967296"
  shows "\<exists>b'. buffer_Write e b bs sz = Inr b' \<and> buffer_wf b' \<and> contents_of b' = contents_of b @ bs"
proof -
  from Reserve_wf [OF e wf, of "sz + rb_size b"] obtain b1 where b1: "buffer_ReserveIfNeeded e b (sz + rb_size b) = Inr b1" "buffer_wf b1"
    "rb_size b1 = rb_size b" "contents_of b1 = contents_of b" "sz + rb_size b \<le> rb_capacity b1" by blast
  from b1(2) obtain xs where xs: "rb_data b1 = Some xs" "length xs = unat (rb_capacity b1)" "unat (rb_size b1) \<le> length xs"
    "contents_of b1 = take (unat (rb_size b1)) xs" "length (contents_of b1) = unat (rb_size b1)" by (rule buffer_wfE)
  have u: "unat (rb_size b + sz) = unat (rb_size b) + length bs" using len xs b1(3,4) by (simp add: unat_add_u32)
  have fits: "unat (rb_size b) + length bs \<le> length xs" using b1(5) u xs(2) by (simp add: word_le_nat_alt add.commute)
  let ?d = "take (unat (rb_size b)) xs @ bs @ drop (unat (rb_size b) + length bs) xs"
  have "put_bytes (rb_data b1) (unat (rb_size b1)) bs = Inr (Some ?d)" using put_bytes_some [OF fits] xs(1) b1(3) by simp
  moreover have "length ?d = length xs" using fits by simp
  moreover have "take (unat (rb_size b + sz)) ?d = take (unat (rb_size b)) xs @ bs" using fits u by simp
  ultimately show ?thesis using b1 xs u fits
    by (simp add: buffer_Write_def buffer_wf_def contents_of_def word_le_nat_alt)
qed

lemma Read_wf:
  assumes e: "enough e" and wf: "buffer_wf b" and n: "unat n \<le> length (contents_of b)"
  shows "\<exists>b'. buffer_Read e b dst n = Inr (if dst then take (unat n) (contents_of b) else [], b') \<and> buffer_wf b' \<and> contents_of b' = drop (unat n) (contents_of b)"
proof -
  from wf obtain xs where xs: "rb_data b = Some xs" "length xs = unat (rb_capacity b)" "unat (rb_size b) \<le> length xs"
    "contents_of b = take (unat (rb_size b)) xs" "length (contents_of b) = unat (rb_size b)" by (rule buffer_wfE)
  let ?s = "unat (rb_size b)" and ?k = "unat (rb_size b) - unat n"
  have le: "n \<le> rb_size b" using n xs by (simp add: word_le_nat_alt)
  have u: "unat (rb_size b - n) = ?k" using le by (rule unat_sub)
  let ?mv = "take ?k (drop (unat n) xs)" 
  let ?d = "?mv @ drop ?k xs"
  have lm: "length ?mv = ?k" using n xs by simp
  have "move_bytes e (rb_data b) 0 (unat n) (rb_size b - n) = Inr (Some ?d)"
  proof (cases "rb_size b - n = 0")
    case True
    then have "?k = 0" using u by simp
    then show ?thesis using True xs(1) by (simp add: move_bytes_def)
  next
    case False
    have "put_bytes (Some xs) 0 ?mv = Inr (Some ?d)" using put_bytes_some [of 0 ?mv xs] lm n xs by simp
    then show ?thesis using False e xs n u get_bytes_some [of "unat n" ?k xs] by (simp add: move_bytes_def enough_def)
  qed
  moreover have "length ?d = length xs" using lm n xs by simp
  moreover have "take ?k ?d = drop (unat n) (take ?s xs)" using lm by (simp add: drop_take)
  moreover have "get_bytes (rb_data b) 0 (unat n) = Inr (take (unat n) (take ?s xs))" using n xs by (simp add: get_bytes_some min_def)
  moreover have "rb_size b - n \<le> rb_capacity b" using xs(2,3) u unfolding word_le_nat_alt by linarith
  ultimately show ?thesis using le u xs by (simp add: buffer_Read_def buffer_wf_def contents_of_def)
qed

definition buffer_put :: "alloc_env \<Rightarrow> rbuffer \<Rightarrow> u8 list \<Rightarrow> rbuffer result" where
  "buffer_put e b bs = buffer_Write e b bs (word_of_nat (length bs))"

definition buffer_get :: "alloc_env \<Rightarrow> rbuffer \<Rightarrow> nat \<Rightarrow> (u8 list \<times> rbuffer) result" where
  "buffer_get e b n = buffer_Read e b True (word_of_nat n)"

interpretation buffer: byte_queue "\<lambda>b. enough e \<and> buffer_wf b" contents_of 4294967296 "buffer_get e" "buffer_put e"
  for e
proof
  fix b n assume "enough e \<and> buffer_wf b" "n \<le> length (contents_of b)" "n < 4294967296"
  then show "\<exists>b'. buffer_get e b n = Inr (take n (contents_of b), b') \<and> (enough e \<and> buffer_wf b') \<and> contents_of b' = drop n (contents_of b)"
    using Read_wf [of e b "word_of_nat n" True] by (simp add: buffer_get_def unat_of_nat_u32)
next
  fix b and bs :: "u8 list"
  assume "enough e \<and> buffer_wf b" "length (contents_of b) + length bs < 4294967296"
  then show "\<exists>b'. buffer_put e b bs = Inr b' \<and> (enough e \<and> buffer_wf b') \<and> contents_of b' = contents_of b @ bs"
    using Write_wf [of e b "word_of_nat (length bs)" bs] by (simp add: buffer_put_def unat_of_nat_u32)
qed

end
