(* ===== verification/Startup.thy ===== *)
theory Startup
  imports StdString Buffer
begin

text \<open>
  What a new process is given, \<open>src/libc/startparams.cpp\<close>, \<open>libc/startup/globalstate.h\<close>, \<open>globalstate.cpp\<close> and \<open>getenv.cpp\<close>: the arguments,
  packed with offsets that the receiver turns into pointers, and the environment, packed as length-prefixed strings and laid out as
  the \<open>environ\<close> table. A string argument is the list of its characters; what it was copied from is not overwritten.
\<close>

section \<open>Arguments\<close>

fun pack_loop :: "bmem \<Rightarrow> u32 \<Rightarrow> u32 \<Rightarrow> u32 \<Rightarrow> u8 list list \<Rightarrow> bmem result" where
  "pack_loop m fin argv_i strs_dst [] = Inr m"
| "pack_loop m fin argv_i strs_dst (arg # args) =
     (let len = word_of_nat (length arg) in
      check (strs_dst + len + 1 < fin)
      (let m1 = store_bytes m strs_dst arg; m2 = m1(strs_dst + len := 0); m3 = wr32 m2 argv_i (strs_dst - argv_i) in
       pack_loop m3 fin (argv_i + 4) (strs_dst + (len + 1)) args))"

definition PackParams :: "u32 \<Rightarrow> bmem \<Rightarrow> u32 \<Rightarrow> u8 list list \<Rightarrow> bmem result" where
  "PackParams page_size m load_addr params =
     check (load_addr mod 4 = 0)
     (let num_params = word_of_nat (length params); m1 = wr32 m load_addr num_params; argv_loc = load_addr + 4 in
      check (argv_loc mod 4 = 0)
      (pack_loop m1 (load_addr + page_size) argv_loc (argv_loc + 4 * num_params) params))"

definition PackSize :: "u8 list list \<Rightarrow> u32" where
  "PackSize params = fold (\<lambda>p packsize. packsize + (word_of_nat (length p) + 1)) params (0 + 4 + 4 * word_of_nat (length params))"

fun unpack_loop :: "bmem \<Rightarrow> u32 \<Rightarrow> nat \<Rightarrow> bmem" where
  "unpack_loop m p 0 = m"
| "unpack_loop m p (Suc n) = unpack_loop (wr32 m p (rd32 m p + p)) (p + 4) n"

definition UnpackParams :: "bmem \<Rightarrow> u32 \<Rightarrow> (int \<times> u32 \<times> bmem) result" where
  "UnpackParams m params_addr =
     check (params_addr mod 4 = 0) (check ((params_addr + 4) mod 4 = 0)
     (let argc = sint (rd32 m params_addr); argv = params_addr + 4 in Inr (argc, argv, unpack_loop m argv (nat argc))))"

section \<open>The environment\<close>

text \<open>\<open>ev_term\<close> says whether the value has a zero byte behind it: assigning to a string does not write one.\<close>

record EnvpPair =
  ev_key :: "u8 list"
  ev_val :: "u8 list"
  ev_term :: bool

type_synonym Envp = "EnvpPair list"

definition new_pair :: "u8 list \<Rightarrow> u8 list \<Rightarrow> EnvpPair" where
  "new_pair key val = \<lparr>ev_key = key, ev_val = val, ev_term = True\<rparr>"

definition getVal :: "Envp \<Rightarrow> u8 list \<Rightarrow> EnvpPair option" where
  "getVal envp key = find (\<lambda>p. ev_key p = key) envp"

fun assign_val :: "Envp \<Rightarrow> u8 list \<Rightarrow> u8 list \<Rightarrow> Envp" where
  "assign_val [] key val = []"
| "assign_val (p # ps) key val = (if ev_key p = key then p\<lparr>ev_val := val, ev_term := False\<rparr> # ps else p # assign_val ps key val)"

definition setVal :: "Envp \<Rightarrow> u8 list \<Rightarrow> u8 list \<Rightarrow> Envp" where
  "setVal envp key val = (case getVal envp key of None \<Rightarrow> envp @ [new_pair key val] | Some _ \<Rightarrow> assign_val envp key val)"

definition CopyEntry :: "bmem \<Rightarrow> u32 \<Rightarrow> EnvpPair \<Rightarrow> bmem \<times> u32" where
  "CopyEntry m dst p =
     (let m1 = store_bytes m dst (ev_key p); dst1 = dst + word_of_nat (length (ev_key p));
          m2 = m1(dst1 := 0x3D); dst2 = dst1 + 1;
          m3 = store_bytes m2 dst2 (ev_val p); dst3 = dst2 + word_of_nat (length (ev_val p)) in
      (m3(dst3 := 0), dst3 + 1))"

fun apply_loop :: "bmem \<Rightarrow> u32 \<Rightarrow> u32 \<Rightarrow> Envp \<Rightarrow> bmem" where
  "apply_loop m start_i strings_start [] = wr32 m start_i 0"
| "apply_loop m start_i strings_start (p # ps) =
     (let m1 = wr32 m start_i strings_start; (m2, strings_start') = CopyEntry m1 strings_start p in
      apply_loop m2 (start_i + 4) strings_start' ps)"

definition ApplyRelative :: "bmem \<Rightarrow> u32 \<Rightarrow> Envp \<Rightarrow> bmem" where
  "ApplyRelative m dst envp = apply_loop m dst (dst + 4 * (word_of_nat (length envp) + 1)) envp"

definition plain_size :: "Envp \<Rightarrow> u32" where
  "plain_size envp = fold (\<lambda>p total_size. total_size + word_of_nat (length (ev_key p)) + 1 + word_of_nat (length (ev_val p)) + 1) envp
     ((word_of_nat (length envp) + 1) * 4)"

text \<open>\<open>new char[total_size]\<close> answers the block at \<open>buff\<close>.\<close>

definition getPlainEnvp :: "(u32 \<Rightarrow> u32) \<Rightarrow> bmem \<Rightarrow> Envp \<Rightarrow> u32 \<times> bmem" where
  "getPlainEnvp alloc m envp = (let buff = alloc (plain_size envp) in (buff, ApplyRelative m buff envp))"

definition Pack :: "alloc_env \<Rightarrow> Envp \<Rightarrow> rbuffer \<Rightarrow> rbuffer result" where
  "Pack e envp buffer = fold (\<lambda>p r. bindr r (\<lambda>b.
     bindr (WriteLenAndData e b (ev_key p) (word_of_nat (length (ev_key p)))) (\<lambda>b1.
     WriteLenAndData e b1 (ev_val p) (word_of_nat (length (ev_val p)))))) envp (Inr buffer)"

lemma buffer_Read_size: "buffer_Read e b dst n = Inr (bs, b') \<Longrightarrow> unat (rb_size b') + unat n = unat (rb_size b)"
  by (auto simp: buffer_Read_def unat_sub word_le_nat_alt)

lemma Skip_size: "Skip e b n = Inr b' \<Longrightarrow> unat (rb_size b') \<le> unat (rb_size b)"
  using buffer_Read_size by (fastforce simp: Skip_def)

lemma ReadLen_size: "ReadLen e b = Inr (n, b') \<Longrightarrow> unat (rb_size b') < unat (rb_size b)"
  using buffer_Read_size [of e b True 4] by (fastforce simp: ReadLen_def)

definition read_string :: "alloc_env \<Rightarrow> rbuffer \<Rightarrow> (u8 list \<times> rbuffer) result" where
  "read_string e b =
     bindr (ReadLen e b) (\<lambda>(n, b1). bindr (get_bytes (rb_data b1) 0 (unat n)) (\<lambda>s. bindr (Skip e b1 n) (\<lambda>b2. Inr (s, b2))))"

lemma read_string_size: "read_string e b = Inr (s, b') \<Longrightarrow> unat (rb_size b') < unat (rb_size b)"
  using ReadLen_size Skip_size by (fastforce simp: read_string_def dest: order.strict_trans1)

function Unpack :: "alloc_env \<Rightarrow> Envp \<Rightarrow> rbuffer \<Rightarrow> (Envp \<times> rbuffer) result" where
  "Unpack e envp b =
     (if rb_size b = 0 then Inr (envp, b)
      else bindr (read_string e b) (\<lambda>(key, b1). bindr (read_string e b1) (\<lambda>(val, b2). Unpack e (setVal envp key val) b2)))"
  by pat_completeness auto
termination
  by (relation "measure (\<lambda>(e, envp, b). unat (rb_size b))") (auto dest!: read_string_size)

declare Unpack.simps [simp del]

text \<open>The \<open>continue\<close> behind the warning does not move on to the next entry, so the loop has fuel.\<close>

fun UnpackEnvp :: "nat \<Rightarrow> bmem \<Rightarrow> u32 \<Rightarrow> Envp \<Rightarrow> Envp result" where
  "UnpackEnvp 0 m envp vec = Inl Out_of_fuel"
| "UnpackEnvp (Suc fuel) m envp vec =
     (if rd32 m envp = 0 then Inr vec
      else case string_cstr m (rd32 m envp) of None \<Rightarrow> Inl Out_of_fuel
      | Some str \<Rightarrow>
        let entry = chars str in
        bindr (find_chr entry 0x3D 0) (\<lambda>found_sep.
        if found_sep = npos \<or> found_sep = 0 then UnpackEnvp fuel m envp vec
        else bindr (sub_chars entry 0 found_sep) (\<lambda>key.
             bindr (sub_chars entry (found_sep + 1) npos) (\<lambda>val.
             UnpackEnvp fuel m (envp + 4) (setVal vec key val)))))"

text \<open>The characters \<open>getenv\<close> points to, and whether they are terminated; \<open>&(*val)[0]\<close> aborts for an empty value.\<close>

definition getenv :: "Envp \<Rightarrow> u8 list \<Rightarrow> (u8 list \<times> bool) option result" where
  "getenv envp name =
     (case getVal envp name of None \<Rightarrow> Inr None
      | Some p \<Rightarrow> bindr (chr_at (ev_val p) 0) (\<lambda>_. Inr (Some (ev_val p, ev_term p))))"

datatype errno = EINVAL | EACCES | ENOENT | ENOTDIR | ERANGE

definition setenv :: "(u32 \<Rightarrow> u32) \<Rightarrow> bmem \<times> u32 \<times> Envp \<Rightarrow> u8 list option \<Rightarrow> u8 list \<Rightarrow> bool \<Rightarrow> int \<times> errno option \<times> bmem \<times> u32 \<times> Envp" where
  "setenv alloc = (\<lambda>(m, environ, envp) envname envval overwrite.
     case envname of None \<Rightarrow> (- 1, Some EINVAL, m, environ, envp)
     | Some name \<Rightarrow>
         if name = [] \<or> 0x3D \<in> set name then (- 1, Some EINVAL, m, environ, envp)
         else if getVal envp name \<noteq> None \<and> \<not> overwrite then (0, None, m, environ, envp)
         else let envp' = setVal envp name envval; (environ', m') = getPlainEnvp alloc m envp' in (0, None, m', environ', envp'))"


section \<open>The packed environment\<close>

definition packed_string :: "u8 list \<Rightarrow> u8 list" where
  "packed_string s = bytes32 (word_of_nat (length s)) @ s"

definition packed :: "Envp \<Rightarrow> u8 list" where
  "packed ps = concat (map (\<lambda>p. packed_string (ev_key p) @ packed_string (ev_val p)) ps)"

lemma WriteLenAndData_wf:
  assumes e: "enough e" and wf: "buffer_wf b" and len: "length (contents_of b) + length (packed_string s) < 4294967296"
  shows "\<exists>b'. WriteLenAndData e b s (word_of_nat (length s)) = Inr b' \<and> buffer_wf b' \<and> contents_of b' = contents_of b @ packed_string s"
proof -
  have l: "length (contents_of b) + 4 + length s < 4294967296" using len by (simp add: packed_string_def)
  then have u: "unat (word_of_nat (length s) :: u32) = length s" by (intro unat_of_nat_u32) simp
  from Write_wf [OF e wf, of 4 "bytes32 (word_of_nat (length s))"] l obtain b1 where
    b1: "buffer_Write_len e b (word_of_nat (length s)) = Inr b1" "buffer_wf b1" "contents_of b1 = contents_of b @ bytes32 (word_of_nat (length s))"
    by (auto simp: buffer_Write_len_def)
  from Write_wf [OF e b1(2) u] l b1(3) obtain b2 where
    "buffer_Write e b1 s (word_of_nat (length s)) = Inr b2" "buffer_wf b2" "contents_of b2 = contents_of b1 @ s" by auto
  with b1 show ?thesis by (simp add: WriteLenAndData_def packed_string_def)
qed

lemma Pack_Cons:
  "Pack e (p # ps) b = bindr (WriteLenAndData e b (ev_key p) (word_of_nat (length (ev_key p)))) (\<lambda>b1.
     bindr (WriteLenAndData e b1 (ev_val p) (word_of_nat (length (ev_val p)))) (Pack e ps))"
proof -
  have inl: "fold (\<lambda>p r. bindr r (\<lambda>b. bindr (WriteLenAndData e b (ev_key p) (word_of_nat (length (ev_key p)))) (\<lambda>b1.
     WriteLenAndData e b1 (ev_val p) (word_of_nat (length (ev_val p)))))) ps (Inl x) = Inl x" for x
    by (induction ps) simp_all
  show ?thesis
    by (cases "WriteLenAndData e b (ev_key p) (word_of_nat (length (ev_key p)))"; simp add: Pack_def inl)
      (metis (no_types, lifting) Pack_def bindr.simps inl old.sum.exhaust)
qed

lemma Pack_wf:
  "enough e \<Longrightarrow> buffer_wf b \<Longrightarrow> length (contents_of b) + length (packed ps) < 4294967296 \<Longrightarrow>
    \<exists>b'. Pack e ps b = Inr b' \<and> buffer_wf b' \<and> contents_of b' = contents_of b @ packed ps"
proof (induction ps arbitrary: b)
  case Nil
  then show ?case by (simp add: Pack_def packed_def)
next
  case (Cons p ps)
  have len: "length (contents_of b) + (length (packed_string (ev_key p)) + (length (packed_string (ev_val p)) + length (packed ps))) < 4294967296"
    using Cons.prems(3) by (simp add: packed_def)
  obtain b1 where b1: "WriteLenAndData e b (ev_key p) (word_of_nat (length (ev_key p))) = Inr b1" "buffer_wf b1"
    "contents_of b1 = contents_of b @ packed_string (ev_key p)"
    using WriteLenAndData_wf [OF Cons.prems(1,2), of "ev_key p"] len by auto
  obtain b2 where b2: "WriteLenAndData e b1 (ev_val p) (word_of_nat (length (ev_val p))) = Inr b2" "buffer_wf b2"
    "contents_of b2 = contents_of b1 @ packed_string (ev_val p)"
    using WriteLenAndData_wf [OF Cons.prems(1) b1(2), of "ev_val p"] len b1(3) by auto
  from Cons.IH [OF Cons.prems(1) b2(2)] len b1 b2 show ?case by (auto simp: Pack_Cons packed_def)
qed

lemma read_string_wf:
  assumes e: "enough e" and wf: "buffer_wf b" and c: "contents_of b = packed_string s @ rest" and s: "length s < 4294967296"
  shows "\<exists>b'. read_string e b = Inr (s, b') \<and> buffer_wf b' \<and> contents_of b' = rest"
proof -
  have u: "unat (word_of_nat (length s) :: u32) = length s" using s by (rule unat_of_nat_u32)
  have c4: "take 4 (contents_of b) = bytes32 (word_of_nat (length s))" "drop 4 (contents_of b) = s @ rest" using c by (simp_all add: packed_string_def)
  from Read_wf [OF e wf, of 4 True] c obtain b1 where b1: "ReadLen e b = Inr (word_of_nat (length s), b1)" "buffer_wf b1" "contents_of b1 = s @ rest"
    using c4 by (auto simp: ReadLen_def packed_string_def)
  have g: "get_bytes (rb_data b1) 0 (length s) = Inr s"
  proof -
    from b1(2) obtain xs where xs: "rb_data b1 = Some xs" "length xs = unat (rb_capacity b1)" "unat (rb_size b1) \<le> length xs"
      "contents_of b1 = take (unat (rb_size b1)) xs" "length (contents_of b1) = unat (rb_size b1)" by (rule buffer_wfE)
    have le: "length s \<le> unat (rb_size b1)" using xs(5) b1(3) by simp
    have "take (length s) (contents_of b1) = s" using b1(3) by simp
    then have "take (length s) xs = s" using xs(4) le by (simp add: min_def)
    then show ?thesis using xs(1,3) le get_bytes_some [of 0 "length s" xs] by simp
  qed
  from Read_wf [OF e b1(2), of "word_of_nat (length s)" False] b1(3) u obtain b2 where
    "Skip e b1 (word_of_nat (length s)) = Inr b2" "buffer_wf b2" "contents_of b2 = rest" by (auto simp: Skip_def)
  with b1(1) g u show ?thesis by (simp add: read_string_def)
qed

lemma Unpack_wf:
  "enough e \<Longrightarrow> buffer_wf b \<Longrightarrow> contents_of b = packed ps \<Longrightarrow> length (packed ps) < 4294967296 \<Longrightarrow>
    \<exists>b'. Unpack e envp b = Inr (fold (\<lambda>p v. setVal v (ev_key p) (ev_val p)) ps envp, b') \<and> buffer_wf b'"
proof (induction ps arbitrary: envp b)
  case Nil
  from Nil(2) have "length (contents_of b) = unat (rb_size b)" by (rule buffer_wfE)
  then have "rb_size b = 0" using Nil(3) by (simp add: packed_def unat_eq_zero)
  then show ?case using Nil(2) by (subst Unpack.simps) simp
next
  case (Cons p ps)
  have c: "contents_of b = packed_string (ev_key p) @ packed_string (ev_val p) @ packed ps" using Cons.prems(3) by (simp add: packed_def)
  have len: "length (ev_key p) < 4294967296" "length (ev_val p) < 4294967296" "length (packed ps) < 4294967296"
    using Cons.prems(4) by (simp_all add: packed_def packed_string_def)
  have ne: "rb_size b \<noteq> 0"
  proof
    assume "rb_size b = 0"
    from Cons.prems(2) have "length (contents_of b) = unat (rb_size b)" by (rule buffer_wfE)
    then show False using c \<open>rb_size b = 0\<close> by (simp add: packed_string_def)
  qed
  obtain b1 where b1: "read_string e b = Inr (ev_key p, b1)" "buffer_wf b1" "contents_of b1 = packed_string (ev_val p) @ packed ps"
    using read_string_wf [OF Cons.prems(1,2) c len(1)] by blast
  obtain b2 where b2: "read_string e b1 = Inr (ev_val p, b2)" "buffer_wf b2" "contents_of b2 = packed ps"
    using read_string_wf [OF Cons.prems(1) b1(2,3) len(2)] by blast
  from Cons.IH [OF Cons.prems(1) b2(2,3) len(3), of "setVal envp (ev_key p) (ev_val p)"] b1(1) b2(1) ne show ?case
    by (subst Unpack.simps) simp
qed

lemma getVal_none: "getVal vs k = None \<longleftrightarrow> k \<notin> ev_key ` set vs"
  by (auto simp: getVal_def find_None_iff)

lemma setVal_fresh:
  "distinct (map ev_key ps) \<Longrightarrow> (\<forall>p \<in> set ps. getVal vs (ev_key p) = None) \<Longrightarrow>
    fold (\<lambda>p v. setVal v (ev_key p) (ev_val p)) ps vs = vs @ map (\<lambda>p. new_pair (ev_key p) (ev_val p)) ps"
proof (induction ps arbitrary: vs)
  case (Cons p ps)
  have "setVal vs (ev_key p) (ev_val p) = vs @ [new_pair (ev_key p) (ev_val p)]" using Cons.prems(2) by (simp add: setVal_def)
  moreover have "\<forall>q \<in> set ps. getVal (vs @ [new_pair (ev_key p) (ev_val p)]) (ev_key q) = None"
    using Cons.prems by (auto simp: getVal_none new_pair_def) (metis image_eqI)
  ultimately show ?case using Cons.IH Cons.prems(1) by simp
qed simp

text \<open>C27: An environment that is packed for another process is unpacked there to the same variables in the same order: \<open>Pack\<close> into an empty buffer
  succeeds, and any buffer that holds these bytes unpacks to the environment.\<close>

theorem envp_round_trip:
  assumes "enough e" "distinct (map ev_key ps)" "length (packed ps) < 4294967296"
  shows "\<exists>b. Pack e ps (buffer_new e 0) = Inr b \<and> buffer_wf b \<and> unat (rb_size b) = length (packed ps)
    \<and> (\<forall>c. buffer_wf c \<and> contents_of c = contents_of b \<longrightarrow> (\<exists>c'. Unpack e [] c = Inr (map (\<lambda>p. new_pair (ev_key p) (ev_val p)) ps, c')))"
proof -
  have "buffer_wf (buffer_new e 0)" using buffer_new_wf [OF assms(1)] by blast
  from Pack_wf [OF assms(1) this, of ps] assms(3) obtain b where b: "Pack e ps (buffer_new e 0) = Inr b" "buffer_wf b" "contents_of b = packed ps"
    by (auto simp: buffer_new_empty)
  from b(2) have "length (contents_of b) = unat (rb_size b)" by (rule buffer_wfE)
  moreover have "\<exists>c'. Unpack e [] c = Inr (map (\<lambda>p. new_pair (ev_key p) (ev_val p)) ps, c')" if "buffer_wf c" "contents_of c = contents_of b" for c
    using Unpack_wf [OF assms(1) that(1) _ assms(3), of "[]"] that(2) b(3) setVal_fresh [OF assms(2), of "[]"] by (auto simp: getVal_def)
  ultimately show ?thesis using b by auto
qed

definition plenty :: alloc_env where
  "plenty = \<lparr>can_alloc = (\<lambda>_. True), junk = (\<lambda>_. 0)\<rparr>"

definition example_envp :: Envp where
  "example_envp = [new_pair [0x50, 0x57, 0x44] [0x2F], new_pair [0x50] []]"

theorem envp_round_trip_witness:
  "\<exists>b c. Pack plenty example_envp (buffer_new plenty 0) = Inr b \<and> Unpack plenty [] b = Inr (example_envp, c)"
proof -
  have "enough plenty" "distinct (map ev_key example_envp)" "length (packed example_envp) < 4294967296"
    by (simp_all add: enough_def plenty_def example_envp_def new_pair_def packed_def packed_string_def)
  from envp_round_trip [OF this] show ?thesis by (auto simp: example_envp_def new_pair_def)
qed


section \<open>The packed arguments\<close>

definition strings_size :: "u8 list list \<Rightarrow> nat" where
  "strings_size ps = sum_list (map (\<lambda>p. length p + 1) ps)"

definition params_size :: "u8 list list \<Rightarrow> nat" where
  "params_size ps = 4 + 4 * length ps + strings_size ps"

text \<open>A table of pointers at \<open>t\<close>, relative to the entries' own addresses when \<open>rel\<close>, and the strings it points to at \<open>s\<close>.\<close>

fun packed_at :: "bool \<Rightarrow> bmem \<Rightarrow> u32 \<Rightarrow> u32 \<Rightarrow> u8 list list \<Rightarrow> bool" where
  "packed_at rel m t s [] \<longleftrightarrow> True"
| "packed_at rel m t s (p # ps) \<longleftrightarrow>
     rd32 m t = (if rel then s - t else s) \<and> bytes_at m s (Suc (length p)) = p @ [0]
     \<and> packed_at rel m (t + 4) (s + (word_of_nat (length p) + 1)) ps"

lemma strings_size_simps [simp]: "strings_size [] = 0" "strings_size (p # ps) = Suc (length p) + strings_size ps"
  by (simp_all add: strings_size_def)

lemma PackSize_eq: "PackSize ps = word_of_nat (params_size ps)"
proof -
  have "fold (\<lambda>p packsize. packsize + (word_of_nat (length p) + 1)) ps x = x + word_of_nat (strings_size ps)" for x :: u32
    by (induction ps arbitrary: x) (simp_all add: algebra_simps)
  then show ?thesis by (simp add: PackSize_def params_size_def algebra_simps)
qed

lemma next_string: "unat s + Suc n < 4294967296 \<Longrightarrow> unat (s + (word_of_nat n + 1) :: u32) = unat s + Suc n"
proof -
  assume a: "unat s + Suc n < 4294967296"
  have "word_of_nat n + 1 = (word_of_nat (Suc n) :: u32)" by simp
  then show ?thesis using a by (simp only:) (subst unat_add_u32; simp add: unat_of_nat_u32 del: of_nat_Suc)
qed

lemma packed_at_cong:
  assumes "unat t + 4 * length ps \<le> unat s" "unat s + strings_size ps < 4294967296"
    "\<And>x. unat t \<le> unat x \<Longrightarrow> unat x < unat t + 4 * length ps \<Longrightarrow> m x = m' x" "\<And>x. unat s \<le> unat x \<Longrightarrow> unat x < unat s + strings_size ps \<Longrightarrow> m x = m' x"
  shows "packed_at rel m t s ps \<longleftrightarrow> packed_at rel m' t s ps"
  using assms
proof (induction ps arbitrary: t s)
  case (Cons p ps)
  have t4: "unat (t + 4) = unat t + 4" using Cons.prems(1,2) by (subst unat_add_u32) simp_all
  have sn: "unat (s + (word_of_nat (length p) + 1)) = unat s + Suc (length p)" using Cons.prems(2) by (intro next_string) simp
  have "rd32 m t = rd32 m' t" by (rule rd32_cong) (use Cons.prems in \<open>simp add: region_nat\<close>)
  moreover have "bytes_at m s (Suc (length p)) = bytes_at m' s (Suc (length p))"
    by (rule bytes_at_cong) (use Cons.prems in \<open>simp_all add: region_nat\<close>)
  moreover have "packed_at rel m (t + 4) (s + (word_of_nat (length p) + 1)) ps \<longleftrightarrow> packed_at rel m' (t + 4) (s + (word_of_nat (length p) + 1)) ps"
    by (rule Cons.IH) (use Cons.prems t4 sn in simp_all)
  ultimately show ?case by simp
qed simp

lemma pack_loop_ok:
  "unat t + 4 * length ps \<le> unat s \<Longrightarrow> unat s + strings_size ps < unat fin \<Longrightarrow>
    \<exists>m'. pack_loop m fin t s ps = Inr m' \<and> packed_at True m' t s ps
      \<and> (\<forall>x. \<not> (unat t \<le> unat x \<and> unat x < unat t + 4 * length ps) \<and> \<not> (unat s \<le> unat x \<and> unat x < unat s + strings_size ps) \<longrightarrow> m' x = m x)"
proof (induction ps arbitrary: m t s)
  case (Cons p ps)
  let ?n = "length p" and ?s' = "s + (word_of_nat (length p) + 1)"
  have f: "unat fin < 4294967296" by (rule unat_lt_u32)
  have t4: "unat (t + 4) = unat t + 4" using Cons.prems f by (subst unat_add_u32) simp_all
  have sn: "unat ?s' = unat s + Suc ?n" using Cons.prems f by (intro next_string) simp
  have su: "unat (s + word_of_nat ?n) = unat s + ?n" using Cons.prems f by (subst unat_add_u32) (simp_all add: unat_of_nat_u32)
  let ?m2 = "(store_bytes m s p)(s + word_of_nat ?n := 0)"
  let ?m3 = "wr32 ?m2 t (s - t)"
  have c: "s + word_of_nat ?n + 1 < fin" using sn Cons.prems(2) by (simp add: word_less_nat_alt add.assoc)
  have m3: "?m3 x = m x" if "\<not> (unat t \<le> unat x \<and> unat x < unat t + 4)" "\<not> (unat s \<le> unat x \<and> unat x < unat s + Suc ?n)" for x
  proof -
    have "x \<notin> region t 4" using that Cons.prems f by (simp add: region_nat)
    moreover have "x \<notin> region s ?n" using that(2) Cons.prems f by (auto simp: region_nat)
    moreover have "x \<noteq> s + word_of_nat ?n" using that(2) su by auto
    ultimately show ?thesis using Cons.prems f by (simp add: wr32_out store_out)
  qed
  have str: "bytes_at ?m3 s (Suc ?n) = p @ [0]"
  proof -
    have "bytes_at ?m3 s (Suc ?n) = bytes_at ?m2 s (Suc ?n)"
      by (rule bytes_at_cong, rule wr32_out) (use Cons.prems f in \<open>auto simp: region_nat\<close>)
    also have "\<dots> = bytes_at (store_bytes m s (p @ [0])) s (Suc ?n)"
    proof (rule bytes_at_cong)
      fix x assume "x \<in> region s (Suc ?n)"
      then have "unat (x - s) \<le> ?n" by (simp add: region_def)
      moreover have "x = s + word_of_nat ?n \<longleftrightarrow> unat (x - s) = ?n"
      proof -
        have "unat (word_of_nat ?n :: u32) = ?n" using Cons.prems f by (intro unat_of_nat_u32) simp
        moreover have "x = s + word_of_nat ?n \<longleftrightarrow> x - s = word_of_nat ?n" by (simp add: diff_eq_eq add.commute)
        ultimately show ?thesis by (simp only: word_unat_eq_iff)
      qed
      ultimately show "?m2 x = store_bytes m s (p @ [0]) x" using Cons.prems f by (auto simp: store_bytes_at nth_append)
    qed (use Cons.prems f in simp)
    also have "\<dots> = p @ [0]" using bytes_at_store [of "p @ [0]" m s] Cons.prems f by simp
    finally show ?thesis .
  qed
  from Cons.IH [of "t + 4" ?s' ?m3] Cons.prems t4 sn obtain m' where
    m': "pack_loop ?m3 fin (t + 4) ?s' ps = Inr m'" "packed_at True m' (t + 4) ?s' ps"
      "\<forall>x. \<not> (unat t + 4 \<le> unat x \<and> unat x < unat t + 4 + 4 * length ps) \<and> \<not> (unat s + Suc ?n \<le> unat x \<and> unat x < unat s + Suc ?n + strings_size ps) \<longrightarrow> m' x = ?m3 x"
    by auto
  have "rd32 m' t = rd32 ?m3 t" by (rule rd32_cong, rule m'(3) [rule_format]) (use Cons.prems f in \<open>simp add: region_nat\<close>)
  moreover have "bytes_at m' s (Suc ?n) = bytes_at ?m3 s (Suc ?n)"
    by (rule bytes_at_cong, rule m'(3) [rule_format]) (use Cons.prems f in \<open>auto simp: region_nat\<close>)
  ultimately have "packed_at True m' t s (p # ps)" using m'(2) str by (simp add: rd32_wr32)
  moreover have "pack_loop m fin t s (p # ps) = Inr m'" using c m'(1) by (simp add: Let_def)
  moreover have "m' x = m x" if "\<not> (unat t \<le> unat x \<and> unat x < unat t + 4 * length (p # ps))" "\<not> (unat s \<le> unat x \<and> unat x < unat s + strings_size (p # ps))" for x
  proof -
    have "m' x = ?m3 x" by (rule m'(3) [rule_format]) (use that in auto)
    also have "\<dots> = m x" by (rule m3) (use that in auto)
    finally show ?thesis .
  qed
  ultimately show ?case by blast
qed simp

lemma unpack_loop_ok:
  "unat t + 4 * length ps \<le> unat s \<Longrightarrow> unat s + strings_size ps < 4294967296 \<Longrightarrow> packed_at True m t s ps \<Longrightarrow>
    packed_at False (unpack_loop m t (length ps)) t s ps
    \<and> (\<forall>x. \<not> (unat t \<le> unat x \<and> unat x < unat t + 4 * length ps) \<longrightarrow> unpack_loop m t (length ps) x = m x)"
proof (induction ps arbitrary: m t s)
  case (Cons p ps)
  let ?s' = "s + (word_of_nat (length p) + 1)" and ?m1 = "wr32 m t (rd32 m t + t)"
  have t4: "unat (t + 4) = unat t + 4" using Cons.prems by (subst unat_add_u32) simp_all
  have sn: "unat ?s' = unat s + Suc (length p)" using Cons.prems by (intro next_string) simp
  have m1: "?m1 x = m x" if "\<not> (unat t \<le> unat x \<and> unat x < unat t + 4)" for x
    by (rule wr32_out) (use that Cons.prems in \<open>simp add: region_nat\<close>)
  have "packed_at True ?m1 (t + 4) ?s' ps \<longleftrightarrow> packed_at True m (t + 4) ?s' ps"
    by (rule packed_at_cong) (use Cons.prems(1,2) t4 sn in \<open>auto intro!: m1\<close>)
  with Cons.IH [of "t + 4" ?s' ?m1] Cons.prems t4 sn have
    IH: "packed_at False (unpack_loop ?m1 (t + 4) (length ps)) (t + 4) ?s' ps"
      "\<forall>x. \<not> (unat t + 4 \<le> unat x \<and> unat x < unat t + 4 + 4 * length ps) \<longrightarrow> unpack_loop ?m1 (t + 4) (length ps) x = ?m1 x" by auto
  let ?m = "unpack_loop ?m1 (t + 4) (length ps)"
  have "rd32 ?m t = rd32 ?m1 t" by (rule rd32_cong, rule IH(2) [rule_format]) (use Cons.prems in \<open>simp add: region_nat\<close>)
  then have r: "rd32 ?m t = s" using Cons.prems(3) by (simp add: rd32_wr32)
  have "?m x = m x" if "\<not> (unat t \<le> unat x \<and> unat x < unat t + 4 * length (p # ps))" for x
    using IH(2) [rule_format, of x] m1 [of x] that by auto
  note out = this
  have "bytes_at ?m s (Suc (length p)) = bytes_at m s (Suc (length p))"
    by (rule bytes_at_cong, rule out) (use Cons.prems in \<open>auto simp: region_nat\<close>)
  then have "bytes_at ?m s (Suc (length p)) = p @ [0]" using Cons.prems(3) by simp
  with r IH(1) out show ?case by simp
qed simp

lemma packed_at_nth:
  "packed_at False m t s ps \<Longrightarrow> \<forall>p \<in> set ps. 0 \<notin> set p \<Longrightarrow> i < length ps \<Longrightarrow> cstr m (rd32 m (t + 4 * word_of_nat i)) (ps ! i)"
proof (induction ps arbitrary: t s i)
  case (Cons p ps)
  show ?case
  proof (cases i)
    case 0
    then show ?thesis using Cons.prems by (simp add: cstr_region)
  next
    case (Suc j)
    have e: "t + 4 * word_of_nat i = t + 4 + 4 * word_of_nat j" using Suc by (simp add: algebra_simps)
    show ?thesis unfolding e using Cons.IH [of "t + 4" "s + (word_of_nat (length p) + 1)" j] Cons.prems Suc by simp
  qed
qed simp

text \<open>The same bytes at another place are packed arguments there: nothing in them depends on the address.\<close>

lemma bytes_at_move:
  "\<forall>k < N. m2 (b + word_of_nat k) = m1 (a + word_of_nat k) \<Longrightarrow> i + n \<le> N \<Longrightarrow> bytes_at m2 (b + word_of_nat i) n = bytes_at m1 (a + word_of_nat i) n"
  unfolding bytes_at_def by (rule map_cong) (auto simp: add.assoc simp flip: of_nat_add)

lemma packed_at_move:
  assumes "\<forall>k < N. m2 (b + word_of_nat k) = m1 (a + word_of_nat k)"
  shows "i + 4 * length ps \<le> N \<Longrightarrow> j + strings_size ps \<le> N \<Longrightarrow> packed_at True m1 (a + word_of_nat i) (a + word_of_nat j) ps \<Longrightarrow>
    packed_at True m2 (b + word_of_nat i) (b + word_of_nat j) ps"
proof (induction ps arbitrary: i j)
  case (Cons p ps)
  have "rd32 m2 (b + word_of_nat i) = rd32 m1 (a + word_of_nat i)" unfolding rd32_def using bytes_at_move [OF assms, of i 4] Cons.prems by simp
  moreover have "bytes_at m2 (b + word_of_nat j) (Suc (length p)) = bytes_at m1 (a + word_of_nat j) (Suc (length p))"
    using bytes_at_move [OF assms, of j "Suc (length p)"] Cons.prems by simp
  moreover have e: "c + word_of_nat i + 4 = c + word_of_nat (i + 4)" "c + word_of_nat j + (word_of_nat (length p) + 1) = c + word_of_nat (j + Suc (length p))" for c :: u32
    by (simp_all add: algebra_simps)
  have "packed_at True m2 (b + word_of_nat (i + 4)) (b + word_of_nat (j + Suc (length p))) ps"
    by (rule Cons.IH) (use Cons.prems in \<open>simp_all only: packed_at.simps e list.size strings_size_simps\<close>, simp_all)
  ultimately show ?case using Cons.prems(3) by (simp only: packed_at.simps e) simp
qed simp

lemma aligned_next: "a mod 4 = 0 \<Longrightarrow> (a + 4) mod 4 = (0 :: u32)"
proof -
  assume "a mod 4 = 0"
  then have "unat a mod 4 = 0" by (simp add: word_unat_eq_iff unat_mod)
  then have "unat (a + 4) mod 4 = 0" by (simp add: unat_plus_if') presburger
  then show ?thesis by (simp add: word_unat_eq_iff unat_mod)
qed

lemma params_unpacked:
  assumes "a mod 4 = 0" "unat a + unat page_size < 4294967296" "params_size ps < unat page_size" "\<forall>p \<in> set ps. 0 \<notin> set p"
    and "b mod 4 = 0" "unat b + params_size ps < 4294967296" "\<And>m'. bytes_at (copy m') b (params_size ps) = bytes_at m' a (params_size ps)"
  shows "\<exists>m1 m2. PackParams page_size m a ps = Inr m1 \<and> (\<forall>x. x \<notin> region a (unat (PackSize ps)) \<longrightarrow> m1 x = m x)
    \<and> UnpackParams (copy m1) b = Inr (int (length ps), b + 4, m2) \<and> (\<forall>i < length ps. cstr m2 (rd32 m2 (b + 4 + 4 * word_of_nat i)) (ps ! i))"
proof -
  let ?n = "length ps" and ?N = "params_size ps"
  let ?m0 = "wr32 m a (word_of_nat ?n)" and ?s = "4 + 4 * word_of_nat ?n :: u32"
  have N: "?N = 4 + 4 * ?n + strings_size ps" by (simp add: params_size_def)
  have ps: "unat (PackSize ps) = ?N" using assms(2,3) by (simp add: PackSize_eq unat_of_nat_u32)
  have off: "unat (c + 4) = unat c + 4" "unat (c + ?s) = unat c + 4 + 4 * ?n" if "unat c + ?N < 4294967296" for c
  proof -
    have "?s = word_of_nat (4 + 4 * ?n)" by simp
    moreover have "unat (word_of_nat (4 + 4 * ?n) :: u32) = 4 + 4 * ?n" using that N by (intro unat_of_nat_u32) simp
    ultimately have "unat ?s = 4 + 4 * ?n" by simp
    then show "unat (c + ?s) = unat c + 4 + 4 * ?n" using that N by (subst unat_add_u32) simp_all
    show "unat (c + 4) = unat c + 4" using that N by (subst unat_add_u32) simp_all
  qed
  have fin: "unat (a + page_size) = unat a + unat page_size" using assms(2) by (rule unat_add_u32)
  have aN: "unat a + ?N < 4294967296" using assms(2,3) by simp
  from pack_loop_ok [of "a + 4" ps "a + ?s" "a + page_size" ?m0] off [OF aN] fin assms(3) N obtain m1 where
    m1: "pack_loop ?m0 (a + page_size) (a + 4) (a + ?s) ps = Inr m1" "packed_at True m1 (a + 4) (a + ?s) ps"
      "\<forall>x. \<not> (unat a + 4 \<le> unat x \<and> unat x < unat a + 4 + 4 * ?n) \<and> \<not> (unat a + 4 + 4 * ?n \<le> unat x \<and> unat x < unat a + 4 + 4 * ?n + strings_size ps) \<longrightarrow> m1 x = ?m0 x"
    by auto
  have pk: "PackParams page_size m a ps = Inr m1" using m1(1) assms(1) aligned_next [OF assms(1)] by (simp add: PackParams_def Let_def add.assoc)
  have out: "m1 x = m x" if "x \<notin> region a ?N" for x
  proof -
    have r: "\<not> (unat a \<le> unat x \<and> unat x < unat a + ?N)" using that aN by (simp add: region_nat)
    then have "m1 x = ?m0 x" using m1(3) N by auto
    moreover have "?m0 x = m x" by (rule wr32_out) (use r N aN in \<open>auto simp: region_nat\<close>)
    ultimately show ?thesis by simp
  qed
  have eq: "\<forall>k < ?N. copy m1 (b + word_of_nat k) = m1 (a + word_of_nat k)"
    using assms(7) [of m1] by (metis bytes_at_nth)
  have argc: "rd32 (copy m1) b = word_of_nat ?n"
  proof -
    have "rd32 (copy m1) b = rd32 m1 a" unfolding rd32_def using bytes_at_move [OF eq, of 0 4] N by simp
    also have "\<dots> = rd32 ?m0 a" by (rule rd32_cong, rule m1(3) [rule_format]) (use aN N in \<open>auto simp: region_nat\<close>)
    finally show ?thesis by (simp add: rd32_wr32)
  qed
  have sn: "sint (word_of_nat ?n :: u32) = int ?n"
    using aN N by (simp add: signed_of_nat signed_take_bit_int_eq_self)
  have "packed_at True (copy m1) (b + 4) (b + ?s) ps"
    using packed_at_move [OF eq, of 4 ps "4 + 4 * ?n"] m1(2) N by simp
  from unpack_loop_ok [OF _ _ this] off [OF assms(6)] assms(6) N have u: "packed_at False (unpack_loop (copy m1) (b + 4) ?n) (b + 4) (b + ?s) ps" by simp
  have "UnpackParams (copy m1) b = Inr (int ?n, b + 4, unpack_loop (copy m1) (b + 4) ?n)"
    using assms(5) aligned_next [OF assms(5)] argc sn by (simp add: UnpackParams_def Let_def)
  then show ?thesis using pk out packed_at_nth [OF u assms(4)] unfolding ps by (intro exI conjI allI impI)
qed

text \<open>Arguments packed at one address and copied to another are unpacked there: \<open>argc\<close> is their number and every \<open>argv\<close> entry points to its
  string. \<open>PackParams\<close> writes \<open>PackSize\<close> bytes and no others.\<close>

theorem params_round_trip:
  assumes "a mod 4 = 0" "unat a + unat page_size < 4294967296" "params_size ps < unat page_size" "\<forall>p \<in> set ps. 0 \<notin> set p"
    and "b mod 4 = 0" "unat b + params_size ps < 4294967296" "\<And>m'. bytes_at (copy m') b (params_size ps) = bytes_at m' a (params_size ps)"
  shows "\<exists>m1 m2. PackParams page_size m a ps = Inr m1 \<and> (\<forall>x. x \<notin> region a (unat (PackSize ps)) \<longrightarrow> m1 x = m x)
    \<and> UnpackParams (copy m1) b = Inr (int (length ps), b + 4, m2) \<and> (\<forall>i < length ps. cstr m2 (rd32 m2 (b + 4 + 4 * word_of_nat i)) (ps ! i))"
  by (rule params_unpacked [OF assms])

theorem params_round_trip_witness:
  "\<exists>m1 m2. PackParams 0x400000 (\<lambda>_. 0) 0x1000 [[0x6C, 0x73], [0x2F]] = Inr m1 \<and> UnpackParams (\<lambda>x. m1 (x - 0x1000)) 0x2000 = Inr (2, 0x2004, m2)
    \<and> cstr m2 (rd32 m2 0x2008) [0x2F]"
proof -
  have c: "bytes_at (\<lambda>x. m' (x - 0x1000)) 0x2000 n = bytes_at m' 0x1000 n" for m' n by (simp add: bytes_at_def)
  have s: "params_size [[0x6C, 0x73], [0x2F]] = 17" by (simp add: params_size_def)
  from params_round_trip [of "0x1000" "0x400000" "[[0x6C, 0x73], [0x2F]]" "0x2000" "\<lambda>m x. m (x - 0x1000)" "\<lambda>_. 0"] c s
  obtain m1 m2 where "PackParams 0x400000 (\<lambda>_. 0) 0x1000 [[0x6C, 0x73], [0x2F]] = Inr m1" "UnpackParams (\<lambda>x. m1 (x - 0x1000)) 0x2000 = Inr (2, 0x2004, m2)"
    "\<forall>i < 2. cstr m2 (rd32 m2 (0x2004 + 4 * word_of_nat i)) ([[0x6C, 0x73], [0x2F]] ! i)" by auto
  then show ?thesis by (intro exI conjI) (assumption, assumption, drule spec [of _ 1], simp)
qed


section \<open>The table of the environment\<close>

definition entry_of :: "EnvpPair \<Rightarrow> u8 list" where
  "entry_of p = ev_key p @ 0x3D # ev_val p"

definition env_size :: "Envp \<Rightarrow> nat" where
  "env_size ps = 4 * (length ps + 1) + strings_size (map entry_of ps)"

lemma CopyEntry_eq: "CopyEntry m dst p = (store_bytes m dst (entry_of p @ [0]), dst + (word_of_nat (length (entry_of p)) + 1))"
  by (simp add: CopyEntry_def entry_of_def store_bytes_append Let_def algebra_simps)

lemma plain_size_eq: "plain_size ps = word_of_nat (env_size ps)"
proof -
  have "fold (\<lambda>p total_size. total_size + word_of_nat (length (ev_key p)) + 1 + word_of_nat (length (ev_val p)) + 1) ps x
      = x + word_of_nat (strings_size (map entry_of ps))" for x :: u32
    by (induction ps arbitrary: x) (simp_all add: algebra_simps entry_of_def)
  then show ?thesis by (simp add: plain_size_def env_size_def algebra_simps)
qed

lemma apply_loop_ok:
  "unat t + 4 * (length ps + 1) \<le> unat s \<Longrightarrow> unat s + strings_size (map entry_of ps) < 4294967296 \<Longrightarrow>
    packed_at False (apply_loop m t s ps) t s (map entry_of ps) \<and> rd32 (apply_loop m t s ps) (t + 4 * word_of_nat (length ps)) = 0
    \<and> (\<forall>x. \<not> (unat t \<le> unat x \<and> unat x < unat t + 4 * (length ps + 1)) \<and> \<not> (unat s \<le> unat x \<and> unat x < unat s + strings_size (map entry_of ps))
        \<longrightarrow> apply_loop m t s ps x = m x)"
proof (induction ps arbitrary: m t s)
  case Nil
  then show ?case by (auto simp: rd32_wr32 region_nat intro!: wr32_out)
next
  case (Cons p ps)
  let ?e = "entry_of p" let ?n = "length ?e" let ?s' = "s + (word_of_nat ?n + 1)"
  have t4: "unat (t + 4) = unat t + 4" using Cons.prems by (subst unat_add_u32) simp_all
  have sn: "unat ?s' = unat s + Suc ?n" using Cons.prems by (intro next_string) simp
  let ?m1 = "wr32 m t s" let ?m2 = "store_bytes ?m1 s (?e @ [0])"
  have m2: "?m2 x = m x" if "\<not> (unat t \<le> unat x \<and> unat x < unat t + 4)" "\<not> (unat s \<le> unat x \<and> unat x < unat s + Suc ?n)" for x
  proof -
    have "x \<notin> region t 4" "x \<notin> region s (length (?e @ [0]))" using that Cons.prems by (simp_all add: region_nat)
    then have "?m2 x = ?m1 x" "?m1 x = m x" using Cons.prems by (auto intro: store_out wr32_out)
    then show ?thesis by simp
  qed
  let ?m = "apply_loop ?m2 (t + 4) ?s' ps"
  have eq: "apply_loop m t s (p # ps) = ?m" by (simp add: CopyEntry_eq)
  from Cons.IH [of "t + 4" ?s' ?m2] Cons.prems t4 sn have IH: "packed_at False ?m (t + 4) ?s' (map entry_of ps)"
      "rd32 ?m (t + 4 + 4 * word_of_nat (length ps)) = 0"
      "\<forall>x. \<not> (unat t + 4 \<le> unat x \<and> unat x < unat t + 4 + 4 * (length ps + 1)) \<and> \<not> (unat s + Suc ?n \<le> unat x \<and> unat x < unat s + Suc ?n + strings_size (map entry_of ps)) \<longrightarrow> ?m x = ?m2 x"
    by auto
  have "rd32 ?m t = rd32 ?m2 t" by (rule rd32_cong, rule IH(3) [rule_format]) (use Cons.prems in \<open>auto simp: region_nat\<close>)
  also have "\<dots> = rd32 ?m1 t"
    by (rule rd32_cong, rule store_out) (use Cons.prems in \<open>auto simp: region_nat\<close>)
  finally have ptr: "rd32 ?m t = s" by (simp add: rd32_wr32)
  have "bytes_at ?m s (Suc ?n) = bytes_at ?m2 s (Suc ?n)"
    by (rule bytes_at_cong, rule IH(3) [rule_format]) (use Cons.prems in \<open>auto simp: region_nat\<close>)
  also have "\<dots> = ?e @ [0]" using bytes_at_store [of "?e @ [0]" ?m1 s] Cons.prems by simp
  finally have "packed_at False ?m t s (map entry_of (p # ps))" using ptr IH(1) by simp
  moreover have "rd32 ?m (t + 4 * word_of_nat (length (p # ps))) = 0" using IH(2) by (simp add: algebra_simps)
  moreover have "?m x = m x" if "\<not> (unat t \<le> unat x \<and> unat x < unat t + 4 * (length (p # ps) + 1))"
      "\<not> (unat s \<le> unat x \<and> unat x < unat s + strings_size (map entry_of (p # ps)))" for x
  proof -
    have "?m x = ?m2 x" by (rule IH(3) [rule_format]) (use that in auto)
    also have "\<dots> = m x" by (rule m2) (use that in auto)
    finally show ?thesis .
  qed
  ultimately show ?case unfolding eq by blast
qed

lemma index_of_append: "c \<notin> set xs \<Longrightarrow> index_of c (xs @ c # ys) = Some (length xs)"
  by (induction xs) auto

lemma index_of_none: "index_of c xs = None \<longleftrightarrow> c \<notin> set xs"
  by (induction xs) auto

definition well_named :: "EnvpPair \<Rightarrow> bool" where
  "well_named p \<longleftrightarrow> ev_key p \<noteq> [] \<and> 0x3D \<notin> set (ev_key p) \<and> 0 \<notin> set (ev_key p) \<and> 0 \<notin> set (ev_val p)"

lemma UnpackEnvp_ok:
  "packed_at False m t s (map entry_of ps) \<Longrightarrow> rd32 m (t + 4 * word_of_nat (length ps)) = 0 \<Longrightarrow> \<forall>p \<in> set ps. well_named p \<Longrightarrow>
    0 < unat s \<Longrightarrow> unat s + strings_size (map entry_of ps) < 4294967296 \<Longrightarrow> length ps < fuel \<Longrightarrow>
    UnpackEnvp fuel m t vs = Inr (fold (\<lambda>p v. setVal v (ev_key p) (ev_val p)) ps vs)"
proof (induction ps arbitrary: t s vs fuel)
  case Nil
  then show ?case by (cases fuel) simp_all
next
  case (Cons p ps)
  let ?e = "entry_of p" let ?s' = "s + (word_of_nat (length ?e) + 1)"
  obtain k where k: "fuel = Suc k" "length ps < k" using Cons.prems(6) by (cases fuel) auto
  have w: "well_named p" using Cons.prems(3) by simp
  have ptr: "rd32 m t = s" "s \<noteq> 0" using Cons.prems(1,4) by auto
  have sn: "unat ?s' = unat s + Suc (length ?e)" using Cons.prems(5) by (intro next_string) simp
  have "cstr m s ?e" using Cons.prems(1) w by (intro cstr_region) (auto simp: entry_of_def well_named_def)
  then obtain str where str: "string_cstr m s = Some str" "chars str = ?e" using string_cstr_chars by blast
  have sep: "find_chr ?e 0x3D 0 = Inr (length (ev_key p))" using w by (simp add: find_chr_def entry_of_def index_of_append well_named_def)
  have len: "length (ev_key p) + length (ev_val p) + 1 < npos" using Cons.prems(4,5) by (simp add: entry_of_def npos_def)
  have sub: "sub_chars ?e 0 (length (ev_key p)) = Inr (ev_key p)" "sub_chars ?e (length (ev_key p) + 1) npos = Inr (ev_val p)"
    using len by (simp_all add: sub_chars_def entry_of_def)
  have "UnpackEnvp fuel m t vs = UnpackEnvp k m (t + 4) (setVal vs (ev_key p) (ev_val p))"
    using k ptr str sep sub w len by (simp add: well_named_def)
  also have "\<dots> = Inr (fold (\<lambda>p v. setVal v (ev_key p) (ev_val p)) ps (setVal vs (ev_key p) (ev_val p)))"
  proof (rule Cons.IH [where s = ?s'])
    show "rd32 m (t + 4 + 4 * word_of_nat (length ps)) = 0" using Cons.prems(2) by (simp add: algebra_simps)
  qed (use Cons.prems sn k in auto)
  finally show ?case by simp
qed

text \<open>The table that \<open>environ\<close> points to holds the environment: \<open>ApplyRelative\<close> writes the bytes that \<open>getPlainEnvp\<close> allocates and no others, and
  \<open>UnpackEnvp\<close> of the table, which \<open>execve\<close> calls, returns the variables in the same order. An entry that is not of the form \<open>KEY=VAL\<close> makes
  \<open>UnpackEnvp\<close> run forever.\<close>

theorem environ_round_trip:
  assumes "unat dst + env_size ps < 4294967296" "distinct (map ev_key ps)" "\<forall>p \<in> set ps. well_named p" "length ps < fuel"
  shows "UnpackEnvp fuel (ApplyRelative m dst ps) dst [] = Inr (map (\<lambda>p. new_pair (ev_key p) (ev_val p)) ps)
    \<and> (\<forall>x. x \<notin> region dst (unat (plain_size ps)) \<longrightarrow> ApplyRelative m dst ps x = m x)
    \<and> (cstr m' (rd32 m' a) cs \<and> rd32 m' a \<noteq> 0 \<and> (0x3D \<notin> set cs \<or> hd cs = 0x3D) \<longrightarrow> UnpackEnvp n m' a vs = Inl Out_of_fuel)"
proof (intro conjI impI)
  let ?s = "dst + 4 * (word_of_nat (length ps) + 1)"
  have N: "env_size ps = 4 * (length ps + 1) + strings_size (map entry_of ps)" by (simp add: env_size_def)
  have "4 * (word_of_nat (length ps) + 1) = (word_of_nat (4 * (length ps + 1)) :: u32)" by simp
  moreover have "unat (word_of_nat (4 * (length ps + 1)) :: u32) = 4 * (length ps + 1)" using assms(1) N by (intro unat_of_nat_u32) simp
  ultimately have "unat (4 * (word_of_nat (length ps) + 1) :: u32) = 4 * (length ps + 1)" by (simp only:)
  then have s: "unat ?s = unat dst + 4 * (length ps + 1)" using unat_add_u32 [of dst "4 * (word_of_nat (length ps) + 1)"] assms(1) N by linarith
  have p: "unat (plain_size ps) = env_size ps" using assms(1) by (simp add: plain_size_eq unat_of_nat_u32)
  note ok = apply_loop_ok [of dst ps ?s m, folded ApplyRelative_def]
  have "UnpackEnvp fuel (ApplyRelative m dst ps) dst [] = Inr (fold (\<lambda>p v. setVal v (ev_key p) (ev_val p)) ps [])"
    by (rule UnpackEnvp_ok [where s = ?s]) (use ok s assms N in auto)
  then show "UnpackEnvp fuel (ApplyRelative m dst ps) dst [] = Inr (map (\<lambda>p. new_pair (ev_key p) (ev_val p)) ps)"
    using setVal_fresh [OF assms(2), of "[]"] by (simp add: getVal_def)
  show "\<forall>x. x \<notin> region dst (unat (plain_size ps)) \<longrightarrow> ApplyRelative m dst ps x = m x"
  proof (intro allI impI)
    fix x assume "x \<notin> region dst (unat (plain_size ps))"
    then have "\<not> (unat dst \<le> unat x \<and> unat x < unat dst + env_size ps)" unfolding p using assms(1) by (simp add: region_nat)
    then show "ApplyRelative m dst ps x = m x" using ok s assms(1) N by auto
  qed
next
  assume a: "cstr m' (rd32 m' a) cs \<and> rd32 m' a \<noteq> 0 \<and> (0x3D \<notin> set cs \<or> hd cs = 0x3D)"
  then obtain str where str: "string_cstr m' (rd32 m' a) = Some str" "chars str = cs" using string_cstr_chars by blast
  have "find_chr cs 0x3D 0 = Inr npos \<or> find_chr cs 0x3D 0 = Inr 0"
    using a by (cases cs) (auto simp: find_chr_def index_of_none [THEN iffD2])
  with str a show "UnpackEnvp n m' a vs = Inl Out_of_fuel" by (induction n) auto
qed

theorem environ_round_trip_witness:
  "UnpackEnvp 3 (ApplyRelative (\<lambda>_. 0) 0x1000 example_envp) 0x1000 [] = Inr example_envp"
proof -
  have "env_size example_envp = 21" by (simp add: env_size_def example_envp_def entry_of_def new_pair_def)
  moreover have "distinct (map ev_key example_envp)" "\<forall>p \<in> set example_envp. well_named p" "length example_envp < 3"
    by (simp_all add: example_envp_def new_pair_def well_named_def)
  ultimately have "UnpackEnvp 3 (ApplyRelative (\<lambda>_. 0) 0x1000 example_envp) 0x1000 [] = Inr (map (\<lambda>p. new_pair (ev_key p) (ev_val p)) example_envp)"
    using environ_round_trip [of "0x1000" example_envp 3] by simp
  then show ?thesis by (simp add: example_envp_def new_pair_def)
qed


section \<open>Reading and setting variables\<close>

lemma getVal_assign:
  "getVal (assign_val ps key val) k = (if k = key then map_option (\<lambda>p. p\<lparr>ev_val := val, ev_term := False\<rparr>) (getVal ps key) else getVal ps k)"
  by (induction ps) (auto simp: getVal_def)

lemma getVal_append: "getVal (ps @ [q]) k = (case getVal ps k of None \<Rightarrow> if ev_key q = k then Some q else None | Some p \<Rightarrow> Some p)"
  by (induction ps) (auto simp: getVal_def split: option.splits)

lemma getVal_setVal:
  "getVal (setVal ps key val) k =
     (if k = key then Some (case getVal ps key of None \<Rightarrow> new_pair key val | Some p \<Rightarrow> p\<lparr>ev_val := val, ev_term := False\<rparr>) else getVal ps k)"
  by (auto simp: setVal_def getVal_assign getVal_append new_pair_def split: option.splits)

text \<open>\<open>setenv\<close> with \<open>overwrite\<close> sets the variable and no other, and \<open>getenv\<close> then points to the value; when the variable existed before, there is no
  zero byte behind the characters. Without \<open>overwrite\<close> an existing variable stays. \<open>getenv\<close> of a variable that was set to the empty string aborts, and
  names that are null, empty or contain \<open>=\<close> are refused.\<close>

theorem setenv_getenv:
  assumes "name \<noteq> []" "0x3D \<notin> set name" "val \<noteq> []" "setenv alloc (m, env, ps) (Some name) val True = (r, err, m', env', ps')"
  shows "r = 0 \<and> err = None \<and> env' = alloc (plain_size ps') \<and> m' = ApplyRelative m env' ps'
    \<and> getenv ps' name = Inr (Some (val, getVal ps name = None)) \<and> (\<forall>k. k \<noteq> name \<longrightarrow> getenv ps' k = getenv ps k)
    \<and> (getVal ps name \<noteq> None \<longrightarrow> setenv alloc (m, env, ps) (Some name) val False = (0, None, m, env, ps))
    \<and> getenv (setVal ps name []) name = Inl Abort_called
    \<and> (\<forall>n. n \<in> {None, Some []} \<or> 0x3D \<in> set (the n) \<and> n \<noteq> None \<longrightarrow> setenv alloc (m, env, ps) n val ow = (- 1, Some EINVAL, m, env, ps))"
proof -
  have e: "ps' = setVal ps name val" "env' = alloc (plain_size ps')" "m' = ApplyRelative m env' ps'" "r = 0" "err = None"
    using assms(1,2,4) by (auto simp: setenv_def getPlainEnvp_def Let_def)
  have "getenv ps' name = Inr (Some (val, getVal ps name = None))"
    using assms(3) unfolding e(1) by (auto simp: getenv_def getVal_setVal chr_at_def new_pair_def split: option.splits)
  moreover have "getenv ps' k = getenv ps k" if "k \<noteq> name" for k using that unfolding e(1) by (simp add: getenv_def getVal_setVal)
  moreover have "setenv alloc (m, env, ps) (Some name) val False = (0, None, m, env, ps)" if "getVal ps name \<noteq> None"
    using that assms(1,2) by (auto simp: setenv_def)
  moreover have "getenv (setVal ps name []) name = Inl Abort_called"
    by (auto simp: getenv_def getVal_setVal chr_at_def new_pair_def split: option.splits)
  ultimately show ?thesis using e(2-5) by (auto simp: setenv_def)
qed

theorem setenv_getenv_witness:
  "\<exists>m' env' ps'. setenv (\<lambda>_. 0x1000) (\<lambda>_. 0, 0, example_envp) (Some [0x50, 0x57, 0x44]) [0x2F, 0x62] True = (0, None, m', env', ps')
     \<and> getenv ps' [0x50, 0x57, 0x44] = Inr (Some ([0x2F, 0x62], False))"
proof -
  obtain r err m' env' ps' where s: "setenv (\<lambda>_. 0x1000) (\<lambda>_. 0, 0, example_envp) (Some [0x50, 0x57, 0x44]) [0x2F, 0x62] True = (r, err, m', env', ps')"
    using prod_cases5 by blast
  have "getVal example_envp [0x50, 0x57, 0x44] \<noteq> None" by (simp add: getVal_def example_envp_def new_pair_def)
  with setenv_getenv [OF _ _ _ s] s show ?thesis by simp
qed

end
