(* ===== verification/Ustar.thy ===== *)
theory Ustar
  imports CString
begin

text \<open>
  Tar archives, \<open>src/libc/ustar.cpp\<close> and \<open>libc/ustar.h\<close>: the walk along an archive in memory. The fields of the union \<open>TarBlock\<close>
  are their offsets. The callbacks are functions on a state; \<open>lit\<close> is where the compiler put the literal \<open>"ustar"\<close>. On memory
  without two zero blocks the walk need not end, so it has fuel: one step for each entry is enough.
\<close>

section \<open>The code\<close>

definition kTarBlockSize :: nat where "kTarBlockSize = 512"
definition kDirectory :: u8 where "kDirectory = 0x35"

record DirInfo =
  di_prefix :: u32
  di_name :: u32

record FileInfo =
  fi_prefix :: u32
  fi_name :: u32
  fi_size :: u32
  fi_data :: u32

fun zero_loop :: "bmem \<Rightarrow> u32 \<Rightarrow> nat \<Rightarrow> bool" where
  "zero_loop m p 0 \<longleftrightarrow> True"
| "zero_loop m p (Suc n) \<longleftrightarrow> (if m p \<noteq> 0 then False else zero_loop m (p + 1) n)"

definition IsZeroPage :: "bmem \<Rightarrow> u32 \<Rightarrow> bool" where
  "IsZeroPage m tar_page = zero_loop m tar_page kTarBlockSize"

fun oct_loop :: "bmem \<Rightarrow> u32 \<Rightarrow> nat \<Rightarrow> u32 \<Rightarrow> u32 result" where
  "oct_loop m c 0 n = Inr n"
| "oct_loop m c (Suc k) n = check (48 \<le> sint (m c)) (oct_loop m (c + 1) k (n * 8 + word_of_int (sint (m c) - 48)))"

definition oct2bin :: "bmem \<Rightarrow> u32 \<Rightarrow> nat \<Rightarrow> u32 result" where
  "oct2bin m str k = oct_loop m str k 0"

definition off_name :: u32 where "off_name = 0"
definition off_size :: u32 where "off_size = 124"
definition off_type :: u32 where "off_type = 156"
definition off_ustar :: u32 where "off_ustar = 257"
definition off_prefix :: u32 where "off_prefix = 345"

fun ustar_loop :: "nat \<Rightarrow> bmem \<Rightarrow> u32 \<Rightarrow> (DirInfo \<Rightarrow> 'a \<Rightarrow> 'a) option \<Rightarrow> (FileInfo \<Rightarrow> 'a \<Rightarrow> 'a) option \<Rightarrow> u32 \<Rightarrow> 'a \<Rightarrow> (u32 \<times> 'a) result" where
  "ustar_loop 0 m lit dircallback filecallback tar x = Inl Out_of_fuel"
| "ustar_loop (Suc fuel) m lit dircallback filecallback tar x =
     (if IsZeroPage m tar \<and> IsZeroPage m (tar + 512) then Inr (tar, x)
      else check (memcmp m (tar + off_ustar) lit 5 = 0)
       (let pfx = tar + off_prefix; name = tar + off_name in
        bindr (oct2bin m (tar + off_size) 11) (\<lambda>filesize.
        if m (tar + off_type) = kDirectory
        then check (filesize = 0)
          (ustar_loop fuel m lit dircallback filecallback (tar + 512)
            (case dircallback of Some f \<Rightarrow> f \<lparr>di_prefix = pfx, di_name = name\<rparr> x | None \<Rightarrow> x))
        else check (filesize \<noteq> 0)
          (let tar' = tar + 512;
               num_chunks = (if filesize mod 512 \<noteq> 0 then filesize div 512 + 1 else filesize div 512) in
           ustar_loop fuel m lit dircallback filecallback (tar' + 512 * num_chunks)
            (case filecallback of Some f \<Rightarrow> f \<lparr>fi_prefix = pfx, fi_name = name, fi_size = filesize, fi_data = tar'\<rparr> x | None \<Rightarrow> x)))))"

definition IterateUSTAR :: "nat \<Rightarrow> bmem \<Rightarrow> u32 \<Rightarrow> u32 \<Rightarrow> (DirInfo \<Rightarrow> 'a \<Rightarrow> 'a) option \<Rightarrow> (FileInfo \<Rightarrow> 'a \<Rightarrow> 'a) option \<Rightarrow> 'a \<Rightarrow> (u32 \<times> 'a) result" where
  "IterateUSTAR fuel m lit archive dircallback filecallback x =
     bindr (ustar_loop fuel m lit dircallback filecallback archive x) (\<lambda>(tar, x'). Inr (tar - archive + word_of_nat (kTarBlockSize * 2), x'))"

definition GetTarsize :: "nat \<Rightarrow> bmem \<Rightarrow> u32 \<Rightarrow> u32 \<Rightarrow> u32 result" where
  "GetTarsize fuel m lit archive = bindr (IterateUSTAR fuel m lit archive None None ()) (\<lambda>(sz, _). Inr sz)"

section \<open>Archives\<close>

text \<open>
  What an archive in the ustar format of POSIX holds, and which bytes are such an archive. Of a header the reader looks at the name, the size in octal digits, the type, the magic and the
  prefix; the other fields (mode, owner, times, checksum, link name, device numbers) and the bytes behind the content of a file may be anything, so the output of \<open>tar --format=ustar\<close>, which the build makes,
  is an archive as long as it holds nothing but files and directories and no name or prefix fills its field. An archive ends with two zero blocks; \<open>tar\<close> may add more of them, which the reader does not see.
\<close>

datatype tar_entry = TDir "u8 list" "u8 list" | TFile "u8 list" "u8 list" "u8 list"

definition pad :: "nat \<Rightarrow> u8 list \<Rightarrow> u8 list" where
  "pad n bs = bs @ replicate (n - length bs) 0"

fun oct_digits :: "nat \<Rightarrow> nat \<Rightarrow> u8 list" where
  "oct_digits 0 v = []"
| "oct_digits (Suc k) v = oct_digits k (v div 8) @ [word_of_nat (48 + v mod 8)]"

definition ustar_magic :: "u8 list" where
  "ustar_magic = [0x75, 0x73, 0x74, 0x61, 0x72]"

definition field :: "nat \<Rightarrow> nat \<Rightarrow> 'a list \<Rightarrow> 'a list" where
  "field i n bs = take n (drop i bs)"

definition is_header :: "u8 list \<Rightarrow> u8 list \<Rightarrow> nat \<Rightarrow> u8 set \<Rightarrow> u8 list \<Rightarrow> bool" where
  "is_header name pfx sz types bs \<longleftrightarrow> length bs = 512 \<and> length name < 100 \<and> length pfx < 155 \<and> 0 \<notin> set name \<and> 0 \<notin> set pfx
     \<and> field 0 100 bs = pad 100 name \<and> field 124 11 bs = oct_digits 11 sz \<and> bs ! 156 \<in> types \<and> field 257 6 bs = ustar_magic @ [0] \<and> field 345 155 bs = pad 155 pfx"

fun entry_len :: "tar_entry \<Rightarrow> nat" where
  "entry_len (TDir name pfx) = 512"
| "entry_len (TFile name pfx content) = 512 + 512 * ((length content + 511) div 512)"

fun is_entry :: "tar_entry \<Rightarrow> u8 list \<Rightarrow> bool" where
  "is_entry (TDir name pfx) bs \<longleftrightarrow> is_header name pfx 0 {0x35} bs"
| "is_entry (TFile name pfx content) bs \<longleftrightarrow> length bs = entry_len (TFile name pfx content) \<and> length content < 0xFFFFFE00
     \<and> is_header name pfx (length content) {0x30, 0} (take 512 bs) \<and> field 512 (length content) bs = content"

fun is_archive :: "tar_entry list \<Rightarrow> u8 list \<Rightarrow> bool" where
  "is_archive [] bs \<longleftrightarrow> bs = replicate 1024 0"
| "is_archive (e # es) bs \<longleftrightarrow> is_entry e (take (entry_len e) bs) \<and> is_archive es (drop (entry_len e) bs)"

text \<open>A file without content, which the reader does not accept.\<close>

fun empty_file :: "tar_entry \<Rightarrow> bool" where
  "empty_file (TDir name pfx) \<longleftrightarrow> False"
| "empty_file (TFile name pfx content) \<longleftrightarrow> content = []"

definition no_empty_file :: "tar_entry list \<Rightarrow> bool" where
  "no_empty_file es \<longleftrightarrow> (\<forall>e \<in> set es. \<not> empty_file e)"

text \<open>A writer: the fields of a header in their order, with everything that \<open>tar\<close> fills in besides.\<close>

record tar_meta =
  tm_ids :: "u8 list"
  tm_end :: u8
  tm_times :: "u8 list"
  tm_link :: "u8 list"
  tm_version :: "u8 list"
  tm_owner :: "u8 list"
  tm_tail :: "u8 list"

definition meta_ok :: "tar_meta \<Rightarrow> bool" where
  "meta_ok t \<longleftrightarrow> length (tm_ids t) = 24 \<and> length (tm_times t) = 20 \<and> length (tm_link t) = 100 \<and> length (tm_version t) = 2 \<and> length (tm_owner t) = 80 \<and> length (tm_tail t) = 12"

definition header_bytes :: "tar_meta \<Rightarrow> u8 list \<Rightarrow> u8 list \<Rightarrow> nat \<Rightarrow> u8 \<Rightarrow> u8 list" where
  "header_bytes t name pfx sz type =
     pad 100 name @ tm_ids t @ oct_digits 11 sz @ [tm_end t] @ tm_times t @ [type] @ tm_link t @ (ustar_magic @ [0]) @ tm_version t @ tm_owner t @ pad 155 pfx @ tm_tail t"

fun entry_bytes :: "tar_meta \<times> tar_entry \<Rightarrow> u8 list" where
  "entry_bytes (t, TDir name pfx) = header_bytes t name pfx 0 0x35"
| "entry_bytes (t, TFile name pfx content) = header_bytes t name pfx (length content) 0x30 @ pad (512 * ((length content + 511) div 512)) content"

definition archive_bytes :: "(tar_meta \<times> tar_entry) list \<Rightarrow> u8 list" where
  "archive_bytes es = concat (map entry_bytes es) @ replicate 1024 0"

text \<open>Names that fit their fields with a terminator.\<close>

fun entry_fits :: "tar_entry \<Rightarrow> bool" where
  "entry_fits (TDir name pfx) \<longleftrightarrow> length name < 100 \<and> length pfx < 155 \<and> 0 \<notin> set name \<and> 0 \<notin> set pfx"
| "entry_fits (TFile name pfx content) \<longleftrightarrow> length name < 100 \<and> length pfx < 155 \<and> 0 \<notin> set name \<and> 0 \<notin> set pfx \<and> length content < 0xFFFFFE00"

text \<open>The entry that a callback is told about: the strings and bytes at the addresses it gets.\<close>

definition dir_seen :: "bmem \<Rightarrow> DirInfo \<Rightarrow> tar_entry \<Rightarrow> bool" where
  "dir_seen m d e \<longleftrightarrow> (\<exists>name pfx. e = TDir name pfx \<and> cstr m (di_name d) name \<and> cstr m (di_prefix d) pfx)"

definition file_seen :: "bmem \<Rightarrow> FileInfo \<Rightarrow> tar_entry \<Rightarrow> bool" where
  "file_seen m f e \<longleftrightarrow> (\<exists>name pfx content. e = TFile name pfx content \<and> cstr m (fi_name f) name \<and> cstr m (fi_prefix f) pfx
     \<and> unat (fi_size f) = length content \<and> bytes_at m (fi_data f) (length content) = content)"

fun seen :: "bmem \<Rightarrow> DirInfo + FileInfo \<Rightarrow> tar_entry \<Rightarrow> bool" where
  "seen m (Inl d) e = dir_seen m d e"
| "seen m (Inr f) e = file_seen m f e"

section \<open>Bytes at an address\<close>

lemma bytes_at_append: "bytes_at m a (n + k) = bytes_at m a n @ bytes_at m (a + word_of_nat n) k"
proof (induction n arbitrary: a)
  case (Suc n)
  then show ?case by (simp add: bytes_at_Suc add.assoc)
qed simp

lemma bytes_at_split:
  assumes "bytes_at m a (length (xs @ ys)) = xs @ ys"
  shows "bytes_at m a (length xs) = xs" "bytes_at m (a + word_of_nat (length xs)) (length ys) = ys"
  using assms unfolding length_append bytes_at_append by simp_all

lemma zero_loop_bytes: "zero_loop m a n \<longleftrightarrow> bytes_at m a n = replicate n 0"
  by (induction n arbitrary: a) (auto simp: bytes_at_Suc)

lemma cstr_padded:
  assumes "bytes_at m a n = pad n s" "length s < n" "0 \<notin> set s"
  shows "cstr m a s"
  using assms
proof (induction s arbitrary: a n)
  case Nil
  then obtain k where "n = Suc k" by (cases n) auto
  with Nil show ?case by (simp add: bytes_at_Suc pad_def)
next
  case (Cons c s)
  then obtain k where k: "n = Suc k" by (cases n) auto
  with Cons show ?case by (auto simp: bytes_at_Suc pad_def)
qed


section \<open>Reading a header\<close>

lemma oct_digits_length [simp]: "length (oct_digits k v) = k"
  by (induction k arbitrary: v) auto

lemma oct_loop_snoc:
  "oct_loop m a (Suc k) n = bindr (oct_loop m a k n) (\<lambda>x. check (48 \<le> sint (m (a + word_of_nat k))) (Inr (x * 8 + word_of_int (sint (m (a + word_of_nat k)) - 48))))"
proof (induction k arbitrary: a n)
  case (Suc k)
  have e: "a + 1 + word_of_nat k = a + word_of_nat (Suc k)" by (simp add: add.assoc)
  have "oct_loop m a (Suc (Suc k)) n = check (48 \<le> sint (m a)) (oct_loop m (a + 1) (Suc k) (n * 8 + word_of_int (sint (m a) - 48)))" by (rule oct_loop.simps(2))
  also have "\<dots> = check (48 \<le> sint (m a)) (bindr (oct_loop m (a + 1) k (n * 8 + word_of_int (sint (m a) - 48)))
      (\<lambda>x. check (48 \<le> sint (m (a + word_of_nat (Suc k)))) (Inr (x * 8 + word_of_int (sint (m (a + word_of_nat (Suc k))) - 48)))))"
    by (simp only: Suc.IH e)
  also have "\<dots> = bindr (oct_loop m a (Suc k) n) (\<lambda>x. check (48 \<le> sint (m (a + word_of_nat (Suc k)))) (Inr (x * 8 + word_of_int (sint (m (a + word_of_nat (Suc k))) - 48))))"
    by (simp only: bindr_check [symmetric] oct_loop.simps(2))
  finally show ?case .
qed simp

lemma digit_sint: "sint (word_of_nat (48 + v mod 8) :: u8) = 48 + int (v mod 8)"
proof -
  have "v mod 8 < 8" by simp
  then have "v mod 8 \<in> {0, 1, 2, 3, 4, 5, 6, 7}" by auto
  then show ?thesis by (elim insertE emptyE) simp_all
qed

lemma oct_loop_digits: "bytes_at m a k = oct_digits k v \<Longrightarrow> oct_loop m a k 0 = Inr (word_of_nat (v mod 8 ^ k))"
proof (induction k arbitrary: v)
  case (Suc k)
  have "bytes_at m a k @ [m (a + word_of_nat k)] = oct_digits k (v div 8) @ [word_of_nat (48 + v mod 8)]"
    using Suc.prems bytes_at_append [of m a k 1] by (simp add: bytes_at_Suc)
  then have b: "bytes_at m a k = oct_digits k (v div 8)" "m (a + word_of_nat k) = word_of_nat (48 + v mod 8)" by simp_all
  have "word_of_nat (v div 8 mod 8 ^ k) * 8 + word_of_int (int (v mod 8)) = (word_of_nat (v mod 8 ^ Suc k) :: u32)"
    by (simp add: mod_mult2_eq mult.commute)
  then show ?case unfolding oct_loop_snoc Suc.IH [OF b(1)] bindr.simps b(2) digit_sint by simp
qed simp

lemma memcmp_eq: "(\<forall>j \<le> n. m (a + word_of_nat j) = m (b + word_of_nat j)) \<Longrightarrow> memcmp m a b n = 0"
proof (induction n arbitrary: a b)
  case (Suc n)
  have "m a = m b" using Suc.prems [rule_format, of 0] by simp
  moreover have "m (a + 1 + word_of_nat j) = m (b + 1 + word_of_nat j)" if "j \<le> n" for j
    using Suc.prems [rule_format, of "Suc j"] that by (simp add: add.assoc)
  ultimately show ?case using Suc.IH by simp
qed simp

lemma field_length: "i + n \<le> length bs \<Longrightarrow> length (field i n bs) = n"
  by (simp add: field_def)

lemma field_at:
  assumes "bytes_at m a (length bs) = bs" "i + n \<le> length bs"
  shows "bytes_at m (a + word_of_nat i) n = field i n bs"
proof (rule nth_equalityI)
  fix k assume "k < length (bytes_at m (a + word_of_nat i) n)"
  then have "k < n" by simp
  moreover have "m (a + word_of_nat (i + k)) = bs ! (i + k)" using bytes_at_nth [of "i + k" "length bs" m a] assms \<open>k < n\<close> by simp
  ultimately show "bytes_at m (a + word_of_nat i) n ! k = field i n bs ! k" using assms(2) by (simp add: bytes_at_nth field_def add.assoc)
qed (use assms(2) in \<open>simp add: field_def\<close>)

lemma header_fields:
  assumes h: "bytes_at m a 512 = bs" "is_header name pfx sz types bs" and lit: "cstr m lit ustar_magic"
  shows "cstr m (a + off_name) name" "cstr m (a + off_prefix) pfx" "oct2bin m (a + off_size) 11 = Inr (word_of_nat (sz mod 8 ^ 11))" "m (a + off_type) \<in> types"
    "memcmp m (a + off_ustar) lit 5 = 0" "\<not> IsZeroPage m a"
proof -
  have l: "length bs = 512" using h(2) by (simp add: is_header_def)
  have f: "i + n \<le> 512 \<Longrightarrow> bytes_at m (a + word_of_nat i) n = field i n bs" for i n using field_at [of m a bs i n] h(1) l by simp
  show "cstr m (a + off_name) name"
    using cstr_padded [of m a 100 name] f [of 0 100] h(2) by (simp add: off_name_def is_header_def)
  show "cstr m (a + off_prefix) pfx"
    using cstr_padded [of m "a + 345" 155 pfx] f [of 345 155] h(2) by (simp add: off_prefix_def is_header_def)
  have "bytes_at m (a + 124) 11 = oct_digits 11 sz" using f [of 124 11] h(2) by (simp add: is_header_def)
  then show "oct2bin m (a + off_size) 11 = Inr (word_of_nat (sz mod 8 ^ 11))" unfolding oct2bin_def off_size_def by (rule oct_loop_digits)
  have "m (a + 156) = bs ! 156" using bytes_at_nth [of 156 512 m a] h(1) by simp
  then show "m (a + off_type) \<in> types" using h(2) by (simp add: off_type_def is_header_def)
  have u: "bytes_at m (a + 257) 6 = ustar_magic @ [0]" using f [of 257 6] h(2) by (simp add: is_header_def)
  have mg: "length ustar_magic = 5" by (simp add: ustar_magic_def)
  have "bytes_at m lit 6 = ustar_magic @ [0]" using cstr_bytes [OF lit] bytes_at_append [of m lit 5 1] unfolding mg by (simp add: bytes_at_Suc)
  then have "m (a + 257 + word_of_nat j) = m (lit + word_of_nat j)" if "j \<le> 5" for j
    using that u bytes_at_nth [of j 6 m "a + 257"] bytes_at_nth [of j 6 m lit] by simp
  then show "memcmp m (a + off_ustar) lit 5 = 0" unfolding off_ustar_def by (intro memcmp_eq) blast
  show "\<not> IsZeroPage m a"
  proof
    assume "IsZeroPage m a"
    then have "bytes_at m a 512 ! 257 = 0" by (simp add: IsZeroPage_def zero_loop_bytes kTarBlockSize_def)
    moreover have "bytes_at m (a + 257) 6 ! 0 = 0x75" using u by (simp add: ustar_magic_def)
    ultimately show False by (simp add: bytes_at_nth)
  qed
qed

lemma header_bytes_ok:
  assumes "meta_ok t" "length name < 100" "length pfx < 155" "0 \<notin> set name" "0 \<notin> set pfx" "type \<in> types"
  shows "is_header name pfx sz types (header_bytes t name pfx sz type)" "length (header_bytes t name pfx sz type) = 512"
proof -
  have p: "length (pad 100 name) = 100" "length (pad 155 pfx) = 155" "length ustar_magic = 5" using assms by (simp_all add: pad_def ustar_magic_def)
  have t: "length (tm_ids t) = 24" "length (tm_times t) = 20" "length (tm_link t) = 100" "length (tm_version t) = 2" "length (tm_owner t) = 80" "length (tm_tail t) = 12"
    using assms(1) by (simp_all add: meta_ok_def)
  show "length (header_bytes t name pfx sz type) = 512" using p t by (simp add: header_bytes_def)
  show "is_header name pfx sz types (header_bytes t name pfx sz type)"
    using p t assms by (simp add: is_header_def header_bytes_def field_def nth_append)
qed


section \<open>Walking an archive\<close>

lemma whole_blocks: "(n :: nat) \<le> 512 * ((n + 511) div 512)"
proof -
  have "n + 511 = 512 * ((n + 511) div 512) + (n + 511) mod 512" "(n + 511) mod 512 < 512" by simp_all
  then show ?thesis by linarith
qed

lemma chunks:
  assumes "L < 0xFFFFFE00"
  shows "512 * (if (word_of_nat L :: u32) mod 512 \<noteq> 0 then word_of_nat L div 512 + 1 else word_of_nat L div 512) = (word_of_nat (512 * ((L + 511) div 512)) :: u32)"
proof -
  let ?w = "word_of_nat L :: u32"
  have u: "unat ?w = L" using assms by (simp add: unat_of_nat_u32)
  have "unat (?w mod 512) = L mod 512" using u by (simp add: unat_mod)
  then have m: "?w mod 512 \<noteq> 0 \<longleftrightarrow> L mod 512 \<noteq> 0" by (metis unat_eq_zero)
  have d: "?w div 512 = word_of_nat (L div 512)" 
  proof -
    have "L div 512 < 4294967296" using assms by (simp add: div_le_dividend le_less_trans)
    then have "unat (?w div 512) = unat (word_of_nat (L div 512) :: u32)" using u by (simp add: unat_div unat_of_nat_u32)
    then show ?thesis unfolding word_unat_eq_iff .
  qed
  have "(L + 511) div 512 = (if L mod 512 \<noteq> 0 then L div 512 + 1 else L div 512)"
  proof -
    define q r where "q = L div 512" and "r = L mod 512"
    have L: "L = 512 * q + r" "r < 512" by (simp_all add: q_def r_def)
    have "(512 * q + r + 511) div 512 = q + (r + 511) div 512" by (simp add: add.assoc)
    moreover have "(r + 511) div 512 = (if r = 0 then 0 else 1)" using L(2) by (auto intro: div_nat_eqI)
    ultimately show ?thesis unfolding q_def [symmetric] r_def [symmetric] using L(1) by simp
  qed
  then show ?thesis unfolding m d by simp
qed

definition callback_step :: "(DirInfo \<Rightarrow> 'a \<Rightarrow> 'a) option \<Rightarrow> (FileInfo \<Rightarrow> 'a \<Rightarrow> 'a) option \<Rightarrow> DirInfo + FileInfo \<Rightarrow> 'a \<Rightarrow> 'a" where
  "callback_step dircb filecb v x =
     (case v of Inl d \<Rightarrow> (case dircb of Some f \<Rightarrow> f d x | None \<Rightarrow> x) | Inr i \<Rightarrow> (case filecb of Some f \<Rightarrow> f i x | None \<Rightarrow> x))"

lemma entry_split:
  assumes "bytes_at m a (length bs) = bs" "is_archive (e # es) bs"
  shows "bytes_at m a (entry_len e) = take (entry_len e) bs" "bytes_at m (a + word_of_nat (entry_len e)) (length (drop (entry_len e) bs)) = drop (entry_len e) bs"
    "entry_len e \<le> length bs"
proof -
  have "length (take (entry_len e) bs) = entry_len e" using assms(2) by (cases e) (auto simp: is_header_def)
  then show le: "entry_len e \<le> length bs" by simp
  then show "bytes_at m a (entry_len e) = take (entry_len e) bs" using field_at [OF assms(1), of 0 "entry_len e"] by (simp add: field_def)
  show "bytes_at m (a + word_of_nat (entry_len e)) (length (drop (entry_len e) bs)) = drop (entry_len e) bs"
    using field_at [OF assms(1), of "entry_len e" "length bs - entry_len e"] le by (simp add: field_def)
qed

lemma file_entry:
  assumes "bytes_at m a (entry_len e) = bs" "is_entry e bs" "e = TFile name pfx content"
  shows "bytes_at m a 512 = take 512 bs" "is_header name pfx (length content) {0x30, 0} (take 512 bs)" "bytes_at m (a + 512) (length content) = content"
    "oct2bin m (a + off_size) 11 = Inr (word_of_nat (length content))" "length content < 0xFFFFFE00"
proof -
  have b: "bytes_at m a (length bs) = bs" "length bs = entry_len e" using assms by simp_all
  show s: "bytes_at m a 512 = take 512 bs" using field_at [OF b(1), of 0 512] b(2) assms(3) by (simp add: field_def)
  show h: "is_header name pfx (length content) {0x30, 0} (take 512 bs)" using assms(2,3) by simp
  have "512 + length content \<le> length bs" using b(2) assms(3) whole_blocks [of "length content"] by simp
  then show "bytes_at m (a + 512) (length content) = content" using field_at [OF b(1), of 512 "length content"] assms(2,3) by simp
  show lt: "length content < 0xFFFFFE00" using assms(2,3) by simp
  then have m: "length content mod 8 ^ 11 = length content" by (intro mod_less) simp
  have "bytes_at m (a + 124) 11 = oct_digits 11 (length content)"
    using field_at [of m a "take 512 bs" 124 11] s h b(2) assms(3) by (simp add: is_header_def)
  then show "oct2bin m (a + off_size) 11 = Inr (word_of_nat (length content))" unfolding oct2bin_def off_size_def using oct_loop_digits [of m "a + 124" 11 "length content"] m by simp
qed

lemma ustar_entry:
  assumes "bytes_at m a (entry_len e) = bs" "is_entry e bs" "\<not> empty_file e" "cstr m lit ustar_magic"
  shows "\<exists>v. seen m v e \<and> (\<forall>f. v = Inr f \<longrightarrow> fi_data f = a + 512) \<and> (\<forall>fuel dircb filecb x. ustar_loop (Suc fuel) m lit dircb filecb a (x :: 'a) =
    ustar_loop fuel m lit dircb filecb (a + word_of_nat (entry_len e)) (callback_step dircb filecb v x))"
proof (cases e)
  case (TDir name pfx)
  note h = header_fields [OF _ _ assms(4), of a bs name pfx 0 "{0x35}"]
  have b: "bytes_at m a 512 = bs" "is_header name pfx 0 {0x35} bs" using assms(1,2) TDir by simp_all
  let ?v = "Inl \<lparr>di_prefix = a + off_prefix, di_name = a + off_name\<rparr>"
  have "seen m ?v e" using TDir h(1,2) [OF b] by (simp add: dir_seen_def)
  moreover have "ustar_loop (Suc fuel) m lit dircb filecb a x =
      ustar_loop fuel m lit dircb filecb (a + word_of_nat (entry_len e)) (callback_step dircb filecb ?v x)" for fuel dircb filecb and x :: 'a
    using h(3-6) [OF b] TDir by (simp add: callback_step_def kDirectory_def Let_def)
  ultimately show ?thesis by blast
next
  case (TFile name pfx content)
  note F = file_entry [OF assms(1,2) TFile]
  note h = header_fields [OF F(1,2) assms(4)]
  have u: "unat (word_of_nat (length content) :: u32) = length content" using F(5) by (simp add: unat_of_nat_u32)
  have nz: "(word_of_nat (length content) :: u32) \<noteq> 0" using u assms(3) TFile by (metis empty_file.simps(2) length_0_conv unat_0)
  let ?v = "Inr \<lparr>fi_prefix = a + off_prefix, fi_name = a + off_name, fi_size = word_of_nat (length content), fi_data = a + 512\<rparr>"
  have "seen m ?v e" using TFile h(1,2) u F(3) by (simp add: file_seen_def)
  moreover have "ustar_loop (Suc fuel) m lit dircb filecb a x =
      ustar_loop fuel m lit dircb filecb (a + word_of_nat (entry_len e)) (callback_step dircb filecb ?v x)" for fuel dircb filecb and x :: 'a
  proof -
    have t: "a + 512 + 512 * (if (word_of_nat (length content) :: u32) mod 512 \<noteq> 0 then word_of_nat (length content) div 512 + 1 else word_of_nat (length content) div 512)
        = a + word_of_nat (entry_len e)"
      unfolding chunks [OF F(5)] using TFile by simp
    show ?thesis unfolding ustar_loop.simps F(4) bindr.simps Let_def t using h(4-6) nz by (auto simp: callback_step_def kDirectory_def)
  qed
  moreover have "\<forall>f. ?v = Inr f \<longrightarrow> fi_data f = a + 512" by simp
  ultimately show ?thesis by blast
qed

lemma ustar_empty:
  assumes "bytes_at m a (entry_len e) = bs" "is_entry e bs" "empty_file e" "cstr m lit ustar_magic"
  shows "ustar_loop (Suc fuel) m lit dircb filecb a x = Inl Assert_failed"
proof -
  obtain name pfx where e: "e = TFile name pfx []" using assms(3) by (cases e) auto
  note F = file_entry [OF assms(1,2) e]
  note h = header_fields [OF F(1,2) assms(4)]
  show ?thesis unfolding ustar_loop.simps F(4) bindr.simps Let_def using h(4-6) by (auto simp: kDirectory_def)
qed

lemma archive_size: "is_archive es bs \<Longrightarrow> length bs = sum_list (map entry_len es) + 1024"
proof (induction es arbitrary: bs)
  case (Cons e es)
  then have "length (take (entry_len e) bs) = entry_len e" by (cases e) (auto simp: is_header_def)
  then show ?case using Cons by fastforce
qed simp

lemma archive_end: "is_archive es bs \<Longrightarrow> (a :: u32) + word_of_nat (length bs - 1024) - a + word_of_nat (kTarBlockSize * 2) = word_of_nat (length bs)"
  using archive_size [of es bs] by (simp add: kTarBlockSize_def of_nat_diff)

text \<open>Where the content of a file lies: in the archive, which starts at \<open>a\<close> and has \<open>n\<close> bytes, at a multiple of the block size.\<close>

definition placed :: "u32 \<Rightarrow> nat \<Rightarrow> FileInfo \<Rightarrow> bool" where
  "placed a n f \<longleftrightarrow> unat a < unat (fi_data f) \<and> unat (fi_data f) + unat (fi_size f) \<le> unat a + n \<and> unat (fi_data f) mod 512 = unat a mod 512"

lemma placed_first:
  assumes "seen m (Inr f) e" "fi_data f = a + 512" "unat a + entry_len e + n \<le> 4294967296" "0 < n"
  shows "placed a (entry_len e + n) f"
proof -
  obtain name pfx content where e: "e = TFile name pfx content" "unat (fi_size f) = length content" using assms(1) by (auto simp: file_seen_def)
  have l: "512 + length content \<le> entry_len e" using e(1) whole_blocks [of "length content"] by simp
  have b: "unat a + unat (512 :: u32) < 4294967296" using assms(3,4) l by simp
  have u: "unat (fi_data f) = unat a + 512" unfolding assms(2) unat_add_u32 [OF b] by simp
  show ?thesis unfolding placed_def u e(2) using l by simp
qed

lemma placed_later:
  assumes "placed (a + word_of_nat k) n f" "unat a + k < 4294967296" "k mod 512 = 0"
  shows "placed a (k + n) f"
proof -
  have b: "unat (word_of_nat k :: u32) = k" using assms(2) by (intro unat_of_nat_u32) simp
  have u: "unat (a + word_of_nat k) = unat a + k" using unat_add_u32 [of a "word_of_nat k"] assms(2) unfolding b by blast
  have "(unat a + k) mod 512 = unat a mod 512" using assms(3) mod_add_eq [of "unat a" 512 k] by simp
  then show ?thesis using assms(1) unfolding placed_def u by simp
qed

lemma entry_len_blocks: "entry_len e mod 512 = 0"
  by (cases e) simp_all

lemma ustar_walk_placed:
  assumes "bytes_at m a (length bs) = bs" "is_archive es bs \<and> no_empty_file es" "cstr m lit ustar_magic"
  shows "\<exists>vs. (list_all2 (seen m) vs es \<and> (unat a + length bs \<le> 4294967296 \<longrightarrow> (\<forall>f. Inr f \<in> set vs \<longrightarrow> placed a (length bs) f))) \<and> (\<forall>fuel dircb filecb x. length es < fuel \<longrightarrow> ustar_loop fuel m lit dircb filecb a (x :: 'a) =
    Inr (a + word_of_nat (length bs - 1024), fold (callback_step dircb filecb) vs x))"
  using assms
proof (induction es arbitrary: a bs)
  case Nil
  have "bytes_at m a (length (replicate 512 (0::u8) @ replicate 512 0)) = replicate 512 0 @ replicate 512 0"
    using Nil.prems(1,2) by (simp add: replicate_add [symmetric])
  from bytes_at_split [OF this] have "IsZeroPage m a" "IsZeroPage m (a + 512)" by (simp_all add: IsZeroPage_def zero_loop_bytes kTarBlockSize_def)
  then have "ustar_loop fuel m lit dircb filecb a x = Inr (a, x)" if "0 < fuel" for fuel dircb filecb and x :: 'a
    using that by (cases fuel) simp_all
  then show ?case using Nil.prems(2) by simp
next
  case (Cons e es)
  have ar: "is_archive (e # es) bs" using Cons.prems(2) by blast
  note sp = entry_split [OF Cons.prems(1) ar]
  let ?a = "a + word_of_nat (entry_len e)" and ?bs = "drop (entry_len e) bs"
  have en: "is_entry e (take (entry_len e) bs)" "\<not> empty_file e" and rest: "is_archive es ?bs \<and> no_empty_file es" using Cons.prems(2) by (auto simp: no_empty_file_def)
  obtain v where v: "seen m v e" "\<forall>f. v = Inr f \<longrightarrow> fi_data f = a + 512" "\<And>fuel dircb filecb (x :: 'a). ustar_loop (Suc fuel) m lit dircb filecb a x =
      ustar_loop fuel m lit dircb filecb ?a (callback_step dircb filecb v x)"
    using ustar_entry [OF sp(1) en Cons.prems(3)] by blast
  obtain vs where vs: "list_all2 (seen m) vs es" "unat ?a + length ?bs \<le> 4294967296 \<longrightarrow> (\<forall>f. Inr f \<in> set vs \<longrightarrow> placed ?a (length ?bs) f)" "\<And>fuel dircb filecb (x :: 'a). length es < fuel \<Longrightarrow> ustar_loop fuel m lit dircb filecb ?a x =
      Inr (?a + word_of_nat (length ?bs - 1024), fold (callback_step dircb filecb) vs x)"
    using Cons.IH [OF sp(2) rest Cons.prems(3)] by blast
  have "entry_len e + (length ?bs - 1024) = length bs - 1024" using archive_size [OF ar] archive_size [of es ?bs] rest sp(3) by simp
  then have l: "?a + word_of_nat (length ?bs - 1024) = a + word_of_nat (length bs - 1024)" by (simp add: add.assoc flip: of_nat_add)
  have "ustar_loop fuel m lit dircb filecb a x = Inr (a + word_of_nat (length bs - 1024), fold (callback_step dircb filecb) (v # vs) x)"
    if lf: "length (e # es) < fuel" for fuel dircb filecb and x :: 'a
  proof -
    obtain f where f: "fuel = Suc f" "length es < f" using lf by (cases fuel) auto
    show ?thesis unfolding f(1) v(3) vs(3) [OF f(2)] l by simp
  qed
  moreover have "placed a (length bs) f" if "unat a + length bs \<le> 4294967296" "Inr f \<in> set (v # vs)" for f
  proof -
    have z: "0 < length ?bs" "length bs = entry_len e + length ?bs" using archive_size [of es ?bs] rest sp(3) by simp_all
    have bound: "unat a + entry_len e < 4294967296" "unat a + entry_len e + length ?bs \<le> 4294967296" using that(1) z by linarith+
    then have u: "unat (word_of_nat (entry_len e) :: u32) = entry_len e" by (intro unat_of_nat_u32) linarith
    have a1: "unat ?a = unat a + entry_len e" using unat_add_u32 [of a "word_of_nat (entry_len e)"] bound(1) unfolding u by blast
    have "placed ?a (length ?bs) f" if "Inr f \<in> set vs" using vs(2) that bound(2) unfolding a1 by blast
    from placed_later [OF this bound(1) entry_len_blocks] placed_first [of m f e a "length ?bs"] v(1,2) bound(2) z that(2) show ?thesis unfolding z(2) by auto
  qed
  ultimately show ?case using v(1) vs(1) by (intro exI [of _ "v # vs"]) simp
qed

lemma ustar_walk:
  assumes "bytes_at m a (length bs) = bs" "is_archive es bs \<and> no_empty_file es" "cstr m lit ustar_magic"
  shows "\<exists>vs. list_all2 (seen m) vs es \<and> (\<forall>fuel dircb filecb x. length es < fuel \<longrightarrow> ustar_loop fuel m lit dircb filecb a (x :: 'a) =
    Inr (a + word_of_nat (length bs - 1024), fold (callback_step dircb filecb) vs x))"
  using ustar_walk_placed [OF assms, where ?'a = 'a] by blast

lemma ustar_walk_fails:
  assumes "bytes_at m a (length bs) = bs" "is_archive es bs" "\<not> no_empty_file es" "cstr m lit ustar_magic" "length es < fuel"
  shows "ustar_loop fuel m lit dircb filecb a x = Inl Assert_failed"
  using assms
proof (induction es arbitrary: a bs fuel x)
  case (Cons e es)
  note sp = entry_split [OF Cons.prems(1,2)]
  have en: "is_entry e (take (entry_len e) bs)" "is_archive es (drop (entry_len e) bs)" using Cons.prems(2) by simp_all
  obtain f where f: "fuel = Suc f" "length es < f" using Cons.prems(5) by (cases fuel) auto
  show ?case
  proof (cases "empty_file e")
    case True
    show ?thesis unfolding f(1) by (rule ustar_empty [OF sp(1) en(1) True Cons.prems(4)])
  next
    case False
    then have "\<not> no_empty_file es" using Cons.prems(3) by (simp add: no_empty_file_def)
    then show ?thesis using ustar_entry [OF sp(1) en(1) False Cons.prems(4)] Cons.IH [OF sp(2) en(2) _ Cons.prems(4) f(2)] f(1) by metis
  qed
qed (simp add: no_empty_file_def)

text \<open>The writer makes archives.\<close>

lemma archive_bytes_ok: "\<forall>(t, e) \<in> set es. meta_ok t \<and> entry_fits e \<Longrightarrow> is_archive (map snd es) (archive_bytes es)"
proof (induction es)
  case (Cons te es)
  obtain t e where te: "te = (t, e)" by (cases te)
  have ok: "meta_ok t" "entry_fits e" using Cons.prems te by auto
  have "length (entry_bytes (t, e)) = entry_len e \<and> is_entry e (entry_bytes (t, e))"
  proof (cases e)
    case (TDir name pfx)
    then show ?thesis using ok header_bytes_ok [of t name pfx "0x35" "{0x35}" 0] by simp
  next
    case (TFile name pfx content)
    then show ?thesis using ok header_bytes_ok [of t name pfx "0x30" "{0x30, 0}" "length content"] whole_blocks [of "length content"] by (simp add: pad_def field_def)
  qed
  then show ?case using Cons te by (simp add: archive_bytes_def)
qed (simp add: archive_bytes_def)



text \<open>An example, with the fields that \<open>tar\<close> writes.\<close>

definition example_meta :: tar_meta where
  "example_meta = \<lparr>tm_ids = map of_char ''0000644'' @ [0] @ map of_char ''0001750'' @ [0] @ map of_char ''0001750'' @ [0], tm_end = 0, tm_times = map of_char ''14312345670'' @ [0] @ map of_char ''007123'' @ [0, 0x20],
     tm_link = replicate 100 0, tm_version = map of_char ''00'', tm_owner = pad 32 (map of_char ''user'') @ pad 32 (map of_char ''user'') @ map of_char ''0000000'' @ [0] @ map of_char ''0000000'' @ [0], tm_tail = replicate 12 0\<rparr>"

definition example_entries :: "tar_entry list" where
  "example_entries = [TDir [0x64] [], TFile [0x66] [0x64] [0x41, 0x42]]"

definition example_archive :: "u8 list" where
  "example_archive = archive_bytes (map (Pair example_meta) example_entries)"

definition example_tar :: bmem where
  "example_tar x = (if unat x < length example_archive then example_archive ! unat x
     else if 0x10000 \<le> unat x \<and> unat x < 0x10005 then ustar_magic ! (unat x - 0x10000) else 0)"

lemma example_meta_ok: "meta_ok example_meta"
  by (simp add: meta_ok_def example_meta_def pad_def)

lemma example_archive_ok: "is_archive example_entries example_archive \<and> no_empty_file example_entries" "length example_archive = 2560"
proof -
  have "\<forall>(t, e) \<in> set (map (Pair example_meta) example_entries). meta_ok t \<and> entry_fits e" using example_meta_ok by (auto simp: example_entries_def)
  then have "is_archive (map snd (map (Pair example_meta) example_entries)) example_archive" unfolding example_archive_def by (rule archive_bytes_ok)
  moreover have "map snd (map (Pair example_meta) example_entries) = example_entries" by (simp add: comp_def)
  ultimately have a: "is_archive example_entries example_archive" by (simp only:)
  moreover have "no_empty_file example_entries" by (simp add: no_empty_file_def example_entries_def)
  ultimately show "is_archive example_entries example_archive \<and> no_empty_file example_entries" ..
  have "sum_list (map entry_len example_entries) = 1536" by (simp add: example_entries_def)
  then show "length example_archive = 2560" using archive_size [OF a] by (simp only:)
qed

lemma example_tar_bytes: "bytes_at example_tar 0 (length example_archive) = example_archive"
  by (rule nth_equalityI) (simp_all add: bytes_at_nth example_tar_def example_archive_ok(2) unat_of_nat_u32)

lemma example_tar_magic: "cstr example_tar 0x10000 ustar_magic"
  by (simp add: ustar_magic_def example_tar_def example_archive_ok(2))


end
