(* ===== verification/Vfs.thy ===== *)
theory Vfs
  imports Startup Ustar
begin

text \<open>
  The file system of a process, \<open>src/libc/vfs.cpp\<close> and \<open>libc/startup/vfs.h\<close>, with the functions on it: \<open>chdir.cpp\<close>, \<open>getcwd.cpp\<close>, \<open>opendir.cpp\<close>. A directory owns
  its nodes, so the file system is a tree; a pointer to a node is its position, the list of the indexes that lead to it from the root, and
  the parent of a node is the position without its last index. Strings are their characters (\<open>StdString\<close>); the assertions on \<open>*path.end()\<close> read the
  terminator and always hold.
\<close>

section \<open>Nodes\<close>

datatype vnode =
    File (getName: "u8 list") (getData: u32) (getSize: u32)
  | Dir (getName: "u8 list") (getNodes: "vnode list")

fun isFile :: "vnode \<Rightarrow> bool" where
  "isFile (File _ _ _) = True"
| "isFile (Dir _ _) = False"

definition isDir :: "vnode \<Rightarrow> bool" where
  "isDir n \<longleftrightarrow> \<not> isFile n"

fun getNode :: "vnode list \<Rightarrow> u8 list \<Rightarrow> nat option" where
  "getNode [] name = None"
| "getNode (n # ns) name = (if getName n = name then Some 0 else map_option Suc (getNode ns name))"

definition HasNode :: "vnode list \<Rightarrow> u8 list \<Rightarrow> bool" where
  "HasNode ns name \<longleftrightarrow> getNode ns name \<noteq> None"

definition getDir :: "vnode list \<Rightarrow> u8 list \<Rightarrow> nat option" where
  "getDir ns name = (case getNode ns name of None \<Rightarrow> None | Some i \<Rightarrow> if isDir (ns ! i) then Some i else None)"

definition getFile :: "vnode list \<Rightarrow> u8 list \<Rightarrow> nat option" where
  "getFile ns name = (case getNode ns name of None \<Rightarrow> None | Some i \<Rightarrow> if isFile (ns ! i) then Some i else None)"

definition Add :: "vnode list \<Rightarrow> vnode \<Rightarrow> vnode list result" where
  "Add ns node = check (\<not> HasNode ns (getName node)) (Inr (ns @ [node]))"

section \<open>Paths\<close>

definition kPathSep :: u8 where "kPathSep = 0x2F"

definition IsAbsPath :: "u8 list \<Rightarrow> bool result" where
  "IsAbsPath path = bindr (chr_at path 0) (\<lambda>c. Inr (c = kPathSep))"

definition IsRelPath :: "u8 list \<Rightarrow> bool result" where
  "IsRelPath path = bindr (IsAbsPath path) (\<lambda>b. Inr (\<not> b))"

fun lstrip_loop :: "(u8 \<Rightarrow> bool) \<Rightarrow> u8 list \<Rightarrow> u8 list result" where
  "lstrip_loop should_strip [] = Inl Abort_called"
| "lstrip_loop should_strip (c # cs) = (if should_strip c then lstrip_loop should_strip cs else Inr (c # cs))"

definition InplaceLStrip :: "(u8 \<Rightarrow> bool) \<Rightarrow> u8 list \<Rightarrow> u8 list result" where
  "InplaceLStrip should_strip path = (if path = [] then Inr path else lstrip_loop should_strip path)"

text \<open>The loop does not look whether the string has become empty; it then reads the byte in front of the block.\<close>

function rstrip_loop :: "(u8 \<Rightarrow> bool) \<Rightarrow> u8 list \<Rightarrow> u8 list result" where
  "rstrip_loop should_strip path =
     (if path = [] then Inl Out_of_bounds
      else if \<not> should_strip (last path) then Inr path
      else rstrip_loop should_strip (butlast path))"
  by pat_completeness auto
termination by (relation "measure (\<lambda>(f, p). length p)") auto

declare rstrip_loop.simps [simp del]

definition InplaceRStrip :: "(u8 \<Rightarrow> bool) \<Rightarrow> u8 list \<Rightarrow> u8 list result" where
  "InplaceRStrip should_strip path = (if path = [] then Inr path else rstrip_loop should_strip path)"

definition CleanPath :: "u8 list \<Rightarrow> u8 list result" where
  "CleanPath path0 =
     bindr (InplaceLStrip isspace path0) (\<lambda>path1.
     bindr (if length path1 \<ge> 2 \<and> path1 ! 0 = 0x2E \<and> path1 ! 1 = kPathSep then erase_chars path1 0 2 else Inr path1) (\<lambda>path2.
     bindr (InplaceRStrip isspace path2) (\<lambda>path3.
     if length path3 = 1 \<and> path3 ! 0 = kPathSep then Inr path3
     else InplaceRStrip (\<lambda>c. c = kPathSep) path3)))"

section \<open>Building the tree\<close>

lemma erase_chars_shorter: "erase_chars s i n = Inr s' \<Longrightarrow> length s' < length s"
  by (auto simp: erase_chars_def split: if_splits)

text \<open>\<open>mk\<close> makes the new node of a name: a directory, or a file with its data.\<close>

function ParsePathRelative :: "(u8 list \<Rightarrow> vnode) \<Rightarrow> u8 list \<Rightarrow> vnode list \<Rightarrow> vnode list result" where
  "ParsePathRelative mk path cwd =
     bindr (IsRelPath path) (\<lambda>rel. check rel
     (bindr (chr_at path 0) (\<lambda>c. check (\<not> isspace c) (check (path \<noteq> [])
     (bindr (find_chr path kPathSep 0) (\<lambda>path_sep_loc.
      if path_sep_loc = npos then Add cwd (mk path)
      else bindr (sub_chars path 0 path_sep_loc) (\<lambda>dirname.
           bindr (erase_chars path 0 (path_sep_loc + 1)) (\<lambda>path'.
           case getDir cwd dirname of
             Some i \<Rightarrow>
               if path' \<noteq> []
               then bindr (ParsePathRelative mk path' (getNodes (cwd ! i))) (\<lambda>ns. Inr (cwd[i := Dir (getName (cwd ! i)) ns]))
               else Inr cwd
           | None \<Rightarrow>
               bindr (if path' \<noteq> [] then ParsePathRelative mk path' [] else Inr []) (\<lambda>ns. Add cwd (Dir dirname ns))))))))))"
  by pat_completeness auto
termination by (relation "measure (\<lambda>(mk, path, cwd). length path)") (auto dest: erase_chars_shorter)

declare ParsePathRelative.simps [simp del]

definition FullPath :: "bmem \<Rightarrow> u32 \<Rightarrow> u32 \<Rightarrow> u8 list result" where
  "FullPath m pfx name =
     (case (string_cstr m pfx, string_cstr m name) of
        (Some p, Some n) \<Rightarrow> Inr (chars p @ chars n)
      | _ \<Rightarrow> Inl Out_of_fuel)"

definition vfs_dir_callback :: "bmem \<Rightarrow> DirInfo \<Rightarrow> vnode list \<Rightarrow> vnode list result" where
  "vfs_dir_callback m info root =
     bindr (FullPath m (di_prefix info) (di_name info)) (\<lambda>path0. bindr (CleanPath path0) (\<lambda>path.
     if path = [] then Inr root else ParsePathRelative (\<lambda>n. Dir n []) path root))"

definition vfs_file_callback :: "bmem \<Rightarrow> FileInfo \<Rightarrow> vnode list \<Rightarrow> vnode list result" where
  "vfs_file_callback m info root =
     bindr (FullPath m (fi_prefix info) (fi_name info)) (\<lambda>path0. bindr (CleanPath path0) (\<lambda>path.
     if path = [] then Inr root else ParsePathRelative (\<lambda>n. File n (fi_data info) (fi_size info)) path root))"

text \<open>A fault in a callback ends the program; here it is carried to the end of the walk.\<close>

definition InitVFS :: "nat \<Rightarrow> bmem \<Rightarrow> u32 \<Rightarrow> vnode list \<Rightarrow> u32 \<Rightarrow> vnode list result" where
  "InitVFS fuel m lit root raw_vfs_data =
     bindr (IterateUSTAR fuel m lit raw_vfs_data (Some (\<lambda>d r. bindr r (vfs_dir_callback m d))) (Some (\<lambda>f r. bindr r (vfs_file_callback m f))) (Inr root))
       (\<lambda>(_, r). r)"

section \<open>Finding nodes\<close>

type_synonym vptr = "nat list"

fun node_at :: "vnode list \<Rightarrow> vptr \<Rightarrow> vnode option" where
  "node_at root [] = Some (Dir [kPathSep] root)"
| "node_at root [i] = (if i < length root then Some (root ! i) else None)"
| "node_at root (i # is) = (if i < length root then (case root ! i of Dir _ ns \<Rightarrow> node_at ns is | File _ _ _ \<Rightarrow> None) else None)"

function GetNodeFromRelPathImpl :: "u8 list \<Rightarrow> vnode list \<Rightarrow> vptr option result" where
  "GetNodeFromRelPathImpl path search_path =
     check (path \<noteq> [])
     (bindr (chr_at path 0) (\<lambda>c. check (c \<noteq> kPathSep)
     (bindr (find_chr path kPathSep 0) (\<lambda>path_sep_loc.
      if path_sep_loc = npos then Inr (map_option (\<lambda>i. [i]) (getNode search_path path))
      else bindr (sub_chars path 0 path_sep_loc) (\<lambda>dirname.
           bindr (erase_chars path 0 (path_sep_loc + 1)) (\<lambda>path'.
           case getDir search_path dirname of
             Some i \<Rightarrow> bindr (GetNodeFromRelPathImpl path' (getNodes (search_path ! i))) (\<lambda>r. Inr (map_option (\<lambda>is. i # is) r))
           | None \<Rightarrow> Inr None))))))"
  by pat_completeness auto
termination by (relation "measure (\<lambda>(path, ns). length path)") (auto dest: erase_chars_shorter)

declare GetNodeFromRelPathImpl.simps [simp del]

text \<open>The globals of \<open>__libc_start_main.cpp\<close>: the root directory, the current one, the environment.\<close>

record libc_state =
  gGlobalFs :: "vnode list option"
  gCurrentDir :: "vptr option"
  gEnvp :: Envp

definition dir_nodes :: "vnode list \<Rightarrow> vptr \<Rightarrow> vnode list" where
  "dir_nodes root p = (case node_at root p of Some (Dir _ ns) \<Rightarrow> ns | _ \<Rightarrow> [])"

text \<open>\<open>GetNodeFromRelPathImpl\<close> below a directory of the tree.\<close>

definition search_dir :: "vnode list \<Rightarrow> u8 list \<Rightarrow> vptr \<Rightarrow> vptr option result" where
  "search_dir root path p = bindr (GetNodeFromRelPathImpl path (dir_nodes root p)) (\<lambda>r. Inr (map_option (\<lambda>is. p @ is) r))"

definition the_fs :: "libc_state \<Rightarrow> vnode list" where
  "the_fs s = (case gGlobalFs s of Some root \<Rightarrow> root | None \<Rightarrow> [])"

text \<open>With \<open>search_path_env\<close> false the functions do not call each other in a circle.\<close>

definition GetNodeFromRelPath_plain :: "libc_state \<Rightarrow> u8 list \<Rightarrow> vptr option \<Rightarrow> vptr option result" where
  "GetNodeFromRelPath_plain s path cwd =
     (case cwd of None \<Rightarrow> Inr None | Some p \<Rightarrow> bindr (CleanPath path) (\<lambda>path'. search_dir (the_fs s) path' p))"

definition GetNodeFromAbsPath :: "libc_state \<Rightarrow> u8 list \<Rightarrow> vptr option result" where
  "GetNodeFromAbsPath s path0 =
     check (gGlobalFs s \<noteq> None)
     (bindr (CleanPath path0) (\<lambda>path.
      bindr (IsAbsPath path) (\<lambda>is_abs.
      if \<not> is_abs then Inr None
      else if length path = 1 \<and> path ! 0 = kPathSep then Inr (Some [])
      else bindr (erase_chars path 0 1) (\<lambda>path'. GetNodeFromRelPath_plain s path' (Some [])))))"

definition GetNodeFromPath_plain :: "libc_state \<Rightarrow> u8 list \<Rightarrow> vptr option result" where
  "GetNodeFromPath_plain s path =
     (if path = [] then Inr None
      else bindr (IsAbsPath path) (\<lambda>is_abs.
        if is_abs then GetNodeFromAbsPath s path else GetNodeFromRelPath_plain s path (gCurrentDir s)))"

definition GetDirFromPathEnv :: "libc_state \<Rightarrow> u8 list \<Rightarrow> vptr option result" where
  "GetDirFromPathEnv s path =
     bindr (GetNodeFromPath_plain s path) (\<lambda>found_path.
     case found_path of None \<Rightarrow> Inr None
     | Some p \<Rightarrow> (case node_at (the_fs s) p of Some n \<Rightarrow> if isDir n then Inr (Some p) else Inr None | None \<Rightarrow> Inl Use_after_free))"

definition kPathEnvSep :: u8 where "kPathEnvSep = 0x3A"

text \<open>The loop over the entries of \<open>PATH\<close>. \<open>operator*\<close> passes an index for a count, and \<open>operator++\<close> stops at the separator, not behind it.\<close>

fun path_env_loop :: "nat \<Rightarrow> libc_state \<Rightarrow> u8 list \<Rightarrow> u8 list \<Rightarrow> nat \<Rightarrow> vptr option result" where
  "path_env_loop 0 s path path_env search_start = Inl Out_of_fuel"
| "path_env_loop (Suc fuel) s path path_env search_start =
     (if search_start \<ge> length path_env then Inr None
      else bindr (find_chr path_env kPathEnvSep search_start) (\<lambda>next_path_idx.
           bindr (sub_chars path_env search_start next_path_idx) (\<lambda>path_dir.
           bindr (GetDirFromPathEnv s path_dir) (\<lambda>dir.
           bindr (case dir of None \<Rightarrow> Inr None | Some p \<Rightarrow> search_dir (the_fs s) path p) (\<lambda>node.
           case node of Some n \<Rightarrow> Inr (Some n)
           | None \<Rightarrow> bindr (find_chr path_env kPathEnvSep search_start) (path_env_loop fuel s path path_env))))))"

definition env_PATH :: "u8 list" where "env_PATH = [0x50, 0x41, 0x54, 0x48]"
definition env_PWD :: "u8 list" where "env_PWD = [0x50, 0x57, 0x44]"

definition GetNodeFromRelPath :: "nat \<Rightarrow> libc_state \<Rightarrow> u8 list \<Rightarrow> vptr option \<Rightarrow> vptr option result" where
  "GetNodeFromRelPath fuel s path0 cwd =
     (case cwd of None \<Rightarrow> Inr None
      | Some p \<Rightarrow>
        bindr (CleanPath path0) (\<lambda>path.
        bindr (case getVal (gEnvp s) env_PATH of None \<Rightarrow> Inr None | Some pair \<Rightarrow> path_env_loop fuel s path (ev_val pair) 0) (\<lambda>node.
        case node of Some n \<Rightarrow> Inr (Some n) | None \<Rightarrow> search_dir (the_fs s) path p)))"

definition GetNodeFromPath :: "nat \<Rightarrow> libc_state \<Rightarrow> u8 list \<Rightarrow> vptr option result" where
  "GetNodeFromPath fuel s path =
     (if path = [] then Inr None
      else bindr (IsAbsPath path) (\<lambda>is_abs.
        if is_abs then GetNodeFromAbsPath s path else GetNodeFromRelPath fuel s path (gCurrentDir s)))"

fun abs_path_below :: "vnode list \<Rightarrow> vptr \<Rightarrow> u8 list" where
  "abs_path_below ns [] = []"
| "abs_path_below ns (i # is) = kPathSep # getName (ns ! i) @ abs_path_below (getNodes (ns ! i)) is"

definition getAbsPath :: "vnode list \<Rightarrow> vptr \<Rightarrow> u8 list" where
  "getAbsPath root p = (if p = [] then [kPathSep] else abs_path_below root p)"

section \<open>Working directory and listings\<close>

definition SetCurrentDir :: "libc_state \<Rightarrow> vptr \<Rightarrow> libc_state" where
  "SetCurrentDir s wd = s\<lparr>gCurrentDir := Some wd, gEnvp := setVal (gEnvp s) env_PWD (getAbsPath (the_fs s) wd)\<rparr>"

definition get_node :: "libc_state \<Rightarrow> vptr \<Rightarrow> vnode result" where
  "get_node s p = (case node_at (the_fs s) p of Some n \<Rightarrow> Inr n | None \<Rightarrow> Inl Use_after_free)"

definition chdir :: "nat \<Rightarrow> libc_state \<Rightarrow> u8 list \<Rightarrow> (int \<times> errno option \<times> libc_state) result" where
  "chdir fuel s path =
     bindr (GetNodeFromPath fuel s path) (\<lambda>node.
     case node of None \<Rightarrow> Inr (- 1, Some ENOENT, s)
     | Some p \<Rightarrow> bindr (get_node s p) (\<lambda>n.
         if \<not> isDir n then Inr (- 1, Some ENOTDIR, s) else Inr (0, None, SetCurrentDir s p)))"

text \<open>The bytes that are written to the buffer, or the error.\<close>

definition getcwd :: "libc_state \<Rightarrow> bool \<Rightarrow> nat \<Rightarrow> (errno + u8 list) result" where
  "getcwd s buf sz =
     (if \<not> buf \<or> sz = 0 then Inr (Inl EINVAL)
      else case gCurrentDir s of None \<Rightarrow> Inl Assert_failed
      | Some p \<Rightarrow>
          let abspath = getAbsPath (the_fs s) p in
          if length abspath > sz - 1 then Inr (Inl ERANGE)
          else Inr (Inr (take (min (length abspath) (sz - 1)) abspath @ [0])))"

record DIR =
  dir_it :: nat
  dir_names :: "vnode list"

definition opendir :: "nat \<Rightarrow> libc_state \<Rightarrow> u8 list \<Rightarrow> DIR option result" where
  "opendir fuel s dirname =
     bindr (GetNodeFromPath fuel s dirname) (\<lambda>dir.
     case dir of None \<Rightarrow> Inr None
     | Some p \<Rightarrow> bindr (get_node s p) (\<lambda>n. if \<not> isDir n then Inr None else Inr (Some \<lparr>dir_it = 0, dir_names = getNodes n\<rparr>)))"

definition DNAME_SIZE :: nat where "DNAME_SIZE = 256"

definition readdir :: "DIR \<Rightarrow> (u8 list \<times> DIR) option" where
  "readdir dirp =
     (if dir_it dirp = length (dir_names dirp) then None
      else let name = getName (dir_names dirp ! dir_it dirp); len = min (DNAME_SIZE - 1) (length name) in
        Some (take len name, dirp\<lparr>dir_it := dir_it dirp + 1\<rparr>))"


section \<open>Paths as lists of names\<close>

fun path_str :: "u8 list list \<Rightarrow> u8 list" where
  "path_str [] = []"
| "path_str [c] = c"
| "path_str (c # cs) = c @ kPathSep # path_str cs"

definition name_ok :: "u8 list \<Rightarrow> bool" where
  "name_ok c \<longleftrightarrow> c \<noteq> [] \<and> kPathSep \<notin> set c \<and> (\<forall>x \<in> set c. \<not> isspace x)"

definition path_ok :: "u8 list list \<Rightarrow> bool" where
  "path_ok cs \<longleftrightarrow> cs \<noteq> [] \<and> (\<forall>c \<in> set cs. name_ok c) \<and> length (path_str cs) < npos"

lemma path_str_Cons: "cs \<noteq> [] \<Longrightarrow> path_str (c # cs) = c @ kPathSep # path_str cs"
  by (cases cs) simp_all

lemma path_ok_Cons: "cs \<noteq> [] \<Longrightarrow> path_ok (c # cs) \<Longrightarrow> name_ok c \<and> path_ok cs \<and> length c < npos"
  by (auto simp: path_ok_def path_str_Cons)

lemma path_ok_start: "path_ok cs \<Longrightarrow> \<exists>x xs. path_str cs = x # xs \<and> x \<noteq> kPathSep \<and> \<not> isspace x"
proof (cases cs)
  case (Cons c ds)
  assume "path_ok cs"
  then have "name_ok c" using Cons by (simp add: path_ok_def)
  then obtain x xs where "c = x # xs" "x \<noteq> kPathSep" "\<not> isspace x" by (cases c) (auto simp: name_ok_def)
  then show ?thesis using Cons by (cases ds) auto
qed (simp add: path_ok_def)

lemma path_ok_not_empty: "path_ok cs \<Longrightarrow> path_str cs \<noteq> []"
  using path_ok_start by fastforce

lemma path_ok_single: "path_ok [c] \<longleftrightarrow> name_ok c \<and> length c < npos"
  by (simp add: path_ok_def)

lemma find_sep:
  "kPathSep \<notin> set c \<Longrightarrow> find_chr c kPathSep 0 = Inr npos"
  "kPathSep \<notin> set c \<Longrightarrow> find_chr (c @ kPathSep # p) kPathSep 0 = Inr (length c)"
  by (simp_all add: find_chr_def index_of_append index_of_none [THEN iffD2])

lemma cut_sep:
  "sub_chars (c @ kPathSep # p) 0 (length c) = Inr c" "erase_chars (c @ kPathSep # p) 0 (length c + 1) = Inr p"
  by (simp_all add: sub_chars_def erase_chars_def)

lemma path_start: "path_ok cs \<Longrightarrow> IsRelPath (path_str cs) = Inr True \<and> (\<exists>x. chr_at (path_str cs) 0 = Inr x \<and> x \<noteq> kPathSep \<and> \<not> isspace x)"
  using path_ok_start [of cs] by (auto simp: IsRelPath_def IsAbsPath_def chr_at_def)

lemma Parse_base: "path_ok [c] \<Longrightarrow> ParsePathRelative mk c ns = Add ns (mk c)"
  using path_start [of "[c]"] find_sep(1) [of c] by (subst ParsePathRelative.simps) (auto simp: path_ok_single name_ok_def)

lemma Parse_step:
  assumes "cs \<noteq> []" "path_ok (c # cs)"
  shows "ParsePathRelative mk (path_str (c # cs)) ns =
    (case getDir ns c of Some i \<Rightarrow> bindr (ParsePathRelative mk (path_str cs) (getNodes (ns ! i))) (\<lambda>ns'. Inr (ns[i := Dir (getName (ns ! i)) ns']))
     | None \<Rightarrow> bindr (ParsePathRelative mk (path_str cs) []) (\<lambda>ns'. Add ns (Dir c ns')))"
proof -
  have c: "kPathSep \<notin> set c" "length c \<noteq> npos" "path_str cs \<noteq> []" using path_ok_Cons [OF assms] path_ok_not_empty by (auto simp: name_ok_def)
  from path_start [OF assms(2)] show ?thesis
    by (subst ParsePathRelative.simps) (auto simp: path_str_Cons [OF assms(1)] find_sep(2) [OF c(1)] cut_sep [simplified] c split: option.split)
qed

lemma Get_base: "path_ok [c] \<Longrightarrow> GetNodeFromRelPathImpl c ns = Inr (map_option (\<lambda>i. [i]) (getNode ns c))"
  using path_start [of "[c]"] find_sep(1) [of c] by (subst GetNodeFromRelPathImpl.simps) (auto simp: path_ok_single name_ok_def)

lemma Get_step:
  assumes "cs \<noteq> []" "path_ok (c # cs)"
  shows "GetNodeFromRelPathImpl (path_str (c # cs)) ns =
    (case getDir ns c of Some i \<Rightarrow> bindr (GetNodeFromRelPathImpl (path_str cs) (getNodes (ns ! i))) (\<lambda>r. Inr (map_option (\<lambda>is. i # is) r)) | None \<Rightarrow> Inr None)"
proof -
  have c: "kPathSep \<notin> set c" "length c \<noteq> npos" "path_str cs \<noteq> []" using path_ok_Cons [OF assms] path_ok_not_empty by (auto simp: name_ok_def)
  from path_start [OF assms(2)] path_ok_not_empty [OF assms(2)] show ?thesis
    by (subst GetNodeFromRelPathImpl.simps) (auto simp: path_str_Cons [OF assms(1)] find_sep(2) [OF c(1)] cut_sep [simplified] c)
qed

section \<open>The tree as a map from paths\<close>

text \<open>What is at a path: nothing, a directory, or a file with the address and the size of its data.\<close>

fun kind :: "vnode \<Rightarrow> (u32 \<times> u32) option" where
  "kind (File _ d sz) = Some (d, sz)"
| "kind (Dir _ _) = None"

fun find_node :: "u8 list list \<Rightarrow> vnode list \<Rightarrow> vnode option" where
  "find_node [] ns = None"
| "find_node [c] ns = map_option (nth ns) (getNode ns c)"
| "find_node (c # cs) ns = (case getDir ns c of None \<Rightarrow> None | Some i \<Rightarrow> find_node cs (getNodes (ns ! i)))"

definition tree_map :: "vnode list \<Rightarrow> u8 list list \<Rightarrow> (u32 \<times> u32) option option" where
  "tree_map ns cs = map_option kind (find_node cs ns)"

lemma find_node_Cons: "cs \<noteq> [] \<Longrightarrow> find_node (c # cs) ns = (case getDir ns c of None \<Rightarrow> None | Some i \<Rightarrow> find_node cs (getNodes (ns ! i)))"
  by (cases cs) (simp_all split: option.split)

lemma getNode_Some: "getNode ns c = Some i \<Longrightarrow> i < length ns \<and> getName (ns ! i) = c"
  by (induction ns arbitrary: i) (auto split: if_splits)

lemma getNode_append: "getNode (ns @ [n]) c = (case getNode ns c of Some i \<Rightarrow> Some i | None \<Rightarrow> if getName n = c then Some (length ns) else None)"
  by (induction ns) (auto split: option.splits)

lemma getNode_update: "i < length ns \<Longrightarrow> getName n = getName (ns ! i) \<Longrightarrow> getNode (ns[i := n]) c = getNode ns c"
  by (induction ns arbitrary: i) (auto split: nat.splits)

lemma getDir_Some: "getDir ns c = Some i \<longleftrightarrow> getNode ns c = Some i \<and> \<not> isFile (ns ! i)"
  by (auto simp: getDir_def isDir_def split: option.splits)

lemma kind_None: "kind n = None \<longleftrightarrow> \<not> isFile n"
  by (cases n) simp_all

lemma Get_find: "path_ok cs \<Longrightarrow> \<exists>p. GetNodeFromRelPathImpl (path_str cs) ns = Inr p \<and> (case p of None \<Rightarrow> find_node cs ns = None | Some q \<Rightarrow> q \<noteq> [] \<and> node_at ns q = find_node cs ns \<and> find_node cs ns \<noteq> None)"
proof (induction cs arbitrary: ns)
  case (Cons c cs)
  show ?case
  proof (cases "cs = []")
    case True
    then show ?thesis using Get_base [of c ns] Cons.prems getNode_Some [of ns c] by (auto split: option.splits)
  next
    case False
    show ?thesis
    proof (cases "getDir ns c")
      case None
      then show ?thesis using Get_step [OF False Cons.prems] False by (simp add: find_node_Cons)
    next
      case (Some i)
      then have i: "i < length ns" "\<exists>nm ms. ns ! i = Dir nm ms" using getNode_Some by (auto simp: getDir_Some) (metis isFile.elims(3))
      from Cons.IH [of "getNodes (ns ! i)"] path_ok_Cons [OF False Cons.prems] obtain p where
        p: "GetNodeFromRelPathImpl (path_str cs) (getNodes (ns ! i)) = Inr p"
          "case p of None \<Rightarrow> find_node cs (getNodes (ns ! i)) = None | Some q \<Rightarrow> q \<noteq> [] \<and> node_at (getNodes (ns ! i)) q = find_node cs (getNodes (ns ! i)) \<and> find_node cs (getNodes (ns ! i)) \<noteq> None" by blast
      have "q \<noteq> [] \<Longrightarrow> node_at ns (i # q) = node_at (getNodes (ns ! i)) q" for q using i by (cases q) auto
      then show ?thesis using Get_step [OF False Cons.prems, of ns] Some p False
        by (cases p) (auto simp: find_node_Cons)
    qed
  qed
qed (simp add: path_ok_def)

text \<open>Where a node can be added: nothing is there yet, and no file is in the way.\<close>

fun plantable :: "u8 list list \<Rightarrow> vnode list \<Rightarrow> bool" where
  "plantable [] ns \<longleftrightarrow> False"
| "plantable [c] ns \<longleftrightarrow> getNode ns c = None"
| "plantable (c # cs) ns \<longleftrightarrow> (case getNode ns c of None \<Rightarrow> True | Some i \<Rightarrow> \<not> isFile (ns ! i) \<and> plantable cs (getNodes (ns ! i)))"

lemma plantable_Cons: "cs \<noteq> [] \<Longrightarrow> plantable (c # cs) ns \<longleftrightarrow> (case getNode ns c of None \<Rightarrow> True | Some i \<Rightarrow> \<not> isFile (ns ! i) \<and> plantable cs (getNodes (ns ! i)))"
  by (cases cs) (simp_all split: option.split)

lemma plantable_empty: "cs \<noteq> [] \<Longrightarrow> plantable cs []"
  by (cases "tl cs"; cases cs) (auto simp: plantable_Cons)

lemma tree_map_Nil: "tree_map ns [] = None"
  by (simp add: tree_map_def)

lemma tree_map_Cons: 
  "tree_map ns (c # cs) = (case getNode ns c of None \<Rightarrow> None
     | Some i \<Rightarrow> if cs = [] then Some (kind (ns ! i)) else if isFile (ns ! i) then None else tree_map (getNodes (ns ! i)) cs)"
  by (cases "cs = []") (auto simp: tree_map_def find_node_Cons getDir_def isDir_def split: option.splits)

lemma tree_map_empty: "tree_map [] cs = None"
  by (cases cs) (simp_all add: tree_map_Nil tree_map_Cons)

lemma strict_prefix_simps [simp]: "\<not> strict_prefix ds []" "strict_prefix [] cs \<longleftrightarrow> cs \<noteq> []" "strict_prefix (d # ds) (c # cs) \<longleftrightarrow> d = c \<and> strict_prefix ds cs"
  by (auto simp: strict_prefix_def)

text \<open>Adding a node is an update of the map at its path, with directories on the way.\<close>

definition plant :: "u8 list list \<Rightarrow> (u32 \<times> u32) option \<Rightarrow> (u8 list list \<Rightarrow> (u32 \<times> u32) option option) \<Rightarrow> u8 list list \<Rightarrow> (u32 \<times> u32) option option" where
  "plant cs k f ds = (if ds = cs then Some k else if ds \<noteq> [] \<and> strict_prefix ds cs then Some None else f ds)"

lemma Parse_ok:
  assumes mk: "\<And>n. getName (mk n) = n" "\<And>n. kind (mk n) = k" "\<And>n. isFile (mk n) \<or> getNodes (mk n) = []"
  shows "path_ok cs \<Longrightarrow> plantable cs ns \<Longrightarrow> \<exists>ns'. ParsePathRelative mk (path_str cs) ns = Inr ns' \<and> tree_map ns' = plant cs k (tree_map ns)"
proof (induction cs arbitrary: ns)
  case (Cons c cs)
  show ?case
  proof (cases "cs = []")
    case True
    have n: "getNode ns c = None" using Cons.prems(2) True by simp
    have e: "isFile (mk c) \<or> tree_map (getNodes (mk c)) ds = None" for ds using mk(3) [of c] by (auto simp: tree_map_empty)
    have "tree_map (ns @ [mk c]) ds = plant [c] k (tree_map ns) ds" for ds
      using n mk(1,2) e [of "tl ds"] getNode_Some [of ns]
      by (cases ds) (auto simp: tree_map_Nil tree_map_Cons plant_def getNode_append nth_append kind_None tree_map_empty mk(1) split: option.split)
    then show ?thesis using True Parse_base [of c mk ns] Cons.prems n by (auto simp: Add_def HasNode_def mk)
  next
    case ne: False
    have ok: "path_ok cs" using path_ok_Cons [OF ne Cons.prems(1)] by blast
    show ?thesis
    proof (cases "getNode ns c")
      case None
      then have gd: "getDir ns c = None" by (simp add: getDir_def)
      from Cons.IH [OF ok plantable_empty [OF ne]] obtain ms where ms: "ParsePathRelative mk (path_str cs) [] = Inr ms" "tree_map ms = plant cs k (tree_map [])" by blast
      have "tree_map (ns @ [Dir c ms]) ds = plant (c # cs) k (tree_map ns) ds" for ds
        using None ne getNode_Some [of ns] ms(2)
        by (cases ds) (auto simp: tree_map_Nil tree_map_Cons plant_def getNode_append nth_append tree_map_empty split: option.split)
      then show ?thesis using Parse_step [OF ne Cons.prems(1), of mk ns] gd ms(1) None by (auto simp: Add_def HasNode_def)
    next
      case (Some i)
      then have i: "i < length ns" "getName (ns ! i) = c" "\<not> isFile (ns ! i)" "plantable cs (getNodes (ns ! i))"
        using getNode_Some [of ns c i] Cons.prems(2) ne by (auto simp: plantable_Cons)
      have gd: "getDir ns c = Some i" using Some i by (simp add: getDir_Some)
      from Cons.IH [OF ok i(4)] obtain ms where ms: "ParsePathRelative mk (path_str cs) (getNodes (ns ! i)) = Inr ms"
        "tree_map ms = plant cs k (tree_map (getNodes (ns ! i)))" by blast
      let ?ns = "ns[i := Dir c ms]"
      have g: "getNode ?ns d = getNode ns d" for d using i by (intro getNode_update) simp_all
      have inj: "a = c" if "getNode ns a = Some i" for a using getNode_Some [OF that] i by simp
      have "tree_map ?ns ds = plant (c # cs) k (tree_map ns) ds" for ds
        using Some ne i ms(2) unfolding fun_eq_iff
        by (cases ds) (auto simp: tree_map_Nil tree_map_Cons plant_def g nth_list_update kind_None dest: inj split: option.split)
      then show ?thesis using Parse_step [OF ne Cons.prems(1), of mk ns] gd ms(1) i by auto
    qed
  qed
qed simp

lemma Parse_fails:
  assumes "\<And>n. getName (mk n) = n" "\<And>n. kind (mk n) = k" "\<And>n. isFile (mk n) \<or> getNodes (mk n) = []"
  shows "path_ok cs \<Longrightarrow> \<not> plantable cs ns \<Longrightarrow> ParsePathRelative mk (path_str cs) ns = Inl Assert_failed"
proof (induction cs arbitrary: ns)
  case (Cons c cs)
  show ?case
  proof (cases "cs = []")
    case True
    then show ?thesis using Parse_base [of c mk ns] Cons.prems assms(1) by (auto simp: Add_def HasNode_def)
  next
    case ne: False
    have ok: "path_ok cs" using path_ok_Cons [OF ne Cons.prems(1)] by blast
    from Cons.prems(2) ne obtain i where i: "getNode ns c = Some i" "isFile (ns ! i) \<or> \<not> plantable cs (getNodes (ns ! i))"
      by (auto simp: plantable_Cons split: option.splits)
    obtain ms where ms: "ParsePathRelative mk (path_str cs) [] = Inr ms" using Parse_ok [OF assms ok plantable_empty [OF ne]] by blast
    show ?thesis
    proof (cases "isFile (ns ! i)")
      case True
      then have "getDir ns c = None" using i by (simp add: getDir_def isDir_def)
      then show ?thesis using Parse_step [OF ne Cons.prems(1), of mk ns] ms i by (simp add: Add_def HasNode_def)
    next
      case False
      then have "getDir ns c = Some i" using i by (simp add: getDir_Some)
      then show ?thesis using Parse_step [OF ne Cons.prems(1), of mk ns] Cons.IH [OF ok, of "getNodes (ns ! i)"] i False by simp
    qed
  qed
qed (simp add: path_ok_def)

lemma plantable_map: "cs \<noteq> [] \<Longrightarrow> plantable cs ns \<longleftrightarrow> tree_map ns cs = None \<and> (\<forall>ds. strict_prefix ds cs \<longrightarrow> tree_map ns ds \<in> {None, Some None})"
proof (induction cs arbitrary: ns)
  case (Cons c cs)
  have split: "(\<forall>ds. strict_prefix ds (c # cs) \<longrightarrow> P ds) \<longleftrightarrow> P [] \<and> (\<forall>ds. strict_prefix ds cs \<longrightarrow> P (c # ds))" for P
  proof
    assume a: "P [] \<and> (\<forall>ds. strict_prefix ds cs \<longrightarrow> P (c # ds))"
    show "\<forall>ds. strict_prefix ds (c # cs) \<longrightarrow> P ds"
    proof (intro allI impI)
      fix ds assume "strict_prefix ds (c # cs)"
      with a show "P ds" by (cases ds) auto
    qed
  qed simp
  show ?case
  proof (cases "cs = []")
    case True
    then show ?thesis unfolding split by (auto simp: tree_map_Nil tree_map_Cons split: option.splits)
  next
    case ne: False
    show ?thesis
    proof (cases "getNode ns c")
      case (Some i)
      have "(\<forall>ds. strict_prefix ds cs \<longrightarrow> tree_map ns (c # ds) \<in> {None, Some None}) \<longleftrightarrow>
          \<not> isFile (ns ! i) \<and> (\<forall>ds. strict_prefix ds cs \<longrightarrow> tree_map (getNodes (ns ! i)) ds \<in> {None, Some None})"
      proof (cases "isFile (ns ! i)")
        case True
        then have "tree_map ns [c] = Some (kind (ns ! i)) \<and> kind (ns ! i) \<noteq> None" using Some by (simp add: tree_map_Cons kind_None)
        then show ?thesis using True ne by (auto intro!: exI [of _ "[]"])
      next
        case False
        have "tree_map ns (c # ds) \<in> {None, Some None} \<longleftrightarrow> tree_map (getNodes (ns ! i)) ds \<in> {None, Some None}" for ds
          using False Some kind_None [of "ns ! i"] by (cases ds) (simp_all add: tree_map_Cons tree_map_Nil)
        then show ?thesis using False by simp
      qed
      then show ?thesis using Some ne Cons.IH [OF ne] by (auto simp: split tree_map_Nil plantable_Cons tree_map_Cons)
    qed (use ne in \<open>simp add: split tree_map_Nil plantable_Cons tree_map_Cons\<close>)
  qed
qed simp

text \<open>C26: The tree is a map from paths to directories and files: adding a node under a path of legal names succeeds exactly when nothing is there and
  no file is on the way, updates the map at that path, with directories for the missing names, and nowhere else; otherwise an assertion fails.
  Looking a path up finds the node that the map has there, or null.\<close>

theorem vfs_refines_map:
  assumes "path_ok cs"
  shows "(tree_map ns cs = None \<and> (\<forall>ds. strict_prefix ds cs \<longrightarrow> tree_map ns ds \<in> {None, Some None}) \<longrightarrow>
      (\<exists>ns'. ParsePathRelative (\<lambda>n. Dir n []) (path_str cs) ns = Inr ns' \<and> tree_map ns' = plant cs None (tree_map ns))
      \<and> (\<exists>ns'. ParsePathRelative (\<lambda>n. File n d sz) (path_str cs) ns = Inr ns' \<and> tree_map ns' = plant cs (Some (d, sz)) (tree_map ns)))
    \<and> (\<not> (tree_map ns cs = None \<and> (\<forall>ds. strict_prefix ds cs \<longrightarrow> tree_map ns ds \<in> {None, Some None})) \<longrightarrow>
      ParsePathRelative (\<lambda>n. Dir n []) (path_str cs) ns = Inl Assert_failed \<and> ParsePathRelative (\<lambda>n. File n d sz) (path_str cs) ns = Inl Assert_failed)
    \<and> (\<exists>p. GetNodeFromRelPathImpl (path_str cs) ns = Inr p \<and> tree_map ns cs = (case p of None \<Rightarrow> None | Some q \<Rightarrow> map_option kind (node_at ns q)))"
proof -
  have ne: "cs \<noteq> []" using assms by (simp add: path_ok_def)
  from Get_find [OF assms, of ns] obtain p where p: "GetNodeFromRelPathImpl (path_str cs) ns = Inr p"
    "case p of None \<Rightarrow> find_node cs ns = None | Some q \<Rightarrow> q \<noteq> [] \<and> node_at ns q = find_node cs ns \<and> find_node cs ns \<noteq> None" by blast
  then have "tree_map ns cs = (case p of None \<Rightarrow> None | Some q \<Rightarrow> map_option kind (node_at ns q))"
    by (auto simp: tree_map_def split: option.splits)
  with p(1) show ?thesis unfolding plantable_map [OF ne, symmetric]
    using Parse_ok [OF _ _ _ assms, of "\<lambda>n. Dir n []" None ns] Parse_ok [OF _ _ _ assms, of "\<lambda>n. File n d sz" "Some (d, sz)" ns]
      Parse_fails [OF _ _ _ assms, of "\<lambda>n. Dir n []" None ns] Parse_fails [OF _ _ _ assms, of "\<lambda>n. File n d sz" "Some (d, sz)" ns]
    by simp
qed

theorem vfs_refines_map_witness:
  "\<exists>ns. ParsePathRelative (\<lambda>n. File n 0x1000 5) [0x62, 0x2F, 0x6C] [] = Inr ns \<and> tree_map ns [[0x62]] = Some None
    \<and> tree_map ns [[0x62], [0x6C]] = Some (Some (0x1000, 5))"
proof -
  have ok: "path_ok [[0x62], [0x6C]]" by (simp add: path_ok_def name_ok_def kPathSep_def isspace_def npos_def)
  have s: "path_str [[0x62], [0x6C]] = [0x62, 0x2F, 0x6C]" by (simp add: kPathSep_def)
  from vfs_refines_map [OF ok, of "[]" "0x1000" 5] obtain ns where ns: "ParsePathRelative (\<lambda>n. File n 0x1000 5) [0x62, 0x2F, 0x6C] [] = Inr ns"
    "tree_map ns = plant [[0x62], [0x6C]] (Some (0x1000, 5)) (tree_map [])" unfolding s by (auto simp: tree_map_empty)
  then show ?thesis by (simp add: plant_def)
qed

end
