(* ===== verification/Vfs_Props.thy ===== *)
theory Vfs_Props
  imports Vfs
begin

text \<open>
  From an archive to the files: \<open>InitVFS\<close> on the bytes of a tar archive builds a tree in which every entry is found under its absolute path. What the tree
  promises is the interface \<open>path_store\<close>; that a list of entries can be added in order is proved there. The second part is about \<open>PATH\<close>.
\<close>

section \<open>Adding entries in order\<close>

definition room :: "u8 list list \<Rightarrow> (u8 list list \<Rightarrow> (u32 \<times> u32) option option) \<Rightarrow> bool" where
  "room cs f \<longleftrightarrow> f cs = None \<and> (\<forall>ds. strict_prefix ds cs \<longrightarrow> f ds \<in> {None, Some None})"

fun add_all :: "(u8 list list \<Rightarrow> (u32 \<times> u32) option \<Rightarrow> 't \<Rightarrow> 't result) \<Rightarrow> (u8 list list \<times> (u32 \<times> u32) option) list \<Rightarrow> 't \<Rightarrow> 't result" where
  "add_all add [] t = Inr t"
| "add_all add ((cs, k) # xs) t = bindr (add cs k t) (add_all add xs)"

text \<open>No path comes after one that it leads to, and none is below a file. The Boolean says whether the entry is a file.\<close>

fun in_order :: "(u8 list list \<times> bool) list \<Rightarrow> (u8 list list \<times> bool) list \<Rightarrow> bool" where
  "in_order before [] \<longleftrightarrow> True"
| "in_order before ((cs, is_file) # xs) \<longleftrightarrow>
     path_ok cs \<and> (\<forall>(ds, f) \<in> set before. \<not> prefix cs ds \<and> (f \<longrightarrow> \<not> prefix ds cs)) \<and> in_order ((cs, is_file) # before) xs"

definition shape :: "(u8 list list \<times> 'k option) list \<Rightarrow> (u8 list list \<times> bool) list" where
  "shape xs = map (\<lambda>(cs, k). (cs, k \<noteq> None)) xs"

text \<open>What a map holds after a number of entries.\<close>

definition holds :: "(u8 list list \<Rightarrow> (u32 \<times> u32) option option) \<Rightarrow> (u8 list list \<times> (u32 \<times> u32) option) list \<Rightarrow> bool" where
  "holds f xs \<longleftrightarrow> f [] = None \<and> (\<forall>(cs, k) \<in> set xs. f cs = Some k) \<and> (\<forall>ds l. f ds = Some (Some l) \<longrightarrow> (ds, Some l) \<in> set xs)
     \<and> (\<forall>ds. f ds \<noteq> None \<longrightarrow> (\<exists>(cs, k) \<in> set xs. prefix ds cs))"

lemma holds_room:
  assumes "holds f before" "\<forall>(ds, g) \<in> set (shape before). \<not> prefix cs ds \<and> (g \<longrightarrow> \<not> prefix ds cs)"
  shows "room cs f"
proof -
  have "f cs = None" using assms by (fastforce simp: holds_def shape_def)
  moreover have "f ds \<in> {None, Some None}" if "strict_prefix ds cs" for ds
  proof (cases "f ds")
    case (Some k)
    show ?thesis
    proof (cases k)
      case (Some l)
      then have "(ds, Some l) \<in> set before" using \<open>f ds = Some k\<close> assms(1) unfolding holds_def by blast
      then have "\<not> prefix ds cs" using assms(2) by (force simp: shape_def)
      then show ?thesis using that by (simp add: strict_prefix_def)
    qed (use Some in simp)
  qed simp
  ultimately show ?thesis by (simp add: room_def)
qed

lemma holds_plant:
  assumes h: "holds f before" and c: "cs \<noteq> []" "\<forall>(ds, g) \<in> set (shape before). \<not> prefix cs ds \<and> (g \<longrightarrow> \<not> prefix ds cs)"
  shows "holds (plant cs k f) ((cs, k) # before)"
proof -
  have old: "plant cs k f ds = Some l" if "(ds, l) \<in> set before" for ds l
  proof -
    have "\<not> prefix cs ds" "l \<noteq> None \<longrightarrow> \<not> prefix ds cs" using c(2) that by (force simp: shape_def)+
    moreover have "f ds = Some l" using h that by (auto simp: holds_def)
    ultimately show ?thesis by (cases l) (auto simp: plant_def strict_prefix_def)
  qed
  have "f [] = None" using h by (simp add: holds_def)
  then have "plant cs k f [] = None" using c(1) by (simp add: plant_def)
  moreover have "plant cs k f cs = Some k" by (simp add: plant_def)
  moreover have "(ds, Some l) \<in> set ((cs, k) # before)" if "plant cs k f ds = Some (Some l)" for ds l
    using that h unfolding plant_def holds_def by (cases l) (auto split: if_splits)
  moreover have "\<exists>(es, l) \<in> set ((cs, k) # before). prefix ds es" if "plant cs k f ds \<noteq> None" for ds
    using that h by (auto simp: plant_def holds_def strict_prefix_def split: if_splits)
  ultimately show ?thesis using old by (auto simp: holds_def)
qed

locale path_store =
  fixes contents :: "'t \<Rightarrow> u8 list list \<Rightarrow> (u32 \<times> u32) option option"
    and add :: "u8 list list \<Rightarrow> (u32 \<times> u32) option \<Rightarrow> 't \<Rightarrow> 't result"
  assumes add_law: "path_ok cs \<Longrightarrow> room cs (contents t) \<Longrightarrow> \<exists>t'. add cs k t = Inr t' \<and> contents t' = plant cs k (contents t)"
begin

lemma add_all_in_order:
  "holds (contents t) before \<Longrightarrow> in_order (shape before) (shape xs) \<Longrightarrow> \<exists>t'. add_all add xs t = Inr t' \<and> (\<forall>(cs, k) \<in> set (before @ xs). contents t' cs = Some k)"
proof (induction xs arbitrary: t before)
  case Nil
  then show ?case by (auto simp: holds_def)
next
  case (Cons x xs)
  obtain cs k where x: "x = (cs, k)" by (cases x)
  have o: "path_ok cs" "\<forall>(ds, g) \<in> set (shape before). \<not> prefix cs ds \<and> (g \<longrightarrow> \<not> prefix ds cs)" "in_order (shape ((cs, k) # before)) (shape xs)"
    using Cons.prems(2) x by (simp_all add: shape_def)
  from add_law [OF o(1) holds_room [OF Cons.prems(1) o(2)], of k] obtain t' where t': "add cs k t = Inr t'" "contents t' = plant cs k (contents t)" by blast
  have "holds (contents t') ((cs, k) # before)" unfolding t'(2) by (rule holds_plant) (use Cons.prems(1) o in \<open>auto simp: path_ok_def\<close>)
  from Cons.IH [OF this o(3)] t'(1) x show ?case by auto
qed

end

definition vfs_add :: "u8 list list \<Rightarrow> (u32 \<times> u32) option \<Rightarrow> vnode list \<Rightarrow> vnode list result" where
  "vfs_add cs k ns = ParsePathRelative (\<lambda>n. case k of None \<Rightarrow> Dir n [] | Some (d, sz) \<Rightarrow> File n d sz) (path_str cs) ns"

interpretation vfs: path_store tree_map vfs_add
proof
  fix cs ns k assume a: "path_ok cs" "room cs (tree_map ns)"
  then have "plantable cs ns" by (simp add: room_def plantable_map path_ok_def)
  with a(1) show "\<exists>ns'. vfs_add cs k ns = Inr ns' \<and> tree_map ns' = plant cs k (tree_map ns)"
    unfolding vfs_add_def by (intro Parse_ok) (auto split: option.split)
qed

section \<open>Clean paths\<close>

lemma rstrip_stop: "path \<noteq> [] \<Longrightarrow> \<not> f (last path) \<Longrightarrow> InplaceRStrip f path = Inr path"
  by (simp add: InplaceRStrip_def rstrip_loop.simps)

lemma lstrip_stop: "\<not> f c \<Longrightarrow> InplaceLStrip f (c # cs) = Inr (c # cs)"
  by (simp add: InplaceLStrip_def)

lemma sep_no_space: "\<not> isspace kPathSep"
  by (simp add: isspace_def kPathSep_def)

lemma path_str_last: "path_ok cs \<Longrightarrow> last (path_str cs) \<noteq> kPathSep \<and> \<not> isspace (last (path_str cs))"
proof (induction cs)
  case (Cons c cs)
  show ?case
  proof (cases "cs = []")
    case True
    then have "name_ok c" using Cons.prems by (simp add: path_ok_single)
    then have "last c \<in> set c" "kPathSep \<notin> set c" "\<forall>x \<in> set c. \<not> isspace x" by (simp_all add: name_ok_def)
    then show ?thesis using True by auto
  next
    case False
    then show ?thesis using Cons path_ok_Cons [OF False Cons.prems] path_ok_not_empty [of cs] by (simp add: path_str_Cons)
  qed
qed (simp add: path_ok_def)

definition clean :: "u8 list list \<Rightarrow> bool" where
  "clean cs \<longleftrightarrow> path_ok cs \<and> hd cs \<noteq> [0x2E]"

lemma clean_CleanPath:
  assumes "clean cs"
  shows "CleanPath (path_str cs) = Inr (path_str cs)" "CleanPath (kPathSep # path_str cs) = Inr (kPathSep # path_str cs)"
proof -
  have ok: "path_ok cs" using assms by (simp add: clean_def)
  obtain x xs where x: "path_str cs = x # xs" "x \<noteq> kPathSep" "\<not> isspace x" using path_ok_start [OF ok] by blast
  have dot: "\<not> (length (path_str cs) \<ge> 2 \<and> path_str cs ! 0 = 0x2E \<and> path_str cs ! 1 = kPathSep)"
  proof (cases cs)
    case (Cons c ds)
    have n: "name_ok c" "c \<noteq> [0x2E]" using ok assms Cons by (auto simp: path_ok_def clean_def)
    then obtain y ys where c: "c = y # ys" by (cases c) (auto simp: name_ok_def)
    show ?thesis
    proof (cases ys)
      case Nil
      then show ?thesis using n(2) c Cons by (cases ds) auto
    next
      case (Cons z zs)
      then have "path_str cs ! 1 = z" using c \<open>cs = c # ds\<close> by (cases ds) auto
      then show ?thesis using n(1) c Cons by (auto simp: name_ok_def)
    qed
  qed (use ok in \<open>simp add: path_ok_def\<close>)
  have r: "InplaceRStrip isspace (path_str cs) = Inr (path_str cs)" "InplaceRStrip (\<lambda>c. c = kPathSep) (path_str cs) = Inr (path_str cs)"
    "InplaceRStrip isspace (kPathSep # path_str cs) = Inr (kPathSep # path_str cs)" "InplaceRStrip (\<lambda>c. c = kPathSep) (kPathSep # path_str cs) = Inr (kPathSep # path_str cs)"
    using path_str_last [OF ok] path_ok_not_empty [OF ok] by (simp_all add: rstrip_stop)
  have l: "InplaceLStrip isspace (path_str cs) = Inr (path_str cs)" "InplaceLStrip isspace (kPathSep # path_str cs) = Inr (kPathSep # path_str cs)"
    using x sep_no_space by (simp_all add: lstrip_stop)
  show "CleanPath (path_str cs) = Inr (path_str cs)"
    unfolding CleanPath_def l(1) bindr.simps if_not_P [OF dot] r(1,2) using x by auto
  have "kPathSep \<noteq> 0x2E" by (simp add: kPathSep_def)
  then show "CleanPath (kPathSep # path_str cs) = Inr (kPathSep # path_str cs)"
    unfolding CleanPath_def l(2) using r(3,4) x by simp
qed

lemma GetNodeFromAbsPath_clean:
  assumes "clean cs" "gGlobalFs s = Some root"
  shows "\<exists>p. GetNodeFromAbsPath s (kPathSep # path_str cs) = Inr p \<and> tree_map root cs = (case p of None \<Rightarrow> None | Some q \<Rightarrow> map_option kind (node_at root q))"
proof -
  have ok: "path_ok cs" using assms by (simp add: clean_def)
  from Get_find [OF ok, of root] obtain p where p: "GetNodeFromRelPathImpl (path_str cs) root = Inr p"
    "case p of None \<Rightarrow> find_node cs root = None | Some q \<Rightarrow> q \<noteq> [] \<and> node_at root q = find_node cs root \<and> find_node cs root \<noteq> None" by blast
  have "GetNodeFromAbsPath s (kPathSep # path_str cs) = Inr p"
    using assms(2) p(1) path_ok_not_empty [OF ok]
    by (simp add: GetNodeFromAbsPath_def clean_CleanPath [OF assms(1)] IsAbsPath_def chr_at_def erase_chars_def GetNodeFromRelPath_plain_def
        search_dir_def dir_nodes_def the_fs_def option.map_ident)
  moreover have "tree_map root cs = (case p of None \<Rightarrow> None | Some q \<Rightarrow> map_option kind (node_at root q))"
    using p(2) by (auto simp: tree_map_def split: option.splits)
  ultimately show ?thesis by blast
qed

section \<open>Archives\<close>

fun entry_path :: "tar_entry \<Rightarrow> u8 list" where
  "entry_path (TDir name pfx) = pfx @ name"
| "entry_path (TFile name pfx content) = pfx @ name"

fun is_file_entry :: "tar_entry \<Rightarrow> bool" where
  "is_file_entry (TDir name pfx) = False"
| "is_file_entry (TFile name pfx content) = True"

text \<open>The kind of a node that stands for an entry; a file has the entry's content.\<close>

fun entry_kind :: "bmem \<Rightarrow> (u32 \<times> u32) option \<Rightarrow> tar_entry \<Rightarrow> bool" where
  "entry_kind m k (TDir name pfx) \<longleftrightarrow> k = None"
| "entry_kind m k (TFile name pfx content) \<longleftrightarrow> (\<exists>d sz. k = Some (d, sz) \<and> unat sz = length content \<and> bytes_at m d (length content) = content)"

lemma entry_kind_file: "entry_kind m k e \<Longrightarrow> k \<noteq> None \<longleftrightarrow> is_file_entry e"
  by (cases e) auto

definition vfs_step :: "bmem \<Rightarrow> DirInfo + FileInfo \<Rightarrow> vnode list result \<Rightarrow> vnode list result" where
  "vfs_step m = callback_step (Some (\<lambda>d r. bindr r (vfs_dir_callback m d))) (Some (\<lambda>f r. bindr r (vfs_file_callback m f)))"

lemma FullPath_cstr: "cstr m p pfx \<Longrightarrow> cstr m n name \<Longrightarrow> FullPath m p n = Inr (pfx @ name)"
  using string_cstr_chars [of m p pfx] string_cstr_chars [of m n name] by (auto simp: FullPath_def)

lemma path_str_Nil: "path_str cs = [] \<Longrightarrow> cs \<noteq> [] \<Longrightarrow> \<not> path_ok cs"
  using path_ok_not_empty by blast

lemma vfs_step_add:
  assumes "seen m v e" "CleanPath (entry_path e) = Inr (path_str cs)" "cs = [] \<or> path_ok cs"
  shows "\<exists>k. entry_kind m k e \<and> (\<forall>root. vfs_step m v (Inr root) = (if cs = [] then Inr root else vfs_add cs k root))"
proof (cases e)
  case (TDir name pfx)
  then obtain d where d: "v = Inl d" "cstr m (di_name d) name" "cstr m (di_prefix d) pfx" using assms(1) by (cases v) (auto simp: dir_seen_def file_seen_def)
  have "vfs_step m v (Inr root) = (if cs = [] then Inr root else vfs_add cs None root)" for root
    using assms(2,3) TDir d FullPath_cstr [OF d(3,2)] path_ok_not_empty [of cs] by (auto simp: vfs_step_def callback_step_def vfs_dir_callback_def vfs_add_def)
  then show ?thesis using TDir by auto
next
  case (TFile name pfx content)
  then obtain f where f: "v = Inr f" "cstr m (fi_name f) name" "cstr m (fi_prefix f) pfx" "unat (fi_size f) = length content"
    "bytes_at m (fi_data f) (length content) = content" using assms(1) by (cases v) (auto simp: dir_seen_def file_seen_def)
  have "vfs_step m v (Inr root) = (if cs = [] then Inr root else vfs_add cs (Some (fi_data f, fi_size f)) root)" for root
    using assms(2,3) TFile f FullPath_cstr [OF f(3,2)] path_ok_not_empty [of cs] by (auto simp: vfs_step_def callback_step_def vfs_file_callback_def vfs_add_def)
  then show ?thesis using TFile f by auto
qed

lemma vfs_step_Inl: "fold (vfs_step m) vs (Inl x) = Inl x"
  by (induction vs) (auto simp: vfs_step_def callback_step_def split: sum.split)

definition items :: "u8 list list list \<Rightarrow> 'k list \<Rightarrow> (u8 list list \<times> 'k) list" where
  "items css ks = filter (\<lambda>(cs, _). cs \<noteq> []) (zip css ks)"

lemma vfs_steps:
  "list_all2 (seen m) vs es \<Longrightarrow> list_all2 (\<lambda>e cs. CleanPath (entry_path e) = Inr (path_str cs) \<and> (cs = [] \<or> path_ok cs)) es css \<Longrightarrow>
    \<exists>ks. list_all2 (entry_kind m) ks es \<and> (\<forall>root. fold (vfs_step m) vs (Inr root) = add_all vfs_add (items css ks) root)"
proof (induction vs es arbitrary: css rule: list_all2_induct)
  case Nil
  then show ?case by (simp add: items_def)
next
  case (Cons v vs e es)
  then obtain cs css' where css: "css = cs # css'" "CleanPath (entry_path e) = Inr (path_str cs)" "cs = [] \<or> path_ok cs"
    "list_all2 (\<lambda>e cs. CleanPath (entry_path e) = Inr (path_str cs) \<and> (cs = [] \<or> path_ok cs)) es css'"
    by (auto simp: list_all2_Cons1)
  from vfs_step_add [OF Cons.hyps(1) css(2,3)] obtain k where k: "entry_kind m k e" "\<And>root. vfs_step m v (Inr root) = (if cs = [] then Inr root else vfs_add cs k root)" by blast
  from Cons.IH [OF css(4)] obtain ks where ks: "list_all2 (entry_kind m) ks es" "\<And>root. fold (vfs_step m) vs (Inr root) = add_all vfs_add (items css' ks) root" by blast
  have "fold (vfs_step m) (v # vs) (Inr root) = add_all vfs_add (items css (k # ks)) root" for root
    using k(2) ks(2) vfs_step_Inl [of m vs] css(1) by (cases "vfs_add cs k root") (auto simp: items_def)
  then show ?case using k(1) ks(1) by (intro exI [of _ "k # ks"]) simp
qed

lemma shape_items: "list_all2 (entry_kind m) ks es \<Longrightarrow> shape (items css ks) = items css (map is_file_entry es)"
proof (induction ks es arbitrary: css rule: list_all2_induct)
  case (Cons k ks e es)
  then show ?case by (cases css) (auto simp: items_def shape_def dest: entry_kind_file)
qed (simp add: items_def shape_def)

lemma InitVFS_finds:
  assumes "bytes_at m a (length bs) = bs" "is_archive es bs \<and> no_empty_file es" "cstr m lit ustar_magic" "length es < fuel"
    and "list_all2 (\<lambda>e cs. CleanPath (entry_path e) = Inr (path_str cs) \<and> (cs = [] \<or> clean cs)) es css"
    and "in_order [] (items css (map is_file_entry es))"
  shows "\<exists>root. InitVFS fuel m lit [] a = Inr root \<and> (\<forall>s i. gGlobalFs s = Some root \<and> i < length es \<and> css ! i \<noteq> [] \<longrightarrow>
    (\<exists>p n. GetNodeFromAbsPath s (kPathSep # path_str (css ! i)) = Inr (Some p) \<and> node_at root p = Some n \<and> entry_kind m (kind n) (es ! i)))"
proof -
  obtain vs where vs: "list_all2 (seen m) vs es" "\<And>dircb filecb (x :: vnode list result). ustar_loop fuel m lit dircb filecb a x =
      Inr (a + word_of_nat (length bs - 1024), fold (callback_step dircb filecb) vs x)"
    using ustar_walk [OF assms(1-3), where ?'a = "vnode list result"] assms(4) by (elim exE conjE) (rule, assumption, simp)
  have "list_all2 (\<lambda>e cs. CleanPath (entry_path e) = Inr (path_str cs) \<and> (cs = [] \<or> path_ok cs)) es css"
    using assms(5) by (rule list_all2_mono) (auto simp: clean_def)
  from vfs_steps [OF vs(1) this] obtain ks where ks: "list_all2 (entry_kind m) ks es"
    "\<And>root. fold (vfs_step m) vs (Inr root) = add_all vfs_add (items css ks) root" by blast
  have "holds (tree_map []) []" by (simp add: holds_def tree_map_empty)
  moreover have "in_order (shape ([] :: (u8 list list \<times> (u32 \<times> u32) option) list)) (shape (items css ks))" using assms(6) shape_items [OF ks(1)] by (simp add: shape_def)
  ultimately obtain root where root: "add_all vfs_add (items css ks) [] = Inr root" "\<forall>(cs, k) \<in> set (items css ks). tree_map root cs = Some k"
    using vfs.add_all_in_order [of "[]" "[]" "items css ks"] by auto
  have "InitVFS fuel m lit [] a = Inr root"
    unfolding InitVFS_def IterateUSTAR_def vs(2) bindr.simps prod.case using ks(2) [of "[]"] root(1) by (simp add: vfs_step_def)
  moreover have "\<exists>p n. GetNodeFromAbsPath s (kPathSep # path_str (css ! i)) = Inr (Some p) \<and> node_at root p = Some n \<and> entry_kind m (kind n) (es ! i)"
    if "gGlobalFs s = Some root" "i < length es" "css ! i \<noteq> []" for s i
  proof -
    have len: "length css = length es" "length ks = length es" using assms(5) ks(1) by (simp_all add: list_all2_lengthD)
    have "(css ! i, ks ! i) \<in> set (items css ks)" using that len by (auto simp: items_def set_zip)
    then have t: "tree_map root (css ! i) = Some (ks ! i)" using root(2) by auto
    have "clean (css ! i)" using list_all2_nthD [OF assms(5) that(2)] that(3) by auto
    from GetNodeFromAbsPath_clean [OF this that(1)] obtain q where q: "GetNodeFromAbsPath s (kPathSep # path_str (css ! i)) = Inr q"
      "tree_map root (css ! i) = (case q of None \<Rightarrow> None | Some p \<Rightarrow> map_option kind (node_at root p))" by blast
    with t obtain p where "q = Some p" "map_option kind (node_at root p) = Some (ks ! i)" by (cases q) auto
    with q(1) show ?thesis using list_all2_nthD2 [OF ks(1) that(2)] by auto
  qed
  ultimately show ?thesis by blast
qed

text \<open>A process that starts finds the files of the archive it was given: when the archive holds no empty file, lists no directory behind its contents and no path twice or
  below a file, \<open>InitVFS\<close> succeeds, and every entry is found under its absolute path, a file with the address and the length of its content.\<close>

theorem vfs_init_lookup:
  assumes "bytes_at m a (length bs) = bs" "is_archive es bs \<and> no_empty_file es" "cstr m lit ustar_magic" "length es < fuel"
    and "list_all2 (\<lambda>e cs. CleanPath (entry_path e) = Inr (path_str cs) \<and> (cs = [] \<or> clean cs)) es css"
    and "in_order [] (items css (map is_file_entry es))"
  shows "\<exists>root. InitVFS fuel m lit [] a = Inr root \<and> (\<forall>s i. gGlobalFs s = Some root \<and> i < length es \<and> css ! i \<noteq> [] \<longrightarrow>
    (\<exists>p n. GetNodeFromAbsPath s (kPathSep # path_str (css ! i)) = Inr (Some p) \<and> node_at root p = Some n \<and> entry_kind m (kind n) (es ! i)))"
  by (rule InitVFS_finds [OF assms])

theorem vfs_init_lookup_witness:
  "\<exists>root p n. InitVFS 3 example_tar 0x10000 [] 0 = Inr root
     \<and> GetNodeFromAbsPath \<lparr>gGlobalFs = Some root, gCurrentDir = Some [], gEnvp = []\<rparr> [0x2F, 0x64, 0x66] = Inr (Some p) \<and> node_at root p = Some n
     \<and> (\<exists>d. kind n = Some (d, 2) \<and> bytes_at example_tar d 2 = [0x41, 0x42])"
proof -
  let ?css = "[[[0x64]], [[0x64, 0x66]]] :: u8 list list list"
  have f: "length example_entries < 3" by (simp add: example_entries_def)
  have c: "clean [[0x64]]" "clean [[0x64, 0x66]]" by (simp_all add: clean_def path_ok_def name_ok_def kPathSep_def isspace_def npos_def)
  then have p: "list_all2 (\<lambda>e cs. CleanPath (entry_path e) = Inr (path_str cs) \<and> (cs = [] \<or> clean cs)) example_entries ?css"
    using clean_CleanPath(1) [OF c(1)] clean_CleanPath(1) [OF c(2)] by (simp add: example_entries_def)
  have o: "in_order [] (items ?css (map is_file_entry example_entries))"
    using c by (simp add: items_def example_entries_def clean_def)
  from vfs_init_lookup [OF example_tar_bytes example_archive_ok(1) example_tar_magic f p o] obtain root where root: "InitVFS 3 example_tar 0x10000 [] 0 = Inr root"
    "\<forall>s i. gGlobalFs s = Some root \<and> i < length example_entries \<and> ?css ! i \<noteq> [] \<longrightarrow>
    (\<exists>p n. GetNodeFromAbsPath s (kPathSep # path_str (?css ! i)) = Inr (Some p) \<and> node_at root p = Some n \<and> entry_kind example_tar (kind n) (example_entries ! i))" by blast
  have two: "unat (sz :: u32) = Suc (Suc 0) \<Longrightarrow> sz = 2" for sz by (simp add: word_unat_eq_iff)
  from root(2) [rule_format, of "\<lparr>gGlobalFs = Some root, gCurrentDir = Some [], gEnvp = []\<rparr>" 1] root(1) show ?thesis
    by (auto simp: example_entries_def kPathSep_def numeral_2_eq_2 dest!: two)
qed

text \<open>The path \<open>/\<close> is the root.\<close>

lemma GetNodeFromPath_root:
  assumes "gGlobalFs s = Some root"
  shows "GetNodeFromPath fuel s [kPathSep] = Inr (Some [])"
proof -
  have "CleanPath [kPathSep] = Inr [kPathSep]" using sep_no_space by (simp add: CleanPath_def rstrip_stop lstrip_stop)
  then show ?thesis using assms by (simp add: GetNodeFromPath_def GetNodeFromAbsPath_def IsAbsPath_def chr_at_def)
qed

section \<open>The search path\<close>

text \<open>A relative path is looked up in the directories of \<open>PATH\<close> only when \<open>PATH\<close> names a single one. With a separator in it, the lookup of a name
  that the first directory does not have and that is not below the directory the second turn looks at (the text from the separator on, cut to the
  length of the first entry) never ends.\<close>

theorem path_env_diverges:
  assumes "path_env = d @ kPathEnvSep # rest" "kPathEnvSep \<notin> set d" "d \<noteq> []" "length path_env < npos"
    and "GetDirFromPathEnv s d = Inr r1" "\<And>p. r1 = Some p \<Longrightarrow> search_dir (the_fs s) path p = Inr None"
    and "GetDirFromPathEnv s (take (length d) (kPathEnvSep # rest)) = Inr r2" "\<And>p. r2 = Some p \<Longrightarrow> search_dir (the_fs s) path p = Inr None"
  shows "path_env_loop fuel s path path_env 0 = Inl Out_of_fuel"
proof -
  let ?n = "length d"
  have f: "find_chr path_env kPathEnvSep 0 = Inr ?n" "find_chr path_env kPathEnvSep ?n = Inr ?n"
    using assms(1,2) by (simp_all add: find_chr_def index_of_append)
  have sb: "sub_chars path_env 0 ?n = Inr d" "sub_chars path_env ?n ?n = Inr (take ?n (kPathEnvSep # rest))" using assms(1) by (simp_all add: sub_chars_def)
  have n: "?n < length path_env" using assms(1) by simp
  have m: "bindr (case r1 of None \<Rightarrow> Inr None | Some p \<Rightarrow> search_dir (the_fs s) path p) g = g None"
    "bindr (case r2 of None \<Rightarrow> Inr None | Some p \<Rightarrow> search_dir (the_fs s) path p) g = g None" for g :: "vptr option \<Rightarrow> vptr option result"
    using assms(6,8) by (cases r1; cases r2; simp)+
  have stay: "path_env_loop k s path path_env ?n = Inl Out_of_fuel" for k
  proof (induction k)
    case (Suc k)
    then show ?case unfolding path_env_loop.simps f(2) sb(2) bindr.simps assms(7) m using n by simp
  qed simp
  show ?thesis
  proof (cases fuel)
    case (Suc k)
    then show ?thesis unfolding Suc path_env_loop.simps f(1) sb(1) bindr.simps assms(5) m using stay n by auto
  qed simp
qed

text \<open>A process whose \<open>PATH\<close> is \<open>/a:/b\<close>, with an empty file system.\<close>

definition example_process :: libc_state where
  "example_process = \<lparr>gGlobalFs = Some [], gCurrentDir = Some [], gEnvp = [new_pair env_PATH [0x2F, 0x61, 0x3A, 0x2F, 0x62]]\<rparr>"

theorem path_env_diverges_witness:
  "path_env_loop 1000 example_process [0x6C, 0x73] [0x2F, 0x61, 0x3A, 0x2F, 0x62] 0 = Inl Out_of_fuel"
proof (rule path_env_diverges [where d = "[0x2F, 0x61]" and rest = "[0x2F, 0x62]" and ?r1.0 = None and ?r2.0 = None])
  show "GetDirFromPathEnv example_process [0x2F, 0x61] = Inr None"
    by (simp add: GetDirFromPathEnv_def GetNodeFromPath_plain_def GetNodeFromAbsPath_def IsAbsPath_def chr_at_def CleanPath_def InplaceLStrip_def
        InplaceRStrip_def rstrip_loop.simps isspace_def kPathSep_def erase_chars_def GetNodeFromRelPath_plain_def search_dir_def dir_nodes_def
        GetNodeFromRelPathImpl.simps find_chr_def npos_def the_fs_def example_process_def)
  show "GetDirFromPathEnv example_process (take (length [0x2F, 0x61 :: u8]) (kPathEnvSep # [0x2F, 0x62])) = Inr None"
    by (simp add: GetDirFromPathEnv_def GetNodeFromPath_plain_def IsAbsPath_def chr_at_def CleanPath_def InplaceLStrip_def
        InplaceRStrip_def rstrip_loop.simps isspace_def kPathSep_def GetNodeFromRelPath_plain_def search_dir_def dir_nodes_def
        GetNodeFromRelPathImpl.simps find_chr_def npos_def the_fs_def example_process_def kPathEnvSep_def)
qed (simp_all add: kPathEnvSep_def npos_def)


section \<open>The working directory\<close>

lemma Get_abs_path: "path_ok cs \<Longrightarrow> GetNodeFromRelPathImpl (path_str cs) ns = Inr (Some q) \<Longrightarrow> q \<noteq> [] \<and> abs_path_below ns q = kPathSep # path_str cs"
proof (induction cs arbitrary: ns q)
  case (Cons c cs)
  show ?case
  proof (cases "cs = []")
    case True
    then show ?thesis using Get_base [of c ns] Cons.prems getNode_Some [of ns c] by auto
  next
    case False
    with Get_step [OF False Cons.prems(1), of ns] Cons.prems(2) obtain i q' where q: "getDir ns c = Some i" "q = i # q'"
      "GetNodeFromRelPathImpl (path_str cs) (getNodes (ns ! i)) = Inr (Some q')" by (auto split: option.splits)
    have "getName (ns ! i) = c" using q(1) getNode_Some by (auto simp: getDir_Some)
    with Cons.IH [OF _ q(3)] path_ok_Cons [OF False Cons.prems(1)] q(2) False show ?thesis by (simp add: path_str_Cons)
  qed
qed (simp add: path_ok_def)

lemma GetNodeFromPath_find:
  assumes "clean cs" "gGlobalFs s = Some root"
  shows "\<exists>p. GetNodeFromPath fuel s (kPathSep # path_str cs) = Inr p \<and> GetNodeFromRelPathImpl (path_str cs) root = Inr p
    \<and> (case p of None \<Rightarrow> find_node cs root = None | Some q \<Rightarrow> q \<noteq> [] \<and> node_at root q = find_node cs root \<and> find_node cs root \<noteq> None)"
proof -
  have ok: "path_ok cs" using assms by (simp add: clean_def)
  from Get_find [OF ok, of root] obtain p where p: "GetNodeFromRelPathImpl (path_str cs) root = Inr p"
    "case p of None \<Rightarrow> find_node cs root = None | Some q \<Rightarrow> q \<noteq> [] \<and> node_at root q = find_node cs root \<and> find_node cs root \<noteq> None" by blast
  moreover have "GetNodeFromPath fuel s (kPathSep # path_str cs) = Inr p"
    using assms(2) p(1) path_ok_not_empty [OF ok]
    by (simp add: GetNodeFromPath_def GetNodeFromAbsPath_def clean_CleanPath [OF assms(1)] IsAbsPath_def chr_at_def erase_chars_def
        GetNodeFromRelPath_plain_def search_dir_def dir_nodes_def the_fs_def option.map_ident)
  ultimately show ?thesis by blast
qed

lemma GetNodeFromPath_clean:
  assumes "clean cs" "gGlobalFs s = Some root"
  shows "\<exists>p. GetNodeFromPath fuel s (kPathSep # path_str cs) = Inr p
    \<and> (case p of None \<Rightarrow> tree_map root cs = None
       | Some q \<Rightarrow> \<exists>n. node_at root q = Some n \<and> tree_map root cs = Some (kind n) \<and> getAbsPath root q = kPathSep # path_str cs)"
proof -
  have ok: "path_ok cs" using assms by (simp add: clean_def)
  from GetNodeFromPath_find [OF assms, of fuel] obtain p where p: "GetNodeFromPath fuel s (kPathSep # path_str cs) = Inr p" "GetNodeFromRelPathImpl (path_str cs) root = Inr p"
    "case p of None \<Rightarrow> find_node cs root = None | Some q \<Rightarrow> q \<noteq> [] \<and> node_at root q = find_node cs root \<and> find_node cs root \<noteq> None" by blast
  have "case p of None \<Rightarrow> tree_map root cs = None
       | Some q \<Rightarrow> \<exists>n. node_at root q = Some n \<and> tree_map root cs = Some (kind n) \<and> getAbsPath root q = kPathSep # path_str cs"
    using p(2,3) Get_abs_path [OF ok, of root] by (cases p) (auto simp: tree_map_def getAbsPath_def)
  with p(1) show ?thesis by blast
qed

lemma chdir_clean:
  assumes "clean cs" "gGlobalFs s = Some root"
  shows "(tree_map root cs = Some None \<longrightarrow> (\<exists>s'. chdir fuel s (kPathSep # path_str cs) = Inr (0, None, s') \<and> gGlobalFs s' = Some root
      \<and> map_option ev_val (getVal (gEnvp s') env_PWD) = Some (kPathSep # path_str cs)
      \<and> getcwd s' True sz = Inr (if sz = 0 then Inl EINVAL else if Suc (length (path_str cs)) < sz then Inr (kPathSep # path_str cs @ [0]) else Inl ERANGE)))
    \<and> (\<forall>f. tree_map root cs = Some (Some f) \<longrightarrow> chdir fuel s (kPathSep # path_str cs) = Inr (- 1, Some ENOTDIR, s))
    \<and> (tree_map root cs = None \<longrightarrow> chdir fuel s (kPathSep # path_str cs) = Inr (- 1, Some ENOENT, s))"
proof -
  from GetNodeFromPath_clean [OF assms, of fuel] obtain p where p: "GetNodeFromPath fuel s (kPathSep # path_str cs) = Inr p"
    "case p of None \<Rightarrow> tree_map root cs = None
       | Some q \<Rightarrow> \<exists>n. node_at root q = Some n \<and> tree_map root cs = Some (kind n) \<and> getAbsPath root q = kPathSep # path_str cs" by blast
  show ?thesis
  proof (cases p)
    case None
    then show ?thesis using p by (simp add: chdir_def)
  next
    case (Some q)
    with p(2) obtain n where n: "node_at root q = Some n" "tree_map root cs = Some (kind n)" "getAbsPath root q = kPathSep # path_str cs" by auto
    have fs: "the_fs s = root" using assms(2) by (simp add: the_fs_def)
    show ?thesis
    proof (cases "isFile n")
      case True
      then show ?thesis using p(1) Some n fs kind_None [of n] by (auto simp: chdir_def get_node_def isDir_def)
    next
      case False
      let ?s = "SetCurrentDir s q"
      have "chdir fuel s (kPathSep # path_str cs) = Inr (0, None, ?s)" using False p(1) Some n fs by (simp add: chdir_def get_node_def isDir_def)
      moreover have "map_option ev_val (getVal (gEnvp ?s) env_PWD) = Some (kPathSep # path_str cs)"
        using n(3) fs by (auto simp: SetCurrentDir_def getVal_setVal new_pair_def split: option.split)
      moreover have "getcwd ?s True sz = Inr (if sz = 0 then Inl EINVAL else if Suc (length (path_str cs)) < sz then Inr (kPathSep # path_str cs @ [0]) else Inl ERANGE)"
        using n(3) fs by (auto simp: getcwd_def SetCurrentDir_def the_fs_def Let_def)
      ultimately show ?thesis using assms(2) n(2) False kind_None [of n] by (auto simp: SetCurrentDir_def)
    qed
  qed
qed

text \<open>\<open>chdir\<close> to the absolute path of a directory makes it the working directory: \<open>PWD\<close> is set to the path, and \<open>getcwd\<close> writes it with a terminator or
  answers \<open>ERANGE\<close> when the buffer is too short. For the path of a file it fails with \<open>ENOTDIR\<close>, for any other with \<open>ENOENT\<close>, and nothing changes.\<close>

theorem chdir_getcwd:
  assumes "clean cs" "gGlobalFs s = Some root"
  shows "(tree_map root cs = Some None \<longrightarrow> (\<exists>s'. chdir fuel s (kPathSep # path_str cs) = Inr (0, None, s') \<and> gGlobalFs s' = Some root
      \<and> map_option ev_val (getVal (gEnvp s') env_PWD) = Some (kPathSep # path_str cs)
      \<and> getcwd s' True sz = Inr (if sz = 0 then Inl EINVAL else if Suc (length (path_str cs)) < sz then Inr (kPathSep # path_str cs @ [0]) else Inl ERANGE)))
    \<and> (\<forall>f. tree_map root cs = Some (Some f) \<longrightarrow> chdir fuel s (kPathSep # path_str cs) = Inr (- 1, Some ENOTDIR, s))
    \<and> (tree_map root cs = None \<longrightarrow> chdir fuel s (kPathSep # path_str cs) = Inr (- 1, Some ENOENT, s))"
  by (rule chdir_clean [OF assms])

theorem chdir_getcwd_witness:
  "\<exists>s'. chdir 0 \<lparr>gGlobalFs = Some [Dir [0x62] []], gCurrentDir = Some [], gEnvp = []\<rparr> [0x2F, 0x62] = Inr (0, None, s') \<and> getcwd s' True 3 = Inr (Inr [0x2F, 0x62, 0])"
proof -
  have c: "clean [[0x62]]" by (simp add: clean_def path_ok_def name_ok_def kPathSep_def isspace_def npos_def)
  from chdir_getcwd [OF c, of "\<lparr>gGlobalFs = Some [Dir [0x62] []], gCurrentDir = Some [], gEnvp = []\<rparr>" "[Dir [0x62] []]" 0 3] show ?thesis
    by (auto simp: tree_map_Cons kPathSep_def)
qed

end
