(* ===== verification/Elf.thy ===== *)
theory Elf
  imports ByteMem
begin

text \<open>
  ELF files, \<open>src/libc/include/libc/elf/elf.h\<close> and the helpers of \<open>src/libc/elf.cpp\<close>: the structures as they are read from memory, \<open>ElfModule\<close>, the loop of
  \<open>LoadElfProgram\<close> that copies the segments, the dynamic section and \<open>Relocator\<close>. \<open>Elf32_Word\<close> is a signed type in this code, so sizes are compared as signed
  numbers. Loops over tables that a file does not end have fuel.
\<close>

section \<open>Structures\<close>

definition rd16 :: "bmem \<Rightarrow> u32 \<Rightarrow> u16" where
  "rd16 m a = ucast (m a) OR push_bit 8 (ucast (m (a + 1)))"

record Elf32_Ehdr =
  e_ident :: "u8 list"
  e_type :: u16
  e_machine :: u16
  e_version :: u32
  e_entry :: u32
  e_phoff :: u32
  e_shoff :: u32
  e_flags :: u32
  e_ehsize :: u16
  e_phentsize :: u16
  e_phnum :: u16
  e_shentsize :: u16
  e_shnum :: u16
  e_shstrndx :: u16

definition read_Ehdr :: "bmem \<Rightarrow> u32 \<Rightarrow> Elf32_Ehdr" where
  "read_Ehdr m a = \<lparr>e_ident = bytes_at m a 16, e_type = rd16 m (a + 16), e_machine = rd16 m (a + 18), e_version = rd32 m (a + 20),
     e_entry = rd32 m (a + 24), e_phoff = rd32 m (a + 28), e_shoff = rd32 m (a + 32), e_flags = rd32 m (a + 36), e_ehsize = rd16 m (a + 40),
     e_phentsize = rd16 m (a + 42), e_phnum = rd16 m (a + 44), e_shentsize = rd16 m (a + 46), e_shnum = rd16 m (a + 48), e_shstrndx = rd16 m (a + 50)\<rparr>"

record Elf32_Phdr =
  p_type :: u32
  p_offset :: u32
  p_vaddr :: u32
  p_paddr :: u32
  p_filesz :: u32
  p_memsz :: u32
  p_flags :: u32
  p_align :: u32

definition read_Phdr :: "bmem \<Rightarrow> u32 \<Rightarrow> Elf32_Phdr" where
  "read_Phdr m a = \<lparr>p_type = rd32 m a, p_offset = rd32 m (a + 4), p_vaddr = rd32 m (a + 8), p_paddr = rd32 m (a + 12),
     p_filesz = rd32 m (a + 16), p_memsz = rd32 m (a + 20), p_flags = rd32 m (a + 24), p_align = rd32 m (a + 28)\<rparr>"

definition PT_LOAD :: u32 where "PT_LOAD = 1"
definition PT_DYNAMIC :: u32 where "PT_DYNAMIC = 2"

record Elf32_Shdr =
  sh_name :: u32
  sh_type :: u32
  sh_flags :: u32
  sh_addr :: u32
  sh_offset :: u32
  sh_size :: u32
  sh_link :: u32
  sh_info :: u32
  sh_addralign :: u32
  sh_entsize :: u32

definition read_Shdr :: "bmem \<Rightarrow> u32 \<Rightarrow> Elf32_Shdr" where
  "read_Shdr m a = \<lparr>sh_name = rd32 m a, sh_type = rd32 m (a + 4), sh_flags = rd32 m (a + 8), sh_addr = rd32 m (a + 12), sh_offset = rd32 m (a + 16),
     sh_size = rd32 m (a + 20), sh_link = rd32 m (a + 24), sh_info = rd32 m (a + 28), sh_addralign = rd32 m (a + 32), sh_entsize = rd32 m (a + 36)\<rparr>"

record Elf32_Dyn =
  d_tag :: u32
  d_un :: u32

definition read_Dyn :: "bmem \<Rightarrow> u32 \<Rightarrow> Elf32_Dyn" where
  "read_Dyn m a = \<lparr>d_tag = rd32 m a, d_un = rd32 m (a + 4)\<rparr>"

record Elf32_Rel =
  r_offset :: u32
  r_info :: u32

definition read_Rel :: "bmem \<Rightarrow> u32 \<Rightarrow> Elf32_Rel" where
  "read_Rel m a = \<lparr>r_offset = rd32 m a, r_info = rd32 m (a + 4)\<rparr>"

definition ELF32_R_SYM :: "u32 \<Rightarrow> u32" where "ELF32_R_SYM i = signed_drop_bit 8 i"
definition ELF32_R_TYPE :: "u32 \<Rightarrow> u8" where "ELF32_R_TYPE i = ucast i"
definition R_386_RELATIVE :: u8 where "R_386_RELATIVE = 8"

definition DT_NULL :: u32 where "DT_NULL = 0"
definition DT_STRTAB :: u32 where "DT_STRTAB = 5"
definition DT_SYMTAB :: u32 where "DT_SYMTAB = 6"
definition DT_STRSZ :: u32 where "DT_STRSZ = 10"
definition DT_SYMENT :: u32 where "DT_SYMENT = 11"
definition DT_RPATH :: u32 where "DT_RPATH = 15"
definition DT_REL :: u32 where "DT_REL = 17"
definition DT_RELSZ :: u32 where "DT_RELSZ = 18"
definition DT_RELENT :: u32 where "DT_RELENT = 19"
definition DT_DEBUG :: u32 where "DT_DEBUG = 21"
definition DT_JMPREL :: u32 where "DT_JMPREL = 23"
definition DT_FLAGS :: u32 where "DT_FLAGS = 30"
definition DT_GNU_HASH :: u32 where "DT_GNU_HASH = 0x6FFFFEF5"
definition DT_RELCOUNT :: u32 where "DT_RELCOUNT = 0x6FFFFFFA"
definition DT_FLAGS_1 :: u32 where "DT_FLAGS_1 = 0x6FFFFFFB"
definition DF_1_PIE :: u32 where "DF_1_PIE = 0x8000000"

section \<open>ElfModule\<close>

definition elf_kMinAlign :: u32 where "elf_kMinAlign = 4"

definition IsValidElf :: "Elf32_Ehdr \<Rightarrow> bool" where
  "IsValidElf hdr \<longleftrightarrow> e_ident hdr ! 0 = 0x7F \<and> e_ident hdr ! 1 = 0x45 \<and> e_ident hdr ! 2 = 0x4C \<and> e_ident hdr ! 3 = 0x46"

definition new_ElfModule :: "bmem \<Rightarrow> u32 \<Rightarrow> u32 result" where
  "new_ElfModule m elf_data = check (elf_data mod elf_kMinAlign = 0) (check (IsValidElf (read_Ehdr m elf_data)) (Inr elf_data))"

definition getProgHdr :: "bmem \<Rightarrow> u32 \<Rightarrow> nat \<Rightarrow> Elf32_Phdr" where
  "getProgHdr m elf_data i = read_Phdr m (elf_data + e_phoff (read_Ehdr m elf_data) + 32 * word_of_nat i)"

definition section_hdr_at :: "bmem \<Rightarrow> u32 \<Rightarrow> nat \<Rightarrow> u32" where
  "section_hdr_at m elf_data i = elf_data + e_shoff (read_Ehdr m elf_data) + 40 * word_of_nat i"

definition getStrTabHdr :: "bmem \<Rightarrow> u32 \<Rightarrow> Elf32_Shdr" where
  "getStrTabHdr m elf_data = read_Shdr m (section_hdr_at m elf_data (unat (e_shstrndx (read_Ehdr m elf_data))))"

definition getSectionHdrStrTab :: "bmem \<Rightarrow> u32 \<Rightarrow> u32" where
  "getSectionHdrStrTab m elf_data = elf_data + sh_offset (getStrTabHdr m elf_data)"

text \<open>The address of the header of a section, 0 for none; \<open>strcmp\<close> may not return.\<close>

fun section_loop :: "bmem \<Rightarrow> u32 \<Rightarrow> u32 \<Rightarrow> nat list \<Rightarrow> u32 option" where
  "section_loop m elf_data section_name [] = Some 0"
| "section_loop m elf_data section_name (i # is) =
     (let hdr = section_hdr_at m elf_data i; name = getSectionHdrStrTab m elf_data + sh_name (read_Shdr m hdr) in
      case strcmp m section_name name of None \<Rightarrow> None
      | Some d \<Rightarrow> if d = 0 then Some hdr else section_loop m elf_data section_name is)"

definition getSectionHdr :: "bmem \<Rightarrow> u32 \<Rightarrow> u32 \<Rightarrow> u32 option" where
  "getSectionHdr m elf_data section_name = section_loop m elf_data section_name [0..<unat (e_shnum (read_Ehdr m elf_data))]"

definition getSection :: "bmem \<Rightarrow> u32 \<Rightarrow> u32 \<Rightarrow> u32 option" where
  "getSection m elf_data section_name =
     map_option (\<lambda>hdr. if hdr \<noteq> 0 then elf_data + sh_offset (read_Shdr m hdr) else 0) (getSectionHdr m elf_data section_name)"

record Elf32_Sym =
  st_name :: u32
  st_value :: u32
  st_size :: u32
  st_info :: u8
  st_other :: u8
  st_shndx :: u16

definition read_Sym :: "bmem \<Rightarrow> u32 \<Rightarrow> Elf32_Sym" where
  "read_Sym m a = \<lparr>st_name = rd32 m a, st_value = rd32 m (a + 4), st_size = rd32 m (a + 8), st_info = m (a + 12), st_other = m (a + 13), st_shndx = rd16 m (a + 14)\<rparr>"

text \<open>The literals \<open>".symtab"\<close> and \<open>".strtab"\<close> are at the addresses \<open>lit_symtab\<close> and \<open>lit_strtab\<close>.\<close>

fun symbol_loop :: "bmem \<Rightarrow> u32 \<Rightarrow> u32 \<Rightarrow> u32 \<Rightarrow> u32 \<Rightarrow> nat list \<Rightarrow> u32 option" where
  "symbol_loop m elf_data lit_strtab symbol_name symtab [] = Some 0"
| "symbol_loop m elf_data lit_strtab symbol_name symtab (i # is) =
     (let symbol = symtab + 16 * word_of_nat i in
      case getSection m elf_data lit_strtab of None \<Rightarrow> None
      | Some strtab \<Rightarrow> (case strcmp m symbol_name (strtab + st_name (read_Sym m symbol)) of None \<Rightarrow> None
        | Some d \<Rightarrow> if d = 0 then Some symbol else symbol_loop m elf_data lit_strtab symbol_name symtab is))"

definition getSymbol :: "bmem \<Rightarrow> u32 \<Rightarrow> u32 \<Rightarrow> u32 \<Rightarrow> u32 \<Rightarrow> u32 option result" where
  "getSymbol m elf_data lit_symtab lit_strtab symbol_name =
     (case (getSection m elf_data lit_symtab, getSectionHdr m elf_data lit_symtab) of
        (Some symtab, Some hdr) \<Rightarrow>
          if symtab = 0 then Inr (Some 0)
          else let symtab_size = sh_size (read_Shdr m hdr) in
            check (symtab_size mod 16 = 0) (Inr (symbol_loop m elf_data lit_strtab symbol_name symtab [0..<unat (symtab_size div 16)]))
      | _ \<Rightarrow> Inr None)"

definition getSymbolIndex :: "bmem \<Rightarrow> u32 \<Rightarrow> u32 \<Rightarrow> u32 \<Rightarrow> u32 option" where
  "getSymbolIndex m elf_data lit_symtab symbol = map_option (\<lambda>symtab. (symbol - symtab) div 16) (getSection m elf_data lit_symtab)"

section \<open>Segments\<close>

definition load_segment :: "bmem \<Rightarrow> u32 \<Rightarrow> u32 \<Rightarrow> Elf32_Phdr \<Rightarrow> bmem" where
  "load_segment m elf_data load_addr segment =
     (if p_type segment \<noteq> PT_LOAD then m
      else let dst = load_addr + p_vaddr segment; src = elf_data + p_offset segment in
        if sint (p_memsz segment) > sint (p_filesz segment)
        then let cpy_size = p_filesz segment in
          memset (memcpy_bytes m dst src (unat cpy_size)) (dst + cpy_size) 0 (unat (p_memsz segment - cpy_size))
        else memcpy_bytes m dst src (unat (p_memsz segment)))"

fun load_segments :: "bmem \<Rightarrow> u32 \<Rightarrow> u32 \<Rightarrow> nat list \<Rightarrow> bmem" where
  "load_segments m elf_data load_addr [] = m"
| "load_segments m elf_data load_addr (i # is) = load_segments (load_segment m elf_data load_addr (getProgHdr m elf_data i)) elf_data load_addr is"

section \<open>Relocations\<close>

record Relocator =
  rel_addr :: u32
  rel_size :: u32
  rel_ent_size :: u32
  found_relocs :: bool

definition SaveRelocs :: "Relocator \<Rightarrow> u32 \<Rightarrow> u32 \<Rightarrow> u32 \<Rightarrow> Relocator result" where
  "SaveRelocs r addr sz ent = check (\<not> found_relocs r) (Inr \<lparr>rel_addr = addr, rel_size = sz, rel_ent_size = ent, found_relocs = True\<rparr>)"

fun reloc_loop :: "nat \<Rightarrow> bmem \<Rightarrow> u32 \<Rightarrow> u32 \<Rightarrow> u32 \<Rightarrow> u32 \<Rightarrow> bmem result" where
  "reloc_loop 0 m reloc fin this_proc_load_addr new_proc_load_addr = Inl Out_of_fuel"
| "reloc_loop (Suc fuel) m reloc fin this_proc_load_addr new_proc_load_addr =
     (let rel = read_Rel m reloc; dst = this_proc_load_addr + r_offset rel; sym = ELF32_R_SYM (r_info rel); type = ELF32_R_TYPE (r_info rel) in
      if type = R_386_RELATIVE
      then check (sym = 0)
        (let m' = wr32 m dst (rd32 m dst + new_proc_load_addr); reloc' = reloc + 8 in
         if reloc' < fin then reloc_loop fuel m' reloc' fin this_proc_load_addr new_proc_load_addr else Inr m')
      else Inl Trap)"

definition ApplyRelocs :: "nat \<Rightarrow> Relocator \<Rightarrow> bmem \<Rightarrow> u32 \<Rightarrow> u32 \<Rightarrow> u32 \<Rightarrow> bmem result" where
  "ApplyRelocs fuel r m elf_data this_proc_load_addr new_proc_load_addr =
     check (found_relocs r) (check (rel_ent_size r = 8) (check ((elf_data + rel_addr r) mod 4 = 0) (check (rel_size r > 0)
     (reloc_loop fuel m (elf_data + rel_addr r) (elf_data + rel_addr r + rel_size r) this_proc_load_addr new_proc_load_addr))))"

text \<open>What the loop over the dynamic section has seen. \<open>rel_count\<close> is not initialised in the code: its first value is a parameter.\<close>

record dyn_seen =
  ds_rel_addr :: "u32 option"
  ds_rel_size :: "u32 option"
  ds_rel_ent_size :: "u32 option"
  ds_flags :: "u32 option"
  ds_flags1 :: "u32 option"
  ds_rel_count :: "u32 option"

fun dynamic_loop :: "nat \<Rightarrow> bmem \<Rightarrow> u32 \<Rightarrow> dyn_seen \<Rightarrow> dyn_seen result" where
  "dynamic_loop 0 m dynamic s = Inl Out_of_fuel"
| "dynamic_loop (Suc fuel) m dynamic s =
     (let d = read_Dyn m dynamic; t = d_tag d; v = Some (d_un d); nxt = dynamic + 8 in
      if t = DT_NULL then Inr s
      else if t \<in> {DT_STRTAB, DT_SYMTAB, DT_SYMENT, DT_STRSZ, DT_RPATH, DT_DEBUG, DT_JMPREL, DT_GNU_HASH} then dynamic_loop fuel m nxt s
      else if t = DT_REL then dynamic_loop fuel m nxt (s\<lparr>ds_rel_addr := v\<rparr>)
      else if t = DT_RELSZ then dynamic_loop fuel m nxt (s\<lparr>ds_rel_size := v\<rparr>)
      else if t = DT_RELENT then dynamic_loop fuel m nxt (s\<lparr>ds_rel_ent_size := v\<rparr>)
      else if t = DT_RELCOUNT then dynamic_loop fuel m nxt (s\<lparr>ds_rel_count := v\<rparr>)
      else if t = DT_FLAGS_1 then dynamic_loop fuel m nxt (s\<lparr>ds_flags1 := v\<rparr>)
      else if t = DT_FLAGS then dynamic_loop fuel m nxt (s\<lparr>ds_flags := v\<rparr>)
      else Inl Trap)"

definition HandleDynamicSection :: "nat \<Rightarrow> u32 option \<Rightarrow> bmem \<Rightarrow> u32 \<Rightarrow> Relocator \<Rightarrow> Relocator result" where
  "HandleDynamicSection fuel rel_count0 m dynamic relocator =
     bindr (dynamic_loop fuel m dynamic \<lparr>ds_rel_addr = None, ds_rel_size = None, ds_rel_ent_size = None, ds_flags = None, ds_flags1 = None, ds_rel_count = rel_count0\<rparr>)
     (\<lambda>s.
      bindr (case ds_rel_addr s of None \<Rightarrow> Inr relocator
        | Some addr \<Rightarrow>
            (case (ds_rel_size s, ds_rel_ent_size s) of
               (Some sz, Some ent) \<Rightarrow>
                 check (0 \<le> sint sz) (check (0 \<le> sint ent)
                 (check (case ds_rel_count s of None \<Rightarrow> True | Some n \<Rightarrow> n * ent = sz) (SaveRelocs relocator addr sz ent)))
             | _ \<Rightarrow> Inl Assert_failed)) (\<lambda>r.
      check (case ds_flags1 s of None \<Rightarrow> True | Some f \<Rightarrow> f AND DF_1_PIE \<noteq> 0) (Inr r)))"

text \<open>The search for the dynamic segment.\<close>

fun find_dynamic :: "nat \<Rightarrow> u32 option \<Rightarrow> bmem \<Rightarrow> u32 \<Rightarrow> nat list \<Rightarrow> Relocator \<Rightarrow> Relocator result" where
  "find_dynamic fuel rel_count0 m elf_data [] relocator = Inr relocator"
| "find_dynamic fuel rel_count0 m elf_data (i # is) relocator =
     (if p_type (getProgHdr m elf_data i) = PT_DYNAMIC
      then HandleDynamicSection fuel rel_count0 m (elf_data + p_offset (getProgHdr m elf_data i)) relocator
      else find_dynamic fuel rel_count0 m elf_data is relocator)"


section \<open>The loaded image\<close>

definition seg_image :: "bmem \<Rightarrow> u32 \<Rightarrow> Elf32_Phdr \<Rightarrow> u8 list" where
  "seg_image m elf_data s =
     (if unat (p_filesz s) < unat (p_memsz s) then bytes_at m (elf_data + p_offset s) (unat (p_filesz s)) @ replicate (unat (p_memsz s) - unat (p_filesz s)) 0
      else bytes_at m (elf_data + p_offset s) (unat (p_memsz s)))"

definition seg_region :: "u32 \<Rightarrow> Elf32_Phdr \<Rightarrow> u32 set" where
  "seg_region load_addr s = (if p_type s = PT_LOAD then region (load_addr + p_vaddr s) (unat (p_memsz s)) else {})"

text \<open>A file of \<open>len\<close> bytes at \<open>elf_data\<close> whose loadable segments fit a block of \<open>room\<close> bytes at \<open>load_addr\<close>, apart from the file.\<close>

definition loadable :: "bmem \<Rightarrow> u32 \<Rightarrow> nat \<Rightarrow> u32 \<Rightarrow> nat \<Rightarrow> bool" where
  "loadable m elf_data len load_addr room \<longleftrightarrow>
     unat elf_data + len < 4294967296 \<and> unat load_addr + room < 4294967296 \<and> (unat elf_data + len \<le> unat load_addr \<or> unat load_addr + room \<le> unat elf_data)
     \<and> 52 \<le> len \<and> unat (e_phoff (read_Ehdr m elf_data)) + 32 * unat (e_phnum (read_Ehdr m elf_data)) \<le> len
     \<and> (\<forall>i < unat (e_phnum (read_Ehdr m elf_data)). let s = getProgHdr m elf_data i in p_type s = PT_LOAD \<longrightarrow>
          0 \<le> sint (p_filesz s) \<and> 0 \<le> sint (p_memsz s) \<and> unat (p_vaddr s) + unat (p_memsz s) \<le> room \<and> unat (p_offset s) + unat (p_filesz s) \<le> len)
     \<and> (\<forall>i < unat (e_phnum (read_Ehdr m elf_data)). \<forall>j < i. seg_region load_addr (getProgHdr m elf_data i) \<inter> seg_region load_addr (getProgHdr m elf_data j) = {})"

lemma sint_unat: "0 \<le> sint (w :: u32) \<Longrightarrow> sint w = int (unat w)"
  using sint_lt [of w] uint_sint [of w] by (simp add: take_bit_int_eq_self)

lemma length_seg_image [simp]: "length (seg_image m elf_data s) = unat (p_memsz s)"
  by (simp add: seg_image_def)

lemma load_segment_eq:
  assumes s: "p_type s = PT_LOAD" "0 \<le> sint (p_filesz s)" "0 \<le> sint (p_memsz s)"
    and elf: "unat elf_data + len < 4294967296" "unat (p_offset s) + unat (p_filesz s) \<le> len"
    and page: "unat load_addr + room < 4294967296" "unat (p_vaddr s) + unat (p_memsz s) \<le> room"
    and apart: "unat elf_data + len \<le> unat load_addr \<or> unat load_addr + room \<le> unat elf_data"
  shows "load_segment m elf_data load_addr s = store_bytes m (load_addr + p_vaddr s) (seg_image m elf_data s)"
proof -
  let ?dst = "load_addr + p_vaddr s" and ?src = "elf_data + p_offset s"
  have u: "unat ?src = unat elf_data + unat (p_offset s)" "unat ?dst = unat load_addr + unat (p_vaddr s)" using elf page by (simp_all add: unat_add_u32)
  have cp: "memcpy_bytes m ?dst ?src n = store_bytes m ?dst (bytes_at m ?src n)" if "n \<le> unat (p_filesz s)" "n \<le> unat (p_memsz s)" for n
  proof (rule memcpy_store)
    show "n < 4294967296" using that(1) unat_lt_u32 [of "p_filesz s"] by simp
    have "x \<in> region ?src n \<longleftrightarrow> unat ?src \<le> unat x \<and> unat x < unat ?src + n" "x \<in> region ?dst n \<longleftrightarrow> unat ?dst \<le> unat x \<and> unat x < unat ?dst + n" for x
      using u that elf page by (simp_all add: region_nat)
    then show "region ?src n \<inter> region ?dst n = {}" using u that elf page apart by auto
  qed
  have lt: "sint (p_memsz s) > sint (p_filesz s) \<longleftrightarrow> unat (p_filesz s) < unat (p_memsz s)" unfolding sint_unat [OF s(2)] sint_unat [OF s(3)] by (simp only: of_nat_less_iff)
  show ?thesis
  proof (cases "unat (p_filesz s) < unat (p_memsz s)")
    case True
    then have "unat (p_memsz s - p_filesz s) = unat (p_memsz s) - unat (p_filesz s)" by (simp add: unat_sub word_le_nat_alt)
    then show ?thesis using True s(1) lt cp by (simp add: load_segment_def seg_image_def Let_def memset_store store_bytes_append)
  next
    case False
    then show ?thesis using s(1) lt cp by (simp add: load_segment_def seg_image_def Let_def)
  qed
qed

text \<open>Reading the headers needs the bytes of the file only.\<close>

lemma rd16_cong: "m a = m' a \<Longrightarrow> m (a + 1) = m' (a + 1) \<Longrightarrow> rd16 m a = rd16 m' a"
  by (simp add: rd16_def)

lemma read_file_cong:
  assumes "unat a + len < 4294967296" "\<And>x. x \<in> region a len \<Longrightarrow> m x = m' x"
  shows "i + 4 \<le> len \<Longrightarrow> rd32 m (a + word_of_nat i) = rd32 m' (a + word_of_nat i)"
    and "i + 2 \<le> len \<Longrightarrow> rd16 m (a + word_of_nat i) = rd16 m' (a + word_of_nat i)"
    and "i + n \<le> len \<Longrightarrow> bytes_at m (a + word_of_nat i) n = bytes_at m' (a + word_of_nat i) n"
proof -
  show "i + 4 \<le> len \<Longrightarrow> rd32 m (a + word_of_nat i) = rd32 m' (a + word_of_nat i)"
    by (rule rd32_cong, rule assms(2), rule region_sub [OF assms(1)])
  show "i + n \<le> len \<Longrightarrow> bytes_at m (a + word_of_nat i) n = bytes_at m' (a + word_of_nat i) n"
    by (rule bytes_at_cong, rule assms(2), rule region_sub [OF assms(1)]) (use assms(1) in simp_all)
  assume i: "i + 2 \<le> len"
  have "m (a + word_of_nat i) = m' (a + word_of_nat i)" "m (a + word_of_nat (i + 1)) = m' (a + word_of_nat (i + 1))"
    by (rule assms(2), rule in_region, use i assms(1) in simp, use assms(1) in simp)+
  then show "rd16 m (a + word_of_nat i) = rd16 m' (a + word_of_nat i)" by (intro rd16_cong) (simp_all add: ac_simps)
qed

lemma read_Ehdr_cong:
  assumes "unat a + len < 4294967296" "\<And>x. x \<in> region a len \<Longrightarrow> m x = m' x" "52 \<le> len"
  shows "read_Ehdr m a = read_Ehdr m' a"
proof -
  note c = read_file_cong [where m = m and m' = m', OF assms(1,2)]
  from c(3) [of 0 16] c(2) [of 16] c(2) [of 18] c(1) [of 20] c(1) [of 24] c(1) [of 28] c(1) [of 32] c(1) [of 36] c(2) [of 40] c(2) [of 42] c(2) [of 44] c(2) [of 46] c(2) [of 48] c(2) [of 50]
  show ?thesis using assms(3) by (simp add: read_Ehdr_def)
qed

lemma read_Phdr_cong:
  assumes "unat a + len < 4294967296" "\<And>x. x \<in> region a len \<Longrightarrow> m x = m' x" "i + 32 \<le> len"
  shows "read_Phdr m (a + word_of_nat i) = read_Phdr m' (a + word_of_nat i)"
proof -
  note c = read_file_cong [where m = m and m' = m', OF assms(1,2)]
  from c(1) [of i] c(1) [of "i + 4"] c(1) [of "i + 8"] c(1) [of "i + 12"] c(1) [of "i + 16"] c(1) [of "i + 20"] c(1) [of "i + 24"] c(1) [of "i + 28"]
  show ?thesis using assms(3) by (simp add: read_Phdr_def add.assoc)
qed

lemma getProgHdr_cong:
  assumes "unat a + len < 4294967296" "\<And>x. x \<in> region a len \<Longrightarrow> m x = m' x" "52 \<le> len"
    "unat (e_phoff (read_Ehdr m a)) + 32 * unat (e_phnum (read_Ehdr m a)) \<le> len" "i < unat (e_phnum (read_Ehdr m a))"
  shows "getProgHdr m a i = getProgHdr m' a i"
proof -
  let ?k = "unat (e_phoff (read_Ehdr m a)) + 32 * i"
  have e: "read_Ehdr m' a = read_Ehdr m a" using read_Ehdr_cong [OF assms(1-3)] by simp
  have ad: "a + e_phoff (read_Ehdr m a) + 32 * word_of_nat i = a + word_of_nat ?k" by (simp add: add.assoc)
  show ?thesis unfolding getProgHdr_def e ad by (rule read_Phdr_cong [OF assms(1,2)]) (use assms(4,5) in simp_all)
qed

text \<open>After the segments with the numbers \<open>is\<close> were copied, started on a memory \<open>m\<close> that has the file of \<open>m0\<close>.\<close>

lemma load_segments_image:
  assumes ok: "loadable m0 elf_data len load_addr room"
  shows "distinct is \<Longrightarrow> set is \<subseteq> {..<unat (e_phnum (read_Ehdr m0 elf_data))} \<Longrightarrow> (\<forall>x \<in> region elf_data len. m x = m0 x) \<Longrightarrow>
    (\<forall>x. (\<forall>i \<in> set is. x \<notin> seg_region load_addr (getProgHdr m0 elf_data i)) \<longrightarrow> load_segments m elf_data load_addr is x = m x)
    \<and> (\<forall>i \<in> set is. let s = getProgHdr m0 elf_data i in p_type s = PT_LOAD \<longrightarrow>
         bytes_at (load_segments m elf_data load_addr is) (load_addr + p_vaddr s) (unat (p_memsz s)) = seg_image m0 elf_data s)"
proof (induction "is" arbitrary: m)
  case (Cons i js)
  let ?s = "getProgHdr m0 elf_data i" and ?seg = "\<lambda>i. seg_region load_addr (getProgHdr m0 elf_data i)"
  let ?m1 = "load_segment m elf_data load_addr ?s"
  have i: "i < unat (e_phnum (read_Ehdr m0 elf_data))" "i \<notin> set js" "set js \<subseteq> {..<unat (e_phnum (read_Ehdr m0 elf_data))}" "distinct js"
    using Cons.prems by auto
  have bounds: "unat elf_data + len < 4294967296" "unat load_addr + room < 4294967296"
    "unat elf_data + len \<le> unat load_addr \<or> unat load_addr + room \<le> unat elf_data" using ok by (auto simp: loadable_def)
  have "getProgHdr m0 elf_data i = getProgHdr m elf_data i"
    by (rule getProgHdr_cong [OF bounds(1)]) (use ok i Cons.prems(3) in \<open>auto simp: loadable_def\<close>)
  then have step: "load_segments m elf_data load_addr (i # js) = load_segments ?m1 elf_data load_addr js" by simp
  have seg: "0 \<le> sint (p_filesz ?s) \<and> 0 \<le> sint (p_memsz ?s) \<and> unat (p_vaddr ?s) + unat (p_memsz ?s) \<le> room \<and> unat (p_offset ?s) + unat (p_filesz ?s) \<le> len"
    if "p_type ?s = PT_LOAD" using ok i(1) that by (auto simp: loadable_def Let_def)
  have img: "seg_image m elf_data ?s = seg_image m0 elf_data ?s" if "p_type ?s = PT_LOAD"
  proof -
    have "bytes_at m (elf_data + p_offset ?s) n = bytes_at m0 (elf_data + p_offset ?s) n" if "n \<le> unat (p_filesz ?s)" for n
      using read_file_cong(3) [OF bounds(1), of m m0 "unat (p_offset ?s)" n] Cons.prems(3) seg [OF \<open>p_type ?s = PT_LOAD\<close>] that by simp
    then show ?thesis by (simp add: seg_image_def)
  qed
  have store: "?m1 = store_bytes m (load_addr + p_vaddr ?s) (seg_image m0 elf_data ?s)" if "p_type ?s = PT_LOAD"
    using load_segment_eq [OF that _ _ bounds(1) _ bounds(2) _ bounds(3)] seg [OF that] img [OF that] by simp
  have m1: "?m1 x = m x" if "x \<notin> ?seg i" for x
  proof (cases "p_type ?s = PT_LOAD")
    case True
    then show ?thesis unfolding store [OF True] using that unat_lt_u32 [of "p_memsz ?s"] by (intro store_out) (simp_all add: seg_region_def)
  qed (simp add: load_segment_def)
  have out: "x \<notin> ?seg i" if "x \<in> region elf_data len" for x
  proof (cases "p_type ?s = PT_LOAD")
    case True
    have "unat (load_addr + p_vaddr ?s) = unat load_addr + unat (p_vaddr ?s)" using seg [OF True] bounds(2) by (subst unat_add_u32) simp_all
    then show ?thesis using that True seg [OF True] bounds by (auto simp: seg_region_def region_nat)
  qed (simp add: seg_region_def)
  have "\<forall>x \<in> region elf_data len. ?m1 x = m0 x" using m1 out Cons.prems(3) by simp
  note IH = Cons.IH [OF i(4,3) this]
  have disj: "?seg i \<inter> ?seg j = {}" if "j \<in> set js" for j
  proof -
    have D: "\<forall>i < unat (e_phnum (read_Ehdr m0 elf_data)). \<forall>j < i. ?seg i \<inter> ?seg j = {}" using ok by (simp add: loadable_def)
    have j: "j < unat (e_phnum (read_Ehdr m0 elf_data))" "j \<noteq> i" using that i by auto
    then consider "j < i" | "i < j" by linarith
    then show ?thesis
    proof cases
      case 2
      then have "?seg j \<inter> ?seg i = {}" using D j(1) by simp
      then show ?thesis by (simp add: Int_commute)
    qed (use D i(1) in simp)
  qed
  have "bytes_at (load_segments ?m1 elf_data load_addr js) (load_addr + p_vaddr ?s) (unat (p_memsz ?s)) = seg_image m0 elf_data ?s" if t: "p_type ?s = PT_LOAD"
  proof -
    have "bytes_at (load_segments ?m1 elf_data load_addr js) (load_addr + p_vaddr ?s) (unat (p_memsz ?s)) = bytes_at ?m1 (load_addr + p_vaddr ?s) (unat (p_memsz ?s))"
    proof (rule bytes_at_cong)
      fix x assume "x \<in> region (load_addr + p_vaddr ?s) (unat (p_memsz ?s))"
      then have "x \<in> ?seg i" using t by (simp add: seg_region_def)
      then have "\<forall>j \<in> set js. x \<notin> ?seg j" using disj by blast
      then show "load_segments ?m1 elf_data load_addr js x = ?m1 x" using IH by blast
    qed (use unat_lt_u32 [of "p_memsz ?s"] in simp)
    also have "\<dots> = seg_image m0 elf_data ?s" unfolding store [OF t]
      using bytes_at_store [of "seg_image m0 elf_data ?s" m "load_addr + p_vaddr ?s"] unat_lt_u32 [of "p_memsz ?s"] by simp
    finally show ?thesis .
  qed
  then show ?case unfolding step using IH m1 by (auto simp: Let_def)
qed simp

text \<open>C28: Loading an ELF file whose segments fit the page and do not overlap puts the bytes of every loadable segment at its virtual address in the page, with
  zeros behind the part that is in the file, and changes no byte outside the segments.\<close>

theorem elf_segments_loaded:
  assumes "loadable m elf_data len load_addr room"
  shows "(\<forall>i < unat (e_phnum (read_Ehdr m elf_data)). let s = getProgHdr m elf_data i in p_type s = PT_LOAD \<longrightarrow>
      bytes_at (load_segments m elf_data load_addr [0..<unat (e_phnum (read_Ehdr m elf_data))]) (load_addr + p_vaddr s) (unat (p_memsz s)) = seg_image m elf_data s)
    \<and> (\<forall>x. (\<forall>i < unat (e_phnum (read_Ehdr m elf_data)). x \<notin> seg_region load_addr (getProgHdr m elf_data i)) \<longrightarrow>
      load_segments m elf_data load_addr [0..<unat (e_phnum (read_Ehdr m elf_data))] x = m x)"
proof -
  let ?n = "unat (e_phnum (read_Ehdr m elf_data))"
  have "distinct [0..<?n]" "set [0..<?n] \<subseteq> {..<?n}" "\<forall>x \<in> region elf_data len. m x = m x" by auto
  note img = load_segments_image [OF assms this]
  have "i \<in> set [0..<?n] \<longleftrightarrow> i < ?n" for i by simp
  then show ?thesis using img by (simp only: Ball_def) blast
qed

text \<open>A file of 86 bytes with one segment of four bytes, two of them in the file.\<close>

definition example_elf :: bmem where
  "example_elf = wr32 (wr32 (wr32 (wr32 (wr32 (wr32 (\<lambda>a. if a = 0x1054 then 7 else if a = 0x1055 then 9 else 0)
     0x101C 52) 0x102C 1) 0x1034 1) 0x1038 84) 0x1044 2) 0x1048 4"

lemma example_elf_phnum: "e_phnum (read_Ehdr example_elf 0x1000) = 1"
  by code_simp

lemma example_elf_phoff: "e_phoff (read_Ehdr example_elf 0x1000) = 52"
  by code_simp

lemma example_elf_seg: "getProgHdr example_elf 0x1000 0 = \<lparr>p_type = 1, p_offset = 84, p_vaddr = 0, p_paddr = 0, p_filesz = 2, p_memsz = 4, p_flags = 0, p_align = 0\<rparr>"
  by code_simp

lemma example_elf_image: "seg_image example_elf 0x1000 \<lparr>p_type = 1, p_offset = 84, p_vaddr = 0, p_paddr = 0, p_filesz = 2, p_memsz = 4, p_flags = 0, p_align = 0\<rparr> = [7, 9, 0, 0]"
  by code_simp

theorem elf_segments_loaded_witness:
  "loadable example_elf 0x1000 86 0x2000 16 \<and> bytes_at (load_segments example_elf 0x1000 0x2000 [0]) 0x2000 4 = [7, 9, 0, 0]
   \<and> load_segments example_elf 0x1000 0x2000 [0] 0x1054 = 7"
proof -
  have l: "loadable example_elf 0x1000 86 0x2000 16"
    by (simp add: loadable_def example_elf_phnum example_elf_phoff example_elf_seg)
  have "(0x1054 :: u32) \<notin> seg_region 0x2000 (getProgHdr example_elf 0x1000 0)"
    by (simp add: example_elf_seg seg_region_def region_def PT_LOAD_def)
  moreover have "example_elf 0x1054 = 7" by code_simp
  ultimately show ?thesis using l elf_segments_loaded [OF l]
    by (simp add: example_elf_phnum example_elf_seg PT_LOAD_def example_elf_image)
qed

section \<open>Applied relocations\<close>

fun rels_at :: "bmem \<Rightarrow> u32 \<Rightarrow> Elf32_Rel list \<Rightarrow> bool" where
  "rels_at m a [] \<longleftrightarrow> True"
| "rels_at m a (r # rs) \<longleftrightarrow> read_Rel m a = r \<and> rels_at m (a + 8) rs"

definition relative :: "Elf32_Rel \<Rightarrow> bool" where
  "relative r \<longleftrightarrow> ELF32_R_TYPE (r_info r) = R_386_RELATIVE \<and> ELF32_R_SYM (r_info r) = 0"

definition rel_region :: "u32 \<Rightarrow> Elf32_Rel \<Rightarrow> u32 set" where
  "rel_region load_addr r = region (load_addr + r_offset r) 4"

fun apart_rels :: "u32 \<Rightarrow> Elf32_Rel list \<Rightarrow> bool" where
  "apart_rels load_addr [] \<longleftrightarrow> True"
| "apart_rels load_addr (r # rs) \<longleftrightarrow> (\<forall>r' \<in> set rs. rel_region load_addr r \<inter> rel_region load_addr r' = {}) \<and> apart_rels load_addr rs"

lemma rels_at_cong:
  "unat a + 8 * length rs < 4294967296 \<Longrightarrow> (\<And>x. x \<in> region a (8 * length rs) \<Longrightarrow> m x = m' x) \<Longrightarrow> rels_at m a rs \<longleftrightarrow> rels_at m' a rs"
proof (induction rs arbitrary: a)
  case (Cons r rs)
  have a8: "unat (a + 8) = unat a + 8" "unat (a + 4) = unat a + 4" using Cons.prems(1) by (subst unat_add_u32; simp)+
  have "read_Rel m a = read_Rel m' a" unfolding read_Rel_def
    by (rule arg_cong2 [where f = "\<lambda>x y. \<lparr>r_offset = x, r_info = y\<rparr>"]; rule rd32_cong; rule Cons.prems(2)) (use Cons.prems(1) a8 in \<open>auto simp: region_nat\<close>)
  moreover have "rels_at m (a + 8) rs \<longleftrightarrow> rels_at m' (a + 8) rs"
    by (rule Cons.IH; (rule Cons.prems(2))?) (use Cons.prems(1) a8 in \<open>auto simp: region_nat\<close>)
  ultimately show ?case by simp
qed simp

lemma reloc_loop_ok:
  "rels_at m a rs \<Longrightarrow> rs \<noteq> [] \<Longrightarrow> unat a + 8 * length rs < 4294967296 \<Longrightarrow> fin = a + word_of_nat (8 * length rs) \<Longrightarrow> \<forall>r \<in> set rs. relative r \<Longrightarrow>
   apart_rels load_addr rs \<Longrightarrow> \<forall>r \<in> set rs. rel_region load_addr r \<inter> region a (8 * length rs) = {} \<Longrightarrow> length rs \<le> fuel \<Longrightarrow>
   \<exists>m'. reloc_loop fuel m a fin load_addr new_addr = Inr m'
     \<and> (\<forall>r \<in> set rs. rd32 m' (load_addr + r_offset r) = rd32 m (load_addr + r_offset r) + new_addr)
     \<and> (\<forall>x. (\<forall>r \<in> set rs. x \<notin> rel_region load_addr r) \<longrightarrow> m' x = m x)"
proof (induction rs arbitrary: m a fuel)
  case (Cons r rs)
  let ?dst = "load_addr + r_offset r" let ?m1 = "wr32 m ?dst (rd32 m ?dst + new_addr)"
  obtain k where k: "fuel = Suc k" "length rs \<le> k" using Cons.prems(8) by (cases fuel) auto
  have r: "read_Rel m a = r" "relative r" using Cons.prems(1,5) by auto
  have a8: "unat (a + 8) = unat a + 8" using Cons.prems(3) by (subst unat_add_u32) simp_all
  have fin: "fin = a + 8 + word_of_nat (8 * length rs)" "unat fin = unat a + 8 + 8 * length rs"
    using Cons.prems(3,4) unat_add_u32 [of a "word_of_nat (8 * length (r # rs))"] unat_of_nat_u32 [of "8 * length (r # rs)"] by (simp_all add: add.assoc)
  have m1: "?m1 x = m x" if "x \<notin> rel_region load_addr r" for x using that by (intro wr32_out) (simp add: rel_region_def)
  have loop: "reloc_loop fuel m a fin load_addr new_addr = (if rs \<noteq> [] then reloc_loop k ?m1 (a + 8) fin load_addr new_addr else Inr ?m1)"
  proof -
    have "a + 8 < fin \<longleftrightarrow> rs \<noteq> []" using fin(2) a8 by (simp add: word_less_nat_alt)
    then show ?thesis using k r by (simp add: relative_def Let_def)
  qed
  have sub: "x \<in> region (a + 8) (8 * length rs) \<Longrightarrow> x \<in> region a (8 * length (r # rs))" for x
    using Cons.prems(3) a8 by (simp add: region_nat)
  show ?case
  proof (cases "rs = []")
    case True
    then show ?thesis using loop m1 by (auto simp: rd32_wr32)
  next
    case False
    have "rels_at ?m1 (a + 8) rs \<longleftrightarrow> rels_at m (a + 8) rs"
    proof (rule rels_at_cong)
      show "?m1 x = m x" if "x \<in> region (a + 8) (8 * length rs)" for x
        using sub [OF that] Cons.prems(7) by (intro m1) auto
    qed (use Cons.prems(3) a8 in simp)
    then have ra: "rels_at ?m1 (a + 8) rs" using Cons.prems(1) by simp
    have tb: "\<forall>r' \<in> set rs. rel_region load_addr r' \<inter> region (a + 8) (8 * length rs) = {}"
      using Cons.prems(7) sub by (auto simp: disjoint_iff)
    have "\<exists>m'. reloc_loop k ?m1 (a + 8) fin load_addr new_addr = Inr m'
     \<and> (\<forall>r' \<in> set rs. rd32 m' (load_addr + r_offset r') = rd32 ?m1 (load_addr + r_offset r') + new_addr)
     \<and> (\<forall>x. (\<forall>r' \<in> set rs. x \<notin> rel_region load_addr r') \<longrightarrow> m' x = ?m1 x)"
      by (rule Cons.IH [OF ra False _ fin(1) _ _ tb k(2)]) (use Cons.prems a8 in auto)
    then obtain m' where m': "reloc_loop k ?m1 (a + 8) fin load_addr new_addr = Inr m'"
      "\<forall>r' \<in> set rs. rd32 m' (load_addr + r_offset r') = rd32 ?m1 (load_addr + r_offset r') + new_addr"
      "\<forall>x. (\<forall>r' \<in> set rs. x \<notin> rel_region load_addr r') \<longrightarrow> m' x = ?m1 x" by (elim exE conjE)
    have ap: "\<forall>r' \<in> set rs. rel_region load_addr r \<inter> rel_region load_addr r' = {}" using Cons.prems(6) by simp
    have "rd32 m' ?dst = rd32 ?m1 ?dst"
      by (rule rd32_cong, rule m'(3) [rule_format]) (use ap in \<open>auto simp: rel_region_def disjoint_iff\<close>)
    moreover have "rd32 ?m1 (load_addr + r_offset r') = rd32 m (load_addr + r_offset r')" if "r' \<in> set rs" for r'
      by (rule rd32_cong, rule m1) (use ap that in \<open>auto simp: rel_region_def disjoint_iff\<close>)
    moreover have "m' x = m x" if "\<forall>r' \<in> set (r # rs). x \<notin> rel_region load_addr r'" for x
      using that m'(3) m1 by simp
    ultimately show ?thesis using loop False m'(1,2) by (auto simp: rd32_wr32)
  qed
qed simp

text \<open>C29: \<open>ApplyRelocs\<close> adds the address at which the new process has the program to every word that the relocation table names, once, and changes no other
  byte; it ends after one turn for each entry.\<close>

theorem elf_relocations_applied:
  assumes "found_relocs r" "rel_ent_size r = 8" "(elf_data + rel_addr r) mod 4 = 0" "unat (rel_size r) = 8 * length rs" "rs \<noteq> []"
    and "unat (elf_data + rel_addr r) + 8 * length rs < 4294967296" "rels_at m (elf_data + rel_addr r) rs" "\<forall>x \<in> set rs. relative x"
    and "apart_rels load_addr rs" "\<forall>x \<in> set rs. rel_region load_addr x \<inter> region (elf_data + rel_addr r) (8 * length rs) = {}" "length rs \<le> fuel"
  shows "\<exists>m'. ApplyRelocs fuel r m elf_data load_addr new_addr = Inr m'
     \<and> (\<forall>x \<in> set rs. rd32 m' (load_addr + r_offset x) = rd32 m (load_addr + r_offset x) + new_addr)
     \<and> (\<forall>x. (\<forall>y \<in> set rs. x \<notin> rel_region load_addr y) \<longrightarrow> m' x = m x)"
proof -
  have "word_of_nat (8 * length rs) = rel_size r" unfolding assms(4) [symmetric] by simp
  then have fin: "elf_data + rel_addr r + rel_size r = elf_data + rel_addr r + word_of_nat (8 * length rs)" by simp
  have "rel_size r > 0" using assms(4,5) by (simp add: word_less_nat_alt)
  then have "ApplyRelocs fuel r m elf_data load_addr new_addr =
      reloc_loop fuel m (elf_data + rel_addr r) (elf_data + rel_addr r + rel_size r) load_addr new_addr"
    using assms(1-3) by (simp add: ApplyRelocs_def)
  then show ?thesis using reloc_loop_ok [OF assms(7,5,6) fin assms(8-11), of new_addr] by simp
qed

text \<open>A table of one entry.\<close>

definition example_rel :: bmem where
  "example_rel = wr32 (wr32 (wr32 (\<lambda>a. 0) 0x1010 0x20) 0x1014 8) 0x2020 5"

theorem elf_relocations_applied_witness:
  "\<exists>m'. ApplyRelocs 1 \<lparr>rel_addr = 0x10, rel_size = 8, rel_ent_size = 8, found_relocs = True\<rparr> example_rel 0x1000 0x2000 0x40000000 = Inr m' \<and> rd32 m' 0x2020 = 0x40000005"
proof -
  let ?r = "\<lparr>rel_addr = 0x10, rel_size = 8, rel_ent_size = 8, found_relocs = True\<rparr>"
  let ?rs = "[\<lparr>r_offset = 0x20, r_info = 8\<rparr>]"
  have "rels_at example_rel 0x1010 ?rs" "\<forall>x \<in> set ?rs. relative x" "rd32 example_rel 0x2020 = 5" by code_simp+
  moreover have "\<forall>x \<in> set ?rs. rel_region 0x2000 x \<inter> region 0x1010 8 = {}"
    by (auto simp: rel_region_def region_nat)
  moreover have "(0x1010 :: u32) mod 4 = 0" by code_simp
  ultimately show ?thesis
    using elf_relocations_applied [of ?r "0x1000" ?rs example_rel "0x2000" 1 "0x40000000"] by auto
qed

end
