(* ===== verification/Bits.thy ===== *)
theory Bits
  imports Prelude
begin

text \<open>
  The bit-level helpers of \<open>src/kernel/include/kernel/kernel.h\<close>, which
  \<open>src/libc/malloc.cpp\<close> repeats for user space: \<open>IsPowerOf2\<close> and the two \<open>RoundUp\<close>
  templates at \<open>uint32_t\<close>, and the compiler's \<open>__builtin_ctz\<close> as \<open>Partition\<close> uses it.
  Each is related to arithmetic on naturals, wrap-around included.
\<close>

definition IsPowerOf2 :: "u32 \<Rightarrow> bool" where
  "IsPowerOf2 x \<longleftrightarrow> x \<noteq> 0 \<and> x AND (x - 1) = 0"

text \<open>\<open>RoundUp(x, align)\<close>; the template with the alignment as a parameter is the same
  expression with its assertion discharged by the compiler.\<close>

definition RoundUp :: "u32 \<Rightarrow> u32 \<Rightarrow> u32 result" where
  "RoundUp x align = check (IsPowerOf2 align) (Inr ((x + (align - 1)) AND NOT (align - 1)))"

text \<open>\<open>__builtin_ctz\<close>: the number of zero bits below the lowest set bit.\<close>

definition ctz :: "u32 \<Rightarrow> nat" where
  "ctz x = length (takeWhile (\<lambda>i. \<not> bit x i) [0..<32])"

lemma nat_and_pred_eq_0:
  fixes n :: nat
  assumes "n \<noteq> 0" and "n AND (n - 1) = 0"
  shows "\<exists>k. n = 2 ^ k"
  using assms
proof (induction n rule: less_induct)
  case (less n)
  show ?case
  proof (cases "even n")
    case True
    then obtain m where m: "n = 2 * m" by blast
    with less.prems have pos: "0 < m" by simp
    have "bit (m AND (m - 1)) i = False" for i
    proof -
      have "bit (n AND (n - 1)) (Suc i) = False" using less.prems(2) by simp
      moreover have "(n - 1) div 2 = m - 1" "n div 2 = m" using m pos by auto
      ultimately show ?thesis by (metis bit_Suc bit_and_iff)
    qed
    then have "m AND (m - 1) = 0" by (simp add: bit_eq_iff)
    with less.IH [of m] pos m obtain k where "m = 2 ^ k" by auto
    with m have "n = 2 ^ Suc k" by simp
    then show ?thesis by blast
  next
    case False
    then obtain m where m: "n = 2 * m + 1" by (auto elim: oddE)
    have "bit m i = False" for i
    proof -
      have "bit (n AND (n - 1)) (Suc i) = False" using less.prems(2) by simp
      moreover have "(n - 1) div 2 = m" "n div 2 = m" using m by auto
      ultimately show ?thesis by (metis bit_Suc bit_and_iff)
    qed
    then have "m = 0" by (simp add: bit_eq_iff)
    with m show ?thesis by (intro exI [of _ 0]) simp
  qed
qed

lemma unat_exp_u32: "k < 32 \<Longrightarrow> unat (2 ^ k :: u32) = 2 ^ k"
proof -
  assume "k < 32"
  then have "(2::nat) ^ k < 2 ^ 32" by (rule power_strict_increasing) simp
  then have "unat (word_of_nat (2 ^ k) :: u32) = 2 ^ k" by (intro unat_of_nat_u32) simp
  then show ?thesis by simp
qed

lemma IsPowerOf2_exp: "k < 32 \<Longrightarrow> IsPowerOf2 (2 ^ k)"
proof -
  assume k: "k < 32"
  have "(2 ^ k :: u32) \<noteq> 0" using unat_exp_u32 [OF k] by (metis power_not_zero unat_0 zero_neq_numeral)
  moreover have "(2 ^ k :: u32) AND (2 ^ k - 1) = 0"
    by (rule bit_word_eqI) (simp add: bit_simps flip: mask_eq_exp_minus_1)
  ultimately show ?thesis by (simp add: IsPowerOf2_def)
qed

lemma IsPowerOf2_iff: "IsPowerOf2 x \<longleftrightarrow> (\<exists>k < 32. x = 2 ^ k)"
proof
  assume p: "IsPowerOf2 x"
  then have nz: "x \<noteq> 0" and a: "x AND (x - 1) = 0" by (auto simp: IsPowerOf2_def)
  have "unat x AND (unat x - 1) = unat (x AND (x - 1))"
    using nz by (simp add: unsigned_and_eq unat_minus_one)
  with a have "unat x AND (unat x - 1) = 0" by simp
  with nz obtain k where k: "unat x = 2 ^ k"
    using nat_and_pred_eq_0 by (metis unat_eq_zero)
  have "(2::nat) ^ k < 2 ^ 32" using unat_lt_u32 [of x] k by simp
  then have "k < 32" by (rule power_less_imp_less_exp [rotated]) simp
  moreover have "x = 2 ^ k" using k \<open>k < 32\<close> by (simp add: word_unat_eq_iff unat_exp_u32)
  ultimately show "\<exists>k < 32. x = 2 ^ k" by blast
qed (auto simp: IsPowerOf2_exp)

lemma and_not_low: "(x :: u32) AND NOT (2 ^ k - 1) = push_bit k (drop_bit k x)"
  by (rule bit_word_eqI) (auto simp: bit_simps simp flip: mask_eq_exp_minus_1)

lemma unat_and_not_low: "unat ((x :: u32) AND NOT (2 ^ k - 1)) = unat x div 2 ^ k * 2 ^ k"
proof -
  have "unat x div 2 ^ k * 2 ^ k \<le> unat x" by simp
  also have "\<dots> < 2 ^ 32" using unat_lt_u32 [of x] by simp
  finally have "take_bit 32 (push_bit k (drop_bit k (unat x))) = unat x div 2 ^ k * 2 ^ k"
    by (simp add: push_bit_eq_mult drop_bit_eq_div take_bit_nat_eq_self)
  moreover have "take_bit 32 (unat x) = unat x" using unat_lt_u32 [of x] by (simp add: take_bit_nat_eq_self)
  ultimately show ?thesis by (simp add: and_not_low unsigned_push_bit_eq unsigned_drop_bit_eq)
qed

lemma RoundUp_exp:
  assumes "k < 32" and "unat x + 2 ^ k \<le> 4294967296"
  shows "\<exists>r. RoundUp x (2 ^ k) = Inr r \<and> unat r = (unat x + 2 ^ k - 1) div 2 ^ k * 2 ^ k"
proof -
  have "unat (2 ^ k - 1 :: u32) = 2 ^ k - 1"
    using unat_sub_u32 [of 1 "2 ^ k"] assms(1) by (simp add: unat_exp_u32 word_le_nat_alt)
  then have "unat (x + (2 ^ k - 1)) = unat x + 2 ^ k - 1"
    using assms(2) by (subst unat_add_u32) auto
  then show ?thesis
    by (simp add: RoundUp_def IsPowerOf2_exp assms(1) unat_and_not_low)
qed

lemma RoundUp_bounds:
  fixes n :: nat assumes "0 < d"
  shows "n \<le> (n + d - 1) div d * d" and "(n + d - 1) div d * d < n + d"
    and "d dvd (n + d - 1) div d * d"
proof -
  have "(n + d - 1) div d * d + (n + d - 1) mod d = n + d - 1" by simp
  moreover have "(n + d - 1) mod d < d" using assms by simp
  ultimately show "n \<le> (n + d - 1) div d * d" "(n + d - 1) div d * d < n + d" by linarith+
qed simp

lemma ctz_ge_iff:
  assumes "x \<noteq> 0" "k < 32" shows "k \<le> ctz x \<longleftrightarrow> 2 ^ k dvd unat x"
proof -
  have "k \<le> ctz x \<longleftrightarrow> (\<forall>i < k. \<not> bit x i)"
  proof
    assume "k \<le> ctz x"
    show "\<forall>i < k. \<not> bit x i"
    proof (intro allI impI)
      fix i assume "i < k"
      with \<open>k \<le> ctz x\<close> have i: "i < length (takeWhile (\<lambda>i. \<not> bit x i) [0..<32])" by (simp add: ctz_def)
      then have "takeWhile (\<lambda>i. \<not> bit x i) [0..<32] ! i = [0..<32] ! i" by (rule takeWhile_nth)
      moreover have "[0..<32] ! i = i" using i assms(2) \<open>i < k\<close> by simp
      moreover have "takeWhile (\<lambda>i. \<not> bit x i) [0..<32] ! i \<in> set (takeWhile (\<lambda>i. \<not> bit x i) [0..<32])"
        using i by (rule nth_mem)
      ultimately show "\<not> bit x i" by (auto dest: set_takeWhileD)
    qed
  next
    assume a: "\<forall>i < k. \<not> bit x i"
    show "k \<le> ctz x"
      unfolding ctz_def by (rule length_takeWhile_less_P_nth) (use a assms in auto)
  qed
  also have "\<dots> \<longleftrightarrow> take_bit k x = 0" using assms(2) by (auto simp: bit_eq_iff bit_simps)
  also have "\<dots> \<longleftrightarrow> unat (take_bit k x) = 0" by (simp only: unat_eq_zero)
  also have "\<dots> \<longleftrightarrow> take_bit k (unat x) = 0" by (simp only: unsigned_take_bit_eq)
  also have "\<dots> \<longleftrightarrow> 2 ^ k dvd unat x" by (simp add: take_bit_eq_mod mod_eq_0_iff_dvd)
  finally show ?thesis .
qed
lemma ctz_lt: "x \<noteq> 0 \<Longrightarrow> ctz x < 32"
proof (rule ccontr)
  assume nz: "x \<noteq> 0" and "\<not> ctz x < 32"
  then have "takeWhile (\<lambda>i. \<not> bit x i) [0..<32] = [0..<32]"
    by (metis ctz_def length_takeWhile_le length_upt minus_nat.diff_0 nat_less_le takeWhile_eq_take take_all_iff)
  then have "\<forall>i < 32. \<not> bit x i" by (auto simp: takeWhile_eq_all_conv)
  then have "x = 0" by (auto simp: bit_eq_iff bit_simps)
  with nz show False by simp
qed

lemma natural_align:
  assumes "x \<noteq> 0" "k < 32"
  shows "(2 ^ k :: u32) \<le> push_bit (ctz x) 1 \<longleftrightarrow> 2 ^ k dvd unat x"
  using assms ctz_lt [OF assms(1)]
  by (simp add: push_bit_eq_mult word_le_nat_alt unat_exp_u32 ctz_ge_iff)
end
