(* ===== verification/Pmm.thy ===== *)
theory Pmm
  imports Bits
begin

text \<open>
  The physical memory manager, \<open>src/kernel/pmm.cpp\<close> and \<open>pmm.h\<close>: one bit per 4MB page in
  \<open>gPhysicalBitmap\<close> (set means used) and the number of pages \<open>gNum4MPages\<close>. Page numbers
  and counts are naturals (the code's are \<open>uint32_t\<close> and stay below 1025); addresses keep
  their 32 bits. The abstraction \<open>used_pages\<close> reads the bitmap as a set of pages, and every
  operation is shown to act on that set.
\<close>

section \<open>The code\<close>

definition kPageSize4M :: u32 where "kPageSize4M = 0x400000"
definition kNumPageDirEntries :: nat where "kNumPageDirEntries = 1024"
definition CHAR_BIT :: nat where "CHAR_BIT = 8"

definition AddrToPage :: "u32 \<Rightarrow> nat" where
  "AddrToPage addr = unat (addr div kPageSize4M)"

definition PageToAddr :: "nat \<Rightarrow> u32" where
  "PageToAddr page = word_of_nat page * kPageSize4M"

definition PageAddress :: "u32 \<Rightarrow> u32" where
  "PageAddress addr = PageToAddr (AddrToPage addr)"

record pmm =
  gNum4MPages :: nat
  gPhysicalBitmap :: "u8 list"

definition read_bitmap :: "pmm \<Rightarrow> nat \<Rightarrow> u8 result" where
  "read_bitmap s i =
     (if i < length (gPhysicalBitmap s) then Inr (gPhysicalBitmap s ! i) else Inl Out_of_bounds)"

definition GetNum4MPages :: "pmm \<Rightarrow> nat" where
  "GetNum4MPages s = gNum4MPages s"

definition PageIsUsed :: "pmm \<Rightarrow> nat \<Rightarrow> bool result" where
  "PageIsUsed s page =
     check (page \<le> kNumPageDirEntries)
      (bindr (read_bitmap s (page div CHAR_BIT))
        (\<lambda>b. Inr (b AND push_bit (page mod CHAR_BIT) 1 \<noteq> 0)))"

definition SetPageUsed :: "pmm \<Rightarrow> nat \<Rightarrow> pmm result" where
  "SetPageUsed s page =
     bindr (PageIsUsed s page) (\<lambda>u. check (\<not> u)
      (bindr (read_bitmap s (page div CHAR_BIT)) (\<lambda>b.
        Inr (s\<lparr>gPhysicalBitmap := (gPhysicalBitmap s)
                 [page div CHAR_BIT := b OR push_bit (page mod CHAR_BIT) 1]\<rparr>))))"

definition SetPageFree :: "pmm \<Rightarrow> nat \<Rightarrow> pmm result" where
  "SetPageFree s page =
     bindr (PageIsUsed s page) (\<lambda>u. check u
      (bindr (read_bitmap s (page div CHAR_BIT)) (\<lambda>b.
        Inr (s\<lparr>gPhysicalBitmap := (gPhysicalBitmap s)
                 [page div CHAR_BIT := b AND NOT (push_bit (page mod CHAR_BIT) 1)]\<rparr>))))"

text \<open>The loop of \<open>num_zero_bits\<close>: \<open>while (x) { n += (x & 1); x >>= 1; }\<close>.\<close>

lemma drop_bit_1_less: "x \<noteq> 0 \<Longrightarrow> unat (drop_bit (Suc 0) x) < unat (x :: u8)"
proof -
  assume "x \<noteq> 0"
  then have "0 < unat x" by (simp add: unat_gt_0)
  then show ?thesis by (simp add: drop_bit_eq_div unat_div)
qed

function num_ones :: "u8 \<Rightarrow> nat \<Rightarrow> nat" where
  "num_ones x n = (if x \<noteq> 0 then num_ones (drop_bit 1 x) (n + unat (x AND 1)) else n)"
  by pat_completeness auto
termination
  by (relation "measure (\<lambda>(x, n). unat x)") (auto simp: drop_bit_1_less)

definition num_zero_bits :: "u8 \<Rightarrow> nat" where
  "num_zero_bits x = num_ones (NOT x) 0"

function free_loop :: "pmm \<Rightarrow> nat \<Rightarrow> nat \<Rightarrow> nat result" where
  "free_loop s i num =
     (if i < gNum4MPages s div CHAR_BIT
      then bindr (read_bitmap s i) (\<lambda>x. free_loop s (Suc i) (num + num_zero_bits x))
      else Inr num)"
  by pat_completeness auto
termination
  by (relation "measure (\<lambda>(s, i, num). gNum4MPages s div CHAR_BIT - i)") auto

definition GetNumFree4MPages :: "pmm \<Rightarrow> nat result" where
  "GetNumFree4MPages s =
     bindr (free_loop s 0 0) (\<lambda>num.
       if gNum4MPages s mod CHAR_BIT \<noteq> 0
       then bindr (read_bitmap s (gNum4MPages s div CHAR_BIT)) (\<lambda>x. Inr (num + num_zero_bits x))
       else Inr num)"

definition GetNumUsed4MPages :: "pmm \<Rightarrow> nat result" where
  "GetNumUsed4MPages s =
     bindr (GetNumFree4MPages s) (\<lambda>available.
       check (available \<le> gNum4MPages s) (Inr (gNum4MPages s - available)))"

text \<open>\<open>memset\<close> on a prefix of the bitmap; a longer one would leave the array.\<close>

definition memset_bitmap :: "u8 list \<Rightarrow> u8 \<Rightarrow> nat \<Rightarrow> u8 list result" where
  "memset_bitmap bm v n =
     (if n \<le> length bm then Inr (replicate n v @ drop n bm) else Inl Out_of_bounds)"

definition bitmap_size :: nat where "bitmap_size = kNumPageDirEntries div CHAR_BIT"

text \<open>\<open>pmm::Initialize\<close>. The state before is the zeroed static storage (or what an earlier
  call left); only the length of the bitmap matters.\<close>

definition pmm_Initialize :: "pmm \<Rightarrow> u32 \<Rightarrow> pmm result" where
  "pmm_Initialize s0 mem_upper =
     bindr (RoundUp (mem_upper * 1024) kPageSize4M) (\<lambda>total_mem.
     let n = unat (total_mem div kPageSize4M) in
     check (n \<noteq> 0 \<and> n \<le> kNumPageDirEntries)
     (bindr
       (if n = kNumPageDirEntries then memset_bitmap (gPhysicalBitmap s0) 0 bitmap_size
        else bindr (memset_bitmap (gPhysicalBitmap s0) 0xFF bitmap_size) (\<lambda>bm.
             bindr (memset_bitmap bm 0 (n div CHAR_BIT + 1)) (\<lambda>bm'.
             if n div CHAR_BIT < length bm'
             then Inr (bm'[n div CHAR_BIT := NOT (push_bit (n mod CHAR_BIT) 1 - 1)])
             else Inl Out_of_bounds)))
       (\<lambda>bm. let s = s0\<lparr>gNum4MPages := n, gPhysicalBitmap := bm\<rparr> in
          bindr (GetNumFree4MPages s) (\<lambda>free. check (free = n) (Inr s)))))"

text \<open>The inner loop of \<open>GetNextFreePage\<close>: \<open>while (x & 1) { ++idx; x >>= 1; }\<close>.\<close>

function first_zero :: "u8 \<Rightarrow> nat \<Rightarrow> nat" where
  "first_zero x idx = (if x AND 1 \<noteq> 0 then first_zero (drop_bit 1 x) (Suc idx) else idx)"
  by pat_completeness auto
termination
  by (relation "measure (\<lambda>(x, n). unat x)") (auto intro!: drop_bit_1_less)

function next_free_loop :: "pmm \<Rightarrow> nat \<Rightarrow> int result" where
  "next_free_loop s i =
     (if i < gNum4MPages s div CHAR_BIT
      then bindr (read_bitmap s i) (\<lambda>x.
             if x = 0xFF then next_free_loop s (Suc i)
             else Inr (int i * int CHAR_BIT + int (first_zero x 0)))
      else Inr (-1))"
  by pat_completeness auto
termination
  by (relation "measure (\<lambda>(s, i). gNum4MPages s div CHAR_BIT - i)") auto

definition GetNextFreePage :: "pmm \<Rightarrow> int result" where
  "GetNextFreePage s = next_free_loop s 0"

declare num_ones.simps [simp del] first_zero.simps [simp del]
  free_loop.simps [simp del] next_free_loop.simps [simp del]

section \<open>The bitmap as a set of pages\<close>

definition pmm_wf :: "pmm \<Rightarrow> bool" where
  "pmm_wf s \<longleftrightarrow> length (gPhysicalBitmap s) = bitmap_size \<and> gNum4MPages s \<le> kNumPageDirEntries"

definition used_pages :: "pmm \<Rightarrow> nat set" where
  "used_pages s = {p. p < kNumPageDirEntries \<and> bit (gPhysicalBitmap s ! (p div 8)) (p mod 8)}"

lemmas pmm_consts = kNumPageDirEntries_def CHAR_BIT_def bitmap_size_def

lemma and_push_bit_1: "((b :: u8) AND push_bit i 1 \<noteq> 0) = bit b i"
  by (simp add: and_exp_eq_0_iff_not_bit push_bit_eq_mult)

lemma read_bitmap_wf:
  "pmm_wf s \<Longrightarrow> i < bitmap_size \<Longrightarrow> read_bitmap s i = Inr (gPhysicalBitmap s ! i)"
  by (simp add: read_bitmap_def pmm_wf_def)

lemma PageIsUsed_wf:
  "pmm_wf s \<Longrightarrow> p < kNumPageDirEntries \<Longrightarrow> PageIsUsed s p = Inr (p \<in> used_pages s)"
  by (simp add: PageIsUsed_def read_bitmap_wf used_pages_def pmm_consts and_push_bit_1 check_def
      less_mult_imp_div_less del: push_bit_of_1)

lemma SetPageUsed_wf:
  assumes "pmm_wf s" "p < kNumPageDirEntries"
  shows "SetPageUsed s p =
    (if p \<in> used_pages s then Inl Assert_failed
     else Inr (s\<lparr>gPhysicalBitmap := (gPhysicalBitmap s)
                 [p div 8 := gPhysicalBitmap s ! (p div 8) OR push_bit (p mod 8) 1]\<rparr>))"
  using assms by (simp add: SetPageUsed_def PageIsUsed_wf read_bitmap_wf pmm_consts check_def)

lemma SetPageFree_wf:
  assumes "pmm_wf s" "p < kNumPageDirEntries"
  shows "SetPageFree s p =
    (if p \<in> used_pages s
     then Inr (s\<lparr>gPhysicalBitmap := (gPhysicalBitmap s)
                 [p div 8 := gPhysicalBitmap s ! (p div 8) AND NOT (push_bit (p mod 8) 1)]\<rparr>)
     else Inl Assert_failed)"
  using assms by (simp add: SetPageFree_def PageIsUsed_wf read_bitmap_wf pmm_consts check_def)

lemma div_mod_8_eq: "(p::nat) div 8 = q div 8 \<Longrightarrow> p mod 8 = q mod 8 \<Longrightarrow> p = q"
  by (metis div_mult_mod_eq)

lemma SetPageUsed_used:
  assumes "pmm_wf s" "p < kNumPageDirEntries" "SetPageUsed s p = Inr s'"
  shows "pmm_wf s' \<and> p \<notin> used_pages s \<and> used_pages s' = insert p (used_pages s)
    \<and> gNum4MPages s' = gNum4MPages s"
proof -
  have s': "p \<notin> used_pages s" "s' = s\<lparr>gPhysicalBitmap := (gPhysicalBitmap s)
      [p div 8 := gPhysicalBitmap s ! (p div 8) OR push_bit (p mod 8) 1]\<rparr>"
    using assms by (auto simp: SetPageUsed_wf split: if_splits)
  have len: "p div 8 < length (gPhysicalBitmap s)"
    using assms(1,2) by (auto simp: pmm_wf_def pmm_consts)
  have "q \<in> used_pages s' \<longleftrightarrow> q = p \<or> q \<in> used_pages s" for q
    using assms(2) len div_mod_8_eq [of q p]
    by (auto simp: used_pages_def s'(2) nth_list_update bit_simps pmm_consts)
  then show ?thesis using assms(1) s' by (auto simp: pmm_wf_def)
qed

lemma SetPageFree_used:
  assumes "pmm_wf s" "p < kNumPageDirEntries" "SetPageFree s p = Inr s'"
  shows "pmm_wf s' \<and> p \<in> used_pages s \<and> used_pages s' = used_pages s - {p}
    \<and> gNum4MPages s' = gNum4MPages s"
proof -
  have s': "p \<in> used_pages s" "s' = s\<lparr>gPhysicalBitmap := (gPhysicalBitmap s)
      [p div 8 := gPhysicalBitmap s ! (p div 8) AND NOT (push_bit (p mod 8) 1)]\<rparr>"
    using assms by (auto simp: SetPageFree_wf split: if_splits)
  have len: "p div 8 < length (gPhysicalBitmap s)"
    using assms(1,2) by (auto simp: pmm_wf_def pmm_consts)
  have "q \<in> used_pages s' \<longleftrightarrow> q \<noteq> p \<and> q \<in> used_pages s" for q
    using assms(2) len div_mod_8_eq [of q p]
    by (auto simp: used_pages_def s'(2) nth_list_update bit_simps pmm_consts)
  then show ?thesis using assms(1) s' by (auto simp: pmm_wf_def)
qed

subsection \<open>Counting\<close>

lemma bit_set_Suc:
  "{i. bit (x :: u8) i} = (if x AND 1 \<noteq> 0 then {0} else {}) \<union> Suc ` {i. bit (drop_bit 1 x) i}"
proof -
  have "bit x i \<longleftrightarrow> (i = 0 \<and> x AND 1 \<noteq> 0) \<or> (\<exists>j. i = Suc j \<and> bit (drop_bit 1 x) j)" for i
    by (cases i) (auto simp: bit_0 bit_simps and_one_eq even_iff_mod_2_eq_zero odd_iff_mod_2_eq_one)
  then show ?thesis by auto
qed

lemma finite_bits: "finite {i. bit (x :: u8) i}"
  by (rule finite_subset [of _ "{..<8}"]) (auto dest: bit_imp_le_length)

lemma num_ones_eq: "num_ones x n = n + card {i. bit x i}"
proof (induction x n rule: num_ones.induct)
  case (1 x n)
  show ?case
  proof (cases "x = 0")
    case False
    have "card {i. bit x i} = unat (x AND 1) + card {i. bit (drop_bit 1 x) i}"
      by (subst bit_set_Suc, subst card_Un_disjoint)
        (auto simp: card_image finite_bits and_one_eq odd_iff_mod_2_eq_one)
    with False 1 show ?thesis by (simp add: num_ones.simps [of x n])
  qed (simp add: num_ones.simps [of 0 n])
qed

lemma num_zero_bits_eq: "num_zero_bits x = card {i. i < 8 \<and> \<not> bit x i}"
proof -
  have "{i. bit (NOT x) i} = {i. i < 8 \<and> \<not> bit x i}" by (auto simp: bit_simps)
  then show ?thesis by (simp add: num_zero_bits_def num_ones_eq)
qed

lemma free_byte_pages:
  assumes "i < bitmap_size"
  shows "card {p. p div 8 = i \<and> p \<notin> used_pages s} = num_zero_bits (gPhysicalBitmap s ! i)"
proof -
  have "{p. p div 8 = i \<and> p \<notin> used_pages s}
      = (\<lambda>j. 8 * i + j) ` {j. j < 8 \<and> \<not> bit (gPhysicalBitmap s ! i) j}" (is "?A = ?B")
  proof
    show "?A \<subseteq> ?B"
    proof
      fix p assume "p \<in> ?A"
      then have "p = 8 * i + p mod 8" "p mod 8 < 8" "\<not> bit (gPhysicalBitmap s ! i) (p mod 8)"
        using assms by (auto simp: used_pages_def pmm_consts)
      then show "p \<in> ?B" by blast
    qed
    show "?B \<subseteq> ?A" by (auto simp: used_pages_def)
  qed
  then show ?thesis by (simp add: card_image inj_on_def num_zero_bits_eq)
qed

lemma free_pages_Suc:
  "card {p. p < 8 * Suc i \<and> p \<notin> U} = card {p. p < 8 * i \<and> p \<notin> U} + card {p. p div 8 = i \<and> p \<notin> U}"
proof -
  have fin: "finite {p::nat. p div 8 = i \<and> p \<notin> U}"
    by (rule finite_subset [of _ "{..<8 * Suc i}"]) auto
  have "{p. p < 8 * Suc i \<and> p \<notin> U} = {p. p < 8 * i \<and> p \<notin> U} \<union> {p. p div 8 = i \<and> p \<notin> U}"
    by auto
  moreover have "{p. p < 8 * i \<and> p \<notin> U} \<inter> {p. p div 8 = i \<and> p \<notin> U} = {}" by auto
  ultimately show ?thesis
    using fin card_Un_disjoint [of "{p. p < 8 * i \<and> p \<notin> U}" "{p. p div 8 = i \<and> p \<notin> U}"] by simp
qed

lemma free_loop_wf:
  assumes "pmm_wf s" "i \<le> gNum4MPages s div 8"
  shows "free_loop s i (card {p. p < 8 * i \<and> p \<notin> used_pages s})
    = Inr (card {p. p < 8 * (gNum4MPages s div 8) \<and> p \<notin> used_pages s})"
  using assms(2)
proof (induction "gNum4MPages s div 8 - i" arbitrary: i)
  case 0
  then show ?case by (simp add: free_loop.simps [of s i] CHAR_BIT_def)
next
  case (Suc d)
  then have i: "i < gNum4MPages s div 8" "i < bitmap_size"
    using assms(1) by (auto simp: pmm_wf_def pmm_consts)
  then show ?case
    using Suc.hyps(1) [of "Suc i"] Suc.hyps(2) assms(1)
    by (simp add: free_loop.simps [of s i] CHAR_BIT_def read_bitmap_wf free_byte_pages [symmetric]
        free_pages_Suc [symmetric] del: mult_Suc_right)
qed

lemma ceil_div_8: "(n + 7) div 8 = (if n mod 8 = 0 then n div 8 else Suc (n div 8))" for n :: nat
proof -
  define q r where "q = n div 8" and "r = n mod 8"
  have n: "n = 8 * q + r" and r: "r < 8" by (simp_all add: q_def r_def)
  have "(8 * q + r + 7) div 8 = q + (r + 7) div 8" by (simp add: add.assoc)
  moreover have "(r + 7) div 8 = (if r = 0 then 0 else 1)"
    using r by (auto intro: div_nat_eqI)
  ultimately show ?thesis using r unfolding n by simp
qed

lemma GetNumFree_wf:
  assumes "pmm_wf s"
  shows "GetNumFree4MPages s
    = Inr (card {p. p < 8 * ((gNum4MPages s + 7) div 8) \<and> p \<notin> used_pages s})"
proof -
  let ?n = "gNum4MPages s"
  have l: "free_loop s 0 0 = Inr (card {p. p < 8 * (?n div 8) \<and> p \<notin> used_pages s})"
    using free_loop_wf [OF assms, of 0] by simp
  show ?thesis
  proof (cases "?n mod 8 = 0")
    case True
    then have "(?n + 7) div 8 = ?n div 8" by (simp add: ceil_div_8)
    with True l show ?thesis by (simp add: GetNumFree4MPages_def CHAR_BIT_def)
  next
    case False
    then have "(?n + 7) div 8 = Suc (?n div 8)" by (simp add: ceil_div_8)
    moreover have "?n \<noteq> 1024" using False by auto
    then have "?n < 128 * 8" using assms by (simp add: pmm_wf_def pmm_consts)
    then have "?n div 8 < bitmap_size" by (simp add: pmm_consts less_mult_imp_div_less)
    ultimately show ?thesis using False l assms \<open>?n div 8 < bitmap_size\<close>
      by (simp add: GetNumFree4MPages_def CHAR_BIT_def read_bitmap_wf free_byte_pages [symmetric]
        free_pages_Suc [symmetric] del: mult_Suc_right)
  qed
qed

lemma first_zero_ex: "\<exists>k. first_zero x idx = idx + k \<and> \<not> bit x k \<and> (\<forall>j<k. bit x j)"
proof (induction x idx rule: first_zero.induct)
  case (1 x idx)
  show ?case
  proof (cases "x AND 1 = 0")
    case True
    then have "\<not> bit x 0" by (simp add: bit_0 and_one_eq even_iff_mod_2_eq_zero)
    with True show ?thesis by (auto simp: first_zero.simps [of x idx])
  next
    case False
    then obtain k where k: "first_zero (drop_bit 1 x) (Suc idx) = Suc idx + k"
      "\<not> bit (drop_bit 1 x) k" "\<forall>j<k. bit (drop_bit 1 x) j" using 1 by blast
    have "bit x 0" using False by (simp add: bit_0 and_one_eq odd_iff_mod_2_eq_one)
    then have "\<forall>j<Suc k. bit x j" using k(3) by (auto simp: bit_simps less_Suc_eq_0_disj)
    then show ?thesis using False k by (intro exI [of _ "Suc k"]) (simp add: first_zero.simps [of x idx] bit_simps)
  qed
qed

lemma bit_255_int [simp]: "bit (0xFF :: int) j \<longleftrightarrow> j < 8"
proof -
  have "bit (0xFF :: int) j = bit (mask 8 :: int) j" by (simp add: mask_eq_exp_minus_1)
  then show ?thesis by (simp only: bit_mask_iff) simp
qed

lemma byte_full: "bit (0xFF :: u8) j \<longleftrightarrow> j < 8"
  by simp

lemma byte_not_full: "(x :: u8) \<noteq> 0xFF \<Longrightarrow> \<exists>j<8. \<not> bit x j"
  by (rule ccontr) (auto simp: bit_eq_iff byte_full dest: bit_imp_le_length)

text \<open>What \<open>GetNextFreePage\<close> promises: the lowest page of the first \<open>m\<close> that is not used.\<close>

definition next_free_spec :: "nat set \<Rightarrow> nat \<Rightarrow> int" where
  "next_free_spec U m = (if \<exists>p<m. p \<notin> U then int (LEAST p. p \<notin> U) else -1)"

lemma next_free_spec_eqI: "p < m \<Longrightarrow> p \<notin> U \<Longrightarrow> \<forall>q<p. q \<in> U \<Longrightarrow> next_free_spec U m = int p"
  unfolding next_free_spec_def by (auto intro!: Least_equality simp: not_less [symmetric])

lemma next_free_loop_wf:
  assumes "pmm_wf s" "i \<le> gNum4MPages s div 8" "\<forall>p < 8 * i. p \<in> used_pages s"
  shows "next_free_loop s i = Inr (next_free_spec (used_pages s) (8 * (gNum4MPages s div 8)))"
  using assms(2,3)
proof (induction "gNum4MPages s div 8 - i" arbitrary: i)
  case 0
  then show ?case by (simp add: next_free_loop.simps [of s i] CHAR_BIT_def next_free_spec_def)
next
  case (Suc d)
  then have i: "i < gNum4MPages s div 8" "i < bitmap_size"
    using assms(1) by (auto simp: pmm_wf_def pmm_consts)
  show ?case
  proof (cases "gPhysicalBitmap s ! i = 0xFF")
    case True
    then have "p \<in> used_pages s" if "p < 8 * Suc i" for p
    proof (cases "p < 8 * i")
      case False
      then have "p div 8 = i" using that by simp
      then show ?thesis using True that i(2) by (simp add: used_pages_def pmm_consts byte_full)
    qed (use Suc.prems in blast)
    with True i show ?thesis using Suc.hyps(1) [of "Suc i"] Suc.hyps(2) assms(1)
      by (simp add: next_free_loop.simps [of s i] CHAR_BIT_def read_bitmap_wf)
  next
    case False
    let ?x = "gPhysicalBitmap s ! i"
    obtain k where k: "first_zero ?x 0 = k" "\<not> bit ?x k" "\<forall>j<k. bit ?x j"
      using first_zero_ex [of ?x 0] by auto
    have k8: "k < 8" using byte_not_full [OF False] k(3) by (meson not_less order_less_le_trans)
    have "q \<in> used_pages s" if "q < 8 * i + k" for q
    proof (cases "q < 8 * i")
      case False
      then obtain r where "q = 8 * i + r" using le_Suc_ex [of "8 * i" q] by auto
      then show ?thesis using k(3) that i(2) k8 by (simp add: used_pages_def pmm_consts)
    qed (use Suc.prems in auto)
    moreover have "8 * i + k \<notin> used_pages s" using k(2) k8 by (simp add: used_pages_def)
    moreover have "8 * i + k < 8 * (gNum4MPages s div 8)" using i k8 by simp
    ultimately have "next_free_spec (used_pages s) (8 * (gNum4MPages s div 8)) = int (8 * i + k)"
      by (intro next_free_spec_eqI) auto
    with False i k(1) show ?thesis using assms(1)
      by (simp add: next_free_loop.simps [of s i] CHAR_BIT_def read_bitmap_wf)
  qed
qed

lemma GetNextFreePage_wf:
  "pmm_wf s \<Longrightarrow> GetNextFreePage s = Inr (next_free_spec (used_pages s) (8 * (gNum4MPages s div 8)))"
  unfolding GetNextFreePage_def by (rule next_free_loop_wf) auto

subsection \<open>Initialisation\<close>

lemma init_bitmap_nth:
  assumes "m < k" "k \<le> N" "q < N"
  shows "((replicate k 0 @ drop k (replicate N 0xFF))[m := v] :: u8 list) ! q
     = (if q = m then v else if q < k then 0 else 0xFF)"
  using assms by (auto simp: nth_list_update nth_append)

lemma init_bitmap_length:
  "k \<le> N \<Longrightarrow> length ((replicate k 0 @ drop k (replicate N 0xFF))[m := v] :: u8 list) = N"
  by simp

lemma init_used:
  assumes "n < 1024" "bm = (replicate (n div 8 + 1) 0 @ drop (n div 8 + 1) (replicate 128 0xFF))
     [n div 8 := NOT (push_bit (n mod 8) 1 - 1)]"
  shows "used_pages (s\<lparr>gNum4MPages := n, gPhysicalBitmap := bm\<rparr>) = {n..<1024}"
proof -
  have "bit (bm ! (p div 8)) (p mod 8) \<longleftrightarrow> n \<le> p" if "p < 1024" for p
  proof -
    have nth: "bm ! (p div 8) = (if p div 8 = n div 8 then NOT (push_bit (n mod 8) 1 - 1)
        else if p div 8 < n div 8 + 1 then 0 else 0xFF)"
      unfolding assms(2) by (rule init_bitmap_nth) (use assms(1) that in auto)
    consider "p div 8 < n div 8" | "p div 8 = n div 8" | "n div 8 < p div 8" by linarith
    then show ?thesis
    proof cases
      case 1
      then have "p < n" by (metis div_le_mono leD leI)
      with 1 nth show ?thesis by simp
    next
      case 2
      then have "bm ! (p div 8) = NOT (mask (n mod 8))" using nth
        by (simp add: mask_eq_exp_minus_1 push_bit_eq_mult)
      moreover have "n \<le> p \<longleftrightarrow> n mod 8 \<le> p mod 8" using 2 div_mult_mod_eq [of n 8] div_mult_mod_eq [of p 8] by linarith
      ultimately show ?thesis by (auto simp: bit_simps)
    next
      case 3
      then have "n \<le> p" by (metis div_le_mono leD leI nat_less_le)
      with 3 nth show ?thesis by (simp add: byte_full)
    qed
  qed
  then show ?thesis by (auto simp: used_pages_def pmm_consts)
qed

text \<open>The number of 4MB pages \<open>Initialize\<close> computes from the byte count \<open>mem_upper * 1024\<close>
  (which has wrapped at 32 bits).\<close>

definition pages_of_mem :: "u32 \<Rightarrow> nat" where
  "pages_of_mem mem_upper = (unat (mem_upper * 1024) + 0x3FFFFF) div 0x400000"

lemma kPageSize4M_exp: "kPageSize4M = 2 ^ 22"
  by (simp add: kPageSize4M_def)

lemma RoundUp_page:
  assumes "unat x \<le> 0xFFC00000"
  shows "\<exists>r. RoundUp x kPageSize4M = Inr r \<and> unat (r div kPageSize4M) = (unat x + 0x3FFFFF) div 0x400000"
proof -
  obtain r where "RoundUp x (2 ^ 22) = Inr r" "unat r = (unat x + 2 ^ 22 - 1) div 2 ^ 22 * 2 ^ 22"
    using RoundUp_exp [of 22 x] assms by auto
  then show ?thesis by (auto simp: kPageSize4M_exp unat_div)
qed

lemma RoundUp_page_wraps:
  assumes "0xFFC00000 < unat x" shows "RoundUp x kPageSize4M = Inr 0"
proof -
  let ?y = "x + (2 ^ 22 - 1)"
  have "unat ?y = unat x + 0x3FFFFF - 0x100000000"
    using assms unat_lt_u32 [of x] by (simp add: unat_plus_if')
  then have "unat ?y < 2 ^ 22" using unat_lt_u32 [of x] by simp
  then have "unat (?y AND NOT (2 ^ 22 - 1)) = 0" by (subst unat_and_not_low) simp
  then have "?y AND NOT (2 ^ 22 - 1) = 0" by (simp only: unat_eq_zero)
  then show ?thesis using IsPowerOf2_exp [of 22] by (simp add: RoundUp_def kPageSize4M_def)
qed

lemma Initialize_wf:
  assumes len: "length (gPhysicalBitmap s0) = bitmap_size"
    and x: "0 < unat (mem_upper * 1024)" "unat (mem_upper * 1024) \<le> 0xFFC00000"
  shows "\<exists>s. pmm_Initialize s0 mem_upper = Inr s \<and> pmm_wf s
     \<and> gNum4MPages s = pages_of_mem mem_upper \<and> used_pages s = {pages_of_mem mem_upper..<1024}"
proof -
  define n where "n = pages_of_mem mem_upper"
  have n: "0 < n" "n < 1024" using x by (auto simp: n_def pages_of_mem_def)
  obtain r where r: "RoundUp (mem_upper * 1024) kPageSize4M = Inr r" "unat (r div kPageSize4M) = n"
    using RoundUp_page [OF x(2)] by (auto simp: n_def pages_of_mem_def)
  define bm :: "u8 list" where "bm = (replicate (n div 8 + 1) 0 @ drop (n div 8 + 1) (replicate 128 0xFF))
     [n div 8 := NOT (push_bit (n mod 8) 1 - 1)]"
  define s where "s = s0\<lparr>gNum4MPages := n, gPhysicalBitmap := bm\<rparr>"
  have lenbm: "length bm = 128" unfolding bm_def by (rule init_bitmap_length) (use n in auto)
  have wf: "pmm_wf s" using lenbm n by (simp add: s_def pmm_wf_def pmm_consts)
  have used: "used_pages s = {n..<1024}" unfolding s_def by (rule init_used [OF n(2) bm_def])
  have "{p. p < 8 * ((n + 7) div 8) \<and> p \<notin> {n..<1024}} = {..<n}" (is "?A = _")
  proof -
    have "(n + 7) div 8 * 8 + (n + 7) mod 8 = n + 7" "(n + 7) mod 8 < 8" by simp_all
    moreover have "(n + 7) div 8 \<le> 1030 div 8" by (rule div_le_mono) (use n(2) in simp)
    ultimately have "n \<le> 8 * ((n + 7) div 8)" "8 * ((n + 7) div 8) \<le> 1024" by simp_all
    then show ?thesis by auto
  qed
  then have "GetNumFree4MPages s = Inr n"
    using GetNumFree_wf [OF wf] by (simp add: used) (simp add: s_def)
  then have "pmm_Initialize s0 mem_upper = Inr s"
    using r n len
    by (simp add: pmm_Initialize_def pmm_consts memset_bitmap_def check_def Let_def s_def bm_def
        del: replicate.simps drop_replicate)
  with wf used show ?thesis by (auto simp: n_def s_def)
qed

lemma Initialize_fails:
  assumes "unat (mem_upper * 1024) = 0 \<or> 0xFFC00000 < unat (mem_upper * 1024)"
  shows "pmm_Initialize s0 mem_upper = Inl Assert_failed"
proof -
  have "RoundUp (mem_upper * 1024) kPageSize4M = Inr 0"
    using assms
  proof
    assume "unat (mem_upper * 1024) = 0"
    then have "mem_upper * 1024 = 0" by (simp only: unat_eq_zero)
    then show ?thesis using IsPowerOf2_exp [of 22] by (simp add: RoundUp_def kPageSize4M_def)
  qed (rule RoundUp_page_wraps)
  then show ?thesis by (simp add: pmm_Initialize_def)
qed

section \<open>The interface the rest of the kernel relies on\<close>

text \<open>Clients allocate a frame by asking for a free one and then marking it; the laws say that
  this marks exactly one new page.\<close>

locale frame_allocator =
  fixes used :: "'s \<Rightarrow> nat set" and wf :: "'s \<Rightarrow> bool" and capacity :: nat
    and next_free :: "'s \<Rightarrow> int result"
    and set_used :: "'s \<Rightarrow> nat \<Rightarrow> 's result" and set_free :: "'s \<Rightarrow> nat \<Rightarrow> 's result"
  assumes next_free_total: "wf s \<Longrightarrow> \<exists>i. next_free s = Inr i"
    and next_free_D: "wf s \<Longrightarrow> next_free s = Inr i \<Longrightarrow> 0 \<le> i \<Longrightarrow> nat i < capacity \<and> nat i \<notin> used s"
    and set_used_total: "wf s \<Longrightarrow> p < capacity \<Longrightarrow> p \<notin> used s \<Longrightarrow> \<exists>s'. set_used s p = Inr s'"
    and set_used_D: "wf s \<Longrightarrow> p < capacity \<Longrightarrow> set_used s p = Inr s'
      \<Longrightarrow> wf s' \<and> p \<notin> used s \<and> used s' = insert p (used s)"
    and set_free_total: "wf s \<Longrightarrow> p \<in> used s \<Longrightarrow> \<exists>s'. set_free s p = Inr s'"
    and set_free_D: "wf s \<Longrightarrow> p < capacity \<Longrightarrow> set_free s p = Inr s'
      \<Longrightarrow> wf s' \<and> p \<in> used s \<and> used s' = used s - {p}"
begin

lemma allocate:
  assumes "wf s" "next_free s = Inr i" "0 \<le> i"
  shows "\<exists>s'. set_used s (nat i) = Inr s' \<and> wf s' \<and> nat i \<notin> used s \<and> used s' = insert (nat i) (used s)"
proof -
  have i: "nat i < capacity" "nat i \<notin> used s" using next_free_D [OF assms] by auto
  then obtain s' where "set_used s (nat i) = Inr s'" using set_used_total [OF assms(1)] by blast
  then show ?thesis using set_used_D [OF assms(1) i(1)] by blast
qed

lemma set_free_set_used:
  assumes "wf s" "p < capacity" "set_used s p = Inr s'"
  shows "\<exists>s''. set_free s' p = Inr s'' \<and> wf s'' \<and> used s'' = used s"
proof -
  have s': "wf s'" "p \<notin> used s" "used s' = insert p (used s)" using set_used_D [OF assms] by auto
  then obtain s'' where "set_free s' p = Inr s''" using set_free_total [of s' p] by blast
  then show ?thesis using set_free_D [OF s'(1) assms(2)] s' by auto
qed

end

lemma used_pages_less: "p \<in> used_pages s \<Longrightarrow> p < kNumPageDirEntries"
  by (simp add: used_pages_def)

lemma next_free_spec_nonneg:
  assumes "0 \<le> next_free_spec U m"
  shows "nat (next_free_spec U m) < m \<and> nat (next_free_spec U m) \<notin> U"
proof -
  from assms obtain p where "p < m" "p \<notin> U" by (auto simp: next_free_spec_def split: if_splits)
  moreover have "(LEAST p. p \<notin> U) \<le> p" by (rule Least_le) fact
  moreover have "(LEAST p. p \<notin> U) \<notin> U" by (rule LeastI) fact
  ultimately show ?thesis by (auto simp: next_free_spec_def)
qed

interpretation frames: frame_allocator used_pages pmm_wf kNumPageDirEntries
  GetNextFreePage SetPageUsed SetPageFree
proof
  fix s p s'
  show "pmm_wf s \<Longrightarrow> \<exists>i. GetNextFreePage s = Inr i" by (simp add: GetNextFreePage_wf)
  show "nat i < kNumPageDirEntries \<and> nat i \<notin> used_pages s"
    if "pmm_wf s" "GetNextFreePage s = Inr i" "0 \<le> i" for i
  proof -
    have "8 * (gNum4MPages s div 8) \<le> kNumPageDirEntries"
      using that(1) by (auto simp: pmm_wf_def intro: order_trans [OF times_div_less_eq_dividend])
    then show ?thesis
      using that next_free_spec_nonneg [of "used_pages s" "8 * (gNum4MPages s div 8)"]
      by (auto simp: GetNextFreePage_wf)
  qed
  show "pmm_wf s \<Longrightarrow> p < kNumPageDirEntries \<Longrightarrow> p \<notin> used_pages s \<Longrightarrow> \<exists>s'. SetPageUsed s p = Inr s'"
    by (simp add: SetPageUsed_wf)
  show "pmm_wf s \<Longrightarrow> p < kNumPageDirEntries \<Longrightarrow> SetPageUsed s p = Inr s'
      \<Longrightarrow> pmm_wf s' \<and> p \<notin> used_pages s \<and> used_pages s' = insert p (used_pages s)"
    using SetPageUsed_used by blast
  show "pmm_wf s \<Longrightarrow> p \<in> used_pages s \<Longrightarrow> \<exists>s'. SetPageFree s p = Inr s'"
    by (simp add: SetPageFree_wf used_pages_less)
  show "pmm_wf s \<Longrightarrow> p < kNumPageDirEntries \<Longrightarrow> SetPageFree s p = Inr s'
      \<Longrightarrow> pmm_wf s' \<and> p \<in> used_pages s \<and> used_pages s' = used_pages s - {p}"
    using SetPageFree_used by blast
qed

section \<open>Properties\<close>

lemma tail_used_count:
  fixes n :: nat
  assumes "n \<le> 1024" "{n..<1024} \<subseteq> U"
  shows "{p. p < 8 * ((n + 7) div 8) \<and> p \<notin> U} = {..<n} - U"
proof -
  have "(n + 7) div 8 * 8 + (n + 7) mod 8 = n + 7" "(n + 7) mod 8 < 8" by simp_all
  moreover have "(n + 7) div 8 \<le> 1031 div 8" by (rule div_le_mono) (use assms(1) in simp)
  ultimately have "n \<le> 8 * ((n + 7) div 8)" "8 * ((n + 7) div 8) \<le> 1024" by simp_all
  then have "p < 8 * ((n + 7) div 8) \<and> p \<notin> U \<longleftrightarrow> p \<in> {..<n} - U" for p
    using assms(2) by (cases "n \<le> p") auto
  then show ?thesis by auto
qed

text \<open>C4: the bitmap refines a set of pages. On every page number the address space has,
  \<open>PageIsUsed\<close> answers membership, \<open>SetPageUsed\<close> inserts and \<open>SetPageFree\<close> removes exactly
  that page and keep the bitmap well formed; setting a used page or freeing a free one is the
  assertion failure the code has there.\<close>

theorem pmm_bitmap_refines_set:
  assumes "pmm_wf s" "p < kNumPageDirEntries"
  shows "PageIsUsed s p = Inr (p \<in> used_pages s) \<and>
    (if p \<in> used_pages s
     then SetPageUsed s p = Inl Assert_failed \<and>
       (\<exists>s'. SetPageFree s p = Inr s' \<and> pmm_wf s' \<and> used_pages s' = used_pages s - {p})
     else SetPageFree s p = Inl Assert_failed \<and>
       (\<exists>s'. SetPageUsed s p = Inr s' \<and> pmm_wf s' \<and> used_pages s' = insert p (used_pages s)))"
proof (cases "p \<in> used_pages s")
  case True
  then obtain s' where "SetPageFree s p = Inr s'" using frames.set_free_total assms(1) by blast
  with True assms show ?thesis
    using frames.set_free_D [of s p s'] by (simp add: PageIsUsed_wf SetPageUsed_wf)
next
  case False
  then obtain s' where "SetPageUsed s p = Inr s'" using frames.set_used_total assms by blast
  with False assms show ?thesis
    using frames.set_used_D [of s p s'] by (simp add: PageIsUsed_wf SetPageFree_wf)
qed

lemma pmm_bitmap_refines_set_witness:
  "\<exists>s'. SetPageUsed \<lparr>gNum4MPages = 16, gPhysicalBitmap = replicate 128 0\<rparr> 3 = Inr s'
     \<and> used_pages s' = {3}"
proof -
  let ?s = "\<lparr>gNum4MPages = 16, gPhysicalBitmap = replicate 128 (0::u8)\<rparr>"
  have wf: "pmm_wf ?s" by (simp add: pmm_wf_def pmm_consts)
  have "3 < kNumPageDirEntries" "used_pages ?s = {}"
    by (auto simp: used_pages_def pmm_consts nth_replicate less_mult_imp_div_less)
  then show ?thesis using pmm_bitmap_refines_set [OF wf, of 3] by auto
qed

text \<open>\<open>pmm::Initialize\<close> on every \<open>mem_upper\<close>. With \<open>b\<close> the byte count \<open>mem_upper * 1024\<close> at
  32 bits: it succeeds exactly when \<open>0 < b \<le> 0xFFC00000\<close>, and then all pages that the rounded-up
  memory has are free, all others are marked used and the bitmap is well formed; otherwise it fails
  its assertion (the round-up has wrapped to 0). So the branch for \<open>kNumPageDirEntries\<close> pages is
  never taken.\<close>

theorem pmm_initialize_spec:
  assumes "length (gPhysicalBitmap s0) = bitmap_size"
  shows "if 0 < unat (mem_upper * 1024) \<and> unat (mem_upper * 1024) \<le> 0xFFC00000
    then \<exists>s. pmm_Initialize s0 mem_upper = Inr s \<and> pmm_wf s
       \<and> gNum4MPages s = pages_of_mem mem_upper \<and> pages_of_mem mem_upper < kNumPageDirEntries
       \<and> used_pages s = {pages_of_mem mem_upper..<kNumPageDirEntries}
    else pmm_Initialize s0 mem_upper = Inl Assert_failed"
proof (cases "0 < unat (mem_upper * 1024) \<and> unat (mem_upper * 1024) \<le> 0xFFC00000")
  case True
  then have "pages_of_mem mem_upper < kNumPageDirEntries" by (simp add: pages_of_mem_def pmm_consts less_mult_imp_div_less)
  with True show ?thesis using Initialize_wf [OF assms, of mem_upper] by (auto simp: pmm_consts)
next
  case False
  then show ?thesis using Initialize_fails [of mem_upper s0] by auto
qed

lemma pmm_initialize_spec_witness:
  "\<exists>s. pmm_Initialize \<lparr>gNum4MPages = 0, gPhysicalBitmap = replicate 128 0\<rparr> 130048 = Inr s
     \<and> gNum4MPages s = 32 \<and> used_pages s = {32..<1024}"
proof -
  have "length (gPhysicalBitmap \<lparr>gNum4MPages = 0, gPhysicalBitmap = replicate 128 (0::u8)\<rparr>) = bitmap_size"
    by (simp add: pmm_consts)
  from pmm_initialize_spec [OF this, of 130048] show ?thesis
    by (simp add: pages_of_mem_def pmm_consts) blast
qed

text \<open>\<open>GetNextFreePage\<close> returns the lowest free page among the first
  \<open>8 * (gNum4MPages / 8)\<close> pages, and -1 when all of those are used.\<close>

theorem pmm_next_free_page:
  assumes "pmm_wf s"
  shows "GetNextFreePage s = Inr (next_free_spec (used_pages s) (8 * (gNum4MPages s div 8)))"
  using assms by (rule GetNextFreePage_wf)

lemma pmm_next_free_page_witness:
  "GetNextFreePage \<lparr>gNum4MPages = 32, gPhysicalBitmap = 7 # replicate 127 0\<rparr> = Inr 3"
proof -
  let ?s = "\<lparr>gNum4MPages = 32, gPhysicalBitmap = 7 # replicate 127 (0::u8)\<rparr>"
  have "pmm_wf ?s" by (simp add: pmm_wf_def pmm_consts)
  moreover have "next_free_spec (used_pages ?s) 32 = int 3"
  proof (rule next_free_spec_eqI)
    show "\<forall>q<3. q \<in> used_pages ?s" by (auto simp: used_pages_def pmm_consts less_Suc_eq numeral_3_eq_3)
    show "3 \<notin> used_pages ?s" by (simp add: used_pages_def pmm_consts)
  qed simp
  ultimately show ?thesis using pmm_next_free_page [of ?s] by simp
qed

text \<open>the pages of the last, incomplete group of eight are never handed out. If every page
  below \<open>8 * (gNum4MPages / 8)\<close> is used and a page \<open>p\<close> of the tail is free, \<open>GetNextFreePage\<close>
  still answers -1, although \<open>PageIsUsed\<close> reports \<open>p\<close> as free. A machine with fewer than eight
  pages (32MB) gets no page at all.\<close>

theorem pmm_tail_pages_never_allocated:
  assumes "pmm_wf s" "\<forall>q < 8 * (gNum4MPages s div 8). q \<in> used_pages s"
    and "p < gNum4MPages s" "p \<notin> used_pages s"
  shows "GetNextFreePage s = Inr (-1) \<and> PageIsUsed s p = Inr False"
proof -
  have "p < kNumPageDirEntries" using assms(1,3) by (simp add: pmm_wf_def)
  with assms show ?thesis by (simp add: GetNextFreePage_wf PageIsUsed_wf next_free_spec_def)
qed

lemma pmm_tail_pages_never_allocated_witness:
  "GetNextFreePage \<lparr>gNum4MPages = 7, gPhysicalBitmap = replicate 128 0\<rparr> = Inr (-1)"
proof -
  let ?s = "\<lparr>gNum4MPages = 7, gPhysicalBitmap = replicate 128 (0::u8)\<rparr>"
  have "pmm_wf ?s" "2 \<notin> used_pages ?s" by (simp_all add: pmm_wf_def used_pages_def pmm_consts)
  then show ?thesis using pmm_tail_pages_never_allocated [of ?s 2] by simp
qed

text \<open>with the pages past \<open>gNum4MPages\<close> marked used (as \<open>Initialize\<close> leaves them),
  \<open>GetNumFree4MPages\<close> and \<open>GetNumUsed4MPages\<close> count the free and the used pages.\<close>

theorem pmm_counts:
  assumes "pmm_wf s" "{gNum4MPages s..<kNumPageDirEntries} \<subseteq> used_pages s"
  shows "GetNumFree4MPages s = Inr (card ({..<gNum4MPages s} - used_pages s)) \<and>
    GetNumUsed4MPages s = Inr (card ({..<gNum4MPages s} \<inter> used_pages s))"
proof -
  let ?n = "gNum4MPages s" and ?U = "used_pages s"
  have n: "?n \<le> 1024" using assms(1) by (simp add: pmm_wf_def pmm_consts)
  have free: "GetNumFree4MPages s = Inr (card ({..<?n} - ?U))"
    using GetNumFree_wf [OF assms(1)] tail_used_count [OF n, of ?U] assms(2) by (simp add: pmm_consts)
  have "card {..<?n} = card ({..<?n} - ?U) + card ({..<?n} \<inter> ?U)"
    by (metis card_Diff_subset_Int card_mono diff_add finite_Int finite_lessThan inf_le1)
  with free show ?thesis by (simp add: GetNumUsed4MPages_def)
qed

lemma pmm_counts_witness:
  "GetNumUsed4MPages \<lparr>gNum4MPages = 1024, gPhysicalBitmap = replicate 128 0\<rparr> = Inr 0"
proof -
  let ?s = "\<lparr>gNum4MPages = 1024, gPhysicalBitmap = replicate 128 (0::u8)\<rparr>"
  have "pmm_wf ?s" "used_pages ?s = {}"
    by (auto simp: pmm_wf_def used_pages_def pmm_consts less_mult_imp_div_less)
  then show ?thesis using pmm_counts [of ?s] by (simp add: pmm_consts)
qed

end
