(* ===== verification/Paging.thy ===== *)
theory Paging
  imports Pmm
begin

text \<open>
  Virtual memory, \<open>src/kernel/paging.cpp\<close>. A page directory is its 1024 entries; directories are
  objects that code compares by address, so the state maps references to directories: the static
  \<open>gKernelPageDir\<close> or one on the heap. \<open>phys\<close> is physical memory by bytes, and \<open>translate\<close> is what
  the processor does with an entry when PSE is on and every page is 4 MB. The TLB and the masking
  of interrupts (\<open>DisableInterruptsRAII\<close>) are not modelled.
\<close>

section \<open>Page directories\<close>

definition PG_PRESENT :: u32 where "PG_PRESENT = 0x1"
definition PG_WRITE :: u32 where "PG_WRITE = 0x2"
definition PG_USER :: u8 where "PG_USER = 0x4"
definition PG_4MB :: u32 where "PG_4MB = 0x80"
definition PG_GLOBAL :: u32 where "PG_GLOBAL = 0x100"
definition kPageMask4M :: u32 where "kPageMask4M = NOT 0x3FFFFF"

type_synonym pagedir = "u32 list"

definition getPDE :: "pagedir \<Rightarrow> u32 \<Rightarrow> u32 result" where
  "getPDE pd vaddr =
     check (vaddr mod kPageSize4M = 0)
      (let i = unat (vaddr div kPageSize4M) in if i < length pd then Inr (pd ! i) else Inl Out_of_bounds)"

definition setPDE :: "pagedir \<Rightarrow> u32 \<Rightarrow> u32 \<Rightarrow> pagedir" where
  "setPDE pd vaddr pde = pd[unat (vaddr div kPageSize4M) := pde]"

definition MapPage :: "pagedir \<Rightarrow> u32 \<Rightarrow> u32 \<Rightarrow> u8 \<Rightarrow> pagedir result" where
  "MapPage pd vaddr paddr flags =
     check (paddr mod kPageSize4M = 0)
      (bindr (getPDE pd vaddr) (\<lambda>pde.
       check (pde AND PG_PRESENT = 0)
       (let pde' = paddr OR (PG_PRESENT OR PG_4MB OR PG_WRITE OR ucast flags) in
        check (pde' AND PG_GLOBAL = 0) (Inr (setPDE pd vaddr pde')))))"

definition UnmapPage :: "pagedir \<Rightarrow> u32 \<Rightarrow> pagedir result" where
  "UnmapPage pd vaddr =
     bindr (getPDE pd vaddr) (\<lambda>pde. check (pde AND PG_PRESENT \<noteq> 0) (Inr (setPDE pd vaddr 0)))"

definition VaddrIsMapped :: "pagedir \<Rightarrow> u32 \<Rightarrow> bool result" where
  "VaddrIsMapped pd vaddr = bindr (getPDE pd vaddr) (\<lambda>pde. Inr (pde AND PG_PRESENT \<noteq> 0))"

definition getNumFreeVPages :: "pagedir \<Rightarrow> nat" where
  "getNumFreeVPages pd = sum_list (map (\<lambda>pde. if pde AND PG_PRESENT \<noteq> 0 then 0 else 1) pd)"

function next_free_vpage :: "pagedir \<Rightarrow> nat \<Rightarrow> int" where
  "next_free_vpage pd i =
     (if i < kNumPageDirEntries
      then if pd ! i AND PG_PRESENT = 0 then int i else next_free_vpage pd (Suc i)
      else -1)"
  by pat_completeness auto
termination by (relation "measure (\<lambda>(pd, i). kNumPageDirEntries - i)") auto

definition getNextFreePage :: "pagedir \<Rightarrow> nat \<Rightarrow> int" where
  "getNextFreePage pd lower_bound = next_free_vpage pd lower_bound"

definition getPhysicalAddr :: "pagedir \<Rightarrow> u32 \<Rightarrow> u32 result" where
  "getPhysicalAddr pd vaddr =
     bindr (getPDE pd vaddr) (\<lambda>pde. check (pde AND PG_PRESENT \<noteq> 0) (Inr (pde AND kPageMask4M)))"

definition Clear :: "pagedir \<Rightarrow> pagedir" where
  "Clear pd = replicate (length pd) 0"

section \<open>Address spaces\<close>

datatype pdref = KernelPD | HeapPD u32

record paging =
  pds :: "pdref \<rightharpoonup> pagedir"
  gCurrentPageDir :: pdref
  phys :: "u32 \<Rightarrow> u8"
  cr0 :: u32
  cr4 :: u32

definition load_pd :: "paging \<Rightarrow> pdref \<Rightarrow> pagedir result" where
  "load_pd s r = (case pds s r of Some pd \<Rightarrow> Inr pd | None \<Rightarrow> Inl Use_after_free)"

definition store_pd :: "paging \<Rightarrow> pdref \<Rightarrow> pagedir \<Rightarrow> paging" where
  "store_pd s r pd = s\<lparr>pds := (pds s)(r \<mapsto> pd)\<rparr>"

definition GetCurrentPageDirectory :: "paging \<Rightarrow> pdref" where
  "GetCurrentPageDirectory s = gCurrentPageDir s"

definition GetKernelPageDirectory :: pdref where
  "GetKernelPageDirectory = KernelPD"

definition SwitchPageDirectory :: "paging \<Rightarrow> pdref \<Rightarrow> paging" where
  "SwitchPageDirectory s r = s\<lparr>gCurrentPageDir := r\<rparr>"

definition isKernelPageDir :: "paging \<Rightarrow> pdref \<Rightarrow> bool" where
  "isKernelPageDir s r \<longleftrightarrow> r = gCurrentPageDir s"

text \<open>\<open>Clone\<close>; \<open>addr\<close> is what \<open>operator new\<close> returns.\<close>

definition Clone :: "paging \<Rightarrow> pdref \<Rightarrow> u32 \<Rightarrow> (pdref \<times> paging) result" where
  "Clone s r addr =
     bindr (load_pd s r) (\<lambda>pd. check (addr \<noteq> 0) (Inr (HeapPD addr, store_pd s (HeapPD addr) pd)))"

text \<open>The processor: translating an address, reading and writing a byte.\<close>

definition translate :: "pagedir \<Rightarrow> u32 \<Rightarrow> u32 result" where
  "translate pd va =
     (let pde = pd ! unat (va div kPageSize4M) in
      if pde AND PG_PRESENT \<noteq> 0 then Inr ((pde AND kPageMask4M) OR (va AND 0x3FFFFF)) else Inl Page_fault)"

definition vread :: "paging \<Rightarrow> u32 \<Rightarrow> u8 result" where
  "vread s va = bindr (load_pd s (gCurrentPageDir s)) (\<lambda>pd. bindr (translate pd va) (\<lambda>pa. Inr (phys s pa)))"

definition vwrite :: "paging \<Rightarrow> u32 \<Rightarrow> u8 \<Rightarrow> paging result" where
  "vwrite s va b = bindr (load_pd s (gCurrentPageDir s)) (\<lambda>pd. bindr (translate pd va) (\<lambda>pa.
     Inr (s\<lparr>phys := (phys s)(pa := b)\<rparr>)))"

fun memcpy :: "paging \<Rightarrow> u32 \<Rightarrow> u32 \<Rightarrow> nat \<Rightarrow> paging result" where
  "memcpy s dst src 0 = Inr s"
| "memcpy s dst src (Suc num) =
     bindr (vread s src) (\<lambda>b. bindr (vwrite s dst b) (\<lambda>s'. memcpy s' (dst + 1) (src + 1) num))"

definition TempMap :: "paging \<Rightarrow> pdref \<Rightarrow> u32 \<Rightarrow> (u32 \<times> paging) result" where
  "TempMap s other_pd vaddr =
     (let current_pd = GetCurrentPageDirectory s in
      check (other_pd \<noteq> current_pd)
      (let page_vaddr = PageAddress vaddr; vaddr_offset = vaddr - page_vaddr in
       bindr (load_pd s other_pd) (\<lambda>other.
       bindr (VaddrIsMapped other page_vaddr) (\<lambda>mapped. check mapped
       (bindr (getPhysicalAddr other page_vaddr) (\<lambda>paddr.
        bindr (load_pd s current_pd) (\<lambda>current.
        let free_vpage = getNextFreePage current 0 in
        check (free_vpage \<ge> 0)
        (let new_page_vaddr = PageToAddr (nat free_vpage) in
         bindr (MapPage current new_page_vaddr paddr 0) (\<lambda>current'.
         Inr (new_page_vaddr + vaddr_offset, store_pd s current_pd current'))))))))))"

definition temp_map_unless :: "bool \<Rightarrow> paging \<Rightarrow> pdref \<Rightarrow> u32 \<Rightarrow> (u32 \<times> paging) result" where
  "temp_map_unless here s pd addr = (if here then Inr (addr, s) else TempMap s pd addr)"

definition unmap_in :: "paging \<Rightarrow> pdref \<Rightarrow> u32 \<Rightarrow> paging result" where
  "unmap_in s r vaddr = bindr (load_pd s r) (\<lambda>pd. bindr (UnmapPage pd vaddr) (\<lambda>pd'. Inr (store_pd s r pd')))"

definition unmap_unless :: "bool \<Rightarrow> paging \<Rightarrow> pdref \<Rightarrow> u32 \<Rightarrow> paging result" where
  "unmap_unless here s r addr = (if here then Inr s else unmap_in s r (PageAddress addr))"

definition Memcpy :: "paging \<Rightarrow> pdref \<Rightarrow> pdref \<Rightarrow> u32 \<Rightarrow> u32 \<Rightarrow> nat \<Rightarrow> paging result" where
  "Memcpy s src_pd dst_pd src dst sz =
     (let current_pd = GetCurrentPageDirectory s in
      if src_pd = dst_pd \<and> current_pd = src_pd then memcpy s dst src sz
      else bindr (temp_map_unless (src_pd = current_pd) s src_pd src) (\<lambda>(this_pd_src, s1).
       bindr (temp_map_unless (dst_pd = current_pd) s1 dst_pd dst) (\<lambda>(this_pd_dst, s2).
       bindr (memcpy s2 this_pd_dst this_pd_src sz) (\<lambda>s3.
       bindr (unmap_unless (src_pd = current_pd) s3 current_pd this_pd_src) (\<lambda>s4.
       unmap_unless (dst_pd = current_pd) s4 current_pd this_pd_dst)))))"

text \<open>The two methods: into this directory from the current one, and from another one.\<close>

definition Memcpy_from_current :: "paging \<Rightarrow> pdref \<Rightarrow> u32 \<Rightarrow> u32 \<Rightarrow> nat \<Rightarrow> paging result" where
  "Memcpy_from_current s this dst src sz = Memcpy s (GetCurrentPageDirectory s) this src dst sz"

definition Memcpy_from :: "paging \<Rightarrow> pdref \<Rightarrow> pdref \<Rightarrow> u32 \<Rightarrow> u32 \<Rightarrow> nat \<Rightarrow> paging result" where
  "Memcpy_from s this other_pd dst src sz = Memcpy s other_pd this src dst sz"

section \<open>Starting paging\<close>

definition MapKernelPage :: "u32 \<Rightarrow> pagedir \<Rightarrow> pagedir result" where
  "MapKernelPage kernel_start pd = MapPage pd kernel_start kernel_start (ucast (PG_PRESENT OR PG_WRITE OR PG_4MB))"

definition paging_Initialize :: "u32 \<Rightarrow> u32 \<Rightarrow> pmm \<Rightarrow> paging \<Rightarrow> paging result" where
  "paging_Initialize kernel_start kernel_end p s =
     bindr (load_pd s KernelPD) (\<lambda>pd0.
     let pd1 = Clear pd0 in
     check (kernel_end - kernel_start \<le> kPageSize4M) (check (kernel_start mod kPageSize4M = 0)
     (bindr (PageIsUsed p (unat (kernel_start div kPageSize4M))) (\<lambda>used. check used
      (bindr (MapKernelPage kernel_start pd1) (\<lambda>pd2.
       let s1 = SwitchPageDirectory (store_pd s KernelPD pd2) KernelPD;
           s2 = s1\<lparr>cr4 := cr4 s1 OR 0x10, cr0 := cr0 s1 OR 0x80000000\<rparr> in
       check (cr4 s2 = 0x10) (check (cr0 s2 = 0x80000011) (Inr s2))))))))"

text \<open>\<open>InspectPhysicalMem\<close> up to the printing: the words it prints.\<close>

fun read_words :: "paging \<Rightarrow> u32 \<Rightarrow> nat \<Rightarrow> u8 list result" where
  "read_words s va 0 = Inr []"
| "read_words s va (Suc n) = bindr (vread s va) (\<lambda>b. bindr (read_words s (va + 1) n) (\<lambda>bs. Inr (b # bs)))"

definition InspectPhysicalMem :: "paging \<Rightarrow> u32 \<Rightarrow> u32 \<Rightarrow> (u8 list \<times> paging) result" where
  "InspectPhysicalMem s start end_addr =
     check (start \<le> end_addr)
     (let page_start = PageAddress start; page_end = PageAddress end_addr in
      check (page_start = page_end)
      (bindr (load_pd s (gCurrentPageDir s)) (\<lambda>pd.
       let free_vpage = getNextFreePage pd 0 in
       check (free_vpage \<ge> 0)
       (let vpage = word_of_int free_vpage in
        bindr (MapPage pd vpage page_start 0) (\<lambda>pd'.
        let s1 = store_pd s (gCurrentPageDir s) pd';
            first = start - page_start + vpage; last = end_addr - page_end + vpage;
            words = (unat (last - first) + 3) div 4 in
        bindr (read_words s1 first (4 * words)) (\<lambda>bs.
        bindr (unmap_in s1 (gCurrentPageDir s) vpage) (\<lambda>s2. Inr (bs, s2))))))))"

declare next_free_vpage.simps [simp del]


section \<open>Entries as a partial map of pages\<close>

definition pd_wf :: "pagedir \<Rightarrow> bool" where
  "pd_wf pd \<longleftrightarrow> length pd = kNumPageDirEntries \<and> (\<forall>e \<in> set pd. e = 0 \<or> bit e 0)"

definition vmap :: "pagedir \<Rightarrow> nat \<rightharpoonup> nat" where
  "vmap pd v = (if v < length pd \<and> bit (pd ! v) 0 then Some (unat (drop_bit 22 (pd ! v))) else None)"

lemma PageToAddr_eq: "PageToAddr p = push_bit 22 (word_of_nat p)"
  by (simp add: PageToAddr_def kPageSize4M_def push_bit_eq_mult mult.commute)

lemma addr_div: "(a :: u32) div kPageSize4M = drop_bit 22 a"
  by (simp add: kPageSize4M_def drop_bit_eq_div)

lemma addr_mod: "(a :: u32) mod kPageSize4M = take_bit 22 a"
  by (simp add: kPageSize4M_def take_bit_eq_mod)

lemma mask22: "(0x3FFFFF :: u32) = mask 22"
  by (simp add: mask_eq_exp_minus_1)

lemma present_iff: "(e :: u32) AND PG_PRESENT = 0 \<longleftrightarrow> \<not> bit e 0"
  using and_exp_eq_0_iff_not_bit [of e 0] by (simp add: PG_PRESENT_def)

lemma PageToAddr_facts:
  assumes "p < 1024"
  shows "drop_bit 22 (PageToAddr p) = word_of_nat p" "take_bit 22 (PageToAddr p) = 0"
    "unat (word_of_nat p :: u32) = p" "unat (PageToAddr p) = p * 0x400000"
proof -
  have b: "i < 10" if "bit p i" for i
  proof (rule ccontr)
    assume "\<not> i < 10"
    have "p < 2 ^ 10" using assms by simp
    also have "(2::nat) ^ 10 \<le> 2 ^ i" using \<open>\<not> i < 10\<close> by (intro power_increasing) auto
    finally show False using that by (simp add: bit_iff_odd)
  qed
  show "drop_bit 22 (PageToAddr p) = word_of_nat p"
    unfolding PageToAddr_eq by (rule bit_word_eqI) (auto simp: bit_simps dest: b)
  show "take_bit 22 (PageToAddr p) = 0"
    unfolding PageToAddr_eq by (rule bit_word_eqI) (auto simp: bit_simps)
  show "unat (word_of_nat p :: u32) = p" using assms by (simp add: unat_of_nat_u32)
  have "unat (word_of_nat (p * 0x400000) :: u32) = p * 0x400000" using assms by (intro unat_of_nat_u32) simp
  then show "unat (PageToAddr p) = p * 0x400000" by (simp add: PageToAddr_def kPageSize4M_def)
qed

text \<open>An entry made from a page and low bits.\<close>

lemma entry_facts:
  assumes "p < 1024" "take_bit 22 fl = (fl :: u32)"
  shows "drop_bit 22 (PageToAddr p OR fl) = word_of_nat p" "bit (PageToAddr p OR fl) i = (if i < 22 then bit fl i else bit (PageToAddr p) i)"
    "(PageToAddr p OR fl) AND kPageMask4M = PageToAddr p"
proof -
  have f: "\<not> bit fl i" if "22 \<le> i" for i using assms(2) that by (metis bit_take_bit_iff not_less)
  have q: "\<not> bit (PageToAddr p) i" if "i < 22" for i
    using PageToAddr_facts(2) [OF assms(1)] that by (metis bit_0_eq bit_take_bit_iff bot2E bot_apply)
  show bi: "bit (PageToAddr p OR fl) i = (if i < 22 then bit fl i else bit (PageToAddr p) i)" for i
    using f [of i] q [of i] by (auto simp: bit_or_iff)
  show "(PageToAddr p OR fl) AND kPageMask4M = PageToAddr p" unfolding kPageMask4M_def mask22
    by (rule bit_word_eqI) (use f q in \<open>auto simp: bit_simps\<close>)
  have "drop_bit 22 fl = 0" by (rule bit_word_eqI) (use f in \<open>auto simp: bit_simps\<close>)
  then show "drop_bit 22 (PageToAddr p OR fl) = word_of_nat p"
    using PageToAddr_facts(1) [OF assms(1)] by simp
qed


lemma page_of_entry: "(e :: u32) AND kPageMask4M = PageToAddr (unat (drop_bit 22 e))"
  unfolding PageToAddr_eq kPageMask4M_def mask22 by (rule bit_word_eqI) (auto simp: bit_simps)

lemma page_offset:
  assumes "off < 0x400000"
  shows "PageToAddr v + word_of_nat off = PageToAddr v OR (word_of_nat off)"
    "take_bit 22 (word_of_nat off :: u32) = word_of_nat off"
proof -
  show t: "take_bit 22 (word_of_nat off :: u32) = word_of_nat off"
    using assms by (simp add: word_unat_eq_iff unsigned_take_bit_eq unat_of_nat_u32 take_bit_nat_eq_self)
  have "\<not> bit (PageToAddr v) n \<or> \<not> bit (word_of_nat off :: u32) n" for n
  proof (cases "n < 22")
    case True
    then show ?thesis by (simp add: PageToAddr_eq bit_simps)
  next
    case False
    then have "\<not> bit (take_bit 22 (word_of_nat off :: u32)) n" by (simp add: bit_take_bit_iff)
    then show ?thesis by (simp only: t) simp
  qed
  then show "PageToAddr v + word_of_nat off = PageToAddr v OR (word_of_nat off)"
    by (intro disjunctive_add_eq_or) (auto simp: bit_eq_iff bit_and_iff)
qed

lemma unat_drop_22: "unat (drop_bit 22 (a :: u32)) < 1024"
  using unat_lt_u32 [of a] by (simp add: drop_bit_eq_div unat_div less_mult_imp_div_less)

lemma addr_split: "(a :: u32) = PageToAddr (unat (drop_bit 22 a)) + word_of_nat (unat (take_bit 22 a))"
  "unat (take_bit 22 (a :: u32)) < 0x400000"
proof -
  show "unat (take_bit 22 (a :: u32)) < 0x400000" by (simp add: take_bit_eq_mod unat_mod)
  from page_offset(1) [OF this, of "unat (drop_bit 22 a)"]
  show "a = PageToAddr (unat (drop_bit 22 a)) + word_of_nat (unat (take_bit 22 a))"
    by (simp add: PageToAddr_eq) (rule bit_word_eqI, auto simp: bit_simps)
qed

lemma PageAddress_split: "PageAddress a = PageToAddr (unat (drop_bit 22 a))"
  by (simp add: PageAddress_def AddrToPage_def addr_div)

definition mk_entry :: "nat \<Rightarrow> u8 \<Rightarrow> u32" where
  "mk_entry p fl = PageToAddr p OR (PG_PRESENT OR PG_4MB OR PG_WRITE OR ucast fl)"

lemma mk_entry_facts:
  assumes "p < 1024"
  shows "bit (mk_entry p fl) 0" "unat (drop_bit 22 (mk_entry p fl)) = p" "mk_entry p fl AND PG_GLOBAL = 0"
proof -
  let ?f = "PG_PRESENT OR PG_4MB OR PG_WRITE OR ucast fl :: u32"
  have u: "bit (ucast fl :: u32) i \<Longrightarrow> i < 8" for i by (simp add: bit_simps) (auto dest: bit_imp_le_length)
  have c: "(PG_PRESENT OR PG_4MB OR PG_WRITE :: u32) = 0x83" by (simp add: PG_PRESENT_def PG_4MB_def PG_WRITE_def)
  have "take_bit 22 (0x83 :: u32) = 0x83"
    by (simp add: word_unat_eq_iff unsigned_take_bit_eq take_bit_eq_mod)
  moreover have "take_bit 22 (ucast fl) = (ucast fl :: u32)"
    by (rule bit_word_eqI) (use u in \<open>auto simp: bit_take_bit_iff dest: u\<close>)
  ultimately have t: "take_bit 22 (0x83 OR ucast fl) = (0x83 OR ucast fl :: u32)" by (simp only: take_bit_or)
  note e = entry_facts [OF assms t]
  have m: "mk_entry p fl = PageToAddr p OR (0x83 OR ucast fl)" unfolding mk_entry_def c [symmetric] by (simp add: or.assoc)
  show "bit (mk_entry p fl) 0" unfolding m e(2) by (simp add: bit_or_iff)
  show "unat (drop_bit 22 (mk_entry p fl)) = p" unfolding m e(1) using PageToAddr_facts(3) [OF assms] .
  have "\<not> bit (mk_entry p fl) 8" unfolding m e(2) using u [of 8] by (auto simp: bit_or_iff)
  then show "mk_entry p fl AND PG_GLOBAL = 0"
    using and_exp_eq_0_iff_not_bit [of "mk_entry p fl" 8] by (simp add: PG_GLOBAL_def)
qed

lemma getPDE_page: "pd_wf pd \<Longrightarrow> v < 1024 \<Longrightarrow> getPDE pd (PageToAddr v) = Inr (pd ! v)"
  by (simp add: getPDE_def addr_div addr_mod PageToAddr_facts pd_wf_def kNumPageDirEntries_def Let_def)

lemma setPDE_page: "v < 1024 \<Longrightarrow> setPDE pd (PageToAddr v) e = pd[v := e]"
  by (simp add: setPDE_def addr_div PageToAddr_facts)

lemma dom_vmap: "pd_wf pd \<Longrightarrow> v < 1024 \<Longrightarrow> v \<in> dom (vmap pd) \<longleftrightarrow> bit (pd ! v) 0"
  by (auto simp: vmap_def pd_wf_def kNumPageDirEntries_def dom_def)

lemma vmap_bound: "vmap pd v = Some p \<Longrightarrow> v < length pd \<and> p < 1024"
  by (auto simp: vmap_def unat_drop_22 split: if_splits)

lemma MapPage_page:
  assumes "pd_wf pd" "v < 1024" "p < 1024"
  shows "MapPage pd (PageToAddr v) (PageToAddr p) fl =
    (if v \<in> dom (vmap pd) then Inl Assert_failed else Inr (pd[v := mk_entry p fl]))"
  using assms mk_entry_facts [OF assms(3), of fl]
  by (simp add: MapPage_def getPDE_page setPDE_page addr_mod PageToAddr_facts present_iff dom_vmap mk_entry_def [symmetric]
      Let_def check_def del: disj_not1)

lemma UnmapPage_page:
  assumes "pd_wf pd" "v < 1024"
  shows "UnmapPage pd (PageToAddr v) = (if v \<in> dom (vmap pd) then Inr (pd[v := 0]) else Inl Assert_failed)"
  using assms by (simp add: UnmapPage_def getPDE_page setPDE_page present_iff dom_vmap check_def)

lemma VaddrIsMapped_page:
  "pd_wf pd \<Longrightarrow> v < 1024 \<Longrightarrow> VaddrIsMapped pd (PageToAddr v) = Inr (v \<in> dom (vmap pd))"
  by (simp add: VaddrIsMapped_def getPDE_page present_iff dom_vmap)

lemma getPhysicalAddr_page:
  "pd_wf pd \<Longrightarrow> v < 1024 \<Longrightarrow> getPhysicalAddr pd (PageToAddr v) =
    (case vmap pd v of Some p \<Rightarrow> Inr (PageToAddr p) | None \<Rightarrow> Inl Assert_failed)"
  by (simp add: getPhysicalAddr_def getPDE_page present_iff check_def page_of_entry vmap_def pd_wf_def kNumPageDirEntries_def)

lemma vmap_map:
  assumes "pd_wf pd" "v < 1024" "p < 1024"
  shows "vmap (pd[v := mk_entry p fl]) = (vmap pd)(v \<mapsto> p)" "pd_wf (pd[v := mk_entry p fl])"
proof -
  show "vmap (pd[v := mk_entry p fl]) = (vmap pd)(v \<mapsto> p)"
    using assms mk_entry_facts [OF assms(3), of fl]
    by (intro ext) (auto simp: vmap_def pd_wf_def kNumPageDirEntries_def nth_list_update)
  show "pd_wf (pd[v := mk_entry p fl])"
    using assms mk_entry_facts [OF assms(3), of fl] by (auto simp: pd_wf_def dest!: set_update_subset_insert [THEN subsetD])
qed

lemma vmap_unmap:
  assumes "pd_wf pd" "v < 1024"
  shows "vmap (pd[v := 0]) = (vmap pd)(v := None)" "pd_wf (pd[v := 0])"
proof -
  show "vmap (pd[v := 0]) = (vmap pd)(v := None)"
    using assms by (intro ext) (auto simp: vmap_def pd_wf_def kNumPageDirEntries_def nth_list_update)
  show "pd_wf (pd[v := 0])"
    using assms by (auto simp: pd_wf_def dest!: set_update_subset_insert [THEN subsetD])
qed

lemma free_entry: "pd_wf pd \<Longrightarrow> v < 1024 \<Longrightarrow> v \<notin> dom (vmap pd) \<Longrightarrow> pd ! v = 0"
  by (auto simp: dom_vmap) (auto simp: pd_wf_def kNumPageDirEntries_def)

lemma getNextFreePage_spec:
  assumes "pd_wf pd" "lb \<le> 1024"
  shows "(\<exists>v. getNextFreePage pd lb = int v \<and> lb \<le> v \<and> v < 1024 \<and> v \<notin> dom (vmap pd) \<and> {lb..<v} \<subseteq> dom (vmap pd))
    \<or> (getNextFreePage pd lb = -1 \<and> {lb..<1024} \<subseteq> dom (vmap pd))"
  unfolding getNextFreePage_def using assms(2)
proof (induction "1024 - lb" arbitrary: lb)
  case 0
  then show ?case by (subst next_free_vpage.simps) (simp add: kNumPageDirEntries_def)
next
  case (Suc n)
  then have lb: "lb < 1024" by simp
  have step: "next_free_vpage pd lb = (if lb \<in> dom (vmap pd) then next_free_vpage pd (Suc lb) else int lb)"
    using dom_vmap [OF assms(1) lb] lb
    by (subst next_free_vpage.simps) (simp add: kNumPageDirEntries_def present_iff)
  show ?case
  proof (cases "lb \<in> dom (vmap pd)")
    case True
    have ins: "{lb..<v} \<subseteq> dom (vmap pd) \<longleftrightarrow> {Suc lb..<v} \<subseteq> dom (vmap pd)" if "lb < v" for v
    proof -
      have "{lb..<v} = insert lb {Suc lb..<v}" using that by auto
      then show ?thesis using True by simp
    qed
    have "n = 1024 - Suc lb" "Suc lb \<le> 1024" using Suc(2) lb by auto
    from Suc(1) [OF this] show ?thesis
    proof (elim disjE exE)
      fix v assume v: "next_free_vpage pd (Suc lb) = int v \<and> Suc lb \<le> v \<and> v < 1024 \<and> v \<notin> dom (vmap pd) \<and> {Suc lb..<v} \<subseteq> dom (vmap pd)"
      with True ins [of v] step show ?thesis by (intro disjI1 exI [of _ v]) auto
    qed (use True ins [of 1024] lb step in simp)
  qed (use lb step in auto)
qed

lemma translate_page:
  assumes "pd_wf pd" "vmap pd v = Some p" "off < 0x400000"
  shows "translate pd (PageToAddr v + word_of_nat off) = Inr (PageToAddr p + word_of_nat off)"
proof -
  have v: "v < 1024" using assms by (auto simp: vmap_def pd_wf_def kNumPageDirEntries_def split: if_splits)
  have e: "bit (pd ! v) 0" "p = unat (drop_bit 22 (pd ! v))" using assms(2) by (auto simp: vmap_def split: if_splits)
  note o = page_offset [OF assms(3)] and f = entry_facts [OF v page_offset(2) [OF assms(3)]]
  have "(PageToAddr v OR word_of_nat off) AND 0x3FFFFF = (word_of_nat off :: u32)"
    unfolding mask22 using o(2) PageToAddr_facts(2) [OF v] by (simp add: take_bit_eq_mask [symmetric])
  then show ?thesis
    using e f PageToAddr_facts(3) [OF v] o(1)
    by (simp add: translate_def addr_div present_iff Let_def page_of_entry)
qed


section \<open>The interface of an address space\<close>

text \<open>A table of page mappings as its users see it: mapping a free page adds it, unmapping removes
  it, a search finds a free page while there is one.\<close>

locale address_space =
  fixes inv :: "'d \<Rightarrow> bool"
    and maps :: "'d \<Rightarrow> nat \<rightharpoonup> nat"
    and map_page :: "'d \<Rightarrow> nat \<Rightarrow> nat \<Rightarrow> 'd result"
    and unmap_page :: "'d \<Rightarrow> nat \<Rightarrow> 'd result"
    and next_free :: "'d \<Rightarrow> int"
    and limit :: nat
  assumes map_law: "inv d \<Longrightarrow> v < limit \<Longrightarrow> p < limit \<Longrightarrow> v \<notin> dom (maps d) \<Longrightarrow>
      \<exists>d'. map_page d v p = Inr d' \<and> inv d' \<and> maps d' = (maps d)(v \<mapsto> p)"
    and unmap_law: "inv d \<Longrightarrow> v < limit \<Longrightarrow> v \<in> dom (maps d) \<Longrightarrow>
      \<exists>d'. unmap_page d v = Inr d' \<and> inv d' \<and> maps d' = (maps d)(v := None)"
    and next_free_law: "inv d \<Longrightarrow> (\<exists>v. v < limit \<and> v \<notin> dom (maps d) \<and> next_free d = int v)
      \<or> {..<limit} \<subseteq> dom (maps d) \<and> next_free d < 0"
    and dom_law: "inv d \<Longrightarrow> dom (maps d) \<subseteq> {..<limit}"
begin

text \<open>Mapping pages one after the other at the lowest free page succeeds while one is left.\<close>

lemma map_next_free:
  assumes "inv d" "p < limit" "card (dom (maps d)) < limit"
  shows "\<exists>v d'. next_free d = int v \<and> v < limit \<and> v \<notin> dom (maps d) \<and> map_page d v p = Inr d' \<and> inv d'
    \<and> maps d' = (maps d)(v \<mapsto> p) \<and> card (dom (maps d')) = Suc (card (dom (maps d)))"
proof -
  have fin: "finite (dom (maps d))" using dom_law [OF assms(1)] finite_subset by blast
  have "\<not> {..<limit} \<subseteq> dom (maps d)"
    using assms(3) card_mono [OF fin, of "{..<limit}"] by auto
  then obtain v where v: "v < limit" "v \<notin> dom (maps d)" "next_free d = int v"
    using next_free_law [OF assms(1)] by blast
  from map_law [OF assms(1) v(1) assms(2) v(2)] obtain d' where
    "map_page d v p = Inr d'" "inv d'" "maps d' = (maps d)(v \<mapsto> p)" by blast
  with v fin show ?thesis by (intro exI [of _ v] exI [of _ d']) auto
qed

lemma map_unmap:
  assumes "inv d" "v < limit" "p < limit" "v \<notin> dom (maps d)"
  shows "\<exists>d' d''. map_page d v p = Inr d' \<and> unmap_page d' v = Inr d'' \<and> inv d'' \<and> maps d'' = maps d"
proof -
  from map_law [OF assms] obtain d' where d': "map_page d v p = Inr d'" "inv d'" "maps d' = (maps d)(v \<mapsto> p)" by blast
  with unmap_law [OF d'(2) assms(2)] obtain d'' where "unmap_page d' v = Inr d''" "inv d''" "maps d'' = (maps d')(v := None)"
    by auto
  moreover have "maps d v = None" using assms(4) by auto
  ultimately show ?thesis using d' by (intro exI [of _ d'] exI [of _ d'']) auto
qed

end

definition map_page4m :: "u8 \<Rightarrow> pagedir \<Rightarrow> nat \<Rightarrow> nat \<Rightarrow> pagedir result" where
  "map_page4m fl pd v p = MapPage pd (PageToAddr v) (PageToAddr p) fl"

definition unmap_page4m :: "pagedir \<Rightarrow> nat \<Rightarrow> pagedir result" where
  "unmap_page4m pd v = UnmapPage pd (PageToAddr v)"

interpretation dirs: address_space pd_wf vmap "map_page4m fl" unmap_page4m "\<lambda>pd. getNextFreePage pd 0" 1024 for fl
proof
  fix d v p assume a: "pd_wf d" "v < (1024::nat)" "p < (1024::nat)" "v \<notin> dom (vmap d)"
  then show "\<exists>d'. map_page4m fl d v p = Inr d' \<and> pd_wf d' \<and> vmap d' = (vmap d)(v \<mapsto> p)"
    using MapPage_page [OF a(1-3), of fl] vmap_map [OF a(1-3), of fl] by (auto simp: map_page4m_def)
next
  fix d v assume a: "pd_wf d" "v < (1024::nat)" "v \<in> dom (vmap d)"
  then show "\<exists>d'. unmap_page4m d v = Inr d' \<and> pd_wf d' \<and> vmap d' = (vmap d)(v := None)"
    using UnmapPage_page [OF a(1,2)] vmap_unmap [OF a(1,2)] by (auto simp: unmap_page4m_def)
next
  fix d assume a: "pd_wf d"
  have "{0..<1024} = {..<(1024::nat)}" by auto
  then show "(\<exists>v. v < 1024 \<and> v \<notin> dom (vmap d) \<and> getNextFreePage d 0 = int v)
      \<or> {..<1024} \<subseteq> dom (vmap d) \<and> getNextFreePage d 0 < 0"
    using getNextFreePage_spec [OF a, of 0] by auto
next
  fix d assume a: "pd_wf d"
  then show "dom (vmap d) \<subseteq> {..<1024}" by (auto simp: pd_wf_def kNumPageDirEntries_def dest!: vmap_bound)
qed


section \<open>Copying between address spaces\<close>

definition pcopy :: "(u32 \<Rightarrow> u8) \<Rightarrow> nat \<Rightarrow> nat \<Rightarrow> nat \<Rightarrow> u32 \<Rightarrow> u8" where
  "pcopy m d s n = (\<lambda>x. if d \<le> unat x \<and> unat x < d + n then m (word_of_nat (unat x - d + s)) else m x)"

lemma pcopy_step:
  assumes "s + Suc n \<le> d \<or> d + Suc n \<le> s" "d < 4294967296" "s + n < 4294967296"
  shows "pcopy (m(word_of_nat d := m (word_of_nat s))) (Suc d) (Suc s) n = pcopy m d s (Suc n)"
proof (rule ext)
  fix x :: u32
  have ux: "word_of_nat (unat x) = x" by simp
  have d: "x = word_of_nat d \<longleftrightarrow> unat x = d" using assms(2) by (metis ux unat_of_nat_u32)
  have ne: "word_of_nat (unat x - d + s) \<noteq> (word_of_nat d :: u32)" if "d < unat x" "unat x < d + Suc n"
    using that assms by (subst of_nat_eq_u32) auto
  have e: "unat x - Suc d + Suc s = unat x - d + s" if "d < unat x" using that by simp
  show "pcopy (m(word_of_nat d := m (word_of_nat s))) (Suc d) (Suc s) n x = pcopy m d s (Suc n) x"
  proof (cases "unat x = d")
    case True
    with d show ?thesis by (simp add: pcopy_def)
  next
    case False
    with d e ne show ?thesis by (simp add: pcopy_def Suc_le_eq del: add_Suc_right)
  qed
qed

lemma page_byte: "PageToAddr p + word_of_nat off = word_of_nat (p * 0x400000 + off)"
  by (simp add: PageToAddr_def kPageSize4M_def)

lemma memcpy_page:
  assumes "pds s (gCurrentPageDir s) = Some pd" "pd_wf pd" "vmap pd v1 = Some p1" "vmap pd v2 = Some p2"
    "o1 + n \<le> 0x400000" "o2 + n \<le> 0x400000"
    "p1 * 0x400000 + o1 + n \<le> p2 * 0x400000 + o2 \<or> p2 * 0x400000 + o2 + n \<le> p1 * 0x400000 + o1"
  shows "memcpy s (PageToAddr v2 + word_of_nat o2) (PageToAddr v1 + word_of_nat o1) n =
    Inr (s\<lparr>phys := pcopy (phys s) (p2 * 0x400000 + o2) (p1 * 0x400000 + o1) n\<rparr>)"
  using assms
proof (induction n arbitrary: s o1 o2)
  case 0
  have "pcopy (phys s) a b 0 = phys s" for a b by (auto simp: pcopy_def fun_eq_iff)
  then show ?case by simp
next
  case (Suc n)
  let ?P1 = "p1 * 0x400000 + o1" and ?P2 = "p2 * 0x400000 + o2"
  have p: "p1 < 1024" "p2 < 1024" using Suc(4,5) vmap_bound by blast+
  let ?s = "s\<lparr>phys := (phys s)(word_of_nat ?P2 := phys s (word_of_nat ?P1))\<rparr>"
  have r: "vread s (PageToAddr v1 + word_of_nat o1) = Inr (phys s (word_of_nat ?P1))"
    using Suc(2,6) translate_page [OF Suc(3,4), of o1] by (simp add: vread_def load_pd_def page_byte del: of_nat_add)
  have w: "vwrite s (PageToAddr v2 + word_of_nat o2) b = Inr (s\<lparr>phys := (phys s)(word_of_nat ?P2 := b)\<rparr>)" for b
    using Suc(2,7) translate_page [OF Suc(3,5), of o2] by (simp add: vwrite_def load_pd_def page_byte del: of_nat_add)
  have "memcpy ?s (PageToAddr v2 + word_of_nat (Suc o2)) (PageToAddr v1 + word_of_nat (Suc o1)) n =
    Inr (?s\<lparr>phys := pcopy (phys ?s) (p2 * 0x400000 + Suc o2) (p1 * 0x400000 + Suc o1) n\<rparr>)"
    by (rule Suc(1)) (use Suc(2-8) in auto)
  moreover have "pcopy (phys ?s) (p2 * 0x400000 + Suc o2) (p1 * 0x400000 + Suc o1) n = pcopy (phys s) ?P2 ?P1 (Suc n)"
    using pcopy_step [of ?P1 n ?P2 "phys s"] Suc(6-8) p by simp
  ultimately show ?case using r w by (simp add: ac_simps del: of_nat_add)
qed

text \<open>\<open>TempMap\<close> adds one mapping to the current directory, at a page that was free.\<close>

lemma TempMap_page:
  assumes "pds s (gCurrentPageDir s) = Some cpd" "pd_wf cpd" "card (dom (vmap cpd)) < 1024"
    "other \<noteq> gCurrentPageDir s" "pds s other = Some opd" "pd_wf opd" "vmap opd v = Some p" "off < 0x400000"
  shows "\<exists>f. f < 1024 \<and> f \<notin> dom (vmap cpd) \<and>
    TempMap s other (PageToAddr v + word_of_nat off) =
      Inr (PageToAddr f + word_of_nat off, store_pd s (gCurrentPageDir s) (cpd[f := mk_entry p 0]))"
proof -
  have v: "v < 1024" "p < 1024" using vmap_bound [OF assms(7)] assms(6) by (auto simp: pd_wf_def kNumPageDirEntries_def)
  have pa: "PageAddress (PageToAddr v + word_of_nat off) = PageToAddr v"
    using page_offset [OF assms(8)] entry_facts(1) [OF v(1) page_offset(2) [OF assms(8)]] PageToAddr_facts(3) [OF v(1)]
    by (simp add: PageAddress_split)
  from dirs.map_next_free [OF assms(2) v(2) assms(3), of 0] obtain f where
    f: "getNextFreePage cpd 0 = int f" "f < 1024" "f \<notin> dom (vmap cpd)" by blast
  have "v \<in> dom (vmap opd)" using assms(7) by auto
  with f v assms show ?thesis
    by (intro exI [of _ f])
      (simp add: TempMap_def Let_def GetCurrentPageDirectory_def load_pd_def pa VaddrIsMapped_page getPhysicalAddr_page MapPage_page)
qed


lemma store_pd_simps [simp]:
  "pds (store_pd s r pd) = (pds s)(r \<mapsto> pd)" "gCurrentPageDir (store_pd s r pd) = gCurrentPageDir s"
  "phys (store_pd s r pd) = phys s" "cr0 (store_pd s r pd) = cr0 s" "cr4 (store_pd s r pd) = cr4 s"
  "store_pd (store_pd s r pd) r pd' = store_pd s r pd'" "pds s r = Some pd \<Longrightarrow> store_pd s r pd = s"
  "store_pd s r pd\<lparr>phys := m\<rparr> = store_pd (s\<lparr>phys := m\<rparr>) r pd"
  by (auto simp: store_pd_def fun_upd_idem)

text \<open>Bringing an address of the directory \<open>r\<close> into the current one; \<open>undo\<close> is the table entry to clear.\<close>

definition temp_entry :: "bool \<Rightarrow> nat \<Rightarrow> nat \<Rightarrow> pagedir \<Rightarrow> pagedir" where
  "temp_entry here f p pd = (if here then pd else pd[f := mk_entry p 0])"

lemma temp_map_page:
  assumes "pds s (gCurrentPageDir s) = Some cpd" "pd_wf cpd" "card (dom (vmap cpd)) < 1024"
    "pds s r = Some opd" "pd_wf opd" "vmap opd v = Some p" "off < 0x400000"
  shows "\<exists>f. f < 1024 \<and> (r \<noteq> gCurrentPageDir s \<longrightarrow> f \<notin> dom (vmap cpd)) \<and>
    temp_map_unless (r = gCurrentPageDir s) s r (PageToAddr v + word_of_nat off) =
      Inr (PageToAddr f + word_of_nat off, store_pd s (gCurrentPageDir s) (temp_entry (r = gCurrentPageDir s) f p cpd))
    \<and> pd_wf (temp_entry (r = gCurrentPageDir s) f p cpd)
    \<and> vmap (temp_entry (r = gCurrentPageDir s) f p cpd) = (vmap cpd)(f \<mapsto> p)
    \<and> card (dom (vmap (temp_entry (r = gCurrentPageDir s) f p cpd))) \<le> Suc (card (dom (vmap cpd)))"
proof -
  have v: "v < 1024" "p < 1024" using vmap_bound [OF assms(6)] assms(5) by (auto simp: pd_wf_def kNumPageDirEntries_def)
  show ?thesis
  proof (cases "r = gCurrentPageDir s")
    case True
    with assms v show ?thesis
      by (intro exI [of _ v]) (auto simp: temp_map_unless_def temp_entry_def fun_upd_idem)
  next
    case False
    from TempMap_page [OF assms(1-3) False assms(4-7)] obtain f where f: "f < 1024" "f \<notin> dom (vmap cpd)"
      "TempMap s r (PageToAddr v + word_of_nat off) =
        Inr (PageToAddr f + word_of_nat off, store_pd s (gCurrentPageDir s) (cpd[f := mk_entry p 0]))" by blast
    have "finite (dom (vmap cpd))" using finite_subset [OF dirs.dom_law [OF assms(2)]] by simp
    with False f vmap_map [OF assms(2) f(1) v(2), of 0] show ?thesis
      by (intro exI [of _ f]) (auto simp: temp_map_unless_def temp_entry_def card_insert_if)
  qed
qed

lemma unmap_temp:
  assumes "pds s r = Some (temp_entry here f p cpd)" "pd_wf cpd" "f < 1024" "p < 1024" "\<not> here \<longrightarrow> f \<notin> dom (vmap cpd)"
    "off < 0x400000"
  shows "unmap_unless here s r (PageToAddr f + word_of_nat off) = Inr (store_pd s r cpd)"
proof (cases here)
  case True
  with assms(1) show ?thesis by (simp add: unmap_unless_def temp_entry_def)
next
  case False
  note m = vmap_map [OF assms(2,3,4), of 0]
  have "PageAddress (PageToAddr f + word_of_nat off) = PageToAddr f"
    using page_offset [OF assms(6)] entry_facts(1) [OF assms(3) page_offset(2) [OF assms(6)]] PageToAddr_facts(3) [OF assms(3)]
    by (simp add: PageAddress_split)
  moreover have "cpd[f := mk_entry p 0, f := 0] = cpd"
    using free_entry [OF assms(2,3)] False assms(5) by (metis list_update_id list_update_overwrite)
  ultimately show ?thesis using False assms(1) UnmapPage_page [OF m(2) assms(3)] m(1)
    by (simp add: unmap_unless_def unmap_in_def load_pd_def temp_entry_def)
qed


lemma temp_entry_swap:
  "here1 \<or> here2 \<or> f1 \<noteq> f2 \<Longrightarrow> temp_entry here2 f2 p2 (temp_entry here1 f1 p1 pd) = temp_entry here1 f1 p1 (temp_entry here2 f2 p2 pd)"
  by (auto simp: temp_entry_def list_update_swap)

lemma temp_entry_wf: "pd_wf pd \<Longrightarrow> f < 1024 \<Longrightarrow> p < 1024 \<Longrightarrow> pd_wf (temp_entry here f p pd)"
  using vmap_map(2) by (simp add: temp_entry_def)

lemma temp_entry_dom: "pd_wf pd \<Longrightarrow> f < 1024 \<Longrightarrow> p < 1024 \<Longrightarrow>
    dom (vmap (temp_entry here f p pd)) = (if here then dom (vmap pd) else insert f (dom (vmap pd)))"
  using vmap_map(1) [of pd f p 0] by (simp add: temp_entry_def)

lemma Memcpy_pages:
  assumes cur: "pds s (gCurrentPageDir s) = Some cpd" "pd_wf cpd" "card (dom (vmap cpd)) + 2 \<le> 1024"
    and src: "pds s sp = Some spd" "pd_wf spd" "vmap spd v1 = Some p1" "o1 < 0x400000" "o1 + n \<le> 0x400000"
    and dst: "pds s dp = Some dpd" "pd_wf dpd" "vmap dpd v2 = Some p2" "o2 < 0x400000" "o2 + n \<le> 0x400000"
    and dj: "p1 * 0x400000 + o1 + n \<le> p2 * 0x400000 + o2 \<or> p2 * 0x400000 + o2 + n \<le> p1 * 0x400000 + o1"
  shows "Memcpy s sp dp (PageToAddr v1 + word_of_nat o1) (PageToAddr v2 + word_of_nat o2) n =
    Inr (s\<lparr>phys := pcopy (phys s) (p2 * 0x400000 + o2) (p1 * 0x400000 + o1) n\<rparr>)"
proof (cases "sp = dp \<and> gCurrentPageDir s = sp")
  case True
  with memcpy_page [OF cur(1,2), of v1 p1 v2 p2 o1 n o2] cur src dst dj show ?thesis
    by (simp add: Memcpy_def Let_def GetCurrentPageDirectory_def)
next
  case False
  let ?c = "gCurrentPageDir s" and ?h1 = "sp = gCurrentPageDir s" and ?h2 = "dp = gCurrentPageDir s"
  have p: "p1 < 1024" "p2 < 1024" using vmap_bound src(3) dst(3) by blast+
  have "card (dom (vmap cpd)) < 1024" using cur(3) by simp
  from temp_map_page [OF cur(1,2) this src(1-4)] obtain f1 where f1: "f1 < 1024" "\<not> ?h1 \<longrightarrow> f1 \<notin> dom (vmap cpd)"
    and t1: "temp_map_unless ?h1 s sp (PageToAddr v1 + word_of_nat o1) =
      Inr (PageToAddr f1 + word_of_nat o1, store_pd s ?c (temp_entry ?h1 f1 p1 cpd))"
    and w1: "pd_wf (temp_entry ?h1 f1 p1 cpd)" "vmap (temp_entry ?h1 f1 p1 cpd) = (vmap cpd)(f1 \<mapsto> p1)"
      "card (dom (vmap (temp_entry ?h1 f1 p1 cpd))) \<le> Suc (card (dom (vmap cpd)))" by blast
  let ?c1 = "temp_entry ?h1 f1 p1 cpd"
  let ?s1 = "store_pd s ?c ?c1"
  obtain opd where o: "pds ?s1 dp = Some opd" "pd_wf opd" "vmap opd v2 = Some p2"
  proof (cases ?h2)
    case True
    with False have "\<not> ?h1" by auto
    then have "f1 \<noteq> v2" using f1(2) dst(1,3) cur(1) True by auto
    then have "vmap ?c1 v2 = Some p2" using w1(2) dst(1,3) cur(1) True by simp
    with True w1(1) show ?thesis by (intro that [of ?c1]) simp_all
  qed (use dst that in simp)
  have s1: "pds ?s1 (gCurrentPageDir ?s1) = Some ?c1" "card (dom (vmap ?c1)) < 1024" using w1(3) cur(3) by simp_all
  from temp_map_page [OF s1(1) w1(1) s1(2) o dst(4)] obtain f2 where f2: "f2 < 1024" "\<not> ?h2 \<longrightarrow> f2 \<notin> dom (vmap ?c1)"
    and t2: "temp_map_unless ?h2 ?s1 dp (PageToAddr v2 + word_of_nat o2) =
      Inr (PageToAddr f2 + word_of_nat o2, store_pd s ?c (temp_entry ?h2 f2 p2 ?c1))"
    and w2: "pd_wf (temp_entry ?h2 f2 p2 ?c1)" "vmap (temp_entry ?h2 f2 p2 ?c1) = (vmap ?c1)(f2 \<mapsto> p2)" by auto
  let ?c2 = "temp_entry ?h2 f2 p2 ?c1"
  let ?m = "pcopy (phys s) (p2 * 0x400000 + o2) (p1 * 0x400000 + o1) n"
  have ne: "?h1 \<or> ?h2 \<or> f1 \<noteq> f2" using f2(2) w1(2) by auto
  have "vmap ?c2 f1 = Some p1"
    using w1(2) w2(2) f2(2) by (cases ?h2) (auto simp: temp_entry_def)
  then have cp: "memcpy (store_pd s ?c ?c2) (PageToAddr f2 + word_of_nat o2) (PageToAddr f1 + word_of_nat o1) n =
      Inr (store_pd (s\<lparr>phys := ?m\<rparr>) ?c ?c2)"
    using memcpy_page [of "store_pd s ?c ?c2" ?c2 f1 p1 f2 p2 o1 n o2] w2 src dst dj by simp
  have dom1: "\<not> ?h1 \<longrightarrow> f1 \<notin> dom (vmap (temp_entry ?h2 f2 p2 cpd))"
    using temp_entry_dom [OF cur(2) f2(1) p(2), of ?h2] f1(2) ne by auto
  have u1: "unmap_unless ?h1 (store_pd (s\<lparr>phys := ?m\<rparr>) ?c ?c2) ?c (PageToAddr f1 + word_of_nat o1) =
      Inr (store_pd (s\<lparr>phys := ?m\<rparr>) ?c (temp_entry ?h2 f2 p2 cpd))"
    using unmap_temp [of "store_pd (s\<lparr>phys := ?m\<rparr>) ?c ?c2" ?c ?h1 f1 p1 "temp_entry ?h2 f2 p2 cpd" o1]
      temp_entry_swap [OF ne] temp_entry_wf [OF cur(2) f2(1) p(2)] f1(1) p(1) dom1 src(4) by simp
  have u2: "unmap_unless ?h2 (store_pd (s\<lparr>phys := ?m\<rparr>) ?c (temp_entry ?h2 f2 p2 cpd)) ?c (PageToAddr f2 + word_of_nat o2) =
      Inr (s\<lparr>phys := ?m\<rparr>)"
    using unmap_temp [of "store_pd (s\<lparr>phys := ?m\<rparr>) ?c (temp_entry ?h2 f2 p2 cpd)" ?c ?h2 f2 p2 cpd o2]
      cur(1,2) f2 p(2) dst(4) temp_entry_dom [OF cur(2) f1(1) p(1), of ?h1] by (auto split: if_splits)
  show ?thesis using t1 t2 cp u1 u2 False
    by (auto simp: Memcpy_def Let_def GetCurrentPageDirectory_def)
qed


section \<open>Properties\<close>

text \<open>C9: On a well-formed directory the operations act as those of a partial map from virtual to physical
  pages: \<open>MapPage\<close> adds a mapping where there is none and fails its assertion otherwise, \<open>UnmapPage\<close>
  removes one, \<open>VaddrIsMapped\<close> and \<open>getPhysicalAddr\<close> read it; well-formedness is kept, and the
  processor translates every byte of the page accordingly.\<close>

theorem pagedir_refines_map:
  assumes "pd_wf pd" "v < 1024" "p < 1024"
  shows "MapPage pd (PageToAddr v) (PageToAddr p) fl =
      (if v \<in> dom (vmap pd) then Inl Assert_failed else Inr (pd[v := mk_entry p fl]))
    \<and> pd_wf (pd[v := mk_entry p fl]) \<and> vmap (pd[v := mk_entry p fl]) = (vmap pd)(v \<mapsto> p)
    \<and> UnmapPage pd (PageToAddr v) = (if v \<in> dom (vmap pd) then Inr (pd[v := 0]) else Inl Assert_failed)
    \<and> pd_wf (pd[v := 0]) \<and> vmap (pd[v := 0]) = (vmap pd)(v := None)
    \<and> VaddrIsMapped pd (PageToAddr v) = Inr (v \<in> dom (vmap pd))
    \<and> getPhysicalAddr pd (PageToAddr v) = (case vmap pd v of Some q \<Rightarrow> Inr (PageToAddr q) | None \<Rightarrow> Inl Assert_failed)
    \<and> (\<forall>q off. vmap pd v = Some q \<longrightarrow> off < 0x400000 \<longrightarrow>
        translate pd (PageToAddr v + word_of_nat off) = Inr (PageToAddr q + word_of_nat off))"
  using MapPage_page [OF assms, of fl] vmap_map [OF assms, of fl] UnmapPage_page [OF assms(1,2)]
    vmap_unmap [OF assms(1,2)] VaddrIsMapped_page [OF assms(1,2)] getPhysicalAddr_page [OF assms(1,2)]
    translate_page [OF assms(1)] by blast

definition empty_dir :: pagedir where
  "empty_dir = replicate 1024 0"

lemma empty_dir_facts: "pd_wf empty_dir" "vmap empty_dir = Map.empty"
  by (auto simp: empty_dir_def pd_wf_def kNumPageDirEntries_def vmap_def fun_eq_iff)

theorem pagedir_refines_map_witness:
  "MapPage empty_dir (PageToAddr 5) (PageToAddr 7) PG_USER = Inr (empty_dir[5 := mk_entry 7 PG_USER])
    \<and> vmap (empty_dir[5 := mk_entry 7 PG_USER]) = [5 \<mapsto> 7]"
  using pagedir_refines_map [OF empty_dir_facts(1), of 5 7 PG_USER] empty_dir_facts(2) by simp

text \<open>C10: \<open>Memcpy\<close> between two address spaces, neither of which need be the current one, copies the bytes of
  a region that lies on one page in each: physical memory changes in the destination range only, where it
  then holds the source bytes, and every page directory is as before, the temporary mappings gone.\<close>

theorem Memcpy_copies:
  assumes "pds s (gCurrentPageDir s) = Some cpd" "pd_wf cpd" "card (dom (vmap cpd)) + 2 \<le> 1024"
    "pds s sp = Some spd" "pd_wf spd" "vmap spd (AddrToPage src) = Some ps" "unat (src mod kPageSize4M) + n \<le> 0x400000"
    "pds s dp = Some dpd" "pd_wf dpd" "vmap dpd (AddrToPage dst) = Some pt" "unat (dst mod kPageSize4M) + n \<le> 0x400000"
    "Ps = ps * 0x400000 + unat (src mod kPageSize4M)" "Pd = pt * 0x400000 + unat (dst mod kPageSize4M)"
    "Ps + n \<le> Pd \<or> Pd + n \<le> Ps"
  shows "\<exists>m. Memcpy s sp dp src dst n = Inr (s\<lparr>phys := m\<rparr>) \<and> (\<forall>i < n. m (word_of_nat (Pd + i)) = phys s (word_of_nat (Ps + i)))
    \<and> (\<forall>x. \<not> (Pd \<le> unat x \<and> unat x < Pd + n) \<longrightarrow> m x = phys s x)"
proof -
  let ?m = "pcopy (phys s) Pd Ps n"
  have pt: "pt < 1024" using vmap_bound assms(10) by blast
  have off: "unat (take_bit 22 src) < 0x400000" "unat (take_bit 22 dst) < 0x400000" by (rule addr_split(2))+
  have a: "PageToAddr (AddrToPage x) + word_of_nat (unat (take_bit 22 x)) = x" for x
    using addr_split(1) [of x] by (simp add: AddrToPage_def addr_div)
  from Memcpy_pages [OF assms(1-6) off(1) _ assms(8-10) off(2), of n] assms(7,11-14) a
  have "Memcpy s sp dp src dst n = Inr (s\<lparr>phys := ?m\<rparr>)" by (simp add: addr_mod)
  moreover have "?m (word_of_nat (Pd + i)) = phys s (word_of_nat (Ps + i))" if "i < n" for i
  proof -
    have "unat (word_of_nat (Pd + i) :: u32) = Pd + i"
      by (rule unat_of_nat_u32) (use that assms(11,13) pt in simp)
    with that show ?thesis by (simp add: pcopy_def add.commute del: of_nat_add)
  qed
  moreover have "\<forall>x. \<not> (Pd \<le> unat x \<and> unat x < Pd + n) \<longrightarrow> ?m x = phys s x" by (auto simp: pcopy_def)
  ultimately show ?thesis by blast
qed

definition example_paging :: paging where
  "example_paging = \<lparr>pds = [KernelPD \<mapsto> empty_dir, HeapPD 16 \<mapsto> empty_dir[5 := mk_entry 7 0], HeapPD 32 \<mapsto> empty_dir[6 := mk_entry 8 0]],
     gCurrentPageDir = KernelPD, phys = (\<lambda>x. ucast x), cr0 = 0x80000011, cr4 = 0x10\<rparr>"

theorem Memcpy_copies_witness:
  "\<exists>m. Memcpy example_paging (HeapPD 16) (HeapPD 32) 0x1400010 0x1800020 3 = Inr (example_paging\<lparr>phys := m\<rparr>)
    \<and> m 0x2000022 = 0x12 \<and> m 0x2000023 = phys example_paging 0x2000023"
proof -
  have v: "vmap (empty_dir[5 := mk_entry 7 0]) = [5 \<mapsto> 7]" "pd_wf (empty_dir[5 := mk_entry 7 0])"
    "vmap (empty_dir[6 := mk_entry 8 0]) = [6 \<mapsto> 8]" "pd_wf (empty_dir[6 := mk_entry 8 0])"
    using vmap_map [OF empty_dir_facts(1), of 5 7 0] vmap_map [OF empty_dir_facts(1), of 6 8 0] empty_dir_facts(2) by simp_all
  have "\<exists>m. Memcpy example_paging (HeapPD 16) (HeapPD 32) 0x1400010 0x1800020 3 = Inr (example_paging\<lparr>phys := m\<rparr>)
    \<and> (\<forall>i < 3. m (word_of_nat (0x2000020 + i)) = phys example_paging (word_of_nat (0x1C00010 + i)))
    \<and> (\<forall>x. \<not> (0x2000020 \<le> unat x \<and> unat x < 0x2000020 + 3) \<longrightarrow> m x = phys example_paging x)"
    by (rule Memcpy_copies [where cpd = empty_dir and spd = "empty_dir[5 := mk_entry 7 0]" and dpd = "empty_dir[6 := mk_entry 8 0]"
          and ps = 7 and pt = 8])
      (simp_all add: example_paging_def empty_dir_facts v AddrToPage_def kPageSize4M_def)
  then obtain m where "Memcpy example_paging (HeapPD 16) (HeapPD 32) 0x1400010 0x1800020 3 = Inr (example_paging\<lparr>phys := m\<rparr>)"
    and c: "\<forall>i < 3. m (word_of_nat (0x2000020 + i)) = phys example_paging (word_of_nat (0x1C00010 + i))"
    and f: "\<forall>x. \<not> (0x2000020 \<le> unat x \<and> unat x < 0x2000020 + 3) \<longrightarrow> m x = phys example_paging x" by blast
  moreover have "m 0x2000022 = 0x12" using c [rule_format, of 2] by (simp add: example_paging_def)
  moreover have "m 0x2000023 = phys example_paging 0x2000023" using f by simp
  ultimately show ?thesis by blast
qed

text \<open>\<open>getNextFreePage\<close> returns the lowest unmapped page from the lower bound on, or -1 when there is none.\<close>

theorem next_free_vpage_least:
  assumes "pd_wf pd" "lb \<le> 1024"
  shows "(\<exists>v. getNextFreePage pd lb = int v \<and> lb \<le> v \<and> v < 1024 \<and> v \<notin> dom (vmap pd) \<and> {lb..<v} \<subseteq> dom (vmap pd))
    \<or> (getNextFreePage pd lb = -1 \<and> {lb..<1024} \<subseteq> dom (vmap pd))"
  by (rule getNextFreePage_spec [OF assms])

theorem next_free_vpage_least_witness:
  "(\<exists>v. getNextFreePage empty_dir 1 = int v \<and> 1 \<le> v \<and> v < 1024 \<and> v \<notin> dom (vmap empty_dir) \<and> {1..<v} \<subseteq> dom (vmap empty_dir))"
  using next_free_vpage_least [OF empty_dir_facts(1), of 1] empty_dir_facts(2) by (auto simp: subset_iff)

text \<open>\<open>paging::Initialize\<close>, entered with paging off and the kernel's page taken in the frame allocator, leaves
  the kernel directory current with exactly one mapping, the kernel's page onto itself.\<close>

theorem paging_initialize_spec:
  assumes "pds s KernelPD = Some pd0" "length pd0 = 1024" "cr0 s = 0x11" "cr4 s = 0"
    "k < 1024" "kend - PageToAddr k \<le> kPageSize4M" "pmm_wf p" "k \<in> used_pages p"
  shows "\<exists>s' pd. paging_Initialize (PageToAddr k) kend p s = Inr s' \<and> gCurrentPageDir s' = KernelPD
    \<and> pds s' = (pds s)(KernelPD \<mapsto> pd) \<and> pd_wf pd \<and> vmap pd = [k \<mapsto> k] \<and> phys s' = phys s"
proof -
  have c: "Clear pd0 = empty_dir" using assms(2) by (simp add: Clear_def empty_dir_def)
  have u: "PageIsUsed p k = Inr True" using PageIsUsed_wf [OF assms(7), of k] assms(5,8) by (simp add: kNumPageDirEntries_def)
  note f = PageToAddr_facts [OF assms(5)]
  note m = vmap_map [OF empty_dir_facts(1) assms(5,5), of "ucast (PG_PRESENT OR PG_WRITE OR PG_4MB)"]
  have mp: "MapKernelPage (PageToAddr k) empty_dir = Inr (empty_dir[k := mk_entry k (ucast (PG_PRESENT OR PG_WRITE OR PG_4MB))])"
    using MapPage_page [OF empty_dir_facts(1) assms(5,5)] empty_dir_facts(2) by (simp add: MapKernelPage_def)
  show ?thesis using assms(1,3,4,6) c u f m mp empty_dir_facts(2)
    by (intro exI [of _ "s\<lparr>pds := (pds s)(KernelPD \<mapsto> empty_dir[k := mk_entry k (ucast (PG_PRESENT OR PG_WRITE OR PG_4MB))]),
          gCurrentPageDir := KernelPD, cr4 := 0x10, cr0 := 0x80000011\<rparr>"]
        exI [of _ "empty_dir[k := mk_entry k (ucast (PG_PRESENT OR PG_WRITE OR PG_4MB))]"])
      (simp add: paging_Initialize_def store_pd_def load_pd_def Let_def addr_div addr_mod SwitchPageDirectory_def)
qed


theorem paging_initialize_spec_witness:
  "\<exists>s' pd. paging_Initialize 0x400000 0x500000 \<lparr>gNum4MPages = 16, gPhysicalBitmap = replicate 128 2\<rparr>
      \<lparr>pds = [KernelPD \<mapsto> replicate 1024 0], gCurrentPageDir = KernelPD, phys = (\<lambda>_. 0), cr0 = 0x11, cr4 = 0\<rparr> = Inr s'
    \<and> pds s' = [KernelPD \<mapsto> pd] \<and> vmap pd = [1 \<mapsto> 1]"
  using paging_initialize_spec [of "\<lparr>pds = [KernelPD \<mapsto> replicate 1024 0], gCurrentPageDir = KernelPD, phys = (\<lambda>_. 0), cr0 = 0x11, cr4 = 0\<rparr>"
      "replicate 1024 0" 1 "0x500000" "\<lparr>gNum4MPages = 16, gPhysicalBitmap = replicate 128 2\<rparr>"]
  by (simp add: PageToAddr_def kPageSize4M_def pmm_wf_def used_pages_def pmm_consts) blast

text \<open>When page 0 of the current directory is mapped, \<open>InspectPhysicalMem\<close> always fails: it passes the number
  of a free page to \<open>MapPage\<close> where an address is expected, and no page number but 0 is page-aligned.\<close>

theorem inspect_fails_above_page_0:
  assumes "pds s (gCurrentPageDir s) = Some pd" "pd_wf pd" "0 \<in> dom (vmap pd)"
  shows "InspectPhysicalMem s a b = Inl Assert_failed"
proof -
  have "(\<exists>v. getNextFreePage pd 0 = int v \<and> 0 < v \<and> v < 1024) \<or> getNextFreePage pd 0 = -1"
    using getNextFreePage_spec [OF assms(2), of 0] assms(3) by (metis gr0I zero_le)
  then show ?thesis
  proof
    assume "\<exists>v. getNextFreePage pd 0 = int v \<and> 0 < v \<and> v < 1024"
    then obtain v where v: "getNextFreePage pd 0 = int v" "0 < v" "v < 1024" by blast
    have "(word_of_nat v :: u32) mod kPageSize4M \<noteq> 0"
      using v(2,3) by (simp add: word_unat_eq_iff unat_mod unat_of_nat_u32 kPageSize4M_def)
    then have "MapPage pd (word_of_nat v) q 0 = Inl Assert_failed" for q
      by (simp add: MapPage_def getPDE_def check_def)
    then show ?thesis using v assms(1)
      by (simp add: InspectPhysicalMem_def load_pd_def Let_def)
  qed (use assms(1) in \<open>simp add: InspectPhysicalMem_def load_pd_def Let_def\<close>)
qed

theorem inspect_fails_above_page_0_witness:
  "InspectPhysicalMem (example_paging\<lparr>pds := [KernelPD \<mapsto> empty_dir[0 := mk_entry 3 0]]\<rparr>) 0x1000 0x1010 = Inl Assert_failed"
  using vmap_map [OF empty_dir_facts(1), of 0 3 0] empty_dir_facts(2)
  by (intro inspect_fails_above_page_0 [where pd = "empty_dir[0 := mk_entry 3 0]"]) (simp_all add: example_paging_def)

end
