(* ===== verification/LinkedList.thy ===== *)
theory LinkedList
  imports Prelude
begin

text \<open>
  The singly linked list of \<open>src/kernel/include/kernel/linkedlist.h\<close>: nodes in an explicit store,
  addressed by non-null pointers. \<open>back\<close> and \<open>Append\<close> recurse along \<open>next_\<close> and would not return
  on a cycle; \<open>fuel\<close> bounds them, and the lemmas show that the length of the list is enough.
  The locale \<open>ring\<close> is what the scheduler relies on.
\<close>

section \<open>Nodes\<close>

record 'a node =
  nval :: 'a
  nnext :: u32

type_synonym 'a store = "u32 \<rightharpoonup> 'a node"

definition deref :: "'a store \<Rightarrow> u32 \<Rightarrow> 'a node result" where
  "deref h p = (case h p of Some n \<Rightarrow> Inr n | None \<Rightarrow> Inl Use_after_free)"

definition node_get :: "'a store \<Rightarrow> u32 \<Rightarrow> 'a result" where
  "node_get h p = bindr (deref h p) (\<lambda>n. Inr (nval n))"

definition node_next :: "'a store \<Rightarrow> u32 \<Rightarrow> u32 result" where
  "node_next h p = bindr (deref h p) (\<lambda>n. Inr (nnext n))"

definition setNext :: "'a store \<Rightarrow> u32 \<Rightarrow> u32 \<Rightarrow> 'a store result" where
  "setNext h p nxt = bindr (deref h p) (\<lambda>n. Inr (h(p \<mapsto> n\<lparr>nnext := nxt\<rparr>)))"

text \<open>The constructor; \<open>a\<close> is the address \<open>operator new\<close> returns.\<close>

definition new_Node :: "'a store \<Rightarrow> u32 \<Rightarrow> 'a \<Rightarrow> u32 \<Rightarrow> 'a store" where
  "new_Node h a v nxt = h(a \<mapsto> \<lparr>nval = v, nnext = nxt\<rparr>)"

fun node_back :: "nat \<Rightarrow> 'a store \<Rightarrow> u32 \<Rightarrow> u32 result" where
  "node_back 0 h p = Inl Out_of_fuel"
| "node_back (Suc fuel) h p = bindr (node_next h p) (\<lambda>nxt. if nxt = 0 then Inr p else node_back fuel h nxt)"

definition Cycle :: "nat \<Rightarrow> 'a store \<Rightarrow> u32 \<Rightarrow> (u32 \<times> 'a store) result" where
  "Cycle fuel h p =
     bindr (node_next h p) (\<lambda>nxt.
     if nxt = 0 then Inr (p, h)
     else bindr (node_back fuel h p) (\<lambda>b.
          bindr (setNext h p 0) (\<lambda>h1.
          bindr (setNext h1 b p) (\<lambda>h2. Inr (nxt, h2)))))"

fun Append :: "nat \<Rightarrow> 'a store \<Rightarrow> u32 \<Rightarrow> u32 \<Rightarrow> 'a \<Rightarrow> (u32 \<times> 'a store) result" where
  "Append 0 h p a v = Inl Out_of_fuel"
| "Append (Suc fuel) h p a v =
     bindr (node_next h p) (\<lambda>nxt.
     if nxt \<noteq> 0 then Append fuel h nxt a v
     else bindr (setNext (new_Node h a v 0) p a) (\<lambda>h'. Inr (a, h')))"

section \<open>Chains\<close>

fun chain :: "'a store \<Rightarrow> u32 \<Rightarrow> (u32 \<times> 'a) list \<Rightarrow> bool" where
  "chain h p [] \<longleftrightarrow> p = 0"
| "chain h p ((a, v) # xs) \<longleftrightarrow> p = a \<and> a \<noteq> 0 \<and> (\<exists>nxt. h a = Some \<lparr>nval = v, nnext = nxt\<rparr> \<and> chain h nxt xs)"

lemma chain_head: "chain h p xs \<Longrightarrow> p = (case xs of [] \<Rightarrow> 0 | (a, v) # _ \<Rightarrow> a)"
  by (cases xs) auto

lemma chain_in: "chain h p xs \<Longrightarrow> (a, v) \<in> set xs \<Longrightarrow> a \<noteq> 0 \<and> (\<exists>nxt. h a = Some \<lparr>nval = v, nnext = nxt\<rparr>)"
  by (induction h p xs rule: chain.induct) auto

lemma chain_unique: "chain h p xs \<Longrightarrow> chain h p ys \<Longrightarrow> xs = ys"
proof (induction h p xs arbitrary: ys rule: chain.induct)
  case (1 h p)
  then show ?case by (cases ys) auto
next
  case (2 h p a v xs)
  then obtain w zs where ys: "ys = (a, w) # zs" by (cases ys) auto
  with 2(2,3) obtain nxt where "h a = Some \<lparr>nval = v, nnext = nxt\<rparr>" "v = w" "chain h nxt xs" "chain h nxt zs" by auto
  with 2(1) ys show ?case by blast
qed

lemma chain_split: "chain h p (xs @ ys) \<Longrightarrow> \<exists>q. chain h q ys"
proof (induction xs arbitrary: p)
  case (Cons x xs)
  then show ?case by (cases x) auto
qed auto

lemma chain_distinct: "chain h p xs \<Longrightarrow> distinct (map fst xs)"
proof (induction xs arbitrary: p)
  case (Cons x xs)
  obtain a v where x: "x = (a, v)" by (cases x)
  then obtain nxt where n: "chain h nxt xs" using Cons(2) by auto
  have "a \<notin> fst ` set xs"
  proof
    assume "a \<in> fst ` set xs"
    then obtain w ys zs where s: "xs = ys @ (a, w) # zs" by (metis imageE prod.collapse split_list)
    then obtain q where "chain h q ((a, w) # zs)" using chain_split [of h nxt ys] n by blast
    then have "(a, w) # zs = x # xs" using Cons(2) x by (metis chain.simps(2) chain_unique)
    then show False using s by (metis append_Cons append_Nil2 length_append length_Cons less_add_Suc2 less_irrefl list.inject add.commute)
  qed
  with Cons(1) [OF n] show ?case using x by simp
qed simp

lemma chain_upd: "a \<notin> fst ` set xs \<Longrightarrow> chain (h(a := y)) p xs \<longleftrightarrow> chain h p xs"
  by (induction h p xs rule: chain.induct) auto

lemma chain_append_iff:
  "chain h p (xs @ [(a, v)]) \<Longrightarrow> nxt \<noteq> 0 \<Longrightarrow> h nxt = Some \<lparr>nval = w, nnext = 0\<rparr> \<Longrightarrow> nxt \<notin> fst ` set (xs @ [(a, v)]) \<Longrightarrow>
    chain (h(a \<mapsto> \<lparr>nval = v, nnext = nxt\<rparr>)) p (xs @ [(a, v), (nxt, w)])"
proof (induction xs arbitrary: p)
  case (Cons x xs)
  obtain b u where x: "x = (b, u)" by (cases x)
  then have "b \<noteq> a" using chain_distinct [OF Cons(2)] by auto
  with Cons x show ?case by auto
qed auto

lemma node_simps:
  assumes "chain h p ((a, v) # xs)"
  shows "node_get h p = Inr v" "node_next h p = Inr (case xs of [] \<Rightarrow> 0 | x # _ \<Rightarrow> fst x)"
  using assms chain_head by (auto simp: node_get_def node_next_def deref_def split: list.splits)

lemma chain_tl: "chain h p (x # xs) \<Longrightarrow> chain h (case xs of [] \<Rightarrow> 0 | y # _ \<Rightarrow> fst y) xs"
  by (cases x) (auto dest: chain_head split: list.splits)

lemma back_chain: "chain h p xs \<Longrightarrow> xs \<noteq> [] \<Longrightarrow> length xs \<le> fuel \<Longrightarrow> node_back fuel h p = Inr (fst (last xs))"
proof (induction fuel arbitrary: p xs)
  case (Suc fuel)
  then obtain a v ys where xs: "xs = (a, v) # ys" by (metis list.exhaust prod.exhaust)
  show ?case
  proof (cases ys)
    case Nil
    then show ?thesis using Suc(2) xs by (auto simp: node_next_def deref_def)
  next
    case (Cons y zs)
    have c: "chain h (fst y) ys" using chain_tl Suc(2) xs Cons by fastforce
    have "fst y \<noteq> 0" using c Cons by (cases y) auto
    then show ?thesis using Suc(1) [OF c] Suc(2,4) Cons xs node_simps(2) [of h p a v ys] by simp
  qed
qed simp

lemma Cycle_chain:
  assumes "chain h p ((a, v) # xs)" "length xs < fuel"
  shows "\<exists>p' h'. Cycle fuel h p = Inr (p', h') \<and> chain h' p' (xs @ [(a, v)]) \<and> (\<forall>q. q \<notin> fst ` set ((a, v) # xs) \<longrightarrow> h' q = h q)"
proof (cases xs rule: rev_cases)
  case Nil
  then show ?thesis using assms by (auto simp: Cycle_def node_next_def deref_def)
next
  case (snoc ys y)
  obtain b w where y: "y = (b, w)" by (cases y)
  define nxt where "nxt = (case xs of [] \<Rightarrow> 0 | x # _ \<Rightarrow> fst x)"
  have p: "p = a" "a \<noteq> 0" "h a = Some \<lparr>nval = v, nnext = nxt\<rparr>" "chain h nxt xs"
    using assms(1) chain_tl [OF assms(1)] node_simps(2) [OF assms(1)] by (auto simp: nxt_def node_next_def deref_def)
  have "xs \<noteq> []" using snoc by simp
  with p(4) have n: "nxt \<noteq> 0" by (cases xs) auto
  have d: "a \<notin> fst ` set xs" using chain_distinct [OF assms(1)] by auto
  let ?h1 = "h(a \<mapsto> \<lparr>nval = v, nnext = 0\<rparr>)"
  obtain z where hb: "h b = Some \<lparr>nval = w, nnext = z\<rparr>" using chain_in [OF p(4), of b w] snoc y by auto
  have ba: "b \<noteq> a" using d snoc y by auto
  have "node_back fuel h p = Inr b" using back_chain [OF assms(1)] assms(2) snoc y by simp
  then have "Cycle fuel h p = Inr (nxt, ?h1(b \<mapsto> \<lparr>nval = w, nnext = a\<rparr>))"
    using p n hb ba by (auto simp: Cycle_def node_next_def setNext_def deref_def)
  moreover have "chain ?h1 nxt xs" using chain_upd [OF d] p(4) by simp
  then have "chain (?h1(b \<mapsto> \<lparr>nval = w, nnext = a\<rparr>)) nxt (xs @ [(a, v)])"
    using chain_append_iff [of ?h1 nxt ys b w a v] d p snoc y by simp
  ultimately show ?thesis using snoc y by auto
qed

lemma Append_chain:
  "chain h p xs \<Longrightarrow> xs \<noteq> [] \<Longrightarrow> length xs \<le> fuel \<Longrightarrow> a \<noteq> 0 \<Longrightarrow> h a = None \<Longrightarrow>
    \<exists>h'. Append fuel h p a v = Inr (a, h') \<and> chain h' p (xs @ [(a, v)]) \<and> (\<forall>q. q \<notin> insert a (fst ` set xs) \<longrightarrow> h' q = h q)"
proof (induction fuel arbitrary: p xs)
  case (Suc fuel)
  obtain b w ys where xs: "xs = (b, w) # ys" using Suc(3) by (metis list.exhaust prod.exhaust)
  define nxt where "nxt = (case ys of [] \<Rightarrow> 0 | y # _ \<Rightarrow> fst y)"
  have p: "p = b" "b \<noteq> 0" "h b = Some \<lparr>nval = w, nnext = nxt\<rparr>" "chain h nxt ys" and nx: "node_next h p = Inr nxt"
    using Suc(2) xs chain_tl [of h p "(b, w)" ys] node_simps(2) [of h p b w ys] by (auto simp: nxt_def node_next_def deref_def)
  have ab: "a \<noteq> b" using Suc(6) p(3) by auto
  show ?case
  proof (cases ys)
    case Nil
    then show ?thesis using p nx ab Suc(5,6) xs
      by (auto simp: nxt_def setNext_def new_Node_def deref_def)
  next
    case (Cons y zs)
    have n: "nxt \<noteq> 0" using p(4) Cons by (cases y) auto
    from Suc(1) [OF p(4) _ _ Suc(5,6)] Suc(4) Cons xs obtain h' where
      h': "Append fuel h nxt a v = Inr (a, h')" "chain h' nxt (ys @ [(a, v)])" "\<forall>q. q \<notin> insert a (fst ` set ys) \<longrightarrow> h' q = h q" by auto
    have "b \<notin> fst ` set ys" using chain_distinct [OF Suc(2)] xs by auto
    then have "h' b = h b" using h'(3) ab by simp
    then show ?thesis using h' p nx n xs by auto
  qed
qed simp

section \<open>The interface\<close>

text \<open>The loop \<open>while (front != target) front = front->Cycle()\<close> of the scheduler.\<close>

fun cycle_to :: "nat \<Rightarrow> ('h \<Rightarrow> 'p \<Rightarrow> ('p \<times> 'h) result) \<Rightarrow> 'h \<Rightarrow> 'p \<Rightarrow> 'p \<Rightarrow> ('p \<times> 'h) result" where
  "cycle_to 0 cyc h p target = (if p = target then Inr (p, h) else Inl Out_of_fuel)"
| "cycle_to (Suc fuel) cyc h p target =
     (if p = target then Inr (p, h) else bindr (cyc h p) (\<lambda>(p', h'). cycle_to fuel cyc h' p' target))"

text \<open>What the loop relies on: a handle \<open>p\<close> to the front of a sequence of distinct cells, and a
  rotation that moves the front cell to the end.\<close>

locale ring =
  fixes rep :: "'h \<Rightarrow> 'p \<Rightarrow> ('p \<times> 'v) list \<Rightarrow> bool"
    and cyc :: "'h \<Rightarrow> 'p \<Rightarrow> ('p \<times> 'h) result"
    and room :: nat
  assumes front: "rep h p (x # xs) \<Longrightarrow> fst x = p"
    and apart: "rep h p xs \<Longrightarrow> distinct (map fst xs)"
    and cyc: "rep h p (x # xs) \<Longrightarrow> length xs < room \<Longrightarrow> \<exists>p' h'. cyc h p = Inr (p', h') \<and> rep h' p' (xs @ [x])"
begin

lemma cycle_to_reaches:
  "rep h p (ys @ x # zs) \<Longrightarrow> length ys + length zs < room \<Longrightarrow> length ys \<le> n \<Longrightarrow>
    \<exists>h'. cycle_to n cyc h p (fst x) = Inr (fst x, h') \<and> rep h' (fst x) (x # zs @ ys)"
proof (induction n arbitrary: h p ys zs)
  case 0
  then show ?case using front [of h p x zs] by auto
next
  case (Suc n)
  show ?case
  proof (cases ys)
    case Nil
    then show ?thesis using Suc.prems front [of h p x zs] by auto
  next
    case (Cons y ys')
    have "fst y = p" using Suc.prems(1) front [of h p y "ys' @ x # zs"] Cons by simp
    moreover have "fst y \<noteq> fst x" using apart [OF Suc.prems(1)] Cons by simp
    moreover obtain p' h' where c: "cyc h p = Inr (p', h')" "rep h' p' (ys' @ x # zs @ [y])"
      using cyc [of h p y "ys' @ x # zs"] Suc.prems Cons by auto
    ultimately show ?thesis using Suc.IH [OF c(2)] Suc.prems Cons by auto
  qed
qed

end

interpretation nodes: ring chain "Cycle fuel" fuel
proof
  fix h p and x :: "u32 \<times> 'a" and xs
  assume "chain h p (x # xs)"
  then show "fst x = p" by (cases x) auto
next
  fix h p and xs :: "(u32 \<times> 'a) list"
  assume "chain h p xs"
  then show "distinct (map fst xs)" by (rule chain_distinct)
next
  fix h p and x :: "u32 \<times> 'a" and xs
  assume "chain h p (x # xs)" "length xs < fuel"
  then show "\<exists>p' h'. Cycle fuel h p = Inr (p', h') \<and> chain h' p' (xs @ [x])"
    using Cycle_chain [of h p "fst x" "snd x" xs fuel] by auto
qed

end
