(* ===== verification/Scheduler.thy ===== *)
theory Scheduler
  imports Paging Channel LinkedList
begin

text \<open>
  Tasks and the scheduler, \<open>src/kernel/scheduler.cpp\<close> and \<open>scheduler.h\<close>, with the timer that calls
  it (\<open>timer.cpp\<close>). The state of the kernel is one record: the physical pages, the address
  spaces, the channels, the tasks by address, the nodes of the task queue and the globals of
  scheduler, timer, TSS and exception handling, and what was printed on behalf of tasks.

  \<open>switch_task\<close> (assembly) loads registers and does not return; a function that may end there
  answers \<open>Switch\<close> with the registers it loads, or \<open>Return\<close> when it returns to its caller. Addresses
  that \<open>new\<close> and \<open>kmalloc\<close> return are arguments. \<open>fuel\<close> bounds walks along the task queue; its length is enough.
\<close>

section \<open>Data\<close>

record registers =
  r_gs :: u16
  r_fs :: u16
  r_es :: u16
  r_ds :: u16
  r_edi :: u32
  r_esi :: u32
  r_ebp :: u32
  r_esp :: u32
  r_ebx :: u32
  r_edx :: u32
  r_ecx :: u32
  r_eax :: u32
  r_int_no :: u32
  r_err_code :: u32
  r_eip :: u32
  r_cs :: u32
  r_eflags :: u32
  r_useresp :: u32
  r_ss :: u32

definition zero_regs :: registers where
  "zero_regs = \<lparr>r_gs = 0, r_fs = 0, r_es = 0, r_ds = 0, r_edi = 0, r_esi = 0, r_ebp = 0, r_esp = 0, r_ebx = 0,
     r_edx = 0, r_ecx = 0, r_eax = 0, r_int_no = 0, r_err_code = 0, r_eip = 0, r_cs = 0, r_eflags = 0, r_useresp = 0, r_ss = 0\<rparr>"

definition kKernCodeSeg :: u8 where "kKernCodeSeg = 0x08"
definition kKernDataSeg :: u8 where "kKernDataSeg = 0x10"
definition kUserCodeSeg :: u8 where "kUserCodeSeg = 0x18"
definition kUserDataSeg :: u8 where "kUserDataSeg = 0x20"
definition kRing3 :: u8 where "kRing3 = 3"

definition K_OK :: u32 where "K_OK = 0"
definition K_OOM_PHYS :: u32 where "K_OOM_PHYS = 1"
definition K_OOM_VIRT :: u32 where "K_OOM_VIRT = 2"
definition K_VPAGE_MAPPED :: u32 where "K_VPAGE_MAPPED = 3"
definition K_BUFFER_TOO_SMALL :: u32 where "K_BUFFER_TOO_SMALL = 4"
definition K_INVALID_HANDLE :: u32 where "K_INVALID_HANDLE = 5"
definition K_UNALIGNED_PAGE_ADDR :: u32 where "K_UNALIGNED_PAGE_ADDR = 6"
definition K_UNABLE_TO_READ :: u32 where "K_UNABLE_TO_READ = 7"
definition K_INVALID_ARG :: u32 where "K_INVALID_ARG = 8"

text \<open>\<open>Task::signal_t\<close>, \<open>Task::Signals\<close> and \<open>Task\<close>.\<close>

definition kReady :: u32 where "kReady = 1"
definition kRunning :: u32 where "kRunning = 2"
definition kTerminated :: u32 where "kTerminated = 4"

record signals =
  sig_task :: u32
  expecting_signals :: u32
  sig_value :: u32
  received_signal :: u32

definition new_Signals :: "u32 \<Rightarrow> u32 \<Rightarrow> u32 \<Rightarrow> signals" where
  "new_Signals t sigs val = \<lparr>sig_task = t, expecting_signals = sigs, sig_value = val, received_signal = 0\<rparr>"

definition kDefaultKernStackSize :: u32 where "kDefaultKernStackSize = 0x2000"
definition kMaxPages :: nat where "kMaxPages = 256"

record task =
  is_user :: bool
  task_regs :: registers
  kernel_stack_allocation :: u32
  task_pd :: pdref
  task_parent :: u32
  owned_phys_pages :: "u32 list"
  waiting_on_signals :: "signals list"
  listening_for_signals :: "u32 list"

datatype callback = ScheduleCallback

record kernel =
  pmm_of :: pmm
  paging_of :: paging
  chans_of :: chvec
  tasks :: "u32 \<rightharpoonup> task"
  task_nodes :: "u32 store"
  gTaskQueue :: u32
  gKernelTask :: u32
  tss_esp0 :: u32
  gTick :: u32
  gCallbacks :: "callback option list"
  gOldPageDir :: "pdref option"
  console :: "u8 list"

datatype ctl = Return | Switch registers

definition get_task :: "kernel \<Rightarrow> u32 \<Rightarrow> task result" where
  "get_task k t = (case tasks k t of Some tk \<Rightarrow> Inr tk | None \<Rightarrow> Inl Use_after_free)"

definition set_task :: "kernel \<Rightarrow> u32 \<Rightarrow> task \<Rightarrow> kernel" where
  "set_task k t tk = k\<lparr>tasks := (tasks k)(t \<mapsto> tk)\<rparr>"

section \<open>Registers\<close>

definition SegmentRegisterValueIsValid :: "u32 \<Rightarrow> bool" where
  "SegmentRegisterValueIsValid reg \<longleftrightarrow>
     \<not> reg > ucast (kUserDataSeg OR kRing3) \<and>
     (reg AND 0xFC = 0x08 \<or> reg AND 0xFC = 0x10 \<or> reg AND 0xFC = 0x18 \<or> reg AND 0xFC = 0x20)"

definition ValidateRegs :: "task \<Rightarrow> registers \<Rightarrow> unit result" where
  "ValidateRegs tk r =
     check (SegmentRegisterValueIsValid (r_cs r))
     (check (SegmentRegisterValueIsValid (ucast (r_ds r)))
     (check (SegmentRegisterValueIsValid (ucast (r_gs r)))
     (check (SegmentRegisterValueIsValid (ucast (r_fs r)))
     (check (SegmentRegisterValueIsValid (ucast (r_es r)))
     (check (SegmentRegisterValueIsValid (ucast (r_ds r)))
     (if is_user tk then check ((ucast (r_ss r) :: u16) = 0x23) (Inr ()) else Inr ()))))))"

section \<open>The task queue\<close>

fun iter_tasks :: "nat \<Rightarrow> kernel \<Rightarrow> u32 \<Rightarrow> (u32 \<Rightarrow> task \<Rightarrow> 'a \<Rightarrow> 'a) \<Rightarrow> 'a \<Rightarrow> 'a result" where
  "iter_tasks 0 k node callback arg = Inl Out_of_fuel"
| "iter_tasks (Suc fuel) k node callback arg =
     bindr (node_get (task_nodes k) node) (\<lambda>t. bindr (get_task k t) (\<lambda>tk.
     bindr (node_next (task_nodes k) node) (\<lambda>nxt.
     let arg' = callback t tk arg in if nxt = 0 then Inr arg' else iter_tasks fuel k nxt callback arg')))"

definition IterateTasks :: "nat \<Rightarrow> kernel \<Rightarrow> (u32 \<Rightarrow> task \<Rightarrow> 'a \<Rightarrow> 'a) \<Rightarrow> 'a \<Rightarrow> 'a result" where
  "IterateTasks fuel k callback arg = check (gTaskQueue k \<noteq> 0) (iter_tasks fuel k (gTaskQueue k) callback arg)"

definition getChildren :: "nat \<Rightarrow> kernel \<Rightarrow> u32 \<Rightarrow> u32 list result" where
  "getChildren fuel k this =
     IterateTasks fuel k (\<lambda>t tk children. if task_parent tk = this then children @ [t] else children) []"

definition GetCurrentTask :: "kernel \<Rightarrow> u32 result" where
  "GetCurrentTask k = node_get (task_nodes k) (gTaskQueue k)"

definition GetMainKernelTask :: "kernel \<Rightarrow> u32" where
  "GetMainKernelTask k = gKernelTask k"

fun is_running_loop :: "nat \<Rightarrow> kernel \<Rightarrow> u32 \<Rightarrow> u32 \<Rightarrow> bool result" where
  "is_running_loop 0 k node t = Inl Out_of_fuel"
| "is_running_loop (Suc fuel) k node t =
     bindr (node_get (task_nodes k) node) (\<lambda>t'. if t' = t then Inr True else
     bindr (node_next (task_nodes k) node) (\<lambda>nxt.
     if nxt = 0 then Inr False else is_running_loop fuel k nxt t))"

definition IsRunningTask :: "nat \<Rightarrow> kernel \<Rightarrow> u32 \<Rightarrow> bool result" where
  "IsRunningTask fuel k t = check (gTaskQueue k \<noteq> 0) (is_running_loop fuel k (gTaskQueue k) t)"

section \<open>Signals\<close>

definition isWaitingOnSignal :: "task \<Rightarrow> bool" where
  "isWaitingOnSignal tk \<longleftrightarrow> waiting_on_signals tk \<noteq> []"

text \<open>\<open>getReceivedSignal\<close>: the signal, its value and its sender.\<close>

definition getReceivedSignal :: "task \<Rightarrow> (u32 \<times> u32 \<times> u32) option" where
  "getReceivedSignal tk =
     map_option (\<lambda>s. (received_signal s, sig_value s, sig_task s)) (find (\<lambda>s. received_signal s \<noteq> 0) (waiting_on_signals tk))"

definition canRunTask :: "task \<Rightarrow> bool" where
  "canRunTask tk \<longleftrightarrow> (isWaitingOnSignal tk \<longrightarrow> getReceivedSignal tk \<noteq> None)"

text \<open>Update the entry \<open>GetSignal(other)\<close> finds, if there is one.\<close>

fun upd_signal :: "u32 \<Rightarrow> (signals \<Rightarrow> signals) \<Rightarrow> signals list \<Rightarrow> signals list" where
  "upd_signal other f [] = []"
| "upd_signal other f (s # ss) = (if sig_task s = other then f s # ss else s # upd_signal other f ss)"

definition GetOrCreateSignal :: "signals list \<Rightarrow> u32 \<Rightarrow> signals list" where
  "GetOrCreateSignal ss other = (if other \<in> sig_task ` set ss then ss else ss @ [new_Signals other 0 0])"

definition AddListener :: "task \<Rightarrow> u32 \<Rightarrow> task" where
  "AddListener tk waiting_task =
     (if waiting_task \<in> set (listening_for_signals tk) then tk
      else tk\<lparr>listening_for_signals := listening_for_signals tk @ [waiting_task]\<rparr>)"

definition receive :: "u32 \<Rightarrow> u32 \<Rightarrow> signals \<Rightarrow> signals" where
  "receive sigs val s =
     (if expecting_signals s AND sigs \<noteq> 0 then s\<lparr>received_signal := sigs, sig_value := val\<rparr> else s)"

fun send_to :: "kernel \<Rightarrow> u32 \<Rightarrow> u32 \<Rightarrow> u32 \<Rightarrow> u32 list \<Rightarrow> kernel result" where
  "send_to k this sigs val [] = Inr k"
| "send_to k this sigs val (listener # ls) =
     bindr (get_task k listener) (\<lambda>tk.
     send_to (set_task k listener (tk\<lparr>waiting_on_signals := upd_signal this (receive sigs val) (waiting_on_signals tk)\<rparr>))
       this sigs val ls)"

definition SendSignal :: "kernel \<Rightarrow> u32 \<Rightarrow> u32 \<Rightarrow> u32 \<Rightarrow> kernel result" where
  "SendSignal k this sigs val =
     check (sigs \<noteq> 0) (bindr (get_task k this) (\<lambda>tk. send_to k this sigs val (listening_for_signals tk)))"

definition WaitOn :: "kernel \<Rightarrow> u32 \<Rightarrow> u32 \<Rightarrow> u32 \<Rightarrow> kernel result" where
  "WaitOn k this other sigs =
     check (sigs \<noteq> 0)
     (bindr (get_task k this) (\<lambda>tk.
      let k1 = set_task k this (tk\<lparr>waiting_on_signals :=
            upd_signal other (\<lambda>s. s\<lparr>expecting_signals := expecting_signals s OR sigs\<rparr>) (GetOrCreateSignal (waiting_on_signals tk) other)\<rparr>) in
      bindr (get_task k1 other) (\<lambda>otk. Inr (set_task k1 other (AddListener otk this)))))"

fun remove_signal :: "signals list \<Rightarrow> u32 \<Rightarrow> signals list option" where
  "remove_signal [] t = None"
| "remove_signal (s # ss) t = (if sig_task s = t then Some ss else map_option ((#) s) (remove_signal ss t))"

definition RemoveSignal :: "task \<Rightarrow> u32 \<Rightarrow> task result" where
  "RemoveSignal tk t =
     (case remove_signal (waiting_on_signals tk) t of
        Some ss \<Rightarrow> Inr (tk\<lparr>waiting_on_signals := ss\<rparr>) | None \<Rightarrow> Inl Trap)"


section \<open>Tasks\<close>

definition getKernelStackBase :: "task \<Rightarrow> u32 result" where
  "getKernelStackBase tk =
     check (kernel_stack_allocation tk \<noteq> 0)
     (let stack_bottom = kernel_stack_allocation tk + kDefaultKernStackSize in
      check (stack_bottom mod 4 = 0) (Inr stack_bottom))"

definition task_init_regs :: "bool \<Rightarrow> registers" where
  "task_init_regs user =
     (let seg = (if user then kUserDataSeg OR kRing3 else kKernDataSeg);
          code = (if user then kUserCodeSeg OR kRing3 else kKernCodeSeg)
      in zero_regs\<lparr>r_ss := ucast seg, r_ds := ucast seg, r_gs := ucast seg, r_fs := ucast seg, r_es := ucast seg,
           r_cs := ucast code\<rparr>)"

text \<open>\<open>new Task(user, pd, parent)\<close>: \<open>a\<close> is the address of the object, \<open>stack\<close> what \<open>kmalloc\<close> returns.\<close>

definition new_Task :: "kernel \<Rightarrow> u32 \<Rightarrow> u32 \<Rightarrow> bool \<Rightarrow> pdref \<Rightarrow> u32 \<Rightarrow> kernel result" where
  "new_Task k a stack user pd parent =
     (if a = 0 then Inl Page_fault
      else Inr (set_task k a \<lparr>is_user = user, task_regs = task_init_regs user, kernel_stack_allocation = stack, task_pd = pd,
        task_parent = parent, owned_phys_pages = replicate kMaxPages 0, waiting_on_signals = [], listening_for_signals = []\<rparr>))"

fun free_owned :: "pmm \<Rightarrow> u32 list \<Rightarrow> pmm result" where
  "free_owned p [] = Inr p"
| "free_owned p (ppage # pages) =
     (if ppage \<noteq> 0
      then bindr (PageIsUsed p (unat ppage)) (\<lambda>used. check used (bindr (SetPageFree p (unat ppage)) (\<lambda>p'. free_owned p' pages)))
      else free_owned p pages)"

text \<open>\<open>delete task\<close>: the destructor, then the object is gone. Giving the kernel stack back to the
  allocator does not change the state of the model.\<close>

definition delete_Task :: "kernel \<Rightarrow> u32 \<Rightarrow> kernel result" where
  "delete_Task k this =
     bindr (get_task k this) (\<lambda>tk.
     let k1 = k\<lparr>chans_of := CloseEndpointsOwnedByTask (chans_of k) this\<rparr> in
     bindr (free_owned (pmm_of k1) (owned_phys_pages tk)) (\<lambda>p.
     let k2 = k1\<lparr>pmm_of := p\<rparr>;
         k3 = (if task_pd tk \<noteq> KernelPD
               then k2\<lparr>paging_of := (paging_of k2)\<lparr>pds := (pds (paging_of k2))(task_pd tk := None)\<rparr>\<rparr> else k2)
     in Inr (k3\<lparr>tasks := (tasks k3)(this := None)\<rparr>)))"

definition PageIsRecorded :: "task \<Rightarrow> u32 \<Rightarrow> bool" where
  "PageIsRecorded tk ppage \<longleftrightarrow> ppage \<in> set (owned_phys_pages tk)"

fun replace_first :: "'a \<Rightarrow> 'a \<Rightarrow> 'a list \<Rightarrow> 'a list option" where
  "replace_first a b [] = None"
| "replace_first a b (x # xs) = (if x = a then Some (b # xs) else map_option ((#) x) (replace_first a b xs))"

definition RecordOwnedPage :: "kernel \<Rightarrow> u32 \<Rightarrow> u32 \<Rightarrow> kernel result" where
  "RecordOwnedPage k this ppage =
     bindr (get_task k this) (\<lambda>tk.
     check (\<not> PageIsRecorded tk ppage)
     (case replace_first 0 ppage (owned_phys_pages tk) of
        Some pages \<Rightarrow> bindr (SetPageUsed (pmm_of k) (unat ppage)) (\<lambda>p.
          Inr ((set_task k this (tk\<lparr>owned_phys_pages := pages\<rparr>))\<lparr>pmm_of := p\<rparr>))
      | None \<Rightarrow> Inl Abort_called))"

definition RemoveOwnedPage :: "kernel \<Rightarrow> u32 \<Rightarrow> u32 \<Rightarrow> kernel result" where
  "RemoveOwnedPage k this ppage =
     bindr (get_task k this) (\<lambda>tk.
     check (PageIsRecorded tk ppage)
     (case replace_first ppage 0 (owned_phys_pages tk) of
        Some pages \<Rightarrow> bindr (SetPageFree (pmm_of k) (unat ppage)) (\<lambda>p.
          Inr ((set_task k this (tk\<lparr>owned_phys_pages := pages\<rparr>))\<lparr>pmm_of := p\<rparr>))
      | None \<Rightarrow> Inl Abort_called))"

section \<open>Scheduling\<close>

text \<open>The loop that skips tasks that wait; null when none is left.\<close>

fun find_runnable :: "nat \<Rightarrow> kernel \<Rightarrow> u32 \<Rightarrow> u32 result" where
  "find_runnable 0 k node = Inl Out_of_fuel"
| "find_runnable (Suc fuel) k node =
     (if node = 0 then Inr 0
      else bindr (node_get (task_nodes k) node) (\<lambda>t. bindr (get_task k t) (\<lambda>tk.
           if canRunTask tk then Inr node
           else bindr (node_next (task_nodes k) node) (\<lambda>nxt. find_runnable fuel k nxt))))"

definition read_u32 :: "paging \<Rightarrow> u32 \<Rightarrow> u32 result" where
  "read_u32 s va = bindr (read_words s va 4) (\<lambda>bs. Inr (horner_sum ucast 256 bs))"

text \<open>When a kernel task is interrupted, the frame is on its own stack.\<close>

definition check_kernel_frame :: "kernel \<Rightarrow> task \<Rightarrow> registers option \<Rightarrow> unit result" where
  "check_kernel_frame k current regs =
     (case regs of None \<Rightarrow> Inr ()
      | Some r \<Rightarrow> if is_user current then Inr () else
         check (r_esp r mod 4 = 0)
         (bindr (read_u32 (paging_of k) (r_esp r)) (\<lambda>w. check (w = r_int_no r)
         (bindr (read_u32 (paging_of k) (r_esp r + 4)) (\<lambda>w. check (w = r_err_code r)
         (bindr (read_u32 (paging_of k) (r_esp r + 8)) (\<lambda>w. check (w = r_eip r)
         (bindr (read_u32 (paging_of k) (r_esp r + 12)) (\<lambda>w. check (w = r_cs r)
         (bindr (read_u32 (paging_of k) (r_esp r + 16)) (\<lambda>w. check (w = r_eflags r) (Inr ()))))))))))))"

text \<open>Save the current task, or delete it when there are no registers to save; \<open>next_node\<close> becomes
  the front of the queue.\<close>

definition requeue :: "nat \<Rightarrow> kernel \<Rightarrow> u32 \<Rightarrow> u32 \<Rightarrow> kernel result" where
  "requeue fuel k front next_node =
     bindr (cycle_to fuel (Cycle fuel) (task_nodes k) front next_node) (\<lambda>(q, h).
     check (q \<noteq> 0) (Inr (k\<lparr>gTaskQueue := q, task_nodes := h\<rparr>)))"

definition leave_current :: "nat \<Rightarrow> kernel \<Rightarrow> u32 \<Rightarrow> u32 \<Rightarrow> registers option \<Rightarrow> u32 \<Rightarrow> kernel result" where
  "leave_current fuel k current_task next_node regs retval =
     (let current_node = gTaskQueue k in
      case regs of
        Some r \<Rightarrow>
          bindr (requeue fuel k (gTaskQueue k) next_node) (\<lambda>k1.
          bindr (get_task k1 current_task) (\<lambda>tk. Inr (set_task k1 current_task (tk\<lparr>task_regs := r\<rparr>))))
      | None \<Rightarrow>
          bindr (node_next (task_nodes k) current_node) (\<lambda>nxt.
          bindr (requeue fuel k nxt next_node) (\<lambda>k1.
          bindr (SendSignal k1 current_task kTerminated retval) (\<lambda>k2.
          bindr (delete_Task k2 current_task) (\<lambda>k3.
          Inr (k3\<lparr>task_nodes := (task_nodes k3)(current_node := None)\<rparr>))))))"

text \<open>Hand a received signal to the task that waited for it.\<close>

definition take_signal :: "task \<Rightarrow> task result" where
  "take_signal tk =
     (if isWaitingOnSignal tk then
        case getReceivedSignal tk of None \<Rightarrow> Inr tk
        | Some (sig, val, sender) \<Rightarrow>
            check (is_user tk \<longrightarrow> r_eax (task_regs tk) = K_OK)
            (RemoveSignal (tk\<lparr>task_regs := (task_regs tk)\<lparr>r_ebx := sig, r_ecx := val\<rparr>\<rparr>) sender)
      else Inr tk)"

definition enter_task :: "kernel \<Rightarrow> u32 \<Rightarrow> (ctl \<times> kernel) result" where
  "enter_task k new_task =
     bindr (get_task k new_task) (\<lambda>tk0.
     bindr (take_signal tk0) (\<lambda>tk.
     let k1 = set_task k new_task tk in
     bindr (ValidateRegs tk (task_regs tk)) (\<lambda>_.
     bindr (getKernelStackBase tk) (\<lambda>base.
     bindr (SendSignal (k1\<lparr>tss_esp0 := base\<rparr>) new_task kRunning 0) (\<lambda>k2.
     bindr (get_task k2 new_task) (\<lambda>tk2.
     let r = task_regs tk2 in
     Inr (Switch (r\<lparr>r_eflags := r_eflags r OR 0x200\<rparr>), k2\<lparr>paging_of := SwitchPageDirectory (paging_of k2) (task_pd tk2)\<rparr>)))))))"

definition Schedule :: "nat \<Rightarrow> kernel \<Rightarrow> registers option \<Rightarrow> u32 \<Rightarrow> (ctl \<times> kernel) result" where
  "Schedule fuel k regs retval =
     bindr (case regs of None \<Rightarrow> Inr ()
            | Some r \<Rightarrow> bindr (GetCurrentTask k) (\<lambda>t. bindr (get_task k t) (\<lambda>tk. ValidateRegs tk r))) (\<lambda>_.
     check (gTaskQueue k \<noteq> 0)
     (bindr (node_get (task_nodes k) (gTaskQueue k)) (\<lambda>current_task. check (current_task \<noteq> 0)
     (bindr (node_next (task_nodes k) (gTaskQueue k)) (\<lambda>nxt.
     if nxt = 0 then check (current_task = gKernelTask k) (Inr (Return, k))
     else bindr (find_runnable fuel k nxt) (\<lambda>next_node.
       if next_node = 0 \<and> current_task = GetMainKernelTask k then Inr (Return, k)
       else check (next_node \<noteq> 0)
        (bindr (node_get (task_nodes k) next_node) (\<lambda>new_task.
         bindr (get_task k current_task) (\<lambda>current.
         bindr (check_kernel_frame k current regs) (\<lambda>_.
         bindr (leave_current fuel k current_task next_node regs retval) (\<lambda>k1.
         enter_task k1 new_task)))))))))))"

section \<open>The timer\<close>

definition kMaxCallbacks :: nat where "kMaxCallbacks = 256"

definition RegisterTimerCallback :: "kernel \<Rightarrow> u8 \<Rightarrow> callback \<Rightarrow> kernel result" where
  "RegisterTimerCallback k num cb =
     check (gCallbacks k ! unat num = None) (Inr (k\<lparr>gCallbacks := (gCallbacks k)[unat num := Some cb]\<rparr>))"

definition UnregisterTimerCallback :: "kernel \<Rightarrow> u8 \<Rightarrow> kernel result" where
  "UnregisterTimerCallback k num =
     check (gCallbacks k ! unat num \<noteq> None) (Inr (k\<lparr>gCallbacks := (gCallbacks k)[unat num := None]\<rparr>))"

fun run_callback :: "nat \<Rightarrow> kernel \<Rightarrow> registers \<Rightarrow> callback \<Rightarrow> (ctl \<times> kernel) result" where
  "run_callback fuel k r ScheduleCallback = Schedule fuel k (Some r) 0"

fun run_callbacks :: "nat \<Rightarrow> kernel \<Rightarrow> registers \<Rightarrow> nat list \<Rightarrow> (ctl \<times> kernel) result" where
  "run_callbacks fuel k r [] = Inr (Return, k)"
| "run_callbacks fuel k r (i # is) =
     (case gCallbacks k ! i of None \<Rightarrow> run_callbacks fuel k r is
      | Some cb \<Rightarrow> bindr (run_callback fuel k r cb) (\<lambda>(c, k').
          case c of Return \<Rightarrow> run_callbacks fuel k' r is | Switch _ \<Rightarrow> Inr (c, k')))"

definition TimerCallback :: "nat \<Rightarrow> kernel \<Rightarrow> registers \<Rightarrow> (ctl \<times> kernel) result" where
  "TimerCallback fuel k r = run_callbacks fuel (k\<lparr>gTick := gTick k + 1\<rparr>) r [0..<kMaxCallbacks]"

section \<open>Start, end and new tasks\<close>

definition scheduler_Initialize :: "kernel \<Rightarrow> u32 \<Rightarrow> u32 \<Rightarrow> u32 \<Rightarrow> kernel result" where
  "scheduler_Initialize k a stack node =
     bindr (new_Task k a stack False GetKernelPageDirectory 0) (\<lambda>k1.
     bindr (get_task k1 a) (\<lambda>tk.
     bindr (getKernelStackBase tk) (\<lambda>base.
     if node = 0 then Inl Page_fault
     else RegisterTimerCallback (k1\<lparr>gKernelTask := a, tss_esp0 := base, task_nodes := new_Node (task_nodes k1) node a 0,
            gTaskQueue := node\<rparr>) 0 ScheduleCallback)))"

definition scheduler_Destroy :: "kernel \<Rightarrow> kernel result" where
  "scheduler_Destroy k =
     check (gTaskQueue k \<noteq> 0)
     (bindr (node_next (task_nodes k) (gTaskQueue k)) (\<lambda>nxt. check (nxt = 0)
      (delete_Task (k\<lparr>task_nodes := (task_nodes k)(gTaskQueue k := None)\<rparr>) (gKernelTask k))))"

definition RegisterTask :: "nat \<Rightarrow> kernel \<Rightarrow> u32 \<Rightarrow> u32 \<Rightarrow> kernel result" where
  "RegisterTask fuel k node t =
     check (gTaskQueue k \<noteq> 0)
     (bindr (Append fuel (task_nodes k) (gTaskQueue k) node t) (\<lambda>(_, h).
      SendSignal (k\<lparr>task_nodes := h\<rparr>) t kReady 0))"

end
