(* ===== verification/Scheduler_Props.thy ===== *)
theory Scheduler_Props
  imports Scheduler
begin

text \<open>
  What the scheduler guarantees: signals in closed form, the invariant \<open>sched_wf\<close> of the task queue, the two
  ways to leave a task (yield and end), waiting for signals, and the table of owned pages.
\<close>

section \<open>Signals\<close>

definition notified :: "u32 \<Rightarrow> u32 \<Rightarrow> u32 \<Rightarrow> task \<Rightarrow> task" where
  "notified this sigs val tk = tk\<lparr>waiting_on_signals := upd_signal this (receive sigs val) (waiting_on_signals tk)\<rparr>"

lemma receive_twice: "receive sigs val (receive sigs val s) = receive sigs val s"
  by (simp add: receive_def)

lemma sig_task_receive [simp]: "sig_task (receive sigs val s) = sig_task s"
  by (simp add: receive_def)

lemma upd_signal_twice:
  "(\<And>s. f (f s) = f s) \<Longrightarrow> (\<And>s. sig_task (f s) = sig_task s) \<Longrightarrow> upd_signal t f (upd_signal t f ss) = upd_signal t f ss"
  by (induction ss) auto

lemma notified_twice: "notified this sigs val (notified this sigs val tk) = notified this sigs val tk"
  by (simp add: notified_def upd_signal_twice receive_twice)

lemma notified_simps [simp]:
  "is_user (notified this sigs val tk) = is_user tk" "task_regs (notified this sigs val tk) = task_regs tk"
  "kernel_stack_allocation (notified this sigs val tk) = kernel_stack_allocation tk"
  "task_pd (notified this sigs val tk) = task_pd tk" "task_parent (notified this sigs val tk) = task_parent tk"
  "owned_phys_pages (notified this sigs val tk) = owned_phys_pages tk"
  "listening_for_signals (notified this sigs val tk) = listening_for_signals tk"
  by (simp_all add: notified_def)

lemma upd_signal_Nil [simp]: "upd_signal t f ss = [] \<longleftrightarrow> ss = []"
  by (cases ss) auto

lemma notified_waiting [simp]: "isWaitingOnSignal (notified this sigs val tk) = isWaitingOnSignal tk"
  by (simp add: notified_def isWaitingOnSignal_def)

lemma get_set_task [simp]:
  "get_task (set_task k t tk) u = (if u = t then Inr tk else get_task k u)"
  "tasks (set_task k t tk) = (tasks k)(t \<mapsto> tk)" "gTaskQueue (set_task k t tk) = gTaskQueue k"
  "task_nodes (set_task k t tk) = task_nodes k" "paging_of (set_task k t tk) = paging_of k" "pmm_of (set_task k t tk) = pmm_of k"
  "chans_of (set_task k t tk) = chans_of k" "gKernelTask (set_task k t tk) = gKernelTask k" "tss_esp0 (set_task k t tk) = tss_esp0 k"
  "gTick (set_task k t tk) = gTick k" "gCallbacks (set_task k t tk) = gCallbacks k" "gOldPageDir (set_task k t tk) = gOldPageDir k"
  "console (set_task k t tk) = console k"
  by (simp_all add: get_task_def set_task_def)

text \<open>\<open>SendSignal\<close> in closed form: every listener's entry for the sender is updated, nothing else.\<close>

definition with_tasks :: "kernel \<Rightarrow> (u32 \<Rightarrow> task \<Rightarrow> task) \<Rightarrow> kernel" where
  "with_tasks k f = k\<lparr>tasks := \<lambda>t. map_option (f t) (tasks k t)\<rparr>"

lemma with_tasks_simps [simp]:
  "tasks (with_tasks k f) = (\<lambda>t. map_option (f t) (tasks k t))" "gTaskQueue (with_tasks k f) = gTaskQueue k"
  "task_nodes (with_tasks k f) = task_nodes k" "paging_of (with_tasks k f) = paging_of k" "pmm_of (with_tasks k f) = pmm_of k"
  "chans_of (with_tasks k f) = chans_of k" "gKernelTask (with_tasks k f) = gKernelTask k" "tss_esp0 (with_tasks k f) = tss_esp0 k"
  "gTick (with_tasks k f) = gTick k" "gCallbacks (with_tasks k f) = gCallbacks k" "gOldPageDir (with_tasks k f) = gOldPageDir k"
  "console (with_tasks k f) = console k"
  by (simp_all add: with_tasks_def)

lemma send_to_eq:
  "set ls \<subseteq> dom (tasks k) \<Longrightarrow>
    send_to k this sigs val ls = Inr (with_tasks k (\<lambda>t. if t \<in> set ls then notified this sigs val else id))"
proof (induction ls arbitrary: k)
  case Nil
  then show ?case by (cases k) (simp add: with_tasks_def option.map_id [unfolded id_def] id_def)
next
  case (Cons l ls)
  then obtain tk where tk: "tasks k l = Some tk" by auto
  let ?k1 = "set_task k l (notified this sigs val tk)"
  have "send_to k this sigs val (l # ls) = send_to ?k1 this sigs val ls"
    using tk by (simp add: get_task_def notified_def)
  also have "\<dots> = Inr (with_tasks ?k1 (\<lambda>t. if t \<in> set ls then notified this sigs val else id))"
    by (rule Cons(1)) (use Cons(2) in auto)
  also have "with_tasks ?k1 (\<lambda>t. if t \<in> set ls then notified this sigs val else id)
      = with_tasks k (\<lambda>t. if t \<in> set (l # ls) then notified this sigs val else id)"
    using tk by (cases k) (auto simp: with_tasks_def set_task_def notified_twice fun_eq_iff)
  finally show ?case .
qed

lemma send_to_stale:
  "\<not> set ls \<subseteq> dom (tasks k) \<Longrightarrow> send_to k this sigs val ls = Inl Use_after_free"
proof (induction ls arbitrary: k)
  case (Cons l ls)
  show ?case
  proof (cases "tasks k l")
    case None
    then show ?thesis by (simp add: get_task_def)
  next
    case (Some tk)
    let ?k = "set_task k l (tk\<lparr>waiting_on_signals := upd_signal this (receive sigs val) (waiting_on_signals tk)\<rparr>)"
    have "\<not> set ls \<subseteq> dom (tasks ?k)" using Cons(2) Some by auto
    from Cons(1) [OF this] Some show ?thesis by (simp add: get_task_def)
  qed
qed simp

lemma SendSignal_eq:
  assumes "tasks k this = Some tk" "set (listening_for_signals tk) \<subseteq> dom (tasks k)" "sigs \<noteq> 0"
  shows "SendSignal k this sigs val =
    Inr (with_tasks k (\<lambda>t. if t \<in> set (listening_for_signals tk) then notified this sigs val else id))"
  using assms by (simp add: SendSignal_def get_task_def send_to_eq)

lemma SendSignal_stale:
  assumes "tasks k this = Some tk" "\<not> set (listening_for_signals tk) \<subseteq> dom (tasks k)" "sigs \<noteq> 0"
  shows "SendSignal k this sigs val = Inl Use_after_free"
  using assms by (simp add: SendSignal_def get_task_def send_to_stale)

section \<open>Entering a task\<close>

definition regs_after :: "task \<Rightarrow> registers" where
  "regs_after tk = (case getReceivedSignal tk of None \<Rightarrow> task_regs tk
     | Some (sig, val, _) \<Rightarrow> (task_regs tk)\<lparr>r_ebx := sig, r_ecx := val\<rparr>)"

lemma remove_signal_in:
  "t \<in> sig_task ` set ss \<Longrightarrow> \<exists>ss'. remove_signal ss t = Some ss' \<and> length ss = Suc (length ss') \<and> set ss' \<subseteq> set ss"
proof (induction ss)
  case (Cons s ss)
  show ?case
  proof (cases "sig_task s = t")
    case False
    then have "t \<in> sig_task ` set ss" using Cons(2) by auto
    from Cons(1) [OF this] False show ?thesis by fastforce
  qed auto
qed simp

lemma take_signal_ok:
  assumes "canRunTask tk" "is_user tk \<longrightarrow> isWaitingOnSignal tk \<longrightarrow> r_eax (task_regs tk) = K_OK"
  shows "\<exists>ss. take_signal tk = Inr (tk\<lparr>task_regs := regs_after tk, waiting_on_signals := ss\<rparr>)
    \<and> length ss = length (waiting_on_signals tk) - 1 \<and> set ss \<subseteq> set (waiting_on_signals tk)"
proof (cases "isWaitingOnSignal tk")
  case False
  then have "waiting_on_signals tk = []" "regs_after tk = task_regs tk"
    by (simp_all add: isWaitingOnSignal_def regs_after_def getReceivedSignal_def)
  with False show ?thesis by (cases tk) (simp add: take_signal_def)
next
  case True
  then obtain s where f: "find (\<lambda>s. received_signal s \<noteq> 0) (waiting_on_signals tk) = Some s"
    using assms(1) by (auto simp: canRunTask_def getReceivedSignal_def)
  then have "sig_task s \<in> sig_task ` set (waiting_on_signals tk)" by (metis find_Some_iff imageI nth_mem)
  from remove_signal_in [OF this] obtain ss where
    "remove_signal (waiting_on_signals tk) (sig_task s) = Some ss" "length (waiting_on_signals tk) = Suc (length ss)" "set ss \<subseteq> set (waiting_on_signals tk)"
    by blast
  with True f assms(2) show ?thesis
    by (auto simp: take_signal_def getReceivedSignal_def regs_after_def RemoveSignal_def)
qed

definition task_ok :: "kernel \<Rightarrow> task \<Rightarrow> bool" where
  "task_ok k tk \<longleftrightarrow> ValidateRegs tk (task_regs tk) = Inr () \<and> kernel_stack_allocation tk \<noteq> 0
     \<and> (kernel_stack_allocation tk + kDefaultKernStackSize) mod 4 = 0
     \<and> set (listening_for_signals tk) \<subseteq> dom (tasks k) \<and> task_pd tk \<in> dom (pds (paging_of k))"

definition wait_ok :: "task \<Rightarrow> bool" where
  "wait_ok tk \<longleftrightarrow> (is_user tk \<longrightarrow> isWaitingOnSignal tk \<longrightarrow> r_eax (task_regs tk) = K_OK)"

lemma ValidateRegs_cong:
  "is_user tk = is_user tk' \<Longrightarrow> r_cs r = r_cs r' \<Longrightarrow> r_ds r = r_ds r' \<Longrightarrow> r_gs r = r_gs r' \<Longrightarrow> r_fs r = r_fs r' \<Longrightarrow> r_es r = r_es r' \<Longrightarrow>
    r_ss r = r_ss r' \<Longrightarrow> ValidateRegs tk r = ValidateRegs tk' r'"
  by (simp add: ValidateRegs_def)

lemma ValidateRegs_after: "is_user tk' = is_user tk \<Longrightarrow> ValidateRegs tk' (regs_after tk) = ValidateRegs tk (task_regs tk)"
  by (rule ValidateRegs_cong) (auto simp: regs_after_def split: option.splits)

text \<open>The state after entering \<open>n\<close>: the task gets its signal, its listeners learn that it runs.\<close>

definition entered :: "kernel \<Rightarrow> u32 \<Rightarrow> task \<Rightarrow> signals list \<Rightarrow> kernel" where
  "entered k n tk ss =
     (with_tasks ((set_task k n (tk\<lparr>task_regs := regs_after tk, waiting_on_signals := ss\<rparr>))
          \<lparr>tss_esp0 := kernel_stack_allocation tk + kDefaultKernStackSize\<rparr>)
       (\<lambda>t. if t \<in> set (listening_for_signals tk) then notified n kRunning 0 else id))
     \<lparr>paging_of := SwitchPageDirectory (paging_of k) (task_pd tk)\<rparr>"

lemma enter_task_eq:
  assumes "tasks k n = Some tk" "task_ok k tk" "wait_ok tk" "canRunTask tk"
  shows "\<exists>ss. enter_task k n = Inr (Switch ((regs_after tk)\<lparr>r_eflags := r_eflags (regs_after tk) OR 0x200\<rparr>), entered k n tk ss)
    \<and> length ss = length (waiting_on_signals tk) - 1 \<and> set ss \<subseteq> set (waiting_on_signals tk)"
proof -
  from take_signal_ok [OF assms(4)] assms(3) obtain ss where ss:
    "take_signal tk = Inr (tk\<lparr>task_regs := regs_after tk, waiting_on_signals := ss\<rparr>)"
    "length ss = length (waiting_on_signals tk) - 1" "set ss \<subseteq> set (waiting_on_signals tk)" by (auto simp: wait_ok_def)
  let ?tk = "tk\<lparr>task_regs := regs_after tk, waiting_on_signals := ss\<rparr>"
  let ?base = "kernel_stack_allocation tk + kDefaultKernStackSize"
  let ?k1 = "(set_task k n ?tk)\<lparr>tss_esp0 := ?base\<rparr>"
  have v: "ValidateRegs ?tk (regs_after tk) = Inr ()"
    using assms(2) ValidateRegs_after [of ?tk tk] by (simp add: task_ok_def)
  have b: "getKernelStackBase ?tk = Inr ?base" using assms(2) by (simp add: getKernelStackBase_def task_ok_def Let_def)
  have "set (listening_for_signals ?tk) \<subseteq> dom (tasks ?k1)" using assms(1,2) by (auto simp: task_ok_def)
  then have s: "SendSignal ?k1 n kRunning 0 =
      Inr (with_tasks ?k1 (\<lambda>t. if t \<in> set (listening_for_signals tk) then notified n kRunning 0 else id))"
    using SendSignal_eq [of ?k1 n ?tk kRunning 0] by (simp add: kRunning_def)
  have "get_task (with_tasks ?k1 (\<lambda>t. if t \<in> set (listening_for_signals tk) then notified n kRunning 0 else id)) n
      = Inr (if n \<in> set (listening_for_signals tk) then notified n kRunning 0 ?tk else ?tk)"
    by (simp add: get_task_def)
  with ss v b s assms(1) show ?thesis
    by (intro exI [of _ ss]) (simp add: enter_task_def get_task_def [of k] Let_def entered_def)
qed


section \<open>The queue\<close>

definition runnable :: "kernel \<Rightarrow> u32 \<Rightarrow> bool" where
  "runnable k t \<longleftrightarrow> canRunTask (the (tasks k t))"

definition sched_wf :: "kernel \<Rightarrow> (u32 \<times> u32) list \<Rightarrow> bool" where
  "sched_wf k qs \<longleftrightarrow> chain (task_nodes k) (gTaskQueue k) qs \<and> qs \<noteq> [] \<and> distinct (map snd qs)
     \<and> (\<forall>t \<in> snd ` set qs. t \<noteq> 0 \<and> t \<in> dom (tasks k)) \<and> (\<forall>t tk. tasks k t = Some tk \<longrightarrow> task_ok k tk)
     \<and> (\<forall>t \<in> snd ` set (tl qs). wait_ok (the (tasks k t)))"

lemma find_runnable_eq:
  "chain (task_nodes k) p qs \<Longrightarrow> \<forall>t \<in> snd ` set qs. t \<in> dom (tasks k) \<Longrightarrow> length qs < fuel \<Longrightarrow>
    find_runnable fuel k p = Inr (case dropWhile (\<lambda>(n, t). \<not> runnable k t) qs of [] \<Rightarrow> 0 | x # _ \<Rightarrow> fst x)"
proof (induction fuel arbitrary: p qs)
  case (Suc fuel)
  show ?case
  proof (cases qs)
    case Nil
    then show ?thesis using Suc.prems by simp
  next
    case (Cons x xs)
    obtain n t where x: "x = (n, t)" by (cases x)
    have c: "chain (task_nodes k) p ((n, t) # xs)" using Suc.prems(1) Cons x by simp
    then have p: "p = n" "n \<noteq> 0" by auto
    obtain tk where tk: "tasks k t = Some tk" using Suc.prems(2) Cons x by auto
    have c': "chain (task_nodes k) (case xs of [] \<Rightarrow> 0 | y # _ \<Rightarrow> fst y) xs" by (rule chain_tl [OF c])
    have "find_runnable fuel k (case xs of [] \<Rightarrow> 0 | y # _ \<Rightarrow> fst y)
        = Inr (case dropWhile (\<lambda>(n, t). \<not> runnable k t) xs of [] \<Rightarrow> 0 | x # _ \<Rightarrow> fst x)"
      by (rule Suc.IH [OF c']) (use Suc.prems Cons in auto)
    then show ?thesis using p tk node_simps [OF c] Cons x by (simp add: get_task_def runnable_def)
  qed
qed simp

lemma dropWhile_first:
  "\<forall>(n, t) \<in> set pre. \<not> P t \<Longrightarrow> P t1 \<Longrightarrow> dropWhile (\<lambda>(n, t). \<not> P t) (pre @ (n1, t1) # post) = (n1, t1) # post"
  by (subst dropWhile_append2) auto

lemma requeue_eq:
  assumes "chain (task_nodes k) p (ys @ (n1, t1) # zs)" "length ys + length zs < fuel"
  shows "\<exists>h. requeue fuel k p n1 = Inr (k\<lparr>gTaskQueue := n1, task_nodes := h\<rparr>) \<and> chain h n1 ((n1, t1) # zs @ ys)"
proof -
  from nodes.cycle_to_reaches [OF assms, of fuel] assms(2) obtain h where
    h: "cycle_to fuel (Cycle fuel) (task_nodes k) p n1 = Inr (n1, h)" "chain h n1 ((n1, t1) # zs @ ys)" by auto
  then have "n1 \<noteq> 0" by simp
  with h show ?thesis by (auto simp: requeue_def)
qed

text \<open>Tasks may change what they wait for and their general registers; what \<open>task_ok\<close> asks of them stays.\<close>

definition like :: "task \<Rightarrow> task \<Rightarrow> bool" where
  "like tk tk' \<longleftrightarrow> ValidateRegs tk' (task_regs tk') = Inr () \<and> kernel_stack_allocation tk' = kernel_stack_allocation tk
     \<and> task_pd tk' = task_pd tk \<and> listening_for_signals tk' = listening_for_signals tk"

lemma task_ok_like:
  "task_ok k tk \<Longrightarrow> like tk tk' \<Longrightarrow> set (listening_for_signals tk) \<subseteq> dom (tasks k') \<Longrightarrow> task_pd tk \<in> dom (pds (paging_of k')) \<Longrightarrow> task_ok k' tk'"
  by (auto simp: task_ok_def like_def)

lemma like_notified: "task_ok k tk \<Longrightarrow> like tk (notified a b c tk)"
  using ValidateRegs_cong [of "notified a b c tk" tk "task_regs tk" "task_regs tk"] by (simp add: like_def task_ok_def)

lemma like_after: "task_ok k tk \<Longrightarrow> like tk (tk\<lparr>task_regs := regs_after tk, waiting_on_signals := ss\<rparr>)"
  using ValidateRegs_after [of "tk\<lparr>task_regs := regs_after tk, waiting_on_signals := ss\<rparr>" tk] by (simp add: like_def task_ok_def)

lemma like_trans: "like tk tk1 \<Longrightarrow> like tk1 tk2 \<Longrightarrow> like tk tk2"
  by (simp add: like_def)

lemma entered_tasks:
  assumes "tasks k n = Some tk" "tasks k t = Some tt" "\<forall>t tk. tasks k t = Some tk \<longrightarrow> task_ok k tk"
  shows "\<exists>tt'. tasks (entered k n tk ss) t = Some tt' \<and> like tt tt' \<and> (t \<noteq> n \<longrightarrow> task_regs tt' = task_regs tt
    \<and> is_user tt' = is_user tt \<and> isWaitingOnSignal tt' = isWaitingOnSignal tt \<and> (tt' = tt \<or> tt' = notified n kRunning 0 tt))"
proof -
  define b where "b = (if t = n then tk\<lparr>task_regs := regs_after tk, waiting_on_signals := ss\<rparr> else tt)"
  have l: "like tt b" using assms like_after [of k tk ss] by (auto simp: b_def like_def task_ok_def)
  have "like b (notified n kRunning 0 b)"
    using l ValidateRegs_cong [of "notified n kRunning 0 b" b "task_regs b" "task_regs b"] by (simp add: like_def)
  moreover have "tasks (entered k n tk ss) t = Some (if t \<in> set (listening_for_signals tk) then notified n kRunning 0 b else b)"
    using assms(1,2) by (simp add: entered_def b_def)
  ultimately show ?thesis using l like_trans [OF l] by (auto simp: b_def)
qed

lemma entered_simps [simp]:
  "gTaskQueue (entered k n tk ss) = gTaskQueue k" "task_nodes (entered k n tk ss) = task_nodes k" "pmm_of (entered k n tk ss) = pmm_of k"
  "chans_of (entered k n tk ss) = chans_of k" "gKernelTask (entered k n tk ss) = gKernelTask k"
  "tss_esp0 (entered k n tk ss) = kernel_stack_allocation tk + kDefaultKernStackSize"
  "pds (paging_of (entered k n tk ss)) = pds (paging_of k)" "gCurrentPageDir (paging_of (entered k n tk ss)) = task_pd tk"
  by (simp_all add: entered_def SwitchPageDirectory_def)

lemma entered_None: "tasks k n = Some tk \<Longrightarrow> tasks (entered k n tk ss) t = None \<longleftrightarrow> tasks k t = None"
  by (auto simp: entered_def)

lemma entered_dom: "tasks k n = Some tk \<Longrightarrow> dom (tasks (entered k n tk ss)) = dom (tasks k)"
  by (simp add: dom_def entered_None)

text \<open>Entering the task at the front keeps the scheduler's state well formed.\<close>

lemma entered_wf:
  assumes "sched_wf k ((n1, t1) # qs)" "tasks k t1 = Some tk"
  shows "sched_wf (entered k t1 tk ss) ((n1, t1) # qs)"
proof -
  let ?k = "entered k t1 tk ss"
  have ok: "\<forall>t tk. tasks k t = Some tk \<longrightarrow> task_ok k tk" using assms(1) by (simp add: sched_wf_def)
  have d: "dom (tasks ?k) = dom (tasks k)" by (rule entered_dom [OF assms(2)])
  have "task_ok ?k tt'" if "tasks ?k t = Some tt'" for t tt'
  proof -
    have "tasks k t \<noteq> None" using that entered_None [OF assms(2), of ss t] by simp
    then obtain tt where tt: "tasks k t = Some tt" by blast
    then have "like tt tt'" using entered_tasks [OF assms(2) tt ok, of ss] that by auto
    then show ?thesis using task_ok_like [of k tt tt' ?k] ok tt d by (simp add: task_ok_def)
  qed
  moreover have "wait_ok (the (tasks ?k t))" if "t \<in> snd ` set qs" for t
  proof -
    have "t \<noteq> t1" "wait_ok (the (tasks k t))" "t \<in> dom (tasks k)" using assms(1) that by (auto simp: sched_wf_def)
    then show ?thesis using entered_tasks [OF assms(2) _ ok, of t "the (tasks k t)" ss] by (auto simp: wait_ok_def)
  qed
  ultimately show ?thesis using assms(1) d by (simp add: sched_wf_def)
qed


section \<open>Schedule\<close>

lemma Schedule_to:
  assumes "sched_wf k ((n0, t0) # pre @ (n1, t1) # post)" "\<forall>(n, t) \<in> set pre. \<not> runnable k t" "runnable k t1"
    "length pre + length post + 1 < fuel" "tasks k t0 = Some tk0"
    "\<forall>r. regs = Some r \<longrightarrow> ValidateRegs tk0 r = Inr () \<and> check_kernel_frame k tk0 (Some r) = Inr ()"
  shows "Schedule fuel k regs retval = bindr (leave_current fuel k t0 n1 regs retval) (\<lambda>k1. enter_task k1 t1)"
proof -
  let ?qs = "(n0, t0) # pre @ (n1, t1) # post" and ?nxt = "case pre @ (n1, t1) # post of [] \<Rightarrow> 0 | y # _ \<Rightarrow> fst y"
  have c: "chain (task_nodes k) (gTaskQueue k) ?qs" and t0: "t0 \<noteq> 0"
    using assms(1) by (auto simp: sched_wf_def)
  have rest: "chain (task_nodes k) ?nxt (pre @ (n1, t1) # post)" by (rule chain_tl [OF c])
  have nz: "?nxt \<noteq> 0" using rest by (cases pre) auto
  have d: "\<forall>t \<in> snd ` set (pre @ (n1, t1) # post). t \<in> dom (tasks k)" using assms(1) by (auto simp: sched_wf_def)
  have f: "find_runnable fuel k ?nxt = Inr n1"
    using find_runnable_eq [OF rest d, of fuel] assms(2-4) dropWhile_first [of pre "runnable k" t1 n1 post] by simp
  have n1: "n1 \<noteq> 0" "node_get (task_nodes k) n1 = Inr t1"
    using chain_in [OF rest, of n1 t1] by (auto simp: node_get_def deref_def)
  have g: "gTaskQueue k \<noteq> 0" using c by auto
  have fr: "check_kernel_frame k tk0 regs = Inr ()" using assms(6) by (cases regs) (auto simp: check_kernel_frame_def)
  have v: "(case regs of None \<Rightarrow> Inr () | Some r \<Rightarrow> bindr (GetCurrentTask k) (\<lambda>t. bindr (get_task k t) (\<lambda>tk. ValidateRegs tk r))) = Inr ()"
    using assms(5,6) node_simps(1) [OF c] by (cases regs) (simp_all add: GetCurrentTask_def get_task_def)
  show ?thesis using v g t0 nz f n1 fr assms(5) node_simps [OF c]
    by (simp add: Schedule_def get_task_def)
qed

lemma task_ok_mono: "task_ok k tk \<Longrightarrow> dom (tasks k) \<subseteq> dom (tasks k') \<Longrightarrow> pds (paging_of k') = pds (paging_of k) \<Longrightarrow> task_ok k' tk"
  using subset_trans unfolding task_ok_def by metis

lemma sched_wfD:
  assumes "sched_wf k qs"
  shows "chain (task_nodes k) (gTaskQueue k) qs" "distinct (map snd qs)" "\<And>t. t \<in> snd ` set qs \<Longrightarrow> t \<noteq> 0 \<and> t \<in> dom (tasks k)"
    "\<And>t tk. tasks k t = Some tk \<Longrightarrow> task_ok k tk" "\<And>t. t \<in> snd ` set (tl qs) \<Longrightarrow> wait_ok (the (tasks k t))"
  using assms unfolding sched_wf_def by blast+

lemma sched_wfI:
  assumes "chain (task_nodes k) (gTaskQueue k) qs" "qs \<noteq> []" "distinct (map snd qs)" "\<And>t. t \<in> snd ` set qs \<Longrightarrow> t \<noteq> 0 \<and> t \<in> dom (tasks k)"
    "\<And>t tk. tasks k t = Some tk \<Longrightarrow> task_ok k tk" "\<And>t. t \<in> snd ` set (tl qs) \<Longrightarrow> wait_ok (the (tasks k t))"
  shows "sched_wf k qs"
  using assms unfolding sched_wf_def by blast

lemma task_ok_save: "task_ok k tk \<Longrightarrow> ValidateRegs tk r = Inr () \<Longrightarrow> task_ok k (tk\<lparr>task_regs := r\<rparr>)"
  using ValidateRegs_cong [of "tk\<lparr>task_regs := r\<rparr>" tk r r] by (simp add: task_ok_def)

lemma saved_wf:
  assumes "sched_wf k ((n0, t0) # pre @ (n1, t1) # post)" "chain h n1 ((n1, t1) # post @ (n0, t0) # pre)" "tasks k t0 = Some tk0"
    "ValidateRegs tk0 r = Inr ()" "wait_ok (tk0\<lparr>task_regs := r\<rparr>)"
  shows "sched_wf (set_task (k\<lparr>gTaskQueue := n1, task_nodes := h\<rparr>) t0 (tk0\<lparr>task_regs := r\<rparr>)) ((n1, t1) # post @ (n0, t0) # pre)" (is "sched_wf ?k1 _")
proof (rule sched_wfI)
  show "task_ok ?k1 tk" if "tasks ?k1 t = Some tk" for t tk
  proof (rule task_ok_mono)
    show "task_ok k tk"
    proof (cases "t = t0")
      case True
      then show ?thesis using that task_ok_save [OF sched_wfD(4) [OF assms(1,3)] assms(4)] by simp
    next
      case False
      then have "tasks k t = Some tk" using that by simp
      then show ?thesis by (rule sched_wfD(4) [OF assms(1)])
    qed
    show "dom (tasks k) \<subseteq> dom (tasks ?k1)" by auto
  qed simp
  show "wait_ok (the (tasks ?k1 t))" if "t \<in> snd ` set (tl ((n1, t1) # post @ (n0, t0) # pre))" for t
  proof (cases "t = t0")
    case True
    then show ?thesis using assms(5) by simp
  next
    case False
    then have "t \<in> snd ` set (pre @ (n1, t1) # post)" using that by auto
    then have "wait_ok (the (tasks k t))" using sched_wfD(5) [OF assms(1)] by simp
    then show ?thesis using False by simp
  qed
  show "t \<noteq> 0 \<and> t \<in> dom (tasks ?k1)" if "t \<in> snd ` set ((n1, t1) # post @ (n0, t0) # pre)" for t
    using sched_wfD(3) [OF assms(1), of t] that by auto
  show "distinct (map snd ((n1, t1) # post @ (n0, t0) # pre))" using sched_wfD(2) [OF assms(1)] by auto
qed (use assms(2) in simp_all)

text \<open>C13: Yielding. When the current task can be saved, \<open>Schedule\<close> enters the first task after it in the
  queue that can run, moves it to the front and everything before it to the end in the same order,
  saves the registers, loads the task's registers (with a received signal in EBX and ECX), its kernel
  stack and its address space. The scheduler's invariant is kept.\<close>

theorem schedule_round_robin:
  assumes "sched_wf k ((n0, t0) # pre @ (n1, t1) # post)" "\<forall>(n, t) \<in> set pre. \<not> runnable k t" "runnable k t1"
    "length pre + length post + 1 < fuel" "tasks k t0 = Some tk0" "tasks k t1 = Some tk1"
    "ValidateRegs tk0 r = Inr ()" "check_kernel_frame k tk0 (Some r) = Inr ()" "wait_ok (tk0\<lparr>task_regs := r\<rparr>)"
  shows "\<exists>k'. Schedule fuel k (Some r) retval = Inr (Switch ((regs_after tk1)\<lparr>r_eflags := r_eflags (regs_after tk1) OR 0x200\<rparr>), k')
    \<and> sched_wf k' ((n1, t1) # post @ (n0, t0) # pre) \<and> (\<exists>tk. tasks k' t0 = Some tk \<and> task_regs tk = r)
    \<and> gCurrentPageDir (paging_of k') = task_pd tk1 \<and> tss_esp0 k' = kernel_stack_allocation tk1 + kDefaultKernStackSize
    \<and> pmm_of k' = pmm_of k \<and> chans_of k' = chans_of k"
proof -
  let ?qs = "(n0, t0) # pre @ (n1, t1) # post" and ?qs' = "(n1, t1) # post @ (n0, t0) # pre"
  have c: "chain (task_nodes k) (gTaskQueue k) (((n0, t0) # pre) @ (n1, t1) # post)" and dist: "distinct (map snd ?qs)"
    and ok: "\<forall>t tk. tasks k t = Some tk \<longrightarrow> task_ok k tk" and w: "\<forall>t \<in> snd ` set (pre @ (n1, t1) # post). wait_ok (the (tasks k t))"
    using sched_wfD [OF assms(1)] by simp_all
  have ne: "t0 \<noteq> t1" "t0 \<notin> snd ` set pre" "t0 \<notin> snd ` set post" using dist by auto
  obtain h where h: "requeue fuel k (gTaskQueue k) n1 = Inr (k\<lparr>gTaskQueue := n1, task_nodes := h\<rparr>)" "chain h n1 ?qs'"
    using requeue_eq [OF c, of fuel] assms(4) by auto
  let ?k1 = "set_task (k\<lparr>gTaskQueue := n1, task_nodes := h\<rparr>) t0 (tk0\<lparr>task_regs := r\<rparr>)"
  have l: "leave_current fuel k t0 n1 (Some r) retval = Inr ?k1"
    using h(1) assms(5) by (simp add: leave_current_def Let_def get_task_def)
  have wf1: "sched_wf ?k1 ?qs'" by (rule saved_wf [OF assms(1) h(2) assms(5,7,9)])
  have t1: "tasks ?k1 t1 = Some tk1" using assms(6) ne by simp
  have ok1: "\<forall>t tk. tasks ?k1 t = Some tk \<longrightarrow> task_ok ?k1 tk" using sched_wfD(4) [OF wf1] by blast
  have "task_ok ?k1 tk1" using ok1 t1 by blast
  moreover have "wait_ok tk1" "canRunTask tk1" using w assms(3,6) by (simp_all add: runnable_def)
  ultimately have en: "task_ok ?k1 tk1" "wait_ok tk1" "canRunTask tk1" .
  from enter_task_eq [OF t1 en] obtain ss where
    e: "enter_task ?k1 t1 = Inr (Switch ((regs_after tk1)\<lparr>r_eflags := r_eflags (regs_after tk1) OR 0x200\<rparr>), entered ?k1 t1 tk1 ss)" by blast
  have s: "Schedule fuel k (Some r) retval = Inr (Switch ((regs_after tk1)\<lparr>r_eflags := r_eflags (regs_after tk1) OR 0x200\<rparr>), entered ?k1 t1 tk1 ss)"
    using Schedule_to [OF assms(1-5), of "Some r" retval] assms(7,8) l e by simp
  have t0: "tasks ?k1 t0 = Some (tk0\<lparr>task_regs := r\<rparr>)" by simp
  have "\<exists>tk. tasks (entered ?k1 t1 tk1 ss) t0 = Some tk \<and> task_regs tk = r"
    using entered_tasks [OF t1 t0 ok1, of ss] ne(1) by auto
  with s entered_wf [OF wf1 t1] show ?thesis by (intro exI [of _ "entered ?k1 t1 tk1 ss"]) simp
qed


section \<open>The end of a task\<close>

definition owned_pages :: "task \<Rightarrow> nat set" where
  "owned_pages tk = unat ` (set (owned_phys_pages tk) - {0})"

definition owned_ok :: "pmm \<Rightarrow> task \<Rightarrow> bool" where
  "owned_ok p tk \<longleftrightarrow> length (owned_phys_pages tk) = kMaxPages \<and> distinct (filter (\<lambda>x. x \<noteq> 0) (owned_phys_pages tk)) \<and> owned_pages tk \<subseteq> used_pages p"

lemma used_pages_bound: "p \<in> used_pages s \<Longrightarrow> p < kNumPageDirEntries"
  by (simp add: used_pages_def)

lemma free_owned_eq:
  "pmm_wf p \<Longrightarrow> distinct (filter (\<lambda>x. x \<noteq> 0) pages) \<Longrightarrow> unat ` (set pages - {0}) \<subseteq> used_pages p \<Longrightarrow>
    \<exists>p'. free_owned p pages = Inr p' \<and> pmm_wf p' \<and> used_pages p' = used_pages p - unat ` (set pages - {0})
      \<and> gNum4MPages p' = gNum4MPages p"
proof (induction pages arbitrary: p)
  case (Cons x xs)
  show ?case
  proof (cases "x = 0")
    case True
    then show ?thesis using Cons by auto
  next
    case False
    have u: "unat x \<in> used_pages p" using Cons(4) False by auto
    obtain p1 where p1: "SetPageFree p (unat x) = Inr p1" "pmm_wf p1" "used_pages p1 = used_pages p - {unat x}" "gNum4MPages p1 = gNum4MPages p"
      using frames.set_free_total [OF Cons(2) u] SetPageFree_used [OF Cons(2) used_pages_bound [OF u]] by blast
    have x: "x \<notin> set xs" "distinct (filter (\<lambda>x. x \<noteq> 0) xs)" using Cons(3) False by auto
    have "unat ` (set xs - {0}) \<subseteq> used_pages p1"
    proof
      fix q assume "q \<in> unat ` (set xs - {0})"
      then obtain y where "q = unat y" "y \<in> set xs" "y \<noteq> 0" by blast
      moreover from this x(1) have "unat y \<noteq> unat x" by (metis word_unat_eq_iff)
      moreover have "unat y \<in> used_pages p" using Cons(4) calculation by auto
      ultimately show "q \<in> used_pages p1" using p1(3) by simp
    qed
    from Cons(1) [OF p1(2) x(2) this] obtain p' where p': "free_owned p1 xs = Inr p'" "pmm_wf p'"
      "used_pages p' = used_pages p1 - unat ` (set xs - {0})" "gNum4MPages p' = gNum4MPages p1" by blast
    have "set (x # xs) - {0} = insert x (set xs - {0})" using False by auto
    then have "used_pages p' = used_pages p - unat ` (set (x # xs) - {0})" using p'(3) p1(3) by auto
    then show ?thesis using p' p1 u False PageIsUsed_wf [OF Cons(2) used_pages_bound [OF u]] by simp
  qed
qed auto

lemma delete_Task_eq:
  assumes "tasks k t = Some tk" "pmm_wf (pmm_of k)" "owned_ok (pmm_of k) tk"
  shows "\<exists>p. delete_Task k t = Inr (k\<lparr>chans_of := CloseEndpointsOwnedByTask (chans_of k) t, pmm_of := p,
      paging_of := (paging_of k)\<lparr>pds := if task_pd tk \<noteq> KernelPD then (pds (paging_of k))(task_pd tk := None) else pds (paging_of k)\<rparr>,
      tasks := (tasks k)(t := None)\<rparr>)
    \<and> pmm_wf p \<and> used_pages p = used_pages (pmm_of k) - owned_pages tk \<and> gNum4MPages p = gNum4MPages (pmm_of k)"
proof -
  from free_owned_eq [OF assms(2), of "owned_phys_pages tk"] assms(3) obtain p where
    p: "free_owned (pmm_of k) (owned_phys_pages tk) = Inr p" "pmm_wf p" "used_pages p = used_pages (pmm_of k) - owned_pages tk"
      "gNum4MPages p = gNum4MPages (pmm_of k)"
    by (auto simp: owned_ok_def owned_pages_def)
  then show ?thesis using assms(1) by (intro exI [of _ p]) (simp add: delete_Task_def get_task_def Let_def)
qed

lemma find_upd_signal:
  "(\<And>s. P s \<Longrightarrow> P (f s)) \<Longrightarrow> \<exists>s \<in> set ss. P s \<Longrightarrow> \<exists>s \<in> set (upd_signal t f ss). P s"
  by (induction ss) auto

lemma canRun_iff: "canRunTask tk \<longleftrightarrow> waiting_on_signals tk = [] \<or> (\<exists>s \<in> set (waiting_on_signals tk). received_signal s \<noteq> 0)"
  by (auto simp: canRunTask_def isWaitingOnSignal_def getReceivedSignal_def find_None_iff)

lemma canRun_notified: "canRunTask tk \<Longrightarrow> sigs \<noteq> 0 \<Longrightarrow> canRunTask (notified t sigs val tk)"
proof -
  assume c: "canRunTask tk" and s: "sigs \<noteq> 0"
  have "received_signal x \<noteq> 0 \<Longrightarrow> received_signal (receive sigs val x) \<noteq> 0" for x using s by (simp add: receive_def)
  from find_upd_signal [of "\<lambda>s. received_signal s \<noteq> 0" "receive sigs val", OF this] c show ?thesis
    by (simp add: canRun_iff notified_def) blast
qed

lemma notified_wakes:
  assumes "find (\<lambda>s. sig_task s = t) (waiting_on_signals tk) = Some s" "expecting_signals s AND sigs \<noteq> 0"
  shows "\<exists>s' \<in> set (waiting_on_signals (notified t sigs val tk)). sig_task s' = t \<and> received_signal s' = sigs \<and> sig_value s' = val"
proof -
  have "\<exists>s' \<in> set (upd_signal t (receive sigs val) ss). sig_task s' = t \<and> received_signal s' = sigs \<and> sig_value s' = val"
    if "find (\<lambda>s. sig_task s = t) ss = Some s" for ss
    using that assms(2) by (induction ss) (auto simp: receive_def split: if_splits)
  from this [OF assms(1)] show ?thesis by (simp add: notified_def)
qed

lemma notified_other:
  "s \<in> set (waiting_on_signals tk) \<Longrightarrow> sig_task s \<noteq> u \<Longrightarrow> s \<in> set (waiting_on_signals (notified u sigs val tk))"
proof -
  have "s \<in> set ss \<Longrightarrow> sig_task s \<noteq> u \<Longrightarrow> s \<in> set (upd_signal u f ss)" for ss f by (induction ss) auto
  then show "s \<in> set (waiting_on_signals tk) \<Longrightarrow> sig_task s \<noteq> u \<Longrightarrow> ?thesis" by (simp add: notified_def)
qed


text \<open>The state in which the task that is left has been removed.\<close>

lemma leave_exit:
  assumes "sched_wf k ((n0, t0) # pre @ (n1, t1) # post)" "length pre + length post + 1 < fuel" "tasks k t0 = Some tk0"
    "pmm_wf (pmm_of k)" "owned_ok (pmm_of k) tk0"
  shows "\<exists>k'. leave_current fuel k t0 n1 None retval = Inr k' \<and> chain (task_nodes k') (gTaskQueue k') ((n1, t1) # post @ pre)
    \<and> tasks k' = (\<lambda>t. if t = t0 then None else map_option (if t \<in> set (listening_for_signals tk0) then notified t0 kTerminated retval else id) (tasks k t))
    \<and> chans_of k' = CloseEndpointsOwnedByTask (chans_of k) t0 \<and> pmm_wf (pmm_of k')
    \<and> used_pages (pmm_of k') = used_pages (pmm_of k) - owned_pages tk0
    \<and> pds (paging_of k') = (if task_pd tk0 \<noteq> KernelPD then (pds (paging_of k))(task_pd tk0 := None) else pds (paging_of k))
    \<and> task_nodes k' n0 = None"
proof -
  let ?qs = "(n0, t0) # pre @ (n1, t1) # post" and ?nxt = "case pre @ (n1, t1) # post of [] \<Rightarrow> 0 | y # _ \<Rightarrow> fst y"
  let ?qs' = "(n1, t1) # post @ pre"
  note wf = sched_wfD [OF assms(1)]
  have rest: "chain (task_nodes k) ?nxt (pre @ (n1, t1) # post)" by (rule chain_tl [OF wf(1)])
  have g: "gTaskQueue k = n0" using wf(1) by simp
  have n0: "n0 \<notin> fst ` set ?qs'" using chain_distinct [OF wf(1)] by auto
  have ts: "t0 \<notin> snd ` set ?qs'" "distinct (map snd ?qs')" using wf(2) by auto
  obtain h where h: "requeue fuel k ?nxt n1 = Inr (k\<lparr>gTaskQueue := n1, task_nodes := h\<rparr>)" "chain h n1 ?qs'"
    using requeue_eq [OF rest, of fuel] assms(2) by auto
  let ?k1 = "k\<lparr>gTaskQueue := n1, task_nodes := h\<rparr>"
  let ?f = "\<lambda>t. if t \<in> set (listening_for_signals tk0) then notified t0 kTerminated retval else id"
  let ?k2 = "with_tasks ?k1 ?f"
  have ls: "set (listening_for_signals tk0) \<subseteq> dom (tasks k)" using wf(4) [OF assms(3)] by (simp add: task_ok_def)
  have s: "SendSignal ?k1 t0 kTerminated retval = Inr ?k2"
    using SendSignal_eq [of ?k1 t0 tk0 kTerminated retval] assms(3) ls by (simp add: kTerminated_def)
  define tk2 where "tk2 = ?f t0 tk0"
  have t2: "tasks ?k2 t0 = Some tk2" using assms(3) by (simp add: tk2_def)
  have o: "owned_ok (pmm_of ?k2) tk2" "owned_pages tk2 = owned_pages tk0" "task_pd tk2 = task_pd tk0" "pmm_wf (pmm_of ?k2)"
    using assms(4,5) by (simp_all add: owned_ok_def owned_pages_def tk2_def)
  let ?pds = "if task_pd tk0 \<noteq> KernelPD then (pds (paging_of ?k2))(task_pd tk0 := None) else pds (paging_of ?k2)"
  obtain p where
    d: "delete_Task ?k2 t0 = Inr (?k2\<lparr>chans_of := CloseEndpointsOwnedByTask (chans_of ?k2) t0, pmm_of := p,
      paging_of := (paging_of ?k2)\<lparr>pds := ?pds\<rparr>, tasks := (tasks ?k2)(t0 := None)\<rparr>)" (is "_ = Inr ?k3")
    and p: "pmm_wf p" "used_pages p = used_pages (pmm_of k) - owned_pages tk0"
    using delete_Task_eq [OF t2 o(4,1), unfolded o(2,3)] by auto
  let ?k4 = "?k3\<lparr>task_nodes := h(n0 := None)\<rparr>"
  have l: "leave_current fuel k t0 n1 None retval = Inr ?k4"
    using h(1) s d g node_simps(2) [OF wf(1)] by (simp add: leave_current_def Let_def)
  have "tasks ?k4 = (\<lambda>t. if t = t0 then None else map_option (?f t) (tasks k t))" by (simp add: fun_eq_iff)
  moreover have "chain (task_nodes ?k4) (gTaskQueue ?k4) ?qs'" using chain_upd [OF n0, of h None n1] h(2) by simp
  ultimately show ?thesis using l p by (intro exI [of _ ?k4]) simp
qed

lemma leave_for_good:
  assumes "sched_wf k ((n0, t0) # pre @ (n1, t1) # post)"
    "\<forall>t tk. t \<noteq> t0 \<and> tasks k t = Some tk \<longrightarrow> t0 \<notin> set (listening_for_signals tk) \<and> (task_pd tk0 \<noteq> KernelPD \<longrightarrow> task_pd tk \<noteq> task_pd tk0)"
    and c: "chain (task_nodes k') (gTaskQueue k') ((n1, t1) # post @ pre)"
    and tk4: "tasks k' = (\<lambda>t. if t = t0 then None else map_option (if t \<in> set (listening_for_signals tk0) then notified t0 kTerminated retval else id) (tasks k t))"
    and pd: "pds (paging_of k') = (if task_pd tk0 \<noteq> KernelPD then (pds (paging_of k))(task_pd tk0 := None) else pds (paging_of k))"
  shows "sched_wf k' ((n1, t1) # post @ pre)"
proof -
  let ?qs = "(n0, t0) # pre @ (n1, t1) # post" and ?qs' = "(n1, t1) # post @ pre"
  let ?f = "\<lambda>t. if t \<in> set (listening_for_signals tk0) then notified t0 kTerminated retval else id"
  note wf = sched_wfD [OF assms(1)]
  have ts: "t0 \<notin> snd ` set ?qs'" "distinct (map snd ?qs')" using wf(2) by auto
  have dom4: "dom (tasks k') = dom (tasks k) - {t0}" by (auto simp: tk4 split: if_splits)
  show ?thesis
  proof (rule sched_wfI)
    show "chain (task_nodes k') (gTaskQueue k') ?qs'" using c .
    show "t \<noteq> 0 \<and> t \<in> dom (tasks k')" if "t \<in> snd ` set ?qs'" for t
      using wf(3) [of t] that ts(1) unfolding dom4 by auto
    show "task_ok k' tk'" if "tasks k' t = Some tk'" for t tk'
    proof -
      have "t \<noteq> t0" using that by (auto simp: tk4)
      moreover have "(if t = t0 then None else map_option (?f t) (tasks k t)) = Some tk'" using that unfolding tk4 .
      ultimately have "map_option (?f t) (tasks k t) = Some tk'" by simp
      then obtain tk where tk: "tasks k t = Some tk" "tk' = ?f t tk" by blast
      have ok: "task_ok k tk" by (rule wf(4) [OF tk(1)])
      have lk: "like tk tk'" using ok like_notified [OF ok] unfolding tk(2) by (simp add: like_def task_ok_def)
      have "t0 \<notin> set (listening_for_signals tk)" "set (listening_for_signals tk) \<subseteq> dom (tasks k)"
        using assms(2) \<open>t \<noteq> t0\<close> tk(1) ok unfolding task_ok_def by blast+
      then have "set (listening_for_signals tk) \<subseteq> dom (tasks k')" unfolding dom4 by blast
      moreover have "task_pd tk \<in> dom (pds (paging_of k'))"
      proof (cases "task_pd tk0 = KernelPD")
        case True
        then show ?thesis using ok pd by (simp add: task_ok_def)
      next
        case False
        then have "task_pd tk \<noteq> task_pd tk0" using assms(2) \<open>t \<noteq> t0\<close> tk(1) by blast
        then show ?thesis using ok pd False by (simp add: task_ok_def)
      qed
      ultimately show ?thesis by (rule task_ok_like [OF ok lk])
    qed
    show "wait_ok (the (tasks k' t))" if "t \<in> snd ` set (tl ?qs')" for t
    proof -
      have "t \<noteq> t0" "t \<in> dom (tasks k)" "wait_ok (the (tasks k t))"
        using that ts(1) wf(3) [of t] wf(5) [of t] by auto
      then show ?thesis unfolding tk4 by (auto simp: wait_ok_def)
    qed
  qed (use ts(2) in simp_all)
qed


text \<open>C14: The end of a task. \<open>Schedule\<close> without registers to save deletes the current task: its physical
  pages are free, its endpoints closed, its page directory, its node and the task itself gone; every
  task that waits for its end can run and finds the return value; the next task that can run is
  entered and the scheduler's invariant is kept. Assumed is that no other task has the current one
  among its listeners.\<close>

theorem schedule_exit:
  assumes "sched_wf k ((n0, t0) # pre @ (n1, t1) # post)" "\<forall>(n, t) \<in> set pre. \<not> runnable k t" "runnable k t1"
    "length pre + length post + 1 < fuel" "tasks k t0 = Some tk0" "pmm_wf (pmm_of k)" "owned_ok (pmm_of k) tk0"
    "\<forall>t tk. t \<noteq> t0 \<and> tasks k t = Some tk \<longrightarrow> t0 \<notin> set (listening_for_signals tk) \<and> (task_pd tk0 \<noteq> KernelPD \<longrightarrow> task_pd tk \<noteq> task_pd tk0)"
  shows "\<exists>r k'. Schedule fuel k None retval = Inr (Switch r, k') \<and> sched_wf k' ((n1, t1) # post @ pre)
    \<and> dom (tasks k') = dom (tasks k) - {t0} \<and> used_pages (pmm_of k') = used_pages (pmm_of k) - owned_pages tk0
    \<and> chans_of k' = CloseEndpointsOwnedByTask (chans_of k) t0 \<and> (task_pd tk0 \<noteq> KernelPD \<longrightarrow> pds (paging_of k') (task_pd tk0) = None)
    \<and> task_nodes k' n0 = None
    \<and> (\<forall>w tk s. tasks k w = Some tk \<and> w \<in> set (listening_for_signals tk0) \<and> w \<notin> {t0, t1}
         \<and> find (\<lambda>s. sig_task s = t0) (waiting_on_signals tk) = Some s \<and> expecting_signals s AND kTerminated \<noteq> 0 \<longrightarrow>
         runnable k' w \<and> (\<exists>s' \<in> set (waiting_on_signals (the (tasks k' w))).
           sig_task s' = t0 \<and> received_signal s' = kTerminated \<and> sig_value s' = retval))"
proof -
  let ?f = "\<lambda>t. if t \<in> set (listening_for_signals tk0) then notified t0 kTerminated retval else id"
  obtain k1 where l: "leave_current fuel k t0 n1 None retval = Inr k1" and c: "chain (task_nodes k1) (gTaskQueue k1) ((n1, t1) # post @ pre)"
    and tk: "tasks k1 = (\<lambda>t. if t = t0 then None else map_option (?f t) (tasks k t))"
    and ch: "chans_of k1 = CloseEndpointsOwnedByTask (chans_of k) t0" and us: "used_pages (pmm_of k1) = used_pages (pmm_of k) - owned_pages tk0"
    and pd: "pds (paging_of k1) = (if task_pd tk0 \<noteq> KernelPD then (pds (paging_of k))(task_pd tk0 := None) else pds (paging_of k))"
    and nn: "task_nodes k1 n0 = None"
    using leave_exit [OF assms(1,4,5,6,7), of retval] by blast
  have wf1: "sched_wf k1 ((n1, t1) # post @ pre)" by (rule leave_for_good [OF assms(1,8) c tk pd])
  have t1: "t1 \<noteq> t0" "t1 \<in> dom (tasks k)" "wait_ok (the (tasks k t1))"
    using sched_wfD(2) [OF assms(1)] sched_wfD(3,5) [OF assms(1), of t1] by auto
  then obtain tk1 where tk1: "tasks k t1 = Some tk1" by blast
  let ?tk = "?f t1 tk1"
  have t1k: "tasks k1 t1 = Some ?tk" using tk tk1 t1(1) by simp
  have "canRunTask tk1" using assms(3) tk1 by (simp add: runnable_def)
  then have "canRunTask ?tk" using canRun_notified [of tk1 kTerminated t0 retval] by (simp add: kTerminated_def)
  moreover have "wait_ok ?tk" using t1(3) tk1 by (simp add: wait_ok_def)
  ultimately obtain ss where e: "enter_task k1 t1 = Inr (Switch ((regs_after ?tk)\<lparr>r_eflags := r_eflags (regs_after ?tk) OR 0x200\<rparr>), entered k1 t1 ?tk ss)"
    using enter_task_eq [OF t1k sched_wfD(4) [OF wf1 t1k]] by blast
  let ?k' = "entered k1 t1 ?tk ss"
  have s: "Schedule fuel k None retval = Inr (Switch ((regs_after ?tk)\<lparr>r_eflags := r_eflags (regs_after ?tk) OR 0x200\<rparr>), ?k')"
    using Schedule_to [OF assms(1-5), of None retval] l e by simp
  have dom: "dom (tasks ?k') = dom (tasks k) - {t0}"
    using entered_dom [OF t1k, of ss] by (auto simp: tk split: if_splits)
  have wake: "runnable ?k' w \<and> (\<exists>s' \<in> set (waiting_on_signals (the (tasks ?k' w))). sig_task s' = t0 \<and> received_signal s' = kTerminated \<and> sig_value s' = retval)"
    if w: "tasks k w = Some tkw" "w \<in> set (listening_for_signals tk0)" "w \<notin> {t0, t1}"
      "find (\<lambda>s. sig_task s = t0) (waiting_on_signals tkw) = Some s" "expecting_signals s AND kTerminated \<noteq> 0" for w tkw s
  proof -
    have kw: "tasks k1 w = Some (notified t0 kTerminated retval tkw)" using tk w(1-3) by simp
    obtain s' where s': "s' \<in> set (waiting_on_signals (notified t0 kTerminated retval tkw))" "sig_task s' = t0"
      "received_signal s' = kTerminated" "sig_value s' = retval" using notified_wakes [OF w(4,5), of retval] by blast
    obtain tw where tw: "tasks ?k' w = Some tw" "tw = notified t0 kTerminated retval tkw \<or> tw = notified t1 kRunning 0 (notified t0 kTerminated retval tkw)"
      using entered_tasks [OF t1k kw, of ss] sched_wfD(4) [OF wf1] w(3) by blast
    have "s' \<in> set (waiting_on_signals tw)" using tw(2) s'(1,2) t1(1) notified_other [OF s'(1), of t1] by auto
    then show ?thesis using tw(1) s'(2-4) by (auto simp: runnable_def canRun_iff kTerminated_def)
  qed
  show ?thesis
    by (intro exI [of _ "(regs_after ?tk)\<lparr>r_eflags := r_eflags (regs_after ?tk) OR 0x200\<rparr>"] exI [of _ ?k'] conjI)
      (use s dom entered_wf [OF wf1 t1k] us ch pd nn wake in \<open>simp_all\<close>)
qed


text \<open>Listeners are never taken off the list of the task they listened to. When the current task ends and the
  task that is entered next has it among its listeners, sending the running signal goes through the
  pointer to the deleted task.\<close>

theorem exit_stale_listener:
  assumes "sched_wf k ((n0, t0) # pre @ (n1, t1) # post)" "\<forall>(n, t) \<in> set pre. \<not> runnable k t" "runnable k t1"
    "length pre + length post + 1 < fuel" "tasks k t0 = Some tk0" "pmm_wf (pmm_of k)" "owned_ok (pmm_of k) tk0"
    "tasks k t1 = Some tk1" "t0 \<in> set (listening_for_signals tk1)"
  shows "Schedule fuel k None retval = Inl Use_after_free"
proof -
  let ?f = "\<lambda>t. if t \<in> set (listening_for_signals tk0) then notified t0 kTerminated retval else id"
  obtain k1 where l: "leave_current fuel k t0 n1 None retval = Inr k1"
    and tk: "tasks k1 = (\<lambda>t. if t = t0 then None else map_option (?f t) (tasks k t))"
    using leave_exit [OF assms(1,4,5,6,7), of retval] by blast
  have t1: "t1 \<noteq> t0" "wait_ok tk1" using sched_wfD(2) [OF assms(1)] sched_wfD(5) [OF assms(1), of t1] assms(8) by auto
  let ?tk = "?f t1 tk1"
  have t1k: "tasks k1 t1 = Some ?tk" using tk assms(8) t1(1) by simp
  have ok: "task_ok k tk1" by (rule sched_wfD(4) [OF assms(1,8)])
  have "canRunTask ?tk" using assms(3,8) canRun_notified [of tk1 kTerminated t0 retval] by (simp add: runnable_def kTerminated_def)
  moreover have "is_user ?tk \<longrightarrow> isWaitingOnSignal ?tk \<longrightarrow> r_eax (task_regs ?tk) = K_OK" using t1(2) by (simp add: wait_ok_def)
  ultimately obtain ss where ss: "take_signal ?tk = Inr (?tk\<lparr>task_regs := regs_after ?tk, waiting_on_signals := ss\<rparr>)"
    using take_signal_ok [of ?tk] by blast
  let ?tk' = "?tk\<lparr>task_regs := regs_after ?tk, waiting_on_signals := ss\<rparr>"
  have u: "is_user ?tk' = is_user ?tk" by simp
  have "ValidateRegs ?tk (task_regs ?tk) = Inr ()"
    using ok like_notified [OF ok, of t0 kTerminated retval] by (simp add: like_def task_ok_def)
  then have v: "ValidateRegs ?tk' (regs_after ?tk) = Inr ()" using ValidateRegs_after [OF u] by simp
  let ?base = "kernel_stack_allocation tk1 + kDefaultKernStackSize"
  have b: "getKernelStackBase ?tk' = Inr ?base" using ok by (simp add: getKernelStackBase_def task_ok_def Let_def)
  have "tasks k1 t0 = None" using tk by simp
  then have n: "t0 \<notin> dom (tasks ((set_task k1 t1 ?tk')\<lparr>tss_esp0 := ?base\<rparr>))" using t1(1) by (simp add: domIff)
  have "t0 \<in> set (listening_for_signals ?tk')" using assms(9) by simp
  with n have nl: "\<not> set (listening_for_signals ?tk') \<subseteq> dom (tasks ((set_task k1 t1 ?tk')\<lparr>tss_esp0 := ?base\<rparr>))" by blast
  have "SendSignal ((set_task k1 t1 ?tk')\<lparr>tss_esp0 := ?base\<rparr>) t1 kRunning 0 = Inl Use_after_free"
    by (rule SendSignal_stale [OF _ nl]) (simp_all add: kRunning_def)
  then have "enter_task k1 t1 = Inl Use_after_free"
    using t1k ss v b by (simp add: enter_task_def get_task_def [of k1] Let_def)
  then show ?thesis using Schedule_to [OF assms(1-5), of None retval] l by simp
qed

text \<open>C15: Waiting. After \<open>WaitOn\<close> a task cannot run until the other task sends one of the signals waited for; that
  signal wakes it and is what it receives, with its value. Other signals do not wake it.\<close>

theorem wait_until_signal:
  assumes "tasks k t = Some tk" "waiting_on_signals tk = []" "tasks k u = Some tku" "t \<noteq> u"
    "set (listening_for_signals tku) \<subseteq> dom (tasks k)" "sigs \<noteq> 0"
  shows "\<exists>k1. WaitOn k t u sigs = Inr k1 \<and> \<not> runnable k1 t \<and>
    (\<forall>s v. s \<noteq> 0 \<longrightarrow> (\<exists>k2. SendSignal k1 u s v = Inr k2 \<and> (runnable k2 t \<longleftrightarrow> sigs AND s \<noteq> 0)
      \<and> (sigs AND s \<noteq> 0 \<longrightarrow> getReceivedSignal (the (tasks k2 t)) = Some (s, v, u))))"
proof -
  let ?w = "\<lparr>sig_task = u, expecting_signals = sigs, sig_value = 0, received_signal = 0\<rparr>"
  let ?k1 = "set_task (set_task k t (tk\<lparr>waiting_on_signals := [?w]\<rparr>)) u (AddListener tku t)"
  have w: "WaitOn k t u sigs = Inr ?k1"
    using assms by (simp add: WaitOn_def get_task_def [of k] GetOrCreateSignal_def new_Signals_def Let_def)
  have t: "tasks ?k1 t = Some (tk\<lparr>waiting_on_signals := [?w]\<rparr>)" using assms(4) by simp
  have b: "\<not> runnable ?k1 t" using t by (simp add: runnable_def canRun_iff)
  have l: "set (listening_for_signals (AddListener tku t)) = insert t (set (listening_for_signals tku))"
    by (auto simp: AddListener_def)
  have "\<exists>k2. SendSignal ?k1 u s v = Inr k2 \<and> (runnable k2 t \<longleftrightarrow> sigs AND s \<noteq> 0)
      \<and> (sigs AND s \<noteq> 0 \<longrightarrow> getReceivedSignal (the (tasks k2 t)) = Some (s, v, u))" if "s \<noteq> 0" for s v
  proof -
    have "set (listening_for_signals (AddListener tku t)) \<subseteq> dom (tasks ?k1)" using l assms(1,5) by auto
    then have "SendSignal ?k1 u s v = Inr (with_tasks ?k1 (\<lambda>x. if x \<in> insert t (set (listening_for_signals tku)) then notified u s v else id))"
      using SendSignal_eq [of ?k1 u "AddListener tku t" s v] that by (simp add: l)
    then show ?thesis using t that
      by (auto simp: runnable_def canRun_iff notified_def receive_def getReceivedSignal_def simp del: get_set_task(2))
  qed
  with w b show ?thesis by blast
qed

section \<open>Owned pages\<close>

lemma replace_first_in:
  "a \<in> set xs \<Longrightarrow> \<exists>ys zs. xs = ys @ a # zs \<and> a \<notin> set ys \<and> replace_first a b xs = Some (ys @ b # zs)"
proof (induction xs)
  case (Cons x xs)
  show ?case
  proof (cases "x = a")
    case True
    then show ?thesis by (intro exI [of _ "[]"] exI [of _ xs]) simp
  next
    case False
    then obtain ys zs where "xs = ys @ a # zs" "a \<notin> set ys" "replace_first a b xs = Some (ys @ b # zs)" using Cons by auto
    then show ?thesis using False by (intro exI [of _ "x # ys"] exI [of _ zs]) auto
  qed
qed simp

lemma replace_first_not_in: "a \<notin> set xs \<Longrightarrow> replace_first a b xs = None"
  by (induction xs) auto

lemma owned_record:
  assumes "xs = ys @ 0 # zs" "p \<notin> set xs" "p \<noteq> 0" "distinct (filter (\<lambda>x. x \<noteq> 0) xs)"
  shows "distinct (filter (\<lambda>x. x \<noteq> 0) (ys @ p # zs))" "set (ys @ p # zs) - {0} = insert p (set xs - {0 :: u32})"
  using assms by auto

lemma owned_remove:
  assumes "xs = ys @ p # zs" "p \<noteq> 0" "distinct (filter (\<lambda>x. x \<noteq> 0) xs)"
  shows "distinct (filter (\<lambda>x. x \<noteq> 0) (ys @ 0 # zs))" "set (ys @ 0 # zs) - {0} = set xs - {0, p :: u32}"
  using assms by auto


lemma inj_unat: "inj (unat :: u32 \<Rightarrow> nat)"
  by (rule injI) (simp add: word_unat_eq_iff)

lemma owned_mem: "unat p \<in> owned_pages tk \<longleftrightarrow> p \<in> set (owned_phys_pages tk) \<and> p \<noteq> 0"
  unfolding owned_pages_def inj_image_mem_iff [OF inj_unat] by simp

lemma RecordOwnedPage_cases:
  assumes "tasks k t = Some tk" "pmm_wf (pmm_of k)" "owned_ok (pmm_of k) tk" "unat p < kNumPageDirEntries"
  shows "if p = 0 then (0 \<in> set (owned_phys_pages tk) \<longrightarrow> RecordOwnedPage k t p = Inl Assert_failed)
     else if unat p \<in> owned_pages tk then RecordOwnedPage k t p = Inl Assert_failed
     else if 0 \<notin> set (owned_phys_pages tk) then RecordOwnedPage k t p = Inl Abort_called
     else if unat p \<in> used_pages (pmm_of k) then RecordOwnedPage k t p = Inl Assert_failed
     else \<exists>tk' m. RecordOwnedPage k t p = Inr ((set_task k t tk')\<lparr>pmm_of := m\<rparr>) \<and> pmm_wf m \<and> owned_ok m tk'
        \<and> owned_pages tk' = insert (unat p) (owned_pages tk) \<and> used_pages m = insert (unat p) (used_pages (pmm_of k))"
proof -
  let ?xs = "owned_phys_pages tk" and ?m = "pmm_of k"
  have g: "get_task k t = Inr tk" using assms(1) by (simp add: get_task_def)
  have len: "length ?xs = kMaxPages" and dist: "distinct (filter (\<lambda>x. x \<noteq> 0) ?xs)" and sub: "owned_pages tk \<subseteq> used_pages ?m"
    using assms(3) by (simp_all add: owned_ok_def)
  have mem: "unat p \<in> owned_pages tk \<longleftrightarrow> p \<in> set ?xs \<and> p \<noteq> 0"
    by (rule owned_mem)
  show ?thesis
  proof (cases "p \<noteq> 0 \<and> p \<notin> set ?xs \<and> 0 \<in> set ?xs")
    case True
    then have p: "p \<noteq> 0" "p \<notin> set ?xs" "0 \<in> set ?xs" by simp_all
    from replace_first_in [OF p(3), of p] obtain ys zs where r: "?xs = ys @ 0 # zs" "replace_first 0 p ?xs = Some (ys @ p # zs)" by blast
    note rec = owned_record [OF r(1) p(2,1) dist]
    show ?thesis
    proof (cases "unat p \<in> used_pages ?m")
      case used: True
      then show ?thesis using p mem g r(2) SetPageUsed_wf [OF assms(2,4)]
        by (simp add: RecordOwnedPage_def PageIsRecorded_def)
    next
      case False
      obtain m where m: "SetPageUsed ?m (unat p) = Inr m" using frames.set_used_total [OF assms(2,4) False] by blast
      note mu = SetPageUsed_used [OF assms(2,4) m]
      let ?tk = "tk\<lparr>owned_phys_pages := ys @ p # zs\<rparr>"
      have o: "owned_pages ?tk = insert (unat p) (owned_pages tk)" using rec(2) by (simp add: owned_pages_def)
      have "RecordOwnedPage k t p = Inr ((set_task k t ?tk)\<lparr>pmm_of := m\<rparr>)"
        using p g r(2) m by (simp add: RecordOwnedPage_def PageIsRecorded_def)
      moreover have "owned_ok m ?tk" unfolding owned_ok_def o using mu sub rec(1) len r(1) by (simp add: subset_insertI2)
      ultimately have "RecordOwnedPage k t p = Inr ((set_task k t ?tk)\<lparr>pmm_of := m\<rparr>) \<and> pmm_wf m \<and> owned_ok m ?tk
        \<and> owned_pages ?tk = insert (unat p) (owned_pages tk) \<and> used_pages m = insert (unat p) (used_pages ?m)"
        using mu o by blast
      then show ?thesis using p mem False by (simp only: if_False if_True simp_thms) blast
    qed
  next
    case False
    then consider "p = 0" | "p \<noteq> 0" "p \<in> set ?xs" | "p \<noteq> 0" "p \<notin> set ?xs" "0 \<notin> set ?xs" by blast
    then show ?thesis
    proof cases
      case 3
      then show ?thesis using mem g replace_first_not_in [OF 3(3), of p] by (simp add: RecordOwnedPage_def PageIsRecorded_def)
    qed (use mem g in \<open>simp_all add: RecordOwnedPage_def PageIsRecorded_def\<close>)
  qed
qed

lemma RemoveOwnedPage_cases:
  assumes "tasks k t = Some tk" "pmm_wf (pmm_of k)" "owned_ok (pmm_of k) tk" "unat p < kNumPageDirEntries"
  shows "if unat p \<in> owned_pages tk
       then \<exists>tk' m. RemoveOwnedPage k t p = Inr ((set_task k t tk')\<lparr>pmm_of := m\<rparr>) \<and> pmm_wf m \<and> owned_ok m tk'
         \<and> owned_pages tk' = owned_pages tk - {unat p} \<and> used_pages m = used_pages (pmm_of k) - {unat p}
       else p \<noteq> 0 \<longrightarrow> RemoveOwnedPage k t p = Inl Assert_failed"
proof -
  let ?xs = "owned_phys_pages tk" and ?m = "pmm_of k"
  have g: "get_task k t = Inr tk" using assms(1) by (simp add: get_task_def)
  have len: "length ?xs = kMaxPages" and dist: "distinct (filter (\<lambda>x. x \<noteq> 0) ?xs)" and sub: "owned_pages tk \<subseteq> used_pages ?m"
    using assms(3) by (simp_all add: owned_ok_def)
  have mem: "unat p \<in> owned_pages tk \<longleftrightarrow> p \<in> set ?xs \<and> p \<noteq> 0"
    by (rule owned_mem)
  show ?thesis
  proof (cases "unat p \<in> owned_pages tk")
    case True
    then have p: "p \<in> set ?xs" "p \<noteq> 0" "unat p \<in> used_pages ?m" using mem sub by auto
    from replace_first_in [OF p(1), of 0] obtain ys zs where r: "?xs = ys @ p # zs" "replace_first p 0 ?xs = Some (ys @ 0 # zs)" by blast
    note rem = owned_remove [OF r(1) p(2) dist]
    obtain m where m: "SetPageFree ?m (unat p) = Inr m" using frames.set_free_total [OF assms(2) p(3)] by blast
    note mu = SetPageFree_used [OF assms(2,4) m]
    let ?tk = "tk\<lparr>owned_phys_pages := ys @ 0 # zs\<rparr>"
    have "set ?xs - {0, p} = (set ?xs - {0}) - {p}" by blast
    then have o: "owned_pages ?tk = owned_pages tk - {unat p}"
      using rem(2) image_set_diff [OF inj_unat, of "set ?xs - {0}" "{p}"] by (simp add: owned_pages_def)
    have "RemoveOwnedPage k t p = Inr ((set_task k t ?tk)\<lparr>pmm_of := m\<rparr>)"
      using p g r(2) m by (simp add: RemoveOwnedPage_def PageIsRecorded_def)
    moreover have "owned_ok m ?tk" unfolding owned_ok_def o using mu sub rem(1) len r(1) by auto
    ultimately have "RemoveOwnedPage k t p = Inr ((set_task k t ?tk)\<lparr>pmm_of := m\<rparr>) \<and> pmm_wf m \<and> owned_ok m ?tk
        \<and> owned_pages ?tk = owned_pages tk - {unat p} \<and> used_pages m = used_pages ?m - {unat p}" using mu o by blast
    then show ?thesis using True by (simp only: if_True) blast
  next
    case False
    moreover have "RemoveOwnedPage k t p = Inl Assert_failed" if "p \<noteq> 0"
      using that False mem g by (simp add: RemoveOwnedPage_def PageIsRecorded_def)
    ultimately show ?thesis by simp
  qed
qed

text \<open>The table of owned pages is a set of at most 256 pages that are in use. \<open>RecordOwnedPage\<close> inserts a free
  page into it and marks it used, \<open>RemoveOwnedPage\<close> removes a recorded page and frees it; every other
  call fails: a used page, a full table, a page that is not recorded. Page 0 can never be recorded
  while the table has a free slot, since 0 marks one.\<close>

theorem owned_pages_table:
  assumes "tasks k t = Some tk" "pmm_wf (pmm_of k)" "owned_ok (pmm_of k) tk" "unat p < kNumPageDirEntries"
  shows "(if p = 0 then (0 \<in> set (owned_phys_pages tk) \<longrightarrow> RecordOwnedPage k t p = Inl Assert_failed)
     else if unat p \<in> owned_pages tk then RecordOwnedPage k t p = Inl Assert_failed
     else if 0 \<notin> set (owned_phys_pages tk) then RecordOwnedPage k t p = Inl Abort_called
     else if unat p \<in> used_pages (pmm_of k) then RecordOwnedPage k t p = Inl Assert_failed
     else \<exists>tk' m. RecordOwnedPage k t p = Inr ((set_task k t tk')\<lparr>pmm_of := m\<rparr>) \<and> pmm_wf m \<and> owned_ok m tk'
        \<and> owned_pages tk' = insert (unat p) (owned_pages tk) \<and> used_pages m = insert (unat p) (used_pages (pmm_of k)))
    \<and> (if unat p \<in> owned_pages tk
       then \<exists>tk' m. RemoveOwnedPage k t p = Inr ((set_task k t tk')\<lparr>pmm_of := m\<rparr>) \<and> pmm_wf m \<and> owned_ok m tk'
         \<and> owned_pages tk' = owned_pages tk - {unat p} \<and> used_pages m = used_pages (pmm_of k) - {unat p}
       else p \<noteq> 0 \<longrightarrow> RemoveOwnedPage k t p = Inl Assert_failed)"
  using RecordOwnedPage_cases [OF assms] RemoveOwnedPage_cases [OF assms] by (rule conjI)


section \<open>Examples\<close>

text \<open>Three tasks: the kernel's, a user task that runs and owns physical page 5, and a user task that waits for the
  end of the other.\<close>

definition example_task :: "bool \<Rightarrow> u32 \<Rightarrow> pdref \<Rightarrow> u32 list \<Rightarrow> signals list \<Rightarrow> u32 list \<Rightarrow> task" where
  "example_task user stack pd pages waits listeners =
     \<lparr>is_user = user, task_regs = task_init_regs user, kernel_stack_allocation = stack, task_pd = pd, task_parent = 0,
      owned_phys_pages = pages @ replicate (kMaxPages - length pages) 0, waiting_on_signals = waits, listening_for_signals = listeners\<rparr>"

definition example_kernel :: kernel where
  "example_kernel =
     \<lparr>pmm_of = \<lparr>gNum4MPages = 32, gPhysicalBitmap = 0x3F # replicate 127 0\<rparr>,
      paging_of = \<lparr>pds = [KernelPD \<mapsto> replicate 1024 0, HeapPD 0x1000 \<mapsto> replicate 1024 0, HeapPD 0x2000 \<mapsto> replicate 1024 0],
        gCurrentPageDir = KernelPD, phys = (\<lambda>_. 0), cr0 = 0, cr4 = 0\<rparr>,
      chans_of = channel_Initialize,
      tasks = [0x100 \<mapsto> example_task False 0x8000 KernelPD [] [] [],
        0x200 \<mapsto> example_task True 0xA000 (HeapPD 0x1000) [5] [] [0x300],
        0x300 \<mapsto> example_task True 0xC000 (HeapPD 0x2000) [] [new_Signals 0x200 kTerminated 0] []],
      task_nodes = [0x20 \<mapsto> \<lparr>nval = 0x200, nnext = 0x30\<rparr>, 0x30 \<mapsto> \<lparr>nval = 0x300, nnext = 0x10\<rparr>, 0x10 \<mapsto> \<lparr>nval = 0x100, nnext = 0\<rparr>],
      gTaskQueue = 0x20, gKernelTask = 0x100, tss_esp0 = 0, gTick = 0, gCallbacks = replicate 256 None, gOldPageDir = None, console = []\<rparr>"

lemma ValidateRegs_init: "is_user tk = user \<Longrightarrow> ValidateRegs tk (task_init_regs user) = Inr ()"
  by (cases user) (simp_all add: ValidateRegs_def task_init_regs_def SegmentRegisterValueIsValid_def zero_regs_def kUserDataSeg_def kRing3_def kUserCodeSeg_def
      kKernDataSeg_def kKernCodeSeg_def Let_def)

lemma example_task_simps [simp]:
  "is_user (example_task user stack pd pages waits ls) = user" "task_regs (example_task user stack pd pages waits ls) = task_init_regs user"
  "kernel_stack_allocation (example_task user stack pd pages waits ls) = stack" "task_pd (example_task user stack pd pages waits ls) = pd"
  "waiting_on_signals (example_task user stack pd pages waits ls) = waits" "listening_for_signals (example_task user stack pd pages waits ls) = ls"
  "owned_phys_pages (example_task user stack pd pages waits ls) = pages @ replicate (kMaxPages - length pages) 0"
  by (simp_all add: example_task_def)

lemma example_tasks:
  "tasks example_kernel t = Some tk \<Longrightarrow> (t = 0x100 \<and> tk = example_task False 0x8000 KernelPD [] [] [])
    \<or> (t = 0x200 \<and> tk = example_task True 0xA000 (HeapPD 0x1000) [5] [] [0x300])
    \<or> (t = 0x300 \<and> tk = example_task True 0xC000 (HeapPD 0x2000) [] [new_Signals 0x200 kTerminated 0] [])"
  by (simp add: example_kernel_def split: if_splits)

lemma example_at:
  "tasks example_kernel 0x100 = Some (example_task False 0x8000 KernelPD [] [] [])"
  "tasks example_kernel 0x200 = Some (example_task True 0xA000 (HeapPD 0x1000) [5] [] [0x300])"
  "tasks example_kernel 0x300 = Some (example_task True 0xC000 (HeapPD 0x2000) [] [new_Signals 0x200 kTerminated 0] [])"
  by (simp_all add: example_kernel_def)

lemma example_sched_wf: "sched_wf example_kernel [(0x20, 0x200), (0x30, 0x300), (0x10, 0x100)]"
proof (rule sched_wfI)
  have d: "{0x200, 0x300, 0x100} \<subseteq> dom (tasks example_kernel)" using example_at by blast
  show "chain (task_nodes example_kernel) (gTaskQueue example_kernel) [(0x20, 0x200), (0x30, 0x300), (0x10, 0x100)]"
    by (simp add: example_kernel_def)
  show "t \<noteq> 0 \<and> t \<in> dom (tasks example_kernel)" if "t \<in> snd ` set [(0x20, 0x200), (0x30, 0x300), (0x10, 0x100)]" for t :: u32
    using that d by auto
  show "task_ok example_kernel tk" if "tasks example_kernel t = Some tk" for t tk
  proof -
    have p: "{KernelPD, HeapPD 0x1000, HeapPD 0x2000} \<subseteq> dom (pds (paging_of example_kernel))" by (simp add: example_kernel_def)
    from example_tasks [OF that] show ?thesis
      using d p by (elim disjE conjE) (simp_all add: task_ok_def ValidateRegs_init kDefaultKernStackSize_def)
  qed
  show "wait_ok (the (tasks example_kernel t))" if "t \<in> snd ` set (tl [(0x20, 0x200), (0x30, 0x300), (0x10, 0x100)])" for t :: u32
    using that example_at by (auto simp: wait_ok_def isWaitingOnSignal_def task_init_regs_def zero_regs_def K_OK_def Let_def)
qed simp_all

lemma example_runnable: "\<not> runnable example_kernel 0x300" "runnable example_kernel 0x100"
  by (simp_all add: runnable_def example_at canRun_iff new_Signals_def)

lemma example_pmm: "pmm_wf (pmm_of example_kernel)" "used_pages (pmm_of example_kernel) = {..<6}"
  "owned_ok (pmm_of example_kernel) (example_task True 0xA000 (HeapPD 0x1000) [5] [] [0x300])"
  "owned_pages (example_task True 0xA000 (HeapPD 0x1000) [5] [] [0x300]) = {5}"
proof -
  show "pmm_wf (pmm_of example_kernel)" by (simp add: pmm_wf_def example_kernel_def pmm_consts)
  have "(0x3F :: int) = mask 6" by (simp add: mask_eq_exp_minus_1)
  then have b: "bit (0x3F :: int) n \<longleftrightarrow> n < 6" for n by (simp only: bit_mask_iff) auto
  show u: "used_pages (pmm_of example_kernel) = {..<6}"
  proof -
    have "p \<in> used_pages (pmm_of example_kernel) \<longleftrightarrow> p < 6" for p
      by (cases "p < 8") (auto simp: used_pages_def example_kernel_def pmm_consts b nth_Cons' nth_replicate)
    then show ?thesis by auto
  qed
  show o: "owned_pages (example_task True 0xA000 (HeapPD 0x1000) [5] [] [0x300]) = {5}"
  proof -
    have "{5, 0} - {0 :: u32} = {5}" by auto
    then show ?thesis by (simp add: owned_pages_def kMaxPages_def)
  qed
  show "owned_ok (pmm_of example_kernel) (example_task True 0xA000 (HeapPD 0x1000) [5] [] [0x300])"
    unfolding owned_ok_def o u by (simp add: kMaxPages_def)
qed


theorem schedule_round_robin_witness:
  "\<exists>r k'. Schedule 3 example_kernel (Some (task_init_regs True)) 0 = Inr (Switch r, k') \<and> sched_wf k' [(0x10, 0x100), (0x20, 0x200), (0x30, 0x300)]
    \<and> gCurrentPageDir (paging_of k') = KernelPD \<and> tss_esp0 k' = 0xA000"
proof -
  let ?r = "task_init_regs True"
  have "check_kernel_frame example_kernel (example_task True 0xA000 (HeapPD 0x1000) [5] [] [0x300]) (Some ?r) = Inr ()"
    by (simp add: check_kernel_frame_def)
  moreover have "wait_ok ((example_task True 0xA000 (HeapPD 0x1000) [5] [] [0x300])\<lparr>task_regs := ?r\<rparr>)"
    by (simp add: wait_ok_def isWaitingOnSignal_def)
  moreover have "ValidateRegs (example_task True 0xA000 (HeapPD 0x1000) [5] [] [0x300]) ?r = Inr ()" by (simp add: ValidateRegs_init)
  ultimately have h: "ValidateRegs (example_task True 0xA000 (HeapPD 0x1000) [5] [] [0x300]) ?r = Inr ()"
    "check_kernel_frame example_kernel (example_task True 0xA000 (HeapPD 0x1000) [5] [] [0x300]) (Some ?r) = Inr ()"
    "wait_ok ((example_task True 0xA000 (HeapPD 0x1000) [5] [] [0x300])\<lparr>task_regs := ?r\<rparr>)" by simp_all
  have q: "sched_wf example_kernel ((0x20, 0x200) # [(0x30, 0x300)] @ (0x10, 0x100) # [])" using example_sched_wf by simp
  have n: "\<forall>(n, t) \<in> set [(0x30 :: u32, 0x300)]. \<not> runnable example_kernel t" using example_runnable by simp
  have l: "length [(0x30 :: u32, 0x300 :: u32)] + length ([] :: (u32 \<times> u32) list) + 1 < 3" by simp
  from schedule_round_robin [OF q n example_runnable(2) l example_at(2,1) h, of 0] show ?thesis
    by (auto simp: kDefaultKernStackSize_def)
qed

theorem schedule_exit_witness:
  "\<exists>r k'. Schedule 3 example_kernel None 7 = Inr (Switch r, k') \<and> sched_wf k' [(0x10, 0x100), (0x30, 0x300)]
    \<and> used_pages (pmm_of k') = {..<6} - {5} \<and> runnable k' 0x300"
proof -
  let ?a = "example_task True 0xA000 (HeapPD 0x1000) [5] [] [0x300]" and ?b = "example_task True 0xC000 (HeapPD 0x2000) [] [new_Signals 0x200 kTerminated 0] []"
  have h: "\<forall>t tk. t \<noteq> 0x200 \<and> tasks example_kernel t = Some tk \<longrightarrow> 0x200 \<notin> set (listening_for_signals tk) \<and> (task_pd ?a \<noteq> KernelPD \<longrightarrow> task_pd tk \<noteq> task_pd ?a)"
    by (auto dest!: example_tasks)
  have q: "sched_wf example_kernel ((0x20, 0x200) # [(0x30, 0x300)] @ (0x10, 0x100) # [])" using example_sched_wf by simp
  have n: "\<forall>(n, t) \<in> set [(0x30 :: u32, 0x300)]. \<not> runnable example_kernel t" using example_runnable by simp
  have l: "length [(0x30 :: u32, 0x300 :: u32)] + length ([] :: (u32 \<times> u32) list) + 1 < 3" by simp
  from schedule_exit [OF q n example_runnable(2) l example_at(2) example_pmm(1,3) h, of 7] obtain r k' where
    r: "Schedule 3 example_kernel None 7 = Inr (Switch r, k')" "sched_wf k' ((0x10, 0x100) # [] @ [(0x30, 0x300)])"
      "used_pages (pmm_of k') = used_pages (pmm_of example_kernel) - owned_pages ?a"
    and w: "\<forall>w tk s. tasks example_kernel w = Some tk \<and> w \<in> set (listening_for_signals ?a) \<and> w \<notin> {0x200, 0x100}
         \<and> find (\<lambda>s. sig_task s = 0x200) (waiting_on_signals tk) = Some s \<and> expecting_signals s AND kTerminated \<noteq> 0 \<longrightarrow> runnable k' w \<and>
         (\<exists>s' \<in> set (waiting_on_signals (the (tasks k' w))). sig_task s' = 0x200 \<and> received_signal s' = kTerminated \<and> sig_value s' = 7)" by blast
  have "runnable k' 0x300"
    using w [rule_format, of "0x300" ?b "new_Signals 0x200 kTerminated 0"] example_at(3) by (simp add: new_Signals_def kTerminated_def)
  with r show ?thesis unfolding example_pmm by auto
qed

theorem exit_stale_listener_witness:
  "Schedule 3 (set_task example_kernel 0x100 (example_task False 0x8000 KernelPD [] [] [0x200])) None 7 = Inl Use_after_free"
proof -
  let ?t = "example_task False 0x8000 KernelPD [] [] [0x200]"
  let ?k = "set_task example_kernel 0x100 ?t"
  have "sched_wf ?k [(0x20, 0x200), (0x30, 0x300), (0x10, 0x100)]"
  proof (rule sched_wfI)
    have d: "dom (tasks ?k) = dom (tasks example_kernel)" using example_at(1) by auto
    show "task_ok ?k tk" if "tasks ?k t = Some tk" for t tk
    proof (cases "t = 0x100")
      case True
      have "KernelPD \<in> dom (pds (paging_of example_kernel))" "0x200 \<in> dom (tasks example_kernel)" using example_at(2) by (auto simp: example_kernel_def)
      with True that show ?thesis by (auto simp: task_ok_def ValidateRegs_init kDefaultKernStackSize_def)
    next
      case False
      then have "task_ok example_kernel tk" using that sched_wfD(4) [OF example_sched_wf, of t tk] by simp
      then show ?thesis by (rule task_ok_mono) (use d in auto)
    qed
    show "wait_ok (the (tasks ?k t))" if "t \<in> snd ` set (tl [(0x20, 0x200), (0x30, 0x300), (0x10, 0x100)])" for t :: u32
      using that sched_wfD(5) [OF example_sched_wf, of t] by (cases "t = 0x100") (auto simp: wait_ok_def isWaitingOnSignal_def)
    show "t \<noteq> 0 \<and> t \<in> dom (tasks ?k)" if "t \<in> snd ` set [(0x20 :: u32, 0x200), (0x30, 0x300), (0x10, 0x100)]" for t :: u32
      using sched_wfD(3) [OF example_sched_wf that] unfolding d .
  qed (use sched_wfD(1) [OF example_sched_wf] in simp_all)
  then have q: "sched_wf ?k ((0x20, 0x200) # [(0x30, 0x300)] @ (0x10, 0x100) # [])" by simp
  have n: "\<forall>(n, t) \<in> set [(0x30 :: u32, 0x300)]. \<not> runnable ?k t" "runnable ?k 0x100"
    using example_runnable by (simp_all add: runnable_def canRun_iff)
  have l: "length [(0x30 :: u32, 0x300 :: u32)] + length ([] :: (u32 \<times> u32) list) + 1 < 3" by simp
  have a: "tasks ?k 0x200 = Some (example_task True 0xA000 (HeapPD 0x1000) [5] [] [0x300])" "tasks ?k 0x100 = Some ?t" using example_at(2) by simp_all
  have p: "pmm_wf (pmm_of ?k)" "owned_ok (pmm_of ?k) (example_task True 0xA000 (HeapPD 0x1000) [5] [] [0x300])" using example_pmm by simp_all
  show ?thesis by (rule exit_stale_listener [OF q n l a(1) p a(2)]) simp
qed

theorem wait_until_signal_witness:
  "\<exists>k1. WaitOn example_kernel 0x200 0x300 kRunning = Inr k1 \<and> \<not> runnable k1 0x200
    \<and> (\<exists>k2. SendSignal k1 0x300 kRunning 0 = Inr k2 \<and> runnable k2 0x200)"
proof -
  have "\<exists>k1. WaitOn example_kernel 0x200 0x300 kRunning = Inr k1 \<and> \<not> runnable k1 0x200 \<and>
    (\<forall>s v. s \<noteq> 0 \<longrightarrow> (\<exists>k2. SendSignal k1 0x300 s v = Inr k2 \<and> (runnable k2 0x200 \<longleftrightarrow> kRunning AND s \<noteq> 0)
      \<and> (kRunning AND s \<noteq> 0 \<longrightarrow> getReceivedSignal (the (tasks k2 0x200)) = Some (s, v, 0x300))))"
    by (rule wait_until_signal [OF example_at(2) _ example_at(3)]) (simp_all add: kRunning_def)
  then obtain k1 where k1: "WaitOn example_kernel 0x200 0x300 kRunning = Inr k1" "\<not> runnable k1 0x200"
    "\<And>s v. s \<noteq> 0 \<Longrightarrow> \<exists>k2. SendSignal k1 0x300 s v = Inr k2 \<and> (runnable k2 0x200 \<longleftrightarrow> kRunning AND s \<noteq> 0)" by blast
  from k1(3) [of kRunning 0] k1(1,2) show ?thesis by (auto simp: kRunning_def)
qed

theorem owned_pages_table_witness:
  "\<exists>tk' m. RecordOwnedPage example_kernel 0x200 9 = Inr ((set_task example_kernel 0x200 tk')\<lparr>pmm_of := m\<rparr>) \<and> used_pages m = insert 9 {..<6}
    \<and> RecordOwnedPage example_kernel 0x200 5 = Inl Assert_failed \<and> RemoveOwnedPage example_kernel 0x200 9 = Inl Assert_failed"
proof -
  let ?a = "example_task True 0xA000 (HeapPD 0x1000) [5] [] [0x300]"
  have "0 \<in> set (owned_phys_pages ?a)" by (simp add: kMaxPages_def)
  then show ?thesis
    using owned_pages_table [OF example_at(2) example_pmm(1,3), of 9] owned_pages_table [OF example_at(2) example_pmm(1,3), of 5] example_pmm(2,4)
    by (auto simp: pmm_consts)
qed

end
