(* ===== verification/Syscalls.thy ===== *)
theory Syscalls
  imports Scheduler_Props
begin

text \<open>
  System calls and exceptions, \<open>src/kernel/syscalls.cpp\<close> and \<open>exceptions.cpp\<close>: one definition per handler, the
  dispatch table and \<open>ExceptionDispatcher\<close>. A handler gets the interrupt frame and answers how control
  leaves it (\<open>ctl\<close>), the frame and the state. What the handlers get from outside the modelled state
  is in \<open>sys_env\<close>: the addresses \<open>new\<close> and \<open>malloc\<close> return, the address of a local variable on the kernel
  stack, whether a character waits at the serial port. Handles are addresses, and like the code the
  model goes through them without checking them first.
\<close>

section \<open>The environment\<close>

record sys_env =
  env_fuel :: nat
  env_mok :: "u32 \<Rightarrow> bool"
  env_buf :: u32
  env_local :: u32
  env_vec :: u32
  env_pd :: u32
  env_task :: u32
  env_stack :: u32
  env_node :: u32
  env_serial :: "u8 option"

type_synonym handler = "sys_env \<Rightarrow> kernel \<Rightarrow> registers \<Rightarrow> (ctl \<times> registers \<times> kernel) result"

definition FREE_PAGE_LOWER_BOUND :: nat where "FREE_PAGE_LOWER_BOUND = 1"

definition GetPageDirBeforeException :: "kernel \<Rightarrow> pdref result" where
  "GetPageDirBeforeException k = (case gOldPageDir k of Some r \<Rightarrow> Inr r | None \<Rightarrow> Inl Page_fault)"

definition current_task :: "kernel \<Rightarrow> (u32 \<times> task) result" where
  "current_task k = bindr (GetCurrentTask k) (\<lambda>t. bindr (get_task k t) (\<lambda>tk. Inr (t, tk)))"

text \<open>Memory of the kernel: buffers and local variables, through the current page directory.\<close>

fun write_bytes :: "paging \<Rightarrow> u32 \<Rightarrow> u8 list \<Rightarrow> paging result" where
  "write_bytes s va [] = Inr s"
| "write_bytes s va (b # bs) = bindr (vwrite s va b) (\<lambda>s'. write_bytes s' (va + 1) bs)"

definition bytes_of :: "u32 \<Rightarrow> u8 list" where
  "bytes_of w = [ucast w, ucast (drop_bit 8 w), ucast (drop_bit 16 w), ucast (drop_bit 24 w)]"

text \<open>The data of a \<open>ResizableBuffer\<close> of the given size: what \<open>malloc\<close> returns for its capacity.\<close>

definition kDefaultCap :: u32 where "kDefaultCap = 8"

definition new_buffer :: "sys_env \<Rightarrow> u32 \<Rightarrow> u32" where
  "new_buffer e sz = (if env_mok e (max sz kDefaultCap) then env_buf e else 0)"

section \<open>Output and input\<close>

definition SYS_DebugWrite :: handler where
  "SYS_DebugWrite e k r =
     (let str = r_ebx r; sz = r_ecx r; buffer = new_buffer e (sz + 1) in
      bindr (GetPageDirBeforeException k) (\<lambda>old.
      bindr (Memcpy_from (paging_of k) (GetCurrentPageDirectory (paging_of k)) old buffer str (unat sz)) (\<lambda>p1.
      bindr (vwrite p1 (buffer + sz) 0) (\<lambda>p2.
      bindr (read_words p2 buffer (unat sz + 1)) (\<lambda>bs.
      Inr (Return, r, k\<lparr>paging_of := p2, console := console k @ takeWhile (\<lambda>b. b \<noteq> 0) bs\<rparr>))))))"

definition SYS_DebugRead :: handler where
  "SYS_DebugRead e k r =
     (let dst = r_ebx r; c = env_local e in
      bindr (case env_serial e of Some ch \<Rightarrow> vwrite (paging_of k) c ch | None \<Rightarrow> Inr (paging_of k)) (\<lambda>p1.
      bindr (GetPageDirBeforeException k) (\<lambda>old.
      bindr (Memcpy_from p1 old (GetCurrentPageDirectory p1) dst c 1) (\<lambda>p2.
      Inr (Return, r\<lparr>r_eax := (if env_serial e \<noteq> None then K_OK else K_UNABLE_TO_READ)\<rparr>, k\<lparr>paging_of := p2\<rparr>)))))"

section \<open>Pages\<close>

definition ALLOC_ANON :: u32 where "ALLOC_ANON = 1"
definition ALLOC_CURRENT :: u32 where "ALLOC_CURRENT = 2"

text \<open>The part of \<open>SYS_AllocPage\<close> from \<open>MapPage\<close> on.\<close>

definition alloc_at :: "kernel \<Rightarrow> registers \<Rightarrow> u32 \<Rightarrow> u32 \<Rightarrow> int \<Rightarrow> (ctl \<times> registers \<times> kernel) result" where
  "alloc_at k r t page_vaddr free_ppage =
     bindr (get_task k t) (\<lambda>tk.
     bindr (load_pd (paging_of k) (task_pd tk)) (\<lambda>pd.
     bindr (MapPage pd page_vaddr (PageToAddr (nat free_ppage)) PG_USER) (\<lambda>pd'.
     let k1 = k\<lparr>paging_of := store_pd (paging_of k) (task_pd tk) pd'\<rparr>; r1 = r\<lparr>r_eax := K_OK, r_ebx := page_vaddr\<rparr> in
     check (is_user tk)
      (bindr (getPhysicalAddr pd' page_vaddr) (\<lambda>paddr.
       bindr (RecordOwnedPage k1 t (word_of_nat (AddrToPage paddr))) (\<lambda>k2. Inr (Return, r1, k2)))))))"

definition SYS_AllocPage :: handler where
  "SYS_AllocPage e k r =
     (let page_vaddr = r_ebx r; proc_handle = r_ecx r; flags = r_edx r in
      bindr (GetNextFreePage (pmm_of k)) (\<lambda>free_ppage.
      if free_ppage < 0 then Inr (Return, r\<lparr>r_eax := K_OOM_PHYS\<rparr>, k)
      else bindr (if flags AND ALLOC_CURRENT \<noteq> 0 then GetCurrentTask k else Inr proc_handle) (\<lambda>t.
        bindr (get_task k t) (\<lambda>tk.
        bindr (load_pd (paging_of k) (task_pd tk)) (\<lambda>pd.
        if flags AND ALLOC_ANON \<noteq> 0
        then let free_vpage = getNextFreePage pd FREE_PAGE_LOWER_BOUND in
          if free_vpage < 0 then Inr (Return, r\<lparr>r_eax := K_OOM_VIRT\<rparr>, k)
          else alloc_at k r t (PageToAddr (nat free_vpage)) free_ppage
        else bindr (VaddrIsMapped pd page_vaddr) (\<lambda>mapped.
          if mapped then Inr (Return, r\<lparr>r_eax := K_VPAGE_MAPPED\<rparr>, k)
          else alloc_at k r t page_vaddr free_ppage))))))"

definition SYS_PageSize :: handler where
  "SYS_PageSize e k r = Inr (Return, r\<lparr>r_eax := kPageSize4M\<rparr>, k)"

definition SWAP_OWNER :: u32 where "SWAP_OWNER = 1"
definition MAP_ANON :: u32 where "MAP_ANON = 2"

text \<open>The part of \<open>SYS_MapPage\<close> from the second \<open>MapPage\<close> on.\<close>

definition share_page :: "kernel \<Rightarrow> registers \<Rightarrow> pdref \<Rightarrow> u32 \<Rightarrow> u32 \<Rightarrow> u32 \<Rightarrow> u32 \<Rightarrow> u32 \<Rightarrow> u32 \<Rightarrow> (ctl \<times> registers \<times> kernel) result" where
  "share_page k r dir_to_map vaddr_to_map paddr current_owner new_owner flags vaddr2 =
     bindr (load_pd (paging_of k) dir_to_map) (\<lambda>pd.
     bindr (MapPage pd vaddr_to_map paddr PG_USER) (\<lambda>pd'.
     let k1 = k\<lparr>paging_of := store_pd (paging_of k) dir_to_map pd'\<rparr>; ppage = word_of_nat (AddrToPage paddr) in
     bindr (if flags AND SWAP_OWNER \<noteq> 0
            then bindr (RemoveOwnedPage k1 current_owner ppage) (\<lambda>k2. RecordOwnedPage k2 new_owner ppage)
            else Inr k1) (\<lambda>k2.
     Inr (Return, r\<lparr>r_eax := K_OK, r_ebx := vaddr2\<rparr>, k2))))"

definition map_between :: "kernel \<Rightarrow> registers \<Rightarrow> u32 \<Rightarrow> task \<Rightarrow> u32 \<Rightarrow> task \<Rightarrow> u32 \<Rightarrow> u32 \<Rightarrow> u32 \<Rightarrow> (ctl \<times> registers \<times> kernel) result" where
  "map_between k r task1 tk1 task2 tk2 vaddr1 vaddr2 flags =
     (if vaddr1 mod kPageSize4M \<noteq> 0 \<or> vaddr2 mod kPageSize4M \<noteq> 0 then Inr (Return, r\<lparr>r_eax := K_UNALIGNED_PAGE_ADDR\<rparr>, k)
      else bindr (load_pd (paging_of k) (task_pd tk1)) (\<lambda>pd1. bindr (load_pd (paging_of k) (task_pd tk2)) (\<lambda>pd2.
        bindr (VaddrIsMapped pd1 vaddr1) (\<lambda>m1. bindr (VaddrIsMapped pd2 vaddr2) (\<lambda>m2.
        if m1 \<and> \<not> m2 then bindr (getPhysicalAddr pd1 vaddr1) (\<lambda>paddr. share_page k r (task_pd tk2) vaddr2 paddr task1 task2 flags vaddr2)
        else if \<not> m1 \<and> m2 then bindr (getPhysicalAddr pd2 vaddr2) (\<lambda>paddr. share_page k r (task_pd tk1) vaddr1 paddr task2 task1 flags vaddr2)
        else Inr (Return, r\<lparr>r_eax := K_VPAGE_MAPPED\<rparr>, k))))))"

definition SYS_MapPage :: handler where
  "SYS_MapPage e k r =
     (let vaddr1 = r_ebx r; task2 = r_ecx r; flags = r_esi r in
      bindr (GetCurrentTask k) (\<lambda>task1.
      if task1 = task2 then Inr (Return, r\<lparr>r_eax := K_OK, r_ebx := r_edx r\<rparr>, k)
      else bindr (get_task k task1) (\<lambda>tk1. bindr (get_task k task2) (\<lambda>tk2.
        check (task_pd tk1 \<noteq> task_pd tk2)
        (if flags AND MAP_ANON \<noteq> 0
         then bindr (load_pd (paging_of k) (task_pd tk2)) (\<lambda>pd2.
           let free_vpage = getNextFreePage pd2 FREE_PAGE_LOWER_BOUND in
           if free_vpage < 0 then Inr (Return, r\<lparr>r_eax := K_OOM_VIRT\<rparr>, k)
           else map_between k r task1 tk1 task2 tk2 vaddr1 (PageToAddr (nat free_vpage)) flags)
         else map_between k r task1 tk1 task2 tk2 vaddr1 (r_edx r) flags)))))"

definition SYS_UnmapPage :: handler where
  "SYS_UnmapPage e k r =
     bindr (current_task k) (\<lambda>(t, tk).
     let page_vaddr = r_ebx r in
     bindr (load_pd (paging_of k) (task_pd tk)) (\<lambda>pd.
     bindr (getPhysicalAddr pd page_vaddr) (\<lambda>paddr.
     let ppage = word_of_nat (AddrToPage paddr) in
     bindr (if PageIsRecorded tk ppage then RemoveOwnedPage k t ppage else Inr k) (\<lambda>k1.
     bindr (UnmapPage pd page_vaddr) (\<lambda>pd'.
     Inr (Return, r, k1\<lparr>paging_of := store_pd (paging_of k1) (task_pd tk) pd'\<rparr>))))))"

section \<open>Processes\<close>

definition SYS_ProcessKill :: handler where
  "SYS_ProcessKill e k r =
     bindr (Schedule (env_fuel e) k None (r_ebx r)) (\<lambda>(c, k').
     case c of Return \<Rightarrow> Inl Abort_called | Switch _ \<Rightarrow> Inr (c, r, k'))"

definition SYS_ProcessCreate :: handler where
  "SYS_ProcessCreate e k r =
     bindr (Clone (paging_of k) GetKernelPageDirectory (env_pd e)) (\<lambda>(user_pd, p1).
     bindr (GetCurrentTask k) (\<lambda>cur.
     bindr (new_Task (k\<lparr>paging_of := p1\<rparr>) (env_task e) (env_stack e) True user_pd cur) (\<lambda>k1.
     Inr (Return, r\<lparr>r_ebx := env_task e, r_eax := K_OK\<rparr>, k1))))"

definition SYS_ProcessStart :: handler where
  "SYS_ProcessStart e k r =
     (let t = r_ebx r in
      bindr (get_task k t) (\<lambda>tk.
      let k1 = set_task k t (tk\<lparr>task_regs := (task_regs tk)\<lparr>r_eip := r_ecx r, r_eax := r_edx r\<rparr>\<rparr>) in
      bindr (RegisterTask (env_fuel e) k1 (env_node e) t) (\<lambda>k2. Inr (Return, r, k2))))"

text \<open>\<open>TryCopy\<close> of bytes that are at \<open>src\<close> in the kernel's memory.\<close>

definition TryCopy :: "kernel \<Rightarrow> u32 \<Rightarrow> u8 list \<Rightarrow> u32 \<Rightarrow> u32 \<Rightarrow> (u32 \<times> kernel) result" where
  "TryCopy k src bs buff buff_size =
     bindr (write_bytes (paging_of k) src bs) (\<lambda>p.
     let k1 = k\<lparr>paging_of := p\<rparr> in
     if buff_size < word_of_nat (length bs) then Inr (K_BUFFER_TOO_SMALL, k1)
     else bindr (GetPageDirBeforeException k1) (\<lambda>old.
       bindr (Memcpy_from p old (GetCurrentPageDirectory p) buff src (length bs)) (\<lambda>p'.
       Inr (K_OK, k1\<lparr>paging_of := p'\<rparr>))))"

definition PROC_CURRENT :: u32 where "PROC_CURRENT = 0"
definition PROC_PARENT :: u32 where "PROC_PARENT = 1"
definition PROC_CHILDREN :: u32 where "PROC_CHILDREN = 2"

definition reply :: "registers \<Rightarrow> u8 list \<Rightarrow> (u32 \<times> kernel) result \<Rightarrow> (ctl \<times> registers \<times> kernel) result" where
  "reply r bs res = bindr res (\<lambda>(st, k'). Inr (Return, r\<lparr>r_eax := st, r_ebx := word_of_nat (length bs)\<rparr>, k'))"

definition SYS_ProcessInfo :: handler where
  "SYS_ProcessInfo e k r =
     (let flags = r_ecx r; buffer = r_edx r; sz = r_esi r in
      bindr (if flags = PROC_CURRENT then bindr (GetCurrentTask k) (\<lambda>t. Inr (Some t))
             else bindr (IsRunningTask (env_fuel e) k (r_ebx r)) (\<lambda>run. Inr (if run then Some (r_ebx r) else None))) (\<lambda>found.
      case found of None \<Rightarrow> Inr (Return, r\<lparr>r_eax := K_INVALID_HANDLE\<rparr>, k)
      | Some t \<Rightarrow>
        if flags = PROC_CURRENT then reply r (bytes_of t) (TryCopy k (env_local e) (bytes_of t) buffer sz)
        else if flags = PROC_PARENT then bindr (get_task k t) (\<lambda>tk.
          reply r (bytes_of (task_parent tk)) (TryCopy k (env_local e) (bytes_of (task_parent tk)) buffer sz))
        else if flags = PROC_CHILDREN then bindr (getChildren (env_fuel e) k t) (\<lambda>children.
          let bs = concat (map bytes_of children) in reply r bs (TryCopy k (env_buf e) bs buffer sz))
        else Inr (Return, r\<lparr>r_eax := K_INVALID_ARG\<rparr>, k)))"

definition SYS_ProcessWait :: handler where
  "SYS_ProcessWait e k r =
     (let sigs = r_ecx r; proc = r_ebx r in
      if sigs = 0 then Inr (Return, r\<lparr>r_eax := K_OK\<rparr>, k)
      else bindr (IsRunningTask (env_fuel e) k proc) (\<lambda>run.
        if \<not> run then Inr (Return, r\<lparr>r_eax := K_INVALID_HANDLE\<rparr>, k)
        else bindr (GetCurrentTask k) (\<lambda>t. bindr (WaitOn k t proc sigs) (\<lambda>k1.
          let r1 = r\<lparr>r_eax := K_OK\<rparr> in
          bindr (Schedule (env_fuel e) k1 (Some r1) 0) (\<lambda>(c, k2).
          case c of Return \<Rightarrow> Inl Abort_called | Switch _ \<Rightarrow> Inr (c, r1, k2))))))"

section \<open>Channels\<close>

definition SYS_ChannelCreate :: handler where
  "SYS_ChannelCreate e k r =
     bindr (GetCurrentTask k) (\<lambda>t.
     bindr (Create (env_mok e) (chans_of k) (env_vec e) t) (\<lambda>(end1, end2, v).
     Inr (Return, r\<lparr>r_eax := end1, r_ebx := end2\<rparr>, k\<lparr>chans_of := v\<rparr>)))"

definition SYS_HandleClose :: handler where
  "SYS_HandleClose e k r =
     bindr (Endpoint_Close (chans_of k) (r_ebx r)) (\<lambda>(_, v). Inr (Return, r, k\<lparr>chans_of := v\<rparr>))"

definition SYS_ChannelRead :: handler where
  "SYS_ChannelRead e k r =
     (let dst = r_ecx r; sz = r_edx r; buffer = new_buffer e sz in
      bindr (Endpoint_Read (env_mok e) (chans_of k) (r_ebx r) sz) (\<lambda>(success, bs, avail, v).
      if \<not> success then Inr (Return, r\<lparr>r_eax := K_BUFFER_TOO_SMALL, r_ebx := the avail\<rparr>, k\<lparr>chans_of := v\<rparr>)
      else bindr (write_bytes (paging_of k) buffer bs) (\<lambda>p1.
        bindr (GetPageDirBeforeException k) (\<lambda>old.
        bindr (Memcpy_from p1 old (GetCurrentPageDirectory p1) dst buffer (unat sz)) (\<lambda>p2.
        Inr (Return, r\<lparr>r_eax := K_OK\<rparr>, k\<lparr>chans_of := v, paging_of := p2\<rparr>))))))"

definition SYS_ChannelWrite :: handler where
  "SYS_ChannelWrite e k r =
     (let src = r_ecx r; sz = r_edx r; buffer = new_buffer e sz in
      bindr (GetPageDirBeforeException k) (\<lambda>old.
      bindr (Memcpy_from (paging_of k) (GetCurrentPageDirectory (paging_of k)) old buffer src (unat sz)) (\<lambda>p1.
      bindr (read_words p1 buffer (unat sz)) (\<lambda>bs.
      bindr (Endpoint_Write (env_mok e) (chans_of k) (r_ebx r) bs) (\<lambda>v.
      Inr (Return, r, k\<lparr>chans_of := v, paging_of := p1\<rparr>))))))"

definition SYS_TransferHandle :: handler where
  "SYS_TransferHandle e k r = Inr (Return, r, k\<lparr>chans_of := TransferOwner (chans_of k) (r_ecx r) (r_ebx r)\<rparr>)"

section \<open>Dispatch\<close>

definition kSyscallHandlers :: "handler list" where
  "kSyscallHandlers =
     [SYS_DebugWrite, SYS_ProcessKill, SYS_AllocPage, SYS_PageSize, SYS_ProcessCreate, SYS_MapPage, SYS_ProcessStart, SYS_UnmapPage,
      SYS_ProcessInfo, SYS_DebugRead, SYS_ProcessWait, SYS_ChannelCreate, SYS_HandleClose, SYS_ChannelRead, SYS_ChannelWrite, SYS_TransferHandle]"

definition kNumSyscalls :: nat where "kNumSyscalls = length kSyscallHandlers"

definition SyscallHandler :: handler where
  "SyscallHandler e k r =
     (if unat (r_eax r) < kNumSyscalls then (kSyscallHandlers ! unat (r_eax r)) e k r else Inl Abort_called)"

definition IRQ0 :: u32 where "IRQ0 = 32"
definition kSyscallHandler :: u32 where "kSyscallHandler = 128"
definition kPageFault :: u32 where "kPageFault = 14"

definition HandleKernelException :: "kernel \<Rightarrow> registers \<Rightarrow> (ctl \<times> registers \<times> kernel) result" where
  "HandleKernelException k r = bindr (current_task k) (\<lambda>_. Inl Abort_called)"

definition timer_handler :: handler where
  "timer_handler e k r = bindr (TimerCallback (env_fuel e) k r) (\<lambda>(c, k'). Inr (c, r, k'))"

definition DispatchUserException :: handler where
  "DispatchUserException e k r =
     bindr (current_task k) (\<lambda>_.
     bindr (Schedule (env_fuel e) k None 1) (\<lambda>(c, k').
     case c of Return \<Rightarrow> Inl Abort_called | Switch _ \<Rightarrow> Inr (c, r, k')))"

definition DispatchKernelException :: handler where
  "DispatchKernelException e k r =
     (if r_int_no r = kPageFault then bindr (current_task k) (\<lambda>_. Inl Abort_called)
      else if r_int_no r = IRQ0 then timer_handler e k r
      else if r_int_no r = kSyscallHandler then SyscallHandler e k r
      else HandleKernelException k r)"

text \<open>The \<open>switch\<close> of \<open>ExceptionDispatcher\<close>, and the function around it.\<close>

definition dispatch_interrupt :: handler where
  "dispatch_interrupt e k r =
     (if r_int_no r = IRQ0 then timer_handler e k r
      else if r_int_no r = kSyscallHandler then SyscallHandler e k r
      else bindr (current_task k) (\<lambda>(_, tk). if is_user tk then DispatchUserException e k r else DispatchKernelException e k r))"

definition ExceptionDispatcher :: handler where
  "ExceptionDispatcher e k r =
     bindr (dispatch_interrupt e (k\<lparr>gOldPageDir := Some (GetCurrentPageDirectory (paging_of k)),
              paging_of := SwitchPageDirectory (paging_of k) GetKernelPageDirectory\<rparr>) r)
      (\<lambda>(c, r', k2). case c of Switch _ \<Rightarrow> Inr (c, r', k2)
        | Return \<Rightarrow> bindr (GetPageDirBeforeException k2) (\<lambda>old.
            Inr (Return, r', k2\<lparr>paging_of := SwitchPageDirectory (paging_of k2) old\<rparr>)))"

end
