(* ===== verification/Syscall_Props.thy ===== *)
theory Syscall_Props
  imports Syscalls
begin

text \<open>
  What the system calls guarantee together: the invariant on the ownership of physical pages, kept by every
  interrupt, and the behaviour of single calls.
\<close>

section \<open>Who owns which page\<close>

definition owns :: "kernel \<Rightarrow> pmm \<times> (u32 \<Rightarrow> u32 list option)" where
  "owns k = (pmm_of k, \<lambda>t. map_option owned_phys_pages (tasks k t))"

definition own_inv :: "kernel \<Rightarrow> bool" where
  "own_inv k \<longleftrightarrow> pmm_wf (pmm_of k) \<and> (\<forall>t tk. tasks k t = Some tk \<longrightarrow> owned_ok (pmm_of k) tk)
     \<and> (\<forall>t u tk uk. t \<noteq> u \<and> tasks k t = Some tk \<and> tasks k u = Some uk \<longrightarrow> owned_pages tk \<inter> owned_pages uk = {})"

lemma own_invD:
  assumes "own_inv k"
  shows "pmm_wf (pmm_of k)" "\<And>t tk. tasks k t = Some tk \<Longrightarrow> owned_ok (pmm_of k) tk"
    "\<And>t u tk uk. t \<noteq> u \<Longrightarrow> tasks k t = Some tk \<Longrightarrow> tasks k u = Some uk \<Longrightarrow> owned_pages tk \<inter> owned_pages uk = {}"
  using assms unfolding own_inv_def by blast+

lemma own_invI:
  assumes "pmm_wf (pmm_of k)" "\<And>t tk. tasks k t = Some tk \<Longrightarrow> owned_ok (pmm_of k) tk"
    "\<And>t u tk uk. t \<noteq> u \<Longrightarrow> tasks k t = Some tk \<Longrightarrow> tasks k u = Some uk \<Longrightarrow> owned_pages tk \<inter> owned_pages uk = {}"
  shows "own_inv k"
  using assms unfolding own_inv_def by blast

named_theorems owns_intro "operations that do not change who owns which page"

lemma own_inv_cong:
  assumes "owns k' = owns k" "own_inv k"
  shows "own_inv k'"
proof -
  have p: "pmm_of k' = pmm_of k" and m: "\<And>t. map_option owned_phys_pages (tasks k' t) = map_option owned_phys_pages (tasks k t)"
    using assms(1) by (auto simp: owns_def fun_eq_iff)
  have ex: "\<exists>tk0. tasks k t = Some tk0 \<and> owned_phys_pages tk0 = owned_phys_pages tk" if "tasks k' t = Some tk" for t tk
    using m [of t] that by (cases "tasks k t") auto
  have eq: "owned_pages tk = owned_pages tk0" "owned_ok q tk = owned_ok q tk0" if "owned_phys_pages tk0 = owned_phys_pages tk" for tk tk0 q
    using that by (simp_all add: owned_pages_def owned_ok_def)
  show ?thesis
  proof (rule own_invI)
    show "pmm_wf (pmm_of k')" using own_invD(1) [OF assms(2)] p by simp
    show "owned_ok (pmm_of k') tk" if "tasks k' t = Some tk" for t tk
      using ex [OF that] own_invD(2) [OF assms(2)] p eq(2) by metis
    show "owned_pages tk \<inter> owned_pages uk = {}" if "t \<noteq> u" "tasks k' t = Some tk" "tasks k' u = Some uk" for t u tk uk
      using ex [OF that(2)] ex [OF that(3)] own_invD(3) [OF assms(2) that(1)] eq(1) by metis
  qed
qed

lemma owns_simps [simp]:
  "owns (k\<lparr>paging_of := p\<rparr>) = owns k" "owns (k\<lparr>chans_of := v\<rparr>) = owns k" "owns (k\<lparr>console := cs\<rparr>) = owns k"
  "owns (k\<lparr>gTaskQueue := q\<rparr>) = owns k" "owns (k\<lparr>task_nodes := h\<rparr>) = owns k" "owns (k\<lparr>tss_esp0 := b\<rparr>) = owns k"
  "owns (k\<lparr>gOldPageDir := d\<rparr>) = owns k" "owns (k\<lparr>gTick := n\<rparr>) = owns k"
  by (simp_all add: owns_def)

lemma owns_set_task: "get_task k t = Inr tk \<Longrightarrow> owned_phys_pages tk' = owned_phys_pages tk \<Longrightarrow> owns (set_task k t tk') = owns k"
  by (auto simp: owns_def get_task_def fun_eq_iff split: option.splits)

lemma owns_send_to: "send_to k this sigs val ls = Inr k' \<Longrightarrow> owns k' = owns k"
proof (induction ls arbitrary: k)
  case (Cons l ls)
  then obtain tk where tk: "get_task k l = Inr tk"
    and s: "send_to (set_task k l (tk\<lparr>waiting_on_signals := upd_signal this (receive sigs val) (waiting_on_signals tk)\<rparr>)) this sigs val ls = Inr k'" by auto
  from Cons(1) [OF s] owns_set_task [OF tk] show ?case by simp
qed simp

lemma owns_SendSignal: "SendSignal k this sigs val = Inr k' \<Longrightarrow> owns k' = owns k"
  by (auto simp: SendSignal_def owns_send_to)

lemma owned_AddListener [simp]: "owned_phys_pages (AddListener tk t) = owned_phys_pages tk"
  by (simp add: AddListener_def)

lemma owns_WaitOn:
  assumes "WaitOn k this other sigs = Inr k'"
  shows "owns k' = owns k"
proof -
  from assms obtain tk where tk: "get_task k this = Inr tk" by (auto simp: WaitOn_def)
  define k1 where "k1 = set_task k this (tk\<lparr>waiting_on_signals := upd_signal other (\<lambda>s. s\<lparr>expecting_signals := expecting_signals s OR sigs\<rparr>)
          (GetOrCreateSignal (waiting_on_signals tk) other)\<rparr>)"
  from assms tk obtain otk where o: "get_task k1 other = Inr otk" and k': "k' = set_task k1 other (AddListener otk this)"
    by (auto simp: WaitOn_def Let_def k1_def [symmetric] simp del: get_set_task)
  show ?thesis unfolding k' using owns_set_task [OF o, of "AddListener otk this"] owns_set_task [OF tk] by (simp add: k1_def)
qed

lemma owns_requeue: "requeue fuel k q n = Inr k' \<Longrightarrow> owns k' = owns k"
  by (auto simp: requeue_def owns_def)

lemma owned_take_signal: "take_signal tk = Inr tk' \<Longrightarrow> owned_phys_pages tk' = owned_phys_pages tk"
  by (auto simp: take_signal_def RemoveSignal_def split: if_splits option.splits)

lemma owns_enter_task:
  assumes "enter_task k t = Inr (c, k')"
  shows "owns k' = owns k"
proof -
  from assms obtain tk0 tk base k2 and tk2 :: task where tk: "get_task k t = Inr tk0" "take_signal tk0 = Inr tk"
    and s: "SendSignal ((set_task k t tk)\<lparr>tss_esp0 := base\<rparr>) t kRunning 0 = Inr k2"
    and k': "k' = k2\<lparr>paging_of := SwitchPageDirectory (paging_of k2) (task_pd tk2)\<rparr>"
    by (auto simp: enter_task_def Let_def)
  show ?thesis unfolding k' using owns_SendSignal [OF s] owns_set_task [OF tk(1) owned_take_signal [OF tk(2)]] by simp
qed

lemma owns_RegisterTask: "RegisterTask fuel k n t = Inr k' \<Longrightarrow> owns k' = owns k"
  by (auto simp: RegisterTask_def dest: owns_SendSignal)


text \<open>Operations that do change it keep the invariant.\<close>

lemma own_inv_replace:
  assumes "own_inv k" "tasks k t = Some tk" "pmm_wf m" "owned_ok m tk'"
    "\<And>u uk. u \<noteq> t \<Longrightarrow> tasks k u = Some uk \<Longrightarrow> owned_ok m uk \<and> owned_pages uk \<inter> owned_pages tk' = {}"
  shows "own_inv ((set_task k t tk')\<lparr>pmm_of := m\<rparr>)"
proof (rule own_invI)
  show "owned_ok (pmm_of ((set_task k t tk')\<lparr>pmm_of := m\<rparr>)) uk" if "tasks ((set_task k t tk')\<lparr>pmm_of := m\<rparr>) u = Some uk" for u uk
    using that assms(4,5) by (cases "u = t") auto
  show "owned_pages uk \<inter> owned_pages vk = {}"
    if "u \<noteq> v" "tasks ((set_task k t tk')\<lparr>pmm_of := m\<rparr>) u = Some uk" "tasks ((set_task k t tk')\<lparr>pmm_of := m\<rparr>) v = Some vk" for u v uk vk
    using that assms(5) [of u uk] assms(5) [of v vk] own_invD(3) [OF assms(1), of u v uk vk] by (auto split: if_splits)
qed (use assms(3) in simp)

lemma own_inv_Record:
  assumes "own_inv k" "RecordOwnedPage k t p = Inr k'" "unat p < kNumPageDirEntries"
  shows "own_inv k'"
proof -
  obtain tk where tk: "tasks k t = Some tk" using assms(2) by (auto simp: RecordOwnedPage_def get_task_def split: option.splits)
  note c = RecordOwnedPage_cases [OF tk own_invD(1) [OF assms(1)] own_invD(2) [OF assms(1) tk] assms(3)]
  have "p \<noteq> 0"
  proof
    assume p: "p = 0"
    then have "0 \<notin> set (owned_phys_pages tk)" using c assms(2) by auto
    then show False using assms(2) tk p by (simp add: RecordOwnedPage_def get_task_def replace_first_not_in)
  qed
  then obtain tk' m where k': "k' = (set_task k t tk')\<lparr>pmm_of := m\<rparr>" and m: "pmm_wf m" "owned_ok m tk'"
    "owned_pages tk' = insert (unat p) (owned_pages tk)" "used_pages m = insert (unat p) (used_pages (pmm_of k))" "unat p \<notin> used_pages (pmm_of k)"
    using c assms(2) by (auto split: if_splits)
  show ?thesis unfolding k'
  proof (rule own_inv_replace [OF assms(1) tk m(1,2)])
    fix u uk assume u: "u \<noteq> t" "tasks k u = Some uk"
    have "owned_pages uk \<subseteq> used_pages (pmm_of k)" using own_invD(2) [OF assms(1) u(2)] by (simp add: owned_ok_def)
    moreover have "owned_pages uk \<inter> owned_pages tk = {}" by (rule own_invD(3) [OF assms(1) u(1,2) tk])
    ultimately show "owned_ok m uk \<and> owned_pages uk \<inter> owned_pages tk' = {}"
      using own_invD(2) [OF assms(1) u(2)] m(3-5) by (auto simp: owned_ok_def)
  qed
qed

lemma own_inv_Remove:
  assumes "own_inv k" "RemoveOwnedPage k t p = Inr k'" "unat p < kNumPageDirEntries"
  shows "own_inv k'"
proof -
  obtain tk pages m where tk: "tasks k t = Some tk" and r: "replace_first p 0 (owned_phys_pages tk) = Some pages"
    and m: "SetPageFree (pmm_of k) (unat p) = Inr m" and k': "k' = (set_task k t (tk\<lparr>owned_phys_pages := pages\<rparr>))\<lparr>pmm_of := m\<rparr>"
    and p: "p \<in> set (owned_phys_pages tk)"
    using assms(2) by (auto simp: RemoveOwnedPage_def get_task_def PageIsRecorded_def split: option.splits)
  let ?tk = "tk\<lparr>owned_phys_pages := pages\<rparr>"
  note mu = SetPageFree_used [OF own_invD(1) [OF assms(1)] assms(3) m]
  have ok: "owned_ok (pmm_of k) tk" by (rule own_invD(2) [OF assms(1) tk])
  obtain ys zs where yz: "owned_phys_pages tk = ys @ p # zs" "pages = ys @ 0 # zs" using replace_first_in [OF p, of 0] r by auto
  have d: "distinct (filter (\<lambda>x. x \<noteq> 0) pages)" "owned_pages ?tk = owned_pages tk - {unat p} \<or> p = 0 \<and> pages = owned_phys_pages tk"
  proof -
    show "distinct (filter (\<lambda>x. x \<noteq> 0) pages)" using ok yz by (auto simp: owned_ok_def split: if_splits)
    show "owned_pages ?tk = owned_pages tk - {unat p} \<or> p = 0 \<and> pages = owned_phys_pages tk"
    proof (cases "p = 0")
      case False
      have dd: "distinct (filter (\<lambda>x. x \<noteq> 0) (owned_phys_pages tk))" using ok by (simp add: owned_ok_def)
      have "set pages - {0} = (set (owned_phys_pages tk) - {0}) - {p}" using owned_remove(2) [OF yz(1) False dd] yz(2) by blast
      then show ?thesis using image_set_diff [OF inj_unat, of "set (owned_phys_pages tk) - {0}" "{p}"] by (simp add: owned_pages_def)
    qed (use yz in simp)
  qed
  have notin: "unat p \<notin> owned_pages ?tk"
    using d(2) owned_mem [of p ?tk] by auto
  have sub: "owned_pages ?tk \<subseteq> owned_pages tk" using d(2) by (auto simp: owned_pages_def)
  have other: "unat p \<notin> owned_pages uk" if u: "u \<noteq> t" "tasks k u = Some uk" for u uk
  proof (cases "p = 0")
    case True
    then show ?thesis using owned_mem [of p uk] by simp
  next
    case False
    then have "unat p \<in> owned_pages tk" using p owned_mem [of p tk] by simp
    then show ?thesis using own_invD(3) [OF assms(1) u(1,2) tk] by auto
  qed
  show ?thesis unfolding k'
  proof (rule own_inv_replace [OF assms(1) tk])
    show "pmm_wf m" using mu by simp
    have "length pages = length (owned_phys_pages tk)" using yz by simp
    then show "owned_ok m ?tk" using ok mu d(1) sub notin by (auto simp: owned_ok_def)
    fix u uk assume u: "u \<noteq> t" "tasks k u = Some uk"
    have "owned_ok (pmm_of k) uk" by (rule own_invD(2) [OF assms(1) u(2)])
    then show "owned_ok m uk \<and> owned_pages uk \<inter> owned_pages ?tk = {}"
      using own_invD(3) [OF assms(1) u(1,2) tk] other [OF u] mu sub by (auto simp: owned_ok_def)
  qed
qed

lemma own_inv_delete:
  assumes "own_inv k" "delete_Task k t = Inr k'"
  shows "own_inv k'"
proof -
  obtain tk where tk: "tasks k t = Some tk" using assms(2) by (auto simp: delete_Task_def get_task_def split: option.splits)
  obtain p where t: "tasks k' = (tasks k)(t := None)" and p: "pmm_of k' = p" "pmm_wf p" "used_pages p = used_pages (pmm_of k) - owned_pages tk"
    using delete_Task_eq [OF tk own_invD(1) [OF assms(1)] own_invD(2) [OF assms(1) tk]] assms(2) by auto
  show ?thesis
  proof (rule own_invI)
    show "owned_ok (pmm_of k') uk" if "tasks k' u = Some uk" for u uk
    proof -
      have u: "u \<noteq> t" "tasks k u = Some uk" using that t by (auto split: if_splits)
      show ?thesis using own_invD(2) [OF assms(1) u(2)] own_invD(3) [OF assms(1) u tk] p by (auto simp: owned_ok_def)
    qed
    show "owned_pages uk \<inter> owned_pages vk = {}" if "u \<noteq> v" "tasks k' u = Some uk" "tasks k' v = Some vk" for u v uk vk
      using own_invD(3) [OF assms(1) that(1)] that t by (auto split: if_splits)
  qed (use p in simp)
qed

lemma own_inv_new:
  assumes "own_inv k" "new_Task k a stack user pd parent = Inr k'" "tasks k a = None"
  shows "own_inv k'"
proof -
  obtain tk where k': "k' = set_task k a tk" and o: "owned_phys_pages tk = replicate kMaxPages 0"
    using assms(2) by (auto simp: new_Task_def split: if_splits)
  have e: "owned_pages tk = {}" using o by (auto simp: owned_pages_def)
  have ok: "owned_ok (pmm_of k) tk" using o e by (simp add: owned_ok_def)
  show ?thesis unfolding k'
  proof (rule own_invI)
    show "owned_ok (pmm_of (set_task k a tk)) uk" if "tasks (set_task k a tk) u = Some uk" for u uk
      using that ok own_invD(2) [OF assms(1), of u uk] by (auto split: if_splits)
    show "owned_pages uk \<inter> owned_pages vk = {}" if "u \<noteq> v" "tasks (set_task k a tk) u = Some uk" "tasks (set_task k a tk) v = Some vk" for u v uk vk
      using own_invD(3) [OF assms(1) that(1)] that e by (auto split: if_splits)
  qed (use own_invD(1) [OF assms(1)] in simp)
qed


lemma AddrToPage_bound: "unat (word_of_nat (AddrToPage paddr) :: u32) < kNumPageDirEntries"
proof -
  have "unat (paddr div kPageSize4M) < 1024"
    using unat_lt_u32 [of paddr] by (simp add: kPageSize4M_def unat_div less_mult_imp_div_less)
  then show ?thesis by (simp add: AddrToPage_def kNumPageDirEntries_def)
qed

lemma own_inv_Schedule:
  assumes "own_inv k" "Schedule fuel k regs retval = Inr (c, k')"
  shows "own_inv k'"
proof -
  have s: "k' = k \<or> (\<exists>t n k1 u. leave_current fuel k t n regs retval = Inr k1 \<and> enter_task k1 u = Inr (c, k'))"
    using assms(2) by (auto simp: Schedule_def split: if_splits)
  have l: "own_inv k1" if lc: "leave_current fuel k t n regs retval = Inr k1" for t n k1
  proof (cases regs)
    case (Some r)
    then obtain k2 tk where k2: "requeue fuel k (gTaskQueue k) n = Inr k2" "get_task k2 t = Inr tk" "k1 = set_task k2 t (tk\<lparr>task_regs := r\<rparr>)"
      using lc by (auto simp: leave_current_def Let_def)
    have "owns k1 = owns k" using owns_requeue [OF k2(1)] owns_set_task [OF k2(2), of "tk\<lparr>task_regs := r\<rparr>"] k2(3) by simp
    then show ?thesis by (rule own_inv_cong [OF _ assms(1)])
  next
    case None
    then obtain nxt k2 k3 k4 where k2: "requeue fuel k nxt n = Inr k2" "SendSignal k2 t kTerminated retval = Inr k3" "delete_Task k3 t = Inr k4"
      "k1 = k4\<lparr>task_nodes := (task_nodes k4)(gTaskQueue k := None)\<rparr>"
      using lc by (auto simp: leave_current_def Let_def)
    have "owns k3 = owns k" using owns_requeue [OF k2(1)] owns_SendSignal [OF k2(2)] by simp
    then have "own_inv k4" using own_inv_delete [OF _ k2(3)] own_inv_cong [OF _ assms(1)] by blast
    then show ?thesis by (rule own_inv_cong [rotated]) (simp add: k2(4))
  qed
  from s show ?thesis
  proof (elim disjE exE conjE)
    fix t n k1 u assume a: "leave_current fuel k t n regs retval = Inr k1" "enter_task k1 u = Inr (c, k')"
    show ?thesis by (rule own_inv_cong [OF owns_enter_task [OF a(2)] l [OF a(1)]])
  qed (use assms(1) in simp)
qed

lemma own_inv_timer: "own_inv k \<Longrightarrow> run_callbacks fuel k r is = Inr (c, k') \<Longrightarrow> own_inv k'"
proof (induction "is" arbitrary: k)
  case (Cons i js)
  show ?case
  proof (cases "gCallbacks k ! i")
    case None
    then show ?thesis using Cons by simp
  next
    case (Some cb)
    then obtain c1 k1 where s: "Schedule fuel k (Some r) 0 = Inr (c1, k1)" "(case c1 of Return \<Rightarrow> run_callbacks fuel k1 r js | Switch x \<Rightarrow> Inr (c1, k1)) = Inr (c, k')"
      using Cons(3) by (cases cb) auto
    have "own_inv k1" by (rule own_inv_Schedule [OF Cons(2) s(1)])
    with Cons(1) s(2) show ?thesis by (cases c1) auto
  qed
qed simp

lemma must_switch [simp]:
  "(case c of Return \<Rightarrow> Inl e | Switch x \<Rightarrow> Inr (f x)) = Inr z \<longleftrightarrow> (\<exists>x. c = Switch x \<and> f x = z)"
  by (cases c) auto

section \<open>Every handler keeps the invariant\<close>

lemma own_alloc_at:
  assumes "own_inv k" "alloc_at k r t va pp = Inr (c, r', k')"
  shows "own_inv k'"
proof -
  obtain p paddr where "RecordOwnedPage (k\<lparr>paging_of := p\<rparr>) t (word_of_nat (AddrToPage paddr)) = Inr k'"
    using assms(2) by (auto simp: alloc_at_def Let_def)
  then show ?thesis by (rule own_inv_Record [rotated]) (use assms(1) own_inv_cong [of "k\<lparr>paging_of := p\<rparr>" k] AddrToPage_bound in auto)
qed

lemma own_AllocPage: "own_inv k \<Longrightarrow> SYS_AllocPage e k r = Inr (c, r', k') \<Longrightarrow> own_inv k'"
  by (auto simp: SYS_AllocPage_def Let_def split: if_splits dest: own_alloc_at)

lemma own_share:
  assumes "own_inv k" "share_page k r d va paddr t u flags va2 = Inr (c, r', k')"
  shows "own_inv k'"
proof -
  let ?pp = "word_of_nat (AddrToPage paddr) :: u32"
  obtain pd' where k': "bindr (if flags AND SWAP_OWNER \<noteq> 0 then bindr (RemoveOwnedPage (k\<lparr>paging_of := store_pd (paging_of k) d pd'\<rparr>) t ?pp) (\<lambda>k2. RecordOwnedPage k2 u ?pp)
      else Inr (k\<lparr>paging_of := store_pd (paging_of k) d pd'\<rparr>)) (\<lambda>k2. Inr (Return, r\<lparr>r_eax := K_OK, r_ebx := va2\<rparr>, k2)) = Inr (c, r', k')"
    using assms(2) unfolding share_page_def Let_def by (auto simp del: bindr_eq_Inr simp: bindr_eq_Inr [of "load_pd _ _"] bindr_eq_Inr [of "MapPage _ _ _ _"])
  let ?k1 = "k\<lparr>paging_of := store_pd (paging_of k) d pd'\<rparr>"
  have i: "own_inv ?k1" by (rule own_inv_cong [OF _ assms(1)]) simp
  show ?thesis
  proof (cases "flags AND SWAP_OWNER \<noteq> 0")
    case True
    then obtain k2 where "RemoveOwnedPage ?k1 t ?pp = Inr k2" "RecordOwnedPage k2 u ?pp = Inr k'" using k' by auto
    then show ?thesis using own_inv_Remove [OF i _ AddrToPage_bound] own_inv_Record [OF _ _ AddrToPage_bound] by blast
  qed (use k' i in simp)
qed

lemma own_MapPage: "own_inv k \<Longrightarrow> SYS_MapPage e k r = Inr (c, r', k') \<Longrightarrow> own_inv k'"
  by (auto simp: SYS_MapPage_def map_between_def Let_def split: if_splits dest: own_share)

lemma own_UnmapPage:
  assumes "own_inv k" "SYS_UnmapPage e k r = Inr (c, r', k')"
  shows "own_inv k'"
proof -
  obtain t paddr k1 p where k1: "k1 = k \<or> RemoveOwnedPage k t (word_of_nat (AddrToPage paddr)) = Inr k1" and k': "k' = k1\<lparr>paging_of := p\<rparr>"
    using assms(2) by (auto simp: SYS_UnmapPage_def Let_def split: if_splits)
  have "own_inv k1" using k1 assms(1) own_inv_Remove [OF assms(1) _ AddrToPage_bound] by blast
  then show ?thesis unfolding k' by (rule own_inv_cong [rotated]) simp
qed

lemma own_ProcessCreate:
  assumes "own_inv k" "tasks k (env_task e) = None" "SYS_ProcessCreate e k r = Inr (c, r', k')"
  shows "own_inv k'"
proof -
  obtain p pd cur where "new_Task (k\<lparr>paging_of := p\<rparr>) (env_task e) (env_stack e) True pd cur = Inr k'"
    using assms(3) by (auto simp: SYS_ProcessCreate_def)
  then show ?thesis by (rule own_inv_new [rotated]) (use assms own_inv_cong [of "k\<lparr>paging_of := p\<rparr>" k] in auto)
qed

lemma own_ProcessStart:
  assumes "own_inv k" "SYS_ProcessStart e k r = Inr (c, r', k')"
  shows "own_inv k'"
proof -
  obtain tk where tk: "get_task k (r_ebx r) = Inr tk"
    "RegisterTask (env_fuel e) (set_task k (r_ebx r) (tk\<lparr>task_regs := (task_regs tk)\<lparr>r_eip := r_ecx r, r_eax := r_edx r\<rparr>\<rparr>)) (env_node e) (r_ebx r) = Inr k'"
    using assms(2) by (auto simp: SYS_ProcessStart_def Let_def)
  show ?thesis by (rule own_inv_cong [OF _ assms(1)]) (simp add: owns_RegisterTask [OF tk(2)] owns_set_task [OF tk(1)])
qed

lemma own_ProcessKill: "own_inv k \<Longrightarrow> SYS_ProcessKill e k r = Inr (c, r', k') \<Longrightarrow> own_inv k'"
  by (auto simp: SYS_ProcessKill_def dest: own_inv_Schedule)

lemma own_ProcessWait:
  assumes "own_inv k" "SYS_ProcessWait e k r = Inr (c, r', k')"
  shows "own_inv k'"
proof -
  have "k' = k \<or> (\<exists>t k1 r1 c1. WaitOn k t (r_ebx r) (r_ecx r) = Inr k1 \<and> Schedule (env_fuel e) k1 (Some r1) 0 = Inr (c1, k'))"
    using assms(2) by (auto simp: SYS_ProcessWait_def Let_def split: if_splits)
  then show ?thesis
  proof (elim disjE exE conjE)
    fix t k1 r1 c1 assume a: "WaitOn k t (r_ebx r) (r_ecx r) = Inr k1" "Schedule (env_fuel e) k1 (Some r1) 0 = Inr (c1, k')"
    show ?thesis by (rule own_inv_Schedule [OF own_inv_cong [OF owns_WaitOn [OF a(1)] assms(1)] a(2)])
  qed (use assms(1) in simp)
qed

lemma owns_TryCopy: "TryCopy k src bs b sz = Inr (st, k') \<Longrightarrow> owns k' = owns k"
  by (auto simp: TryCopy_def Let_def split: if_splits)

lemma owns_ProcessInfo: "SYS_ProcessInfo e k r = Inr (c, r', k') \<Longrightarrow> owns k' = owns k"
  by (auto simp: SYS_ProcessInfo_def reply_def Let_def split: if_splits option.splits dest: owns_TryCopy)

lemma owns_rest:
  "SYS_DebugWrite e k r = Inr (c, r', k') \<Longrightarrow> owns k' = owns k" "SYS_DebugRead e k r = Inr (c, r', k') \<Longrightarrow> owns k' = owns k"
  "SYS_PageSize e k r = Inr (c, r', k') \<Longrightarrow> owns k' = owns k" "SYS_ChannelCreate e k r = Inr (c, r', k') \<Longrightarrow> owns k' = owns k"
  "SYS_HandleClose e k r = Inr (c, r', k') \<Longrightarrow> owns k' = owns k" "SYS_ChannelRead e k r = Inr (c, r', k') \<Longrightarrow> owns k' = owns k"
  "SYS_ChannelWrite e k r = Inr (c, r', k') \<Longrightarrow> owns k' = owns k" "SYS_TransferHandle e k r = Inr (c, r', k') \<Longrightarrow> owns k' = owns k"
  by (auto simp: SYS_DebugWrite_def SYS_DebugRead_def SYS_PageSize_def SYS_ChannelCreate_def SYS_HandleClose_def SYS_ChannelRead_def
      SYS_ChannelWrite_def SYS_TransferHandle_def Let_def owns_def split: if_splits option.splits)


lemma own_SyscallHandler:
  assumes "own_inv k" "tasks k (env_task e) = None" "SyscallHandler e k r = Inr (c, r', k')"
  shows "own_inv k'"
proof -
  have h: "(kSyscallHandlers ! unat (r_eax r)) e k r = Inr (c, r', k')" "unat (r_eax r) < 16"
    using assms(3) by (auto simp: SyscallHandler_def kNumSyscalls_def kSyscallHandlers_def split: if_splits)
  note own = own_AllocPage [OF assms(1)] own_MapPage [OF assms(1)] own_UnmapPage [OF assms(1)] own_ProcessCreate [OF assms(1,2)]
    own_ProcessStart [OF assms(1)] own_ProcessKill [OF assms(1)] own_ProcessWait [OF assms(1)]
    own_inv_cong [OF owns_ProcessInfo assms(1)] owns_rest [THEN own_inv_cong, OF _ assms(1)]
  have "\<forall>h \<in> set kSyscallHandlers. h e k r = Inr (c, r', k') \<longrightarrow> own_inv k'"
    unfolding kSyscallHandlers_def list.set ball_simps(5,7) by (intro conjI impI TrueI) (erule own)+
  moreover have "kSyscallHandlers ! unat (r_eax r) \<in> set kSyscallHandlers" using h(2) by (intro nth_mem) (simp add: kSyscallHandlers_def)
  ultimately show ?thesis using h(1) by blast
qed

lemma own_timer: "own_inv k \<Longrightarrow> timer_handler e k r = Inr (c, r', k') \<Longrightarrow> own_inv k'"
  using own_inv_cong [of "k\<lparr>gTick := gTick k + 1\<rparr>" k] by (auto simp: timer_handler_def TimerCallback_def dest: own_inv_timer [rotated])

lemma own_DispatchUser: "own_inv k \<Longrightarrow> DispatchUserException e k r = Inr (c, r', k') \<Longrightarrow> own_inv k'"
  by (auto simp: DispatchUserException_def dest: own_inv_Schedule)

lemma own_DispatchKernel:
  "own_inv k \<Longrightarrow> tasks k (env_task e) = None \<Longrightarrow> DispatchKernelException e k r = Inr (c, r', k') \<Longrightarrow> own_inv k'"
  by (auto simp: DispatchKernelException_def HandleKernelException_def split: if_splits dest: own_timer own_SyscallHandler)

lemma own_dispatch:
  "own_inv k \<Longrightarrow> tasks k (env_task e) = None \<Longrightarrow> dispatch_interrupt e k r = Inr (c, r', k') \<Longrightarrow> own_inv k'"
  by (auto simp: dispatch_interrupt_def split: if_splits dest: own_timer own_SyscallHandler own_DispatchUser own_DispatchKernel)

lemma ExceptionDispatcher_cases:
  assumes "ExceptionDispatcher e k r = Inr (c, r', k')"
  obtains k2 where "dispatch_interrupt e (k\<lparr>gOldPageDir := Some (GetCurrentPageDirectory (paging_of k)),
      paging_of := SwitchPageDirectory (paging_of k) GetKernelPageDirectory\<rparr>) r = Inr (c, r', k2)"
    "k' = k2 \<and> c \<noteq> Return \<or> c = Return \<and> (\<exists>old. gOldPageDir k2 = Some old \<and> k' = k2\<lparr>paging_of := SwitchPageDirectory (paging_of k2) old\<rparr>)"
proof -
  let ?k1 = "k\<lparr>gOldPageDir := Some (GetCurrentPageDirectory (paging_of k)), paging_of := SwitchPageDirectory (paging_of k) GetKernelPageDirectory\<rparr>"
  obtain x where x: "dispatch_interrupt e ?k1 r = Inr x" using assms by (cases "dispatch_interrupt e ?k1 r") (auto simp: ExceptionDispatcher_def)
  obtain c2 r2 k2 where h: "dispatch_interrupt e ?k1 r = Inr (c2, r2, k2)" using x by (cases x) auto
  show thesis using that [of k2] assms h
    by (cases c2) (auto simp: ExceptionDispatcher_def GetPageDirBeforeException_def split: option.splits)
qed

lemma own_ExceptionDispatcher:
  assumes "own_inv k" "tasks k (env_task e) = None" "ExceptionDispatcher e k r = Inr (c, r', k')"
  shows "own_inv k'"
proof -
  obtain k2 where d: "dispatch_interrupt e (k\<lparr>gOldPageDir := Some (GetCurrentPageDirectory (paging_of k)),
      paging_of := SwitchPageDirectory (paging_of k) GetKernelPageDirectory\<rparr>) r = Inr (c, r', k2)"
    and k': "k' = k2 \<and> c \<noteq> Return \<or> c = Return \<and> (\<exists>old. gOldPageDir k2 = Some old \<and> k' = k2\<lparr>paging_of := SwitchPageDirectory (paging_of k2) old\<rparr>)"
    by (rule ExceptionDispatcher_cases [OF assms(3)])
  have "own_inv k2" by (rule own_dispatch [OF _ _ d]) (use assms own_inv_cong [OF _ assms(1)] in auto)
  then show ?thesis by (rule own_inv_cong [rotated]) (use k' in auto)
qed

text \<open>The kernel runs from interrupt to interrupt; in between, tasks change memory.\<close>

inductive kernel_step :: "kernel \<Rightarrow> kernel \<Rightarrow> bool" where
  interrupt: "tasks k (env_task e) = None \<Longrightarrow> ExceptionDispatcher e k r = Inr (c, r', k') \<Longrightarrow> kernel_step k k'"
| computation: "kernel_step k (k\<lparr>paging_of := (paging_of k)\<lparr>phys := m\<rparr>\<rparr>)"

inductive_cases kernel_stepE: "kernel_step k k'"

text \<open>C16: Ownership of physical pages. In every state the kernel reaches by handling interrupts, exceptions and
  system calls, the pages a task owns are marked used, no page has two owners, and a table never holds
  a page twice. The address \<open>new Task\<close> gets is assumed to be free.\<close>

theorem page_ownership_invariant:
  assumes "own_inv k" "kernel_step\<^sup>*\<^sup>* k k'"
  shows "own_inv k'"
  using assms(2,1)
proof (induction rule: rtranclp_induct)
  case (step k1 k2)
  have i: "own_inv k1" using step by blast
  from step.hyps(2) show ?case
    by (rule kernel_stepE) (use own_ExceptionDispatcher [OF i] own_inv_cong [OF _ i] in auto)
qed

lemma example_own_inv: "own_inv example_kernel"
proof (rule own_invI)
  have e: "owned_pages (example_task b s p [] w l) = {}" for b s p w l by (auto simp: owned_pages_def)
  show "owned_ok (pmm_of example_kernel) tk" if "tasks example_kernel t = Some tk" for t tk
    using example_tasks [OF that] example_pmm(3) e by (elim disjE conjE) (simp_all add: owned_ok_def kMaxPages_def)
  show "owned_pages tk \<inter> owned_pages uk = {}" if "t \<noteq> u" "tasks example_kernel t = Some tk" "tasks example_kernel u = Some uk" for t u tk uk
    using example_tasks [OF that(2)] example_tasks [OF that(3)] that(1) e by auto
qed (rule example_pmm)

definition example_env :: sys_env where
  "example_env = \<lparr>env_fuel = 8, env_mok = (\<lambda>_. True), env_buf = 0x400000, env_local = 0x400100, env_vec = 0x5000, env_pd = 0x6000, env_task = 0x700,
     env_stack = 0x9000, env_node = 0x40, env_serial = None\<rparr>"

theorem page_ownership_invariant_witness:
  "\<exists>k'. kernel_step\<^sup>*\<^sup>* example_kernel k' \<and> tasks k' 0x700 \<noteq> None \<and> own_inv k'"
proof -
  let ?r = "(task_init_regs True)\<lparr>r_int_no := 128, r_eax := 4\<rparr>"
  have n: "tasks example_kernel (env_task example_env) = None" by (simp add: example_kernel_def example_env_def)
  obtain c r' k' where s: "ExceptionDispatcher example_env example_kernel ?r = Inr (c, r', k')" "tasks k' 0x700 \<noteq> None"
    by (simp add: ExceptionDispatcher_def dispatch_interrupt_def IRQ0_def kSyscallHandler_def SyscallHandler_def kNumSyscalls_def kSyscallHandlers_def SYS_ProcessCreate_def
        Clone_def GetKernelPageDirectory_def SwitchPageDirectory_def GetCurrentPageDirectory_def load_pd_def store_pd_def GetCurrentTask_def node_get_def deref_def
        new_Task_def example_kernel_def example_env_def GetPageDirBeforeException_def)
  have "kernel_step\<^sup>*\<^sup>* example_kernel k'" by (rule r_into_rtranclp) (rule kernel_step.interrupt [OF n s(1)])
  with page_ownership_invariant [OF example_own_inv this] s(2) show ?thesis by blast
qed


section \<open>Returning to the interrupted address space\<close>

lemma send_to_old: "send_to k this sigs val ls = Inr k' \<Longrightarrow> gOldPageDir k' = gOldPageDir k"
proof (induction ls arbitrary: k)
  case (Cons l ls)
  then obtain tk where "send_to (set_task k l tk) this sigs val ls = Inr k'" by auto
  from Cons(1) [OF this] show ?case by simp
qed simp

lemma RegisterTask_old: "RegisterTask fuel k n t = Inr k' \<Longrightarrow> gOldPageDir k' = gOldPageDir k"
  by (auto simp: RegisterTask_def SendSignal_def dest!: send_to_old)

lemma Record_old: "RecordOwnedPage k t p = Inr k' \<Longrightarrow> gOldPageDir k' = gOldPageDir k"
  by (auto simp: RecordOwnedPage_def split: option.splits)

lemma Remove_old: "RemoveOwnedPage k t p = Inr k' \<Longrightarrow> gOldPageDir k' = gOldPageDir k"
  by (auto simp: RemoveOwnedPage_def split: option.splits)

lemma Schedule_Return: "Schedule fuel k regs retval = Inr (Return, k') \<Longrightarrow> k' = k"
  by (auto simp: Schedule_def enter_task_def Let_def split: if_splits)

lemma timer_old: "run_callbacks fuel k r is = Inr (Return, k') \<Longrightarrow> gOldPageDir k' = gOldPageDir k"
proof (induction "is" arbitrary: k)
  case (Cons i js)
  show ?case
  proof (cases "gCallbacks k ! i")
    case (Some cb)
    then obtain c1 k1 where s: "Schedule fuel k (Some r) 0 = Inr (c1, k1)" "(case c1 of Return \<Rightarrow> run_callbacks fuel k1 r js | Switch x \<Rightarrow> Inr (c1, k1)) = Inr (Return, k')"
      using Cons(2) by (cases cb) auto
    show ?thesis
    proof (cases c1)
      case Return
      then show ?thesis using Cons(1) [of k1] s Schedule_Return [of fuel k "Some r" 0 k1] by simp
    qed (use s in simp)
  qed (use Cons in simp)
qed simp

lemma share_old: "share_page k r d va paddr t u flags va2 = Inr (c, r', k') \<Longrightarrow> gOldPageDir k' = gOldPageDir k"
proof (cases "flags AND SWAP_OWNER \<noteq> 0")
  case True
  moreover assume "share_page k r d va paddr t u flags va2 = Inr (c, r', k')"
  ultimately show ?thesis by (auto simp: share_page_def Let_def dest!: Record_old Remove_old)
qed (auto simp: share_page_def Let_def)

lemma SyscallHandler_old:
  assumes "SyscallHandler e k r = Inr (Return, r', k')"
  shows "gOldPageDir k' = gOldPageDir k"
proof -
  have h: "(kSyscallHandlers ! unat (r_eax r)) e k r = Inr (Return, r', k')" "unat (r_eax r) < 16"
    using assms by (auto simp: SyscallHandler_def kNumSyscalls_def kSyscallHandlers_def split: if_splits)
  have a: "alloc_at k r t va pp = Inr (Return, r', k') \<Longrightarrow> gOldPageDir k' = gOldPageDir k" for t va pp
    by (auto simp: alloc_at_def Let_def dest!: Record_old)
  have tc: "TryCopy k src bs b sz = Inr (st, k') \<Longrightarrow> gOldPageDir k' = gOldPageDir k" for src bs b sz st
    by (auto simp: TryCopy_def Let_def split: if_splits)
  have old:
    "SYS_AllocPage e k r = Inr (Return, r', k') \<Longrightarrow> gOldPageDir k' = gOldPageDir k"
    "SYS_MapPage e k r = Inr (Return, r', k') \<Longrightarrow> gOldPageDir k' = gOldPageDir k"
    "SYS_UnmapPage e k r = Inr (Return, r', k') \<Longrightarrow> gOldPageDir k' = gOldPageDir k"
    "SYS_ProcessCreate e k r = Inr (Return, r', k') \<Longrightarrow> gOldPageDir k' = gOldPageDir k"
    "SYS_ProcessStart e k r = Inr (Return, r', k') \<Longrightarrow> gOldPageDir k' = gOldPageDir k"
    "SYS_ProcessKill e k r = Inr (Return, r', k') \<Longrightarrow> gOldPageDir k' = gOldPageDir k"
    "SYS_ProcessWait e k r = Inr (Return, r', k') \<Longrightarrow> gOldPageDir k' = gOldPageDir k"
    "SYS_ProcessInfo e k r = Inr (Return, r', k') \<Longrightarrow> gOldPageDir k' = gOldPageDir k"
    "SYS_DebugWrite e k r = Inr (Return, r', k') \<Longrightarrow> gOldPageDir k' = gOldPageDir k" "SYS_DebugRead e k r = Inr (Return, r', k') \<Longrightarrow> gOldPageDir k' = gOldPageDir k"
    "SYS_PageSize e k r = Inr (Return, r', k') \<Longrightarrow> gOldPageDir k' = gOldPageDir k" "SYS_ChannelCreate e k r = Inr (Return, r', k') \<Longrightarrow> gOldPageDir k' = gOldPageDir k"
    "SYS_HandleClose e k r = Inr (Return, r', k') \<Longrightarrow> gOldPageDir k' = gOldPageDir k" "SYS_ChannelRead e k r = Inr (Return, r', k') \<Longrightarrow> gOldPageDir k' = gOldPageDir k"
    "SYS_ChannelWrite e k r = Inr (Return, r', k') \<Longrightarrow> gOldPageDir k' = gOldPageDir k" "SYS_TransferHandle e k r = Inr (Return, r', k') \<Longrightarrow> gOldPageDir k' = gOldPageDir k"
                  apply (auto simp: SYS_AllocPage_def Let_def split: if_splits dest: a) [1]
                 apply (auto simp: SYS_MapPage_def map_between_def Let_def split: if_splits dest: share_old) [1]
                apply (auto simp: SYS_UnmapPage_def Let_def split: if_splits dest: Remove_old) [1]
               apply (auto simp: SYS_ProcessCreate_def new_Task_def split: if_splits) [1]
              apply (auto simp: SYS_ProcessStart_def Let_def dest!: RegisterTask_old) [1]
             apply (auto simp: SYS_ProcessKill_def) [1]
            apply (auto simp: SYS_ProcessWait_def Let_def split: if_splits) [1]
           apply (auto simp: SYS_ProcessInfo_def reply_def Let_def split: if_splits option.splits dest: tc) [1]
          apply (auto simp: SYS_DebugWrite_def SYS_DebugRead_def SYS_PageSize_def SYS_ChannelCreate_def SYS_HandleClose_def SYS_ChannelRead_def
      SYS_ChannelWrite_def SYS_TransferHandle_def Let_def split: if_splits option.splits)
    done
  have "\<forall>h \<in> set kSyscallHandlers. h e k r = Inr (Return, r', k') \<longrightarrow> gOldPageDir k' = gOldPageDir k"
    unfolding kSyscallHandlers_def list.set ball_simps(5,7) by (intro conjI impI TrueI) (erule old)+
  moreover have "kSyscallHandlers ! unat (r_eax r) \<in> set kSyscallHandlers" using h(2) by (intro nth_mem) (simp add: kSyscallHandlers_def)
  ultimately show ?thesis using h(1) by blast
qed

lemma dispatch_old: "dispatch_interrupt e k r = Inr (Return, r', k') \<Longrightarrow> gOldPageDir k' = gOldPageDir k"
  by (auto simp: dispatch_interrupt_def DispatchUserException_def DispatchKernelException_def HandleKernelException_def timer_handler_def TimerCallback_def
      split: if_splits dest: SyscallHandler_old timer_old)

text \<open>C17: An interrupt that returns to the interrupted task returns to its address space: whatever the handler
  did, the page directory that was loaded before is loaded again. An interrupt that does not return
  loads the directory of the task it switches to (\<open>schedule_round_robin\<close>).\<close>

theorem exception_restores_address_space:
  assumes "ExceptionDispatcher e k r = Inr (Return, r', k')"
  shows "GetCurrentPageDirectory (paging_of k') = GetCurrentPageDirectory (paging_of k)"
proof -
  obtain k2 where d: "dispatch_interrupt e (k\<lparr>gOldPageDir := Some (GetCurrentPageDirectory (paging_of k)),
      paging_of := SwitchPageDirectory (paging_of k) GetKernelPageDirectory\<rparr>) r = Inr (Return, r', k2)"
    and k': "\<exists>old. gOldPageDir k2 = Some old \<and> k' = k2\<lparr>paging_of := SwitchPageDirectory (paging_of k2) old\<rparr>"
    by (rule ExceptionDispatcher_cases [OF assms]) auto
  from dispatch_old [OF d] k' show ?thesis by (auto simp: SwitchPageDirectory_def GetCurrentPageDirectory_def)
qed

theorem exception_restores_address_space_witness:
  "\<exists>r' k'. ExceptionDispatcher example_env (example_kernel\<lparr>paging_of := (paging_of example_kernel)\<lparr>gCurrentPageDir := HeapPD 0x1000\<rparr>\<rparr>)
      ((task_init_regs True)\<lparr>r_int_no := 128, r_eax := 3\<rparr>) = Inr (Return, r', k') \<and> GetCurrentPageDirectory (paging_of k') = HeapPD 0x1000"
proof -
  let ?k = "example_kernel\<lparr>paging_of := (paging_of example_kernel)\<lparr>gCurrentPageDir := HeapPD 0x1000\<rparr>\<rparr>"
  obtain r' k' where s: "ExceptionDispatcher example_env ?k ((task_init_regs True)\<lparr>r_int_no := 128, r_eax := 3\<rparr>) = Inr (Return, r', k')"
    by (simp add: ExceptionDispatcher_def dispatch_interrupt_def IRQ0_def kSyscallHandler_def SyscallHandler_def kNumSyscalls_def kSyscallHandlers_def
        SYS_PageSize_def GetPageDirBeforeException_def)
  from exception_restores_address_space [OF s] s show ?thesis by (auto simp: GetCurrentPageDirectory_def)
qed


section \<open>Allocating, sharing and unmapping pages\<close>

definition task_space :: "kernel \<Rightarrow> u32 \<Rightarrow> task \<Rightarrow> pagedir \<Rightarrow> bool" where
  "task_space k t tk pd \<longleftrightarrow> tasks k t = Some tk \<and> pds (paging_of k) (task_pd tk) = Some pd \<and> pd_wf pd"

text \<open>From \<open>k\<close> to \<open>k'\<close> the task got one more page: a free physical page, mapped at a free virtual page.\<close>

definition page_added :: "kernel \<Rightarrow> u32 \<Rightarrow> task \<Rightarrow> pagedir \<Rightarrow> nat \<Rightarrow> nat \<Rightarrow> kernel \<Rightarrow> bool" where
  "page_added k t tk pd w p k' \<longleftrightarrow> w < 1024 \<and> w \<notin> dom (vmap pd) \<and> p \<notin> used_pages (pmm_of k)
     \<and> used_pages (pmm_of k') = insert p (used_pages (pmm_of k)) \<and> gTaskQueue k' = gTaskQueue k \<and> task_nodes k' = task_nodes k
     \<and> (\<exists>tk' pd'. task_space k' t tk' pd' \<and> vmap pd' = (vmap pd)(w \<mapsto> p) \<and> owned_pages tk' = insert p (owned_pages tk))"

lemma AddrToPage_PageToAddr: "p < 1024 \<Longrightarrow> AddrToPage (PageToAddr p) = p"
  by (simp add: AddrToPage_def addr_div PageToAddr_facts)

lemma set_task_pmm_inj:
  assumes "(set_task k t a)\<lparr>pmm_of := x\<rparr> = (set_task k t b)\<lparr>pmm_of := y\<rparr>"
  shows "a = b"
proof -
  have "tasks ((set_task k t a)\<lparr>pmm_of := x\<rparr>) t = tasks ((set_task k t b)\<lparr>pmm_of := y\<rparr>) t" using assms by (rule arg_cong)
  then show ?thesis by simp
qed

lemma Record_ok:
  assumes "own_inv k" "tasks k t = Some tk" "0 \<in> set (owned_phys_pages tk)" "p < 1024" "p \<noteq> 0" "p \<notin> used_pages (pmm_of k)"
  shows "\<exists>pages m. RecordOwnedPage k t (word_of_nat p) = Inr ((set_task k t (tk\<lparr>owned_phys_pages := pages\<rparr>))\<lparr>pmm_of := m\<rparr>)
    \<and> owned_pages (tk\<lparr>owned_phys_pages := pages\<rparr>) = insert p (owned_pages tk) \<and> used_pages m = insert p (used_pages (pmm_of k))
    \<and> own_inv ((set_task k t (tk\<lparr>owned_phys_pages := pages\<rparr>))\<lparr>pmm_of := m\<rparr>)"
proof -
  let ?p = "word_of_nat p :: u32"
  have u1: "unat ?p = p" using assms(4) by (rule PageToAddr_facts(3))
  then have "?p \<noteq> 0" using assms(5) by (metis unsigned_0)
  note u = u1 this
  have b: "unat ?p < kNumPageDirEntries" using u(1) assms(4) by (simp add: kNumPageDirEntries_def)
  have "p \<notin> owned_pages tk" using own_invD(2) [OF assms(1,2)] assms(6) by (auto simp: owned_ok_def)
  with RecordOwnedPage_cases [OF assms(2) own_invD(1) [OF assms(1)] own_invD(2) [OF assms(1,2)] b] u assms(3,6)
  obtain tk' m where r: "RecordOwnedPage k t ?p = Inr ((set_task k t tk')\<lparr>pmm_of := m\<rparr>)"
    "owned_pages tk' = insert p (owned_pages tk)" "used_pages m = insert p (used_pages (pmm_of k))" by auto
  obtain pages where "tk' = tk\<lparr>owned_phys_pages := pages\<rparr>"
    using r(1) assms(2) by (auto simp: RecordOwnedPage_def get_task_def split: option.splits dest!: set_task_pmm_inj)
  with r own_inv_Record [OF assms(1) r(1) b] show ?thesis by auto
qed

lemma alloc_at_ok:
  assumes "own_inv k" "task_space k t tk pd" "is_user tk" "0 \<in> set (owned_phys_pages tk)" "v < 1024" "v \<notin> dom (vmap pd)"
    "p < 1024" "p \<noteq> 0" "p \<notin> used_pages (pmm_of k)"
  shows "\<exists>pages m. alloc_at k r t (PageToAddr v) (int p) = Inr (Return, r\<lparr>r_eax := K_OK, r_ebx := PageToAddr v\<rparr>,
      (set_task (k\<lparr>paging_of := store_pd (paging_of k) (task_pd tk) (pd[v := mk_entry p PG_USER])\<rparr>) t (tk\<lparr>owned_phys_pages := pages\<rparr>))\<lparr>pmm_of := m\<rparr>)
    \<and> owned_pages (tk\<lparr>owned_phys_pages := pages\<rparr>) = insert p (owned_pages tk) \<and> used_pages m = insert p (used_pages (pmm_of k))
    \<and> own_inv ((set_task (k\<lparr>paging_of := store_pd (paging_of k) (task_pd tk) (pd[v := mk_entry p PG_USER])\<rparr>) t (tk\<lparr>owned_phys_pages := pages\<rparr>))\<lparr>pmm_of := m\<rparr>)"
proof -
  let ?pd = "pd[v := mk_entry p PG_USER]"
  let ?k1 = "k\<lparr>paging_of := store_pd (paging_of k) (task_pd tk) ?pd\<rparr>"
  have s: "tasks k t = Some tk" "pds (paging_of k) (task_pd tk) = Some pd" "pd_wf pd" using assms(2) by (simp_all add: task_space_def)
  have i: "own_inv ?k1" by (rule own_inv_cong [OF _ assms(1)]) simp
  have m: "MapPage pd (PageToAddr v) (PageToAddr p) PG_USER = Inr ?pd" using MapPage_page [OF s(3) assms(5,7)] assms(6) by simp
  have v: "vmap ?pd v = Some p" "pd_wf ?pd" using vmap_map [OF s(3) assms(5,7)] by simp_all
  have g: "getPhysicalAddr ?pd (PageToAddr v) = Inr (PageToAddr p)" using getPhysicalAddr_page [OF v(2) assms(5)] v(1) by simp
  have t1: "tasks ?k1 t = Some tk" "p \<notin> used_pages (pmm_of ?k1)" using s(1) assms(9) by simp_all
  from Record_ok [OF i t1(1) assms(4,7,8) t1(2)] obtain pages m' where
    "RecordOwnedPage ?k1 t (word_of_nat p) = Inr ((set_task ?k1 t (tk\<lparr>owned_phys_pages := pages\<rparr>))\<lparr>pmm_of := m'\<rparr>)"
    "owned_pages (tk\<lparr>owned_phys_pages := pages\<rparr>) = insert p (owned_pages tk)" "used_pages m' = insert p (used_pages (pmm_of ?k1))"
    "own_inv ((set_task ?k1 t (tk\<lparr>owned_phys_pages := pages\<rparr>))\<lparr>pmm_of := m'\<rparr>)" by blast
  moreover have "get_task k t = Inr tk" "load_pd (paging_of k) (task_pd tk) = Inr pd" using s by (simp_all add: get_task_def load_pd_def)
  ultimately show ?thesis using m g assms(3,7)
    by (intro exI [of _ pages] exI [of _ m']) (simp add: alloc_at_def Let_def AddrToPage_PageToAddr del: get_set_task)
qed

lemma next_free_facts:
  assumes "pmm_wf s" "\<not> next_free_spec (used_pages s) (8 * (gNum4MPages s div 8)) < 0"
  obtains p where "next_free_spec (used_pages s) (8 * (gNum4MPages s div 8)) = int p" "p < 1024" "p \<notin> used_pages s" "\<forall>q < p. q \<in> used_pages s"
proof -
  let ?U = "used_pages s" and ?m = "8 * (gNum4MPages s div 8)"
  obtain q where q: "q < ?m" "q \<notin> ?U" using assms(2) by (auto simp: next_free_spec_def split: if_splits)
  let ?p = "LEAST p. p \<notin> ?U"
  have "?p \<notin> ?U" "?p \<le> q" using LeastI [of "\<lambda>p. p \<notin> ?U", OF q(2)] Least_le [of "\<lambda>p. p \<notin> ?U", OF q(2)] by simp_all
  moreover have "\<forall>r < ?p. r \<in> ?U" using not_less_Least by blast
  moreover have "?m \<le> 1024" using assms(1) div_le_mono [of "gNum4MPages s" 1024 8] by (simp add: pmm_wf_def kNumPageDirEntries_def)
  moreover have "next_free_spec ?U ?m = int ?p" unfolding next_free_spec_def by (rule if_P) (use q in blast)
  moreover have "?p < 1024" using calculation(2,4) q(1) by linarith
  ultimately show thesis using that [of ?p] by blast
qed

lemma AllocPage_cases:
  assumes "own_inv k" "(if r_edx r AND ALLOC_CURRENT \<noteq> 0 then GetCurrentTask k else Inr (r_ecx r)) = Inr t"
    "task_space k t tk pd" "is_user tk" "0 \<in> set (owned_phys_pages tk)" "0 \<in> used_pages (pmm_of k)"
    and anon: "anon \<longleftrightarrow> r_edx r AND ALLOC_ANON \<noteq> 0" and addr: "anon \<or> r_ebx r = PageToAddr v \<and> v < 1024"
  shows "if next_free_spec (used_pages (pmm_of k)) (8 * (gNum4MPages (pmm_of k) div 8)) < 0
    then SYS_AllocPage e k r = Inr (Return, r\<lparr>r_eax := K_OOM_PHYS\<rparr>, k)
    else if anon \<and> {1..<1024} \<subseteq> dom (vmap pd) then SYS_AllocPage e k r = Inr (Return, r\<lparr>r_eax := K_OOM_VIRT\<rparr>, k)
    else if \<not> anon \<and> v \<in> dom (vmap pd) then SYS_AllocPage e k r = Inr (Return, r\<lparr>r_eax := K_VPAGE_MAPPED\<rparr>, k)
    else \<exists>w p k'. SYS_AllocPage e k r = Inr (Return, r\<lparr>r_eax := K_OK, r_ebx := PageToAddr w\<rparr>, k') \<and> own_inv k'
      \<and> (if anon then 1 \<le> w \<and> {1..<w} \<subseteq> dom (vmap pd) else w = v) \<and> (\<forall>q < p. q \<in> used_pages (pmm_of k))
      \<and> page_added k t tk pd w p k'"
proof -
  let ?P = "next_free_spec (used_pages (pmm_of k)) (8 * (gNum4MPages (pmm_of k) div 8))"
  have pm: "pmm_wf (pmm_of k)" by (rule own_invD(1) [OF assms(1)])
  have s: "tasks k t = Some tk" "pds (paging_of k) (task_pd tk) = Some pd" "pd_wf pd" using assms(3) by (simp_all add: task_space_def)
  have g: "get_task k t = Inr tk" "load_pd (paging_of k) (task_pd tk) = Inr pd" using s by (simp_all add: get_task_def load_pd_def)
  show ?thesis
  proof (cases "?P < 0")
    case True
    then show ?thesis by (simp add: SYS_AllocPage_def Let_def GetNextFreePage_wf [OF pm])
  next
    case False
    then obtain p where p: "?P = int p" "p < 1024" "p \<notin> used_pages (pmm_of k)" "\<forall>q < p. q \<in> used_pages (pmm_of k)"
      using next_free_facts [OF pm] by blast
    have p0: "p \<noteq> 0" using p(3) assms(6) by metis
    have ok: "\<exists>w p k'. SYS_AllocPage e k r = Inr (Return, r\<lparr>r_eax := K_OK, r_ebx := PageToAddr w\<rparr>, k') \<and> own_inv k'
      \<and> (if anon then 1 \<le> w \<and> {1..<w} \<subseteq> dom (vmap pd) else w = v) \<and> (\<forall>q < p. q \<in> used_pages (pmm_of k))
      \<and> page_added k t tk pd w p k'"
      if a: "SYS_AllocPage e k r = alloc_at k r t (PageToAddr w) (int p)" "w < 1024" "w \<notin> dom (vmap pd)"
        "if anon then 1 \<le> w \<and> {1..<w} \<subseteq> dom (vmap pd) else w = v" for w
    proof -
      let ?k1 = "k\<lparr>paging_of := store_pd (paging_of k) (task_pd tk) (pd[w := mk_entry p PG_USER])\<rparr>"
      from alloc_at_ok [OF assms(1,3,4,5) a(2,3) p(2) p0 p(3), of r] obtain pages m where
        r: "alloc_at k r t (PageToAddr w) (int p) = Inr (Return, r\<lparr>r_eax := K_OK, r_ebx := PageToAddr w\<rparr>,
          (set_task ?k1 t (tk\<lparr>owned_phys_pages := pages\<rparr>))\<lparr>pmm_of := m\<rparr>)"
        "owned_pages (tk\<lparr>owned_phys_pages := pages\<rparr>) = insert p (owned_pages tk)" "used_pages m = insert p (used_pages (pmm_of k))"
        "own_inv ((set_task ?k1 t (tk\<lparr>owned_phys_pages := pages\<rparr>))\<lparr>pmm_of := m\<rparr>)" by blast
      let ?k' = "(set_task ?k1 t (tk\<lparr>owned_phys_pages := pages\<rparr>))\<lparr>pmm_of := m\<rparr>"
      have "task_space ?k' t (tk\<lparr>owned_phys_pages := pages\<rparr>) (pd[w := mk_entry p PG_USER])"
        using vmap_map(2) [OF s(3) a(2) p(2)] by (simp add: task_space_def)
      then have "page_added k t tk pd w p ?k'" using a(2,3) p(3) r(2,3) vmap_map(1) [OF s(3) a(2) p(2), of PG_USER] unfolding page_added_def
        by (intro conjI exI [of _ "tk\<lparr>owned_phys_pages := pages\<rparr>"] exI [of _ "pd[w := mk_entry p PG_USER]"]) simp_all
      moreover have "SYS_AllocPage e k r = Inr (Return, r\<lparr>r_eax := K_OK, r_ebx := PageToAddr w\<rparr>, ?k')" using a(1) r(1) by simp
      ultimately show ?thesis using a(4) p(4) r(4) by blast
    qed
    show ?thesis
    proof (cases anon)
      case True
      have an: "SYS_AllocPage e k r = (if getNextFreePage pd 1 < 0 then Inr (Return, r\<lparr>r_eax := K_OOM_VIRT\<rparr>, k)
          else alloc_at k r t (PageToAddr (nat (getNextFreePage pd 1))) (int p))"
        using True anon assms(2) g p(1) by (simp add: SYS_AllocPage_def Let_def GetNextFreePage_wf [OF pm] FREE_PAGE_LOWER_BOUND_def)
      have "(\<exists>w. getNextFreePage pd 1 = int w \<and> 1 \<le> w \<and> w < 1024 \<and> w \<notin> dom (vmap pd) \<and> {1..<w} \<subseteq> dom (vmap pd))
        \<or> getNextFreePage pd 1 = - 1 \<and> {1..<1024} \<subseteq> dom (vmap pd)" by (rule getNextFreePage_spec [OF s(3)]) simp
      then show ?thesis
      proof (elim disjE exE conjE)
        fix w assume w: "getNextFreePage pd 1 = int w" "1 \<le> w" "w < 1024" "w \<notin> dom (vmap pd)" "{1..<w} \<subseteq> dom (vmap pd)"
        have "\<not> {1..<1024} \<subseteq> dom (vmap pd)" using w by (metis atLeastLessThan_iff subsetD)
        then show ?thesis using ok [of w] an w True False by simp
      qed (use an True False in simp_all)
    next
      case na: False
      with addr have v: "r_ebx r = PageToAddr v" "v < 1024" by simp_all
      have na': "SYS_AllocPage e k r = (if v \<in> dom (vmap pd) then Inr (Return, r\<lparr>r_eax := K_VPAGE_MAPPED\<rparr>, k)
          else alloc_at k r t (PageToAddr v) (int p))"
        using na anon assms(2) g p(1) v VaddrIsMapped_page [OF s(3) v(2)] by (simp add: SYS_AllocPage_def Let_def GetNextFreePage_wf [OF pm])
      then show ?thesis using ok [of v] v(2) na False by simp
    qed
  qed
qed

lemma UnmapPage_cases:
  assumes "own_inv k" "GetCurrentTask k = Inr t" "task_space k t tk pd" "vmap pd v = Some p" "p \<noteq> 0" "r_ebx r = PageToAddr v"
  shows "\<exists>k' tk'. SYS_UnmapPage e k r = Inr (Return, r, k') \<and> own_inv k' \<and> task_space k' t tk' (pd[v := 0]) \<and> vmap (pd[v := 0]) = (vmap pd)(v := None)
    \<and> owned_pages tk' = owned_pages tk - {p}
    \<and> used_pages (pmm_of k') = (if p \<in> owned_pages tk then used_pages (pmm_of k) - {p} else used_pages (pmm_of k))"
proof -
  have s: "tasks k t = Some tk" "pds (paging_of k) (task_pd tk) = Some pd" "pd_wf pd" using assms(3) by (simp_all add: task_space_def)
  have g: "current_task k = Inr (t, tk)" "load_pd (paging_of k) (task_pd tk) = Inr pd"
    using s assms(2) by (simp_all add: current_task_def get_task_def load_pd_def)
  have vp: "v < 1024" "p < 1024" using vmap_bound [OF assms(4)] s(3) by (simp_all add: pd_wf_def kNumPageDirEntries_def)
  let ?p = "word_of_nat p :: u32"
  have u: "unat ?p = p" using vp(2) by (rule PageToAddr_facts(3))
  then have u0: "?p \<noteq> 0" using assms(5) by (metis unsigned_0)
  have b: "unat ?p < kNumPageDirEntries" using u vp(2) by (simp add: kNumPageDirEntries_def)
  have mem: "PageIsRecorded tk ?p \<longleftrightarrow> p \<in> owned_pages tk" using owned_mem [of ?p tk] u u0 by (simp add: PageIsRecorded_def)
  have un: "UnmapPage pd (PageToAddr v) = Inr (pd[v := 0])" using UnmapPage_page [OF s(3) vp(1)] assms(4) by auto
  have ga: "getPhysicalAddr pd (PageToAddr v) = Inr (PageToAddr p)" using getPhysicalAddr_page [OF s(3) vp(1)] assms(4) by simp
  have sys: "SYS_UnmapPage e k r = bindr (if p \<in> owned_pages tk then RemoveOwnedPage k t ?p else Inr k)
      (\<lambda>k1. Inr (Return, r, k1\<lparr>paging_of := store_pd (paging_of k1) (task_pd tk) (pd[v := 0])\<rparr>))"
    using g un ga mem assms(6) vp(2) by (simp add: SYS_UnmapPage_def Let_def AddrToPage_PageToAddr)
  note wf = vmap_unmap [OF s(3) vp(1)]
  show ?thesis
  proof (cases "p \<in> owned_pages tk")
    case True
    with RemoveOwnedPage_cases [OF s(1) own_invD(1) [OF assms(1)] own_invD(2) [OF assms(1) s(1)] b] u
    obtain tk' m where rm: "RemoveOwnedPage k t ?p = Inr ((set_task k t tk')\<lparr>pmm_of := m\<rparr>)" "owned_pages tk' = owned_pages tk - {p}"
      "used_pages m = used_pages (pmm_of k) - {p}" by auto
    have pd': "task_pd tk' = task_pd tk"
      using rm(1) s(1) by (auto simp: RemoveOwnedPage_def get_task_def split: option.splits dest!: set_task_pmm_inj)
    let ?k1 = "(set_task k t tk')\<lparr>pmm_of := m\<rparr>"
    let ?k' = "?k1\<lparr>paging_of := store_pd (paging_of ?k1) (task_pd tk) (pd[v := 0])\<rparr>"
    have "own_inv ?k1" by (rule own_inv_Remove [OF assms(1) rm(1) b])
    then have "own_inv ?k'" by (rule own_inv_cong [rotated]) simp
    moreover have "task_space ?k' t tk' (pd[v := 0])" using wf(2) pd' by (simp add: task_space_def)
    ultimately show ?thesis using sys True rm wf(1) by (intro exI [of _ ?k'] exI [of _ tk']) simp
  next
    case False
    let ?k' = "k\<lparr>paging_of := store_pd (paging_of k) (task_pd tk) (pd[v := 0])\<rparr>"
    have "own_inv ?k'" by (rule own_inv_cong [OF _ assms(1)]) simp
    moreover have "task_space ?k' t tk (pd[v := 0])" using wf(2) s(1) by (simp add: task_space_def)
    ultimately show ?thesis using sys False wf(1) by (intro exI [of _ ?k'] exI [of _ tk]) simp
  qed
qed

lemma example_space:
  "\<not> next_free_spec (used_pages (pmm_of example_kernel)) (8 * (gNum4MPages (pmm_of example_kernel) div 8)) < 0"
  "GetCurrentTask example_kernel = Inr 0x200"
  "task_space example_kernel 0x200 (example_task True 0xA000 (HeapPD 0x1000) [5] [] [0x300]) empty_dir"
  "is_user (example_task True 0xA000 (HeapPD 0x1000) [5] [] [0x300])"
  "0 \<in> set (owned_phys_pages (example_task True 0xA000 (HeapPD 0x1000) [5] [] [0x300]))" "0 \<in> used_pages (pmm_of example_kernel)"
  "\<not> {1..<1024} \<subseteq> dom (vmap empty_dir)"
proof -
  have d: "pds (paging_of example_kernel) (HeapPD 0x1000) = Some empty_dir" by (simp add: example_kernel_def empty_dir_def)
  show "\<not> next_free_spec (used_pages (pmm_of example_kernel)) (8 * (gNum4MPages (pmm_of example_kernel) div 8)) < 0"
    by (simp add: next_free_spec_def example_pmm(2)) (auto simp: example_kernel_def intro!: exI [of _ 6])
  show "GetCurrentTask example_kernel = Inr 0x200" by (simp add: GetCurrentTask_def node_get_def deref_def example_kernel_def)
  show "task_space example_kernel 0x200 (example_task True 0xA000 (HeapPD 0x1000) [5] [] [0x300]) empty_dir"
    using d empty_dir_facts(1) by (simp add: task_space_def example_at)
  show "\<not> {1..<1024} \<subseteq> dom (vmap empty_dir)" by (simp add: empty_dir_facts(2))
qed (simp_all add: kMaxPages_def example_pmm(2))

text \<open>The call behind its checks: some free virtual page is mapped to the lowest free physical page, then the page is recorded.\<close>

lemma AllocPage_reaches:
  assumes inv: "own_inv k" and t: "(if r_edx r AND ALLOC_CURRENT \<noteq> 0 then GetCurrentTask k else Inr (r_ecx r)) = Inr t" and ts: "task_space k t tk pd"
    and p: "next_free_spec (used_pages (pmm_of k)) (8 * (gNum4MPages (pmm_of k) div 8)) = int p"
    and an: "r_edx r AND ALLOC_ANON \<noteq> 0 \<Longrightarrow> \<not> {1..<1024} \<subseteq> dom (vmap pd)"
    and na: "r_edx r AND ALLOC_ANON = 0 \<Longrightarrow> r_ebx r = PageToAddr v \<and> v < 1024 \<and> v \<notin> dom (vmap pd)"
  shows "\<exists>w < 1024. w \<notin> dom (vmap pd) \<and> SYS_AllocPage e k r = alloc_at k r t (PageToAddr w) (int p)"
proof -
  have pm: "pmm_wf (pmm_of k)" by (rule own_invD(1) [OF inv])
  have s: "tasks k t = Some tk" "pds (paging_of k) (task_pd tk) = Some pd" "pd_wf pd" using ts by (simp_all add: task_space_def)
  have g: "get_task k t = Inr tk" "load_pd (paging_of k) (task_pd tk) = Inr pd" using s by (simp_all add: get_task_def load_pd_def)
  show ?thesis
  proof (cases "r_edx r AND ALLOC_ANON \<noteq> 0")
    case True
    obtain w where w: "getNextFreePage pd 1 = int w" "w < 1024" "w \<notin> dom (vmap pd)" using getNextFreePage_spec [OF s(3), of 1] an [OF True] by auto
    then have "SYS_AllocPage e k r = alloc_at k r t (PageToAddr w) (int p)"
      using True t g p by (simp add: SYS_AllocPage_def Let_def GetNextFreePage_wf [OF pm] FREE_PAGE_LOWER_BOUND_def)
    then show ?thesis using w(2,3) by blast
  next
    case False
    then have v: "r_ebx r = PageToAddr v" "v < 1024" "v \<notin> dom (vmap pd)" using na by simp_all
    then have "SYS_AllocPage e k r = alloc_at k r t (PageToAddr v) (int p)"
      using False t g p VaddrIsMapped_page [OF s(3) v(2)] by (simp add: SYS_AllocPage_def Let_def GetNextFreePage_wf [OF pm])
    then show ?thesis using v(2,3) by blast
  qed
qed

lemma alloc_at_faults:
  assumes inv: "own_inv k" and ts: "task_space k t tk pd" and w: "w < 1024" "w \<notin> dom (vmap pd)" and p: "p < 1024" "p \<notin> used_pages (pmm_of k)"
  shows "\<not> is_user tk \<Longrightarrow> alloc_at k r t (PageToAddr w) (int p) = Inl Assert_failed"
    "is_user tk \<Longrightarrow> 0 \<notin> set (owned_phys_pages tk) \<Longrightarrow> alloc_at k r t (PageToAddr w) (int p) = Inl Abort_called"
    "is_user tk \<Longrightarrow> 0 \<in> set (owned_phys_pages tk) \<Longrightarrow> p = 0 \<Longrightarrow> alloc_at k r t (PageToAddr w) (int p) = Inl Assert_failed"
proof -
  let ?pd = "pd[w := mk_entry p PG_USER]"
  let ?k1 = "k\<lparr>paging_of := store_pd (paging_of k) (task_pd tk) ?pd\<rparr>"
  have s: "tasks k t = Some tk" "pds (paging_of k) (task_pd tk) = Some pd" "pd_wf pd" using ts by (simp_all add: task_space_def)
  have g: "get_task k t = Inr tk" "load_pd (paging_of k) (task_pd tk) = Inr pd" "get_task ?k1 t = Inr tk" using s by (simp_all add: get_task_def load_pd_def)
  have m: "MapPage pd (PageToAddr w) (PageToAddr p) PG_USER = Inr ?pd" using MapPage_page [OF s(3) w(1) p(1)] w(2) by simp
  have v: "vmap ?pd w = Some p" "pd_wf ?pd" using vmap_map [OF s(3) w(1) p(1)] by simp_all
  have ga: "getPhysicalAddr ?pd (PageToAddr w) = Inr (PageToAddr p)" using getPhysicalAddr_page [OF v(2) w(1)] v(1) by simp
  have u: "unat (word_of_nat p :: u32) = p" using p(1) by (simp add: unat_of_nat_u32)
  show "\<not> is_user tk \<Longrightarrow> alloc_at k r t (PageToAddr w) (int p) = Inl Assert_failed" using g m by (simp add: alloc_at_def Let_def check_def)
  have rc: "is_user tk \<Longrightarrow> RecordOwnedPage ?k1 t (word_of_nat p) = Inl e \<Longrightarrow> alloc_at k r t (PageToAddr w) (int p) = Inl e" for e
    using g m ga p(1) by (simp add: alloc_at_def Let_def AddrToPage_PageToAddr)
  have ok: "tasks ?k1 t = Some tk" "pmm_wf (pmm_of ?k1)" "owned_ok (pmm_of ?k1) tk" "unat (word_of_nat p :: u32) < kNumPageDirEntries"
    using s(1) own_invD [OF inv] u p(1) by (simp_all add: kNumPageDirEntries_def)
  have no: "p \<notin> owned_pages tk" using ok(3) p(2) by (auto simp: owned_ok_def)
  show "alloc_at k r t (PageToAddr w) (int p) = Inl Abort_called" if "is_user tk" "0 \<notin> set (owned_phys_pages tk)"
  proof (rule rc [OF that(1)])
    have "\<not> PageIsRecorded tk (word_of_nat p)" using that(2) no owned_mem [of "word_of_nat p :: u32" tk] u by (auto simp: PageIsRecorded_def)
    moreover have "replace_first 0 x (owned_phys_pages tk) = None" for x using replace_first_not_in [OF that(2)] by simp
    ultimately show "RecordOwnedPage ?k1 t (word_of_nat p) = Inl Abort_called" using g(3) by (simp add: RecordOwnedPage_def)
  qed
  show "alloc_at k r t (PageToAddr w) (int p) = Inl Assert_failed" if "is_user tk" "0 \<in> set (owned_phys_pages tk)" "p = 0"
    by (rule rc [OF that(1)]) (use RecordOwnedPage_cases [OF ok] that(2,3) in simp)
qed



text \<open>\<open>AllocPage\<close> followed by \<open>UnmapPage\<close> of the address it returned gives back what was taken: the same physical
  pages are used, the task owns the same pages and its address space has the same mappings as before.\<close>

theorem alloc_unmap_round_trip:
  assumes "own_inv k" "GetCurrentTask k = Inr t" "task_space k t tk pd" "is_user tk" "0 \<in> set (owned_phys_pages tk)" "0 \<in> used_pages (pmm_of k)"
    "r_edx r = ALLOC_ANON OR ALLOC_CURRENT" "SYS_AllocPage e k r = Inr (Return, r1, k1)" "r_eax r1 = K_OK"
  shows "\<exists>k2 tk2 pd2. SYS_UnmapPage e k1 r1 = Inr (Return, r1, k2) \<and> own_inv k2 \<and> used_pages (pmm_of k2) = used_pages (pmm_of k)
    \<and> task_space k2 t tk2 pd2 \<and> owned_pages tk2 = owned_pages tk \<and> vmap pd2 = vmap pd"
proof -
  have fl: "r_edx r AND ALLOC_CURRENT \<noteq> 0" "r_edx r AND ALLOC_ANON \<noteq> 0" using assms(7) by (simp_all add: ALLOC_CURRENT_def ALLOC_ANON_def)
  then have cur: "(if r_edx r AND ALLOC_CURRENT \<noteq> 0 then GetCurrentTask k else Inr (r_ecx r)) = Inr t" using assms(2) by simp
  have anon: "True \<longleftrightarrow> r_edx r AND ALLOC_ANON \<noteq> 0" using fl(2) by simp
  have ad: "True \<or> r_ebx r = PageToAddr 0 \<and> 0 < (1024 :: nat)" by simp
  note spec = AllocPage_cases [OF assms(1) cur assms(3-6) anon ad, of e]
  have st: "K_OK \<noteq> K_OOM_PHYS" "K_OK \<noteq> K_OOM_VIRT" by (simp_all add: K_OK_def K_OOM_PHYS_def K_OOM_VIRT_def)
  have ne: "SYS_AllocPage e k r \<noteq> Inr (Return, r\<lparr>r_eax := K_OOM_PHYS\<rparr>, k)" "SYS_AllocPage e k r \<noteq> Inr (Return, r\<lparr>r_eax := K_OOM_VIRT\<rparr>, k)"
    using assms(8,9) st by auto
  have "\<not> next_free_spec (used_pages (pmm_of k)) (8 * (gNum4MPages (pmm_of k) div 8)) < 0" by (rule notI, use spec ne(1) in \<open>simp only: if_True\<close>)
  note spec = spec [unfolded if_not_P [OF this]]
  have "\<not> (True \<and> {1..<1024} \<subseteq> dom (vmap pd))" "\<not> (\<not> True \<and> 0 \<in> dom (vmap pd))" using spec ne(2) by (auto split: if_split_asm)
  from spec [unfolded if_not_P [OF this(1)] if_not_P [OF this(2)]]
  obtain w p k' where w: "SYS_AllocPage e k r = Inr (Return, r\<lparr>r_eax := K_OK, r_ebx := PageToAddr w\<rparr>, k')" "own_inv k'" "page_added k t tk pd w p k'" by blast
  then have k1: "r1 = r\<lparr>r_eax := K_OK, r_ebx := PageToAddr w\<rparr>" "k1 = k'" using assms(8) by simp_all
  from w(3) obtain tk' pd' where "task_space k1 t tk' pd'" "vmap pd' = (vmap pd)(w \<mapsto> p)" "owned_pages tk' = insert p (owned_pages tk)"
    unfolding page_added_def k1(2) by blast
  moreover have "own_inv k1" "w < 1024" "w \<notin> dom (vmap pd)" "p \<notin> used_pages (pmm_of k)" "used_pages (pmm_of k1) = insert p (used_pages (pmm_of k))"
    "gTaskQueue k1 = gTaskQueue k" "task_nodes k1 = task_nodes k" using w(2,3) unfolding page_added_def k1(2) by blast+
  ultimately have a: "r1 = r\<lparr>r_eax := K_OK, r_ebx := PageToAddr w\<rparr>" "own_inv k1" "w < 1024" "w \<notin> dom (vmap pd)" "p \<notin> used_pages (pmm_of k)"
      "task_space k1 t tk' pd'" "vmap pd' = (vmap pd)(w \<mapsto> p)" "owned_pages tk' = insert p (owned_pages tk)"
      "used_pages (pmm_of k1) = insert p (used_pages (pmm_of k))" "gTaskQueue k1 = gTaskQueue k" "task_nodes k1 = task_nodes k"
    using k1(1) by blast+
  have c: "GetCurrentTask k1 = Inr t" using assms(2) a(10,11) by (simp add: GetCurrentTask_def)
  have p0: "p \<noteq> 0" using a(5) assms(6) by metis
  have po: "p \<notin> owned_pages tk" using own_invD(2) [OF assms(1)] assms(3) a(5) by (auto simp: owned_ok_def task_space_def)
  have v: "vmap pd' w = Some p" "r_ebx r1 = PageToAddr w" using a(1,7) by simp_all
  from UnmapPage_cases [OF a(2) c a(6) v(1) p0 v(2), of e] obtain k2 tk2 where u: "SYS_UnmapPage e k1 r1 = Inr (Return, r1, k2)" "own_inv k2"
    "task_space k2 t tk2 (pd'[w := 0])" "vmap (pd'[w := 0]) = (vmap pd')(w := None)" "owned_pages tk2 = owned_pages tk' - {p}"
    "used_pages (pmm_of k2) = (if p \<in> owned_pages tk' then used_pages (pmm_of k1) - {p} else used_pages (pmm_of k1))" by blast
  have "vmap (pd'[w := 0]) = vmap pd" using u(4) a(4,7) by (simp add: fun_upd_idem domIff)
  moreover have "owned_pages tk2 = owned_pages tk" using u(5) a(8) po by simp
  moreover have "used_pages (pmm_of k2) = used_pages (pmm_of k)" using u(6) a(5,8,9) by simp
  ultimately show ?thesis using u(1-3) by blast
qed

theorem alloc_unmap_round_trip_witness:
  "\<exists>r1 k1 k2. SYS_AllocPage example_env example_kernel ((task_init_regs True)\<lparr>r_edx := ALLOC_ANON OR ALLOC_CURRENT\<rparr>) = Inr (Return, r1, k1)
    \<and> SYS_UnmapPage example_env k1 r1 = Inr (Return, r1, k2) \<and> used_pages (pmm_of k2) = {..<6}"
proof -
  let ?r = "(task_init_regs True)\<lparr>r_edx := ALLOC_ANON OR ALLOC_CURRENT\<rparr>" and ?tk = "example_task True 0xA000 (HeapPD 0x1000) [5] [] [0x300]"
  note u = example_space
  have ad: "True \<or> r_ebx ?r = PageToAddr 0 \<and> 0 < (1024 :: nat)" by simp
  have "(if r_edx ?r AND ALLOC_CURRENT \<noteq> 0 then GetCurrentTask example_kernel else Inr (r_ecx ?r)) = Inr 0x200" "True \<longleftrightarrow> r_edx ?r AND ALLOC_ANON \<noteq> 0"
    using u(2) by (simp_all add: ALLOC_CURRENT_def ALLOC_ANON_def)
  note a = AllocPage_cases [OF example_own_inv this(1) u(3,4,5,6) this(2) ad, of example_env, unfolded if_not_P [OF u(1)]]
  have "\<not> (True \<and> {1..<1024} \<subseteq> dom (vmap empty_dir))" "\<not> (\<not> True \<and> 0 \<in> dom (vmap empty_dir))" using u(7) by blast+
  from a [unfolded if_not_P [OF this(1)] if_not_P [OF this(2)]]
  obtain r1 k1 where a: "SYS_AllocPage example_env example_kernel ?r = Inr (Return, r1, k1)" "r_eax r1 = K_OK" by auto
  from alloc_unmap_round_trip [OF example_own_inv u(2-6) _ a] a show ?thesis by (auto simp: example_pmm(2))
qed

end
