(* ===== verification/UserSys.thy ===== *)
theory UserSys
  imports Syscall_Props ByteMem
begin

text \<open>
  The system calls as user programs make them, \<open>src/userboot/syscalls.cpp\<close> and \<open>include/syscalls.h\<close>, with the functions of the C library that are loops
  around them: \<open>ChannelReadBlocking\<close>, \<open>getchar\<close> (\<open>stdio.cpp\<close>) and \<open>wait\<close> (\<open>wait.cpp\<close>). A stub loads the registers and raises interrupt \<open>0x80\<close>, so it is
  \<open>ExceptionDispatcher\<close> on a frame with these registers; what it returns is in the registers of the frame afterwards. \<open>r\<close> has the other registers.
\<close>

section \<open>Numbers\<close>

definition nr_DebugWrite :: u32 where "nr_DebugWrite = 0"
definition nr_ProcessKill :: u32 where "nr_ProcessKill = 1"
definition nr_AllocPage :: u32 where "nr_AllocPage = 2"
definition nr_PageSize :: u32 where "nr_PageSize = 3"
definition nr_ProcessCreate :: u32 where "nr_ProcessCreate = 4"
definition nr_MapPage :: u32 where "nr_MapPage = 5"
definition nr_ProcessStart :: u32 where "nr_ProcessStart = 6"
definition nr_UnmapPage :: u32 where "nr_UnmapPage = 7"
definition nr_ProcessInfo :: u32 where "nr_ProcessInfo = 8"
definition nr_DebugRead :: u32 where "nr_DebugRead = 9"
definition nr_ProcessWait :: u32 where "nr_ProcessWait = 10"
definition nr_ChannelCreate :: u32 where "nr_ChannelCreate = 11"
definition nr_HandleClose :: u32 where "nr_HandleClose = 12"
definition nr_ChannelRead :: u32 where "nr_ChannelRead = 13"
definition nr_ChannelWrite :: u32 where "nr_ChannelWrite = 14"
definition nr_TransferHandle :: u32 where "nr_TransferHandle = 15"

definition TASK_TERMINATED :: u32 where "TASK_TERMINATED = 4"

section \<open>Stubs\<close>

definition int80 :: handler where
  "int80 e k r = ExceptionDispatcher e k (r\<lparr>r_int_no := 0x80\<rparr>)"

definition sys_DebugWrite :: "sys_env \<Rightarrow> kernel \<Rightarrow> registers \<Rightarrow> u32 \<Rightarrow> u32 \<Rightarrow> (ctl \<times> registers \<times> kernel) result" where
  "sys_DebugWrite e k r str sz = int80 e k (r\<lparr>r_eax := nr_DebugWrite, r_ebx := str, r_ecx := sz\<rparr>)"

definition sys_ProcessKill :: "sys_env \<Rightarrow> kernel \<Rightarrow> registers \<Rightarrow> u32 \<Rightarrow> (ctl \<times> registers \<times> kernel) result" where
  "sys_ProcessKill e k r retval = int80 e k (r\<lparr>r_eax := nr_ProcessKill, r_ebx := retval\<rparr>)"

text \<open>Status in \<open>eax\<close>, address in \<open>ebx\<close>.\<close>

definition sys_AllocPage :: "sys_env \<Rightarrow> kernel \<Rightarrow> registers \<Rightarrow> u32 \<Rightarrow> u32 \<Rightarrow> u32 \<Rightarrow> (ctl \<times> registers \<times> kernel) result" where
  "sys_AllocPage e k r page_addr proc_handle flags =
     int80 e k (r\<lparr>r_eax := nr_AllocPage, r_ebx := page_addr, r_ecx := proc_handle, r_edx := flags\<rparr>)"

definition sys_PageSize :: "sys_env \<Rightarrow> kernel \<Rightarrow> registers \<Rightarrow> (ctl \<times> registers \<times> kernel) result" where
  "sys_PageSize e k r = int80 e k (r\<lparr>r_eax := nr_PageSize\<rparr>)"

text \<open>Status in \<open>eax\<close>, handle in \<open>ebx\<close>.\<close>

definition sys_ProcessCreate :: "sys_env \<Rightarrow> kernel \<Rightarrow> registers \<Rightarrow> (ctl \<times> registers \<times> kernel) result" where
  "sys_ProcessCreate e k r = int80 e k (r\<lparr>r_eax := nr_ProcessCreate\<rparr>)"

text \<open>Status in \<open>eax\<close>, the other address in \<open>ebx\<close>.\<close>

definition sys_MapPage :: "sys_env \<Rightarrow> kernel \<Rightarrow> registers \<Rightarrow> u32 \<Rightarrow> u32 \<Rightarrow> u32 \<Rightarrow> u32 \<Rightarrow> (ctl \<times> registers \<times> kernel) result" where
  "sys_MapPage e k r vaddr other_proc other_vaddr flags =
     int80 e k (r\<lparr>r_eax := nr_MapPage, r_ebx := vaddr, r_ecx := other_proc, r_edx := other_vaddr, r_esi := flags\<rparr>)"

definition sys_ProcessStart :: "sys_env \<Rightarrow> kernel \<Rightarrow> registers \<Rightarrow> u32 \<Rightarrow> u32 \<Rightarrow> u32 \<Rightarrow> (ctl \<times> registers \<times> kernel) result" where
  "sys_ProcessStart e k r proc entry arg = int80 e k (r\<lparr>r_eax := nr_ProcessStart, r_ebx := proc, r_ecx := entry, r_edx := arg\<rparr>)"

definition sys_UnmapPage :: "sys_env \<Rightarrow> kernel \<Rightarrow> registers \<Rightarrow> u32 \<Rightarrow> (ctl \<times> registers \<times> kernel) result" where
  "sys_UnmapPage e k r page_addr = int80 e k (r\<lparr>r_eax := nr_UnmapPage, r_ebx := page_addr\<rparr>)"

definition sys_DebugRead :: "sys_env \<Rightarrow> kernel \<Rightarrow> registers \<Rightarrow> u32 \<Rightarrow> (ctl \<times> registers \<times> kernel) result" where
  "sys_DebugRead e k r c = int80 e k (r\<lparr>r_eax := nr_DebugRead, r_ebx := c\<rparr>)"

text \<open>Status in \<open>eax\<close>, the signal in \<open>ebx\<close>, its value in \<open>ecx\<close>.\<close>

definition sys_ProcessWait :: "sys_env \<Rightarrow> kernel \<Rightarrow> registers \<Rightarrow> u32 \<Rightarrow> u32 \<Rightarrow> (ctl \<times> registers \<times> kernel) result" where
  "sys_ProcessWait e k r proc signals = int80 e k (r\<lparr>r_eax := nr_ProcessWait, r_ebx := proc, r_ecx := signals\<rparr>)"

text \<open>Status in \<open>eax\<close>, the number of bytes in \<open>ebx\<close>.\<close>

definition sys_ProcessInfo :: "sys_env \<Rightarrow> kernel \<Rightarrow> registers \<Rightarrow> u32 \<Rightarrow> u32 \<Rightarrow> u32 \<Rightarrow> u32 \<Rightarrow> (ctl \<times> registers \<times> kernel) result" where
  "sys_ProcessInfo e k r proc knd dst buffer_size =
     int80 e k (r\<lparr>r_eax := nr_ProcessInfo, r_ebx := proc, r_ecx := knd, r_edx := dst, r_esi := buffer_size\<rparr>)"

text \<open>The endpoints in \<open>eax\<close> and \<open>ebx\<close>.\<close>

definition sys_ChannelCreate :: "sys_env \<Rightarrow> kernel \<Rightarrow> registers \<Rightarrow> (ctl \<times> registers \<times> kernel) result" where
  "sys_ChannelCreate e k r = int80 e k (r\<lparr>r_eax := nr_ChannelCreate\<rparr>)"

definition sys_HandleClose :: "sys_env \<Rightarrow> kernel \<Rightarrow> registers \<Rightarrow> u32 \<Rightarrow> (ctl \<times> registers \<times> kernel) result" where
  "sys_HandleClose e k r handle = int80 e k (r\<lparr>r_eax := nr_HandleClose, r_ebx := handle\<rparr>)"

text \<open>Status in \<open>eax\<close>, the number of bytes that are there in \<open>ebx\<close>.\<close>

definition sys_ChannelRead :: "sys_env \<Rightarrow> kernel \<Rightarrow> registers \<Rightarrow> u32 \<Rightarrow> u32 \<Rightarrow> u32 \<Rightarrow> (ctl \<times> registers \<times> kernel) result" where
  "sys_ChannelRead e k r ep dst sz = int80 e k (r\<lparr>r_eax := nr_ChannelRead, r_ebx := ep, r_ecx := dst, r_edx := sz\<rparr>)"

definition sys_ChannelWrite :: "sys_env \<Rightarrow> kernel \<Rightarrow> registers \<Rightarrow> u32 \<Rightarrow> u32 \<Rightarrow> u32 \<Rightarrow> (ctl \<times> registers \<times> kernel) result" where
  "sys_ChannelWrite e k r ep src sz = int80 e k (r\<lparr>r_eax := nr_ChannelWrite, r_ebx := ep, r_ecx := src, r_edx := sz\<rparr>)"

definition sys_TransferHandle :: "sys_env \<Rightarrow> kernel \<Rightarrow> registers \<Rightarrow> u32 \<Rightarrow> u32 \<Rightarrow> (ctl \<times> registers \<times> kernel) result" where
  "sys_TransferHandle e k r proc handle = int80 e k (r\<lparr>r_eax := nr_TransferHandle, r_ebx := proc, r_ecx := handle\<rparr>)"

section \<open>Around the stubs\<close>

text \<open>\<open>PageAlloc\<close>: a page for the lifetime of an object. \<open>addr0\<close> is what the field held before.\<close>

definition new_PageAlloc :: "sys_env \<Rightarrow> kernel \<Rightarrow> registers \<Rightarrow> u32 \<Rightarrow> (ctl \<times> registers \<times> kernel) result" where
  "new_PageAlloc e k r addr0 =
     bindr (sys_AllocPage e k r addr0 0 (ALLOC_ANON OR ALLOC_CURRENT)) (\<lambda>(c, r', k').
     if r_eax r' \<noteq> K_OK then Inl Abort_called else Inr (c, r', k'))"

definition PageAlloc_Map :: "sys_env \<Rightarrow> kernel \<Rightarrow> registers \<Rightarrow> u32 \<Rightarrow> u32 \<Rightarrow> u32 \<Rightarrow> u32 \<Rightarrow> (ctl \<times> registers \<times> kernel) result" where
  "PageAlloc_Map e k r addr other_proc other_addr flags = sys_MapPage e k r addr other_proc other_addr flags"

definition MapAnonAndSwap :: "sys_env \<Rightarrow> kernel \<Rightarrow> registers \<Rightarrow> u32 \<Rightarrow> u32 \<Rightarrow> u32 \<Rightarrow> (ctl \<times> registers \<times> kernel) result" where
  "MapAnonAndSwap e k r addr other_proc other_addr = sys_MapPage e k r addr other_proc other_addr (SWAP_OWNER OR MAP_ANON)"

definition delete_PageAlloc :: "sys_env \<Rightarrow> kernel \<Rightarrow> registers \<Rightarrow> u32 \<Rightarrow> (ctl \<times> registers \<times> kernel) result" where
  "delete_PageAlloc e k r addr = sys_UnmapPage e k r addr"

text \<open>\<open>others\<close> is what the rest of the system does before each try.\<close>

fun ChannelReadBlocking :: "nat \<Rightarrow> (kernel \<Rightarrow> kernel) \<Rightarrow> sys_env \<Rightarrow> kernel \<Rightarrow> registers \<Rightarrow> u32 \<Rightarrow> u32 \<Rightarrow> u32 \<Rightarrow> (ctl \<times> registers \<times> kernel) result" where
  "ChannelReadBlocking 0 others e k r ch dst sz = Inl Out_of_fuel"
| "ChannelReadBlocking (Suc fuel) others e k r ch dst sz =
     bindr (sys_ChannelRead e (others k) r ch dst sz) (\<lambda>(c, r', k').
     if r_eax r' \<noteq> K_OK then ChannelReadBlocking fuel others e k' r' ch dst sz else Inr (c, r', k'))"

text \<open>\<open>keys\<close> has what the serial port holds at each try; the key is stored at \<open>c\<close>.\<close>

fun getchar_loop :: "sys_env \<Rightarrow> u8 option list \<Rightarrow> kernel \<Rightarrow> registers \<Rightarrow> u32 \<Rightarrow> (u8 option list \<times> registers \<times> kernel) result" where
  "getchar_loop e [] k r c = Inl Out_of_fuel"
| "getchar_loop e (key # keys) k r c =
     bindr (sys_DebugRead (e\<lparr>env_serial := key\<rparr>) k r c) (\<lambda>(_, r', k').
     if r_eax r' \<noteq> K_OK then getchar_loop e keys k' r' c else Inr (keys, r', k'))"

definition getchar :: "sys_env \<Rightarrow> u8 option list \<Rightarrow> kernel \<Rightarrow> registers \<Rightarrow> u32 \<Rightarrow> (int \<times> u8 option list \<times> registers \<times> kernel) result" where
  "getchar e keys k r c =
     bindr (getchar_loop e keys k r c) (\<lambda>(keys', r', k'). bindr (vread (paging_of k') c) (\<lambda>b. Inr (sint b, keys', r', k')))"

definition load32 :: "kernel \<Rightarrow> u32 \<Rightarrow> u32 result" where
  "load32 k a = bindr (read_words (paging_of k) a 4) (\<lambda>bs. Inr (word32 bs))"

text \<open>What \<open>wait\<close> does when the last call has returned: the registers have the status, the signal and its value.\<close>

definition wait_end :: "registers \<Rightarrow> int result" where
  "wait_end r = check (r_eax r = K_OK \<or> r_eax r = K_INVALID_HANDLE) (check (r_ebx r = TASK_TERMINATED) (Inr (sint (r_ecx r))))"

text \<open>\<open>this_loc\<close> and \<open>children\<close> are where the local variable and the array are. Either there is no child, or the answer is that of the last call.\<close>

definition wait_start :: "(kernel \<Rightarrow> kernel) \<Rightarrow> sys_env \<Rightarrow> kernel \<Rightarrow> registers \<Rightarrow> u32 \<Rightarrow> u32 \<Rightarrow> (bool \<times> ctl \<times> registers \<times> kernel) result" where
  "wait_start others e k r this_loc children =
     bindr (sys_ProcessInfo e k r 0 PROC_CURRENT this_loc 4) (\<lambda>(_, r1, k1). check (r_eax r1 = K_OK)
     (bindr (load32 k1 this_loc) (\<lambda>this_handle.
      bindr (sys_ProcessInfo e k1 r1 this_handle PROC_CHILDREN 0 0) (\<lambda>(c2, r2, k2).
      if r_eax r2 = K_OK then check (r_ebx r2 = 0) (Inr (False, c2, r2, k2))
      else check (r_eax r2 = K_BUFFER_TOO_SMALL) (check (r_ebx r2 \<ge> 4) (check (r_ebx r2 mod 4 = 0)
        (bindr (sys_ProcessInfo e k2 r2 this_handle PROC_CHILDREN children (r_ebx r2)) (\<lambda>(_, r3, k3). check (r_eax r3 = K_OK)
        (bindr (load32 k3 children) (\<lambda>child.
         bindr (sys_ProcessWait e (others k3) r3 child TASK_TERMINATED) (\<lambda>(c4, r4, k4). Inr (True, c4, r4, k4))))))))))))"

definition wait :: "(kernel \<Rightarrow> kernel) \<Rightarrow> sys_env \<Rightarrow> kernel \<Rightarrow> registers \<Rightarrow> u32 \<Rightarrow> u32 \<Rightarrow> (ctl \<times> int option \<times> kernel) result" where
  "wait others e k r this_loc children =
     bindr (wait_start others e k r this_loc children) (\<lambda>(waited, c, r', k').
     if \<not> waited then Inr (c, None, k')
     else case c of Return \<Rightarrow> bindr (wait_end r') (\<lambda>v. Inr (c, Some v, k')) | Switch _ \<Rightarrow> Inr (c, None, k'))"


section \<open>The interface of the kernel\<close>

text \<open>A handler of the kernel, entered from a task and left to it.\<close>

definition in_kernel :: "handler \<Rightarrow> handler" where
  "in_kernel h e k r =
     bindr (h e (k\<lparr>gOldPageDir := Some (GetCurrentPageDirectory (paging_of k)), paging_of := SwitchPageDirectory (paging_of k) GetKernelPageDirectory\<rparr>) (r\<lparr>r_int_no := 0x80\<rparr>))
      (\<lambda>(c, r', k2). case c of Switch _ \<Rightarrow> Inr (c, r', k2)
        | Return \<Rightarrow> bindr (GetPageDirBeforeException k2) (\<lambda>old. Inr (Return, r', k2\<lparr>paging_of := SwitchPageDirectory (paging_of k2) old\<rparr>)))"

lemma int80_handler: "unat (r_eax r) < length kSyscallHandlers \<Longrightarrow> int80 e k r = in_kernel (kSyscallHandlers ! unat (r_eax r)) e k r"
  by (simp add: int80_def ExceptionDispatcher_def in_kernel_def dispatch_interrupt_def IRQ0_def kSyscallHandler_def SyscallHandler_def kNumSyscalls_def)

lemmas stub_defs = sys_DebugWrite_def sys_ProcessKill_def sys_AllocPage_def sys_PageSize_def sys_ProcessCreate_def sys_MapPage_def sys_ProcessStart_def
  sys_UnmapPage_def sys_ProcessInfo_def sys_DebugRead_def sys_ProcessWait_def sys_ChannelCreate_def sys_HandleClose_def sys_ChannelRead_def
  sys_ChannelWrite_def sys_TransferHandle_def

lemmas nr_defs = nr_DebugWrite_def nr_ProcessKill_def nr_AllocPage_def nr_PageSize_def nr_ProcessCreate_def nr_MapPage_def nr_ProcessStart_def
  nr_UnmapPage_def nr_ProcessInfo_def nr_DebugRead_def nr_ProcessWait_def nr_ChannelCreate_def nr_HandleClose_def nr_ChannelRead_def
  nr_ChannelWrite_def nr_TransferHandle_def

text \<open>Every stub reaches the handler of its name, with the numbers of the user's header and the table of the kernel.\<close>

lemma stubs_reach_handlers:
  "sys_DebugWrite e k r str sz = in_kernel SYS_DebugWrite e k (r\<lparr>r_eax := 0, r_ebx := str, r_ecx := sz\<rparr>)"
  "sys_ProcessKill e k r retval = in_kernel SYS_ProcessKill e k (r\<lparr>r_eax := 1, r_ebx := retval\<rparr>)"
  "sys_AllocPage e k r a p f = in_kernel SYS_AllocPage e k (r\<lparr>r_eax := 2, r_ebx := a, r_ecx := p, r_edx := f\<rparr>)"
  "sys_PageSize e k r = in_kernel SYS_PageSize e k (r\<lparr>r_eax := 3\<rparr>)"
  "sys_ProcessCreate e k r = in_kernel SYS_ProcessCreate e k (r\<lparr>r_eax := 4\<rparr>)"
  "sys_MapPage e k r a p b f = in_kernel SYS_MapPage e k (r\<lparr>r_eax := 5, r_ebx := a, r_ecx := p, r_edx := b, r_esi := f\<rparr>)"
  "sys_ProcessStart e k r p en ar = in_kernel SYS_ProcessStart e k (r\<lparr>r_eax := 6, r_ebx := p, r_ecx := en, r_edx := ar\<rparr>)"
  "sys_UnmapPage e k r a = in_kernel SYS_UnmapPage e k (r\<lparr>r_eax := 7, r_ebx := a\<rparr>)"
  "sys_ProcessInfo e k r p kd d n = in_kernel SYS_ProcessInfo e k (r\<lparr>r_eax := 8, r_ebx := p, r_ecx := kd, r_edx := d, r_esi := n\<rparr>)"
  "sys_DebugRead e k r c = in_kernel SYS_DebugRead e k (r\<lparr>r_eax := 9, r_ebx := c\<rparr>)"
  "sys_ProcessWait e k r p s = in_kernel SYS_ProcessWait e k (r\<lparr>r_eax := 10, r_ebx := p, r_ecx := s\<rparr>)"
  "sys_ChannelCreate e k r = in_kernel SYS_ChannelCreate e k (r\<lparr>r_eax := 11\<rparr>)"
  "sys_HandleClose e k r h = in_kernel SYS_HandleClose e k (r\<lparr>r_eax := 12, r_ebx := h\<rparr>)"
  "sys_ChannelRead e k r ep d n = in_kernel SYS_ChannelRead e k (r\<lparr>r_eax := 13, r_ebx := ep, r_ecx := d, r_edx := n\<rparr>)"
  "sys_ChannelWrite e k r ep s n = in_kernel SYS_ChannelWrite e k (r\<lparr>r_eax := 14, r_ebx := ep, r_ecx := s, r_edx := n\<rparr>)"
  "sys_TransferHandle e k r p h = in_kernel SYS_TransferHandle e k (r\<lparr>r_eax := 15, r_ebx := p, r_ecx := h\<rparr>)"
  by (simp_all add: stub_defs nr_defs int80_handler kSyscallHandlers_def)

section \<open>Blocks of physical memory\<close>

definition pbytes :: "(u32 \<Rightarrow> u8) \<Rightarrow> nat \<Rightarrow> nat \<Rightarrow> u8 list" where
  "pbytes m P n = map (\<lambda>i. m (word_of_nat (P + i))) [0..<n]"

definition pstore :: "(u32 \<Rightarrow> u8) \<Rightarrow> nat \<Rightarrow> u8 list \<Rightarrow> u32 \<Rightarrow> u8" where
  "pstore m P bs = (\<lambda>x. if P \<le> unat x \<and> unat x < P + length bs then bs ! (unat x - P) else m x)"

text \<open>The physical address of a block of \<open>n\<close> bytes that lies on one page of an address space.\<close>

definition block_at :: "paging \<Rightarrow> pdref \<Rightarrow> u32 \<Rightarrow> nat \<Rightarrow> nat \<Rightarrow> bool" where
  "block_at s d va n P \<longleftrightarrow> (\<exists>pd v p off. pds s d = Some pd \<and> pd_wf pd \<and> vmap pd v = Some p \<and> va = PageToAddr v + word_of_nat off
     \<and> off < 0x400000 \<and> off + n \<le> 0x400000 \<and> P = p * 0x400000 + off)"

lemma pbytes_Suc: "pbytes m P (Suc n) = m (word_of_nat P) # pbytes m (Suc P) n"
  unfolding pbytes_def by (simp add: upt_conv_Cons map_Suc_upt [symmetric] comp_def del: upt_Suc of_nat_add of_nat_Suc)

lemma length_pbytes [simp]: "length (pbytes m P n) = n"
  by (simp add: pbytes_def)

lemma block_bound: "block_at s d va n P \<Longrightarrow> P + n \<le> 4294967296"
  using vmap_bound by (fastforce simp: block_at_def)

lemma read_words_page:
  assumes "pds s (gCurrentPageDir s) = Some pd" "pd_wf pd" "vmap pd v = Some p"
  shows "off + n \<le> 0x400000 \<Longrightarrow> read_words s (PageToAddr v + word_of_nat off) n = Inr (pbytes (phys s) (p * 0x400000 + off) n)"
proof (induction n arbitrary: off)
  case (Suc n)
  have "vread s (PageToAddr v + word_of_nat off) = Inr (phys s (word_of_nat (p * 0x400000 + off)))"
    using assms(1) translate_page [OF assms(2,3), of off] Suc.prems by (simp add: vread_def load_pd_def page_byte del: of_nat_add)
  moreover have "read_words s (PageToAddr v + word_of_nat off + 1) n = Inr (pbytes (phys s) (Suc (p * 0x400000 + off)) n)"
    using Suc.IH [of "Suc off"] Suc.prems by (simp add: ac_simps)
  ultimately show ?case by (simp add: pbytes_Suc)
qed (simp add: pbytes_def)

lemma pstore_Cons: "Suc P + length bs \<le> 4294967296 \<Longrightarrow> pstore (m(word_of_nat P := b)) (Suc P) bs = pstore m P (b # bs)"
proof
  fix x :: u32
  assume P: "Suc P + length bs \<le> 4294967296"
  have e: "x = word_of_nat P \<longleftrightarrow> unat x = P" 
  proof -
    have "word_of_nat (unat x) = x" "P < 4294967296" using P by simp_all
    then show ?thesis by (metis unat_of_nat_u32)
  qed
  show "pstore (m(word_of_nat P := b)) (Suc P) bs x = pstore m P (b # bs) x"
    using e by (cases "unat x = P") (auto simp: pstore_def nth_Cons' Suc_le_eq)
qed

lemma write_bytes_page:
  assumes "pd_wf pd" "vmap pd v = Some p"
  shows "pds s (gCurrentPageDir s) = Some pd \<Longrightarrow> off + length bs \<le> 0x400000 \<Longrightarrow>
    write_bytes s (PageToAddr v + word_of_nat off) bs = Inr (s\<lparr>phys := pstore (phys s) (p * 0x400000 + off) bs\<rparr>)"
proof (induction bs arbitrary: s off)
  case Nil
  have "pstore m P [] = m" for m P by (auto simp: pstore_def fun_eq_iff)
  then show ?case by simp
next
  case (Cons b bs)
  let ?P = "p * 0x400000 + off" let ?s = "s\<lparr>phys := (phys s)(word_of_nat ?P := b)\<rparr>"
  have p: "p < 1024" using vmap_bound assms(2) by blast
  have "vwrite s (PageToAddr v + word_of_nat off) b = Inr ?s"
    using Cons.prems translate_page [OF assms, of off] by (simp add: vwrite_def load_pd_def page_byte del: of_nat_add)
  moreover have "write_bytes ?s (PageToAddr v + word_of_nat off + 1) bs = Inr (?s\<lparr>phys := pstore (phys ?s) (Suc ?P) bs\<rparr>)"
    using Cons.IH [of ?s "Suc off"] Cons.prems by (simp add: ac_simps fun_upd_def)
  moreover have "pstore (phys ?s) (Suc ?P) bs = pstore (phys s) ?P (b # bs)"
    using pstore_Cons [of ?P bs "phys s" b] Cons.prems(2) p by simp
  ultimately show ?case by simp
qed


lemma Memcpy_blocks:
  assumes "pds s (gCurrentPageDir s) = Some cpd" "pd_wf cpd" "card (dom (vmap cpd)) + 2 \<le> 1024"
    and src: "block_at s sp src n Ps" and dst: "block_at s dp dst n Pd" and apart: "Ps + n \<le> Pd \<or> Pd + n \<le> Ps"
  shows "Memcpy s sp dp src dst n = Inr (s\<lparr>phys := pcopy (phys s) Pd Ps n\<rparr>)"
proof -
  from src obtain spd v1 p1 o1 where s: "pds s sp = Some spd" "pd_wf spd" "vmap spd v1 = Some p1" "o1 < 0x400000" "o1 + n \<le> 0x400000"
    "src = PageToAddr v1 + word_of_nat o1" "Ps = p1 * 0x400000 + o1" by (auto simp: block_at_def)
  from dst obtain dpd v2 p2 o2 where d: "pds s dp = Some dpd" "pd_wf dpd" "vmap dpd v2 = Some p2" "o2 < 0x400000" "o2 + n \<le> 0x400000"
    "dst = PageToAddr v2 + word_of_nat o2" "Pd = p2 * 0x400000 + o2" by (auto simp: block_at_def)
  show ?thesis unfolding s(6,7) d(6,7) by (rule Memcpy_pages [OF assms(1-3) s(1-5) d(1-5)]) (use apart s(7) d(7) in simp)
qed

lemma pbytes_pcopy: "d + n \<le> 4294967296 \<Longrightarrow> pbytes (pcopy m d s n) d n = pbytes m s n"
  by (rule nth_equalityI) (auto simp: pbytes_def pcopy_def unat_of_nat_u32 add.commute simp del: of_nat_add)

lemma pbytes_pstore: "P + length bs \<le> 4294967296 \<Longrightarrow> pbytes (pstore m P bs) P (length bs) = bs"
  by (rule nth_equalityI) (auto simp: pbytes_def pstore_def unat_of_nat_u32 simp del: of_nat_add)

lemma read_block: "block_at s (gCurrentPageDir s) va n P \<Longrightarrow> read_words s va n = Inr (pbytes (phys s) P n)"
  using read_words_page by (auto simp: block_at_def)

lemma write_block: "block_at s (gCurrentPageDir s) va (length bs) P \<Longrightarrow> write_bytes s va bs = Inr (s\<lparr>phys := pstore (phys s) P bs\<rparr>)"
  using write_bytes_page by (auto simp: block_at_def)

lemma block_at_simps [simp]:
  "block_at (s\<lparr>gCurrentPageDir := d'\<rparr>) d va n P = block_at s d va n P" "block_at (s\<lparr>phys := m\<rparr>) d va n P = block_at s d va n P"
  by (simp_all add: block_at_def)

section \<open>Messages between tasks\<close>

text \<open>The kernel can serve a call that moves \<open>n\<close> bytes: there is a buffer at \<open>Pb\<close>, and room for the two temporary mappings.\<close>

definition can_move :: "sys_env \<Rightarrow> paging \<Rightarrow> nat \<Rightarrow> nat \<Rightarrow> bool" where
  "can_move e s n Pb \<longleftrightarrow> (\<forall>m. env_mok e m) \<and> block_at s KernelPD (env_buf e) n Pb
     \<and> (\<exists>kpd. pds s KernelPD = Some kpd \<and> pd_wf kpd \<and> card (dom (vmap kpd)) + 2 \<le> 1024)"

lemma ChannelWrite_moves:
  assumes mv: "can_move e (paging_of k) (unat sz) Pb" and src: "block_at (paging_of k) (gCurrentPageDir (paging_of k)) src (unat sz) Ps"
    and apart: "Ps + unat sz \<le> Pb \<or> Pb + unat sz \<le> Ps"
    and ch: "Endpoint_Write (env_mok e) (chans_of k) ep (pbytes (phys (paging_of k)) Ps (unat sz)) = Inr v"
  shows "\<exists>r' m. sys_ChannelWrite e k r ep src sz =
      Inr (Return, r', k\<lparr>chans_of := v, paging_of := (paging_of k)\<lparr>phys := m\<rparr>, gOldPageDir := Some (gCurrentPageDir (paging_of k))\<rparr>)
    \<and> (\<forall>x. \<not> (Pb \<le> unat x \<and> unat x < Pb + unat sz) \<longrightarrow> m x = phys (paging_of k) x)"
proof -
  let ?p = "paging_of k" and ?n = "unat sz" let ?m = "pcopy (phys ?p) Pb Ps ?n" and ?d = "gCurrentPageDir ?p"
  let ?s = "?p\<lparr>gCurrentPageDir := KernelPD\<rparr>"
  have nb: "new_buffer e sz = env_buf e" using mv by (simp add: new_buffer_def can_move_def)
  have bb: "block_at ?p KernelPD (env_buf e) ?n Pb" using mv by (simp add: can_move_def)
  obtain kpd where kpd: "pds ?s (gCurrentPageDir ?s) = Some kpd" "pd_wf kpd" "card (dom (vmap kpd)) + 2 \<le> 1024" using mv by (auto simp: can_move_def)
  have cp: "Memcpy ?s ?d KernelPD src (env_buf e) ?n = Inr (?s\<lparr>phys := ?m\<rparr>)"
    using Memcpy_blocks [OF kpd, of ?d src ?n Ps KernelPD "env_buf e" Pb] src bb apart by simp
  have "block_at (?s\<lparr>phys := ?m\<rparr>) (gCurrentPageDir (?s\<lparr>phys := ?m\<rparr>)) (env_buf e) ?n Pb" using bb by simp
  from read_block [OF this] have rd: "read_words (?s\<lparr>phys := ?m\<rparr>) (env_buf e) ?n = Inr (pbytes (phys ?p) Ps ?n)"
    using block_bound [OF bb] by (simp add: pbytes_pcopy)
  let ?r = "r\<lparr>r_eax := 14, r_ebx := ep, r_ecx := src, r_edx := sz, r_int_no := 0x80\<rparr>"
  let ?k = "k\<lparr>gOldPageDir := Some ?d, paging_of := ?s\<rparr>"
  have "SYS_ChannelWrite e ?k ?r = Inr (Return, ?r, ?k\<lparr>chans_of := v, paging_of := ?s\<lparr>phys := ?m\<rparr>\<rparr>)"
    using nb cp rd ch by (simp add: SYS_ChannelWrite_def Let_def GetPageDirBeforeException_def Memcpy_from_def GetCurrentPageDirectory_def)
  then have "sys_ChannelWrite e k r ep src sz =
      Inr (Return, ?r, k\<lparr>chans_of := v, paging_of := ?p\<lparr>phys := ?m\<rparr>, gOldPageDir := Some ?d\<rparr>)"
    by (simp add: stubs_reach_handlers(15) in_kernel_def GetPageDirBeforeException_def SwitchPageDirectory_def GetCurrentPageDirectory_def GetKernelPageDirectory_def)
  moreover have "\<forall>x. \<not> (Pb \<le> unat x \<and> unat x < Pb + ?n) \<longrightarrow> ?m x = phys ?p x" by (simp add: pcopy_def)
  ultimately show ?thesis by blast
qed


lemma ChannelRead_moves:
  assumes mv: "can_move e (paging_of k) (unat sz) Pb" and dst: "block_at (paging_of k) (gCurrentPageDir (paging_of k)) dst (unat sz) Pd"
    and apart: "Pb + unat sz \<le> Pd \<or> Pd + unat sz \<le> Pb"
    and ch: "Endpoint_Read (env_mok e) (chans_of k) ep sz = Inr (True, bs, av, v)" "length bs = unat sz"
  shows "\<exists>r' m. sys_ChannelRead e k r ep dst sz =
      Inr (Return, r', k\<lparr>chans_of := v, paging_of := (paging_of k)\<lparr>phys := m\<rparr>, gOldPageDir := Some (gCurrentPageDir (paging_of k))\<rparr>)
    \<and> r_eax r' = K_OK \<and> pbytes m Pd (unat sz) = bs
    \<and> (\<forall>x. \<not> (Pb \<le> unat x \<and> unat x < Pb + unat sz) \<and> \<not> (Pd \<le> unat x \<and> unat x < Pd + unat sz) \<longrightarrow> m x = phys (paging_of k) x)"
proof -
  let ?p = "paging_of k" and ?n = "unat sz" let ?d = "gCurrentPageDir ?p" and ?m1 = "pstore (phys ?p) Pb bs"
  let ?m = "pcopy ?m1 Pd Pb ?n"
  let ?s = "?p\<lparr>gCurrentPageDir := KernelPD\<rparr>"
  have nb: "new_buffer e sz = env_buf e" using mv by (simp add: new_buffer_def can_move_def)
  have bb: "block_at ?p KernelPD (env_buf e) ?n Pb" using mv by (simp add: can_move_def)
  have wr: "write_bytes ?s (env_buf e) bs = Inr (?s\<lparr>phys := ?m1\<rparr>)" using write_block [of ?s "env_buf e" bs Pb] bb ch(2) by simp
  obtain kpd where kpd: "pds (?s\<lparr>phys := ?m1\<rparr>) (gCurrentPageDir (?s\<lparr>phys := ?m1\<rparr>)) = Some kpd" "pd_wf kpd" "card (dom (vmap kpd)) + 2 \<le> 1024"
    using mv by (auto simp: can_move_def)
  have cp: "Memcpy (?s\<lparr>phys := ?m1\<rparr>) KernelPD ?d (env_buf e) dst ?n = Inr (?s\<lparr>phys := ?m\<rparr>)"
    using Memcpy_blocks [OF kpd, of KernelPD "env_buf e" ?n Pb ?d dst Pd] dst bb apart by simp
  let ?r = "r\<lparr>r_eax := 13, r_ebx := ep, r_ecx := dst, r_edx := sz, r_int_no := 0x80\<rparr>"
  let ?k = "k\<lparr>gOldPageDir := Some ?d, paging_of := ?s\<rparr>"
  have "SYS_ChannelRead e ?k ?r = Inr (Return, ?r\<lparr>r_eax := K_OK\<rparr>, ?k\<lparr>chans_of := v, paging_of := ?s\<lparr>phys := ?m\<rparr>\<rparr>)"
    using nb cp wr ch by (simp add: SYS_ChannelRead_def Let_def GetPageDirBeforeException_def Memcpy_from_def GetCurrentPageDirectory_def)
  then have "sys_ChannelRead e k r ep dst sz =
      Inr (Return, ?r\<lparr>r_eax := K_OK\<rparr>, k\<lparr>chans_of := v, paging_of := ?p\<lparr>phys := ?m\<rparr>, gOldPageDir := Some ?d\<rparr>)"
    by (simp add: stubs_reach_handlers(14) in_kernel_def GetPageDirBeforeException_def SwitchPageDirectory_def GetCurrentPageDirectory_def GetKernelPageDirectory_def)
  moreover have "pbytes ?m Pd ?n = bs"
    using pbytes_pcopy [of Pd ?n ?m1 Pb] pbytes_pstore [of Pb bs "phys ?p"] block_bound [OF dst] block_bound [OF bb] ch(2) by simp
  moreover have "\<forall>x. \<not> (Pb \<le> unat x \<and> unat x < Pb + ?n) \<and> \<not> (Pd \<le> unat x \<and> unat x < Pd + ?n) \<longrightarrow> ?m x = phys ?p x"
    using ch(2) by (simp add: pcopy_def pstore_def)
  ultimately show ?thesis by (intro exI conjI) (assumption, simp_all)
qed

text \<open>C32: A message between two tasks: a task calls \<open>ChannelWrite\<close> with bytes of its address space, the scheduler loads the directory of another task, and
  that one calls \<open>ChannelRead\<close> at the other endpoint. The call succeeds at once, the bytes are then in the address space of the reader, the channel is
  empty again, and apart from the kernel's buffer no other physical memory has changed. Each block lies on one page.\<close>

theorem message_between_tasks:
  assumes "can_move e (paging_of k) (unat sz) Pb" "block_at (paging_of k) (gCurrentPageDir (paging_of k)) src (unat sz) Ps" "block_at (paging_of k) d2 dst (unat sz) Pd"
    and "Ps + unat sz \<le> Pb \<or> Pb + unat sz \<le> Ps" "Pb + unat sz \<le> Pd \<or> Pd + unat sz \<le> Pb"
    and "chan_open i b a a' (chans_of k)" "ep_data (get_ep (chans_of k) i (\<not> b)) = []"
  shows "\<exists>r1 k1 r2 k2. sys_ChannelWrite e k r a src sz = Inr (Return, r1, k1)
    \<and> sys_ChannelRead e (k1\<lparr>paging_of := SwitchPageDirectory (paging_of k1) d2\<rparr>) r' a' dst sz = Inr (Return, r2, k2)
    \<and> r_eax r2 = K_OK \<and> pbytes (phys (paging_of k2)) Pd (unat sz) = pbytes (phys (paging_of k)) Ps (unat sz)
    \<and> chan_open i b a a' (chans_of k2) \<and> ep_data (get_ep (chans_of k2) i (\<not> b)) = [] \<and> pds (paging_of k2) = pds (paging_of k)
    \<and> (\<forall>x. \<not> (Pb \<le> unat x \<and> unat x < Pb + unat sz) \<and> \<not> (Pd \<le> unat x \<and> unat x < Pd + unat sz) \<longrightarrow> phys (paging_of k2) x = phys (paging_of k) x)"
proof -
  let ?n = "unat sz" let ?bs = "pbytes (phys (paging_of k)) Ps ?n" let ?v = "chans_of k"
  have n: "?n < 4294967296" by (rule unat_lt_u32)
  have mok: "\<forall>m. env_mok e m" using assms(1) by (simp add: can_move_def)
  have o: "ch_wf ?v" "i < vsize ?v" "ep_addr ?v i b = a" "ep_addr ?v i (\<not> b) = a'" "other_ep (get_ep ?v i b) \<noteq> 0" using assms(6) by (auto simp: chan_open_def)
  have eq: "env_mok e = (\<lambda>_. True)" using mok by auto
  from chan.put_law [OF assms(6), of ?bs] assms(7) n obtain v where v: "chan_write a ?v ?bs = Inr v" "chan_open i b a a' v"
    "ep_data (get_ep v i (\<not> b)) = ?bs" by auto
  then have wv: "Endpoint_Write (env_mok e) ?v a ?bs = Inr v" by (simp add: chan_write_def eq)
  from ChannelWrite_moves [OF assms(1,2,4) wv, of r] obtain r1 m1 where
    k1: "sys_ChannelWrite e k r a src sz = Inr (Return, r1, k\<lparr>chans_of := v, paging_of := (paging_of k)\<lparr>phys := m1\<rparr>, gOldPageDir := Some (gCurrentPageDir (paging_of k))\<rparr>)"
      (is "_ = Inr (_, _, ?k1)")
    and m1: "\<forall>x. \<not> (Pb \<le> unat x \<and> unat x < Pb + ?n) \<longrightarrow> m1 x = phys (paging_of k) x" by blast
  from chan.get_law [OF v(2), of ?n] v(3) n obtain v2 where v2: "chan_read a' v ?n = Inr (?bs, v2)" "chan_open i b a a' v2" "ep_data (get_ep v2 i (\<not> b)) = []" by auto
  then obtain av where rv: "Endpoint_Read (env_mok e) v a' sz = Inr (True, ?bs, av, v2)" by (auto simp: chan_read_def eq)
  let ?k1' = "?k1\<lparr>paging_of := SwitchPageDirectory (paging_of ?k1) d2\<rparr>"
  have "can_move e (paging_of ?k1') ?n Pb" "block_at (paging_of ?k1') (gCurrentPageDir (paging_of ?k1')) dst ?n Pd" "Endpoint_Read (env_mok e) (chans_of ?k1') a' sz = Inr (True, ?bs, av, v2)"
    using assms(1,3) rv by (simp_all add: can_move_def SwitchPageDirectory_def)
  from ChannelRead_moves [OF this(1,2) assms(5) this(3), of r'] obtain r2 m2 where
    k2: "sys_ChannelRead e ?k1' r' a' dst sz = Inr (Return, r2, ?k1'\<lparr>chans_of := v2, paging_of := (paging_of ?k1')\<lparr>phys := m2\<rparr>, gOldPageDir := Some (gCurrentPageDir (paging_of ?k1'))\<rparr>)"
    and m2: "r_eax r2 = K_OK" "pbytes m2 Pd ?n = ?bs"
      "\<forall>x. \<not> (Pb \<le> unat x \<and> unat x < Pb + ?n) \<and> \<not> (Pd \<le> unat x \<and> unat x < Pd + ?n) \<longrightarrow> m2 x = phys (paging_of ?k1') x" by auto
  have ph: "phys (paging_of ?k1') = m1" by (simp add: SwitchPageDirectory_def)
  show ?thesis
    by (rule exI [of _ r1], rule exI [of _ ?k1], rule exI [of _ r2], rule exI, intro conjI, rule k1, rule k2)
      (use m1 m2 ph v2 in \<open>simp_all add: SwitchPageDirectory_def\<close>)
qed


text \<open>Two tasks with one page each, the kernel's buffer on a third.\<close>

definition example_tasks_kernel :: kernel where
  "example_tasks_kernel = example_kernel\<lparr>chans_of := example_chans, paging_of :=
     \<lparr>pds = [KernelPD \<mapsto> empty_dir[1 := mk_entry 1 0], HeapPD 0x1000 \<mapsto> empty_dir[5 := mk_entry 7 0], HeapPD 0x2000 \<mapsto> empty_dir[6 := mk_entry 8 0]],
      gCurrentPageDir = HeapPD 0x1000, phys = (\<lambda>x. ucast x), cr0 = 0x80000011, cr4 = 0x10\<rparr>\<rparr>"

theorem message_between_tasks_witness:
  "\<exists>r1 k1 r2 k2. sys_ChannelWrite example_env example_tasks_kernel zero_regs 0x1000 0x1400010 3 = Inr (Return, r1, k1)
    \<and> sys_ChannelRead example_env (k1\<lparr>paging_of := SwitchPageDirectory (paging_of k1) (HeapPD 0x2000)\<rparr>) zero_regs 0x1010 0x1800020 3 = Inr (Return, r2, k2)
    \<and> pbytes (phys (paging_of k2)) 0x2000020 3 = [0x10, 0x11, 0x12]"
proof -
  let ?p = "paging_of example_tasks_kernel"
  have v: "pd_wf (empty_dir[v := mk_entry p 0]) \<and> vmap (empty_dir[v := mk_entry p 0]) = [v \<mapsto> p]" if "v < 1024" "p < 1024" for v p
    using vmap_map [OF empty_dir_facts(1), of v p 0] empty_dir_facts(2) that by simp
  have pds: "pds ?p KernelPD = Some (empty_dir[1 := mk_entry 1 0])" "pds ?p (HeapPD 0x1000) = Some (empty_dir[5 := mk_entry 7 0])"
    "pds ?p (HeapPD 0x2000) = Some (empty_dir[6 := mk_entry 8 0])" by (simp_all add: example_tasks_kernel_def)
  have "block_at ?p KernelPD 0x400000 3 0x400000"
    unfolding block_at_def pds using v [of 1 1] by (intro exI [of _ "empty_dir[1 := mk_entry 1 0]"] exI [of _ "1::nat"] exI [of _ "1::nat"] exI [of _ "0::nat"]) (simp add: PageToAddr_def kPageSize4M_def)
  then have mv: "can_move example_env ?p 3 0x400000" using v [of 1 1] pds(1) by (simp add: can_move_def example_env_def)
  have src: "block_at ?p (HeapPD 0x1000) 0x1400010 3 0x1C00010"
    unfolding block_at_def pds using v [of 5 7] by (intro exI [of _ "empty_dir[5 := mk_entry 7 0]"] exI [of _ "5::nat"] exI [of _ "7::nat"] exI [of _ "16::nat"]) (simp add: PageToAddr_def kPageSize4M_def)
  have dst: "block_at ?p (HeapPD 0x2000) 0x1800020 3 0x2000020"
    unfolding block_at_def pds using v [of 6 8] by (intro exI [of _ "empty_dir[6 := mk_entry 8 0]"] exI [of _ "6::nat"] exI [of _ "8::nat"] exI [of _ "32::nat"]) (simp add: PageToAddr_def kPageSize4M_def)
  have ch: "chan_open 0 False 0x1000 0x1010 (chans_of example_tasks_kernel)" "ep_data (get_ep (chans_of example_tasks_kernel) 0 (\<not> False)) = []"
    using example_chans_wf example_chans_facts by (simp_all add: chan_open_def example_tasks_kernel_def)
  have cur: "gCurrentPageDir ?p = HeapPD 0x1000" by (simp add: example_tasks_kernel_def)
  have "pbytes (phys ?p) 0x1C00010 3 = [0x10, 0x11, 0x12]" by (simp add: pbytes_def upt_rec example_tasks_kernel_def)
  moreover have "\<exists>r1 k1 r2 k2. sys_ChannelWrite example_env example_tasks_kernel zero_regs 0x1000 0x1400010 3 = Inr (Return, r1, k1)
    \<and> sys_ChannelRead example_env (k1\<lparr>paging_of := SwitchPageDirectory (paging_of k1) (HeapPD 0x2000)\<rparr>) zero_regs 0x1010 0x1800020 3 = Inr (Return, r2, k2)
    \<and> pbytes (phys (paging_of k2)) 0x2000020 (unat (3 :: u32)) = pbytes (phys ?p) 0x1C00010 (unat (3 :: u32))"
    using message_between_tasks [of example_env example_tasks_kernel 3 "0x400000" "0x1400010" "0x1C00010" "HeapPD 0x2000" "0x1800020" "0x2000020" 0 False
        "0x1000" "0x1010" zero_regs zero_regs] mv src dst ch unfolding cur by fastforce
  ultimately show ?thesis by simp
qed


section \<open>Waiting for a child\<close>

lemma is_running_loop_frame: "is_running_loop n (k\<lparr>gOldPageDir := d, paging_of := p\<rparr>) node t = is_running_loop n k node t"
  by (induction n arbitrary: node) (auto intro!: bindr_cong)

lemma ProcessWait_gone:
  assumes "IsRunningTask (env_fuel e) k child = Inr False"
  shows "\<exists>k'. sys_ProcessWait e k r child TASK_TERMINATED = Inr (Return, r\<lparr>r_eax := K_INVALID_HANDLE, r_ebx := child, r_ecx := TASK_TERMINATED, r_int_no := 0x80\<rparr>, k')"
proof -
  let ?k = "k\<lparr>gOldPageDir := Some (GetCurrentPageDirectory (paging_of k)), paging_of := SwitchPageDirectory (paging_of k) GetKernelPageDirectory\<rparr>"
  have "IsRunningTask (env_fuel e) ?k child = Inr False" using assms by (simp add: IsRunningTask_def is_running_loop_frame)
  then have "SYS_ProcessWait e ?k (r\<lparr>r_eax := 10, r_ebx := child, r_ecx := TASK_TERMINATED, r_int_no := 0x80\<rparr>) =
      Inr (Return, r\<lparr>r_eax := K_INVALID_HANDLE, r_ebx := child, r_ecx := TASK_TERMINATED, r_int_no := 0x80\<rparr>, ?k)"
    by (simp add: SYS_ProcessWait_def TASK_TERMINATED_def Let_def)
  then show ?thesis by (simp add: stubs_reach_handlers(11) in_kernel_def GetPageDirBeforeException_def)
qed

text \<open>How \<open>wait\<close> ends. When the child ends while the task waits, the scheduler hands it the signal and the exit value, and \<open>wait\<close> returns the value. When the
  child has ended before \<open>ProcessWait\<close> is called, the call reports \<open>K_INVALID_HANDLE\<close>, which \<open>wait\<close> means to accept; but \<open>ebx\<close> still has the handle
  of the child, and the assertion on the received signal fails.\<close>

theorem wait_ends:
  assumes "isWaitingOnSignal tk" "getReceivedSignal tk = Some (TASK_TERMINATED, val, child)" "r_eax (task_regs tk) = K_OK" "take_signal tk = Inr tk'"
    and "IsRunningTask (env_fuel e) k child = Inr False" "child \<noteq> TASK_TERMINATED"
  shows "wait_end (task_regs tk') = Inr (sint val)
    \<and> (\<exists>r' k'. sys_ProcessWait e k r child TASK_TERMINATED = Inr (Return, r', k') \<and> r_eax r' = K_INVALID_HANDLE \<and> wait_end r' = Inl Assert_failed)"
proof
  show "wait_end (task_regs tk') = Inr (sint val)"
    using assms(1-4) by (auto simp: take_signal_def RemoveSignal_def wait_end_def split: option.splits)
  show "\<exists>r' k'. sys_ProcessWait e k r child TASK_TERMINATED = Inr (Return, r', k') \<and> r_eax r' = K_INVALID_HANDLE \<and> wait_end r' = Inl Assert_failed"
  proof -
    from ProcessWait_gone [OF assms(5), of r] obtain k' where
      "sys_ProcessWait e k r child TASK_TERMINATED = Inr (Return, r\<lparr>r_eax := K_INVALID_HANDLE, r_ebx := child, r_ecx := TASK_TERMINATED, r_int_no := 0x80\<rparr>, k')" by blast
    then show ?thesis using assms(6) by (intro exI conjI) (assumption, simp_all add: wait_end_def check_def)
  qed
qed

theorem wait_ends_witness:
  "\<exists>r' k'. sys_ProcessWait example_env example_kernel zero_regs 0x400 TASK_TERMINATED = Inr (Return, r', k') \<and> wait_end r' = Inl Assert_failed"
proof -
  let ?tk = "example_task True 0xC000 (HeapPD 0x2000) [] [\<lparr>sig_task = 0x400, expecting_signals = TASK_TERMINATED, sig_value = 7, received_signal = TASK_TERMINATED\<rparr>] []"
  have t: "isWaitingOnSignal ?tk" "getReceivedSignal ?tk = Some (TASK_TERMINATED, 7, 0x400)" "r_eax (task_regs ?tk) = K_OK"
    by (simp_all add: isWaitingOnSignal_def getReceivedSignal_def TASK_TERMINATED_def task_init_regs_def zero_regs_def K_OK_def Let_def)
  obtain tk' where tk': "take_signal ?tk = Inr tk'"
    using t by (simp add: take_signal_def RemoveSignal_def isWaitingOnSignal_def)
  have run: "IsRunningTask (env_fuel example_env) example_kernel 0x400 = Inr False"
  proof -
    have "is_running_loop (Suc (Suc (Suc n))) example_kernel 0x20 0x400 = Inr False" for n
      by (simp add: example_kernel_def node_get_def node_next_def LinkedList.deref_def)
    from this [of 5] have "is_running_loop 8 example_kernel 0x20 0x400 = Inr False" by simp
    moreover have "gTaskQueue example_kernel = 0x20" by (simp add: example_kernel_def)
    ultimately show ?thesis by (simp add: IsRunningTask_def example_env_def)
  qed
  show ?thesis using wait_ends [OF t tk' run, of zero_regs] by (auto simp: TASK_TERMINATED_def)
qed

end
