(* ===== verification/Process.thy ===== *)
theory Process
  imports Vfs_Props Elf UserSys
begin

text \<open>
  Starting a program: \<open>LoadElfProgram\<close> of \<open>src/libc/elf.cpp\<close>, which makes the new process and sends it its files, environment and arguments, \<open>__libc_start_main.cpp\<close>, which receives them, and
  \<open>exec.cpp\<close>. The memory of a program is a function from addresses to bytes. The calls to the kernel are those of \<open>os\<close>; \<open>kernel_os\<close> makes them from the stubs of
  \<open>UserSys\<close>, with the bytes that a message has in the place of their address (\<open>ChannelWrite_moves\<close> and \<open>ChannelRead_moves\<close> show that the kernel gets and puts them there). Addresses that \<open>malloc\<close>
  returns are arguments.
\<close>

section \<open>The kernel as a program sees it\<close>

record 'k os =
  os_PageAlloc :: "'k \<Rightarrow> (u32 \<times> 'k) result"
  os_ProcessCreate :: "'k \<Rightarrow> (u32 \<times> u32 \<times> 'k) result"
  os_MapAnonAndSwap :: "u32 \<Rightarrow> u32 \<Rightarrow> 'k \<Rightarrow> (u32 \<times> u32 \<times> 'k) result"
  os_ChannelCreate :: "'k \<Rightarrow> (u32 \<times> u32 \<times> 'k) result"
  os_TransferHandle :: "u32 \<Rightarrow> u32 \<Rightarrow> 'k \<Rightarrow> 'k result"
  os_ChannelWrite :: "u32 \<Rightarrow> u8 list \<Rightarrow> 'k \<Rightarrow> 'k result"
  os_ChannelReadBlocking :: "u32 \<Rightarrow> nat \<Rightarrow> 'k \<Rightarrow> (u8 list \<times> 'k) result"
  os_ProcessStart :: "u32 \<Rightarrow> u32 \<Rightarrow> u32 \<Rightarrow> 'k \<Rightarrow> 'k result"
  os_HandleClose :: "u32 \<Rightarrow> 'k \<Rightarrow> 'k result"
  os_UnmapPage :: "u32 \<Rightarrow> 'k \<Rightarrow> 'k result"
  os_PageSize :: u32

definition regs_of :: "(ctl \<times> registers \<times> kernel) result \<Rightarrow> (u32 \<times> u32 \<times> kernel) result" where
  "regs_of x = bindr x (\<lambda>(_, r, k). Inr (r_eax r, r_ebx r, k))"

definition kernel_of :: "(ctl \<times> registers \<times> kernel) result \<Rightarrow> kernel result" where
  "kernel_of x = bindr x (\<lambda>(_, _, k). Inr k)"

definition k_write :: "u32 \<Rightarrow> kernel \<Rightarrow> u8 list \<Rightarrow> kernel result" where
  "k_write a k bs = bindr (chan_write a (chans_of k) bs) (\<lambda>v. Inr (k\<lparr>chans_of := v\<rparr>))"

text \<open>A blocking read on its last try: the bytes are there.\<close>

definition k_read :: "u32 \<Rightarrow> kernel \<Rightarrow> nat \<Rightarrow> (u8 list \<times> kernel) result" where
  "k_read a k n = bindr (chan_read a (chans_of k) n) (\<lambda>(bs, v). Inr (bs, k\<lparr>chans_of := v\<rparr>))"

definition kernel_os :: "sys_env \<Rightarrow> registers \<Rightarrow> kernel os" where
  "kernel_os e r =
     \<lparr>os_PageAlloc = (\<lambda>k. bindr (regs_of (new_PageAlloc e k r 0)) (\<lambda>(_, addr, k'). Inr (addr, k'))),
      os_ProcessCreate = (\<lambda>k. regs_of (sys_ProcessCreate e k r)),
      os_MapAnonAndSwap = (\<lambda>addr proc k. regs_of (MapAnonAndSwap e k r addr proc 0)),
      os_ChannelCreate = (\<lambda>k. regs_of (sys_ChannelCreate e k r)),
      os_TransferHandle = (\<lambda>proc handle k. kernel_of (sys_TransferHandle e k r proc handle)),
      os_ChannelWrite = (\<lambda>a bs k. k_write a k bs),
      os_ChannelReadBlocking = (\<lambda>a n k. k_read a k n),
      os_ProcessStart = (\<lambda>proc entry arg k. kernel_of (sys_ProcessStart e k r proc entry arg)),
      os_HandleClose = (\<lambda>handle k. kernel_of (sys_HandleClose e k r handle)),
      os_UnmapPage = (\<lambda>addr k. kernel_of (delete_PageAlloc e k r addr)),
      os_PageSize = kPageSize4M\<rparr>"

section \<open>The parent\<close>

definition no_relocs :: Relocator where
  "no_relocs = \<lparr>rel_addr = 0, rel_size = 0, rel_ent_size = 0, found_relocs = False\<rparr>"

text \<open>The page with the program, the new process and the relocations: the handle of the process, the two addresses of the page, the memory.\<close>

definition load_image :: "nat \<Rightarrow> u32 option \<Rightarrow> 'k os \<Rightarrow> bmem \<Rightarrow> u32 \<Rightarrow> 'k \<Rightarrow> (u32 \<times> u32 \<times> u32 \<times> bmem \<times> 'k) result" where
  "load_image fuel rel_count0 os m elf_data k0 =
     bindr (os_PageAlloc os k0) (\<lambda>(load_addr, k1).
     bindr (new_ElfModule m elf_data) (\<lambda>_.
     let n = unat (e_phnum (read_Ehdr m elf_data)); m1 = load_segments m elf_data load_addr [0..<n] in
     bindr (find_dynamic fuel rel_count0 m1 elf_data [0..<n] no_relocs) (\<lambda>relocator.
     bindr (os_ProcessCreate os k1) (\<lambda>(st1, proc_handle, k2). check (st1 = K_OK)
     (bindr (os_MapAnonAndSwap os load_addr proc_handle k2) (\<lambda>(st2, new_load_addr, k3). check (st2 = K_OK)
     (bindr (if found_relocs relocator then ApplyRelocs fuel relocator m1 elf_data load_addr new_load_addr else Inr m1) (\<lambda>m2.
      Inr (proc_handle, load_addr, new_load_addr, m2, k3)))))))))"

text \<open>The messages to the new process. \<open>buf\<close> is where the block of the buffer for the arguments is.\<close>

definition send_start_data :: "alloc_env \<Rightarrow> 'k os \<Rightarrow> u32 \<Rightarrow> u32 \<Rightarrow> bmem \<Rightarrow> u8 list list \<Rightarrow> u32 \<Rightarrow> u32 \<Rightarrow> Envp \<Rightarrow> 'k \<Rightarrow> (bmem \<times> 'k) result" where
  "send_start_data e os buf ep1 m params vfs_data vfs_data_size envp k0 =
     bindr (os_ChannelWrite os ep1 (bytes32 vfs_data_size) k0) (\<lambda>k1.
     bindr (os_ChannelWrite os ep1 (bytes_at m vfs_data (unat vfs_data_size)) k1) (\<lambda>k2.
     bindr (Pack e envp (buffer_new e 0)) (\<lambda>buffer.
     bindr (os_ChannelWrite os ep1 (bytes32 (rb_size buffer)) k2) (\<lambda>k3.
     bindr (get_bytes (rb_data buffer) 0 (unat (rb_size buffer))) (\<lambda>envdata.
     bindr (os_ChannelWrite os ep1 envdata k3) (\<lambda>k4.
     bindr (buffer_Resize e (buffer_Clear buffer) (PackSize params)) (\<lambda>buffer1.
     bindr (case rb_data buffer1 of None \<Rightarrow> Inl Page_fault | Some d \<Rightarrow> PackParams (os_PageSize os) (store_bytes m buf d) buf params) (\<lambda>m1.
     bindr (os_ChannelWrite os ep1 (bytes32 (rb_size buffer1)) k4) (\<lambda>k5.
     bindr (os_ChannelWrite os ep1 (bytes_at m1 buf (unat (rb_size buffer1))) k5) (\<lambda>k6.
     Inr (m1, k6)))))))))))"

definition LoadElfProgram :: "nat \<Rightarrow> u32 option \<Rightarrow> alloc_env \<Rightarrow> 'k os \<Rightarrow> u32 \<Rightarrow> bmem \<Rightarrow> u32 \<Rightarrow> u8 list list \<Rightarrow> u32 \<Rightarrow> u32 \<Rightarrow> Envp \<Rightarrow> 'k \<Rightarrow> (bmem \<times> 'k) result" where
  "LoadElfProgram fuel rel_count0 e os buf m elf_data params vfs_data vfs_data_size envp k0 =
     bindr (load_image fuel rel_count0 os m elf_data k0) (\<lambda>(proc_handle, load_addr, new_load_addr, m1, k1).
     bindr (os_ChannelCreate os k1) (\<lambda>(ep1, ep2, k2).
     bindr (os_TransferHandle os proc_handle ep2 k2) (\<lambda>k3.
     bindr (send_start_data e os buf ep1 m1 params vfs_data vfs_data_size envp k3) (\<lambda>(m2, k4).
     bindr (os_ProcessStart os proc_handle (new_load_addr + e_entry (read_Ehdr m elf_data)) ep2 k4) (\<lambda>k5.
     bindr (os_HandleClose os ep1 k5) (\<lambda>k6.
     bindr (os_UnmapPage os load_addr k6) (\<lambda>k7. Inr (m2, k7))))))))"

section \<open>The child\<close>

definition env_bin :: "u8 list" where "env_bin = [0x2F, 0x62, 0x69, 0x6E]"

text \<open>A value of the environment as a C string; without terminator the reader runs past its block.\<close>

definition c_value :: "u8 list \<times> bool \<Rightarrow> u8 list result" where
  "c_value v = (if snd v \<or> 0 \<in> set (fst v) then Inr (takeWhile (\<lambda>c. c \<noteq> 0) (fst v)) else Inl Out_of_bounds)"

definition SetCurrentDir_path :: "nat \<Rightarrow> libc_state \<Rightarrow> u8 list \<Rightarrow> libc_state result" where
  "SetCurrentDir_path fuel s pwd =
     bindr (GetNodeFromPath fuel s pwd) (\<lambda>node.
     case node of None \<Rightarrow> Inr s
     | Some p \<Rightarrow> bindr (get_node s p) (\<lambda>n. if \<not> isDir n then Inr s else Inr (SetCurrentDir s p)))"

definition init_dirs :: "nat \<Rightarrow> libc_state \<Rightarrow> libc_state result" where
  "init_dirs fuel s0 =
     bindr (getenv (gEnvp s0) env_PWD) (\<lambda>pwd.
     bindr (case pwd of None \<Rightarrow> Inr s0 | Some v \<Rightarrow> bindr (c_value v) (SetCurrentDir_path fuel s0)) (\<lambda>s1.
     Inr (if getVal (gEnvp s1) env_PATH = None then s1\<lparr>gEnvp := setVal (gEnvp s1) env_PATH env_bin\<rparr> else s1)))"

text \<open>A buffer whose block the kernel fills with the bytes of a message.\<close>

definition read_into :: "rbuffer \<Rightarrow> u8 list \<Rightarrow> rbuffer result" where
  "read_into b bs = bindr (put_bytes (rb_data b) 0 bs) (\<lambda>d. Inr (b\<lparr>rb_data := d\<rparr>))"

text \<open>What \<open>main\<close> gets: the globals, \<open>argc\<close>, \<open>argv\<close>, the table \<open>environ\<close>, the memory.\<close>

definition receive_start_data :: "nat \<Rightarrow> u32 \<Rightarrow> alloc_env \<Rightarrow> (u32 \<Rightarrow> u32) \<Rightarrow> 'k os \<Rightarrow> u32 \<Rightarrow> u32 \<Rightarrow> u32 \<Rightarrow> bmem \<Rightarrow> 'k \<Rightarrow> (libc_state \<times> int \<times> u32 \<times> u32 \<times> bmem \<times> 'k) result" where
  "receive_start_data fuel lit e alloc os ch vfs_buf buf m k0 =
     bindr (os_ChannelReadBlocking os ch 4 k0) (\<lambda>(b1, k1).
     let vfssize = word32 b1; vfsbuffer = buffer_new e vfssize in
     bindr (os_ChannelReadBlocking os ch (unat vfssize) k1) (\<lambda>(vfs, k2).
     bindr (read_into vfsbuffer vfs) (\<lambda>_.
     let m1 = store_bytes m vfs_buf vfs in
     bindr (InitVFS fuel m1 lit [] vfs_buf) (\<lambda>root.
     bindr (os_ChannelReadBlocking os ch 4 k2) (\<lambda>(b2, k3).
     let envpsize = word32 b2 in
     bindr (os_ChannelReadBlocking os ch (unat envpsize) k3) (\<lambda>(envdata, k4).
     bindr (read_into (buffer_new e envpsize) envdata) (\<lambda>buffer.
     bindr (Unpack e [] buffer) (\<lambda>(envp, buffer1).
     let (environ, m2) = getPlainEnvp alloc m1 envp in
     bindr (init_dirs fuel \<lparr>gGlobalFs = Some root, gCurrentDir = Some [], gEnvp = envp\<rparr>) (\<lambda>s.
     bindr (os_ChannelReadBlocking os ch 4 k4) (\<lambda>(b3, k5).
     let argvsize = word32 b3 in
     bindr (buffer_Resize e (buffer_Clear buffer1) argvsize) (\<lambda>buffer2.
     bindr (os_ChannelReadBlocking os ch (unat argvsize) k5) (\<lambda>(args, k6).
     bindr (read_into buffer2 args) (\<lambda>_.
     bindr (UnpackParams (store_bytes m2 buf args) buf) (\<lambda>(argc, argv, m3).
     Inr (s, argc, argv, environ, m3, k6)))))))))))))))"

definition libc_start_main :: "nat \<Rightarrow> u32 \<Rightarrow> alloc_env \<Rightarrow> (u32 \<Rightarrow> u32) \<Rightarrow> 'k os \<Rightarrow> u32 \<Rightarrow> u32 \<Rightarrow> u32 \<Rightarrow> u32 \<Rightarrow> bmem \<Rightarrow> 'k \<Rightarrow> (libc_state \<times> int \<times> u32 \<times> u32 \<times> bmem \<times> 'k) result" where
  "libc_start_main fuel lit e alloc os start_main_loc arg vfs_buf buf m k0 =
     bindr (os_PageAlloc os k0) (\<lambda>(malloc_page, k1). check (start_main_loc \<noteq> 0) (check (malloc_page \<noteq> 0)
     (bindr (receive_start_data fuel lit e alloc os arg vfs_buf buf m k1) (\<lambda>(s, argc, argv, environ, m', k2).
      bindr (os_HandleClose os arg k2) (\<lambda>k3. Inr (s, argc, argv, environ, m', k3))))))"

section \<open>exec\<close>

text \<open>The arguments: the strings of a table of pointers, up to the null pointer.\<close>

fun exec_params :: "bmem \<Rightarrow> u32 list \<Rightarrow> u8 list list result" where
  "exec_params m [] = Inl Out_of_bounds"
| "exec_params m (a # argv) =
     (if a = 0 then Inr []
      else case string_cstr m a of None \<Rightarrow> Inl Out_of_fuel
      | Some s \<Rightarrow> bindr (exec_params m argv) (\<lambda>ps. Inr (chars s # ps)))"

text \<open>The result and \<open>errno\<close>. \<open>copy\<close> is where a copy of a file that is not aligned goes.\<close>

definition ExecImpl :: "nat \<Rightarrow> u32 \<Rightarrow> u32 option \<Rightarrow> alloc_env \<Rightarrow> 'k os \<Rightarrow> u32 \<Rightarrow> u32 \<Rightarrow> u32 \<Rightarrow> libc_state \<Rightarrow> u8 list \<Rightarrow> u32 list \<Rightarrow> Envp \<Rightarrow> bmem \<Rightarrow> 'k
    \<Rightarrow> (int \<times> errno option \<times> bmem \<times> 'k) result" where
  "ExecImpl fuel lit rel_count0 e os copy buf gRawVfsData s path argv envp m k =
     bindr (GetNodeFromPath fuel s path) (\<lambda>node.
     bindr (case node of None \<Rightarrow> Inr None | Some p \<Rightarrow> bindr (get_node s p) (\<lambda>n. Inr (Some n))) (\<lambda>found.
     case found of Some (File name elf_data sz) \<Rightarrow>
         bindr (exec_params m argv) (\<lambda>params.
         bindr (GetTarsize fuel m lit gRawVfsData) (\<lambda>vfs_data_size.
         bindr (if elf_data mod elf_kMinAlign \<noteq> 0
                then if copy = 0 then Inl Assert_failed
                     else LoadElfProgram fuel rel_count0 e os buf (memcpy_bytes m copy elf_data (unat sz)) copy params gRawVfsData vfs_data_size envp k
                else LoadElfProgram fuel rel_count0 e os buf m elf_data params gRawVfsData vfs_data_size envp k) (\<lambda>(m', k').
         Inr (0, None, m', k'))))
     | _ \<Rightarrow> Inr (- 1, Some EACCES, m, k)))"

definition execv :: "nat \<Rightarrow> u32 \<Rightarrow> u32 option \<Rightarrow> alloc_env \<Rightarrow> 'k os \<Rightarrow> u32 \<Rightarrow> u32 \<Rightarrow> u32 \<Rightarrow> libc_state \<Rightarrow> u8 list \<Rightarrow> u32 list \<Rightarrow> bmem \<Rightarrow> 'k \<Rightarrow> (int \<times> errno option \<times> bmem \<times> 'k) result" where
  "execv fuel lit rel_count0 e os copy buf raw s path argv m k = ExecImpl fuel lit rel_count0 e os copy buf raw s path argv (gEnvp s) m k"

definition execve :: "nat \<Rightarrow> u32 \<Rightarrow> u32 option \<Rightarrow> alloc_env \<Rightarrow> 'k os \<Rightarrow> u32 \<Rightarrow> u32 \<Rightarrow> u32 \<Rightarrow> libc_state \<Rightarrow> u8 list \<Rightarrow> u32 list \<Rightarrow> u32 \<Rightarrow> bmem \<Rightarrow> 'k
    \<Rightarrow> (int \<times> errno option \<times> bmem \<times> 'k) result" where
  "execve fuel lit rel_count0 e os copy buf raw s path argv envp m k =
     bindr (UnpackEnvp fuel m envp []) (\<lambda>vec. ExecImpl fuel lit rel_count0 e os copy buf raw s path argv vec m k)"

section \<open>Start data\<close>

text \<open>The messages between the two sides, each behind its length.\<close>

definition start_messages :: "u8 list \<Rightarrow> Envp \<Rightarrow> u8 list \<Rightarrow> u8 list list" where
  "start_messages vfs env args =
     [bytes32 (word_of_nat (length vfs)), vfs, bytes32 (word_of_nat (length (packed env))), packed env, bytes32 (word_of_nat (length args)), args]"

lemma get_all_Cons: "get_all get q (n # ns) = Inr (b # bs, q'') \<longleftrightarrow> (\<exists>q'. get q n = Inr (b, q') \<and> get_all get q' ns = Inr (bs, q''))"
  by auto

lemma get_all_Nil: "get_all get q [] = Inr ([], q'') \<longleftrightarrow> q'' = q"
  by auto

lemma put_all_Cons: "put_all put q (b # bs) = Inr q'' \<longleftrightarrow> (\<exists>q'. put q b = Inr q' \<and> put_all put q' bs = Inr q'')"
  by auto

lemma put_all_Nil: "put_all put q [] = Inr q'' \<longleftrightarrow> q'' = q"
  by auto

lemma Resize_wf:
  assumes "enough e" "buffer_wf b"
  shows "\<exists>b'. buffer_Resize e b sz = Inr b' \<and> buffer_wf b' \<and> rb_size b' = sz"
proof (cases "sz > rb_size b")
  case True
  then show ?thesis using Reserve_wf [OF assms, of sz] by (auto simp: buffer_Resize_def buffer_wf_def)
next
  case False
  then show ?thesis using assms(2) by (auto simp: buffer_Resize_def buffer_wf_def)
qed

lemma Clear_wf: "buffer_wf b \<Longrightarrow> buffer_wf (buffer_Clear b)"
  by (simp add: buffer_wf_def buffer_Clear_def)

lemma read_into_wf:
  assumes "buffer_wf b" "length bs = unat (rb_size b)"
  shows "\<exists>b'. read_into b bs = Inr b' \<and> buffer_wf b' \<and> contents_of b' = bs"
proof -
  from assms(1) obtain xs where xs: "rb_data b = Some xs" "length xs = unat (rb_capacity b)" "unat (rb_size b) \<le> length xs" by (rule buffer_wfE)
  then have "put_bytes (rb_data b) 0 bs = Inr (Some (bs @ drop (length bs) xs))" using put_bytes_some [of 0 bs xs] assms(2) by simp
  then show ?thesis using xs assms by (simp add: read_into_def buffer_wf_def contents_of_def)
qed

lemma send_start_data_messages:
  assumes "enough e" "length (packed env) < 4294967296" "params_size ps < 4294967296"
  shows "\<exists>d. \<forall>m1 k'. PackParams (os_PageSize os) (store_bytes m buf d) buf ps = Inr m1
      \<and> put_all (\<lambda>k bs. os_ChannelWrite os ep bs k) k (start_messages (bytes_at m vd (unat vn)) env (bytes_at m1 buf (params_size ps))) = Inr k'
      \<longrightarrow> send_start_data e os buf ep m ps vd vn env k = Inr (m1, k')"
proof -
  have "buffer_wf (buffer_new e 0)" using buffer_new_wf [OF assms(1)] by blast
  from Pack_wf [OF assms(1) this, of env] assms(2) obtain b where b: "Pack e env (buffer_new e 0) = Inr b" "buffer_wf b" "contents_of b = packed env"
    by (auto simp: buffer_new_empty)
  from b(2) obtain xs where xs: "rb_data b = Some xs" "unat (rb_size b) \<le> length xs" "contents_of b = take (unat (rb_size b)) xs" "length (contents_of b) = unat (rb_size b)"
    by (rule buffer_wfE)
  have sz: "rb_size b = word_of_nat (length (packed env))" using xs(4) b(3) by simp
  have g: "get_bytes (rb_data b) 0 (unat (rb_size b)) = Inr (packed env)" using xs b(3) by (simp add: get_bytes_some)
  from Resize_wf [OF assms(1) Clear_wf [OF b(2)], of "PackSize ps"] obtain b1 where
    b1: "buffer_Resize e (buffer_Clear b) (PackSize ps) = Inr b1" "buffer_wf b1" "rb_size b1 = PackSize ps" by blast
  from b1(2) obtain d where d: "rb_data b1 = Some d" by (rule buffer_wfE)
  have u: "unat (PackSize ps) = params_size ps" "PackSize ps = word_of_nat (params_size ps)" using assms(3) by (simp_all add: PackSize_eq unat_of_nat_u32)
  have "send_start_data e os buf ep m ps vd vn env k = Inr (m1, k')"
    if "PackParams (os_PageSize os) (store_bytes m buf d) buf ps = Inr m1"
      "put_all (\<lambda>k bs. os_ChannelWrite os ep bs k) k (start_messages (bytes_at m vd (unat vn)) env (bytes_at m1 buf (params_size ps))) = Inr k'" for m1 k'
  proof -
    from that(2) obtain k1 k2 k3 k4 k5 where
      "os_ChannelWrite os ep (bytes32 vn) k = Inr k1" "os_ChannelWrite os ep (bytes_at m vd (unat vn)) k1 = Inr k2"
      "os_ChannelWrite os ep (bytes32 (rb_size b)) k2 = Inr k3" "os_ChannelWrite os ep (packed env) k3 = Inr k4"
      "os_ChannelWrite os ep (bytes32 (PackSize ps)) k4 = Inr k5" "os_ChannelWrite os ep (bytes_at m1 buf (params_size ps)) k5 = Inr k'"
      unfolding start_messages_def put_all_Cons put_all_Nil by (auto simp: u(2) sz)
    then show ?thesis using b(1) g b1(1,3) d that(1) u(1) by (simp add: send_start_data_def)
  qed
  then show ?thesis by blast
qed

lemma receive_start_data_messages:
  fixes env :: Envp
  defines "env' \<equiv> map (\<lambda>p. new_pair (ev_key p) (ev_val p)) env"
  assumes e: "enough e" and dist: "distinct (map ev_key env)" and len: "length vfs < 4294967296" "length (packed env) < 4294967296" "length args < 4294967296"
    and get: "get_all (\<lambda>k n. os_ChannelReadBlocking os ch n k) k (map length (start_messages vfs env args)) = Inr (start_messages vfs env args, k')"
    and vfs: "InitVFS fuel (store_bytes m vb vfs) lit [] vb = Inr root"
    and dirs: "init_dirs fuel \<lparr>gGlobalFs = Some root, gCurrentDir = Some [], gEnvp = env'\<rparr> = Inr s"
    and pl: "getPlainEnvp alloc (store_bytes m vb vfs) env' = (environ, m2)"
    and args: "UnpackParams (store_bytes m2 buf args) buf = Inr (argc, argv, m3)"
  shows "receive_start_data fuel lit e alloc os ch vb buf m k = Inr (s, argc, argv, environ, m3, k')"
proof -
  have u: "unat (word_of_nat (length vfs) :: u32) = length vfs" "unat (word_of_nat (length (packed env)) :: u32) = length (packed env)"
    "unat (word_of_nat (length args) :: u32) = length args" using len by (simp_all add: unat_of_nat_u32)
  obtain k1 k2 k3 k4 k5 where k:
    "os_ChannelReadBlocking os ch 4 k = Inr (bytes32 (word_of_nat (length vfs)), k1)" "os_ChannelReadBlocking os ch (length vfs) k1 = Inr (vfs, k2)"
    "os_ChannelReadBlocking os ch 4 k2 = Inr (bytes32 (word_of_nat (length (packed env))), k3)" "os_ChannelReadBlocking os ch (length (packed env)) k3 = Inr (packed env, k4)"
    "os_ChannelReadBlocking os ch 4 k4 = Inr (bytes32 (word_of_nat (length args)), k5)" "os_ChannelReadBlocking os ch (length args) k5 = Inr (args, k')"
    using get unfolding start_messages_def list.map get_all_Cons get_all_Nil length_bytes32 by blast
  note new = buffer_new_wf [OF e]
  obtain b0 where b0: "read_into (buffer_new e (word_of_nat (length vfs))) vfs = Inr b0"
    using read_into_wf [of "buffer_new e (word_of_nat (length vfs))" vfs] new u(1) by auto
  obtain b where b: "read_into (buffer_new e (word_of_nat (length (packed env)))) (packed env) = Inr b" "buffer_wf b" "contents_of b = packed env"
    using read_into_wf [of "buffer_new e (word_of_nat (length (packed env)))" "packed env"] new u(2) by auto
  obtain b1 where b1: "Unpack e [] b = Inr (env', b1)" "buffer_wf b1"
    using Unpack_wf [OF e b(2,3) len(2), of "[]"] setVal_fresh [OF dist, of "[]"] by (auto simp: getVal_def env'_def)
  obtain b2 where b2: "buffer_Resize e (buffer_Clear b1) (word_of_nat (length args)) = Inr b2" "buffer_wf b2" "rb_size b2 = word_of_nat (length args)"
    using Resize_wf [OF e Clear_wf [OF b1(2)]] by blast
  obtain b3 where b3: "read_into b2 args = Inr b3" using read_into_wf [OF b2(2)] b2(3) u(3) by auto
  show ?thesis unfolding receive_start_data_def using k u b0 b(1) b1(1) b2(1) b3 vfs dirs pl args by (simp add: Let_def)
qed


definition env_val :: "Envp \<Rightarrow> u8 list \<Rightarrow> u8 list option" where
  "env_val env key = map_option ev_val (getVal env key)"

text \<open>A value of \<open>PWD\<close> as \<open>SetCurrentDir\<close> writes it, if there is one: the absolute path of a directory, or \<open>/\<close> for the root.\<close>

definition pwd_path :: "u8 list list \<Rightarrow> bool" where
  "pwd_path cs \<longleftrightarrow> cs = [] \<or> clean cs"

definition pwd_clean :: "Envp \<Rightarrow> bool" where
  "pwd_clean env \<longleftrightarrow> (\<forall>v. env_val env env_PWD = Some v \<longrightarrow> 0 \<notin> set v \<and> (\<exists>cs. pwd_path cs \<and> v = kPathSep # path_str cs))"

lemma env_val_setVal: "env_val (setVal env key val) k = (if k = key then Some val else env_val env k)"
  by (auto simp: env_val_def getVal_setVal new_pair_def split: option.split)

lemma PWD_PATH: "env_PWD \<noteq> env_PATH"
  by (simp add: env_PWD_def env_PATH_def)

lemma getVal_new_pairs: "getVal (map (\<lambda>p. new_pair (ev_key p) (ev_val p)) env) key = map_option (\<lambda>p. new_pair (ev_key p) (ev_val p)) (getVal env key)"
  by (induction env) (auto simp: getVal_def new_pair_def)

text \<open>The directory that such a path names.\<close>

definition names_dir :: "vnode list \<Rightarrow> u8 list list \<Rightarrow> bool" where
  "names_dir root cs \<longleftrightarrow> cs = [] \<or> tree_map root cs = Some None"

lemma SetCurrentDir_path_root:
  assumes "gGlobalFs s = Some root"
  shows "SetCurrentDir_path fuel s [kPathSep] = Inr (SetCurrentDir s [])" "env_val (gEnvp (SetCurrentDir s [])) key = (if key = env_PWD then Some [kPathSep] else env_val (gEnvp s) key)"
proof -
  show "SetCurrentDir_path fuel s [kPathSep] = Inr (SetCurrentDir s [])"
    using GetNodeFromPath_root [OF assms] by (simp add: SetCurrentDir_path_def get_node_def isDir_def)
  show "env_val (gEnvp (SetCurrentDir s [])) key = (if key = env_PWD then Some [kPathSep] else env_val (gEnvp s) key)"
    by (simp add: SetCurrentDir_def getAbsPath_def env_val_setVal)
qed

lemma SetCurrentDir_path_clean:
  assumes "pwd_path cs" "gGlobalFs s = Some root"
  shows "\<exists>s' q. SetCurrentDir_path fuel s (kPathSep # path_str cs) = Inr s' \<and> gGlobalFs s' = Some root
    \<and> (\<forall>key. env_val (gEnvp s') key = env_val (gEnvp s) key \<or> key = env_PWD \<and> env_val (gEnvp s') key = Some (kPathSep # path_str cs))
    \<and> (if names_dir root cs then gCurrentDir s' = Some q \<and> getAbsPath root q = kPathSep # path_str cs else s' = s)"
proof (cases "cs = []")
  case True
  then show ?thesis using SetCurrentDir_path_root [OF assms(2)] assms(2) by (auto simp: names_dir_def SetCurrentDir_def getAbsPath_def)
next
  case False
  then have "clean cs" using assms(1) by (simp add: pwd_path_def)
  from GetNodeFromPath_clean [OF this assms(2), of fuel] obtain p where p: "GetNodeFromPath fuel s (kPathSep # path_str cs) = Inr p"
    "case p of None \<Rightarrow> tree_map root cs = None
       | Some q \<Rightarrow> \<exists>n. node_at root q = Some n \<and> tree_map root cs = Some (kind n) \<and> getAbsPath root q = kPathSep # path_str cs" by blast
  have fs: "the_fs s = root" using assms(2) by (simp add: the_fs_def)
  show ?thesis
  proof (cases p)
    case None
    then show ?thesis using False p assms(2) by (simp add: SetCurrentDir_path_def names_dir_def)
  next
    case (Some q)
    with p(2) obtain n where n: "node_at root q = Some n" "tree_map root cs = Some (kind n)" "getAbsPath root q = kPathSep # path_str cs" by auto
    have "SetCurrentDir_path fuel s (kPathSep # path_str cs) = Inr (if isDir n then SetCurrentDir s q else s)"
      using p(1) Some n(1) fs by (simp add: SetCurrentDir_path_def get_node_def)
    moreover have "isDir n \<longleftrightarrow> names_dir root cs" using False n(2) kind_None [of n] by (auto simp: isDir_def names_dir_def)
    ultimately show ?thesis using n(3) fs assms(2) by (auto simp: SetCurrentDir_def env_val_setVal)
  qed
qed

lemma init_dirs_clean:
  assumes fs: "gGlobalFs s = Some root" "gCurrentDir s = Some []" and pwd: "pwd_clean (gEnvp s)" and tm: "\<forall>p \<in> set (gEnvp s). ev_term p"
  shows "\<exists>s' q. init_dirs fuel s = Inr s' \<and> gGlobalFs s' = Some root \<and> gCurrentDir s' = Some q
    \<and> (\<forall>key. env_val (gEnvp s') key = (if key = env_PATH \<and> env_val (gEnvp s) key = None then Some env_bin else env_val (gEnvp s) key))
    \<and> (\<forall>cs. pwd_path cs \<and> env_val (gEnvp s) env_PWD = Some (kPathSep # path_str cs) \<and> names_dir root cs \<longrightarrow> getAbsPath root q = kPathSep # path_str cs)"
proof -
  let ?path = "\<lambda>s1. if getVal (gEnvp s1) env_PATH = None then s1\<lparr>gEnvp := setVal (gEnvp s1) env_PATH env_bin\<rparr> else s1"
  have path: "env_val (gEnvp (?path s1)) key = (if key = env_PATH \<and> env_val (gEnvp s1) key = None then Some env_bin else env_val (gEnvp s1) key)" for s1 :: libc_state and key
    by (auto simp: env_val_setVal) (simp_all add: env_val_def)
  show ?thesis
  proof (cases "getVal (gEnvp s) env_PWD")
    case None
    then have "init_dirs fuel s = Inr (?path s)" by (simp add: init_dirs_def getenv_def)
    moreover have "env_val (gEnvp s) env_PWD = None" using None by (simp add: env_val_def)
    ultimately show ?thesis using fs path [of s] by auto
  next
    case (Some p)
    then have v: "env_val (gEnvp s) env_PWD = Some (ev_val p)" "ev_term p"
      using tm by (auto simp: env_val_def getVal_def find_Some_iff)
    from pwd v(1) obtain cs where cs: "pwd_path cs" "ev_val p = kPathSep # path_str cs" "0 \<notin> set (ev_val p)" by (auto simp: pwd_clean_def)
    from SetCurrentDir_path_clean [OF cs(1) fs(1), of fuel] obtain s1 q where s1: "SetCurrentDir_path fuel s (kPathSep # path_str cs) = Inr s1" "gGlobalFs s1 = Some root"
      "\<forall>key. env_val (gEnvp s1) key = env_val (gEnvp s) key \<or> key = env_PWD \<and> env_val (gEnvp s1) key = Some (kPathSep # path_str cs)"
      "if names_dir root cs then gCurrentDir s1 = Some q \<and> getAbsPath root q = kPathSep # path_str cs else s1 = s" by blast
    have same: "env_val (gEnvp s1) key = env_val (gEnvp s) key" for key using s1(3) v(1) cs(2) by metis
    have "takeWhile (\<lambda>c. c \<noteq> 0) (ev_val p) = ev_val p" using cs(3) by (auto simp: takeWhile_eq_all_conv)
    then have "init_dirs fuel s = Inr (?path s1)"
      using Some cs(2) v(2) s1(1) by (simp add: init_dirs_def getenv_def chr_at_def c_value_def)
    moreover have "\<exists>q. gCurrentDir s1 = Some q" using s1(4) fs(2) by (auto split: if_splits)
    then obtain q where q: "gCurrentDir s1 = Some q" by blast
    moreover have "getAbsPath root q = kPathSep # path_str cs'"
      if "pwd_path cs'" "path_str cs' = path_str cs" "names_dir root cs'" for cs'
      using SetCurrentDir_path_clean [OF that(1) fs(1), of fuel] that s1(1) q by auto
    ultimately show ?thesis using s1(2) path [of s1] same v(1) cs(2) by (intro exI [of _ "?path s1"] exI [of _ q]) auto
  qed
qed


section \<open>The channel between the two\<close>

definition chan_both :: "nat \<Rightarrow> bool \<Rightarrow> u32 \<Rightarrow> u32 \<Rightarrow> chvec \<Rightarrow> bool" where
  "chan_both i b a a' v \<longleftrightarrow> chan_open i b a a' v \<and> other_ep (get_ep v i (\<not> b)) \<noteq> 0"

text \<open>The reader's end needs no more than a live channel: the writer may have closed its own end.\<close>

definition reader_ok :: "nat \<Rightarrow> bool \<Rightarrow> u32 \<Rightarrow> chvec \<Rightarrow> bool" where
  "reader_ok i c a' v \<longleftrightarrow> ch_wf v \<and> i < vsize v \<and> ep_addr v i c = a'"

lemma k_read_live:
  assumes "reader_ok i c a' (chans_of k)" "n \<le> length (ep_data (get_ep (chans_of k) i c))" "n < 4294967296"
  shows "\<exists>e. k_read a' k n = Inr (take n (ep_data (get_ep (chans_of k) i c)), k\<lparr>chans_of := set_ep (chans_of k) i c e\<rparr>)
    \<and> ch_wf (set_ep (chans_of k) i c e) \<and> ep_data e = drop n (ep_data (get_ep (chans_of k) i c)) \<and> other_ep e = other_ep (get_ep (chans_of k) i c)"
proof -
  have r: "ch_wf (chans_of k)" "i < vsize (chans_of k)" "ep_addr (chans_of k) i c = a'" using assms(1) by (auto simp: reader_ok_def)
  from Read_live [OF r(1,2), of "\<lambda>_. True" "word_of_nat n" c] assms(2,3) r(3) show ?thesis
    by (auto simp: k_read_def chan_read_def unat_of_nat_u32)
qed

interpretation kreader: byte_source "\<lambda>k. reader_ok i c a' (chans_of k)" "\<lambda>k. ep_data (get_ep (chans_of k) i c)" 4294967296 "k_read a'"
  for i c a'
proof
  fix k :: kernel and n assume a: "reader_ok i c a' (chans_of k)" "n \<le> length (ep_data (get_ep (chans_of k) i c))" "n < 4294967296"
  then have "i < length (slots (chans_of k))" by (auto simp: reader_ok_def ch_wf_def)
  with k_read_live [OF a] a(1) show "\<exists>k'. k_read a' k n = Inr (take n (ep_data (get_ep (chans_of k) i c)), k') \<and> reader_ok i c a' (chans_of k')
      \<and> ep_data (get_ep (chans_of k') i c) = drop n (ep_data (get_ep (chans_of k) i c))"
    by (auto simp: reader_ok_def get_set_ep)
qed

interpretation kchan: byte_queue "\<lambda>k. chan_both i b a a' (chans_of k)" "\<lambda>k. ep_data (get_ep (chans_of k) i (\<not> b))" 4294967296 "k_read a'" "k_write a"
  for i b a a'
proof
  fix k :: kernel and n assume a: "chan_both i b a a' (chans_of k)" "n \<le> length (ep_data (get_ep (chans_of k) i (\<not> b)))" "n < 4294967296"
  then have r: "reader_ok i (\<not> b) a' (chans_of k)" "i < length (slots (chans_of k))" by (auto simp: chan_both_def chan_open_def reader_ok_def ch_wf_def)
  from k_read_live [OF r(1) a(2,3)] a(1) r(2) show "\<exists>k'. k_read a' k n = Inr (take n (ep_data (get_ep (chans_of k) i (\<not> b))), k') \<and> chan_both i b a a' (chans_of k')
      \<and> ep_data (get_ep (chans_of k') i (\<not> b)) = drop n (ep_data (get_ep (chans_of k) i (\<not> b)))"
    by (auto simp: chan_both_def chan_open_def get_set_ep)
next
  fix k :: kernel and bs :: "u8 list" assume a: "chan_both i b a a' (chans_of k)" "length (ep_data (get_ep (chans_of k) i (\<not> b))) + length bs < 4294967296"
  then have c: "ch_wf (chans_of k)" "i < vsize (chans_of k)" "other_ep (get_ep (chans_of k) i b) \<noteq> 0" "ep_addr (chans_of k) i b = a" "i < length (slots (chans_of k))"
    by (auto simp: chan_both_def chan_open_def ch_wf_def)
  from Write_live [OF c(1-3) a(2), of "\<lambda>_. True"] a(1) c(4,5) show
    "\<exists>k'. k_write a k bs = Inr k' \<and> chan_both i b a a' (chans_of k') \<and> ep_data (get_ep (chans_of k') i (\<not> b)) = ep_data (get_ep (chans_of k) i (\<not> b)) @ bs"
    by (auto simp: k_write_def chan_write_def chan_both_def chan_open_def get_set_ep)
qed

lemma writer_closes:
  assumes "chan_both i b a a' v"
  shows "\<exists>v'. Endpoint_Close v a = Inr (False, v') \<and> reader_ok i (\<not> b) a' v' \<and> ep_data (get_ep v' i (\<not> b)) = ep_data (get_ep v i (\<not> b))"
proof -
  let ?v' = "set_ep v i b (get_ep v i b\<lparr>other_ep := 0\<rparr>)"
  have o: "ch_wf v" "i < vsize v" "other_ep (get_ep v i b) \<noteq> 0" "other_ep (get_ep v i (\<not> b)) \<noteq> 0" "ep_addr v i b = a" "ep_addr v i (\<not> b) = a'"
    using assms by (auto simp: chan_both_def chan_open_def)
  have w: "unat (elements v) + 40 * vspace v \<le> 4294967296" "vsize v \<le> vspace v" "vsize v \<le> length (slots v)" "ends_ok v i" using o(1,2) by (auto simp: ch_wf_def)
  have "ch_wf ?v'" using w(4) by (intro set_ep_wf [OF o(1,2)]) (auto simp: ends_ok_def endpoint_ok_def)
  moreover have "Endpoint_Close v a = Inr (False, ?v')"
    using Close_at_open [OF w(1-3) o(2,3)] o(4) deref_live [OF o(1,2), of b] o(5) by (simp add: Endpoint_Close_def Let_def)
  moreover have "i < length (slots v)" using w(3) o(2) by simp
  ultimately show ?thesis using o by (auto simp: reader_ok_def get_set_ep)
qed

lemma kernel_os_chan:
  "(\<lambda>k bs. os_ChannelWrite (kernel_os se r) a bs k) = k_write a" "(\<lambda>k n. os_ChannelReadBlocking (kernel_os se r) a n k) = k_read a" "os_PageSize (kernel_os se r) = kPageSize4M"
  by (simp_all add: kernel_os_def)

text \<open>What is sent through the channel is received, although the sender has closed its end.\<close>

lemma messages_arrive:
  assumes "chan_both i b a a' (chans_of k)" "ep_data (get_ep (chans_of k) i (\<not> b)) = []" "length (concat ms) < 4294967296"
  shows "\<exists>k1 v. put_all (k_write a) k ms = Inr k1 \<and> Endpoint_Close (chans_of k1) a = Inr (False, v)
    \<and> (\<forall>k2. chans_of k2 = v \<longrightarrow> (\<exists>k3. get_all (k_read a') k2 (map length ms) = Inr (ms, k3)))"
proof -
  from kchan.put_all_contents [OF assms(1), of ms] assms(2,3) obtain k1 where
    k1: "put_all (k_write a) k ms = Inr k1" "chan_both i b a a' (chans_of k1)" "ep_data (get_ep (chans_of k1) i (\<not> b)) = concat ms" by auto
  from writer_closes [OF k1(2)] k1(3) obtain v where v: "Endpoint_Close (chans_of k1) a = Inr (False, v)" "reader_ok i (\<not> b) a' v" "ep_data (get_ep v i (\<not> b)) = concat ms" by auto
  have "\<exists>k3. get_all (k_read a') k2 (map length ms) = Inr (ms, k3)" if "chans_of k2 = v" for k2
    using kreader.get_all_put_all [of i "\<not> b" a' k2 ms "[]"] that v assms(3) by auto
  then show ?thesis using k1(1) v(1) by blast
qed

lemma child_state:
  fixes env :: Envp and es :: "tar_entry list"
  defines "env' \<equiv> map (\<lambda>p. new_pair (ev_key p) (ev_val p)) env"
  assumes "pwd_clean env" "bytes_at m vb (length bs) = bs" "is_archive es bs \<and> no_empty_file es" "cstr m lit ustar_magic"
      "length es < fuel" "list_all2 (\<lambda>e cs. CleanPath (entry_path e) = Inr (path_str cs) \<and> (cs = [] \<or> clean cs)) es css" "in_order [] (items css (map is_file_entry es))"
  shows "\<exists>root s q. InitVFS fuel m lit [] vb = Inr root \<and> init_dirs fuel \<lparr>gGlobalFs = Some root, gCurrentDir = Some [], gEnvp = env'\<rparr> = Inr s
    \<and> (\<forall>key. env_val (gEnvp s) key = (if key = env_PATH \<and> env_val env key = None then Some env_bin else env_val env key))
    \<and> gGlobalFs s = Some root \<and> gCurrentDir s = Some q
    \<and> (\<forall>j < length es. css ! j \<noteq> [] \<longrightarrow> (\<exists>p n. GetNodeFromAbsPath s (kPathSep # path_str (css ! j)) = Inr (Some p) \<and> node_at root p = Some n
        \<and> entry_kind m (kind n) (es ! j)))
    \<and> (\<forall>cs. pwd_path cs \<and> env_val env env_PWD = Some (kPathSep # path_str cs) \<and> names_dir root cs \<longrightarrow> getAbsPath root q = kPathSep # path_str cs)"
proof -
  from InitVFS_finds [OF assms(3-8)] obtain root where root: "InitVFS fuel m lit [] vb = Inr root"
    "\<And>s j. gGlobalFs s = Some root \<and> j < length es \<and> css ! j \<noteq> [] \<Longrightarrow>
      \<exists>p n. GetNodeFromAbsPath s (kPathSep # path_str (css ! j)) = Inr (Some p) \<and> node_at root p = Some n \<and> entry_kind m (kind n) (es ! j)" by blast
  have ev: "env_val env' key = env_val env key" for key unfolding env_val_def env'_def getVal_new_pairs option.map_comp by (simp add: comp_def new_pair_def)
  let ?s0 = "\<lparr>gGlobalFs = Some root, gCurrentDir = Some [], gEnvp = env'\<rparr>"
  have "pwd_clean (gEnvp ?s0)" using assms(2) by (simp add: pwd_clean_def ev)
  moreover have "\<forall>p \<in> set (gEnvp ?s0). ev_term p" by (auto simp: env'_def new_pair_def)
  ultimately obtain s q where s: "init_dirs fuel ?s0 = Inr s" "gGlobalFs s = Some root" "gCurrentDir s = Some q"
    "\<forall>key. env_val (gEnvp s) key = (if key = env_PATH \<and> env_val env key = None then Some env_bin else env_val env key)"
    "\<forall>cs. pwd_path cs \<and> env_val env env_PWD = Some (kPathSep # path_str cs) \<and> names_dir root cs \<longrightarrow> getAbsPath root q = kPathSep # path_str cs"
    using init_dirs_clean [of ?s0 root fuel] by (auto simp: ev cong: if_cong)
  then show ?thesis using root by blast
qed





end
