(* ===== verification/Shell.thy ===== *)
theory Shell
  imports Process
begin

text \<open>
  The shell, \<open>src/userboot/shell.cpp\<close>: the editing of a line from the keys that arrive, the completion of commands, the words of a line in place, and one turn of
  the main loop. The line is a block of memory at \<open>buff\<close>; keys that have arrived are a list, output is the list of the characters printed.
\<close>

section \<open>Command lines\<close>

partial_function (option) skip_space :: "bmem \<Rightarrow> u32 \<Rightarrow> u32 option" where
  "skip_space m buff = (if m buff \<noteq> 0 \<and> isspace (m buff) then skip_space m (buff + 1) else Some buff)"

partial_function (option) skip_word :: "bmem \<Rightarrow> u32 \<Rightarrow> u32 option" where
  "skip_word m buff = (if m buff \<noteq> 0 \<and> \<not> isspace (m buff) then skip_word m (buff + 1) else Some buff)"

partial_function (option) argv_loop :: "bmem \<Rightarrow> u32 \<Rightarrow> u32 list \<Rightarrow> (u32 list \<times> bmem) option" where
  "argv_loop m buff argv =
     (if m buff = 0 then Some (argv, m)
      else if isspace (m buff) then argv_loop (m(buff := 0)) (buff + 1) argv
      else Option.bind (skip_word m buff) (\<lambda>b. argv_loop m b (argv @ [buff])))"

text \<open>The path, the table with the null pointer at its end, and the edited memory.\<close>

definition TransformIntoArgv :: "bmem \<Rightarrow> u32 \<Rightarrow> (u32 \<times> u32 list \<times> bmem) option" where
  "TransformIntoArgv m buff =
     Option.bind (skip_space m buff) (\<lambda>path_arg.
     Option.bind (argv_loop m path_arg []) (\<lambda>(argv, m'). Some (path_arg, argv @ [0], m')))"

text \<open>The words of a line.\<close>

function words_of :: "u8 list \<Rightarrow> u8 list list" where
  "words_of s = (case dropWhile isspace s of [] \<Rightarrow> []
     | c # cs \<Rightarrow> (c # takeWhile (\<lambda>x. \<not> isspace x) cs) # words_of (dropWhile (\<lambda>x. \<not> isspace x) cs))"
  by pat_completeness auto
termination
proof (relation "measure length", simp)
  fix s c cs assume "dropWhile isspace s = c # cs"
  then have "length (c # cs) \<le> length s" by (metis length_dropWhile_le)
  moreover have "length (dropWhile (\<lambda>x. \<not> isspace x) cs) \<le> length cs" by (rule length_dropWhile_le)
  ultimately show "(dropWhile (\<lambda>x. \<not> isspace x) cs, s) \<in> measure length" by simp
qed

declare words_of.simps [simp del]

lemma words_of_Nil [simp]: "words_of [] = []"
  by (simp add: words_of.simps)

lemma words_of_space: "isspace c \<Longrightarrow> words_of (c # cs) = words_of cs"
  by (subst (1 2) words_of.simps) simp

lemma words_of_word: "\<not> isspace c \<Longrightarrow> words_of (c # cs) = (c # takeWhile (\<lambda>x. \<not> isspace x) cs) # words_of (dropWhile (\<lambda>x. \<not> isspace x) cs)"
  by (subst words_of.simps) simp

text \<open>White space of a block replaced by zero bytes.\<close>

definition blank :: "bmem \<Rightarrow> u32 \<Rightarrow> nat \<Rightarrow> bmem" where
  "blank m a n = (\<lambda>x. if x \<in> region a n \<and> isspace (m x) then 0 else m x)"

lemma cstr_cong: "cstr m a s \<Longrightarrow> length s < 4294967295 \<Longrightarrow> (\<And>x. x \<in> region a (Suc (length s)) \<Longrightarrow> m x = m' x) \<Longrightarrow> cstr m' a s"
  using cstr_bytes [of m a s] bytes_at_cong [of a "Suc (length s)" m m'] cstr_region [of m' a s]
  by (simp add: bytes_at_def)

lemma skip_space_eq: "cstr m a s \<Longrightarrow> skip_space m a = Some (a + word_of_nat (length (takeWhile isspace s)))"
proof (induction s arbitrary: a)
  case (Cons c s)
  then show ?case by (subst skip_space.simps) (simp add: add.assoc)
qed (subst skip_space.simps, simp)

lemma skip_word_eq: "cstr m a s \<Longrightarrow> skip_word m a = Some (a + word_of_nat (length (takeWhile (\<lambda>x. \<not> isspace x) s)))"
proof (induction s arbitrary: a)
  case (Cons c s)
  then show ?case by (subst skip_word.simps) (simp add: add.assoc)
qed (subst skip_word.simps, simp)

lemma cstr_drop: "cstr m a (s @ t) \<Longrightarrow> cstr m (a + word_of_nat (length s)) t"
  by (induction s arbitrary: a) (simp_all add: add.assoc [symmetric])

lemma cstr_nth: "cstr m a s \<Longrightarrow> i < length s \<Longrightarrow> m (a + word_of_nat i) = s ! i"
  using cstr_bytes [of m a s] bytes_at_nth [of i "length s" m a] by simp

lemma blank_outside: "x \<notin> region a n \<Longrightarrow> blank m a n x = m x"
  by (simp add: blank_def)

lemma not_space_0: "\<not> isspace 0"
  by (simp add: isspace_def)

lemma blank_step:
  assumes "isspace (m a)" "unat a + Suc n < 4294967296"
  shows "blank (m(a := 0)) (a + 1) n = blank m a (Suc n)"
proof
  fix x
  have "unat (a + 1) = unat a + 1" using assms(2) by (subst unat_add_u32) simp_all
  then have r: "x \<in> region (a + 1) n \<longleftrightarrow> x \<noteq> a \<and> x \<in> region a (Suc n)" "a \<in> region a (Suc n)"
    using assms(2) by (auto simp: region_nat word_unat_eq_iff)
  show "blank (m(a := 0)) (a + 1) n x = blank m a (Suc n) x"
    using assms(1) r by (cases "x = a") (auto simp: blank_def not_space_0)
qed

lemma blank_word:
  assumes c: "cstr m a (w @ t)" and w: "\<forall>x \<in> set w. \<not> isspace x" and u: "unat a + length (w @ t) < 4294967296"
  shows "blank m (a + word_of_nat (length w)) (length t) = blank m a (length (w @ t))"
proof
  fix x
  let ?b = "a + word_of_nat (length w)"
  have b: "unat ?b = unat a + length w" using u unfolding length_append by (intro unat_add_nat) linarith
  show "blank m ?b (length t) x = blank m a (length (w @ t)) x"
  proof (cases "unat a \<le> unat x \<and> unat x < unat a + length w")
    case True
    then obtain i where i: "i < length w" "unat x = unat a + i" by (metis le_iff_add nat_add_left_cancel_less)
    then have "x = a + word_of_nat i" using u by (simp add: word_unat_eq_iff unat_add_u32 unat_of_nat_u32)
    then have "m x = w ! i" using cstr_nth [OF c, of i] i by (simp add: nth_append)
    then have "\<not> isspace (m x)" using w i nth_mem by metis
    then show ?thesis by (simp add: blank_def)
  next
    case False
    then have "x \<in> region ?b (length t) \<longleftrightarrow> x \<in> region a (length (w @ t))" using u b by (auto simp: region_nat)
    then show ?thesis by (simp add: blank_def)
  qed
qed

lemma blank_cstr:
  assumes c: "cstr m a (w @ t)" and w: "\<forall>x \<in> set w. \<not> isspace x" and t: "t = [] \<or> isspace (hd t)" and u: "unat a + length (w @ t) < 4294967296"
  shows "cstr (blank m a (length (w @ t))) a w"
proof -
  have nz: "0 \<notin> set w" using cstr_bytes [OF c] by auto
  have "bytes_at (blank m a (length (w @ t))) a (Suc (length w)) = w @ [0]"
  proof (rule nth_equalityI)
    fix i assume "i < length (bytes_at (blank m a (length (w @ t))) a (Suc (length w)))"
    then have i: "i \<le> length w" by simp
    have e: "bytes_at (blank m a (length (w @ t))) a (Suc (length w)) ! i = blank m a (length (w @ t)) (a + word_of_nat i)"
      using i by (intro bytes_at_nth) simp
    show "bytes_at (blank m a (length (w @ t))) a (Suc (length w)) ! i = (w @ [0]) ! i"
    proof (cases "i < length w")
      case True
      then have "m (a + word_of_nat i) = w ! i" using cstr_nth [OF c, of i] by (simp add: nth_append)
      then show ?thesis unfolding e using True w by (simp add: blank_def nth_append)
    next
      case False
      then have il: "i = length w" using i by simp
      show ?thesis
      proof (cases "t = []")
        case True
        then show ?thesis unfolding e using il cstr_bytes [OF c] not_space_0 by (simp add: blank_def)
      next
        case False
        have "m (a + word_of_nat i) = hd t" using cstr_nth [OF c, of i] il False by (simp add: nth_append hd_conv_nth)
        moreover have "a + word_of_nat i \<in> region a (length (w @ t))" using il False u by (simp add: region_def unat_of_nat_u32)
        ultimately show ?thesis unfolding e using t False il by (simp add: blank_def)
      qed
    qed
  qed simp
  then show ?thesis using nz by (rule cstr_region)
qed

lemma argv_loop_ok:
  "cstr m a s \<Longrightarrow> unat a + length s < 4294967296 \<Longrightarrow>
    \<exists>ps. argv_loop m a argv = Some (argv @ ps, blank m a (length s)) \<and> list_all2 (cstr (blank m a (length s))) ps (words_of s)
      \<and> (\<forall>p \<in> set ps. unat a \<le> unat p \<and> unat p < unat a + length s)"
proof (induction "length s" arbitrary: m a s argv rule: less_induct)
  case less
  show ?case
  proof (cases s)
    case Nil
    then have "blank m a 0 = m" by (auto simp: blank_def region_def)
    then show ?thesis using Nil less.prems(1) by (subst argv_loop.simps) simp
  next
    case (Cons c cs)
    have a: "m a = c" "c \<noteq> 0" "cstr m (a + 1) cs" using less.prems(1) Cons by auto
    show ?thesis
    proof (cases "isspace c")
      case True
      have u1: "unat (a + 1) = unat a + 1" using less.prems(2) Cons by (subst unat_add_u32) simp_all
      have "cstr (m(a := 0)) (a + 1) cs"
        by (rule cstr_cong [OF a(3)]) (use less.prems(2) Cons u1 in \<open>auto simp: region_nat\<close>)
      from less.hyps [OF _ this, of argv] less.prems(2) Cons u1 blank_step [of m a "length cs"] True a
      show ?thesis by (subst argv_loop.simps) (auto simp: words_of_space intro: Suc_leD)
    next
      case False
      define w t where "w = c # takeWhile (\<lambda>x. \<not> isspace x) cs" and "t = dropWhile (\<lambda>x. \<not> isspace x) cs"
      have st: "s = w @ t" and ws: "words_of s = w # words_of t" and sh: "length t < length s"
        using Cons False length_dropWhile_le [of "\<lambda>x. \<not> isspace x" cs] by (simp_all add: w_def t_def words_of_word)
      have w: "\<forall>x \<in> set w. \<not> isspace x" using False by (auto simp: w_def dest: set_takeWhileD)
      have t: "t = [] \<or> isspace (hd t)" using hd_dropWhile [of "\<lambda>x. \<not> isspace x" cs] by (auto simp: t_def)
      let ?b = "a + word_of_nat (length w)"
      have sk: "skip_word m a = Some ?b" using skip_word_eq [OF less.prems(1)] Cons False by (simp add: w_def)
      note c = less.prems(1) [unfolded st] and u = less.prems(2) [unfolded st]
      have b: "unat ?b = unat a + length w" using u by (intro unat_add_nat) simp
      from less.hyps [OF sh cstr_drop [OF c], of "argv @ [a]"] b u obtain ps where ps:
        "argv_loop m ?b (argv @ [a]) = Some ((argv @ [a]) @ ps, blank m ?b (length t))"
        "list_all2 (cstr (blank m ?b (length t))) ps (words_of t)" "\<forall>p \<in> set ps. unat ?b \<le> unat p \<and> unat p < unat ?b + length t" by auto
      have bl: "blank m ?b (length t) = blank m a (length s)" using blank_word [OF c w u] st by simp
      have "cstr (blank m a (length s)) a w" using blank_cstr [OF c w t u] st by simp
      then have "list_all2 (cstr (blank m a (length s))) (a # ps) (words_of s)" using ps(2) bl by (simp add: ws)
      moreover have "argv_loop m a argv = Some (argv @ a # ps, blank m a (length s))"
        using a False sk ps(1) bl by (subst argv_loop.simps) simp
      moreover have "\<forall>p \<in> set (a # ps). unat a \<le> unat p \<and> unat p < unat a + length s"
        using ps(3) b st w_def by fastforce
      ultimately show ?thesis by blast
    qed
  qed
qed


lemma takeWhile_blank: "words_of s = words_of (dropWhile isspace s)"
  by (induction s) (simp_all add: words_of_space)

text \<open>\<open>TransformIntoArgv\<close> on a line: one entry for each word.\<close>

lemma TransformIntoArgv_ok:
  assumes "cstr m buff s" "buff \<noteq> 0" "unat buff + length s < 4294967296"
  shows "\<exists>path argv m'. TransformIntoArgv m buff = Some (path, argv @ [0], m') \<and> 0 \<notin> set argv \<and> list_all2 (cstr m') argv (words_of s)
    \<and> (words_of s \<noteq> [] \<longrightarrow> path = hd argv) \<and> (\<forall>x. m' x = m x \<or> x \<in> region buff (length s) \<and> isspace (m x) \<and> m' x = 0)"
proof -
  let ?k = "length (takeWhile isspace s)" and ?t = "dropWhile isspace s"
  let ?p = "buff + word_of_nat ?k"
  have len: "?k + length ?t = length s" by (metis length_append takeWhile_dropWhile_id)
  have p: "unat ?p = unat buff + ?k" using assms(3) len by (intro unat_add_nat) simp
  have c: "cstr m ?p ?t" using cstr_drop [of m buff "takeWhile isspace s" ?t] assms(1) by simp
  from argv_loop_ok [OF c, of "[]"] p len assms(3) obtain ps where ps: "argv_loop m ?p [] = Some (ps, blank m ?p (length ?t))"
    "list_all2 (cstr (blank m ?p (length ?t))) ps (words_of ?t)" "\<forall>q \<in> set ps. unat ?p \<le> unat q" by auto
  have "0 \<notin> set ps"
  proof
    assume "0 \<in> set ps"
    then have "unat ?p \<le> 0" using ps(3) by fastforce
    then show False using p assms(2) by (simp add: unat_eq_zero)
  qed
  moreover have "?p = hd ps" if ne: "words_of s \<noteq> []"
  proof -
    obtain c0 cs where t: "?t = c0 # cs" using ne takeWhile_blank [of s] by (cases ?t) auto
    then have "\<not> isspace c0" using hd_dropWhile [of isspace s] by simp
    moreover have "m ?p = c0" "c0 \<noteq> 0" using c t by auto
    ultimately have "argv_loop m ?p [] = Option.bind (skip_word m ?p) (\<lambda>b. argv_loop m b [?p])" by (subst argv_loop.simps) simp
    moreover have "skip_word m ?p = Some (?p + word_of_nat (length (takeWhile (\<lambda>x. \<not> isspace x) ?t)))" by (rule skip_word_eq [OF c])
    ultimately have l: "argv_loop m (?p + word_of_nat (length (takeWhile (\<lambda>x. \<not> isspace x) ?t))) [?p] = Some (ps, blank m ?p (length ?t))"
      using ps(1) by simp
    let ?w = "takeWhile (\<lambda>x. \<not> isspace x) ?t" and ?r = "dropWhile (\<lambda>x. \<not> isspace x) ?t"
    have cr: "cstr m (?p + word_of_nat (length ?w)) ?r" using cstr_drop [of m ?p ?w ?r] c by simp
    have lr: "length ?w + length ?r = length ?t" by (metis length_append takeWhile_dropWhile_id)
    have "unat (?p + word_of_nat (length ?w)) = unat ?p + length ?w" using p lr len assms(3) by (intro unat_add_nat) simp
    with argv_loop_ok [OF cr, of "[?p]"] l lr len p assms(3) show ?thesis by auto
  qed
  moreover have "TransformIntoArgv m buff = Some (?p, ps @ [0], blank m ?p (length ?t))"
    using skip_space_eq [OF assms(1)] ps(1) by (simp add: TransformIntoArgv_def)
  moreover have "list_all2 (cstr (blank m ?p (length ?t))) ps (words_of s)" using ps(2) takeWhile_blank [of s] by simp
  moreover have "blank m ?p (length ?t) x = m x \<or> x \<in> region buff (length s) \<and> isspace (m x) \<and> blank m ?p (length ?t) x = 0" for x
  proof -
    have "x \<in> region buff (length s)" if "x \<in> region ?p (length ?t)"
      by (rule region_sub [OF _ _ that]) (use assms(3) len in simp_all)
    then show ?thesis by (auto simp: blank_def)
  qed
  ultimately show ?thesis by blast
qed


section \<open>Listing and completing commands\<close>

definition kBuffSize :: nat where "kBuffSize = 1024"
definition TAB :: u8 where "TAB = 9"
definition CR :: u8 where "CR = 13"
definition ESC :: u8 where "ESC = 27"
definition CSI :: u8 where "CSI = 91"
definition DEL :: u8 where "DEL = 127"

definition MoveLeft :: "u8 list" where "MoveLeft = [ESC, CSI, 0x44]"

text \<open>What \<open>printf("%s", s)\<close> prints, and what a string is as a C string: the characters up to the first zero byte.\<close>

definition up_to_nul :: "u8 list \<Rightarrow> u8 list" where
  "up_to_nul s = takeWhile (\<lambda>c. c \<noteq> 0) s"

definition new_str :: "u8 list \<Rightarrow> cxxstring" where
  "new_str s = \<lparr>str_data = s @ [0], str_length = length s\<rparr>"

fun files_loop :: "nat \<Rightarrow> DIR \<Rightarrow> u8 list list \<Rightarrow> u8 list list result" where
  "files_loop 0 mydir files = Inl Out_of_fuel"
| "files_loop (Suc fuel) mydir files =
     (case readdir mydir of None \<Rightarrow> Inr files | Some (name, mydir') \<Rightarrow> files_loop fuel mydir' (files @ [up_to_nul name]))"

definition GetFilesInDir :: "nat \<Rightarrow> libc_state \<Rightarrow> u8 list \<Rightarrow> u8 list list result" where
  "GetFilesInDir fuel s dirname =
     bindr (opendir fuel s (up_to_nul dirname)) (\<lambda>d. case d of None \<Rightarrow> Inr [] | Some mydir \<Rightarrow> files_loop fuel mydir [])"

fun matching :: "u8 list \<Rightarrow> u8 list list \<Rightarrow> u8 list list \<Rightarrow> u8 list list result" where
  "matching pfx [] cmds = Inr cmds"
| "matching pfx (f # fs) cmds =
     bindr (string_starts_with (new_str f) (new_str pfx)) (\<lambda>b. matching pfx fs (if b then cmds @ [f] else cmds))"

definition add_files_in_dir :: "nat \<Rightarrow> libc_state \<Rightarrow> u8 list \<Rightarrow> u8 list \<Rightarrow> u8 list list \<Rightarrow> u8 list list result" where
  "add_files_in_dir fuel s dirname pfx cmds = bindr (GetFilesInDir fuel s dirname) (\<lambda>files. matching pfx files cmds)"

function path_dirs_loop :: "nat \<Rightarrow> libc_state \<Rightarrow> u8 list \<Rightarrow> u8 list \<Rightarrow> u8 list list \<Rightarrow> u8 list list result" where
  "path_dirs_loop fuel s pfx cwd cmds =
     (if cwd = [] then Inr cmds
      else bindr (find_chr cwd 0x3A 0) (\<lambda>sep.
           bindr (sub_chars cwd 0 sep) (\<lambda>path.
           bindr (add_files_in_dir fuel s path pfx cmds) (\<lambda>cmds'.
           if sep = npos then Inr cmds'
           else bindr (erase_chars cwd (sep + 1) npos) (\<lambda>cwd'. path_dirs_loop fuel s pfx cwd' cmds')))))"
  by pat_completeness auto
termination by (relation "measure (\<lambda>(fuel, s, pfx, cwd, cmds). length cwd)") (auto dest: erase_chars_shorter)

declare path_dirs_loop.simps [simp del]

text \<open>A value without terminator is read past the end of its block.\<close>

definition GetRunnableCommands :: "nat \<Rightarrow> libc_state \<Rightarrow> u8 list \<Rightarrow> u8 list list result" where
  "GetRunnableCommands fuel s pfx =
     bindr (getenv (gEnvp s) env_PATH) (\<lambda>v.
     bindr (case v of None \<Rightarrow> Inr []
            | Some (cwd, term) \<Rightarrow> if term \<or> 0 \<in> set cwd then path_dirs_loop fuel s pfx (up_to_nul cwd) [] else Inl Out_of_bounds) (\<lambda>cmds.
     bindr (getcwd s True kBuffSize) (\<lambda>r.
     case r of Inl _ \<Rightarrow> Inr cmds | Inr buff \<Rightarrow> add_files_in_dir fuel s (up_to_nul buff) pfx cmds)))"

fun LTrimWhitespace :: "u8 list \<Rightarrow> u8 list" where
  "LTrimWhitespace [] = []"
| "LTrimWhitespace (c # cs) = (if isspace c then LTrimWhitespace cs else c # cs)"

definition PrintPS1 :: "libc_state \<Rightarrow> u8 list result" where
  "PrintPS1 s = bindr (getcwd s True kBuffSize) (\<lambda>r. case r of Inl _ \<Rightarrow> Inr [] | Inr buff \<Rightarrow> Inr (up_to_nul buff @ [0x20, 0x24, 0x20]))"

text \<open>How far the end of the line moves, the memory and the output.\<close>

definition TryAutocomplete :: "nat \<Rightarrow> libc_state \<Rightarrow> bmem \<Rightarrow> u32 \<Rightarrow> u32 \<Rightarrow> (u32 \<times> bmem \<times> u8 list) result" where
  "TryAutocomplete fuel s m buffer sz =
     (let pfx = LTrimWhitespace (bytes_at m buffer (unat sz)) in
      if pfx = [] then Inr (0, m, [])
      else bindr (GetRunnableCommands fuel s pfx) (\<lambda>cmds.
        if cmds = [] then Inr (0, m, [])
        else if length cmds = 1
        then bindr (sub_chars (cmds ! 0) (length pfx) npos) (\<lambda>remaining.
          Inr (word_of_nat (length remaining), store_bytes m buffer (cmds ! 0), up_to_nul remaining))
        else bindr (PrintPS1 s) (\<lambda>ps1.
          Inr (0, m, 0x0A # concat (map (\<lambda>cmd. up_to_nul cmd @ [0x20, 0x20]) cmds) @ 0x0A # ps1 @ up_to_nul pfx))))"

text \<open>Keys come from the serial port. \<open>None\<close>: the shell waits for the next key. A key \<open>0xFF\<close> is \<open>EOF\<close>, since \<open>char\<close> is signed.\<close>

fun DebugRead_loop :: "nat \<Rightarrow> libc_state \<Rightarrow> u32 \<Rightarrow> u8 list \<Rightarrow> bmem \<Rightarrow> u32 \<Rightarrow> u8 list \<Rightarrow> (u8 list \<times> bmem \<times> u8 list) option result" where
  "DebugRead_loop fuel s buff_start [] m buffer out = Inr None"
| "DebugRead_loop fuel s buff_start (c # keys) m buffer out =
     check (c \<noteq> 0xFF)
     (if c = CR then Inr (Some (keys, m(buffer := 0), out @ [0x0A]))
      else if c = DEL
      then (if buffer \<le> buff_start then DebugRead_loop fuel s buff_start keys m buffer out
            else DebugRead_loop fuel s buff_start keys m (buffer - 1) (out @ MoveLeft @ [0x20] @ MoveLeft))
      else if c = TAB
      then bindr (TryAutocomplete fuel s m buff_start (buffer - buff_start)) (\<lambda>(adj, m', out').
        DebugRead_loop fuel s buff_start keys m' (buffer + adj) (out @ out'))
      else DebugRead_loop fuel s buff_start keys (m(buffer := c)) (buffer + 1) (out @ [c]))"

definition DebugRead :: "nat \<Rightarrow> libc_state \<Rightarrow> u8 list \<Rightarrow> bmem \<Rightarrow> u32 \<Rightarrow> (u8 list \<times> bmem \<times> u8 list) option result" where
  "DebugRead fuel s keys m buffer = DebugRead_loop fuel s buffer keys m buffer []"

section \<open>What is typed\<close>

text \<open>The line that a sequence of keys edits.\<close>

fun edited :: "u8 list \<Rightarrow> u8 list \<Rightarrow> u8 list" where
  "edited line [] = line"
| "edited line (c # keys) = (if c = DEL then edited (butlast line) keys else edited (line @ [c]) keys)"

lemma DebugRead_loop_keys:
  "\<forall>c \<in> set keys. c \<notin> {0xFF, CR, TAB} \<Longrightarrow> unat buff + length line + length keys < 4294967296 \<Longrightarrow> bytes_at m buff (length line) = line \<Longrightarrow>
    \<exists>m' out'. DebugRead_loop fuel s buff (keys @ CR # rest) m (buff + word_of_nat (length line)) out = Inr (Some (rest, m', out'))
      \<and> bytes_at m' buff (Suc (length (edited line keys))) = edited line keys @ [0]"
proof (induction keys arbitrary: line m out)
  case Nil
  have "bytes_at (m(buff + word_of_nat (length line) := 0)) buff (length line) = bytes_at m buff (length line)"
    by (rule bytes_at_cong) (use Nil.prems(2) in \<open>auto simp: region_def unat_of_nat_u32\<close>)
  then show ?case using Nil.prems by (simp add: bytes_at_snoc CR_def)
next
  case (Cons c keys)
  have c: "c \<noteq> 0xFF" "c \<noteq> CR" "c \<noteq> TAB" "\<forall>c \<in> set keys. c \<notin> {0xFF, CR, TAB}" using Cons.prems(1) by auto
  let ?p = "buff + word_of_nat (length line)"
  have p: "unat ?p = unat buff + length line" using Cons.prems(2) by (intro unat_add_nat) simp
  show ?case
  proof (cases "c = DEL")
    case True
    show ?thesis
    proof (cases "line = []")
      case True
      then show ?thesis using Cons.IH [OF c(4), of "[]" m out] Cons.prems c \<open>c = DEL\<close> by simp
    next
      case False
      then obtain ln x where l: "line = ln @ [x]" by (cases line rule: rev_cases) auto
      have "\<not> ?p \<le> buff" using p False by (simp add: word_le_nat_alt)
      moreover have "?p - 1 = buff + word_of_nat (length ln)" using l by simp
      moreover have "bytes_at m buff (length ln) = ln" using Cons.prems(3) by (simp add: l bytes_at_snoc)
      ultimately show ?thesis using Cons.IH [OF c(4), of ln m] Cons.prems(2) c \<open>c = DEL\<close> by (simp add: l)
    qed
  next
    case False
    have "bytes_at (m(?p := c)) buff (length line) = bytes_at m buff (length line)"
      by (rule bytes_at_cong) (use Cons.prems(2) in \<open>auto simp: region_def unat_of_nat_u32\<close>)
    then have "bytes_at (m(?p := c)) buff (length (line @ [c])) = line @ [c]" using Cons.prems(3) by (simp add: bytes_at_snoc)
    from Cons.IH [OF c(4) _ this, of "out @ [c]"] Cons.prems(2) c False show ?thesis by (simp add: algebra_simps fun_upd_def)
  qed
qed


lemma edited_set: "set (edited line keys) \<subseteq> set line \<union> set keys"
  by (induction line keys rule: edited.induct) (auto dest: in_set_butlastD)

text \<open>C35: Typing a line: the delete key takes back the last character, the return key ends the line. What is in the buffer then is the edited line with a
  terminator, whose words the shell runs. There is no bound: when the line has at least as many characters as the buffer, the bytes behind the buffer
  are overwritten. The table of the words has no null pointer but the last, the path is its first entry, and only white space of the line is changed.\<close>

theorem typed_line:
  assumes "\<forall>c \<in> set keys. c \<notin> {0, 0xFF, CR, TAB}" "unat buff + length keys < 4294967296" "buff \<noteq> 0"
  shows "\<exists>m1 out path argv m2. DebugRead fuel s (keys @ CR # rest) m buff = Inr (Some (rest, m1, out)) \<and> cstr m1 buff (edited [] keys)
    \<and> TransformIntoArgv m1 buff = Some (path, argv @ [0], m2) \<and> 0 \<notin> set argv \<and> list_all2 (cstr m2) argv (words_of (edited [] keys))
    \<and> (words_of (edited [] keys) \<noteq> [] \<longrightarrow> path = hd argv)
    \<and> (\<forall>x. m2 x = m1 x \<or> x \<in> region buff (length (edited [] keys)) \<and> isspace (m1 x) \<and> m2 x = 0)
    \<and> (kBuffSize \<le> length (edited [] keys) \<longrightarrow> m1 (buff + word_of_nat kBuffSize) = (edited [] keys @ [0]) ! kBuffSize)"
proof -
  let ?l = "edited [] keys"
  have "\<forall>c \<in> set keys. c \<notin> {0xFF, CR, TAB}" using assms(1) by auto
  from DebugRead_loop_keys [OF this, of buff "[]" m fuel s rest "[]"] assms(2) obtain m1 out where
    r: "DebugRead fuel s (keys @ CR # rest) m buff = Inr (Some (rest, m1, out))" "bytes_at m1 buff (Suc (length ?l)) = ?l @ [0]"
    by (auto simp: DebugRead_def)
  have "0 \<notin> set ?l" using assms(1) edited_set [of "[]" keys] by auto
  then have c: "cstr m1 buff ?l" using r(2) by (intro cstr_region)
  have len: "length (edited ln ks) \<le> length ln + length ks" for ln ks
    by (induction ln ks rule: edited.induct) auto
  have "unat buff + length ?l < 4294967296" using assms(2) len [of "[]" keys] by simp
  from TransformIntoArgv_ok [OF c assms(3) this] obtain path argv m2 where
    "TransformIntoArgv m1 buff = Some (path, argv @ [0], m2) \<and> 0 \<notin> set argv \<and> list_all2 (cstr m2) argv (words_of ?l)
      \<and> (words_of ?l \<noteq> [] \<longrightarrow> path = hd argv) \<and> (\<forall>x. m2 x = m1 x \<or> x \<in> region buff (length ?l) \<and> isspace (m1 x) \<and> m2 x = 0)" by blast
  moreover have "m1 (buff + word_of_nat kBuffSize) = (?l @ [0]) ! kBuffSize" if "kBuffSize \<le> length ?l"
    using that bytes_at_nth [of kBuffSize "Suc (length ?l)" m1 buff] r(2) by simp
  ultimately show ?thesis using r(1) c by blast
qed

theorem typed_line_witness:
  "\<exists>m1 out. DebugRead 1 example_process [0x6C, 0x61, 0x7F, 0x73, 0x0D] (\<lambda>_. 0) 0x100 = Inr (Some ([], m1, out)) \<and> cstr m1 0x100 [0x6C, 0x73]"
proof -
  have e: "edited [] [0x6C, 0x61, 0x7F, 0x73] = [0x6C, 0x73]" by (simp add: DEL_def)
  from typed_line [of "[0x6C, 0x61, 0x7F, 0x73]" "0x100" 1 example_process "[]" "\<lambda>_. 0"] show ?thesis
    unfolding e by (auto simp: CR_def TAB_def)
qed


section \<open>Candidates\<close>

lemma matching_ok: "0 \<notin> set pfx \<Longrightarrow> matching pfx fs cmds = Inr (cmds @ filter (prefix pfx) fs)"
proof (induction fs arbitrary: cmds)
  case (Cons f fs)
  have "string_starts_with (new_str f) (new_str pfx) = Inr (prefix pfx f)"
    using string_starts_with_chars [of "new_str f" "new_str pfx"] new_string [of f] new_string [of pfx] Cons.prems by (simp add: new_str_def)
  then show ?case using Cons by simp
qed simp

lemma files_loop_ok:
  "dir_it d \<le> length (dir_names d) \<Longrightarrow> length (dir_names d) - dir_it d < fuel \<Longrightarrow>
    files_loop fuel d files = Inr (files @ map (\<lambda>n. up_to_nul (take (DNAME_SIZE - 1) (getName n))) (drop (dir_it d) (dir_names d)))"
proof (induction fuel arbitrary: d files)
  case (Suc fuel)
  show ?case
  proof (cases "dir_it d = length (dir_names d)")
    case False
    then have lt: "dir_it d < length (dir_names d)" using Suc.prems(1) by simp
    have "take (min (DNAME_SIZE - 1) (length x)) x = take (DNAME_SIZE - 1) x" for x :: "u8 list" by (simp add: min_def)
    with lt Suc show ?thesis by (simp add: readdir_def Let_def Cons_nth_drop_Suc [OF lt, symmetric])
  qed (simp add: readdir_def)
qed simp

lemma add_files_ok: "GetFilesInDir fuel s d = Inr fs \<Longrightarrow> 0 \<notin> set pfx \<Longrightarrow> add_files_in_dir fuel s d pfx cmds = Inr (cmds @ filter (prefix pfx) fs)"
  by (simp add: add_files_in_dir_def matching_ok)

lemma up_to_nul_snoc: "0 \<notin> set s \<Longrightarrow> up_to_nul (s @ [0]) = s"
  unfolding up_to_nul_def by (subst takeWhile_append2) auto

lemma up_to_nul_id: "0 \<notin> set s \<Longrightarrow> up_to_nul s = s"
  by (auto simp: up_to_nul_def takeWhile_eq_all_conv)

lemma path_dirs_single:
  assumes "v \<noteq> []" "0x3A \<notin> set v" "length v < npos" "GetFilesInDir fuel s v = Inr fs" "0 \<notin> set pfx"
  shows "path_dirs_loop fuel s pfx v cmds = Inr (cmds @ filter (prefix pfx) fs)"
  using assms by (subst path_dirs_loop.simps) (simp add: find_chr_def index_of_none [THEN iffD2] sub_chars_def add_files_ok)

lemma path_dirs_sep_end:
  assumes "0x3A \<notin> set d" "length d < npos" "GetFilesInDir fuel s d = Inr fs" "0 \<notin> set pfx"
  shows "path_dirs_loop fuel s pfx (d @ [0x3A]) cmds = Inl Assert_failed"
  using assms by (subst path_dirs_loop.simps) (simp add: find_chr_def index_of_append sub_chars_def add_files_ok erase_chars_def check_def)

lemma path_dirs_sep:
  assumes "0x3A \<notin> set d" "length d + Suc (length rest) < npos" "GetFilesInDir fuel s d = Inr fs" "0 \<notin> set pfx"
  shows "path_dirs_loop fuel s pfx (d @ 0x3A # rest) cmds = Inl Assert_failed"
proof (cases "rest = []")
  case True
  then show ?thesis using path_dirs_sep_end [OF assms(1) _ assms(3,4)] assms(2) by simp
next
  case False
  have "erase_chars (d @ 0x3A # rest) (length d + 1) npos = Inr (d @ [0x3A])"
    using False assms(2) by (simp add: erase_chars_def)
  with assms path_dirs_sep_end [OF assms(1) _ assms(3,4)] show ?thesis
    by (subst path_dirs_loop.simps) (simp add: find_chr_def index_of_append sub_chars_def add_files_ok)
qed


text \<open>The commands offered for a prefix are the files of the directory in \<open>PATH\<close> and of the working directory that start with it, in this order. When \<open>PATH\<close> has
  more than one directory, pressing the tab key ends the shell with a failed assertion: \<open>erase(sep + 1)\<close> removes the text behind the separator, not the
  text up to it.\<close>

theorem completion_candidates:
  assumes "getVal (gEnvp s) env_PATH = Some p" "ev_term p" "ev_val p \<noteq> []" "0 \<notin> set (ev_val p)" "length (ev_val p) < npos"
    and "GetFilesInDir fuel s (takeWhile (\<lambda>c. c \<noteq> 0x3A) (ev_val p)) = Inr fs"
    and "gCurrentDir s = Some q" "length (getAbsPath (the_fs s) q) < kBuffSize" "0 \<notin> set (getAbsPath (the_fs s) q)"
    and "GetFilesInDir fuel s (getAbsPath (the_fs s) q) = Inr gs" "0 \<notin> set pfx"
  shows "GetRunnableCommands fuel s pfx = (if 0x3A \<in> set (ev_val p) then Inl Assert_failed else Inr (filter (prefix pfx) fs @ filter (prefix pfx) gs))"
proof -
  let ?v = "ev_val p" and ?a = "getAbsPath (the_fs s) q"
  have env: "getenv (gEnvp s) env_PATH = Inr (Some (?v, True))" using assms(1-3) by (simp add: getenv_def chr_at_def)
  have "path_dirs_loop fuel s pfx (up_to_nul ?v) [] = (if 0x3A \<in> set ?v then Inl Assert_failed else Inr (filter (prefix pfx) fs))"
  proof (cases "0x3A \<in> set ?v")
    case True
    then obtain d rest where v: "?v = d @ 0x3A # rest" "0x3A \<notin> set d" using split_list_first by metis
    then have "takeWhile (\<lambda>c. c \<noteq> 0x3A) ?v = d" unfolding v(1) by (subst takeWhile_append2) auto
    then show ?thesis using path_dirs_sep [OF v(2), of rest fuel s fs pfx "[]"] assms(4-6,11) v True by (simp add: up_to_nul_id)
  next
    case False
    then have "takeWhile (\<lambda>c. c \<noteq> 0x3A) ?v = ?v" by (auto simp: takeWhile_eq_all_conv)
    with assms(6) have "GetFilesInDir fuel s ?v = Inr fs" by (simp only:)
    then show ?thesis using path_dirs_single [OF assms(3) False assms(5) _ assms(11), of fuel s fs "[]"] assms(4) False by (simp add: up_to_nul_id)
  qed
  moreover have "getcwd s True kBuffSize = Inr (Inr (?a @ [0]))" using assms(7,8) by (simp add: getcwd_def Let_def kBuffSize_def)
  moreover have "up_to_nul (?a @ [0]) = ?a" using assms(9) by (rule up_to_nul_snoc)
  ultimately show ?thesis using env assms(10,11) by (simp add: GetRunnableCommands_def add_files_ok)
qed


text \<open>A process with two commands in \<open>/b\<close>, its \<open>PATH\<close>, and one file in the working directory \<open>/\<close>.\<close>

definition example_shell :: "u8 list \<Rightarrow> libc_state" where
  "example_shell path = \<lparr>gGlobalFs = Some [Dir [0x62] [File [0x6C, 0x73] 0 0, File [0x63] 0 0], File [0x6C] 0 0], gCurrentDir = Some [], gEnvp = [new_pair env_PATH path]\<rparr>"

lemma example_impl: "GetNodeFromRelPathImpl [0x62] (the_fs (example_shell path)) = Inr (Some [0])"
  by (subst GetNodeFromRelPathImpl.simps) (simp add: chr_at_def kPathSep_def find_chr_def the_fs_def example_shell_def)

lemma example_nodes:
  "GetNodeFromPath 3 (example_shell path) [0x2F, 0x62] = Inr (Some [0])" "GetNodeFromPath 3 (example_shell path) [0x2F] = Inr (Some [])"
  by (simp_all add: GetNodeFromPath_def GetNodeFromAbsPath_def IsAbsPath_def chr_at_def CleanPath_def InplaceLStrip_def InplaceRStrip_def rstrip_loop.simps
      isspace_def kPathSep_def erase_chars_def GetNodeFromRelPath_plain_def search_dir_def dir_nodes_def example_impl)
    (simp_all add: example_shell_def)

lemma example_files:
  "GetFilesInDir 3 (example_shell path) [0x2F, 0x62] = Inr [[0x6C, 0x73], [0x63]]"
  "GetFilesInDir 3 (example_shell path) [0x2F] = Inr [[0x62], [0x6C]]"
  by (simp_all add: GetFilesInDir_def opendir_def up_to_nul_def example_nodes get_node_def the_fs_def isDir_def DNAME_SIZE_def)
    (simp_all add: example_shell_def files_loop_ok up_to_nul_def DNAME_SIZE_def)

theorem completion_candidates_witness:
  "GetRunnableCommands 3 (example_shell [0x2F, 0x62]) [0x6C] = Inr [[0x6C, 0x73], [0x6C]]
   \<and> GetRunnableCommands 3 (example_shell [0x2F, 0x62, 0x3A, 0x2F]) [0x6C] = Inl Assert_failed"
proof -
  have c: "gCurrentDir (example_shell path) = Some []" "getAbsPath (the_fs (example_shell path)) [] = [0x2F]" for path
    by (simp_all add: example_shell_def getAbsPath_def kPathSep_def)
  have v: "getVal (gEnvp (example_shell path)) env_PATH = Some (new_pair env_PATH path)" for path
    by (simp add: example_shell_def getVal_def new_pair_def)
  show ?thesis
    using completion_candidates [OF v [of "[0x2F, 0x62]"], of 3 "[[0x6C, 0x73], [0x63]]" "[]" "[[0x62], [0x6C]]" "[0x6C]"]
      completion_candidates [OF v [of "[0x2F, 0x62, 0x3A, 0x2F]"], of 3 "[[0x6C, 0x73], [0x63]]" "[]" "[[0x62], [0x6C]]" "[0x6C]"]
    by (simp add: c example_files new_pair_def npos_def kBuffSize_def)
qed

lemma DebugRead_loop_frame:
  "\<forall>c \<in> set keys. c \<notin> {0xFF, CR, TAB} \<Longrightarrow> unat buff + n + length keys < 4294967296 \<Longrightarrow>
    DebugRead_loop fuel s buff (keys @ CR # rest) m (buff + word_of_nat n) out = Inr (Some (r, m', out')) \<Longrightarrow> x \<notin> region buff (Suc (n + length keys)) \<Longrightarrow> m' x = m x"
proof (induction keys arbitrary: n m out)
  case Nil
  have "buff + word_of_nat n \<in> region buff (Suc n)" using Nil.prems(2) by (simp add: region_def unat_of_nat_u32)
  then show ?case using Nil.prems by (auto simp: CR_def split: if_splits)
next
  case (Cons c keys)
  have c: "c \<noteq> 0xFF" "c \<noteq> CR" "c \<noteq> TAB" "\<forall>c \<in> set keys. c \<notin> {0xFF, CR, TAB}" using Cons.prems(1) by auto
  let ?p = "buff + word_of_nat n"
  have x: "x \<notin> region buff k" if "k \<le> Suc (n + length (c # keys))" for k using Cons.prems(4) that by (auto simp: region_def)
  have p: "unat ?p = unat buff + n" using Cons.prems(2) by (intro unat_add_nat) simp
  have "?p \<noteq> x" using x [of "Suc n"] Cons.prems(2) by (auto simp: region_def unat_of_nat_u32)
  show ?case
  proof (cases "c = DEL")
    case True
    show ?thesis
    proof (cases "n = 0")
      case True
      then have "DebugRead_loop fuel s buff (keys @ CR # rest) m (buff + word_of_nat 0) out = Inr (Some (r, m', out'))"
        using Cons.prems(3) c \<open>c = DEL\<close> by (simp add: check_def)
      from Cons.IH [OF c(4) _ this] Cons.prems(2) x [of "Suc (0 + length keys)"] show ?thesis by simp
    next
      case False
      then obtain k where k: "n = Suc k" by (cases n) auto
      have "\<not> ?p \<le> buff" using p k by (simp add: word_le_nat_alt)
      then have "DebugRead_loop fuel s buff (keys @ CR # rest) m (buff + word_of_nat k) (out @ MoveLeft @ [0x20] @ MoveLeft) = Inr (Some (r, m', out'))"
        using Cons.prems(3) c \<open>c = DEL\<close> by (simp add: check_def k)
      from Cons.IH [OF c(4) _ this] Cons.prems(2) x [of "Suc (k + length keys)"] k show ?thesis by simp
    qed
  next
    case False
    have "DebugRead_loop fuel s buff (keys @ CR # rest) (m(?p := c)) (buff + word_of_nat (Suc n)) (out @ [c]) = Inr (Some (r, m', out'))"
      using Cons.prems(3) c False by (simp add: check_def fun_upd_def algebra_simps)
    from Cons.IH [OF c(4) _ this] Cons.prems(2) x [of "Suc (Suc n + length keys)"] have "m' x = (m(?p := c)) x" by simp
    then show ?thesis using \<open>?p \<noteq> x\<close> by simp
  qed
qed


section \<open>The main loop\<close>

definition msg :: "string \<Rightarrow> u8 list" where
  "msg s = map of_char s"

definition cstr_at :: "bmem \<Rightarrow> u32 \<Rightarrow> u8 list result" where
  "cstr_at m a = (case string_cstr m a of None \<Rightarrow> Inl Out_of_fuel | Some s \<Rightarrow> Inr (chars s))"

text \<open>What \<open>execv\<close> needs beside its arguments, and \<open>wait(nullptr)\<close>.\<close>

record 'k prog_env =
  pe_fuel :: nat
  pe_lit :: u32
  pe_rel0 :: "u32 option"
  pe_alloc :: alloc_env
  pe_os :: "'k os"
  pe_copy :: u32
  pe_buf :: u32
  pe_raw :: u32
  pe_wait :: "'k \<Rightarrow> (int \<times> 'k) result"

definition pe_execv :: "'k prog_env \<Rightarrow> libc_state \<Rightarrow> u8 list \<Rightarrow> u32 list \<Rightarrow> bmem \<Rightarrow> 'k \<Rightarrow> (int \<times> errno option \<times> bmem \<times> 'k) result" where
  "pe_execv pe = execv (pe_fuel pe) (pe_lit pe) (pe_rel0 pe) (pe_alloc pe) (pe_os pe) (pe_copy pe) (pe_buf pe) (pe_raw pe)"

record 'k shell_state =
  sh_libc :: libc_state
  sh_mem :: bmem
  sh_keys :: "u8 list"
  sh_out :: "u8 list"
  sh_kernel :: 'k

text \<open>The builtin \<open>cd\<close>: what it prints and the process behind it. The table \<open>argv\<close> has the null pointer at its end.\<close>

definition shell_cd :: "nat \<Rightarrow> bmem \<Rightarrow> u32 list \<Rightarrow> libc_state \<Rightarrow> (u8 list \<times> libc_state) result" where
  "shell_cd fuel m argv s =
     (if length argv = 2 then Inr ([], s)
      else if length argv \<noteq> 3 then Inr (msg ''cd: too many arguments'' @ [0x0A], s)
      else bindr (cstr_at m (argv ! 1)) (\<lambda>dir.
        bindr (chdir fuel s dir) (\<lambda>(res, errno, s').
        Inr (if res \<noteq> 0
             then msg ''cd: '' @ dir @ (if errno = Some ENOTDIR then msg '': Not a directory'' else msg '': No such file or directory'') @ [0x0A]
             else [], s'))))"

text \<open>The command of a line, and one turn of the loop; \<open>None\<close>: the line is not ended yet. \<open>lit_cd\<close> is the address of the literal \<open>"cd"\<close>.\<close>

definition run_command :: "'k prog_env \<Rightarrow> u32 \<Rightarrow> u32 \<Rightarrow> u32 list \<Rightarrow> 'k shell_state \<Rightarrow> 'k shell_state result" where
  "run_command pe lit_cd path argv st =
     (if length argv = 1 then Inr st
      else case strcmp (sh_mem st) path lit_cd of None \<Rightarrow> Inl Out_of_fuel
      | Some c \<Rightarrow>
        if c = 0
        then bindr (shell_cd (pe_fuel pe) (sh_mem st) argv (sh_libc st)) (\<lambda>(out, s'). Inr (st\<lparr>sh_libc := s', sh_out := sh_out st @ out\<rparr>))
        else bindr (cstr_at (sh_mem st) path) (\<lambda>file.
          bindr (pe_execv pe (sh_libc st) file argv (sh_mem st) (sh_kernel st)) (\<lambda>(res, _, m, k).
          if res < 0
          then Inr (st\<lparr>sh_mem := m, sh_kernel := k, sh_out := sh_out st @ file @ msg '': command not found'' @ [0x0A]\<rparr>)
          else bindr (pe_wait pe k) (\<lambda>(_, k'). Inr (st\<lparr>sh_mem := m, sh_kernel := k'\<rparr>)))))"

definition shell_turn :: "'k prog_env \<Rightarrow> u32 \<Rightarrow> u32 \<Rightarrow> 'k shell_state \<Rightarrow> 'k shell_state option result" where
  "shell_turn pe lit_cd buff st =
     bindr (PrintPS1 (sh_libc st)) (\<lambda>ps1.
     bindr (DebugRead (pe_fuel pe) (sh_libc st) (sh_keys st) (sh_mem st) buff) (\<lambda>r.
     case r of None \<Rightarrow> Inr None
     | Some (keys, m1, out) \<Rightarrow>
       (case TransformIntoArgv m1 buff of None \<Rightarrow> Inl Out_of_fuel
        | Some (path, argv, m2) \<Rightarrow>
          bindr (run_command pe lit_cd path argv (st\<lparr>sh_keys := keys, sh_mem := m2, sh_out := sh_out st @ ps1 @ out\<rparr>)) (\<lambda>st'. Inr (Some st')))))"

lemma run_command_keys: "run_command pe lit_cd path argv st = Inr st' \<Longrightarrow> sh_keys st' = sh_keys st"
  by (auto simp: run_command_def split: option.splits if_splits prod.splits)

lemma DebugRead_loop_shorter: "DebugRead_loop fuel s b keys m p out = Inr (Some (keys', m', out')) \<Longrightarrow> length keys' < length keys"
proof (induction keys arbitrary: m p out)
  case (Cons c keys)
  then show ?case by (fastforce simp: check_def split: if_splits)
qed simp

lemma shell_turn_shorter:
  assumes t: "shell_turn pe lit_cd buff st = Inr (Some st')"
  shows "length (sh_keys st') < length (sh_keys st)"
proof -
  obtain ps1 keys m1 out where d: "PrintPS1 (sh_libc st) = Inr ps1" "DebugRead (pe_fuel pe) (sh_libc st) (sh_keys st) (sh_mem st) buff = Inr (Some (keys, m1, out))"
    using t by (cases "PrintPS1 (sh_libc st)"; cases "DebugRead (pe_fuel pe) (sh_libc st) (sh_keys st) (sh_mem st) buff") (auto simp: shell_turn_def split: option.split_asm)
  then obtain path argv m2 where "run_command pe lit_cd path argv (st\<lparr>sh_keys := keys, sh_mem := m2, sh_out := sh_out st @ ps1 @ out\<rparr>) = Inr st'"
    using t by (cases "TransformIntoArgv m1 buff") (auto simp: shell_turn_def)
  from run_command_keys [OF this] d(2) show ?thesis by (auto simp: DebugRead_def dest: DebugRead_loop_shorter)
qed

text \<open>The loop until it waits for a key: each turn uses up the keys of its line.\<close>

function shell_loop :: "'k prog_env \<Rightarrow> u32 \<Rightarrow> u32 \<Rightarrow> 'k shell_state \<Rightarrow> 'k shell_state result" where
  "shell_loop pe lit_cd buff st = bindr (shell_turn pe lit_cd buff st) (\<lambda>r. case r of None \<Rightarrow> Inr st | Some st' \<Rightarrow> shell_loop pe lit_cd buff st')"
  by pat_completeness auto
termination by (relation "measure (\<lambda>(pe, lit_cd, buff, st). length (sh_keys st))") (auto dest: shell_turn_shorter)

declare shell_loop.simps [simp del]

definition shell_main :: "'k prog_env \<Rightarrow> u32 \<Rightarrow> u32 \<Rightarrow> 'k shell_state \<Rightarrow> 'k shell_state result" where
  "shell_main pe lit_cd buff st =
     shell_loop pe lit_cd buff (st\<lparr>sh_out := sh_out st @ msg ''=== Interactive Shell ==='' @ [0x0A], sh_mem := memset (sh_mem st) buff 0 kBuffSize\<rparr>)"


section \<open>Turns\<close>

lemma PrintPS1_ok: "gCurrentDir s = Some q \<Longrightarrow> \<exists>ps1. PrintPS1 s = Inr ps1"
  by (auto simp: PrintPS1_def getcwd_def Let_def)

lemma cstr_at_ok: "cstr m a s \<Longrightarrow> cstr_at m a = Inr s"
  using string_cstr_chars [of m a s] by (auto simp: cstr_at_def)

text \<open>A literal outside the buffer is still there after the turn's edits.\<close>

lemma shell_turn_line:
  assumes keys: "sh_keys st = keys @ CR # rest" "\<forall>c \<in> set keys. c \<notin> {0, 0xFF, CR, TAB}" and buff: "unat buff + length keys < 4294967295" "buff \<noteq> 0"
    and cwd: "gCurrentDir (sh_libc st) = Some q"
    and lit: "cstr (sh_mem st) lit_cd w" "length w < 4294967295" "region lit_cd (Suc (length w)) \<inter> region buff (Suc (length keys)) = {}"
  shows "\<exists>out path argv m2. shell_turn pe lit_cd buff st =
        bindr (run_command pe lit_cd path (argv @ [0]) (st\<lparr>sh_keys := rest, sh_mem := m2, sh_out := sh_out st @ out\<rparr>)) (\<lambda>st'. Inr (Some st'))
    \<and> list_all2 (cstr m2) argv (words_of (edited [] keys)) \<and> (words_of (edited [] keys) \<noteq> [] \<longrightarrow> path = hd argv) \<and> cstr m2 lit_cd w"
proof -
  let ?l = "edited [] keys" and ?m = "sh_mem st"
  obtain ps1 where ps1: "PrintPS1 (sh_libc st) = Inr ps1" using PrintPS1_ok [OF cwd] by blast
  have k: "\<forall>c \<in> set keys. c \<notin> {0xFF, CR, TAB}" using keys(2) by auto
  from DebugRead_loop_keys [OF k, of buff "[]" ?m "pe_fuel pe" "sh_libc st" rest "[]"] buff(1) obtain m1 out where
    r: "DebugRead_loop (pe_fuel pe) (sh_libc st) buff (keys @ CR # rest) ?m (buff + word_of_nat 0) [] = Inr (Some (rest, m1, out))" "bytes_at m1 buff (Suc (length ?l)) = ?l @ [0]"
    by auto
  have len: "length (edited ln ks) \<le> length ln + length ks" for ln ks by (induction ln ks rule: edited.induct) auto
  have l: "length ?l \<le> length keys" using len [of "[]" keys] by simp
  have "0 \<notin> set ?l" using keys(2) edited_set [of "[]" keys] by auto
  then have c: "cstr m1 buff ?l" using r(2) by (intro cstr_region)
  from TransformIntoArgv_ok [OF c buff(2)] l buff(1) obtain path argv m2 where
    t: "TransformIntoArgv m1 buff = Some (path, argv @ [0], m2)" "list_all2 (cstr m2) argv (words_of ?l)" "words_of ?l \<noteq> [] \<longrightarrow> path = hd argv"
      "\<forall>x. m2 x = m1 x \<or> x \<in> region buff (length ?l) \<and> isspace (m1 x) \<and> m2 x = 0" by auto
  have "cstr m2 lit_cd w"
  proof (rule cstr_cong [OF lit(1,2)])
    fix x assume x: "x \<in> region lit_cd (Suc (length w))"
    then have o: "x \<notin> region buff (Suc (length keys))" using lit(3) by auto
    then have "x \<notin> region buff (length ?l)" using l by (auto simp: region_def)
    then have "m2 x = m1 x" using t(4) by blast
    moreover have "m1 x = ?m x" by (rule DebugRead_loop_frame [OF k _ r(1)]) (use o buff(1) in simp_all)
    ultimately show "?m x = m2 x" by simp
  qed
  moreover have "shell_turn pe lit_cd buff st =
      bindr (run_command pe lit_cd path (argv @ [0]) (st\<lparr>sh_keys := rest, sh_mem := m2, sh_out := sh_out st @ ps1 @ out\<rparr>)) (\<lambda>st'. Inr (Some st'))"
    using ps1 r(1) t(1) keys(1) by (simp add: shell_turn_def DebugRead_def)
  ultimately show ?thesis using t(2,3) by blast
qed

lemma msg_cd: "msg ''cd'' = [0x63, 0x64]"
  by (simp add: msg_def)

lemma chdir_pwd_path:
  assumes "pwd_path cs" "gGlobalFs s = Some root"
  shows "if names_dir root cs
    then \<exists>s'. chdir fuel s (kPathSep # path_str cs) = Inr (0, None, s') \<and> gGlobalFs s' = Some root \<and> env_val (gEnvp s') env_PWD = Some (kPathSep # path_str cs)
      \<and> (\<forall>sz. Suc (length (path_str cs)) < sz \<longrightarrow> getcwd s' True sz = Inr (Inr (kPathSep # path_str cs @ [0])))
    else chdir fuel s (kPathSep # path_str cs) = Inr (- 1, Some (if tree_map root cs = None then ENOENT else ENOTDIR), s)"
proof (cases "cs = []")
  case True
  have "chdir fuel s [kPathSep] = Inr (0, None, SetCurrentDir s [])"
    using GetNodeFromPath_root [OF assms(2), of fuel] by (simp add: chdir_def get_node_def isDir_def)
  then show ?thesis using True assms(2) SetCurrentDir_path_root(2) [OF assms(2), of env_PWD]
    by (simp add: names_dir_def getcwd_def SetCurrentDir_def the_fs_def getAbsPath_def)
next
  case False
  then have c: "clean cs" using assms(1) by (simp add: pwd_path_def)
  show ?thesis
  proof (cases "tree_map root cs = Some None")
    case True
    with chdir_clean [OF c assms(2), of fuel 0] obtain s' where s': "chdir fuel s (kPathSep # path_str cs) = Inr (0, None, s')" "gGlobalFs s' = Some root"
      "env_val (gEnvp s') env_PWD = Some (kPathSep # path_str cs)" by (auto simp: env_val_def)
    have "getcwd s' True sz = Inr (Inr (kPathSep # path_str cs @ [0]))" if "Suc (length (path_str cs)) < sz" for sz
      using chdir_clean [OF c assms(2), of fuel sz] True s'(1) that by auto
    with s' True show ?thesis by (auto simp: names_dir_def)
  next
    case not_dir: False
    then show ?thesis using False chdir_clean [OF c assms(2), of fuel 0] by (cases "tree_map root cs") (auto simp: names_dir_def)
  qed
qed



lemma execv_no_file:
  assumes "clean cs" "gGlobalFs s = Some root" "\<And>f. tree_map root cs \<noteq> Some (Some f)"
  shows "execv fuel lit rel_count0 e os copy buf raw s (kPathSep # path_str cs) argv m k = Inr (- 1, Some EACCES, m, k)"
proof -
  from GetNodeFromPath_clean [OF assms(1,2), of fuel] obtain p where p: "GetNodeFromPath fuel s (kPathSep # path_str cs) = Inr p"
    "case p of None \<Rightarrow> tree_map root cs = None
       | Some q \<Rightarrow> \<exists>n. node_at root q = Some n \<and> tree_map root cs = Some (kind n) \<and> getAbsPath root q = kPathSep # path_str cs" by blast
  show ?thesis
  proof (cases p)
    case None
    then show ?thesis using p(1) by (simp add: execv_def ExecImpl_def)
  next
    case (Some q)
    with p(2) obtain n where n: "node_at root q = Some n" "tree_map root cs = Some (kind n)" by auto
    then obtain nm ns where "n = Dir nm ns" using assms(3) by (cases n) auto
    then show ?thesis using p(1) Some n(1) assms(2) by (simp add: execv_def ExecImpl_def get_node_def the_fs_def)
  qed
qed

text \<open>A line whose first word is an absolute path without a file behind it starts nothing: the shell prints that the command is not found, and the process, the kernel and the
  keys behind the line are as before.\<close>

theorem shell_unknown_command:
  assumes keys: "sh_keys st = keys @ CR # rest" "\<forall>c \<in> set keys. c \<notin> {0, 0xFF, CR, TAB}" and buff: "unat buff + length keys < 4294967295" "buff \<noteq> 0"
    and fs: "gCurrentDir (sh_libc st) = Some q" "gGlobalFs (sh_libc st) = Some root"
    and lit: "cstr (sh_mem st) lit_cd (msg ''cd'')" "region lit_cd 3 \<inter> region buff (Suc (length keys)) = {}"
    and line: "words_of (edited [] keys) = (kPathSep # path_str cs) # args" "clean cs" "\<And>f. tree_map root cs \<noteq> Some (Some f)"
  shows "\<exists>st' out. shell_turn pe lit_cd buff st = Inr (Some st') \<and> sh_keys st' = rest \<and> sh_kernel st' = sh_kernel st \<and> sh_libc st' = sh_libc st
    \<and> sh_out st' = sh_out st @ out @ kPathSep # path_str cs @ msg '': command not found'' @ [0x0A]"
proof -
  have l: "length (msg ''cd'') < 4294967295" "region lit_cd (Suc (length (msg ''cd''))) \<inter> region buff (Suc (length keys)) = {}"
    using lit(2) by (simp_all add: msg_cd numeral_3_eq_3)
  from shell_turn_line [OF keys buff fs(1) lit(1) l, of pe] line(1) obtain out path argv m2 where
    t: "shell_turn pe lit_cd buff st = bindr (run_command pe lit_cd path (argv @ [0]) (st\<lparr>sh_keys := rest, sh_mem := m2, sh_out := sh_out st @ out\<rparr>)) (\<lambda>st'. Inr (Some st'))"
      "list_all2 (cstr m2) argv ((kPathSep # path_str cs) # args)" "path = hd argv" "cstr m2 lit_cd (msg ''cd'')" by auto
  from t(2) obtain a0 as where a: "argv = a0 # as" "cstr m2 a0 (kPathSep # path_str cs)" by (auto simp: list_all2_Cons2)
  have cmp: "strcmp m2 a0 lit_cd \<noteq> Some 0" "strcmp m2 a0 lit_cd \<noteq> None"
    using strcmp_cstr [OF a(2) t(4)] cstr_bytes [OF a(2)] by (auto simp: msg_cd cmp_ref_0 kPathSep_def)
  have "pe_execv pe (sh_libc st) (kPathSep # path_str cs) (argv @ [0]) m2 (sh_kernel st) = Inr (- 1, Some EACCES, m2, sh_kernel st)"
    unfolding pe_execv_def by (rule execv_no_file [OF line(2) fs(2) line(3)])
  then show ?thesis using t(1,3) a(1) cmp cstr_at_ok [OF a(2)] by (auto simp: run_command_def)
qed

definition example_prog :: "kernel prog_env" where
  "example_prog = \<lparr>pe_fuel = 3, pe_lit = 0x10000, pe_rel0 = None, pe_alloc = plenty, pe_os = kernel_os example_env zero_regs, pe_copy = 0x20000, pe_buf = 0x30000, pe_raw = 0,
     pe_wait = (\<lambda>k. Inr (0, k))\<rparr>"

definition example_turn :: "u8 list \<Rightarrow> kernel shell_state" where
  "example_turn keys = \<lparr>sh_libc = example_shell [0x2F, 0x62], sh_mem = (\<lambda>_. 0)(0x10 := 0x63, 0x11 := 0x64), sh_keys = keys @ [CR], sh_out = [], sh_kernel = example_tasks_kernel\<rparr>"

lemma example_turn_facts:
  "gCurrentDir (sh_libc (example_turn keys)) = Some []" "gGlobalFs (sh_libc (example_turn keys)) = Some [Dir [0x62] [File [0x6C, 0x73] 0 0, File [0x63] 0 0], File [0x6C] 0 0]"
  "cstr (sh_mem (example_turn keys)) 0x10 (msg ''cd'')" "sh_keys (example_turn keys) = keys @ CR # []" "sh_kernel (example_turn keys) = example_tasks_kernel" "sh_out (example_turn keys) = []"
  by (simp_all add: example_turn_def example_shell_def msg_cd)


theorem shell_unknown_command_witness:
  "\<exists>st' out. shell_turn example_prog 0x10 0x100 (example_turn [0x2F, 0x62, 0x20, 0x63, 0x20]) = Inr (Some st') \<and> sh_kernel st' = example_tasks_kernel
     \<and> sh_out st' = out @ [0x2F, 0x62] @ msg '': command not found'' @ [0x0A]"
proof -
  let ?keys = "[0x2F, 0x62, 0x20, 0x63, 0x20]"
  have k: "\<forall>c \<in> set ?keys. c \<notin> {0, 0xFF, CR, TAB}" by (simp add: CR_def TAB_def)
  have w: "words_of (edited [] ?keys) = (kPathSep # path_str [[0x62]]) # [[0x63]]"
    by (simp add: DEL_def words_of_word words_of_space isspace_def kPathSep_def)
  have c: "clean [[0x62]]" by (simp add: clean_def path_ok_def name_ok_def kPathSep_def isspace_def npos_def)
  have r: "region 0x10 3 \<inter> region 0x100 (Suc (length ?keys)) = {}" by (rule region_apart) simp_all
  have t: "tree_map [Dir [0x62] [File [0x6C, 0x73] 0 0, File [0x63] 0 0], File [0x6C] 0 0] [[0x62]] \<noteq> Some (Some f)" for f by (simp add: tree_map_Cons)
  have b: "unat (0x100 :: u32) + length ?keys < 4294967295" "(0x100 :: u32) \<noteq> 0" by simp_all
  from shell_unknown_command [OF example_turn_facts(4) k b example_turn_facts(1,2,3) r w c t, of example_prog] show ?thesis
    by (auto simp: kPathSep_def example_turn_facts)
qed

end
