(* ===== verification/Programs.thy ===== *)
theory Programs
  imports Shell
begin

text \<open>
  The programs under \<open>src/userboot\<close> beside the shell: \<open>userboot.cpp\<close>, whose first stage the kernel starts and which starts the second, the second stage, which starts the
  shell, and the commands \<open>ls\<close>, \<open>printenv\<close> and \<open>hello\<close>.
\<close>

section \<open>The first program\<close>

definition no_file :: FileInfo where
  "no_file = \<lparr>fi_prefix = 0, fi_name = 0, fi_size = 0, fi_data = 0\<rparr>"

text \<open>The callback of the search keeps the last file whose name is \<open>filename\<close>; the prefix is not looked at.\<close>

definition root_exe_callback :: "bmem \<Rightarrow> u32 \<Rightarrow> FileInfo \<Rightarrow> FileInfo result \<Rightarrow> FileInfo result" where
  "root_exe_callback m filename fileinfo r =
     bindr r (\<lambda>file. case strcmp m (fi_name fileinfo) filename of None \<Rightarrow> Inl Out_of_fuel | Some c \<Rightarrow> Inr (if c = 0 then fileinfo else file))"

definition find_root_exe :: "nat \<Rightarrow> bmem \<Rightarrow> u32 \<Rightarrow> u32 \<Rightarrow> u32 \<Rightarrow> (u32 \<times> FileInfo) result" where
  "find_root_exe fuel m lit tar_start filename =
     bindr (IterateUSTAR fuel m lit tar_start (Some (\<lambda>_ r. r)) (Some (root_exe_callback m filename)) (Inr no_file)) (\<lambda>(tarsize, r).
     bindr r (\<lambda>file. Inr (tarsize, file)))"

text \<open>\<open>pe_copy\<close> is where the aligned copy goes; only the pointer to the original is asserted, so a null pointer is written to.\<close>

definition FindAndRunRootElfExe :: "'k prog_env \<Rightarrow> u32 \<Rightarrow> u32 \<Rightarrow> u8 list list \<Rightarrow> bmem \<Rightarrow> 'k \<Rightarrow> (bmem \<times> 'k) result" where
  "FindAndRunRootElfExe pe tar_start filename params m k =
     bindr (find_root_exe (pe_fuel pe) m (pe_lit pe) tar_start filename) (\<lambda>(tarsize, file).
     let elf_data = fi_data file in
     if elf_data = 0 then Inr (m, k)
     else if elf_data mod elf_kMinAlign \<noteq> 0
     then if pe_copy pe = 0 \<and> fi_size file \<noteq> 0 then Inl Page_fault
          else LoadElfProgram (pe_fuel pe) (pe_rel0 pe) (pe_alloc pe) (pe_os pe) (pe_buf pe) (memcpy_bytes m (pe_copy pe) elf_data (unat (fi_size file))) (pe_copy pe)
            params tar_start tarsize [] k
     else LoadElfProgram (pe_fuel pe) (pe_rel0 pe) (pe_alloc pe) (pe_os pe) (pe_buf pe) m elf_data params tar_start tarsize [] k)"

text \<open>Stage 1, with the addresses of the two linker symbols and of the name of stage 2; stage 2 with an empty table of arguments.\<close>

definition stage2_name :: "u8 list" where "stage2_name = msg ''./userboot-stage2''"

definition userboot_stage1 :: "'k prog_env \<Rightarrow> u32 \<Rightarrow> u32 \<Rightarrow> u32 \<Rightarrow> bmem \<Rightarrow> 'k \<Rightarrow> (bmem \<times> 'k) result" where
  "userboot_stage1 pe userboot_start userboot_end name m k =
     check (userboot_start > 0) (FindAndRunRootElfExe pe userboot_end name [stage2_name] m k)"

definition userboot_stage2 :: "'k prog_env \<Rightarrow> libc_state \<Rightarrow> bmem \<Rightarrow> 'k \<Rightarrow> (int \<times> errno option \<times> bmem \<times> 'k) result" where
  "userboot_stage2 pe s m k = pe_execv pe s (msg ''/bin/shell'') [0] m k"

section \<open>Commands\<close>

text \<open>\<open>ls\<close>: the exit code and what is printed.\<close>

fun ls_loop :: "nat \<Rightarrow> DIR \<Rightarrow> u8 list \<Rightarrow> u8 list result" where
  "ls_loop 0 mydir out = Inl Out_of_fuel"
| "ls_loop (Suc fuel) mydir out =
     (case readdir mydir of None \<Rightarrow> Inr out | Some (name, mydir') \<Rightarrow> ls_loop fuel mydir' (out @ up_to_nul name @ [0x0A]))"

definition ls_main :: "nat \<Rightarrow> libc_state \<Rightarrow> u8 list list \<Rightarrow> (int \<times> u8 list) result" where
  "ls_main fuel s argv =
     bindr (if length argv \<ge> 2 then Inr (argv ! 1)
            else bindr (getcwd s True kBuffSize) (\<lambda>r. case r of Inl _ \<Rightarrow> Inl Assert_failed | Inr buff \<Rightarrow> Inr (up_to_nul buff))) (\<lambda>dir.
     bindr (opendir fuel s dir) (\<lambda>d. case d of None \<Rightarrow> Inr (1, msg ''No directory named '' @ [0x27] @ dir @ [0x27, 0x0A])
     | Some mydir \<Rightarrow> bindr (ls_loop fuel mydir []) (\<lambda>out. Inr (0, out))))"

fun printenv_loop :: "nat \<Rightarrow> bmem \<Rightarrow> u32 \<Rightarrow> u8 list \<Rightarrow> u8 list result" where
  "printenv_loop 0 m env out = Inl Out_of_fuel"
| "printenv_loop (Suc fuel) m env out =
     (if rd32 m env = 0 then Inr out
      else bindr (cstr_at m (rd32 m env)) (\<lambda>entry. printenv_loop fuel m (env + 4) (out @ entry @ [0x0A])))"

definition hello_main :: "int \<Rightarrow> bmem \<Rightarrow> u32 \<Rightarrow> u8 list result" where
  "hello_main argc m argv =
     check (argc = 2) (check (argv \<noteq> 0) (bindr (cstr_at m (rd32 m (argv + 4))) (\<lambda>name. Inr (msg ''Hello '' @ name @ msg ''!'' @ [0x0A]))))"

section \<open>What they do\<close>

fun named_file :: "u8 list \<Rightarrow> tar_entry \<Rightarrow> bool" where
  "named_file w (TDir name pfx) \<longleftrightarrow> False"
| "named_file w (TFile name pfx content) \<longleftrightarrow> name = w"

lemma root_exe_step:
  assumes "cstr m filename w" "seen m v e"
  shows "callback_step (Some (\<lambda>_ r. r)) (Some (root_exe_callback m filename)) v (Inr fl) = Inr (case v of Inr f \<Rightarrow> if named_file w e then f else fl | Inl _ \<Rightarrow> fl)"
proof (cases v)
  case (Inr f)
  then obtain name pfx content where e: "e = TFile name pfx content" "cstr m (fi_name f) name" using assms(2) by (auto simp: file_seen_def)
  then have "strcmp m (fi_name f) filename = Some (cmp_ref name w)" "cmp_ref name w = 0 \<longleftrightarrow> name = w"
    using strcmp_cstr [OF e(2) assms(1)] cmp_ref_0 cstr_bytes [OF e(2)] cstr_bytes [OF assms(1)] by auto
  then show ?thesis using Inr e(1) by (simp add: callback_step_def root_exe_callback_def)
qed (simp add: callback_step_def)

lemma root_exe_steps:
  "list_all2 (seen m) vs es \<Longrightarrow> cstr m filename w \<Longrightarrow>
    \<exists>fl'. fold (callback_step (Some (\<lambda>_ r. r)) (Some (root_exe_callback m filename))) vs (Inr fl) = Inr fl'
      \<and> (if filter (named_file w) es = [] then fl' = fl else Inr fl' \<in> set vs \<and> file_seen m fl' (last (filter (named_file w) es)))"
proof (induction vs es arbitrary: fl rule: list_all2_induct)
  case (Cons v vs e es)
  let ?fl = "case v of Inr f \<Rightarrow> if named_file w e then f else fl | Inl _ \<Rightarrow> fl"
  have "named_file w e \<Longrightarrow> v = Inr ?fl \<and> file_seen m ?fl e" "\<not> named_file w e \<Longrightarrow> ?fl = fl"
    using Cons.hyps(1) by (cases v; cases e; auto simp: dir_seen_def file_seen_def)+
  with Cons.IH [OF Cons.prems, of ?fl] root_exe_step [OF Cons.prems Cons.hyps(1), of fl] show ?case by auto
qed simp

lemma find_root_exe_last:
  assumes "bytes_at m a (length bs) = bs" "is_archive es bs \<and> no_empty_file es" "cstr m lit ustar_magic" "length es < fuel" "cstr m name w" "unat a + length bs \<le> 4294967296"
  shows "\<exists>fl. find_root_exe fuel m lit a name = Inr (word_of_nat (length bs), fl)
    \<and> (if filter (named_file w) es = [] then fl = no_file else file_seen m fl (last (filter (named_file w) es)) \<and> placed a (length bs) fl)"
proof -
  let ?cb = "Some (root_exe_callback m name)" and ?fin = "a + word_of_nat (length bs - 1024)"
  obtain vs where vs: "list_all2 (seen m) vs es" "\<forall>f. Inr f \<in> set vs \<longrightarrow> placed a (length bs) f"
    "\<And>dircb filecb (x :: FileInfo result). ustar_loop fuel m lit dircb filecb a x = Inr (?fin, fold (callback_step dircb filecb) vs x)"
    using ustar_walk_placed [OF assms(1-3), where ?'a = "FileInfo result"] assms(4,6) by blast
  from root_exe_steps [OF vs(1) assms(5), of no_file] obtain fl where
    f: "fold (callback_step (Some (\<lambda>_ r. r)) ?cb) vs (Inr no_file) = Inr fl"
      "if filter (named_file w) es = [] then fl = no_file else Inr fl \<in> set vs \<and> file_seen m fl (last (filter (named_file w) es))" by blast
  have "is_archive es bs" using assms(2) by blast
  then have "find_root_exe fuel m lit a name = Inr (word_of_nat (length bs), fl)"
    unfolding find_root_exe_def IterateUSTAR_def vs(3) bindr.simps prod.case f(1) by (simp only: archive_end)
  then show ?thesis using f(2) vs(2) by (auto split: if_splits)
qed

lemma aligned_same:
  fixes d a :: u32
  assumes "unat d mod 512 = unat a mod 512"
  shows "d mod 4 = 0 \<longleftrightarrow> a mod 4 = 0"
proof -
  have "unat d mod 4 = unat a mod 4" using arg_cong [OF assms, of "\<lambda>x. x mod 4"] by (simp add: mod_mod_cancel)
  then have "unat (d mod 4) = unat (a mod 4)" by (simp add: unat_mod)
  then show ?thesis by (metis unat_eq_zero)
qed


text \<open>The table \<open>environ\<close> is printed entry by entry.\<close>

lemma printenv_packed:
  "packed_at False m t s (map entry_of ps) \<Longrightarrow> rd32 m (t + 4 * word_of_nat (length ps)) = 0 \<Longrightarrow> \<forall>p \<in> set ps. well_named p \<Longrightarrow>
    0 < unat s \<Longrightarrow> unat s + strings_size (map entry_of ps) < 4294967296 \<Longrightarrow> length ps < fuel \<Longrightarrow>
    printenv_loop fuel m t out = Inr (out @ concat (map (\<lambda>p. entry_of p @ [0x0A]) ps))"
proof (induction ps arbitrary: t s fuel out)
  case Nil
  then show ?case by (cases fuel) simp_all
next
  case (Cons p ps)
  let ?e = "entry_of p" let ?s' = "s + (word_of_nat (length ?e) + 1)"
  obtain k where k: "fuel = Suc k" "length ps < k" using Cons.prems(6) by (cases fuel) auto
  have ptr: "rd32 m t = s" "s \<noteq> 0" using Cons.prems(1,4) by auto
  have "0 \<notin> set ?e" using Cons.prems(3) by (auto simp: well_named_def entry_of_def)
  moreover have "bytes_at m s (Suc (length ?e)) = ?e @ [0]" using Cons.prems(1) by simp
  ultimately have c: "cstr_at m s = Inr ?e" by (intro cstr_at_ok cstr_region)
  have sn: "unat ?s' = unat s + Suc (length ?e)" using Cons.prems(5) by (intro next_string) simp
  have "printenv_loop k m (t + 4) (out @ ?e @ [0x0A]) = Inr ((out @ ?e @ [0x0A]) @ concat (map (\<lambda>p. entry_of p @ [0x0A]) ps))"
    by (rule Cons.IH [of "t + 4" ?s']) (use Cons.prems k sn in \<open>simp_all add: algebra_simps\<close>)
  then show ?case using k ptr c by simp
qed

text \<open>\<open>printenv\<close> prints the environment that the start of the process laid out: one line for each variable, in order.\<close>

theorem printenv_prints:
  assumes "0 < unat dst" "unat dst + env_size ps < 4294967296" "\<forall>p \<in> set ps. well_named p" "length ps < fuel"
  shows "printenv_loop fuel (ApplyRelative m dst ps) dst [] = Inr (concat (map (\<lambda>p. ev_key p @ 0x3D # ev_val p @ [0x0A]) ps))"
proof -
  let ?s = "dst + 4 * (word_of_nat (length ps) + 1)"
  have e: "4 * (word_of_nat (length ps) + 1) = (word_of_nat (4 * (length ps + 1)) :: u32)" by simp
  have s: "unat ?s = unat dst + 4 * (length ps + 1)" unfolding e by (rule unat_add_nat) (use assms(2) in \<open>simp add: env_size_def\<close>)
  have z: "unat ?s + strings_size (map entry_of ps) < 4294967296" using assms(2) s by (simp add: env_size_def)
  from apply_loop_ok [of dst ps ?s m] s z have "packed_at False (ApplyRelative m dst ps) dst ?s (map entry_of ps)"
    "rd32 (ApplyRelative m dst ps) (dst + 4 * word_of_nat (length ps)) = 0" by (simp_all add: ApplyRelative_def)
  from printenv_packed [OF this assms(3) _ z assms(4), of "[]"] s show ?thesis by (simp add: entry_of_def)
qed


text \<open>An archive with a file of that name, behind which lie the name and the literal.\<close>

definition stage_entries :: "tar_entry list" where
  "stage_entries = [TDir [0x62] [], TFile stage2_name [] [0x7F, 0x45]]"

definition stage_archive :: "u8 list" where
  "stage_archive = archive_bytes (map (Pair example_meta) stage_entries)"

definition stage_mem :: bmem where
  "stage_mem = store_bytes (store_bytes (store_bytes (\<lambda>_. 0) 0x1000 stage_archive) 0x10000 ustar_magic) 0x20000 stage2_name"

lemma stage2_chars: "stage2_name = [0x2E, 0x2F, 0x75, 0x73, 0x65, 0x72, 0x62, 0x6F, 0x6F, 0x74, 0x2D, 0x73, 0x74, 0x61, 0x67, 0x65, 0x32]"
  by (simp add: stage2_name_def msg_def)

lemma stage_archive_ok: "is_archive stage_entries stage_archive \<and> no_empty_file stage_entries" "length stage_archive = 2560"
proof -
  have "\<forall>(t, e) \<in> set (map (Pair example_meta) stage_entries). meta_ok t \<and> entry_fits e" using example_meta_ok by (auto simp: stage_entries_def stage2_chars)
  then have "is_archive (map snd (map (Pair example_meta) stage_entries)) stage_archive" unfolding stage_archive_def by (rule archive_bytes_ok)
  moreover have "map snd (map (Pair example_meta) stage_entries) = stage_entries" by (simp add: comp_def)
  ultimately have a: "is_archive stage_entries stage_archive" by (simp only:)
  moreover have "no_empty_file stage_entries" by (simp add: no_empty_file_def stage_entries_def)
  ultimately show "is_archive stage_entries stage_archive \<and> no_empty_file stage_entries" ..
  have "sum_list (map entry_len stage_entries) = 1536" by (simp add: stage_entries_def)
  then show "length stage_archive = 2560" using archive_size [OF a] by (simp only:)
qed

lemma stage_mem_facts: "bytes_at stage_mem 0x1000 (length stage_archive) = stage_archive" "cstr stage_mem 0x10000 ustar_magic" "cstr stage_mem 0x20000 stage2_name"
proof -
  show "bytes_at stage_mem 0x1000 (length stage_archive) = stage_archive"
  proof -
    have "length ustar_magic = 5" "length stage2_name = 17" by (simp_all add: ustar_magic_def stage2_chars)
    moreover have "region 0x10000 5 \<inter> region 0x1000 2560 = {}" "region 0x20000 17 \<inter> region 0x1000 2560 = {}" by (subst Int_commute, rule region_apart; simp)+
    ultimately show ?thesis
      unfolding stage_mem_def stage_archive_ok(2) using bytes_at_store [of stage_archive "\<lambda>_. 0" "0x1000"] by (simp add: bytes_at_store_out stage_archive_ok(2))
  qed
  show "cstr stage_mem 0x10000 ustar_magic" "cstr stage_mem 0x20000 stage2_name"
    by (simp_all add: stage_mem_def store_bytes_at stage_archive_ok(2) ustar_magic_def stage2_chars)
qed


theorem printenv_prints_witness:
  "printenv_loop 3 (ApplyRelative (\<lambda>_. 0) 0x1000 example_envp) 0x1000 [] = Inr ([0x50, 0x57, 0x44, 0x3D, 0x2F, 0x0A] @ [0x50, 0x3D, 0x0A])"
proof -
  have "env_size example_envp = 21" by (simp add: env_size_def example_envp_def entry_of_def new_pair_def)
  moreover have "\<forall>p \<in> set example_envp. well_named p" "length example_envp < 3" by (simp_all add: example_envp_def new_pair_def well_named_def)
  ultimately show ?thesis using printenv_prints [of "0x1000" example_envp 3 "\<lambda>_. 0"] by (simp add: example_envp_def new_pair_def)
qed

lemma ls_loop_files: "ls_loop fuel d (concat (map (\<lambda>f. f @ [0x0A]) fs)) = bindr (files_loop fuel d fs) (\<lambda>names. Inr (concat (map (\<lambda>f. f @ [0x0A]) names)))"
proof (induction fuel arbitrary: d fs)
  case (Suc fuel)
  have "ls_loop fuel d' (concat (map (\<lambda>f. f @ [0x0A]) fs) @ up_to_nul name @ [0x0A])
      = bindr (files_loop fuel d' (fs @ [up_to_nul name])) (\<lambda>names. Inr (concat (map (\<lambda>f. f @ [0x0A]) names)))" for d' name
    using Suc [of d' "fs @ [up_to_nul name]"] by simp
  then show ?case by (simp split: option.split)
qed simp

text \<open>\<open>ls\<close> with the absolute path of a directory prints the names in it, one a line, in the order they were added, each cut to 255 characters, and exits with 0; for any other
  absolute path it prints that there is no such directory and exits with 1.\<close>

theorem ls_lists:
  assumes "clean cs" "gGlobalFs s = Some root"
  shows "(tree_map root cs \<noteq> Some None \<longrightarrow> ls_main fuel s [cmd, kPathSep # path_str cs] = Inr (1, msg ''No directory named '' @ [0x27] @ (kPathSep # path_str cs) @ [0x27, 0x0A]))
    \<and> (tree_map root cs = Some None \<longrightarrow> (\<exists>name ns. find_node cs root = Some (Dir name ns) \<and> (length ns < fuel \<longrightarrow>
        ls_main fuel s [cmd, kPathSep # path_str cs] = Inr (0, concat (map (\<lambda>n. up_to_nul (take (DNAME_SIZE - 1) (getName n)) @ [0x0A]) ns)))))"
proof -
  from GetNodeFromPath_find [OF assms, of fuel] obtain p where p: "GetNodeFromPath fuel s (kPathSep # path_str cs) = Inr p"
    "case p of None \<Rightarrow> find_node cs root = None | Some q \<Rightarrow> q \<noteq> [] \<and> node_at root q = find_node cs root \<and> find_node cs root \<noteq> None" by blast
  have fs: "the_fs s = root" using assms(2) by (simp add: the_fs_def)
  show ?thesis
  proof (cases p)
    case None
    then show ?thesis using p by (simp add: ls_main_def opendir_def tree_map_def)
  next
    case (Some q)
    with p(2) obtain n where n: "node_at root q = Some n" "find_node cs root = Some n" by auto
    show ?thesis
    proof (cases n)
      case (File nm d sz)
      then show ?thesis using p(1) Some n fs by (simp add: ls_main_def opendir_def tree_map_def get_node_def isDir_def)
    next
      case (Dir nm ns)
      have "ls_main fuel s [cmd, kPathSep # path_str cs] = Inr (0, concat (map (\<lambda>n. up_to_nul (take (DNAME_SIZE - 1) (getName n)) @ [0x0A]) ns))" if "length ns < fuel"
        using that p(1) Some n(1) fs Dir ls_loop_files [of fuel "\<lparr>dir_it = 0, dir_names = ns\<rparr>" "[]"] files_loop_ok [of "\<lparr>dir_it = 0, dir_names = ns\<rparr>" fuel "[]"]
        by (simp add: ls_main_def opendir_def get_node_def isDir_def comp_def)
      then show ?thesis using n(2) Dir by (simp add: tree_map_def)
    qed
  qed
qed

theorem ls_lists_witness:
  "ls_main 3 (example_shell []) [msg ''ls'', [0x2F, 0x62]] = Inr (0, [0x6C, 0x73, 0x0A] @ [0x63, 0x0A])"
proof -
  have c: "clean [[0x62]]" by (simp add: clean_def path_ok_def name_ok_def kPathSep_def isspace_def npos_def)
  have g: "gGlobalFs (example_shell []) = Some [Dir [0x62] [File [0x6C, 0x73] 0 0, File [0x63] 0 0], File [0x6C] 0 0]" by (simp add: example_shell_def)
  from ls_lists [OF c g, of 3 "msg ''ls''"] show ?thesis by (simp add: tree_map_Cons kPathSep_def up_to_nul_def DNAME_SIZE_def)
qed


end
