(* ===== verification/Vector.thy ===== *)
theory Vector
  imports Prelude
begin

text \<open>
  \<open>std::vector\<close>, \<open>src/libcxx/include/vector\<close>: the block of elements, the number of elements in use and the capacity, with sizes as 32-bit numbers that wrap as \<open>size_t\<close> does. A slot of the block that was never
  constructed, or whose element was destroyed, is \<open>None\<close>. \<open>vec_env\<close> is what the instance and the heap decide: \<open>sizeof(T)\<close>, whether assigning to storage without an element is harmless (\<open>T\<close> is trivial), and for which
  number of bytes \<open>malloc\<close> has a block; a null pointer faults when it is written through.
  The other theories use lists where the code uses vectors (\<open>Channel\<close>, where the address of the elements matters, has the block at its address); this theory is
  why they may.
\<close>

section \<open>The code\<close>

record vec_env =
  elem_size :: u32
  elem_trivial :: bool
  mem_ok :: "u32 \<Rightarrow> bool"

record 'a vector =
  vec_size :: u32
  vec_elements :: "'a option list option"
  vec_space :: u32

definition vec_new :: "'a vector" where
  "vec_new = \<lparr>vec_size = 0, vec_elements = None, vec_space = 0\<rparr>"

text \<open>\<open>malloc(sizeof(T) * n)\<close>: the product wraps, and the block has as many slots as fit into its bytes.\<close>

definition vec_malloc :: "vec_env \<Rightarrow> u32 \<Rightarrow> 'a option list option" where
  "vec_malloc E n = (let bytes = elem_size E * n in if mem_ok E bytes then Some (replicate (unat bytes div unat (elem_size E)) None) else None)"

definition vec_sized :: "vec_env \<Rightarrow> u32 \<Rightarrow> 'a vector" where
  "vec_sized E s = \<lparr>vec_size = s, vec_elements = vec_malloc E s, vec_space = s\<rparr>"

text \<open>Reading an element through \<open>_elements\<close>, constructing or destroying one, and assigning to one, none of which the code checks.\<close>

definition vec_get :: "'a vector \<Rightarrow> nat \<Rightarrow> 'a result" where
  "vec_get v i =
     (case vec_elements v of None \<Rightarrow> Inl Page_fault
      | Some xs \<Rightarrow> if i < length xs then (case xs ! i of None \<Rightarrow> Inl Use_after_free | Some x \<Rightarrow> Inr x) else Inl Out_of_bounds)"

definition vec_put :: "'a vector \<Rightarrow> nat \<Rightarrow> 'a option \<Rightarrow> 'a vector result" where
  "vec_put v i x =
     (case vec_elements v of None \<Rightarrow> Inl Page_fault
      | Some xs \<Rightarrow> if i < length xs then Inr (v\<lparr>vec_elements := Some (xs[i := x])\<rparr>) else Inl Out_of_bounds)"

definition vec_store :: "vec_env \<Rightarrow> 'a vector \<Rightarrow> nat \<Rightarrow> 'a \<Rightarrow> 'a vector result" where
  "vec_store E v i x =
     (case vec_elements v of None \<Rightarrow> Inl Page_fault
      | Some xs \<Rightarrow> if i < length xs then if xs ! i = None \<and> \<not> elem_trivial E then Inl Use_after_free else vec_put v i (Some x) else Inl Out_of_bounds)"

text \<open>
  The loops that copy elements from another block, by assignment in the copy constructor and by construction in \<open>reserve\<close>. An \<open>int\<close> that counts is compared as an unsigned number and wraps into the address in the same way,
  so the positions are those of a \<open>size_t\<close>.
\<close>

fun vec_copy_loop :: "vec_env \<Rightarrow> 'a vector \<Rightarrow> 'a vector \<Rightarrow> nat list \<Rightarrow> 'a vector result" where
  "vec_copy_loop E v arg [] = Inr v"
| "vec_copy_loop E v arg (index # is) = bindr (vec_get arg index) (\<lambda>x. bindr (vec_store E v index x) (\<lambda>v'. vec_copy_loop E v' arg is))"

definition vec_copy :: "vec_env \<Rightarrow> 'a vector \<Rightarrow> 'a vector result" where
  "vec_copy E arg =
     vec_copy_loop E \<lparr>vec_size = vec_size arg, vec_elements = vec_malloc E (vec_size arg), vec_space = vec_space arg\<rparr> arg [0..<unat (vec_size arg)]"

text \<open>Assignment; \<open>same\<close> says that both sides are the same object. With enough space the loop returns after its first element; otherwise the new block is not allocated, its size is taken for its address.\<close>

definition vec_assign :: "vec_env \<Rightarrow> bool \<Rightarrow> 'a vector \<Rightarrow> 'a vector \<Rightarrow> 'a vector result" where
  "vec_assign E same v a =
     (if same then Inr v
      else if vec_size a \<le> vec_space v \<and> vec_size a \<noteq> 0
      then bindr (vec_get a 0) (\<lambda>x. bindr (vec_store E v 0 x) (\<lambda>v'. Inr (v'\<lparr>vec_size := vec_size a\<rparr>)))
      else if vec_size a \<noteq> 0 then Inl Out_of_bounds
      else Inr \<lparr>vec_size = 0, vec_elements = None, vec_space = 0\<rparr>)"

fun vec_move_loop :: "'a vector \<Rightarrow> 'a vector \<Rightarrow> nat list \<Rightarrow> 'a vector result" where
  "vec_move_loop v arg [] = Inr v"
| "vec_move_loop v arg (i # is) = bindr (vec_get arg i) (\<lambda>x. bindr (vec_put v i (Some x)) (\<lambda>v'. vec_move_loop v' arg is))"

definition vec_reserve :: "vec_env \<Rightarrow> 'a vector \<Rightarrow> u32 \<Rightarrow> 'a vector result" where
  "vec_reserve E v newalloc =
     (if newalloc \<le> vec_space v then Inr v
      else bindr (vec_move_loop (v\<lparr>vec_elements := vec_malloc E newalloc\<rparr>) v [0..<unat (vec_size v)]) (\<lambda>v'. Inr (v'\<lparr>vec_space := newalloc\<rparr>)))"

definition vec_ReserveMoreIfNeeded :: "vec_env \<Rightarrow> 'a vector \<Rightarrow> 'a vector result" where
  "vec_ReserveMoreIfNeeded E v =
     (if vec_space v = 0 then vec_reserve E v 8 else if vec_size v = vec_space v then vec_reserve E v (2 * vec_space v) else Inr v)"

definition vec_push_back :: "vec_env \<Rightarrow> 'a vector \<Rightarrow> 'a \<Rightarrow> 'a vector result" where
  "vec_push_back E v d =
     bindr (vec_ReserveMoreIfNeeded E v) (\<lambda>v1. bindr (vec_put v1 (unat (vec_size v1)) (Some d)) (\<lambda>v2. Inr (v2\<lparr>vec_size := vec_size v2 + 1\<rparr>)))"

text \<open>\<open>push_back\<close> of an element of the vector itself: when the block moves, the reference is to the block that \<open>reserve\<close> has freed.\<close>

definition vec_push_back_own :: "vec_env \<Rightarrow> 'a vector \<Rightarrow> nat \<Rightarrow> 'a vector result" where
  "vec_push_back_own E v i =
     bindr (vec_ReserveMoreIfNeeded E v) (\<lambda>v1.
     if vec_space v1 \<noteq> vec_space v then Inl Use_after_free
     else bindr (vec_get v1 i) (\<lambda>d. bindr (vec_put v1 (unat (vec_size v1)) (Some d)) (\<lambda>v2. Inr (v2\<lparr>vec_size := vec_size v2 + 1\<rparr>))))"

fun vec_fill_loop :: "vec_env \<Rightarrow> 'a vector \<Rightarrow> nat list \<Rightarrow> 'a \<Rightarrow> 'a vector result" where
  "vec_fill_loop E v [] val = Inr v"
| "vec_fill_loop E v (index # is) val = bindr (vec_store E v index val) (\<lambda>v'. vec_fill_loop E v' is val)"

definition vec_resize :: "vec_env \<Rightarrow> 'a vector \<Rightarrow> u32 \<Rightarrow> 'a \<Rightarrow> 'a vector result" where
  "vec_resize E v newsize val =
     bindr (vec_reserve E v newsize) (\<lambda>v1. bindr (vec_fill_loop E v1 [unat (vec_size v1)..<unat newsize] val) (\<lambda>v2. Inr (v2\<lparr>vec_size := newsize\<rparr>)))"

text \<open>\<open>pop_back\<close>; the position wraps for an empty vector.\<close>

definition vec_pop_back :: "'a vector \<Rightarrow> 'a vector result" where
  "vec_pop_back v = bindr (vec_put v (unat (vec_size v - 1)) None) (\<lambda>v'. Inr (v'\<lparr>vec_size := vec_size v - 1\<rparr>))"

fun vec_shift_loop :: "'a vector \<Rightarrow> nat list \<Rightarrow> 'a vector result" where
  "vec_shift_loop v [] = Inr v"
| "vec_shift_loop v (j # js) = bindr (vec_get v j) (\<lambda>x. bindr (vec_put v (j - 1) (Some x)) (\<lambda>v'. vec_shift_loop v' js))"

text \<open>\<open>erase\<close> at a position: the position it returns and the vector.\<close>

definition vec_erase :: "'a vector \<Rightarrow> nat \<Rightarrow> (nat \<times> 'a vector) result" where
  "vec_erase v pos =
     (if pos < unat (vec_size v)
      then bindr (vec_put v pos None) (\<lambda>v1. bindr (vec_shift_loop v1 [pos + 1..<unat (vec_size v1)]) (\<lambda>v2. Inr (pos + 1, v2\<lparr>vec_size := vec_size v2 - 1\<rparr>)))
      else Inr (unat (vec_size v), v))"

text \<open>\<open>clear\<close> destroys the elements and keeps their number.\<close>

fun vec_clear_loop :: "'a vector \<Rightarrow> nat list \<Rightarrow> 'a vector result" where
  "vec_clear_loop v [] = Inr v"
| "vec_clear_loop v (i # is) = bindr (vec_put v i None) (\<lambda>v'. vec_clear_loop v' is)"

definition vec_clear :: "'a vector \<Rightarrow> 'a vector result" where
  "vec_clear v = vec_clear_loop v [0..<unat (vec_size v)]"

definition vec_at :: "'a vector \<Rightarrow> u32 \<Rightarrow> 'a result" where
  "vec_at v n = (if vec_size v \<le> n then Inl Abort_called else vec_get v (unat n))"

definition vec_back :: "'a vector \<Rightarrow> 'a result" where
  "vec_back v = vec_get v (unat (vec_size v - 1))"

definition vec_empty :: "'a vector \<Rightarrow> bool" where
  "vec_empty v \<longleftrightarrow> vec_size v = 0"

section \<open>Vectors are lists\<close>

text \<open>A vector with the elements \<open>ys\<close>: they are at the start of its block, and the block fits into the memory. \<open>vec_room\<close> says that \<open>malloc\<close> has a block for \<open>n\<close> elements.\<close>

definition vec_holds :: "vec_env \<Rightarrow> 'a vector \<Rightarrow> 'a list \<Rightarrow> bool" where
  "vec_holds E v ys \<longleftrightarrow> 0 < elem_size E \<and> unat (elem_size E) * unat (vec_space v) < 4294967296 \<and> unat (vec_size v) = length ys
     \<and> (case vec_elements v of None \<Rightarrow> ys = [] \<and> vec_space v = 0 | Some xs \<Rightarrow> \<exists>zs. xs = map Some ys @ zs \<and> unat (vec_space v) = length xs)"

definition vec_room :: "vec_env \<Rightarrow> nat \<Rightarrow> bool" where
  "vec_room E n \<longleftrightarrow> unat (elem_size E) * n < 4294967296 \<and> mem_ok E (elem_size E * word_of_nat n)"

lemma vec_holdsE:
  assumes "vec_holds E v ys"
  obtains "vec_elements v = None" "ys = []" "unat (vec_size v) = 0" "vec_space v = 0"
  | zs where "vec_elements v = Some (map Some ys @ zs)" "unat (vec_size v) = length ys" "unat (vec_space v) = length ys + length zs"
  using assms by (cases "vec_elements v") (auto simp: vec_holds_def)

lemma vec_holds_size: "vec_holds E v ys \<Longrightarrow> unat (vec_size v) = length ys"
  by (simp add: vec_holds_def)

lemma vec_holds_le: "vec_holds E v ys \<Longrightarrow> length ys \<le> unat (vec_space v)"
  by (auto elim: vec_holdsE)

lemma vec_holds_env: "vec_holds E v ys \<Longrightarrow> 0 < unat (elem_size E)"
  by (simp add: vec_holds_def word_less_nat_alt)

lemma vec_get_holds: "vec_holds E v ys \<Longrightarrow> i < length ys \<Longrightarrow> vec_get v i = Inr (ys ! i)"
  by (erule vec_holdsE) (auto simp: vec_get_def nth_append)

lemma vec_put_mid: "vec_elements v = Some (us @ o1 # zs) \<Longrightarrow> vec_put v (length us) x = Inr (v\<lparr>vec_elements := Some (us @ x # zs)\<rparr>)"
  by (simp add: vec_put_def)

lemma vec_store_mid: "vec_elements v = Some (us @ o1 # zs) \<Longrightarrow> elem_trivial E \<or> o1 \<noteq> None \<Longrightarrow> vec_store E v (length us) x = Inr (v\<lparr>vec_elements := Some (us @ Some x # zs)\<rparr>)"
  using vec_put_mid [of v us o1 zs "Some x"] by (auto simp: vec_store_def)

lemma bytes_of_slots:
  assumes "unat (elem_size E) * n < 4294967296" "0 < elem_size E"
  shows "unat (word_of_nat n :: u32) = n" "unat (elem_size E * word_of_nat n) = unat (elem_size E) * n"
proof -
  have "0 < unat (elem_size E)" using assms(2) by (simp add: word_less_nat_alt)
  then have "n \<le> unat (elem_size E) * n" by (cases "unat (elem_size E)") simp_all
  then show u: "unat (word_of_nat n :: u32) = n" using assms(1) by (intro unat_of_nat_u32 le_less_trans [of n])
  have "elem_size E * word_of_nat n = word_of_nat (unat (elem_size E) * n)" by simp
  then show "unat (elem_size E * word_of_nat n) = unat (elem_size E) * n" using assms(1) unat_of_nat_u32 [of "unat (elem_size E) * n"] by (simp only:) 
qed

lemma vec_malloc_room: "vec_room E n \<Longrightarrow> 0 < elem_size E \<Longrightarrow> vec_malloc E (word_of_nat n) = Some (replicate n None)"
  using bytes_of_slots [of E n] by (simp add: vec_malloc_def vec_room_def Let_def word_less_nat_alt)

text \<open>What the loops do to the block.\<close>

lemma vec_move_loop_holds:
  assumes "vec_holds E arg ys" "i \<le> length ys" "vec_elements v = Some (map Some (take i ys) @ zs)" "length ys - i \<le> length zs"
  shows "vec_move_loop v arg [i..<length ys] = Inr (v\<lparr>vec_elements := Some (map Some ys @ drop (length ys - i) zs)\<rparr>)"
  using assms(2-4)
proof (induction "length ys - i" arbitrary: i v zs)
  case 0
  then show ?case by simp
next
  case (Suc n)
  then have i: "i < length ys" by simp
  obtain z zs' where z: "zs = z # zs'" using Suc.prems(3) Suc.hyps(2) by (cases zs) auto
  have "length (map Some (take i ys)) = i" using i by simp
  then have p: "vec_put v i (Some (ys ! i)) = Inr (v\<lparr>vec_elements := Some (map Some (take i ys) @ Some (ys ! i) # zs')\<rparr>)"
    using vec_put_mid [of v "map Some (take i ys)" z zs' "Some (ys ! i)"] Suc.prems(2) z by simp
  let ?v = "v\<lparr>vec_elements := Some (map Some (take i ys) @ Some (ys ! i) # zs')\<rparr>"
  have "vec_move_loop ?v arg [Suc i..<length ys] = Inr (?v\<lparr>vec_elements := Some (map Some ys @ drop (length ys - Suc i) zs')\<rparr>)"
    by (rule Suc.hyps(1)) (use Suc.hyps(2) Suc.prems(3) i z in \<open>auto simp: take_Suc_conv_app_nth\<close>)
  moreover have "drop (length ys - i) zs = drop (length ys - Suc i) zs'" using i z by (simp add: drop_Cons')
  ultimately show ?case using i vec_get_holds [OF assms(1) i] p by (simp add: upt_conv_Cons)
qed

text \<open>A block that is too small: the loop writes behind it.\<close>

lemma vec_move_loop_overruns:
  assumes "vec_holds E arg ys" "n < length ys"
  shows "i \<le> n \<Longrightarrow> vec_elements v' = Some xs' \<Longrightarrow> length xs' = n \<Longrightarrow> vec_move_loop v' arg [i..<length ys] = Inl Out_of_bounds"
proof (induction "n - i" arbitrary: i v' xs')
  case 0
  then have i: "i = n" by simp
  have "vec_put v' i (Some x) = Inl Out_of_bounds" for x using 0 i by (simp add: vec_put_def)
  then show ?case using i assms(2) vec_get_holds [OF assms(1), of i] by (simp add: upt_conv_Cons)
next
  case (Suc k)
  then have i: "i < n" by simp
  let ?v = "v'\<lparr>vec_elements := Some (xs'[i := Some (ys ! i)])\<rparr>"
  have "vec_put v' i (Some (ys ! i)) = Inr ?v" using Suc.prems i by (simp add: vec_put_def)
  moreover have "vec_move_loop ?v arg [Suc i..<length ys] = Inl Out_of_bounds" 
    using Suc.hyps(1) [of "Suc i" ?v "xs'[i := Some (ys ! i)]"] Suc.hyps(2) Suc.prems i by simp
  ultimately show ?case using i assms(2) vec_get_holds [OF assms(1), of i] by (simp add: upt_conv_Cons)
qed

lemma vec_shift_loop_holds:
  "vec_elements v = Some (map Some us @ o1 # map Some ws @ zs) \<Longrightarrow>
    \<exists>o2. vec_shift_loop v [Suc (length us)..<Suc (length us + length ws)] = Inr (v\<lparr>vec_elements := Some (map Some (us @ ws) @ o2 # zs)\<rparr>)"
proof (induction ws arbitrary: v us o1)
  case Nil
  then have "v = v\<lparr>vec_elements := Some (map Some us @ o1 # zs)\<rparr>" by simp
  then show ?case by (auto intro!: exI [of _ o1])
next
  case (Cons w ws)
  have g: "vec_get v (Suc (length us)) = Inr w" using Cons.prems by (simp add: vec_get_def nth_append)
  have p: "vec_put v (length us) (Some w) = Inr (v\<lparr>vec_elements := Some (map Some us @ Some w # Some w # map Some ws @ zs)\<rparr>)"
    using vec_put_mid [of v "map Some us" o1 "map Some (w # ws) @ zs" "Some w"] Cons.prems by simp
  let ?v = "v\<lparr>vec_elements := Some (map Some us @ Some w # Some w # map Some ws @ zs)\<rparr>"
  from Cons.IH [of ?v "us @ [w]" "Some w"] obtain o2 where
    "vec_shift_loop ?v [Suc (length (us @ [w]))..<Suc (length (us @ [w]) + length ws)] = Inr (?v\<lparr>vec_elements := Some (map Some ((us @ [w]) @ ws) @ o2 # zs)\<rparr>)" by auto
  then show ?case using g p by (auto simp: upt_conv_Cons simp del: upt_Suc)
qed

lemma vec_fill_loop_holds:
  assumes "elem_trivial E" "vec_elements v = Some (map Some ys @ zs)" "n \<le> length zs"
  shows "vec_fill_loop E v [length ys..<length ys + n] val = Inr (v\<lparr>vec_elements := Some (map Some (ys @ replicate n val) @ drop n zs)\<rparr>)"
  using assms(2,3)
proof (induction n arbitrary: v ys zs)
  case (Suc n)
  obtain z zs' where z: "zs = z # zs'" using Suc.prems(2) by (cases zs) auto
  have p: "vec_store E v (length ys) val = Inr (v\<lparr>vec_elements := Some (map Some ys @ Some val # zs')\<rparr>)"
    using vec_store_mid [of v "map Some ys" z zs' E val] Suc.prems(1) z assms(1) by simp
  have "vec_fill_loop E (v\<lparr>vec_elements := Some (map Some ys @ Some val # zs')\<rparr>) [length (ys @ [val])..<length (ys @ [val]) + n] val
      = Inr (v\<lparr>vec_elements := Some (map Some ((ys @ [val]) @ replicate n val) @ drop n zs')\<rparr>)"
    using Suc.IH [of "v\<lparr>vec_elements := Some (map Some ys @ Some val # zs')\<rparr>" "ys @ [val]" zs'] Suc.prems(2) z by simp
  then show ?case using p z by (simp add: upt_conv_Cons del: upt_Suc)
qed simp

lemma vec_copy_loop_holds:
  assumes "vec_holds E arg ys" "elem_trivial E" "i \<le> length ys" "vec_elements v = Some (map Some (take i ys) @ zs)" "length ys - i \<le> length zs"
  shows "vec_copy_loop E v arg [i..<length ys] = Inr (v\<lparr>vec_elements := Some (map Some ys @ drop (length ys - i) zs)\<rparr>)"
proof -
  have "vec_copy_loop E w arg is = vec_move_loop w arg is" for w :: "'a vector" and "is"
    using assms(2) by (induction "is" arbitrary: w) (simp_all add: vec_store_def vec_put_def cong: option.case_cong if_cong)
  then show ?thesis using vec_move_loop_holds [OF assms(1,3-5)] by simp
qed

lemma vec_clear_loop_holds:
  assumes "vec_elements v = Some (replicate i None @ map Some us @ zs)"
  shows "vec_clear_loop v [i..<i + length us] = Inr (v\<lparr>vec_elements := Some (replicate (i + length us) None @ zs)\<rparr>)"
  using assms
proof (induction us arbitrary: v i)
  case (Cons u us)
  have r: "replicate i None @ None # map Some us @ zs = replicate (Suc i) None @ map Some us @ zs" by (simp add: replicate_app_Cons_same)
  have "vec_put v i None = Inr (v\<lparr>vec_elements := Some (replicate (Suc i) None @ map Some us @ zs)\<rparr>)"
    using vec_put_mid [of v "replicate i None" "Some u" "map Some us @ zs" None] Cons.prems unfolding r by simp
  moreover have "vec_clear_loop (v\<lparr>vec_elements := Some (replicate (Suc i) None @ map Some us @ zs)\<rparr>) [Suc i..<Suc i + length us]
      = Inr (v\<lparr>vec_elements := Some (replicate (Suc i + length us) None @ zs)\<rparr>)"
    using Cons.IH [of "v\<lparr>vec_elements := Some (replicate (Suc i) None @ map Some us @ zs)\<rparr>" "Suc i"] by simp
  ultimately show ?case by (simp add: upt_conv_Cons del: upt_Suc replicate_Suc)
next
  case Nil
  then have "v = v\<lparr>vec_elements := Some (replicate i None @ zs)\<rparr>" by simp
  then show ?case by simp
qed

text \<open>The operations.\<close>

lemma vec_reserve_holds:
  assumes "vec_holds E v ys" "n \<le> vec_space v \<or> vec_room E (unat n)"
  shows "\<exists>v'. vec_reserve E v n = Inr v' \<and> vec_holds E v' ys \<and> vec_space v' = max n (vec_space v)"
proof (cases "n \<le> vec_space v")
  case False
  then have lt: "unat (vec_space v) < unat n" by (simp add: word_less_nat_alt not_le)
  have room: "vec_room E (unat n)" using False assms(2) by blast
  have le: "length ys \<le> unat (vec_space v)" and E: "0 < elem_size E" using vec_holds_le [OF assms(1)] assms(1) by (simp_all add: vec_holds_def)
  have m: "vec_malloc E n = Some (replicate (unat n) (None :: 'a option))" using vec_malloc_room [OF room E] by simp
  have "vec_move_loop (v\<lparr>vec_elements := vec_malloc E n\<rparr>) v [0..<length ys] = Inr (v\<lparr>vec_elements := Some (map Some ys @ replicate (unat n - length ys) None)\<rparr>)"
    using vec_move_loop_holds [OF assms(1), of 0 "v\<lparr>vec_elements := vec_malloc E n\<rparr>" "replicate (unat n) None"] m le lt by simp
  then show ?thesis using False le lt E room vec_holds_size [OF assms(1)] by (simp add: vec_reserve_def vec_holds_def vec_room_def)
qed (use assms in \<open>auto simp: vec_reserve_def max_def\<close>)

definition vec_next :: "'a vector \<Rightarrow> nat" where
  "vec_next v = (if vec_space v = 0 then 8 else 2 * unat (vec_space v))"

lemma vec_more_holds:
  assumes "vec_holds E v ys" "length ys < unat (vec_space v) \<or> vec_room E (vec_next v)"
  shows "\<exists>v'. vec_ReserveMoreIfNeeded E v = Inr v' \<and> vec_holds E v' ys \<and> length ys < unat (vec_space v')
    \<and> vec_space v' = (if length ys < unat (vec_space v) then vec_space v else word_of_nat (vec_next v))"
proof (cases "length ys < unat (vec_space v)")
  case True
  then have "vec_space v \<noteq> 0" "vec_size v \<noteq> vec_space v" using vec_holds_size [OF assms(1)] by auto
  then show ?thesis using True assms(1) by (simp add: vec_ReserveMoreIfNeeded_def)
next
  case False
  then have len: "length ys = unat (vec_space v)" using vec_holds_le [OF assms(1)] by simp
  then have sz: "vec_size v = vec_space v" using vec_holds_size [OF assms(1)] by (simp add: unsigned_word_eqI)
  let ?n = "word_of_nat (vec_next v) :: u32"
  have E: "0 < elem_size E" using assms(1) by (simp add: vec_holds_def)
  have room: "vec_room E (vec_next v)" using False assms(2) by blast
  then have u: "unat ?n = vec_next v" using bytes_of_slots(1) [OF _ E] by (simp add: vec_room_def)
  have m: "vec_ReserveMoreIfNeeded E v = vec_reserve E v ?n" using sz by (simp add: vec_ReserveMoreIfNeeded_def vec_next_def)
  have "vec_space v < ?n" using u by (simp add: word_less_nat_alt vec_next_def split: if_splits) (simp add: unat_gt_0 word_neq_0_conv)
  then have "max ?n (vec_space v) = ?n" "unat (vec_space v) < vec_next v" using u by (simp add: max.absorb1, simp add: word_less_nat_alt)
  then show ?thesis using vec_reserve_holds [OF assms(1), of ?n] room u len False m by auto
qed

lemma vec_put_back_holds:
  assumes "vec_holds E v ys" "length ys < unat (vec_space v)"
  shows "\<exists>v'. bindr (vec_put v (unat (vec_size v)) (Some d)) (\<lambda>v2. Inr (v2\<lparr>vec_size := vec_size v2 + 1\<rparr>)) = Inr v' \<and> vec_holds E v' (ys @ [d])"
proof -
  from assms obtain z zs where e: "vec_elements v = Some (map Some ys @ z # zs)" "unat (vec_size v) = length ys" "unat (vec_space v) = length ys + length (z # zs)"
    by (auto elim!: vec_holdsE simp: length_Suc_conv neq_Nil_conv)
  have p: "vec_put v (unat (vec_size v)) (Some d) = Inr (v\<lparr>vec_elements := Some (map Some ys @ Some d # zs)\<rparr>)"
    using vec_put_mid [of v "map Some ys" z zs "Some d"] e by simp
  have "unat (vec_size v) + 1 < 4294967296" using assms e(2) unat_lt_u32 [of "vec_space v"] by simp
  then have "unat (vec_size v + 1) = Suc (length ys)" using e(2) by (simp add: unat_plus_if_size word_size)
  then show ?thesis using p e assms(1) by (auto simp: vec_holds_def)
qed

lemma vec_push_holds:
  assumes "vec_holds E v ys" "length ys < unat (vec_space v) \<or> vec_room E (vec_next v)"
  shows "\<exists>v'. vec_push_back E v d = Inr v' \<and> vec_holds E v' (ys @ [d])"
  using vec_more_holds [OF assms] vec_put_back_holds by (fastforce simp: vec_push_back_def)

lemma vec_size_less: "vec_holds E v ys \<Longrightarrow> ys \<noteq> [] \<Longrightarrow> unat (vec_size v - 1) = length ys - 1"
  using unat_minus_one [of "vec_size v"] vec_holds_size [of E v ys] by (cases "vec_size v = 0") auto

lemma vec_erase_holds:
  assumes "vec_holds E v ys" "pos < length ys"
  shows "\<exists>v'. vec_erase v pos = Inr (pos + 1, v') \<and> vec_holds E v' (take pos ys @ drop (Suc pos) ys)"
proof -
  from assms obtain zs where e: "vec_elements v = Some (map Some ys @ zs)" "unat (vec_size v) = length ys" "unat (vec_space v) = length ys + length zs" by (auto elim: vec_holdsE)
  have l': "unat (vec_size v - 1) = length ys - 1" by (rule vec_size_less [OF assms(1)]) (use assms(2) in auto)
  let ?us = "take pos ys" and ?ws = "drop (Suc pos) ys"
  have ys: "ys = ?us @ ys ! pos # ?ws" and l: "length ?us = pos" using assms(2) by (simp_all add: id_take_nth_drop)
  have "map Some ys @ zs = map Some ?us @ Some (ys ! pos) # map Some ?ws @ zs" by (subst ys) simp
  then have p: "vec_put v pos None = Inr (v\<lparr>vec_elements := Some (map Some ?us @ None # map Some ?ws @ zs)\<rparr>)"
    using vec_put_mid [of v "map Some ?us" "Some (ys ! pos)" "map Some ?ws @ zs" None] e(1) l by simp
  from vec_shift_loop_holds [of "v\<lparr>vec_elements := Some (map Some ?us @ None # map Some ?ws @ zs)\<rparr>" ?us None ?ws zs] l obtain o2 where
    "vec_shift_loop (v\<lparr>vec_elements := Some (map Some ?us @ None # map Some ?ws @ zs)\<rparr>) [Suc pos..<Suc (pos + length ?ws)] = Inr (v\<lparr>vec_elements := Some (map Some (?us @ ?ws) @ o2 # zs)\<rparr>)"
    by (auto simp del: upt_Suc)
  moreover have "Suc (pos + length ?ws) = length ys" using assms(2) by simp
  ultimately have
    "vec_shift_loop (v\<lparr>vec_elements := Some (map Some ?us @ None # map Some ?ws @ zs)\<rparr>) [Suc pos..<length ys] = Inr (v\<lparr>vec_elements := Some (map Some (?us @ ?ws) @ o2 # zs)\<rparr>)"
    by (simp only:)
  then show ?thesis using p e assms(1,2) l' by (auto simp: vec_erase_def vec_holds_def)
qed

lemma vec_pop_holds:
  assumes "vec_holds E v ys" "ys \<noteq> []"
  shows "\<exists>v'. vec_pop_back v = Inr v' \<and> vec_holds E v' (butlast ys)"
proof -
  from assms obtain zs where e: "vec_elements v = Some (map Some ys @ zs)" "unat (vec_size v) = length ys" "unat (vec_space v) = length ys + length zs" by (auto elim: vec_holdsE)
  obtain us y where ys: "ys = us @ [y]" using assms(2) by (cases ys rule: rev_cases) auto
  then have "vec_put v (length us) None = Inr (v\<lparr>vec_elements := Some (map Some us @ None # zs)\<rparr>)"
    using vec_put_mid [of v "map Some us" "Some y" zs None] e(1) by simp
  then show ?thesis using e ys assms vec_size_less [OF assms(1)] by (auto simp: vec_pop_back_def vec_holds_def)
qed

lemma vec_resize_holds:
  assumes "vec_holds E v ys" "unat n \<le> length ys \<or> elem_trivial E" "n \<le> vec_space v \<or> vec_room E (unat n)"
  shows "\<exists>v'. vec_resize E v n val = Inr v' \<and> vec_holds E v' (take (unat n) ys @ replicate (unat n - length ys) val)"
proof -
  obtain v1 where v1: "vec_reserve E v n = Inr v1" "vec_holds E v1 ys" "n \<le> vec_space v1" using vec_reserve_holds [OF assms(1,3)] by auto
  have le: "unat n \<le> unat (vec_space v1)" using v1(3) by (simp add: word_le_nat_alt)
  have c: "0 < elem_size E" "unat (elem_size E) * unat (vec_space v1) < 4294967296" using v1(2) by (simp_all add: vec_holds_def)
  from v1(2) show ?thesis
  proof (cases rule: vec_holdsE)
    case 1
    then show ?thesis using v1 c le by (simp add: vec_resize_def vec_holds_def)
  next
    case (2 zs)
    show ?thesis
    proof (cases "unat n \<le> length ys")
      case True
      then have "map Some ys @ zs = map Some (take (unat n) ys) @ map Some (drop (unat n) ys) @ zs" by (metis append_assoc append_take_drop_id map_append)
      then show ?thesis using True v1(1) 2 c by (auto simp: vec_resize_def vec_holds_def)
    next
      case False
      then have "vec_fill_loop E v1 [unat (vec_size v1)..<unat n] val = Inr (v1\<lparr>vec_elements := Some (map Some (ys @ replicate (unat n - length ys) val) @ drop (unat n - length ys) zs)\<rparr>)"
        using vec_fill_loop_holds [OF _ 2(1), of E "unat n - length ys" val] assms(2) le 2 by simp
      then show ?thesis using False v1(1) le 2 c by (auto simp: vec_resize_def vec_holds_def)
    qed
  qed
qed

lemma vec_clear_holds:
  assumes "vec_holds E v ys"
  shows "\<exists>v'. vec_clear v = Inr v' \<and> vec_size v' = vec_size v \<and> (\<forall>i < length ys. vec_get v' i = Inl Use_after_free)"
  using assms
proof (cases rule: vec_holdsE)
  case 1
  then show ?thesis by (simp add: vec_clear_def)
next
  case (2 zs)
  have "vec_clear_loop v [0..<length ys] = Inr (v\<lparr>vec_elements := Some (replicate (length ys) None @ zs)\<rparr>)" using vec_clear_loop_holds [of v 0 ys zs] 2(1) by simp
  then show ?thesis using 2 by (auto simp: vec_clear_def vec_get_def nth_append)
qed

text \<open>A full vector that cannot grow: the new block has no room, since its bytes wrap, or there is none.\<close>

lemma unat_of_nat_mod_u32: "unat (word_of_nat n :: u32) = n mod 4294967296"
  by (simp add: unsigned_of_nat take_bit_eq_mod)

lemma double_mod_less: "a < 4294967296 \<Longrightarrow> 4294967296 \<le> 2 * a \<Longrightarrow> 2 * a mod 4294967296 < (a :: nat)"
  using mod_if [of "2 * a" 4294967296] mod_less [of "2 * a - 4294967296" 4294967296] le_mod_geq [of 4294967296 "2 * a"] by linarith

lemma unat_double_bytes: "unat (a * (2 * b) :: u32) = 2 * (unat a * unat b) mod 4294967296"
proof -
  have "a * (2 * b) = word_of_nat (2 * (unat a * unat b))" by (simp add: mult.left_commute)
  then show ?thesis by (simp only: unat_of_nat_mod_u32)
qed

lemma vec_next_double: "vec_space v \<noteq> 0 \<Longrightarrow> x * vec_next v = 2 * (x * unat (vec_space v))"
  by (simp add: vec_next_def)

lemma vec_holds_block: "vec_holds E v ys \<Longrightarrow> vec_space v \<noteq> 0 \<Longrightarrow> \<exists>xs. vec_elements v = Some xs \<and> length xs = unat (vec_space v)"
  by (cases "vec_elements v") (auto simp: vec_holds_def)

lemma vec_push_overflow:
  assumes "vec_holds E v ys" "length ys = unat (vec_space v)" "4294967296 \<le> unat (elem_size E) * vec_next v" "vec_space v \<noteq> 0" "\<forall>n. mem_ok E n"
  shows "vec_push_back E v d = Inl Out_of_bounds"
proof -
  let ?s = "unat (vec_space v)" and ?e = "unat (elem_size E)"
  have sz: "vec_size v = vec_space v" using assms(2) vec_holds_size [OF assms(1)] by (simp add: unsigned_word_eqI)
  have e: "0 < ?e" "?e * ?s < 4294967296" using vec_holds_env [OF assms(1)] assms(1) by (simp_all add: vec_holds_def)
  obtain xs where xs: "vec_elements v = Some xs" "length xs = ?s" using vec_holds_block [OF assms(1,4)] by blast
  have m: "vec_push_back E v d = bindr (vec_reserve E v (2 * vec_space v)) (\<lambda>v1. bindr (vec_put v1 (unat (vec_size v1)) (Some d)) (\<lambda>v2. Inr (v2\<lparr>vec_size := vec_size v2 + 1\<rparr>)))"
    using assms(4) sz by (simp add: vec_push_back_def vec_ReserveMoreIfNeeded_def)
  show ?thesis
  proof (cases "2 * vec_space v \<le> vec_space v")
    case True
    then show ?thesis using m xs sz assms(2) by (simp add: vec_reserve_def vec_put_def)
  next
    case False
    let ?b = "elem_size E * (2 * vec_space v)"
    have over: "4294967296 \<le> 2 * (?e * ?s)" using assms(3) unfolding vec_next_double [OF assms(4)] .
    have "unat ?b = (2 * (?e * ?s)) mod 4294967296" by (rule unat_double_bytes)
    also have "\<dots> < ?e * ?s" by (rule double_mod_less [OF e(2) over])
    finally have "unat ?b < ?e * ?s" .
    then have lt: "unat ?b div ?e < length ys" using e(1) assms(2) by (simp add: div_less_iff_less_mult mult.commute)
    have "vec_move_loop (v\<lparr>vec_elements := vec_malloc E (2 * vec_space v)\<rparr>) v [0..<length ys] = Inl Out_of_bounds"
      by (rule vec_move_loop_overruns [OF assms(1) lt, of 0 _ "replicate (unat ?b div ?e) None"]) (use assms(5) in \<open>simp_all add: vec_malloc_def\<close>)
    then show ?thesis using m False vec_holds_size [OF assms(1)] by (simp add: vec_reserve_def)
  qed
qed

lemma vec_push_null:
  assumes "vec_holds E v ys" "length ys = unat (vec_space v)" "vec_next v < 4294967296" "\<not> mem_ok E (elem_size E * word_of_nat (vec_next v))"
  shows "vec_push_back E v d = Inl Page_fault"
proof -
  let ?n = "word_of_nat (vec_next v) :: u32"
  have sz: "vec_size v = vec_space v" using assms(2) vec_holds_size [OF assms(1)] by (simp add: unsigned_word_eqI)
  have m: "vec_ReserveMoreIfNeeded E v = vec_reserve E v ?n" using sz by (simp add: vec_ReserveMoreIfNeeded_def vec_next_def)
  have u: "unat ?n = vec_next v" using assms(3) by (rule unat_of_nat_u32)
  have n: "\<not> ?n \<le> vec_space v" using u by (simp add: word_le_nat_alt vec_next_def split: if_splits) (simp add: unat_gt_0 word_neq_0_conv)
  have "vec_malloc E ?n = (None :: 'a option list option)" using assms(4) by (simp add: vec_malloc_def)
  then show ?thesis
    using m n vec_holds_size [OF assms(1)] vec_get_holds [OF assms(1), of 0]
    by (cases ys) (simp_all add: vec_push_back_def vec_reserve_def vec_put_def upt_conv_Cons del: upt_Suc)
qed

lemma vec_own_holds:
  assumes "vec_holds E v ys" "i < length ys" "length ys < unat (vec_space v) \<or> vec_room E (vec_next v)"
  shows "if length ys < unat (vec_space v) then \<exists>v'. vec_push_back_own E v i = Inr v' \<and> vec_holds E v' (ys @ [ys ! i]) else vec_push_back_own E v i = Inl Use_after_free"
proof -
  obtain v1 where v1: "vec_ReserveMoreIfNeeded E v = Inr v1" "vec_holds E v1 ys" "length ys < unat (vec_space v1)"
    "vec_space v1 = (if length ys < unat (vec_space v) then vec_space v else word_of_nat (vec_next v))" using vec_more_holds [OF assms(1,3)] by blast
  show ?thesis using v1 vec_put_back_holds [OF v1(2,3), of "ys ! i"] vec_get_holds [OF v1(2) assms(2)] by (auto simp: vec_push_back_own_def)
qed

lemma vec_assign_holds:
  assumes "vec_holds E v ys" "vec_holds E a zs" "ys \<noteq> []" "zs \<noteq> []" "length zs \<le> unat (vec_space v)"
  shows "\<exists>v'. vec_assign E False v a = Inr v' \<and> vec_size v' = vec_size a \<and> vec_get v' 0 = Inr (hd zs) \<and> (\<forall>i. 0 < i \<and> i < length ys \<longrightarrow> vec_get v' i = Inr (ys ! i))"
proof -
  have a: "vec_size a \<le> vec_space v" "vec_size a \<noteq> 0" "vec_get a 0 = Inr (hd zs)"
    using assms(4,5) vec_holds_size [OF assms(2)] vec_get_holds [OF assms(2), of 0] by (auto simp: word_le_nat_alt hd_conv_nth)
  obtain y yr where ys: "ys = y # yr" using assms(3) by (cases ys) auto
  obtain rs where e: "vec_elements v = Some (map Some ys @ rs)" by (rule vec_holdsE [OF assms(1)]) (use assms(3) in auto)
  have "vec_store E v 0 (hd zs) = Inr (v\<lparr>vec_elements := Some (Some (hd zs) # map Some yr @ rs)\<rparr>)" using vec_store_mid [of v "[]" "Some y" "map Some yr @ rs" E "hd zs"] e ys by simp
  then show ?thesis using a ys by (auto simp: vec_assign_def vec_get_def nth_append nth_Cons')
qed

lemma vec_assign_bad:
  assumes "vec_holds E a zs" "unat (vec_space v) < length zs"
  shows "vec_assign E False v a = Inl Out_of_bounds"
  using assms(2) vec_holds_size [OF assms(1)] by (auto simp: vec_assign_def word_le_nat_alt)

section \<open>The interface\<close>

text \<open>What the code that uses a growing array relies on: as long as the memory lasts, elements are added at the end.\<close>

fun push_each :: "('v \<Rightarrow> 'a \<Rightarrow> 'v result) \<Rightarrow> 'v \<Rightarrow> 'a list \<Rightarrow> 'v result" where
  "push_each push v [] = Inr v"
| "push_each push v (x # xs) = bindr (push v x) (\<lambda>v'. push_each push v' xs)"

fun get_each :: "('v \<Rightarrow> nat \<Rightarrow> 'a result) \<Rightarrow> 'v \<Rightarrow> nat list \<Rightarrow> 'a list result" where
  "get_each get v [] = Inr []"
| "get_each get v (i # is) = bindr (get v i) (\<lambda>x. bindr (get_each get v is) (\<lambda>xs. Inr (x # xs)))"

locale growing_array =
  fixes stored :: "'v \<Rightarrow> 'a list \<Rightarrow> bool"
    and fits :: "nat \<Rightarrow> bool"
    and push :: "'v \<Rightarrow> 'a \<Rightarrow> 'v result"
    and get :: "'v \<Rightarrow> nat \<Rightarrow> 'a result"
    and count :: "'v \<Rightarrow> nat"
  assumes push_law: "stored v ys \<Longrightarrow> fits (length ys + 1) \<Longrightarrow> \<exists>v'. push v x = Inr v' \<and> stored v' (ys @ [x])"
    and fits_law: "fits n \<Longrightarrow> m \<le> n \<Longrightarrow> fits m"
    and get_law: "stored v ys \<Longrightarrow> i < length ys \<Longrightarrow> get v i = Inr (ys ! i)"
    and count_law: "stored v ys \<Longrightarrow> count v = length ys"
begin

lemma push_each_stored: "stored v ys \<Longrightarrow> fits (length ys + length xs) \<Longrightarrow> \<exists>v'. push_each push v xs = Inr v' \<and> stored v' (ys @ xs)"
proof (induction xs arbitrary: v ys)
  case (Cons x xs)
  have "fits (length ys + 1)" using Cons.prems(2) by (rule fits_law) simp
  from push_law [OF Cons.prems(1) this, of x] obtain v' where "push v x = Inr v'" "stored v' (ys @ [x])" by blast
  with Cons.IH [of v' "ys @ [x]"] Cons.prems(2) show ?case by auto
qed simp

lemma get_each_stored: "stored v ys \<Longrightarrow> \<forall>i \<in> set is. i < length ys \<Longrightarrow> get_each get v is = Inr (map ((!) ys) is)"
  by (induction "is") (simp_all add: get_law)

lemma pushed_read_back: "stored v [] \<Longrightarrow> fits (length xs) \<Longrightarrow> \<exists>v'. push_each push v xs = Inr v' \<and> count v' = length xs \<and> get_each get v' [0..<length xs] = Inr xs"
  using push_each_stored [of v "[]" xs] get_each_stored [of _ xs "[0..<length xs]"] count_law by (auto simp: map_nth)

end

text \<open>A vector grows to \<open>n\<close> elements when \<open>malloc\<close> has the blocks on the way: eight elements, and up to twice as many as there are.\<close>

definition vec_fits :: "vec_env \<Rightarrow> nat \<Rightarrow> bool" where
  "vec_fits E n \<longleftrightarrow> (\<forall>k. k \<le> max 8 (2 * n) \<longrightarrow> vec_room E k)"

interpretation vec: growing_array "vec_holds E" "vec_fits E" "vec_push_back E" "\<lambda>v i. vec_at v (word_of_nat i)" "\<lambda>v. unat (vec_size v)"
  for E
proof
  fix v :: "'a vector" and ys and x
  assume v: "vec_holds E v ys" and f: "vec_fits E (length ys + 1)"
  have "length ys < unat (vec_space v) \<or> vec_room E (vec_next v)" 
  proof (cases "length ys < unat (vec_space v)")
    case False
    then have "vec_next v \<le> max 8 (2 * (length ys + 1))" using vec_holds_le [OF v] by (simp add: vec_next_def max_def)
    then show ?thesis using f by (simp add: vec_fits_def)
  qed simp
  then show "\<exists>v'. vec_push_back E v x = Inr v' \<and> vec_holds E v' (ys @ [x])" by (rule vec_push_holds [OF v])
next
  fix n m
  assume "vec_fits E n" "m \<le> n"
  then show "vec_fits E m" by (auto simp: vec_fits_def)
next
  fix v :: "'a vector" and ys and i
  assume v: "vec_holds E v ys" and i: "i < length ys"
  then have u: "unat (word_of_nat i :: u32) = i" using vec_holds_size [OF v] unat_lt_u32 [of "vec_size v"] by (intro unat_of_nat_u32) simp
  then show "vec_at v (word_of_nat i) = Inr (ys ! i)" using i vec_get_holds [OF v i] vec_holds_size [OF v] by (simp add: vec_at_def word_le_nat_alt)
next
  fix v :: "'a vector" and ys
  assume "vec_holds E v ys"
  then show "unat (vec_size v) = length ys" by (rule vec_holds_size)
qed

section \<open>Properties\<close>

lemma vec_new_holds: "0 < elem_size E \<Longrightarrow> vec_holds E vec_new []"
  by (simp add: vec_new_def vec_holds_def)


text \<open>Elements of four bytes and a heap of eight megabytes; a vector with room for more, and a full one.\<close>

definition example_env :: vec_env where
  "example_env = \<lparr>elem_size = 4, elem_trivial = True, mem_ok = (\<lambda>n. n \<le> 0x800000)\<rparr>"

definition example_vec :: "nat vector" where
  "example_vec = \<lparr>vec_size = 3, vec_elements = Some (map Some [5, 6, 7] @ replicate 5 None), vec_space = 8\<rparr>"

definition full_vec :: "nat vector" where
  "full_vec = \<lparr>vec_size = 2, vec_elements = Some [Some 8, Some 9], vec_space = 2\<rparr>"

lemma example_vec_holds: "vec_holds example_env example_vec [5, 6, 7]"
  by (simp add: example_vec_def example_env_def vec_holds_def)

lemma full_vec_holds: "vec_holds example_env full_vec [8, 9]"
  by (simp add: full_vec_def example_env_def vec_holds_def)

lemma full_vec_room: "vec_room example_env (vec_next full_vec)"
  by (simp add: vec_room_def vec_next_def full_vec_def example_env_def)


text \<open>Building a vector with \<open>push_back\<close> and reading it back gives the elements in order. The copy of a vector of trivial elements with room to spare has a block for its elements only, but the
  capacity of the original: the next \<open>push_back\<close> on the copy writes behind the block.\<close>

theorem vector_copy_overruns:
  assumes "vec_fits E (length ys)" "elem_trivial E" "vec_holds E v ys" "ys \<noteq> []" "length ys < unat (vec_space v)"
  shows "(\<exists>v'. push_each (vec_push_back E) vec_new ys = Inr v' \<and> unat (vec_size v') = length ys \<and> get_each (\<lambda>v i. vec_at v (word_of_nat i)) v' [0..<length ys] = Inr ys)
    \<and> (\<exists>c. vec_copy E v = Inr c \<and> vec_elements c = Some (map Some ys) \<and> vec_push_back E c x = Inl Out_of_bounds)"
proof
  have E: "0 < elem_size E" using assms(3) by (simp add: vec_holds_def)
  show "\<exists>v'. push_each (vec_push_back E) vec_new ys = Inr v' \<and> unat (vec_size v') = length ys \<and> get_each (\<lambda>v i. vec_at v (word_of_nat i)) v' [0..<length ys] = Inr ys"
    by (rule vec.pushed_read_back [OF vec_new_holds [OF E] assms(1)])
  let ?c = "\<lparr>vec_size = vec_size v, vec_elements = Some (map Some ys), vec_space = vec_space v\<rparr>"
  have sz: "vec_size v = word_of_nat (length ys)" unfolding vec_holds_size [OF assms(3), symmetric] by simp
  have "vec_room E (length ys)" using assms(1) by (simp add: vec_fits_def)
  then have m: "vec_malloc E (vec_size v) = Some (replicate (length ys) (None :: 'a option))" using vec_malloc_room [OF _ E] sz by simp
  have c: "vec_copy E v = Inr ?c"
    using vec_copy_loop_holds [OF assms(3,2), of 0 "\<lparr>vec_size = vec_size v, vec_elements = vec_malloc E (vec_size v), vec_space = vec_space v\<rparr>" "replicate (length ys) None"]
      m vec_holds_size [OF assms(3)] by (simp add: vec_copy_def)
  have "vec_size v \<noteq> vec_space v" "vec_space v \<noteq> 0" using assms(4,5) vec_holds_size [OF assms(3)] by auto
  then have "vec_push_back E ?c x = Inl Out_of_bounds" using vec_holds_size [OF assms(3)] by (simp add: vec_push_back_def vec_ReserveMoreIfNeeded_def vec_put_def)
  then show "\<exists>c. vec_copy E v = Inr c \<and> vec_elements c = Some (map Some ys) \<and> vec_push_back E c x = Inl Out_of_bounds" using c by simp
qed

lemma example_env_room: "k \<le> 1000 \<Longrightarrow> vec_room example_env k"
  using unat_of_nat_u32 [of "4 * k"] by (simp add: vec_room_def example_env_def word_le_nat_alt)

theorem vector_copy_overruns_witness:
  "\<exists>c. vec_copy example_env example_vec = Inr c \<and> vec_push_back example_env c 8 = Inl Out_of_bounds"
proof -
  have "vec_fits example_env (length [5, 6, 7 :: nat])" by (auto simp: vec_fits_def intro!: example_env_room)
  from vector_copy_overruns [OF this _ example_vec_holds, of 8] show ?thesis by (auto simp: example_vec_def example_env_def)
qed

end
