(* ===== verification/StringOrder.thy ===== *)
theory StringOrder
  imports StdString
begin

text \<open>
  The operators of \<open>src/libcxx/include/string\<close> on two strings, a string and a character, or a string and a C string. The order compares letters without their case first. It is total, it is an order on
  strings of letters, but not on all strings: the characters between the capital and the small letters make a cycle.
\<close>

section \<open>The operators\<close>

function gt_loop :: "cxxstring \<Rightarrow> cxxstring \<Rightarrow> nat \<Rightarrow> nat \<Rightarrow> nat" where
  "gt_loop lhs rhs cap n = (if n < cap \<and> str_data lhs ! n = str_data rhs ! n then gt_loop lhs rhs cap (Suc n) else n)"
  by pat_completeness auto
termination by (relation "measure (\<lambda>(lhs, rhs, cap, n). cap - n)") auto

declare gt_loop.simps [simp del]

text \<open>\<open>char\<close> is signed.\<close>

definition is_letter :: "u8 \<Rightarrow> bool" where
  "is_letter c \<longleftrightarrow> (0x41 \<le> sint c \<and> sint c \<le> 0x5A) \<or> (0x61 \<le> sint c \<and> sint c \<le> 0x7A)"

definition char_gt :: "u8 \<Rightarrow> u8 \<Rightarrow> bool" where
  "char_gt x y \<longleftrightarrow>
     (if is_letter x \<and> is_letter y \<and> x AND NOT 32 \<noteq> y AND NOT 32 then sint (x AND NOT 32) > sint (y AND NOT 32) else sint x > sint y)"

definition string_gt :: "cxxstring \<Rightarrow> cxxstring \<Rightarrow> bool" where
  "string_gt lhs rhs \<longleftrightarrow>
     (let cap = (if str_length lhs < str_length rhs then str_length lhs else str_length rhs); n = gt_loop lhs rhs cap 0 in
      if n = cap then str_length lhs > str_length rhs else char_gt (str_data lhs ! n) (str_data rhs ! n))"

definition string_ne :: "cxxstring \<Rightarrow> cxxstring \<Rightarrow> bool" where
  "string_ne lhs rhs \<longleftrightarrow> \<not> string_eq lhs rhs"

definition string_lt :: "cxxstring \<Rightarrow> cxxstring \<Rightarrow> bool" where
  "string_lt lhs rhs \<longleftrightarrow> \<not> string_eq lhs rhs \<and> \<not> string_gt lhs rhs"

definition string_le :: "cxxstring \<Rightarrow> cxxstring \<Rightarrow> bool" where
  "string_le lhs rhs \<longleftrightarrow> \<not> string_gt lhs rhs"

definition string_ge :: "cxxstring \<Rightarrow> cxxstring \<Rightarrow> bool" where
  "string_ge lhs rhs \<longleftrightarrow> string_eq lhs rhs \<or> string_gt lhs rhs"

text \<open>The overloads make a string of the operand that is none; for a C string without a terminator that does not end.\<close>

datatype operand = Of_string cxxstring | Of_char u8 | Of_cstr u32

fun to_string :: "bmem \<Rightarrow> operand \<Rightarrow> cxxstring option" where
  "to_string m (Of_string s) = Some s"
| "to_string m (Of_char c) = Some (string_char c)"
| "to_string m (Of_cstr a) = string_cstr m a"

definition on_operands :: "bmem \<Rightarrow> (cxxstring \<Rightarrow> cxxstring \<Rightarrow> 'r) \<Rightarrow> operand \<Rightarrow> operand \<Rightarrow> 'r option" where
  "on_operands m f a b = (case to_string m a of None \<Rightarrow> None | Some s \<Rightarrow> map_option (f s) (to_string m b))"

definition operator_eq :: "bmem \<Rightarrow> operand \<Rightarrow> operand \<Rightarrow> bool option" where
  "operator_eq m = on_operands m string_eq"

definition operator_gt :: "bmem \<Rightarrow> operand \<Rightarrow> operand \<Rightarrow> bool option" where
  "operator_gt m = on_operands m string_gt"

definition operator_ne :: "bmem \<Rightarrow> operand \<Rightarrow> operand \<Rightarrow> bool option" where
  "operator_ne m lhs rhs = map_option Not (operator_eq m lhs rhs)"

definition operator_lt :: "bmem \<Rightarrow> operand \<Rightarrow> operand \<Rightarrow> bool option" where
  "operator_lt m lhs rhs = (case operator_eq m lhs rhs of None \<Rightarrow> None | Some e \<Rightarrow> if e then Some False else map_option Not (operator_gt m lhs rhs))"

definition operator_le :: "bmem \<Rightarrow> operand \<Rightarrow> operand \<Rightarrow> bool option" where
  "operator_le m lhs rhs = map_option Not (operator_gt m lhs rhs)"

definition operator_ge :: "bmem \<Rightarrow> operand \<Rightarrow> operand \<Rightarrow> bool option" where
  "operator_ge m lhs rhs = (case operator_eq m lhs rhs of None \<Rightarrow> None | Some e \<Rightarrow> if e then Some True else operator_gt m lhs rhs)"

definition operator_plus :: "bmem \<Rightarrow> operand \<Rightarrow> operand \<Rightarrow> cxxstring option" where
  "operator_plus m = on_operands m string_plus"

section \<open>The order on characters\<close>

fun chars_gt :: "u8 list \<Rightarrow> u8 list \<Rightarrow> bool" where
  "chars_gt [] ys = False"
| "chars_gt (x # xs) [] = True"
| "chars_gt (x # xs) (y # ys) = (if x = y then chars_gt xs ys else char_gt x y)"

lemma chars_gt_Nil [simp]: "chars_gt xs [] \<longleftrightarrow> xs \<noteq> []"
  by (cases xs) simp_all

lemma gt_loop_chars:
  assumes "n \<le> cap" "cap \<le> length xs" "cap \<le> length ys" "\<And>j. j < cap \<Longrightarrow> str_data s ! j = xs ! j \<and> str_data t ! j = ys ! j" "cap = length xs \<or> cap = length ys"
  shows "(let k = gt_loop s t cap n in if k = cap then length xs > length ys else char_gt (str_data s ! k) (str_data t ! k)) = chars_gt (drop n xs) (drop n ys)"
  using assms(1)
proof (induction "cap - n" arbitrary: n)
  case 0
  then have "n = cap" by simp
  then show ?case using assms(2,3,5) by (subst gt_loop.simps) (auto simp: not_less)
next
  case (Suc d)
  then have n: "n < cap" by linarith
  have e: "drop n xs = xs ! n # drop (Suc n) xs" "drop n ys = ys ! n # drop (Suc n) ys" using n assms(2,3) by (simp_all add: Cons_nth_drop_Suc)
  show ?case
  proof (cases "xs ! n = ys ! n")
    case True
    then have "gt_loop s t cap n = gt_loop s t cap (Suc n)" using n assms(4) [OF n] by (subst gt_loop.simps) simp
    then show ?thesis using Suc.hyps(1) [of "Suc n"] Suc.hyps(2) n True e by simp
  next
    case False
    then have "gt_loop s t cap n = n" using assms(4) [OF n] by (subst gt_loop.simps) simp
    then show ?thesis using n e False assms(4) [OF n] by simp
  qed
qed

lemma string_gt_chars: "terminated s \<Longrightarrow> terminated t \<Longrightarrow> string_gt s t \<longleftrightarrow> chars_gt (chars s) (chars t)"
  using gt_loop_chars [of 0 "str_length s" "chars s" "chars t" s t] gt_loop_chars [of 0 "str_length t" "chars s" "chars t" s t]
  by (cases "str_length s < str_length t") (auto simp: string_gt_def length_chars nth_chars Let_def split: if_splits)

lemma char_gt_total: "x \<noteq> y \<Longrightarrow> char_gt x y \<longleftrightarrow> \<not> char_gt y x"
proof -
  assume "x \<noteq> y"
  then have "sint x \<noteq> sint y" by (metis signed_word_eqI)
  moreover have "x AND NOT 32 \<noteq> y AND NOT 32 \<Longrightarrow> sint (x AND NOT 32) \<noteq> sint (y AND NOT 32)" by (metis signed_word_eqI)
  ultimately show ?thesis by (auto simp: char_gt_def)
qed

lemma chars_gt_total: "xs \<noteq> ys \<Longrightarrow> chars_gt xs ys \<longleftrightarrow> \<not> chars_gt ys xs"
proof (induction xs ys rule: chars_gt.induct)
  case (3 x xs y ys)
  then show ?case using char_gt_total [of x y] by auto
qed auto

lemma chars_gt_irrefl: "\<not> chars_gt xs xs"
  by (induction xs) auto

text \<open>On letters the order is that of the letter without its case, then of the character.\<close>

lemma char_gt_letters:
  "is_letter x \<Longrightarrow> is_letter y \<Longrightarrow> char_gt x y \<longleftrightarrow> sint (x AND NOT 32) > sint (y AND NOT 32) \<or> x AND NOT 32 = y AND NOT 32 \<and> sint x > sint y"
  by (auto simp: char_gt_def)

lemma char_gt_trans: "is_letter x \<Longrightarrow> is_letter y \<Longrightarrow> is_letter z \<Longrightarrow> char_gt x y \<Longrightarrow> char_gt y z \<Longrightarrow> char_gt x z"
  by (auto simp: char_gt_letters)

lemma chars_gt_trans:
  "\<forall>c \<in> set xs \<union> set ys \<union> set zs. is_letter c \<Longrightarrow> chars_gt xs ys \<Longrightarrow> chars_gt ys zs \<Longrightarrow> chars_gt xs zs"
proof (induction xs ys arbitrary: zs rule: chars_gt.induct)
  case (2 x xs)
  then show ?case by simp
next
  case (3 x xs y ys)
  show ?case
  proof (cases zs)
    case (Cons z zs')
    then show ?thesis using 3 char_gt_trans [of x y z] char_gt_total [of x y] by (auto split: if_splits)
  qed simp
qed simp

text \<open>C40: Of two strings exactly one is greater or they are equal, and the other operators agree with that; on strings of letters \<open>>\<close> is transitive, so it orders them. On all strings it does not: the
  strings \<open>a\<close>, \<open>Z\<close> and \<open>_\<close> are each smaller than the next, round in a circle.\<close>

theorem string_order:
  assumes "terminated s" "terminated t" "terminated u"
  shows "(string_lt s t \<longleftrightarrow> string_gt t s) \<and> (string_le s t \<longleftrightarrow> string_lt s t \<or> string_eq s t) \<and> (string_ge s t \<longleftrightarrow> string_le t s)
    \<and> \<not> (string_lt s t \<and> string_lt t s) \<and> (string_lt s t \<or> string_eq s t \<or> string_lt t s)
    \<and> ((\<forall>c \<in> set (chars s) \<union> set (chars t) \<union> set (chars u). is_letter c) \<longrightarrow> string_lt s t \<longrightarrow> string_lt t u \<longrightarrow> string_lt s u)
    \<and> string_lt (string_char 0x61) (string_char 0x5A) \<and> string_lt (string_char 0x5A) (string_char 0x5F) \<and> string_lt (string_char 0x5F) (string_char 0x61)"
proof -
  have lt: "string_lt x y \<longleftrightarrow> chars_gt (chars y) (chars x)" if "terminated x" "terminated y" for x y
    using that chars_gt_total [of "chars x" "chars y"] chars_gt_irrefl [of "chars x"]
    by (cases "chars x = chars y") (auto simp: string_lt_def string_eq_chars string_gt_chars)
  have ord: "(string_lt s t \<longleftrightarrow> string_gt t s) \<and> (string_le s t \<longleftrightarrow> string_lt s t \<or> string_eq s t) \<and> (string_ge s t \<longleftrightarrow> string_le t s)
      \<and> \<not> (string_lt s t \<and> string_lt t s) \<and> (string_lt s t \<or> string_eq s t \<or> string_lt t s)"
    using assms(1,2) chars_gt_total [of "chars s" "chars t"] chars_gt_irrefl [of "chars s"]
    by (cases "chars s = chars t") (auto simp: lt string_le_def string_ge_def string_eq_chars string_gt_chars)
  have tr: "(\<forall>c \<in> set (chars s) \<union> set (chars t) \<union> set (chars u). is_letter c) \<longrightarrow> string_lt s t \<longrightarrow> string_lt t u \<longrightarrow> string_lt s u"
    using chars_gt_trans [of "chars u" "chars t" "chars s"] assms by (auto simp: lt)
  have "char_gt 0x5A 0x61" "char_gt 0x5F 0x5A" "char_gt 0x61 0x5F" by code_simp+
  then have "string_lt (string_char 0x61) (string_char 0x5A)" "string_lt (string_char 0x5A) (string_char 0x5F)" "string_lt (string_char 0x5F) (string_char 0x61)"
    by (simp_all add: lt string_ctors)
  with ord tr show ?thesis by blast
qed

theorem string_order_witness:
  "string_lt (string_char 0x61) (string_char 0x62) \<and> string_lt (string_char 0x62) (string_char 0x43) \<and> string_lt (string_char 0x61) (string_char 0x43)"
proof -
  have "is_letter 0x61" "is_letter 0x62" "is_letter 0x43" "string_lt (string_char 0x61) (string_char 0x62)" "string_lt (string_char 0x62) (string_char 0x43)" by code_simp+
  then show ?thesis using string_order [OF string_ctors(3) string_ctors(3) string_ctors(3), of "0x61" "0x62" "0x43"] by (simp add: string_ctors)
qed

end
