(* ===== verification/UniquePtr.thy ===== *)
theory UniquePtr
  imports Prelude
begin

text \<open>
  \<open>std::unique_ptr\<close>, \<open>src/libcxx/include/memory\<close>, whose two classes differ in \<open>delete\<close> and \<open>delete[]\<close> only. The state is what a program sees of them: the pointers it has declared with the address that
  each holds, zero for none, the objects that exist, and the addresses that \<open>release\<close> has given to the program. A second deletion and an access to an object that is gone are faults. The theorem is the one the class is there for: whatever a
  program does with its pointers, an object is deleted once, when the pointer that has it gives it up, and the only objects left behind are those that the program has taken with \<open>release\<close> and neither deleted nor handed to a pointer again.
\<close>

section \<open>The class\<close>

record pointers =
  held :: "nat \<rightharpoonup> u32"
  objects :: "u32 set"
  raw :: "u32 set"

definition delete_object :: "pointers \<Rightarrow> u32 \<Rightarrow> pointers result" where
  "delete_object s a = (if a \<in> objects s then Inr (s\<lparr>objects := objects s - {a}\<rparr>) else Inl Use_after_free)"

definition data_of :: "pointers \<Rightarrow> nat \<Rightarrow> u32 result" where
  "data_of s x = (case held s x of Some a \<Rightarrow> Inr a | None \<Rightarrow> Inl Use_after_free)"

definition set_data :: "pointers \<Rightarrow> nat \<Rightarrow> u32 \<Rightarrow> pointers" where
  "set_data s x a = s\<lparr>held := (held s)(x \<mapsto> a)\<rparr>"

definition up_make :: "pointers \<Rightarrow> nat \<Rightarrow> u32 \<Rightarrow> pointers result" where
  "up_make s x a = Inr (set_data s x a)"

definition up_release :: "pointers \<Rightarrow> nat \<Rightarrow> (u32 \<times> pointers) result" where
  "up_release s x = bindr (data_of s x) (\<lambda>a. Inr (a, set_data s x 0))"

text \<open>The destructor of a pointer that holds \<open>a\<close>.\<close>

definition up_delete_data :: "pointers \<Rightarrow> u32 \<Rightarrow> pointers result" where
  "up_delete_data s a = (if a \<noteq> 0 then delete_object s a else Inr s)"

definition up_destroy :: "pointers \<Rightarrow> nat \<Rightarrow> pointers result" where
  "up_destroy s x = bindr (data_of s x) (\<lambda>a. bindr (up_delete_data s a) (\<lambda>s'. Inr (s'\<lparr>held := (held s')(x := None)\<rparr>)))"

text \<open>\<open>tmp(other.release())\<close>, the swap with \<open>*this\<close>, and the destructor of \<open>tmp\<close>.\<close>

definition swap_in :: "pointers \<Rightarrow> nat \<Rightarrow> nat \<Rightarrow> pointers result" where
  "swap_in s x y = bindr (up_release s y) (\<lambda>(tmp, s1). bindr (data_of s1 x) (\<lambda>old. up_delete_data (set_data s1 x tmp) old))"

definition up_move_construct :: "pointers \<Rightarrow> nat \<Rightarrow> nat \<Rightarrow> pointers result" where
  "up_move_construct s x y = swap_in (set_data s x 0) x y"

definition up_move_assign :: "pointers \<Rightarrow> nat \<Rightarrow> nat \<Rightarrow> pointers result" where
  "up_move_assign s x y = (if x \<noteq> y then swap_in s x y else Inr s)"

definition up_swap :: "pointers \<Rightarrow> nat \<Rightarrow> nat \<Rightarrow> pointers result" where
  "up_swap s x y = bindr (data_of s x) (\<lambda>a. bindr (data_of s y) (\<lambda>b. Inr (set_data (set_data s x b) y a)))"

definition up_bool :: "pointers \<Rightarrow> nat \<Rightarrow> bool result" where
  "up_bool s x = bindr (data_of s x) (\<lambda>a. Inr (a \<noteq> 0))"

definition up_deref :: "pointers \<Rightarrow> nat \<Rightarrow> u32 result" where
  "up_deref s x = bindr (data_of s x) (\<lambda>a. if a = 0 then Inl Page_fault else if a \<in> objects s then Inr a else Inl Use_after_free)"

section \<open>Programs\<close>

text \<open>
  What a program does: it makes an object and a pointer to it, declares an empty pointer, moves, swaps, calls \<open>release\<close>, hands an address that it has from \<open>release\<close> to a new pointer or deletes that object itself, and leaves the
  scope of a pointer. A new object has an address that no other object has; a declaration takes a new variable and the other steps name declared ones, as the compiler sees to. The steps on addresses from \<open>release\<close> are the
  program's own duty and not the class's: it uses each such address once.
\<close>

datatype up_step = Make nat u32 | Empty nat | Move_construct nat nat | Move_assign nat nat | Swap nat nat | Release nat | Adopt nat u32 | Delete u32 | Leave nat

fun allowed :: "pointers \<Rightarrow> up_step \<Rightarrow> bool" where
  "allowed s (Make x a) \<longleftrightarrow> x \<notin> dom (held s) \<and> a \<noteq> 0 \<and> a \<notin> objects s"
| "allowed s (Empty x) \<longleftrightarrow> x \<notin> dom (held s)"
| "allowed s (Move_construct x y) \<longleftrightarrow> x \<notin> dom (held s) \<and> y \<in> dom (held s)"
| "allowed s (Move_assign x y) \<longleftrightarrow> x \<in> dom (held s) \<and> y \<in> dom (held s)"
| "allowed s (Swap x y) \<longleftrightarrow> x \<in> dom (held s) \<and> y \<in> dom (held s)"
| "allowed s (Release x) \<longleftrightarrow> x \<in> dom (held s)"
| "allowed s (Adopt x a) \<longleftrightarrow> x \<notin> dom (held s) \<and> a \<in> raw s"
| "allowed s (Delete a) \<longleftrightarrow> a \<in> raw s"
| "allowed s (Leave x) \<longleftrightarrow> x \<in> dom (held s)"

fun take_step :: "pointers \<Rightarrow> up_step \<Rightarrow> pointers result" where
  "take_step s (Make x a) = up_make (s\<lparr>objects := insert a (objects s)\<rparr>) x a"
| "take_step s (Empty x) = up_make s x 0"
| "take_step s (Move_construct x y) = up_move_construct s x y"
| "take_step s (Move_assign x y) = up_move_assign s x y"
| "take_step s (Swap x y) = up_swap s x y"
| "take_step s (Release x) = bindr (up_release s x) (\<lambda>(a, s'). Inr (s'\<lparr>raw := insert a (raw s') - {0}\<rparr>))"
| "take_step s (Adopt x a) = up_make (s\<lparr>raw := raw s - {a}\<rparr>) x a"
| "take_step s (Delete a) = delete_object (s\<lparr>raw := raw s - {a}\<rparr>) a"
| "take_step s (Leave x) = up_destroy s x"

inductive runs :: "pointers \<Rightarrow> up_step list \<Rightarrow> pointers result \<Rightarrow> bool" where
  runs_done: "runs s [] (Inr s)"
| runs_step: "allowed s st \<Longrightarrow> take_step s st = Inr s' \<Longrightarrow> runs s' sts r \<Longrightarrow> runs s (st # sts) r"
| runs_fault: "allowed s st \<Longrightarrow> take_step s st = Inl e \<Longrightarrow> runs s (st # sts) (Inl e)"

inductive_cases runs_ConsE: "runs s (st # sts) r"

text \<open>Every object has exactly one owner, a pointer or the program.\<close>

definition one_owner :: "(nat \<rightharpoonup> u32) \<Rightarrow> u32 set \<Rightarrow> u32 set \<Rightarrow> bool" where
  "one_owner h ob rw \<longleftrightarrow> (\<forall>a. a \<in> ob \<longleftrightarrow> a \<noteq> 0 \<and> (a \<in> rw \<or> (\<exists>x. h x = Some a))) \<and> 0 \<notin> rw
     \<and> (\<forall>x. \<forall>a \<in> rw. h x \<noteq> Some a) \<and> (\<forall>x y a. h x = Some a \<longrightarrow> h y = Some a \<longrightarrow> a \<noteq> 0 \<longrightarrow> x = y)"

definition owned :: "pointers \<Rightarrow> bool" where
  "owned s \<longleftrightarrow> one_owner (held s) (objects s) (raw s)"

lemma one_ownerI:
  assumes "\<And>a. a \<in> ob \<longleftrightarrow> a \<noteq> 0 \<and> (a \<in> rw \<or> (\<exists>x. h x = Some a))" "0 \<notin> rw" "\<And>x a. a \<in> rw \<Longrightarrow> h x \<noteq> Some a"
    "\<And>x y a. h x = Some a \<Longrightarrow> h y = Some a \<Longrightarrow> a \<noteq> 0 \<Longrightarrow> x = y"
  shows "one_owner h ob rw"
  unfolding one_owner_def by (intro conjI allI ballI impI) (rule assms, assumption?)+

lemma one_ownerD:
  assumes "one_owner h ob rw"
  shows "a \<in> ob \<longleftrightarrow> a \<noteq> 0 \<and> (a \<in> rw \<or> (\<exists>x. h x = Some a))" "0 \<notin> rw" "a \<in> rw \<Longrightarrow> h x \<noteq> Some a"
    "h x = Some a \<Longrightarrow> h y = Some a \<Longrightarrow> a \<noteq> 0 \<Longrightarrow> x = y"
  using assms unfolding one_owner_def by simp_all

text \<open>How a pointer that is changed changes what the pointers hold.\<close>

lemma held_new: "f x = None \<Longrightarrow> (\<exists>z. (f(x \<mapsto> a)) z = Some b) \<longleftrightarrow> b = a \<or> (\<exists>z. f z = Some b)"
  by (metis fun_upd_apply option.distinct(1) option.inject)

lemma held_lost:
  assumes "f x = Some a" "\<And>y. f y = Some a \<Longrightarrow> a \<noteq> 0 \<Longrightarrow> y = x" "b \<noteq> 0" "v = None \<or> v = Some 0"
  shows "(\<exists>z. (f(x := v)) z = Some b) \<longleftrightarrow> b \<noteq> a \<and> (\<exists>z. f z = Some b)"
  using assms by (metis fun_upd_apply option.distinct(1) option.inject)

text \<open>A new pointer takes a new object, none, or one of the program's.\<close>

lemma owned_add:
  assumes o: "one_owner h ob rw" and x: "h x = None" and a: "a = 0 \<or> a \<notin> ob"
  shows "one_owner (h(x \<mapsto> a)) (insert a ob - {0}) rw"
proof (rule one_ownerI)
  fix b show "b \<in> insert a ob - {0} \<longleftrightarrow> b \<noteq> 0 \<and> (b \<in> rw \<or> (\<exists>z. (h(x \<mapsto> a)) z = Some b))"
    unfolding held_new [of h, OF x] using one_ownerD(1) [OF o, of b] by auto
next
  show "0 \<notin> rw" by (rule one_ownerD(2) [OF o])
next
  fix z b assume "b \<in> rw"
  then have "b \<in> ob" "b \<noteq> 0" "h z \<noteq> Some b" using one_ownerD(1) [OF o, of b] one_ownerD(2) [OF o] one_ownerD(3) [OF o] by auto
  then show "(h(x \<mapsto> a)) z \<noteq> Some b" using a by auto
next
  fix y z b assume h: "(h(x \<mapsto> a)) y = Some b" "(h(x \<mapsto> a)) z = Some b" "b \<noteq> 0"
  have "h u \<noteq> Some a" if "a \<noteq> 0" for u using a one_ownerD(1) [OF o, of a] that by auto
  then show "y = z" using h one_ownerD(4) [OF o, of y b z] by (auto split: if_splits)
qed

lemma owned_adopt:
  assumes o: "one_owner h ob rw" and x: "h x = None" and a: "a \<in> rw"
  shows "one_owner (h(x \<mapsto> a)) ob (rw - {a})"
proof (rule one_ownerI)
  fix b show "b \<in> ob \<longleftrightarrow> b \<noteq> 0 \<and> (b \<in> rw - {a} \<or> (\<exists>z. (h(x \<mapsto> a)) z = Some b))"
    unfolding held_new [of h, OF x] using one_ownerD(1) [OF o, of b] a by auto
next
  show "0 \<notin> rw - {a}" using one_ownerD(2) [OF o] by simp
next
  fix z b assume "b \<in> rw - {a}"
  then show "(h(x \<mapsto> a)) z \<noteq> Some b" using one_ownerD(3) [OF o, of b z] by auto
next
  fix y z b assume "(h(x \<mapsto> a)) y = Some b" "(h(x \<mapsto> a)) z = Some b" "b \<noteq> 0"
  then show "y = z" using one_ownerD(3) [OF o a] one_ownerD(4) [OF o, of y b z] by (auto split: if_splits)
qed

text \<open>A pointer gives up what it holds: the object is deleted, or goes to the program.\<close>

lemma owned_drop:
  assumes o: "one_owner h ob rw" and x: "h x = Some a" and v: "v = None \<or> v = Some 0"
  shows "one_owner (h(x := v)) (ob - {a}) rw"
proof (rule one_ownerI)
  fix b show "b \<in> ob - {a} \<longleftrightarrow> b \<noteq> 0 \<and> (b \<in> rw \<or> (\<exists>z. (h(x := v)) z = Some b))"
  proof (cases "b = 0")
    case False
    have "b \<in> rw \<Longrightarrow> b \<noteq> a" using one_ownerD(3) [OF o, of a x] x by auto
    then show ?thesis using False one_ownerD(1) [OF o, of b] held_lost [of h, OF x one_ownerD(4) [OF o _ x] False v] by blast
  qed (use one_ownerD(1) [OF o, of b] in simp)
next
  show "0 \<notin> rw" by (rule one_ownerD(2) [OF o])
next
  fix z b assume "b \<in> rw"
  then show "(h(x := v)) z \<noteq> Some b" using one_ownerD(2) [OF o] one_ownerD(3) [OF o, of b z] v by auto
next
  fix y z b assume "(h(x := v)) y = Some b" "(h(x := v)) z = Some b" "b \<noteq> 0"
  then show "y = z" using one_ownerD(4) [OF o, of y b z] v by (auto split: if_splits)
qed

lemma owned_release:
  assumes o: "one_owner h ob rw" and x: "h x = Some a"
  shows "one_owner (h(x \<mapsto> 0)) ob (insert a rw - {0})"
proof (rule one_ownerI)
  fix b show "b \<in> ob \<longleftrightarrow> b \<noteq> 0 \<and> (b \<in> insert a rw - {0} \<or> (\<exists>z. (h(x \<mapsto> 0)) z = Some b))"
  proof (cases "b = 0")
    case False
    then show ?thesis using one_ownerD(1) [OF o, of b] held_lost [of h, OF x one_ownerD(4) [OF o _ x] False, of "Some 0"] x by blast
  qed (use one_ownerD(1) [OF o, of b] in simp)
next
  fix z b assume "b \<in> insert a rw - {0}"
  then show "(h(x \<mapsto> 0)) z \<noteq> Some b" using one_ownerD(3) [OF o, of b z] one_ownerD(4) [OF o x, of z] by auto
next
  fix y z b assume "(h(x \<mapsto> 0)) y = Some b" "(h(x \<mapsto> 0)) z = Some b" "b \<noteq> 0"
  then show "y = z" using one_ownerD(4) [OF o, of y b z] by (auto split: if_splits)
qed simp

lemma owned_delete:
  assumes o: "one_owner h ob rw" and a: "a \<in> rw"
  shows "one_owner h (ob - {a}) (rw - {a})"
proof (rule one_ownerI)
  fix b show "b \<in> ob - {a} \<longleftrightarrow> b \<noteq> 0 \<and> (b \<in> rw - {a} \<or> (\<exists>z. h z = Some b))"
    using one_ownerD(1) [OF o, of b] one_ownerD(3) [OF o a] by auto
qed (use one_ownerD(2) [OF o] one_ownerD(3) [OF o] one_ownerD(4) [OF o] in auto)

lemma owned_permute:
  assumes o: "one_owner h ob rw" and xy: "x \<noteq> y" "h x = Some a" "h y = Some b"
  shows "one_owner (h(x \<mapsto> b, y \<mapsto> a)) ob rw"
proof -
  define p where "p z = (if z = x then y else if z = y then x else z)" for z
  have h: "(h(x \<mapsto> b, y \<mapsto> a)) z = h (p z)" and p: "p (p z) = z" for z using xy by (simp_all add: p_def)
  have ex: "(\<exists>z. h (p z) = Some c) \<longleftrightarrow> (\<exists>z. h z = Some c)" for c by (metis p)
  show ?thesis
  proof (rule one_ownerI)
    fix c show "c \<in> ob \<longleftrightarrow> c \<noteq> 0 \<and> (c \<in> rw \<or> (\<exists>z. (h(x \<mapsto> b, y \<mapsto> a)) z = Some c))" unfolding h ex by (rule one_ownerD(1) [OF o])
  next
    fix z c assume "c \<in> rw"
    then show "(h(x \<mapsto> b, y \<mapsto> a)) z \<noteq> Some c" unfolding h by (rule one_ownerD(3) [OF o])
  next
    fix u v c assume "(h(x \<mapsto> b, y \<mapsto> a)) u = Some c" "(h(x \<mapsto> b, y \<mapsto> a)) v = Some c" "c \<noteq> 0"
    then have "p u = p v" unfolding h by (rule one_ownerD(4) [OF o])
    then show "u = v" by (metis p)
  qed (rule one_ownerD(2) [OF o])
qed

text \<open>What the moves do.\<close>

lemma swap_in_eq:
  assumes "x \<noteq> y" "held s x = Some old" "held s y = Some tmp" "old = 0 \<or> old \<in> objects s" "0 \<notin> objects s"
  shows "swap_in s x y = Inr (s\<lparr>held := (held s)(x \<mapsto> tmp, y \<mapsto> 0), objects := objects s - {old}\<rparr>)"
  using assms by (auto simp: swap_in_def up_release_def data_of_def set_data_def up_delete_data_def delete_object_def fun_upd_twist)

lemma owned_swap_in:
  assumes o: "owned s" and xy: "x \<noteq> y" "held s x = Some old" "held s y = Some tmp"
  shows "\<exists>s'. swap_in s x y = Inr s' \<and> owned s'"
proof -
  note o' = o [unfolded owned_def]
  have "one_owner ((held s)(x \<mapsto> tmp, y \<mapsto> old, y \<mapsto> 0)) (objects s - {old}) (raw s)"
    by (rule owned_drop [OF owned_permute [OF o' xy]]) simp_all
  then have "owned (s\<lparr>held := (held s)(x \<mapsto> tmp, y \<mapsto> 0), objects := objects s - {old}\<rparr>)" by (simp add: owned_def)
  moreover have "old = 0 \<or> old \<in> objects s" "0 \<notin> objects s" using one_ownerD(1) [OF o', of old] one_ownerD(1) [OF o', of 0] xy(2) by blast+
  ultimately show ?thesis using swap_in_eq [OF xy] by blast
qed

lemma step_keeps_owned:
  assumes ow: "owned s" and a: "allowed s st"
  shows "\<exists>s'. take_step s st = Inr s' \<and> owned s'"
proof -
  note o = ow [unfolded owned_def]
  have z: "0 \<notin> objects s" "insert 0 (objects s) - {0} = objects s" using one_ownerD(1) [OF o, of 0] by auto
  show ?thesis
  proof (cases st)
    case (Make x b)
    then have "held s x = None" "b \<noteq> 0" "b \<notin> objects s" using a by auto
    moreover have "insert b (objects s) - {0} = insert b (objects s)" using z(1) calculation(2) by auto
    ultimately show ?thesis using owned_add [OF o, of x b] Make by (simp add: up_make_def set_data_def owned_def)
  next
    case (Empty x)
    then have "held s x = None" using a by auto
    then show ?thesis using owned_add [OF o, of x 0] Empty z(2) by (simp add: up_make_def set_data_def owned_def)
  next
    case (Move_construct x y)
    then obtain q where xy: "held s x = None" "held s y = Some q" "x \<noteq> y" using a by auto
    have "owned (set_data s x 0)" using owned_add [OF o xy(1), of 0] z(2) by (simp add: set_data_def owned_def)
    then show ?thesis using owned_swap_in [of "set_data s x 0" x y 0 q] xy Move_construct by (simp add: up_move_construct_def set_data_def)
  next
    case (Move_assign x y)
    then obtain p q where pq: "held s x = Some p" "held s y = Some q" using a by auto
    then show ?thesis using owned_swap_in [OF ow _ pq] ow Move_assign by (cases "x = y") (auto simp: up_move_assign_def)
  next
    case (Swap x y)
    then obtain p q where pq: "held s x = Some p" "held s y = Some q" using a by auto
    then show ?thesis using owned_permute [OF o _ pq] o Swap by (cases "x = y") (auto simp: up_swap_def data_of_def set_data_def fun_upd_idem owned_def)
  next
    case (Release x)
    then obtain p where p: "held s x = Some p" using a by auto
    then show ?thesis using owned_release [OF o p] Release by (simp add: up_release_def data_of_def set_data_def owned_def)
  next
    case (Adopt x b)
    then have "held s x = None" "b \<in> raw s" using a by auto
    then show ?thesis using owned_adopt [OF o, of x b] Adopt by (simp add: up_make_def set_data_def owned_def)
  next
    case (Delete b)
    then have "b \<in> raw s" "b \<in> objects s" using a one_ownerD(1) [OF o, of b] one_ownerD(2) [OF o] by auto
    then show ?thesis using owned_delete [OF o] Delete by (simp add: delete_object_def owned_def)
  next
    case (Leave x)
    then obtain p where p: "held s x = Some p" using a by auto
    have "p = 0 \<or> p \<in> objects s" using one_ownerD(1) [OF o, of p] p by blast
    then show ?thesis using owned_drop [OF o p, of None] p z Leave by (auto simp: up_destroy_def data_of_def up_delete_data_def delete_object_def owned_def)
  qed
qed

lemma runs_owned: "runs s sts r \<Longrightarrow> owned s \<Longrightarrow> \<exists>s'. r = Inr s' \<and> owned s'"
proof (induction rule: runs.induct)
  case (runs_step s st s' sts r)
  then show ?case using step_keeps_owned [of s st] by auto
next
  case (runs_fault s st e sts)
  then show ?case using step_keeps_owned [of s st] by auto
qed simp

text \<open>Without \<open>release\<close> the program never has an object of its own.\<close>

lemma raw_ops:
  "raw (set_data s x a) = raw s" "delete_object s a = Inr s' \<Longrightarrow> raw s' = raw s" "up_release s x = Inr (a, s') \<Longrightarrow> raw s' = raw s"
  "up_delete_data s a = Inr s' \<Longrightarrow> raw s' = raw s"
  by (auto simp: set_data_def delete_object_def up_release_def up_delete_data_def bindr_eq_Inr split: if_splits)

lemma step_raw:
  assumes "take_step s st = Inr s'" "raw s = {}" "\<forall>x. st \<noteq> Release x"
  shows "raw s' = {}"
proof (cases st)
  case (Move_construct x y)
  then show ?thesis using assms(1,2) by (auto simp: up_move_construct_def swap_in_def bindr_eq_Inr raw_ops dest: raw_ops(2-4))
next
  case (Move_assign x y)
  then show ?thesis using assms(1,2) by (auto simp: up_move_assign_def swap_in_def bindr_eq_Inr raw_ops split: if_splits dest: raw_ops(2-4))
next
  case (Swap x y)
  then show ?thesis using assms(1,2) by (auto simp: up_swap_def bindr_eq_Inr raw_ops)
next
  case (Leave x)
  then show ?thesis using assms(1,2) by (auto simp: up_destroy_def bindr_eq_Inr dest: raw_ops(4))
next
  case (Delete a)
  then show ?thesis using assms(1,2) by (auto dest: raw_ops(2))
qed (use assms in \<open>auto simp: up_make_def raw_ops\<close>)

lemma runs_raw: "runs s sts r \<Longrightarrow> raw s = {} \<Longrightarrow> \<forall>x. Release x \<notin> set sts \<Longrightarrow> r = Inr s' \<Longrightarrow> raw s' = {}"
proof (induction rule: runs.induct)
  case (runs_step s st t sts r)
  have "raw t = {}" using step_raw [OF runs_step.hyps(2) runs_step.prems(1)] runs_step.prems(2) by auto
  then show ?case using runs_step.IH runs_step.prems(2,3) by auto
qed simp_all



end
