(* ===== verification/Hardware.thy ===== *)
theory Hardware
  imports Syscall_Props
begin

text \<open>
  The code that sets up the machine: \<open>src/kernel/include/kernel/io.h\<close>, \<open>serial.cpp\<close>, \<open>timer.cpp\<close> (\<open>Initialize\<close>),
  \<open>gdt.cpp\<close>, \<open>idt.cpp\<close>, \<open>isr.cpp\<close>, \<open>irq.cpp\<close> and \<open>InitializeHandlers\<close> of \<open>exceptions.cpp\<close>. Port I/O
  is a trace of the bytes written and, per port, the sequence of bytes a device answers with, which is
  arbitrary. The loops that poll the serial port need not end, so they answer \<open>None\<close> then. Descriptor
  tables are lists of records with the fields of the C++ structs; the addresses of the assembly
  entry points and of the tables are arguments.
\<close>

section \<open>Ports\<close>

record ports =
  written :: "(u16 \<times> u8) list"
  answers :: "u16 \<Rightarrow> nat \<Rightarrow> u8"
  reads :: "u16 \<Rightarrow> nat"

definition Write8 :: "u16 \<Rightarrow> u8 \<Rightarrow> ports \<Rightarrow> ports" where
  "Write8 port val io = io\<lparr>written := written io @ [(port, val)]\<rparr>"

definition Read8 :: "u16 \<Rightarrow> ports \<Rightarrow> u8 \<times> ports" where
  "Read8 port io = (answers io port (reads io port), io\<lparr>reads := (reads io)(port := Suc (reads io port))\<rparr>)"

section \<open>The serial port\<close>

definition kCOM1 :: u16 where "kCOM1 = 0x3F8"

definition Received :: "ports \<Rightarrow> bool \<times> ports" where
  "Received io = (let (b, io') = Read8 (kCOM1 + 5) io in (b AND 1 \<noteq> 0, io'))"

definition IsTransmitEmpty :: "ports \<Rightarrow> bool \<times> ports" where
  "IsTransmitEmpty io = (let (b, io') = Read8 (kCOM1 + 5) io in (b AND 0x20 \<noteq> 0, io'))"

definition serial_Initialize :: "ports \<Rightarrow> ports" where
  "serial_Initialize io =
     (let io = Write8 (kCOM1 + 1) 0x00 io;
          io = Write8 (kCOM1 + 3) 0x80 io;
          io = Write8 (kCOM1 + 0) 0x03 io;
          io = Write8 (kCOM1 + 1) 0x00 io;
          io = Write8 (kCOM1 + 3) 0x03 io;
          io = Write8 (kCOM1 + 2) 0xC7 io
      in Write8 (kCOM1 + 4) 0x0B io)"

definition TryRead :: "ports \<Rightarrow> u8 option \<times> ports" where
  "TryRead io = (let (r, io1) = Received io in
     if r then let (c, io2) = Read8 kCOM1 io1 in (Some c, io2) else (None, io1))"

definition TryPut :: "u8 \<Rightarrow> ports \<Rightarrow> bool \<times> ports" where
  "TryPut c io = (let (e, io1) = IsTransmitEmpty io in if e then (True, Write8 kCOM1 c io1) else (False, io1))"

partial_function (option) serial_Read :: "ports \<Rightarrow> (u8 \<times> ports) option" where
  "serial_Read io = (let (r, io1) = Received io in if r then Some (Read8 kCOM1 io1) else serial_Read io1)"

partial_function (option) Put :: "u8 \<Rightarrow> ports \<Rightarrow> ports option" where
  "Put c io = (let (e, io1) = IsTransmitEmpty io in if e then Some (Write8 kCOM1 c io1) else Put c io1)"

text \<open>\<open>Write\<close> of a string, without its terminating zero byte.\<close>

fun serial_Write :: "u8 list \<Rightarrow> ports \<Rightarrow> ports option" where
  "serial_Write [] io = Some io"
| "serial_Write (c # cs) io = (case Put c io of None \<Rightarrow> None | Some io' \<Rightarrow> serial_Write cs io')"

section \<open>The timer chip and the interrupt controllers\<close>

definition PIT_CMD :: u16 where "PIT_CMD = 0x43"
definition PIT_SET :: u8 where "PIT_SET = 0x36"
definition TIMER_FREQ :: u32 where "TIMER_FREQ = 50"
definition TIMER_QUOTIENT :: u32 where "TIMER_QUOTIENT = 1193180"
definition PIT_0 :: u16 where "PIT_0 = 0x40"

definition timer_Initialize :: "ports \<Rightarrow> ports" where
  "timer_Initialize io =
     (let divisor = TIMER_QUOTIENT div TIMER_FREQ;
          io = Write8 PIT_CMD PIT_SET io;
          io = Write8 PIT_0 (ucast (divisor AND 0xFF)) io
      in Write8 PIT_0 (ucast (drop_bit 8 divisor AND 0xFF)) io)"

definition IRQ8 :: u32 where "IRQ8 = 40"
definition PIC1_COMMAND :: u16 where "PIC1_COMMAND = 0x20"
definition PIC1_DATA :: u16 where "PIC1_DATA = 0x21"
definition PIC2_COMMAND :: u16 where "PIC2_COMMAND = 0xA0"
definition PIC2_DATA :: u16 where "PIC2_DATA = 0xA1"
definition PIC_EOI :: u8 where "PIC_EOI = 0x20"
definition ICW1_ICW4 :: u8 where "ICW1_ICW4 = 0x01"
definition ICW1_INIT :: u8 where "ICW1_INIT = 0x10"
definition ICW4_8086 :: u8 where "ICW4_8086 = 0x01"

definition SendEndOfInterrupt :: "u8 \<Rightarrow> ports \<Rightarrow> ports" where
  "SendEndOfInterrupt irq io =
     (let io1 = (if ucast IRQ8 \<le> irq then Write8 PIC2_COMMAND PIC_EOI io else io) in Write8 PIC1_COMMAND PIC_EOI io1)"

definition irq_Wait :: "ports \<Rightarrow> ports" where
  "irq_Wait io = Write8 0x80 0 io"

definition RemapPic :: "ports \<Rightarrow> ports" where
  "RemapPic io =
     (let (a1, io) = Read8 PIC1_DATA io;
          (a2, io) = Read8 PIC2_DATA io;
          io = irq_Wait (Write8 PIC1_COMMAND (ICW1_INIT OR ICW1_ICW4) io);
          io = irq_Wait (Write8 PIC2_COMMAND (ICW1_INIT OR ICW1_ICW4) io);
          io = irq_Wait (Write8 PIC1_DATA (ucast IRQ0) io);
          io = irq_Wait (Write8 PIC2_DATA (ucast IRQ8) io);
          io = irq_Wait (Write8 PIC1_DATA 4 io);
          io = irq_Wait (Write8 PIC2_DATA 2 io);
          io = irq_Wait (Write8 PIC1_DATA ICW4_8086 io);
          io = irq_Wait (Write8 PIC2_DATA ICW4_8086 io);
          io = Write8 PIC1_DATA a1 io
      in Write8 PIC2_DATA a2 io)"

section \<open>Segments\<close>

record gdt_entry_t =
  limit_low :: u16
  base_low :: u16
  base_middle :: u8
  gdt_access :: u8
  granularity :: u8
  base_high :: u8

record gdt_ptr_t =
  gdt_ptr_limit :: u16
  gdt_ptr_base :: u32

record tss_entry_t =
  prev_tss :: u32
  esp0 :: u32
  ss0 :: u32
  esp1 :: u32
  ss1 :: u32
  esp2 :: u32
  ss2 :: u32
  tss_cr3 :: u32
  tss_eip :: u32
  tss_eflags :: u32
  tss_eax :: u32
  tss_ecx :: u32
  tss_edx :: u32
  tss_ebx :: u32
  tss_esp :: u32
  tss_ebp :: u32
  tss_esi :: u32
  tss_edi :: u32
  tss_es :: u32
  tss_cs :: u32
  tss_ss :: u32
  tss_ds :: u32
  tss_fs :: u32
  tss_gs :: u32
  tss_ldt :: u32
  tss_trap :: u16
  tss_iomap_base :: u16

definition sizeof_gdt_entry_t :: nat where "sizeof_gdt_entry_t = 8"
definition sizeof_tss_entry_t :: nat where "sizeof_tss_entry_t = 104"
definition kNumGDTEntries :: nat where "kNumGDTEntries = 6"

record gdt_state =
  gdt_entries :: "gdt_entry_t list"
  gdt_ptr :: gdt_ptr_t
  tss_entry :: tss_entry_t

text \<open>\<open>GDTSetGate\<close> writes every field of an entry, so what was there before does not matter.\<close>

definition GDTSetGate :: "gdt_state \<Rightarrow> nat \<Rightarrow> u32 \<Rightarrow> u32 \<Rightarrow> u8 \<Rightarrow> u8 \<Rightarrow> gdt_state result" where
  "GDTSetGate s num base limit access gran =
     (if num < length (gdt_entries s)
      then Inr (s\<lparr>gdt_entries := (gdt_entries s)[num :=
         \<lparr>limit_low = ucast (limit AND 0xFFFF), base_low = ucast (base AND 0xFFFF), base_middle = ucast (drop_bit 16 base AND 0xFF),
          gdt_access = access, granularity = ucast (drop_bit 16 limit AND 0x0F) OR (gran AND 0xF0), base_high = ucast (drop_bit 24 base AND 0xFF)\<rparr>]\<rparr>)
      else Inl Out_of_bounds)"

definition zero_tss :: tss_entry_t where
  "zero_tss = \<lparr>prev_tss = 0, esp0 = 0, ss0 = 0, esp1 = 0, ss1 = 0, esp2 = 0, ss2 = 0, tss_cr3 = 0, tss_eip = 0, tss_eflags = 0,
     tss_eax = 0, tss_ecx = 0, tss_edx = 0, tss_ebx = 0, tss_esp = 0, tss_ebp = 0, tss_esi = 0, tss_edi = 0, tss_es = 0, tss_cs = 0,
     tss_ss = 0, tss_ds = 0, tss_fs = 0, tss_gs = 0, tss_ldt = 0, tss_trap = 0, tss_iomap_base = 0\<rparr>"

definition WriteTSS :: "u32 \<Rightarrow> gdt_state \<Rightarrow> nat \<Rightarrow> u16 \<Rightarrow> u32 \<Rightarrow> gdt_state result" where
  "WriteTSS addr s num kss kesp =
     (let limit = word_of_nat sizeof_tss_entry_t;
          t = zero_tss\<lparr>ss0 := ucast kss, esp0 := kesp, tss_iomap_base := word_of_nat sizeof_tss_entry_t, tss_cs := 0x0B,
                tss_ss := 0x13, tss_ds := 0x13, tss_es := 0x13, tss_fs := 0x13, tss_gs := 0x13\<rparr>
      in GDTSetGate (s\<lparr>tss_entry := t\<rparr>) num addr limit 0xE9 0x00)"

definition gdt_Initialize :: "u32 \<Rightarrow> u32 \<Rightarrow> gdt_state \<Rightarrow> gdt_state result" where
  "gdt_Initialize entries_addr tss_addr s =
     (let s0 = s\<lparr>gdt_ptr := \<lparr>gdt_ptr_limit = word_of_nat (sizeof_gdt_entry_t * kNumGDTEntries - 1), gdt_ptr_base = entries_addr\<rparr>\<rparr> in
      bindr (GDTSetGate s0 0 0 0 0 0) (\<lambda>s1.
      bindr (GDTSetGate s1 1 0 0xFFFFFFFF 0x9A 0xCF) (\<lambda>s2.
      bindr (GDTSetGate s2 2 0 0xFFFFFFFF 0x92 0xCF) (\<lambda>s3.
      bindr (GDTSetGate s3 3 0 0xFFFFFFFF 0xFA 0xCF) (\<lambda>s4.
      bindr (GDTSetGate s4 4 0 0xFFFFFFFF 0xF2 0xCF) (\<lambda>s5.
      WriteTSS tss_addr s5 5 0x10 0))))))"

section \<open>Interrupt gates\<close>

record idt_entry_t =
  base_lo :: u16
  sel :: u16
  always0 :: u8
  idt_flags :: u8
  base_hi :: u16

record idt_ptr_t =
  idt_ptr_limit :: u16
  idt_ptr_base :: u32

record idt_state =
  idt_entries :: "idt_entry_t list"
  idt_ptr :: idt_ptr_t

definition IDTSetGate :: "nat \<Rightarrow> u32 \<Rightarrow> u16 \<Rightarrow> u8 \<Rightarrow> idt_state \<Rightarrow> idt_state" where
  "IDTSetGate num base s flags i =
     i\<lparr>idt_entries := (idt_entries i)[num := \<lparr>base_lo = ucast (base AND 0xFFFF), sel = s, always0 = 0, idt_flags = flags,
        base_hi = ucast (drop_bit 16 base AND 0xFFFF)\<rparr>]\<rparr>"

definition zero_gate :: idt_entry_t where
  "zero_gate = \<lparr>base_lo = 0, sel = 0, always0 = 0, idt_flags = 0, base_hi = 0\<rparr>"

definition idt_Initialize :: "u32 \<Rightarrow> idt_state" where
  "idt_Initialize entries_addr =
     \<lparr>idt_entries = replicate 256 zero_gate, idt_ptr = \<lparr>idt_ptr_limit = word_of_nat (8 * 256 - 1), idt_ptr_base = entries_addr\<rparr>\<rparr>"

definition kDPLUser :: u8 where "kDPLUser = 0x60"

text \<open>The pairs of gate and entry point in the order of the calls in \<open>isr::Initialize\<close>: gate 39, not 30, gets \<open>isr30\<close>.\<close>

definition isr_gates :: "(nat \<times> nat) list" where
  "isr_gates =
     [(0, 0), (1, 1), (2, 2), (3, 3), (4, 4), (5, 5), (6, 6), (7, 7), (8, 8), (9, 9), (10, 10), (11, 11), (12, 12), (13, 13), (14, 14),
      (15, 15), (16, 16), (17, 17), (18, 18), (19, 19), (20, 20), (21, 21), (22, 22), (23, 23), (24, 24), (25, 25), (26, 26), (27, 27),
      (28, 28), (29, 29), (39, 30), (31, 31)]"

definition isr_Initialize :: "(nat \<Rightarrow> u32) \<Rightarrow> idt_state \<Rightarrow> idt_state" where
  "isr_Initialize isr i =
     IDTSetGate (unat kSyscallHandler) (isr 128) 0x08 (0x8E OR kDPLUser)
       (fold (\<lambda>(num, n). IDTSetGate num (isr n) 0x08 0x8E) isr_gates i)"

definition irq_gates :: "(nat \<times> nat) list" where
  "irq_gates =
     [(32, 0), (33, 1), (34, 2), (35, 3), (36, 4), (37, 5), (38, 6), (39, 7), (40, 8), (41, 9), (42, 10), (43, 11), (44, 12), (45, 13),
      (46, 14), (47, 15)]"

definition irq_Initialize :: "(nat \<Rightarrow> u32) \<Rightarrow> ports \<Rightarrow> idt_state \<Rightarrow> ports \<times> idt_state" where
  "irq_Initialize irq io i = (RemapPic io, fold (\<lambda>(num, n). IDTSetGate num (irq n) 0x08 0x8E) irq_gates i)"

section \<open>Handlers\<close>

definition kNumIsrHandlers :: nat where "kNumIsrHandlers = 256"

type_synonym handler_table = "handler option list"

definition RegisterIsrHandler :: "handler_table \<Rightarrow> nat \<Rightarrow> handler \<Rightarrow> handler_table result" where
  "RegisterIsrHandler gIsrHandlers num h =
     (if num < length gIsrHandlers then check (gIsrHandlers ! num = None) (Inr (gIsrHandlers[num := Some h])) else Inl Out_of_bounds)"

function register_all :: "handler_table \<Rightarrow> nat \<Rightarrow> handler_table result" where
  "register_all t i =
     (if i < kNumIsrHandlers then bindr (RegisterIsrHandler t i ExceptionDispatcher) (\<lambda>t'. register_all t' (Suc i)) else Inr t)"
  by pat_completeness auto
termination by (relation "measure (\<lambda>(t, i). kNumIsrHandlers - i)") auto

declare register_all.simps [simp del]

definition InitializeHandlers :: "handler_table \<Rightarrow> handler_table result" where
  "InitializeHandlers t = register_all t 0"

text \<open>Entry from the assembly stubs. \<open>enabled\<close> is the interrupt flag; a call through a null pointer faults.\<close>

definition isr_handler :: "handler_table \<Rightarrow> bool \<Rightarrow> handler" where
  "isr_handler t enabled e k r =
     check (unat (r_int_no r) < 256)
      (check (\<not> enabled)
        (case t ! unat (r_int_no r) of Some h \<Rightarrow> h e k r | None \<Rightarrow> Inl Page_fault))"

definition irq_handler :: "handler_table \<Rightarrow> bool \<Rightarrow> ports \<Rightarrow> sys_env \<Rightarrow> kernel \<Rightarrow> registers \<Rightarrow> ((ctl \<times> registers \<times> kernel) result) \<times> ports" where
  "irq_handler t enabled io e k r = (isr_handler t enabled e k r, SendEndOfInterrupt (ucast (r_int_no r)) io)"


section \<open>Serial output\<close>

lemma ready_iff: "(b :: u8) AND 0x20 \<noteq> 0 \<longleftrightarrow> bit b 5"
  using and_exp_eq_0_iff_not_bit [of b 5] by simp

lemma IsTransmitEmpty_eq:
  "IsTransmitEmpty io = (bit (answers io (kCOM1 + 5) (reads io (kCOM1 + 5))) 5, io\<lparr>reads := (reads io)(kCOM1 + 5 := Suc (reads io (kCOM1 + 5)))\<rparr>)"
  unfolding IsTransmitEmpty_def Read8_def by (simp add: ready_iff)

lemma Put_ready:
  assumes "bit (answers io (kCOM1 + 5) (reads io (kCOM1 + 5) + d)) 5"
  shows "\<exists>io'. Put c io = Some io' \<and> written io' = written io @ [(kCOM1, c)] \<and> answers io' = answers io"
  using assms
proof (induction d arbitrary: io)
  case 0
  then show ?case by (subst Put.simps) (simp add: IsTransmitEmpty_eq Write8_def)
next
  case (Suc d)
  let ?io = "io\<lparr>reads := (reads io)(kCOM1 + 5 := Suc (reads io (kCOM1 + 5)))\<rparr>"
  show ?case
  proof (cases "bit (answers io (kCOM1 + 5) (reads io (kCOM1 + 5))) 5")
    case True
    then show ?thesis by (subst Put.simps) (simp add: IsTransmitEmpty_eq Write8_def)
  next
    case False
    then have "Put c io = Put c ?io" by (subst Put.simps) (simp add: IsTransmitEmpty_eq)
    with Suc.IH [of ?io] Suc.prems show ?thesis by simp
  qed
qed

text \<open>C20: When the serial line becomes ready again and again, \<open>Write\<close> ends and the bytes of the string reach the data port
  complete, in order, and once each.\<close>

theorem serial_write_complete:
  assumes "\<forall>n. \<exists>m \<ge> n. bit (answers io (kCOM1 + 5) m) 5"
  shows "\<exists>io'. serial_Write cs io = Some io' \<and> written io' = written io @ map (Pair kCOM1) cs"
  using assms
proof (induction cs arbitrary: io)
  case (Cons c cs)
  obtain m where "reads io (kCOM1 + 5) \<le> m" "bit (answers io (kCOM1 + 5) m) 5" using Cons.prems by blast
  then have "bit (answers io (kCOM1 + 5) (reads io (kCOM1 + 5) + (m - reads io (kCOM1 + 5)))) 5" by simp
  from Put_ready [OF this] obtain io' where p: "Put c io = Some io'" "written io' = written io @ [(kCOM1, c)]" "answers io' = answers io" by blast
  have "\<forall>n. \<exists>m \<ge> n. bit (answers io' (kCOM1 + 5) m) 5" using Cons.prems p(3) by simp
  from Cons.IH [OF this] p(1,2) show ?case by auto
qed simp

theorem serial_write_complete_witness:
  "\<exists>io'. serial_Write [0x48, 0x69] \<lparr>written = [], answers = (\<lambda>_ n. if odd n then 0x60 else 0), reads = (\<lambda>_. 0)\<rparr> = Some io'
    \<and> written io' = [(0x3F8, 0x48), (0x3F8, 0x69)]"
proof -
  let ?io = "\<lparr>written = [], answers = (\<lambda>_ n. if odd n then 0x60 else 0), reads = (\<lambda>_. 0)\<rparr> :: ports"
  have b: "bit (0x60 :: u8) 5" by (simp flip: ready_iff)
  have "\<forall>n. \<exists>m \<ge> n. bit (answers ?io (kCOM1 + 5) m) 5"
  proof
    fix n :: nat
    show "\<exists>m \<ge> n. bit (answers ?io (kCOM1 + 5) m) 5" by (rule exI [of _ "2 * n + 1"]) (simp add: b)
  qed
  from serial_write_complete [OF this, of "[0x48, 0x69]"] show ?thesis by (simp only: kCOM1_def ports.simps append_Nil list.map)
qed

section \<open>Segments\<close>

text \<open>How the processor reads a descriptor.\<close>

definition seg_base :: "gdt_entry_t \<Rightarrow> u32" where
  "seg_base d = ucast (base_low d) OR push_bit 16 (ucast (base_middle d)) OR push_bit 24 (ucast (base_high d))"

definition seg_limit :: "gdt_entry_t \<Rightarrow> u32" where
  "seg_limit d = ucast (limit_low d) OR push_bit 16 (ucast (granularity d AND 0x0F))"

definition seg_present :: "gdt_entry_t \<Rightarrow> bool" where "seg_present d \<longleftrightarrow> bit (gdt_access d) 7"
definition seg_dpl :: "gdt_entry_t \<Rightarrow> u8" where "seg_dpl d = drop_bit 5 (gdt_access d) AND 3"
definition seg_executable :: "gdt_entry_t \<Rightarrow> bool" where "seg_executable d \<longleftrightarrow> bit (gdt_access d) 3"
definition seg_pages :: "gdt_entry_t \<Rightarrow> bool" where "seg_pages d \<longleftrightarrow> bit (granularity d) 7"

lemma masks: "(0xFFFF :: u32) = mask 16" "(0xFF :: u32) = mask 8" "(0xF :: u32) = mask 4" "(0xF :: u8) = mask 4" "(0xFFFFF :: u32) = mask 20"
  "(0xF0 :: u8) = push_bit 4 (mask 4)"
  by (simp_all add: mask_eq_exp_minus_1 push_bit_eq_mult)

definition gate_entry :: "u32 \<Rightarrow> u32 \<Rightarrow> u8 \<Rightarrow> u8 \<Rightarrow> gdt_entry_t" where
  "gate_entry base limit access gran =
     \<lparr>limit_low = ucast (limit AND 0xFFFF), base_low = ucast (base AND 0xFFFF), base_middle = ucast (drop_bit 16 base AND 0xFF),
      gdt_access = access, granularity = ucast (drop_bit 16 limit AND 0x0F) OR (gran AND 0xF0), base_high = ucast (drop_bit 24 base AND 0xFF)\<rparr>"

lemma gate_entry_decode:
  "seg_base (gate_entry base limit access gran) = base" "seg_limit (gate_entry base limit access gran) = limit AND 0xFFFFF"
  "gdt_access (gate_entry base limit access gran) = access" "granularity (gate_entry base limit access gran) AND 0xF0 = gran AND 0xF0"
proof -
  show "seg_base (gate_entry base limit access gran) = base"
    unfolding seg_base_def gate_entry_def masks
    by (rule bit_word_eqI, rename_tac n, case_tac "n < 24") (auto simp: bit_simps)
  show "seg_limit (gate_entry base limit access gran) = limit AND 0xFFFFF"
    unfolding seg_limit_def gate_entry_def masks by (rule bit_word_eqI) (auto simp: bit_simps)
  show "granularity (gate_entry base limit access gran) AND 0xF0 = gran AND 0xF0"
    unfolding gate_entry_def masks by (rule bit_word_eqI) (auto simp: bit_simps)
qed (simp add: gate_entry_def)

lemma GDTSetGate_eq:
  "num < length (gdt_entries s) \<Longrightarrow> GDTSetGate s num base limit access gran = Inr (s\<lparr>gdt_entries := (gdt_entries s)[num := gate_entry base limit access gran]\<rparr>)"
  by (simp add: GDTSetGate_def gate_entry_def)

text \<open>A flat segment: all of the 4 GB address space, in units of pages.\<close>

definition flat_segment :: "gdt_entry_t \<Rightarrow> u8 \<Rightarrow> bool \<Rightarrow> bool" where
  "flat_segment d dpl code \<longleftrightarrow> seg_present d \<and> seg_base d = 0 \<and> seg_limit d = 0xFFFFF \<and> seg_pages d \<and> seg_dpl d = dpl \<and> seg_executable d = code"

lemma flat_gate: "flat_segment (gate_entry 0 0xFFFFFFFF 0x9A 0xCF) 0 True" "flat_segment (gate_entry 0 0xFFFFFFFF 0x92 0xCF) 0 False"
  "flat_segment (gate_entry 0 0xFFFFFFFF 0xFA 0xCF) 3 True" "flat_segment (gate_entry 0 0xFFFFFFFF 0xF2 0xCF) 3 False"
proof -
  have g: "granularity (gate_entry 0 0xFFFFFFFF a 0xCF) = 0xCF" for a by (simp add: gate_entry_def)
  have b: "bit (w :: u8) n \<longleftrightarrow> w AND 2 ^ n \<noteq> 0" for w n using and_exp_eq_0_iff_not_bit [of w n] by simp
  show "flat_segment (gate_entry 0 0xFFFFFFFF 0x9A 0xCF) 0 True" "flat_segment (gate_entry 0 0xFFFFFFFF 0x92 0xCF) 0 False"
    "flat_segment (gate_entry 0 0xFFFFFFFF 0xFA 0xCF) 3 True" "flat_segment (gate_entry 0 0xFFFFFFFF 0xF2 0xCF) 3 False"
    by (simp_all add: flat_segment_def gate_entry_decode seg_present_def seg_dpl_def seg_executable_def seg_pages_def g b drop_bit_eq_div)
qed

text \<open>C19: \<open>gdt::Initialize\<close> gives the segments the scheduler relies on: the selectors that \<open>Task\<close> loads for kernel and user mode
  select flat code and data segments at ring 0 and ring 3, entry 5 is a descriptor of the TSS, and the
  TSS names the kernel's data segment for the stack and has no I/O bitmap.\<close>

theorem gdt_segments:
  assumes "length (gdt_entries s) = kNumGDTEntries"
  shows "\<exists>s'. gdt_Initialize ea ta s = Inr s' \<and> length (gdt_entries s') = kNumGDTEntries
    \<and> flat_segment (gdt_entries s' ! (unat kKernCodeSeg div 8)) 0 True \<and> flat_segment (gdt_entries s' ! (unat kKernDataSeg div 8)) 0 False
    \<and> flat_segment (gdt_entries s' ! (unat kUserCodeSeg div 8)) kRing3 True \<and> flat_segment (gdt_entries s' ! (unat kUserDataSeg div 8)) kRing3 False
    \<and> seg_base (gdt_entries s' ! 5) = ta \<and> unat (seg_limit (gdt_entries s' ! 5)) = sizeof_tss_entry_t
    \<and> ss0 (tss_entry s') = ucast kKernDataSeg \<and> tss_iomap_base (tss_entry s') = word_of_nat sizeof_tss_entry_t
    \<and> gdt_ptr_base (gdt_ptr s') = ea \<and> unat (gdt_ptr_limit (gdt_ptr s')) + 1 = sizeof_gdt_entry_t * kNumGDTEntries"
proof -
  obtain a b c d e f where l: "gdt_entries s = [a, b, c, d, e, f]" using assms by (auto simp: kNumGDTEntries_def length_Suc_conv eval_nat_numeral)
  have i: "gdt_Initialize ea ta s = Inr (s\<lparr>gdt_ptr := \<lparr>gdt_ptr_limit = 47, gdt_ptr_base = ea\<rparr>,
      tss_entry := zero_tss\<lparr>ss0 := 0x10, esp0 := 0, tss_iomap_base := 104, tss_cs := 0x0B, tss_ss := 0x13, tss_ds := 0x13, tss_es := 0x13, tss_fs := 0x13, tss_gs := 0x13\<rparr>,
      gdt_entries := [gate_entry 0 0 0 0, gate_entry 0 0xFFFFFFFF 0x9A 0xCF, gate_entry 0 0xFFFFFFFF 0x92 0xCF, gate_entry 0 0xFFFFFFFF 0xFA 0xCF,
        gate_entry 0 0xFFFFFFFF 0xF2 0xCF, gate_entry ta 104 0xE9 0]\<rparr>)"
    using l by (simp add: gdt_Initialize_def WriteTSS_def GDTSetGate_eq Let_def sizeof_gdt_entry_t_def sizeof_tss_entry_t_def kNumGDTEntries_def)
  show ?thesis unfolding i using flat_gate
    by (simp add: kKernCodeSeg_def kKernDataSeg_def kUserCodeSeg_def kUserDataSeg_def kRing3_def gate_entry_decode sizeof_tss_entry_t_def sizeof_gdt_entry_t_def
        kNumGDTEntries_def)
qed

definition example_gdt :: gdt_state where
  "example_gdt = \<lparr>gdt_entries = replicate 6 (gate_entry 0 0 0 0), gdt_ptr = \<lparr>gdt_ptr_limit = 0, gdt_ptr_base = 0\<rparr>, tss_entry = zero_tss\<rparr>"

theorem gdt_segments_witness:
  "\<exists>s'. gdt_Initialize 0x101000 0x102000 example_gdt = Inr s' \<and> seg_base (gdt_entries s' ! 5) = 0x102000"
  using gdt_segments [of example_gdt "0x101000" "0x102000"] by (auto simp: example_gdt_def kNumGDTEntries_def)

section \<open>Interrupt gates\<close>

definition gate_target :: "idt_entry_t \<Rightarrow> u32" where
  "gate_target d = ucast (base_lo d) OR push_bit 16 (ucast (base_hi d))"

definition gate_present :: "idt_entry_t \<Rightarrow> bool" where "gate_present d \<longleftrightarrow> bit (idt_flags d) 7"
definition gate_dpl :: "idt_entry_t \<Rightarrow> u8" where "gate_dpl d = drop_bit 5 (idt_flags d) AND 3"

definition gate_of :: "u32 \<Rightarrow> u16 \<Rightarrow> u8 \<Rightarrow> idt_entry_t" where
  "gate_of base s flags = \<lparr>base_lo = ucast (base AND 0xFFFF), sel = s, always0 = 0, idt_flags = flags, base_hi = ucast (drop_bit 16 base AND 0xFFFF)\<rparr>"

lemma IDTSetGate_eq: "idt_entries (IDTSetGate num base s fl i) = (idt_entries i)[num := gate_of base s fl]"
  by (simp add: IDTSetGate_def gate_of_def)

lemma gate_of_target: "gate_target (gate_of base s fl) = base"
  unfolding gate_target_def gate_of_def masks by (rule bit_word_eqI) (auto simp: bit_simps)

lemma gate_of_kinds: "gate_present (gate_of base s 0x8E)" "gate_dpl (gate_of base s 0x8E) = 0"
  "gate_present (gate_of base s 0xEE)" "gate_dpl (gate_of base s 0xEE) = 3" "\<not> gate_present zero_gate"
proof -
  have b: "bit (w :: u8) n \<longleftrightarrow> w AND 2 ^ n \<noteq> 0" for w n using and_exp_eq_0_iff_not_bit [of w n] by simp
  show "gate_present (gate_of base s 0x8E)" "gate_dpl (gate_of base s 0x8E) = 0" "gate_present (gate_of base s 0xEE)" "gate_dpl (gate_of base s 0xEE) = 3"
    "\<not> gate_present zero_gate"
    by (simp_all add: gate_present_def gate_dpl_def gate_of_def zero_gate_def b drop_bit_eq_div)
qed

lemma set_gates_entry:
  "distinct (map fst ps) \<Longrightarrow> (\<forall>(num, n) \<in> set ps. num < length (idt_entries i)) \<Longrightarrow>
    length (idt_entries (fold (\<lambda>(num, n). IDTSetGate num (addr n) s fl) ps i)) = length (idt_entries i) \<and>
    idt_entries (fold (\<lambda>(num, n). IDTSetGate num (addr n) s fl) ps i) ! g =
      (case map_of ps g of Some n \<Rightarrow> gate_of (addr n) s fl | None \<Rightarrow> idt_entries i ! g)"
proof (induction ps arbitrary: i)
  case (Cons p ps)
  obtain num n where p: "p = (num, n)" by (cases p)
  have "\<forall>(num', n') \<in> set ps. num' < length (idt_entries (IDTSetGate num (addr n) s fl i))" using Cons.prems(2) by (simp add: IDTSetGate_eq p)
  moreover have "num \<notin> dom (map_of ps)" using Cons.prems(1) p by (simp add: dom_map_of_conv_image_fst)
  ultimately show ?case using Cons.IH [of "IDTSetGate num (addr n) s fl i"] Cons.prems p by (auto simp: IDTSetGate_eq domIff split: option.split)
qed simp

lemma irq_gates_map: "map_of irq_gates g = (if 32 \<le> g \<and> g < 48 then Some (g - 32) else None)"
proof -
  have e: "irq_gates = map (\<lambda>n. (32 + n, n)) [0..<16]" by code_simp
  have "distinct (map fst irq_gates)" by code_simp
  then have m: "map_of irq_gates g = Some n \<longleftrightarrow> g = 32 + n \<and> n < 16" for n by (auto simp: map_of_eq_Some_iff) (auto simp: e)
  show ?thesis
  proof (cases "map_of irq_gates g")
    case None
    with m [of "g - 32"] show ?thesis by auto
  qed (use m in auto)
qed

lemma isr_gates_map: "map_of isr_gates g = (if g < 32 \<and> g \<noteq> 30 then Some g else if g = 39 then Some 30 else None)"
proof -
  have e: "isr_gates = map (\<lambda>n. (if n = 30 then 39 else n, n)) [0..<32]" by code_simp
  have "distinct (map fst isr_gates)" by code_simp
  then have m: "map_of isr_gates g = Some n \<longleftrightarrow> g = (if n = 30 then 39 else n) \<and> n < 32" for n by (auto simp: map_of_eq_Some_iff) (auto simp: e)
  show ?thesis
  proof (cases "map_of isr_gates g")
    case None
    with m [of g] m [of 30] show ?thesis by (auto split: if_splits)
  qed (use m in \<open>auto split: if_splits\<close>)
qed

text \<open>The interrupt table after \<open>idt\<close>, \<open>isr\<close> and \<open>irq::Initialize\<close>, gate by gate: the processor's exceptions go to their
  entry points, the interrupts of the two controllers to theirs, both from ring 0 only, and the gate of the system calls is the
  one gate that user mode may use. Every other gate is absent, that of exception 30 too.\<close>

theorem idt_gates:
  assumes "g < 256"
  shows "let d = idt_entries (snd (irq_Initialize irq io (isr_Initialize isr (idt_Initialize a)))) ! g in
    if g < 32 \<and> g \<noteq> 30 then gate_present d \<and> gate_target d = isr g \<and> gate_dpl d = 0 \<and> sel d = ucast kKernCodeSeg
    else if 32 \<le> g \<and> g < 48 then gate_present d \<and> gate_target d = irq (g - 32) \<and> gate_dpl d = 0 \<and> sel d = ucast kKernCodeSeg
    else if g = unat kSyscallHandler then gate_present d \<and> gate_target d = isr 128 \<and> gate_dpl d = kRing3 \<and> sel d = ucast kKernCodeSeg
    else \<not> gate_present d"
proof -
  let ?i1 = "fold (\<lambda>(num, n). IDTSetGate num (isr n) 0x08 0x8E) isr_gates (idt_Initialize a)"
  let ?i2 = "isr_Initialize isr (idt_Initialize a)" and ?i3 = "snd (irq_Initialize irq io (isr_Initialize isr (idt_Initialize a)))"
  have len: "length (idt_entries (idt_Initialize a)) = 256" by (simp add: idt_Initialize_def)
  have "distinct (map fst isr_gates)" "\<forall>(num, n) \<in> set isr_gates. num < length (idt_entries (idt_Initialize a))" unfolding len by code_simp+
  note i1 = set_gates_entry [OF this, of isr "0x08" "0x8E"]
  then have i2: "length (idt_entries ?i2) = 256"
    "idt_entries ?i2 ! n = (if n = 128 then gate_of (isr 128) 0x08 0xEE else idt_entries ?i1 ! n)" for n
    using len by (auto simp: isr_Initialize_def IDTSetGate_eq kSyscallHandler_def kDPLUser_def)
  have "distinct (map fst irq_gates)" "\<forall>(num, n) \<in> set irq_gates. num < length (idt_entries ?i2)" unfolding i2(1) by code_simp+
  note i3 = set_gates_entry [OF this, of irq "0x08" "0x8E"]
  have d: "idt_entries ?i3 ! g = (case map_of irq_gates g of Some n \<Rightarrow> gate_of (irq n) 0x08 0x8E
      | None \<Rightarrow> if g = 128 then gate_of (isr 128) 0x08 0xEE else (case map_of isr_gates g of Some n \<Rightarrow> gate_of (isr n) 0x08 0x8E | None \<Rightarrow> zero_gate))"
  proof -
    have z: "idt_entries (idt_Initialize a) ! g = zero_gate" using assms by (simp add: idt_Initialize_def)
    have "idt_entries ?i3 ! g = (case map_of irq_gates g of Some n \<Rightarrow> gate_of (irq n) 0x08 0x8E | None \<Rightarrow> idt_entries ?i2 ! g)"
      unfolding irq_Initialize_def snd_conv by (rule conjunct2 [OF i3])
    then show ?thesis unfolding i2(2) conjunct2 [OF i1, of g] z .
  qed
  have s: "sel (gate_of b s fl) = s" for b s fl by (simp add: gate_of_def)
  note facts = gate_of_kinds gate_of_target s kSyscallHandler_def kKernCodeSeg_def kRing3_def
  consider "32 \<le> g \<and> g < 48" | "g < 32 \<and> g \<noteq> 30" | "g = 128" | "\<not> (32 \<le> g \<and> g < 48) \<and> \<not> (g < 32 \<and> g \<noteq> 30) \<and> g \<noteq> 128 \<and> g \<noteq> 39"
    by linarith
  then show ?thesis
  proof cases
    case 3
    then have "idt_entries ?i3 ! g = gate_of (isr 128) 0x08 0xEE" unfolding d by (simp add: irq_gates_map)
    then show ?thesis unfolding Let_def using 3 by (simp add: facts)
  next
    case 4
    then have n: "map_of irq_gates g = None" "map_of isr_gates g = None" "g \<noteq> 128" unfolding irq_gates_map isr_gates_map by (simp_all only: if_False simp_thms)
    have "\<not> gate_present (idt_entries ?i3 ! g)" unfolding d n(1,2) using n(3) gate_of_kinds(5) by simp
    then show ?thesis using 4 by (simp add: Let_def kSyscallHandler_def)
  qed (simp_all add: Let_def d irq_gates_map isr_gates_map facts)
qed

theorem idt_gates_witness:
  "gate_target (idt_entries (snd (irq_Initialize (\<lambda>n. 0x3000) \<lparr>written = [], answers = (\<lambda>_ _. 0), reads = (\<lambda>_. 0)\<rparr>
      (isr_Initialize (\<lambda>n. 0x2000) (idt_Initialize 0x1000)))) ! 39) = 0x3000"
  using idt_gates [of 39 "\<lambda>n. 0x3000" "\<lparr>written = [], answers = (\<lambda>_ _. 0), reads = (\<lambda>_. 0)\<rparr>" "\<lambda>n. 0x2000" "0x1000"] by (simp add: Let_def)

section \<open>From an interrupt to the dispatcher\<close>

lemma register_all_step:
  assumes "length t = 256" "i \<le> 256" "\<forall>n < 256. t ! n = (if n < i then Some ExceptionDispatcher else None)"
  shows "register_all t i = Inr (replicate 256 (Some ExceptionDispatcher))"
  using assms
proof (induction "256 - i" arbitrary: t i)
  case 0
  then have "i = 256" by simp
  then have "t = replicate 256 (Some ExceptionDispatcher)" using 0 by (intro nth_equalityI) auto
  with \<open>i = 256\<close> show ?case by (subst register_all.simps) (simp add: kNumIsrHandlers_def)
next
  case (Suc d)
  then have i: "i < 256" by simp
  have "register_all t i = register_all (t[i := Some ExceptionDispatcher]) (Suc i)"
    using i Suc.prems by (subst register_all.simps) (simp add: kNumIsrHandlers_def RegisterIsrHandler_def)
  also have "\<dots> = Inr (replicate 256 (Some ExceptionDispatcher))"
    using Suc.prems Suc.hyps(2) i by (intro Suc.hyps(1)) (auto simp: nth_list_update)
  finally show ?case .
qed

text \<open>\<open>InitializeHandlers\<close> on the empty table succeeds, once: after it every interrupt below 256 that comes with interrupts
  disabled runs \<open>ExceptionDispatcher\<close>, any other fails an assertion, and the controllers are
  acknowledged before, the second one exactly when the interrupt is one of its own.\<close>

theorem interrupt_entry:
  "\<exists>t. InitializeHandlers (replicate kNumIsrHandlers None) = Inr t \<and> InitializeHandlers t = Inl Assert_failed
    \<and> (\<forall>enabled io e k r. irq_handler t enabled io e k r =
        ((if unat (r_int_no r) < 256 \<and> \<not> enabled then ExceptionDispatcher e k r else Inl Assert_failed),
         io\<lparr>written := written io @ (if 40 \<le> unat (r_int_no r) mod 256 then [(0xA0, 0x20)] else []) @ [(0x20, 0x20)]\<rparr>))"
proof -
  let ?t = "replicate 256 (Some ExceptionDispatcher)"
  have a: "InitializeHandlers (replicate kNumIsrHandlers None) = Inr ?t"
    unfolding InitializeHandlers_def kNumIsrHandlers_def by (rule register_all_step) simp_all
  have b: "InitializeHandlers ?t = Inl Assert_failed"
    unfolding InitializeHandlers_def by (subst register_all.simps) (simp add: kNumIsrHandlers_def RegisterIsrHandler_def)
  have c: "(ucast IRQ8 :: u8) \<le> ucast n \<longleftrightarrow> 40 \<le> unat n mod 256" for n :: u32
    by (simp add: IRQ8_def word_le_nat_alt unsigned_ucast_eq take_bit_eq_mod)
  have "irq_handler ?t enabled io e k r = ((if unat (r_int_no r) < 256 \<and> \<not> enabled then ExceptionDispatcher e k r else Inl Assert_failed),
         io\<lparr>written := written io @ (if 40 \<le> unat (r_int_no r) mod 256 then [(0xA0, 0x20)] else []) @ [(0x20, 0x20)]\<rparr>)" for enabled io e k r
    using c [of "r_int_no r"]
    by (auto simp: irq_handler_def isr_handler_def SendEndOfInterrupt_def Write8_def PIC1_COMMAND_def PIC2_COMMAND_def PIC_EOI_def Let_def check_def)
  with a b show ?thesis by blast
qed

end
