(* ===== verification/Malloc.thy ===== *)
theory Malloc
  imports Bits
begin

text \<open>
  The allocator of \<open>src/libc/malloc.cpp\<close>, shared by the kernel (\<open>kmalloc\<close>) and by user
  programs, on memory. Memory is a function from addresses to 32-bit words: every access of the
  allocator is an aligned 4-byte one (the allocation's two leading words and the malloc headers).
  A \<open>MallocHeader\<close> is the bit field word \<open>size_ : 31, used_ : 1\<close>; a pointer is an address, 0 is
  \<open>nullptr\<close>.

  The loops follow the code: \<open>IterMallocHeaders\<close> walks the linked list of allocations and the
  headers inside each, calling back on every header. On memory that holds no well-formed heap
  these loops need not end, so they carry fuel; \<open>Malloc_Refine\<close> shows how much is enough.
\<close>

section \<open>Memory and headers\<close>

record mstate =
  mem :: "u32 \<Rightarrow> u32"
  gFirstAlloc :: u32

definition kAllocOffset :: u32 where "kAllocOffset = 8"
definition kMinSize :: u32 where "kMinSize = 4"
definition kSizeMax :: u32 where "kSizeMax = 0x7FFFFFFF"
definition kMinAlign :: u32 where "kMinAlign = kMinSize"
definition sizeof_MallocHeader :: u32 where "sizeof_MallocHeader = 4"

definition GetAllocSize :: "mstate \<Rightarrow> u32 \<Rightarrow> u32" where
  "GetAllocSize s alloc = mem s (alloc + 4)"

definition GetNextAlloc :: "mstate \<Rightarrow> u32 \<Rightarrow> u32" where
  "GetNextAlloc s alloc = mem s alloc"

definition write_word :: "mstate \<Rightarrow> u32 \<Rightarrow> u32 \<Rightarrow> mstate" where
  "write_word s a v = s\<lparr>mem := (mem s)(a := v)\<rparr>"

fun last_alloc_loop :: "nat \<Rightarrow> mstate \<Rightarrow> u32 \<Rightarrow> u32 result" where
  "last_alloc_loop 0 s alloc = Inl Out_of_fuel"
| "last_alloc_loop (Suc n) s alloc =
     (let next_alloc = GetNextAlloc s alloc in
      if next_alloc \<noteq> 0 then last_alloc_loop n s next_alloc else Inr alloc)"

definition GetLastAlloc :: "nat \<Rightarrow> mstate \<Rightarrow> u32 result" where
  "GetLastAlloc n s =
     (if gFirstAlloc s = 0 then Inr 0 else last_alloc_loop n s (gFirstAlloc s))"

text \<open>The bit field word with a size (31 bits) and a used bit.\<close>

definition hdr :: "u32 \<Rightarrow> bool \<Rightarrow> u32" where
  "hdr sz used = (if used then sz OR 0x80000000 else sz)"

definition getSize :: "mstate \<Rightarrow> u32 \<Rightarrow> u32" where
  "getSize s h = take_bit 31 (mem s h)"

definition isUsed :: "mstate \<Rightarrow> u32 \<Rightarrow> bool" where
  "isUsed s h = bit (mem s h) 31"

definition SizeFits :: "u32 \<Rightarrow> bool" where
  "SizeFits sz \<longleftrightarrow> sz \<le> kSizeMax"

definition SizeFits_inc :: "u32 \<Rightarrow> u32 \<Rightarrow> bool" where
  "SizeFits_inc sz inc = (if sz + inc < sz then False else sz + inc \<le> kSizeMax)"

definition setSize :: "mstate \<Rightarrow> u32 \<Rightarrow> u32 \<Rightarrow> mstate result" where
  "setSize s h sz =
     check (SizeFits sz) (check (sz mod kMinSize = 0) (check (sz \<noteq> 0)
       (Inr (write_word s h (hdr sz (isUsed s h))))))"

definition setUsed :: "mstate \<Rightarrow> u32 \<Rightarrow> bool \<Rightarrow> mstate" where
  "setUsed s h used = write_word s h (hdr (getSize s h) used)"

definition IncSize :: "mstate \<Rightarrow> u32 \<Rightarrow> u32 \<Rightarrow> mstate result" where
  "IncSize s h inc =
     check (SizeFits_inc (getSize s h) inc)
      (let s' = write_word s h (hdr (getSize s h + inc) (isUsed s h))
       in check (getSize s' h \<noteq> 0) (Inr s'))"

definition IsValid :: "mstate \<Rightarrow> u32 \<Rightarrow> bool" where
  "IsValid s h \<longleftrightarrow> h mod kMinAlign = 0 \<and> getSize s h mod kMinAlign = 0"

section \<open>Iteration\<close>

type_synonym 'a callback =
  "mstate \<Rightarrow> u32 \<Rightarrow> u32 \<Rightarrow> u32 \<Rightarrow> 'a \<Rightarrow> (bool \<times> mstate \<times> 'a) result"

text \<open>The inner loop: the headers of one allocation, from \<open>start\<close> up to \<open>lim\<close>. The answer says
  whether the iteration goes on with the next allocation.\<close>

fun iter_headers :: "nat \<Rightarrow> 'a callback \<Rightarrow> u32 \<Rightarrow> u32 \<Rightarrow> u32 \<Rightarrow> u32 \<Rightarrow> mstate \<Rightarrow> 'a
    \<Rightarrow> (bool \<times> mstate \<times> 'a) result" where
  "iter_headers 0 cb alloc alloc_size lim start s a = Inl Out_of_fuel"
| "iter_headers (Suc n) cb alloc alloc_size lim start s a =
     (if start < lim
      then bindr (cb s start alloc alloc_size a) (\<lambda>(go, s', a').
        if go
        then iter_headers n cb alloc alloc_size lim
               (start + (sizeof_MallocHeader + getSize s' start)) s' a'
        else Inr (False, s', a'))
      else Inr (True, s, a))"

fun iter_allocs :: "nat \<Rightarrow> nat \<Rightarrow> 'a callback \<Rightarrow> u32 \<Rightarrow> mstate \<Rightarrow> 'a \<Rightarrow> (mstate \<times> 'a) result" where
  "iter_allocs 0 n cb alloc s a = Inl Out_of_fuel"
| "iter_allocs (Suc k) n cb alloc s a =
     (if alloc = 0 then Inr (s, a)
      else let alloc_size = GetAllocSize s alloc; start = alloc + kAllocOffset in
        check (getSize s start \<noteq> 0)
         (bindr (iter_headers n cb alloc alloc_size (alloc + alloc_size) start s a)
           (\<lambda>(go, s', a').
             if go then iter_allocs k n cb (GetNextAlloc s' alloc) s' a' else Inr (s', a'))))"

definition IterMallocHeaders :: "nat \<Rightarrow> 'a callback \<Rightarrow> mstate \<Rightarrow> 'a \<Rightarrow> (mstate \<times> 'a) result" where
  "IterMallocHeaders n cb s a = iter_allocs n n cb (gFirstAlloc s) s a"

section \<open>Merging\<close>

text \<open>The loop over sequential unused headers behind a free \<open>header\<close>; the answer is the
  callback's return value.\<close>

fun merge_loop :: "nat \<Rightarrow> u32 \<Rightarrow> u32 \<Rightarrow> u32 \<Rightarrow> mstate \<Rightarrow> (bool \<times> mstate) result" where
  "merge_loop 0 header lim next_header s = Inl Out_of_fuel"
| "merge_loop (Suc n) header lim next_header s =
     (if getSize s next_header = 0 \<or> \<not> isUsed s next_header
      then bindr (IncSize s header (sizeof_MallocHeader + getSize s next_header)) (\<lambda>s'.
        let next_header' = header + sizeof_MallocHeader + getSize s' header in
        if next_header' \<ge> lim then Inr (False, s')
        else check (IsValid s' header) (merge_loop n header lim next_header' s'))
      else Inr (True, s))"

definition merge_callback :: "nat \<Rightarrow> unit callback" where
  "merge_callback n s header alloc alloc_size arg =
     (if isUsed s header then Inr (True, s, ())
      else let lim = alloc + alloc_size;
               next_header = header + sizeof_MallocHeader + getSize s header in
        if next_header \<ge> lim then Inr (False, s, ())
        else bindr (merge_loop n header lim next_header s) (\<lambda>(go, s'). Inr (go, s', ())))"

definition MergeMallocHeaders :: "nat \<Rightarrow> mstate \<Rightarrow> mstate result" where
  "MergeMallocHeaders n s =
     bindr (IterMallocHeaders n (merge_callback n) s ()) (\<lambda>(s', _). Inr s')"

section \<open>Partitioning\<close>

text \<open>\<open>Partition\<close> calls itself after splitting off a leading part; the fuel bounds that
  recursion (two calls are enough).\<close>

fun Partition :: "nat \<Rightarrow> mstate \<Rightarrow> u32 \<Rightarrow> u32 \<Rightarrow> u32 \<Rightarrow> (u32 \<times> mstate) result" where
  "Partition 0 s header desired_size desired_align = Inl Out_of_fuel"
| "Partition (Suc n) s header desired_size desired_align =
     check (\<not> isUsed s header) (check (IsValid s header)
     (let addr = header + sizeof_MallocHeader; lim = addr + getSize s header in
      check (addr \<noteq> 0)
      (let align = push_bit (ctz addr) 1 in
       if getSize s header = desired_size
       then (if align \<ge> desired_align then Inr (header, s) else Inr (0, s))
       else if getSize s header < desired_size then Inr (0, s)
       else check (getSize s header - desired_size \<ge> sizeof_MallocHeader)
        (if align \<ge> desired_align
         then
          (if getSize s header - desired_size = sizeof_MallocHeader then Inr (header, s)
           else let new_header = addr + desired_size in
             bindr (setSize s new_header (getSize s header - desired_size - sizeof_MallocHeader))
             (\<lambda>s1. let s2 = setUsed s1 new_header False in
              check (IsValid s2 new_header)
              (check (new_header + getSize s2 new_header + sizeof_MallocHeader = lim)
              (bindr (setSize s2 header desired_size) (\<lambda>s3.
                 check (IsValid s3 header)
                 (check (addr + getSize s3 header = new_header) (Inr (header, s3))))))))
         else
          bindr (RoundUp addr desired_align) (\<lambda>new_addr0.
           check (new_addr0 - addr \<ge> sizeof_MallocHeader) (check (new_addr0 mod desired_align = 0)
           (let new_addr = (if new_addr0 - addr = sizeof_MallocHeader
                            then new_addr0 + desired_align else new_addr0) in
            if new_addr + desired_size > lim then Inr (0, s)
            else let new_size = lim - new_addr in
            if \<not> SizeFits new_size then Inr (0, s)
            else if new_size = 0 then Inr (0, s)
            else let new_header = new_addr - sizeof_MallocHeader in
             check (new_header \<noteq> header)
             (bindr (setSize s new_header new_size) (\<lambda>s1.
              let s2 = setUsed s1 new_header False in
              check (IsValid s2 new_header)
              (bindr (setSize s2 header (new_addr - addr - sizeof_MallocHeader)) (\<lambda>s3.
               check (IsValid s3 header)
               (bindr (Partition n s3 new_header desired_size desired_align) (\<lambda>(r, s4).
                check (r \<noteq> 0) (check (\<not> isUsed s4 r) (check (IsValid s4 r)
                 (Inr (r, s4)))))))))))))))))"

section \<open>Setting up an allocation\<close>

definition SetupNewAllocation :: "nat \<Rightarrow> mstate \<Rightarrow> u32 \<Rightarrow> u32 \<Rightarrow> mstate result" where
  "SetupNewAllocation n s alloc_start alloc_size =
     check (alloc_start \<noteq> 0) (check (alloc_size > kAllocOffset)
     (let s1 = write_word s alloc_start 0;
          s2 = write_word s1 (alloc_start + 4) alloc_size in
      bindr (GetLastAlloc n s2) (\<lambda>last_alloc.
      let s3 = (if last_alloc \<noteq> 0 then write_word s2 last_alloc alloc_start else s2);
          head = alloc_start + kAllocOffset in
      bindr (setSize s3 head (alloc_size - sizeof_MallocHeader - kAllocOffset)) (\<lambda>s4.
      let s5 = setUsed s4 head False in
      check (IsValid s5 head) (Inr s5)))))"

section \<open>The allocator's interface\<close>

definition avail_callback :: "u32 callback" where
  "avail_callback s header alloc alloc_size avail =
     Inr (True, s, if isUsed s header then avail else avail + getSize s header)"

definition GetAvailMemory :: "nat \<Rightarrow> mstate \<Rightarrow> u32 result" where
  "GetAvailMemory n s = bindr (IterMallocHeaders n avail_callback s 0) (\<lambda>(_, avail). Inr avail)"

text \<open>The search of \<open>MallocImpl\<close>; the argument is \<open>args->header\<close>.\<close>

definition search_callback :: "nat \<Rightarrow> u32 \<Rightarrow> u32 \<Rightarrow> u32 callback" where
  "search_callback n desired_size desired_align s header alloc alloc_size found =
     (if isUsed s header then Inr (True, s, found)
      else bindr (Partition n s header desired_size desired_align) (\<lambda>(free_header, s').
        if free_header \<noteq> 0
        then check (\<not> isUsed s' free_header)
              (Inr (False, setUsed s' free_header True, free_header))
        else Inr (True, s', found)))"

definition MallocImpl :: "nat \<Rightarrow> mstate \<Rightarrow> u32 \<Rightarrow> u32 \<Rightarrow> (u32 \<times> mstate) result" where
  "MallocImpl n s size0 align0 =
     (if size0 = 0 then Inr (0, s)
      else if \<not> IsPowerOf2 align0 then Inr (0, s)
      else bindr (RoundUp (max size0 kMinSize) kMinAlign) (\<lambda>size.
      let align = max align0 kMinAlign in
      if \<not> SizeFits size then Inr (0, s)
      else bindr (GetAvailMemory n s) (\<lambda>avail.
      if size > avail then Inr (0, s)
      else bindr (IterMallocHeaders n (search_callback n size align) s 0) (\<lambda>(s1, header).
      bindr (MergeMallocHeaders n s1) (\<lambda>s2.
      if header = 0 then Inr (0, s2)
      else let addr = header + sizeof_MallocHeader in
        check (getSize s2 header \<ge> size) (check (addr mod align = 0) (check (isUsed s2 header)
          (Inr (addr, s2)))))))))"

text \<open>\<open>ValidateMalloc\<close>, and the same loop at the end of \<open>free\<close>: abort on a header of size 0.\<close>

definition validate_callback :: "unit callback" where
  "validate_callback s header alloc alloc_size arg =
     (if getSize s header = 0 then Inl Abort_called else Inr (True, s, ()))"

definition ValidateMalloc :: "nat \<Rightarrow> mstate \<Rightarrow> mstate result" where
  "ValidateMalloc n s = bindr (IterMallocHeaders n validate_callback s ()) (\<lambda>(s', _). Inr s')"

text \<open>\<open>gAskFunc\<close>, when set, maps more memory and returns it; what it changes outside the
  allocator is the state \<open>k\<close>.\<close>

type_synonym 'k ask_for_more = "'k \<Rightarrow> (u32 \<times> u32 \<times> 'k) result"

definition malloc :: "nat \<Rightarrow> 'k ask_for_more option \<Rightarrow> 'k \<Rightarrow> mstate \<Rightarrow> u32 \<Rightarrow> u32
    \<Rightarrow> (u32 \<times> 'k \<times> mstate) result" where
  "malloc n gAskFunc k s sz align =
     bindr (MallocImpl n s sz align) (\<lambda>(res, s1).
     bindr (ValidateMalloc n s1) (\<lambda>s2.
     if res \<noteq> 0 then Inr (res, k, s2)
     else if sz = 0 then Inr (res, k, s2)
     else if sz > kSizeMax then Inr (res, k, s2)
     else case gAskFunc of
       None \<Rightarrow> Inr (res, k, s2)
     | Some ask \<Rightarrow>
         bindr (ask k) (\<lambda>(newalloc, newsize, k').
         bindr (SetupNewAllocation n s2 newalloc newsize) (\<lambda>s3.
         bindr (MallocImpl n s3 sz align) (\<lambda>(res', s4). Inr (res', k', s4))))))"

definition malloc_default :: "nat \<Rightarrow> 'k ask_for_more option \<Rightarrow> 'k \<Rightarrow> mstate \<Rightarrow> u32
    \<Rightarrow> (u32 \<times> 'k \<times> mstate) result" where
  "malloc_default n gAskFunc k s sz = malloc n gAskFunc k s sz kMinAlign"

text \<open>The search of \<open>free\<close>; the argument is \<open>params->found_ptr\<close>.\<close>

definition free_callback :: "u32 \<Rightarrow> bool callback" where
  "free_callback ptr s header alloc alloc_size found_ptr =
     (if header + sizeof_MallocHeader = ptr
      then check (isUsed s header) (Inr (False, setUsed s header False, True))
      else Inr (True, s, found_ptr))"

definition free :: "nat \<Rightarrow> mstate \<Rightarrow> u32 \<Rightarrow> mstate result" where
  "free n s ptr =
     (if ptr = 0 then Inr s
      else check (ptr mod kMinAlign = 0)
      (bindr (IterMallocHeaders n (free_callback ptr) s False) (\<lambda>(s1, found_ptr).
       check found_ptr (check (\<not> isUsed s1 (ptr - sizeof_MallocHeader))
       (bindr (MergeMallocHeaders n s1) (ValidateMalloc n))))))"

definition malloc_Initialize :: "nat \<Rightarrow> mstate \<Rightarrow> u32 \<Rightarrow> u32 \<Rightarrow> mstate result" where
  "malloc_Initialize n s alloc_start alloc_size =
     bindr (SetupNewAllocation n s alloc_start alloc_size) (\<lambda>s1.
     let s2 = s1\<lparr>gFirstAlloc := alloc_start\<rparr> in
     bindr (GetAvailMemory n s2) (\<lambda>avail.
     check (avail = alloc_size - sizeof_MallocHeader - kAllocOffset)
     (bindr (GetLastAlloc n s2) (\<lambda>last_alloc. check (last_alloc = gFirstAlloc s2) (Inr s2)))))"

end
