(* ===== verification/Malloc_Blocks.thy ===== *)
theory Malloc_Blocks
  imports Bits
begin

text \<open>
  The abstract allocator: what \<open>src/libc/malloc.cpp\<close> does, without the memory it does it in.
  An allocation (\<open>arena\<close>) is tiled by blocks, each a size and a used flag; a block occupies its
  size plus four header bytes. \<open>split_free\<close> is \<open>Partition\<close>, \<open>find_fit\<close> the first-fit search,
  \<open>merge_blocks\<close> the merging of adjacent free blocks. The theory shows what these do to the set
  of live allocations; \<open>Malloc_Refine\<close> shows that the code on memory implements them.
\<close>

section \<open>Blocks\<close>

type_synonym block = "nat \<times> bool"

fun bytes :: "block list \<Rightarrow> nat" where
  "bytes [] = 0"
| "bytes ((sz, u) # bs) = 4 + sz + bytes bs"

text \<open>The headers of a block list laid out from address \<open>a\<close>: address, size, used.\<close>

fun headers_at :: "nat \<Rightarrow> block list \<Rightarrow> (nat \<times> nat \<times> bool) list" where
  "headers_at a [] = []"
| "headers_at a ((sz, u) # bs) = (a, sz, u) # headers_at (a + 4 + sz) bs"

definition live_at :: "nat \<Rightarrow> block list \<Rightarrow> (nat \<times> nat) set" where
  "live_at a bs = {(h + 4, sz) | h sz. (h, sz, True) \<in> set (headers_at a bs)}"

definition free_bytes :: "block list \<Rightarrow> nat" where
  "free_bytes bs = sum_list (map (\<lambda>(sz, u). if u then 0 else sz) bs)"

definition block_ok :: "block \<Rightarrow> bool" where
  "block_ok b \<longleftrightarrow> 0 < fst b \<and> 4 dvd fst b"

lemma bytes_append [simp]: "bytes (xs @ ys) = bytes xs + bytes ys"
  by (induction xs rule: bytes.induct) auto

lemma headers_at_append [simp]:
  "headers_at a (xs @ ys) = headers_at a xs @ headers_at (a + bytes xs) ys"
  by (induction a xs rule: headers_at.induct) (auto simp: add.assoc)

lemma live_at_Nil [simp]: "live_at a [] = {}"
  by (simp add: live_at_def)

lemma live_at_Cons [simp]:
  "live_at a ((sz, u) # bs) = (if u then {(a + 4, sz)} else {}) \<union> live_at (a + 4 + sz) bs"
  by (auto simp: live_at_def)

lemma live_at_append [simp]: "live_at a (xs @ ys) = live_at a xs \<union> live_at (a + bytes xs) ys"
  by (auto simp: live_at_def)

lemma free_bytes_simps [simp]:
  "free_bytes [] = 0"
  "free_bytes ((sz, u) # bs) = (if u then 0 else sz) + free_bytes bs"
  "free_bytes (xs @ ys) = free_bytes xs + free_bytes ys"
  by (simp_all add: free_bytes_def)

lemma headers_at_range: "(h, sz, u) \<in> set (headers_at a bs) \<Longrightarrow> a \<le> h \<and> h + 4 + sz \<le> a + bytes bs"
  by (induction a bs rule: headers_at.induct) fastforce+

lemma length_headers_at [simp]: "length (headers_at a bs) = length bs"
  by (induction a bs rule: headers_at.induct) auto

lemma free_bytes_le: "free_bytes bs \<le> bytes bs"
  by (induction bs rule: bytes.induct) auto

lemma length_blocks_le: "\<forall>b \<in> set bs. block_ok b \<Longrightarrow> 8 * length bs \<le> bytes bs"
proof (induction bs rule: bytes.induct)
  case (2 sz u bs)
  then have "4 \<le> sz" by (auto simp: block_ok_def dvd_def)
  with 2 show ?case by simp
qed simp

lemma bytes_dvd: "\<forall>b \<in> set bs. block_ok b \<Longrightarrow> 4 dvd bytes bs"
  by (induction bs rule: bytes.induct) (auto simp: block_ok_def)

text \<open>Two live blocks of one layout are the same block or do not overlap, headers included.\<close>

lemma live_at_range: "(p, sz) \<in> live_at a bs \<Longrightarrow> a + 4 \<le> p \<and> p + sz \<le> a + bytes bs"
  by (auto simp: live_at_def dest: headers_at_range)

lemma live_at_disjoint:
  "(p, sz) \<in> live_at a bs \<Longrightarrow> (q, sz') \<in> live_at a bs \<Longrightarrow>
     (p, sz) = (q, sz') \<or> p + sz + 4 \<le> q \<or> q + sz' + 4 \<le> p"
proof (induction a bs rule: headers_at.induct)
  case (2 a s u bs)
  then show ?case by (fastforce dest: live_at_range split: if_splits)
qed simp

section \<open>Partition\<close>

definition round_up :: "nat \<Rightarrow> nat \<Rightarrow> nat" where
  "round_up n al = (n + al - 1) div al * al"

text \<open>Taking \<open>d\<close> bytes from the front of a free block of \<open>sz\<close>: a remainder of exactly one
  header stays with the block.\<close>

definition split_front :: "nat \<Rightarrow> nat \<Rightarrow> nat \<times> block list" where
  "split_front sz d = (if sz = d \<or> sz = d + 4 then (sz, []) else (d, [(sz - d - 4, False)]))"

text \<open>Cutting an aligned block of \<open>d\<close> bytes out of the free block with payload at \<open>ad\<close>: the free
  part before it, its size, the free part behind it.\<close>

definition aligned_start :: "nat \<Rightarrow> nat \<Rightarrow> nat" where
  "aligned_start ad al = (let na = round_up ad al in if na - ad = 4 then na + al else na)"

definition split_free :: "nat \<Rightarrow> nat \<Rightarrow> nat \<Rightarrow> nat \<Rightarrow> (block list \<times> nat \<times> block list) option" where
  "split_free ad sz d al =
     (if sz < d then None
      else if al dvd ad then Some ([], split_front sz d)
      else if sz = d then None
      else let na = aligned_start ad al in
        if ad + sz < na + d then None
        else Some ([(na - ad - 4, False)], split_front (ad + sz - na) d))"

lemma split_front_props:
  assumes "split_front sz d = (sz', post)" "d \<le> sz" "0 < d" "4 dvd d" "4 dvd sz"
  shows "d \<le> sz' \<and> sz' \<le> d + 4 \<and> 4 dvd sz' \<and> sz' + bytes post = sz
    \<and> (\<forall>b \<in> set post. block_ok b \<and> \<not> snd b) \<and> length post \<le> 1"
proof (cases "sz = d \<or> sz = d + 4")
  case False
  with assms(2,4,5) have "d + 8 \<le> sz"
    by (auto elim!: dvdE) presburger
  with False assms show ?thesis by (auto simp: split_front_def block_ok_def)
qed (use assms in \<open>auto simp: split_front_def\<close>)

lemma round_up_props:
  assumes "0 < al"
  shows "n \<le> round_up n al" "round_up n al < n + al" "al dvd round_up n al"
  using RoundUp_bounds [OF assms, of n] by (simp_all add: round_up_def)

lemma aligned_start_props:
  assumes "4 dvd al" "0 < al" "4 dvd ad" "\<not> al dvd ad"
  shows "al dvd aligned_start ad al" "ad + 8 \<le> aligned_start ad al" "4 dvd aligned_start ad al"
proof -
  let ?na = "round_up ad al"
  note r = round_up_props [OF assms(2), of ad]
  have ne: "?na \<noteq> ad" using r(3) assms(4) by auto
  have d4: "4 dvd ?na" using assms(1) r(3) by (rule dvd_trans)
  show "al dvd aligned_start ad al" using r(3) by (simp add: aligned_start_def Let_def)
  then show "4 dvd aligned_start ad al" using assms(1) dvd_trans by blast
  have al: "4 \<le> al" using assms(1,2) by (auto intro: dvd_imp_le)
  show "ad + 8 \<le> aligned_start ad al"
  proof (cases "?na - ad = 4")
    case True
    then show ?thesis using r(1) al by (simp add: aligned_start_def)
  next
    case False
    have "4 dvd ?na - ad" using d4 assms(3) by (rule dvd_diff_nat)
    then obtain k where k: "?na - ad = 4 * k" by (auto elim: dvdE)
    with False ne r(1) have "2 \<le> k" by (cases k) auto
    with k r(1) False show ?thesis by (simp add: aligned_start_def Let_def)
  qed
qed

lemma split_free_props:
  assumes s: "split_free ad sz d al = Some (pre, sz', post)"
    and d: "0 < d" "4 dvd d" and sz: "4 dvd sz" and al: "4 dvd al" "0 < al" and ad: "4 dvd ad"
  shows "d \<le> sz' \<and> 4 dvd sz' \<and> 4 + sz = bytes pre + 4 + sz' + bytes post \<and> al dvd ad + bytes pre
    \<and> (\<forall>b \<in> set pre \<union> set post. block_ok b \<and> \<not> snd b) \<and> length pre \<le> 1 \<and> length post \<le> 1"
proof (cases "al dvd ad")
  case True
  with s have "d \<le> sz" "pre = []" "split_front sz d = (sz', post)"
    by (auto simp: split_free_def split: if_splits)
  with split_front_props [of sz d sz' post] True d sz show ?thesis by auto
next
  case False
  let ?na = "aligned_start ad al"
  from False s have fit: "?na + d \<le> ad + sz" and pre: "pre = [(?na - ad - 4, False)]"
    and sp: "split_front (ad + sz - ?na) d = (sz', post)"
    by (auto simp: split_free_def Let_def split: if_splits)
  note na = aligned_start_props [OF al ad False]
  have "4 dvd ad + sz - ?na" using na(3) ad sz by (intro dvd_diff_nat) auto
  with split_front_props [OF sp _ d] fit
  have post: "d \<le> sz'" "4 dvd sz'" "sz' + bytes post = ad + sz - ?na"
    "\<forall>b \<in> set post. block_ok b \<and> \<not> snd b" "length post \<le> 1" by auto
  have "4 dvd ?na - ad - 4" using na(3) ad by (intro dvd_diff_nat) auto
  with na(2) have "block_ok (?na - ad - 4, False)" by (simp add: block_ok_def)
  with post pre na fit show ?thesis by auto
qed

section \<open>First fit\<close>

fun find_fit :: "nat \<Rightarrow> block list \<Rightarrow> nat \<Rightarrow> nat \<Rightarrow> (nat \<times> block list) option" where
  "find_fit a [] d al = None"
| "find_fit a ((sz, u) # bs) d al =
     (case (if u then None else split_free (a + 4) sz d al) of
        Some (pre, sz', post) \<Rightarrow> Some (a + bytes pre + 4, pre @ (sz', True) # post @ bs)
      | None \<Rightarrow> map_option (\<lambda>(p, bs'). (p, (sz, u) # bs')) (find_fit (a + 4 + sz) bs d al))"

lemma live_at_free: "\<forall>b \<in> set bs. \<not> snd b \<Longrightarrow> live_at a bs = {}"
  by (induction a bs rule: headers_at.induct) auto

lemma find_fit_props:
  assumes "find_fit a bs d al = Some (p, bs')" "\<forall>b \<in> set bs. block_ok b"
    and "0 < d" "4 dvd d" "4 dvd al" "0 < al" "4 dvd a"
  shows "\<exists>sz. d \<le> sz \<and> live_at a bs' = insert (p, sz) (live_at a bs) \<and> p \<notin> fst ` live_at a bs
    \<and> al dvd p \<and> bytes bs' = bytes bs \<and> (\<forall>b \<in> set bs'. block_ok b)"
  using assms
proof (induction a bs d al arbitrary: p bs' rule: find_fit.induct)
  case (2 a s u bs d al)
  have s4: "4 dvd s" "0 < s" using 2(3) by (auto simp: block_ok_def)
  show ?case
  proof (cases "if u then None else split_free (a + 4) s d al")
    case None
    with 2(2) obtain bs'' where f: "find_fit (a + 4 + s) bs d al = Some (p, bs'')"
      and bs': "bs' = (s, u) # bs''" by auto
    have "4 dvd a + 4 + s" using 2(8) s4 by simp
    with 2(1) [OF None f] 2(3-7) obtain sz where sz: "d \<le> sz"
      "live_at (a + 4 + s) bs'' = insert (p, sz) (live_at (a + 4 + s) bs)"
      "p \<notin> fst ` live_at (a + 4 + s) bs" "al dvd p" "bytes bs'' = bytes bs"
      "\<forall>b \<in> set bs''. block_ok b" by auto
    have "a + 4 + s + 4 \<le> p" using live_at_range [of p sz "a + 4 + s" bs''] sz(2) by auto
    with sz bs' 2(3) show ?thesis by (intro exI [of _ sz]) auto
  next
    case (Some x)
    obtain pre sz' post where x: "x = (pre, sz', post)" by (cases x)
    with Some have u: "\<not> u" and sp: "split_free (a + 4) s d al = Some (pre, sz', post)"
      by (auto split: if_splits)
    have p: "p = a + bytes pre + 4" "bs' = pre @ (sz', True) # post @ bs"
      using 2(2) Some x by auto
    have "4 dvd a + 4" using 2(8) by simp
    note props = split_free_props [OF sp 2(4,5) s4(1) 2(6,7) this]
    have fr: "\<forall>b \<in> set pre. \<not> snd b" "\<forall>b \<in> set post. \<not> snd b" using props by auto
    note pre = fr [THEN live_at_free]
    have len: "a + bytes pre + 4 + sz' + bytes post = a + 4 + s" using props by auto
    have "(q, t) \<in> live_at (a + 4 + s) bs \<Longrightarrow> p < q" for q t
      using live_at_range [of q t "a + 4 + s" bs] p(1) len by auto
    then have "p \<notin> fst ` live_at (a + 4 + s) bs" by force
    moreover have "live_at a bs' = insert (p, sz') (live_at a ((s, u) # bs))"
      using pre u p by (simp add: len)
    moreover have "al dvd p" using props p by (simp add: ac_simps)
    moreover have "block_ok (sz', True)" using props 2(4) by (auto simp: block_ok_def)
    ultimately show ?thesis using props p u 2(3) by (intro exI [of _ sz']) auto
  qed
qed simp

section \<open>Merging\<close>

fun merge_blocks :: "block list \<Rightarrow> block list" where
  "merge_blocks [] = []"
| "merge_blocks [b] = [b]"
| "merge_blocks ((s, u) # (t, v) # bs) =
     (if \<not> u \<and> \<not> v then merge_blocks ((s + 4 + t, False) # bs)
      else (s, u) # merge_blocks ((t, v) # bs))"

definition ends_free :: "block list \<Rightarrow> bool" where
  "ends_free bs \<longleftrightarrow> bs \<noteq> [] \<and> \<not> snd (last bs)"

text \<open>No two adjacent blocks are free.\<close>

fun merged :: "block list \<Rightarrow> bool" where
  "merged ((s, u) # (t, v) # bs) = ((u \<or> v) \<and> merged ((t, v) # bs))"
| "merged bs = True"

lemma merge_blocks_bytes [simp]: "bytes (merge_blocks bs) = bytes bs"
  by (induction bs rule: merge_blocks.induct) auto

lemma merge_blocks_ok: "\<forall>b \<in> set bs. block_ok b \<Longrightarrow> \<forall>b \<in> set (merge_blocks bs). block_ok b"
  by (induction bs rule: merge_blocks.induct) (auto simp: block_ok_def)

lemma merge_blocks_live [simp]: "live_at a (merge_blocks bs) = live_at a bs"
  by (induction bs arbitrary: a rule: merge_blocks.induct) (auto simp: add.assoc)

lemma merge_blocks_eq_Nil [simp]: "merge_blocks bs = [] \<longleftrightarrow> bs = []"
  by (induction bs rule: merge_blocks.induct) auto

lemma merge_blocks_hd_used: "u \<Longrightarrow> merge_blocks ((s, u) # bs) = (s, u) # merge_blocks bs"
  by (cases bs) auto

lemma merge_blocks_hd: "\<exists>s' bs'. merge_blocks ((s, u) # bs) = (s', u) # bs'"
proof (induction "(s, u) # bs" arbitrary: s u bs rule: merge_blocks.induct)
  case (3 s u t v bs)
  then show ?case by auto
qed auto

lemma merged_merge_blocks: "merged (merge_blocks bs)"
proof (induction bs rule: merge_blocks.induct)
  case (3 s u t v bs)
  then show ?case using merge_blocks_hd [of t v bs] by auto
qed (auto elim: merged.elims)

lemma merge_merged: "merged bs \<Longrightarrow> merge_blocks bs = bs"
  by (induction bs rule: merge_blocks.induct) auto

lemma merge_blocks_free_le: "free_bytes bs \<le> free_bytes (merge_blocks bs)"
  by (induction bs rule: merge_blocks.induct) auto

text \<open>Freeing the block with payload address \<open>p\<close>.\<close>

fun release :: "nat \<Rightarrow> nat \<Rightarrow> block list \<Rightarrow> block list" where
  "release p a [] = []"
| "release p a ((sz, u) # bs) =
     (if a + 4 = p then (sz, False) # bs else (sz, u) # release p (a + 4 + sz) bs)"

lemma release_bytes [simp]: "bytes (release p a bs) = bytes bs"
  by (induction p a bs rule: release.induct) auto

lemma release_ok: "\<forall>b \<in> set bs. block_ok b \<Longrightarrow> \<forall>b \<in> set (release p a bs). block_ok b"
  by (induction p a bs rule: release.induct) (auto simp: block_ok_def)

lemma release_live: "(p, sz) \<in> live_at a bs \<Longrightarrow> live_at a (release p a bs) = live_at a bs - {(p, sz)}"
proof (induction p a bs rule: release.induct)
  case (2 p a s u bs)
  have later: "a + 4 + s + 4 \<le> q" if "(q, t) \<in> live_at (a + 4 + s) bs" for q t
    using live_at_range [OF that] by simp
  show ?case
  proof (cases "a + 4 = p")
    case True
    then have "(p, sz) \<notin> live_at (a + 4 + s) bs" using later by fastforce
    with True 2(2) have "u" "sz = s" by (auto split: if_splits)
    with True \<open>(p, sz) \<notin> _\<close> show ?thesis by auto
  next
    case False
    with 2 show ?thesis by (auto split: if_splits)
  qed
qed simp


section \<open>Releasing what was just cut out\<close>

lemma merge_collapse:
  "merge_blocks (xs @ (s, False) # (t, False) # ys) = merge_blocks (xs @ (s + 4 + t, False) # ys)"
proof (induction xs rule: merge_blocks.induct)
  case (2 b)
  obtain x u where "b = (x, u)" by (cases b)
  then show ?case by (cases u) (simp_all add: add.assoc)
qed auto

lemma merge_append_right: "merge_blocks (xs @ merge_blocks ys) = merge_blocks (xs @ ys)"
proof (induction ys arbitrary: xs rule: merge_blocks.induct)
  case (3 s u t v bs)
  show ?case
  proof (cases "\<not> u \<and> \<not> v")
    case True
    with 3(1) [of xs] show ?thesis by (simp add: merge_collapse)
  next
    case False
    with 3(2) [of "xs @ [(s, u)]"] show ?thesis by auto
  qed
qed simp_all

lemma merge_append_left: "merge_blocks (merge_blocks xs @ ys) = merge_blocks (xs @ ys)"
proof (induction xs rule: merge_blocks.induct)
  case (3 s u t v bs)
  show ?case
  proof (cases "\<not> u \<and> \<not> v")
    case False
    have "merge_blocks ((s, u) # merge_blocks ((t, v) # bs) @ ys) =
        merge_blocks ([(s, u)] @ merge_blocks (merge_blocks ((t, v) # bs) @ ys))"
      by (subst merge_append_right) simp
    also have "\<dots> = merge_blocks ([(s, u)] @ merge_blocks ((t, v) # bs @ ys))" using 3(2) False by simp
    also have "\<dots> = merge_blocks ((s, u) # (t, v) # bs @ ys)" by (subst merge_append_right) simp
    finally show ?thesis using False by auto
  qed (use 3(1) in simp)
qed simp_all

lemma merge_blocks_used: "merge_blocks (xs @ (sz, True) # ys) = merge_blocks xs @ (sz, True) # merge_blocks ys"
proof (induction xs rule: merge_blocks.induct)
  case (2 b)
  then show ?case by (cases b) (simp add: merge_blocks_hd_used)
qed (simp_all add: merge_blocks_hd_used)

lemma release_append: "p = a + bytes xs + 4 \<Longrightarrow> release p a (xs @ (sz, u) # ys) = xs @ (sz, False) # ys"
  by (induction xs arbitrary: a rule: bytes.induct) (auto simp: ac_simps)

text \<open>Allocating a block and releasing it again leaves the merged layout as it was.\<close>

lemma find_fit_decomp:
  assumes "find_fit a bs d al = Some (p, bs')"
  shows "\<exists>xs sz ys pre sz' post. bs = xs @ (sz, False) # ys \<and> bs' = xs @ pre @ (sz', True) # post @ ys
    \<and> split_free (a + bytes xs + 4) sz d al = Some (pre, sz', post) \<and> p = a + bytes xs + bytes pre + 4"
  using assms
proof (induction a bs d al arbitrary: p bs' rule: find_fit.induct)
  case (2 a s u bs d al)
  show ?case
  proof (cases "if u then None else split_free (a + 4) s d al")
    case None
    with 2(2) obtain bs'' where f: "find_fit (a + 4 + s) bs d al = Some (p, bs'')"
      and bs': "bs' = (s, u) # bs''" by auto
    from 2(1) [OF None f] obtain xs sz ys pre sz' post where
      *: "bs = xs @ (sz, False) # ys" "bs'' = xs @ pre @ (sz', True) # post @ ys"
      "split_free (a + 4 + s + bytes xs + 4) sz d al = Some (pre, sz', post)" "p = a + 4 + s + bytes xs + bytes pre + 4"
      by auto
    then show ?thesis using bs'
      by (intro exI [of _ "(s, u) # xs"] exI [of _ sz] exI [of _ ys] exI [of _ pre] exI [of _ sz'] exI [of _ post])
        (simp add: add.assoc)
  next
    case (Some x)
    obtain pre sz' post where x: "x = (pre, sz', post)" by (cases x)
    have "bs' = [] @ pre @ (sz', True) # post @ bs" "(s, u) # bs = [] @ (s, False) # bs"
      using 2(2) Some x by (auto split: if_splits)
    moreover have "p = a + bytes [] + bytes pre + 4" "split_free (a + bytes [] + 4) s d al = Some (pre, sz', post)"
      using 2(2) Some x by (auto split: if_splits)
    ultimately show ?thesis by blast
  qed
qed simp

lemma merge_free_run:
  "\<forall>b \<in> set bs. \<not> snd b \<Longrightarrow> merge_blocks (xs @ (s, False) # bs @ ys) = merge_blocks (xs @ (s + bytes bs, False) # ys)"
proof (induction bs arbitrary: s)
  case (Cons b bs)
  then show ?case using merge_collapse [of xs s "fst b" "bs @ ys"] by (cases b) (simp add: add.assoc)
qed simp

lemma merge_split_restores:
  assumes "split_free ad sz d al = Some (pre, sz', post)" "0 < d" "4 dvd d" "4 dvd sz" "4 dvd al" "0 < al" "4 dvd ad"
  shows "merge_blocks (xs @ pre @ (sz', False) # post @ ys) = merge_blocks (xs @ (sz, False) # ys)"
proof -
  have p: "4 + sz = bytes pre + 4 + sz' + bytes post" "\<forall>b \<in> set pre. \<not> snd b" "\<forall>b \<in> set post. \<not> snd b"
    using split_free_props [OF assms] by auto
  show ?thesis
  proof (cases pre)
    case Nil
    with p merge_free_run [of post xs sz' ys] show ?thesis by simp
  next
    case (Cons b bs)
    obtain t where b: "b = (t, False)" using p(2) Cons by (cases b) auto
    have "\<forall>b \<in> set (bs @ (sz', False) # post). \<not> snd b" using p Cons by auto
    from merge_free_run [OF this, of xs t ys] p(1) Cons b show ?thesis by (simp add: ac_simps)
  qed
qed

lemma find_fit_release:
  assumes f: "find_fit a bs d al = Some (p, bs')" and ok: "\<forall>b \<in> set bs. block_ok b"
    and d: "0 < d" "4 dvd d" "4 dvd al" "0 < al" "4 dvd a"
  shows "merge_blocks (release p a (merge_blocks bs')) = merge_blocks bs"
proof -
  obtain xs sz ys pre sz' post where dec: "bs = xs @ (sz, False) # ys" "bs' = xs @ pre @ (sz', True) # post @ ys"
    "split_free (a + bytes xs + 4) sz d al = Some (pre, sz', post)" "p = a + bytes xs + bytes pre + 4"
    using find_fit_decomp [OF f] by blast
  have "4 dvd sz" "4 dvd a + bytes xs + 4"
    using ok dec(1) d(5) bytes_dvd [of xs] by (auto simp: block_ok_def)
  note restore = merge_split_restores [OF dec(3) d(1,2) this(1) d(3,4) this(2), of xs ys]
  have "merge_blocks bs' = merge_blocks (xs @ pre) @ (sz', True) # merge_blocks (post @ ys)"
    using merge_blocks_used [of "xs @ pre" sz' "post @ ys"] dec(2) by simp
  then have "release p a (merge_blocks bs') = merge_blocks (xs @ pre) @ (sz', False) # merge_blocks (post @ ys)"
    using dec(4) by (simp add: release_append)
  also have "merge_blocks \<dots> = merge_blocks ((xs @ pre @ [(sz', False)]) @ merge_blocks (post @ ys))"
    by (subst merge_append_left) simp
  also have "\<dots> = merge_blocks (xs @ pre @ (sz', False) # post @ ys)" by (subst merge_append_right) simp
  finally show ?thesis using restore dec(1) by simp
qed

end
