(* ===== verification/Malloc_Refine.thy ===== *)
theory Malloc_Refine
  imports Malloc Malloc_Blocks
begin

text \<open>
  The code of \<open>Malloc\<close> on memory implements the block lists of \<open>Malloc_Blocks\<close>. \<open>blocks_at\<close>
  says that the headers of a block list are in memory, \<open>heap_at\<close> that a chain of allocations is,
  each with the address of the next one and its own size in its two leading words. Each operation
  of the code, started on such a memory, ends without a failed assertion and without running
  out of fuel, in a memory that holds the result of the abstract operation.

  The bounds are those of the callers: every allocation is at most one 4 MB page and none reaches
  into the last page of the address space.
\<close>

section \<open>Headers in memory\<close>

lemma hdr_fields [simp]:
  assumes "unat w < 2147483648"
  shows "take_bit 31 (hdr w u) = w" "bit (hdr w u) 31 = u"
proof -
  have w: "take_bit 31 w = w"
    using assms
    by (intro word_unat_eq_iff [THEN iffD2]) (simp add: unsigned_take_bit_eq take_bit_nat_eq_self)
  then have "\<not> bit w 31" by (metis bit_take_bit_iff less_irrefl)
  moreover have "bit (0x80000000 :: u32) 31" by simp
  moreover have "take_bit 31 (0x80000000 :: u32) = 0"
    by (simp add: word_unat_eq_iff unsigned_take_bit_eq take_bit_eq_mod)
  ultimately show "take_bit 31 (hdr w u) = w" "bit (hdr w u) 31 = u"
    using w by (simp_all add: hdr_def take_bit_or bit_or_iff)
qed

lemma hdr_read:
  assumes "mem s h = hdr (word_of_nat sz) u" "sz < 2147483648"
  shows "getSize s h = word_of_nat sz" "isUsed s h = u"
  using assms by (simp_all add: getSize_def isUsed_def unat_of_nat_u32)

lemma write_word_simps [simp]:
  "mem (write_word s a v) = (mem s)(a := v)" "gFirstAlloc (write_word s a v) = gFirstAlloc s"
  by (simp_all add: write_word_def)

lemma hdr_word_of_nat_ok:
  "4 dvd n \<Longrightarrow> n < 4294967296 \<Longrightarrow> (word_of_nat n :: u32) mod 4 = 0"
  by (simp add: word_unat_eq_iff unat_mod unat_of_nat_u32 dvd_eq_mod_eq_0)

lemma setSize_nat:
  assumes "0 < sz" "4 dvd sz" "sz < 2147483648"
  shows "setSize s h (word_of_nat sz) = Inr (write_word s h (hdr (word_of_nat sz) (isUsed s h)))"
  using assms of_nat_eq_u32 [of sz 0] hdr_word_of_nat_ok [of sz] unat_of_nat_u32 [of sz]
  by (simp add: setSize_def SizeFits_def kSizeMax_def kMinSize_def word_le_nat_alt)

lemma IsValid_nat:
  assumes "mem s (word_of_nat h) = hdr (word_of_nat sz) u" "sz < 2147483648" "4 dvd sz"
    "4 dvd h" "h < 4294967296"
  shows "IsValid s (word_of_nat h)"
  using assms hdr_read(1) [OF assms(1,2)] hdr_word_of_nat_ok [of sz] hdr_word_of_nat_ok [of h]
  by (simp add: IsValid_def kMinAlign_def kMinSize_def)

fun blocks_at :: "(u32 \<Rightarrow> u32) \<Rightarrow> nat \<Rightarrow> block list \<Rightarrow> bool" where
  "blocks_at m a [] \<longleftrightarrow> True"
| "blocks_at m a ((sz, u) # bs) \<longleftrightarrow>
     m (word_of_nat a) = hdr (word_of_nat sz) u \<and> blocks_at m (a + 4 + sz) bs"

lemma blocks_at_append [simp]:
  "blocks_at m a (xs @ ys) \<longleftrightarrow> blocks_at m a xs \<and> blocks_at m (a + bytes xs) ys"
  by (induction m a xs rule: blocks_at.induct) (auto simp: add.assoc)

lemma blocks_at_header:
  "blocks_at m a bs \<Longrightarrow> (h, sz, u) \<in> set (headers_at a bs) \<Longrightarrow>
    m (word_of_nat h) = hdr (word_of_nat sz) u"
  by (induction m a bs rule: blocks_at.induct) auto

text \<open>A step of the code changes memory in one range only.\<close>

definition same_outside :: "nat \<Rightarrow> nat \<Rightarrow> mstate \<Rightarrow> mstate \<Rightarrow> bool" where
  "same_outside lo hi s s' \<longleftrightarrow> gFirstAlloc s' = gFirstAlloc s
     \<and> (\<forall>x. x < 4294967296 \<longrightarrow> x < lo \<or> hi \<le> x \<longrightarrow> mem s' (word_of_nat x) = mem s (word_of_nat x))"

lemma same_outside_refl [simp]: "same_outside lo hi s s"
  by (simp add: same_outside_def)

lemma same_outside_trans:
  "same_outside lo hi s s' \<Longrightarrow> same_outside lo hi s' s'' \<Longrightarrow> same_outside lo hi s s''"
  by (simp add: same_outside_def)

lemma same_outside_mono:
  "same_outside lo hi s s' \<Longrightarrow> lo' \<le> lo \<Longrightarrow> hi \<le> hi' \<Longrightarrow> same_outside lo' hi' s s'"
  by (simp add: same_outside_def)

lemma same_outside_write:
  "lo \<le> a \<Longrightarrow> a < hi \<Longrightarrow> hi \<le> 4294967296 \<Longrightarrow> same_outside lo hi s (write_word s (word_of_nat a) v)"
  by (auto simp: same_outside_def of_nat_eq_u32)

lemma blocks_at_frame:
  "blocks_at (mem s) a bs \<Longrightarrow> same_outside lo hi s s' \<Longrightarrow> a + bytes bs \<le> lo \<or> hi \<le> a \<Longrightarrow>
    a + bytes bs < 4294967296 \<Longrightarrow> blocks_at (mem s') a bs"
  by (induction "mem s" a bs rule: blocks_at.induct) (auto simp: same_outside_def)

section \<open>Iteration\<close>

text \<open>The header loop passes over a prefix on which the callback only updates its argument.\<close>

lemma iter_headers_skip:
  assumes "blocks_at (mem s) a bs" "\<forall>b \<in> set bs. block_ok b" "a + bytes bs \<le> lim"
    "lim < 4294967296" "bytes bs < 2147483648" "length bs \<le> n"
    "\<And>h sz u y. (h, sz, u) \<in> set (headers_at a bs) \<Longrightarrow>
       cb s (word_of_nat h) alloc asz y = Inr (True, s, f sz u y)"
  shows "iter_headers n cb alloc asz (word_of_nat lim) (word_of_nat a) s x =
    iter_headers (n - length bs) cb alloc asz (word_of_nat lim) (word_of_nat (a + bytes bs)) s
      (fold (\<lambda>(sz, u). f sz u) bs x)"
  using assms
proof (induction a bs arbitrary: n x rule: headers_at.induct)
  case (2 a sz u bs)
  then obtain k where n: "n = Suc k" by (cases n) auto
  have "getSize s (word_of_nat a) = word_of_nat sz" using 2(2,6) by (intro hdr_read(1) [of _ _ _ u]) auto
  moreover have "word_of_nat a < (word_of_nat lim :: u32)" using 2(4,5) by (subst of_nat_less_u32) auto
  moreover have "cb s (word_of_nat a) alloc asz x = Inr (True, s, f sz u x)" by (rule 2) simp
  moreover have "word_of_nat (a + 4 + sz) = (word_of_nat a + (4 + word_of_nat sz) :: u32)"
    by (simp add: ac_simps)
  moreover have "iter_headers k cb alloc asz (word_of_nat lim) (word_of_nat (a + 4 + sz)) s (f sz u x) =
    iter_headers (k - length bs) cb alloc asz (word_of_nat lim) (word_of_nat (a + 4 + sz + bytes bs)) s
      (fold (\<lambda>(sz, u). f sz u) bs (f sz u x))"
    by (rule 2(1)) (use 2(2-8) n in auto)
  ultimately show ?case using n by (simp add: sizeof_MallocHeader_def ac_simps)
qed simp

lemma iter_headers_end: "0 < n \<Longrightarrow> iter_headers n cb alloc asz lim lim s x = Inr (True, s, x)"
  by (cases n) auto

lemma iter_headers_all:
  assumes "blocks_at (mem s) a bs" "\<forall>b \<in> set bs. block_ok b"
    "a + bytes bs < 4294967296" "bytes bs < 2147483648" "length bs < n"
    "\<And>h sz u y. (h, sz, u) \<in> set (headers_at a bs) \<Longrightarrow>
       cb s (word_of_nat h) alloc asz y = Inr (True, s, f sz u y)"
  shows "iter_headers n cb alloc asz (word_of_nat (a + bytes bs)) (word_of_nat a) s x =
    Inr (True, s, fold (\<lambda>(sz, u). f sz u) bs x)"
  using assms by (subst iter_headers_skip [where f = f]) (auto simp del: of_nat_add intro!: iter_headers_end)

section \<open>Partition\<close>

lemma exp_le_31: "k < 32 \<Longrightarrow> (2::nat) ^ k \<le> 2147483648"
proof -
  assume "k < 32"
  then have "(2::nat) ^ k \<le> 2 ^ 31" by (intro power_increasing) auto
  then show ?thesis by simp
qed

lemma exp_dvd_32: "k < 32 \<Longrightarrow> (2::nat) ^ k dvd 4294967296"
  using le_imp_power_dvd [of k 32 "2::nat"] by simp

lemma dvd_step_le: "(d::nat) dvd a \<Longrightarrow> d dvd b \<Longrightarrow> a < b \<Longrightarrow> a + d \<le> b"
  using dvd_imp_le [of d "b - a"] dvd_diff_nat [of d b a] by linarith

lemma RoundUp_nat:
  assumes "k < 32"
  shows "RoundUp (word_of_nat n) (2 ^ k) = Inr (word_of_nat (round_up n (2 ^ k)))"
proof -
  let ?N = "n + 2 ^ k - 1"
  have "word_of_nat n + (2 ^ k - 1) = (word_of_nat ?N :: u32)"
    by (subst of_nat_diff) (simp_all add: algebra_simps Suc_le_eq)
  moreover have "push_bit k (drop_bit k (word_of_nat ?N)) = (word_of_nat (push_bit k (drop_bit k ?N)) :: u32)"
    by (rule bit_word_eqI) (auto simp: bit_simps)
  ultimately show ?thesis
    using assms IsPowerOf2_exp [OF assms]
    by (simp add: RoundUp_def and_not_low round_up_def push_bit_eq_mult drop_bit_eq_div)
qed

text \<open>The aligned address is representable, with the request behind it, or it is the end of the
  address space, which the code sees as 0 and gives up on.\<close>

lemma aligned_start_cases:
  assumes k: "k < 32" "\<not> 2 ^ k dvd ad" and b: "ad + sz \<le> 0xFFC00000" "sz \<le> 0x400000" "d + 4 \<le> sz"
  shows "aligned_start ad (2 ^ k) = 4294967296 \<and> 2147483648 \<le> ad + sz
    \<or> aligned_start ad (2 ^ k) + d < 4294967296"
proof -
  let ?al = "2 ^ k :: nat" and ?ru = "round_up ad (2 ^ k)" and ?na = "aligned_start ad (2 ^ k)"
  have r: "ad \<le> ?ru" "?ru < ad + ?al" "?al dvd ?ru" by (rule round_up_props, simp)+
  have le: "?al \<le> 2147483648" by (rule exp_le_31 [OF k(1)])
  note d32 = exp_dvd_32 [OF k(1)]
  have na0: "?ru \<le> 4294967296"
    using dvd_step_le [OF d32 r(3)] r(2) b by linarith
  have na: "?na \<le> ad + 4 + ?al" using r by (auto simp: aligned_start_def Let_def)
  have dna: "?al dvd ?na" using r(3) by (auto simp: aligned_start_def Let_def)
  have na1: "?na \<le> 4294967296"
    using na0 dvd_step_le [OF r(3) d32] b by (auto simp: aligned_start_def Let_def)
  show ?thesis
  proof (cases "?na = 4294967296")
    case True
    with na le b show ?thesis by simp
  next
    case False
    with na1 dvd_step_le [OF dna d32] have "?na + ?al \<le> 4294967296" by simp
    moreover have "?na + d \<le> 0xFFC00000 + ?al" using na b by linarith
    ultimately show ?thesis using b by linarith
  qed
qed


lemma write_word_twice [simp]: "write_word (write_word s h v) h v' = write_word s h v'"
  by (simp add: write_word_def)

lemma setUsed_write:
  "sz < 2147483648 \<Longrightarrow> setUsed (write_word s h (hdr (word_of_nat sz) u)) h v = write_word s h (hdr (word_of_nat sz) v)"
  by (simp add: setUsed_def getSize_def unat_of_nat_u32)

lemma align_test:
  assumes "h + 4 < 4294967296" "k < 32"
  shows "(word_of_nat h + 4 :: u32) \<noteq> 0"
    "(2 ^ k :: u32) \<le> push_bit (ctz (word_of_nat h + 4)) 1 \<longleftrightarrow> 2 ^ k dvd h + 4"
proof -
  have "unat (word_of_nat (h + 4) :: u32) = h + 4" by (rule unat_of_nat_u32) (use assms in simp)
  then have u: "unat (word_of_nat h + 4 :: u32) = h + 4" by simp
  then show "(word_of_nat h + 4 :: u32) \<noteq> 0" by (metis add_is_0 unat_0 zero_neq_numeral)
  from natural_align [OF this assms(2)] u
  show "(2 ^ k :: u32) \<le> push_bit (ctz (word_of_nat h + 4)) 1 \<longleftrightarrow> 2 ^ k dvd h + 4" by simp
qed

lemma Partition_front:
  assumes m: "mem s (word_of_nat h) = hdr (word_of_nat sz) False"
    and sz: "4 dvd sz" "sz \<le> 0x400000" and h: "4 dvd h" "h + 4 + sz \<le> 0xFFC00000"
    and d: "0 < d" "4 dvd d" "d \<le> sz" and k: "k < 32" "2 ^ k dvd h + 4"
    and sf: "split_front sz d = (sz', post)"
  shows "\<exists>s'. Partition (Suc n) s (word_of_nat h) (word_of_nat d) (2 ^ k) = Inr (word_of_nat h, s')
    \<and> blocks_at (mem s') h ((sz', False) # post) \<and> same_outside h (h + 4 + sz) s s'"
proof -
  note rd = hdr_read [OF m]
  have v: "IsValid s (word_of_nat h)" using m sz h by (intro IsValid_nat) auto
  note al = align_test [of h k]
  have sub: "word_of_nat sz - word_of_nat d = (word_of_nat (sz - d) :: u32)"
    using d(3) by (simp add: of_nat_diff)
  have "sz = d \<or> sz = d + 4 \<or> d + 8 \<le> sz" using sz(1) d(2,3) by presburger
  then consider "sz = d" | "sz = d + 4" | "d + 8 \<le> sz" by blast
  then show ?thesis
  proof cases
    case 1
    with sf rd v al h k sz m show ?thesis
      by (intro exI [of _ s]) (auto simp: split_front_def sizeof_MallocHeader_def Let_def)
  next
    case 2
    with sf rd v al h k sz m sub show ?thesis
      by (intro exI [of _ s]) (auto simp: split_front_def sizeof_MallocHeader_def Let_def u32_nat)
  next
    case 3
    let ?n = "word_of_nat h + 4 + word_of_nat d :: u32" and ?r = "sz - d - 4"
    let ?s2 = "write_word s ?n (hdr (word_of_nat ?r) False)"
    let ?s3 = "write_word ?s2 (word_of_nat h) (hdr (word_of_nat d) False)"
    let ?hn = "h + 4 + d"
    have n: "?n = word_of_nat ?hn" by simp
    have r: "0 < ?r" "4 dvd ?r" "?r < 2147483648" using 3 sz d by (auto intro: dvd_diff_nat)
    have ne: "word_of_nat h \<noteq> ?n" unfolding n using h d by (subst of_nat_eq_u32) auto
    have sub2: "word_of_nat (sz - d) - 4 = (word_of_nat ?r :: u32)" using 3 by (simp add: of_nat_diff)
    have "setSize s ?n (word_of_nat ?r) = Inr (write_word s ?n (hdr (word_of_nat ?r) (isUsed s ?n)))"
      by (rule setSize_nat [OF r])
    moreover have "setUsed (write_word s ?n (hdr (word_of_nat ?r) (isUsed s ?n))) ?n False = ?s2"
      by (rule setUsed_write [OF r(3)])
    moreover have "IsValid ?s2 ?n" unfolding n using r h d by (intro IsValid_nat) auto
    moreover have "?n + getSize ?s2 ?n + 4 = word_of_nat h + 4 + word_of_nat sz"
      using hdr_read(1) [of ?s2 ?n ?r False] r 3 by (simp add: of_nat_diff)
    moreover have "isUsed ?s2 (word_of_nat h) = False" using rd(2) ne sz by (simp add: isUsed_def)
    moreover have "setSize ?s2 (word_of_nat h) (word_of_nat d) = Inr ?s3"
      using calculation(5) d sz by (subst setSize_nat) auto
    moreover have "IsValid ?s3 (word_of_nat h)" using d h sz by (intro IsValid_nat) auto
    moreover have "word_of_nat h + 4 + getSize ?s3 (word_of_nat h) = ?n"
      using d sz by (simp add: getSize_def unat_of_nat_u32)
    moreover have "(word_of_nat sz :: u32) \<noteq> word_of_nat d" "\<not> (word_of_nat sz :: u32) < word_of_nat d"
      "word_of_nat (sz - d) \<noteq> (4 :: u32)" "(4 :: u32) \<le> word_of_nat (sz - d)"
      using 3 sz of_nat_eq_u32 [of "sz - d" 4] of_nat_le_u32 [of 4 "sz - d"] by (auto simp: u32_nat)
    ultimately have "Partition (Suc n) s (word_of_nat h) (word_of_nat d) (2 ^ k) = Inr (word_of_nat h, ?s3)"
      using rd v al h k sz sub sub2 by (simp add: sizeof_MallocHeader_def Let_def)
    moreover have "blocks_at (mem ?s3) h ((sz', False) # post)"
      using sf 3 ne n by (auto simp: split_front_def)
    moreover have "same_outside h (h + 4 + sz) s ?s3" unfolding n
      using 3 h by (intro same_outside_trans [OF same_outside_write same_outside_write]) auto
    ultimately show ?thesis by blast
  qed
qed


text \<open>The unaligned case: the leading part is split off and the rest partitioned at its front.\<close>

lemma Partition_middle:
  assumes m: "mem s (word_of_nat h) = hdr (word_of_nat sz) False"
    and sz: "4 dvd sz" "sz \<le> 0x400000" and h: "4 dvd h" "h + 4 + sz \<le> 0xFFC00000"
    and d: "0 < d" "4 dvd d" "d < sz" and k: "k < 32" "2 \<le> k" "\<not> 2 ^ k dvd h + 4"
    and fit: "aligned_start (h + 4) (2 ^ k) + d \<le> h + 4 + sz"
    and sf: "split_front (h + 4 + sz - aligned_start (h + 4) (2 ^ k)) d = (sz', post)"
  shows "\<exists>s'. Partition (Suc (Suc n)) s (word_of_nat h) (word_of_nat d) (2 ^ k) =
      Inr (word_of_nat (aligned_start (h + 4) (2 ^ k) - 4), s')
    \<and> blocks_at (mem s') h ((aligned_start (h + 4) (2 ^ k) - (h + 4) - 4, False) # (sz', False) # post)
    \<and> same_outside h (h + 4 + sz) s s'"
proof -
  let ?al = "2 ^ k :: nat" and ?ru = "round_up (h + 4) (2 ^ k)" and ?na = "aligned_start (h + 4) (2 ^ k)"
  have al: "4 dvd ?al" using k(2) le_imp_power_dvd [of 2 k "2::nat"] by simp
  have h4: "4 dvd h + 4" using h(1) by simp
  note na = aligned_start_props [OF al _ h4 k(3)]
  define hn where "hn = ?na - 4"
  define fr where "fr = ?na - (h + 4) - 4"
  define nsz where "nsz = h + 4 + sz - ?na"
  have hn: "4 dvd hn" "hn + 4 = ?na" "hn + 4 + nsz = h + 4 + sz" "h + 8 \<le> hn"
    using na fit by (auto simp: hn_def nsz_def intro: dvd_diff_nat)
  have fr: "0 < fr" "4 dvd fr" "fr < 2147483648" "h + 4 + fr = hn" 
    using na h4 fit sz hn by (auto simp: fr_def hn_def intro!: dvd_diff_nat)
  have nsz: "d \<le> nsz" "4 dvd nsz" "nsz \<le> 0x400000"
    using fit na h4 sz by (auto simp: nsz_def intro!: dvd_diff_nat)
  let ?s2 = "write_word s (word_of_nat hn) (hdr (word_of_nat nsz) False)"
  let ?s3 = "write_word ?s2 (word_of_nat h) (hdr (word_of_nat fr) False)"
  have ne: "(word_of_nat hn :: u32) \<noteq> word_of_nat h" using hn h nsz by (subst of_nat_eq_u32) auto
  obtain s4 where s4: "Partition (Suc n) ?s3 (word_of_nat hn) (word_of_nat d) (2 ^ k) = Inr (word_of_nat hn, s4)"
    and b4: "blocks_at (mem s4) hn ((sz', False) # post)" and o4: "same_outside hn (hn + 4 + nsz) ?s3 s4"
    using Partition_front [of ?s3 hn nsz d k sz' post n] ne nsz hn h d k(1) na(1) sf
    by (auto simp: nsz_def)
  note sp = split_front_props [OF sf [folded nsz_def] nsz(1) d(1,2) nsz(2)]
  have m4: "mem s4 (word_of_nat hn) = hdr (word_of_nat sz') False" and sz': "sz' < 2147483648" "4 dvd sz'"
    using b4 sp nsz by auto
  note rd = hdr_read [OF m] and rd4 = hdr_read [OF m4 sz'(1)]
  have v: "IsValid s (word_of_nat h)" using m sz h by (intro IsValid_nat) auto
  have ru: "?al dvd ?ru" "h + 8 \<le> ?ru" "?ru \<le> ?na" "?ru - (h + 4) = 4 \<Longrightarrow> ?na = ?ru + ?al"
    "?ru - (h + 4) \<noteq> 4 \<Longrightarrow> ?na = ?ru"
  proof -
    show d: "?al dvd ?ru" by (rule round_up_props) simp
    have "4 dvd ?ru" "?ru \<noteq> h + 4" "h + 4 \<le> ?ru"
      using al d k(3) round_up_props(1) [of ?al "h + 4"] by (auto intro: dvd_trans)
    then show "h + 8 \<le> ?ru" using h4 by presburger
  qed (auto simp: aligned_start_def Let_def)
  have w: "(word_of_nat h + 4 :: u32) = word_of_nat (h + 4)"
    "(word_of_nat (h + 4) :: u32) + word_of_nat sz = word_of_nat (h + 4 + sz)" 
    "(word_of_nat sz :: u32) - word_of_nat d = word_of_nat (sz - d)" 
    "(word_of_nat ?ru :: u32) - word_of_nat (h + 4) = word_of_nat (?ru - (h + 4))"
    "(word_of_nat ?na :: u32) + word_of_nat d = word_of_nat (?na + d)"
    "(word_of_nat (h + 4 + sz) :: u32) - word_of_nat ?na = word_of_nat nsz"
    "(word_of_nat ?na :: u32) - word_of_nat (h + 4) - 4 = word_of_nat fr" 
    "(word_of_nat ?na :: u32) - 4 = word_of_nat hn"
    using d ru hn fit na by (simp_all add: of_nat_diff nsz_def fr_def hn_def)
  have new: "(if word_of_nat (?ru - (h + 4)) = (4 :: u32) then word_of_nat ?ru + 2 ^ k else word_of_nat ?ru)
      = (word_of_nat ?na :: u32)"
    using ru of_nat_eq_u32 [of "?ru - (h + 4)" 4] fit h by auto
  have c: "(4 :: u32) \<le> word_of_nat (sz - d)" "(4 :: u32) \<le> word_of_nat (?ru - (h + 4))"
    "(word_of_nat ?ru :: u32) mod 2 ^ k = 0" "\<not> word_of_nat (h + 4 + sz) < (word_of_nat (?na + d) :: u32)"
    "SizeFits (word_of_nat nsz)" "word_of_nat nsz \<noteq> (0 :: u32)" "word_of_nat hn \<noteq> (0 :: u32)"
    "(word_of_nat sz :: u32) \<noteq> word_of_nat d" "\<not> (word_of_nat sz :: u32) < word_of_nat d"
  proof -
    have "sz - d \<ge> 4" using sz(1) d by presburger
    then show "(4 :: u32) \<le> word_of_nat (sz - d)" using of_nat_le_u32 [of 4 "sz - d"] sz by simp
    show "(4 :: u32) \<le> word_of_nat (?ru - (h + 4))"
      using of_nat_le_u32 [of 4 "?ru - (h + 4)"] ru fit h by simp
    show "(word_of_nat ?ru :: u32) mod 2 ^ k = 0"
      using ru fit h unat_exp_u32 [OF k(1)]
      by (simp add: word_unat_eq_iff unat_mod unat_of_nat_u32 dvd_eq_mod_eq_0)
    show "SizeFits (word_of_nat nsz)"
      using nsz by (simp add: SizeFits_def kSizeMax_def word_le_nat_alt unat_of_nat_u32)
    show "word_of_nat nsz \<noteq> (0 :: u32)" "word_of_nat hn \<noteq> (0 :: u32)"
      using of_nat_eq_u32 [of nsz 0] of_nat_eq_u32 [of hn 0] nsz d hn h by auto
  qed (use d sz fit h in \<open>simp_all add: u32_nat del: of_nat_add\<close>)
  have e: "setSize s (word_of_nat hn) (word_of_nat nsz) =
      Inr (write_word s (word_of_nat hn) (hdr (word_of_nat nsz) (isUsed s (word_of_nat hn))))"
    "setUsed (write_word s (word_of_nat hn) (hdr (word_of_nat nsz) (isUsed s (word_of_nat hn)))) (word_of_nat hn) False = ?s2"
    "IsValid ?s2 (word_of_nat hn)" "setSize ?s2 (word_of_nat h) (word_of_nat fr) = Inr ?s3"
    "IsValid ?s3 (word_of_nat h)" "IsValid s4 (word_of_nat hn)"
  proof -
    have "isUsed ?s2 (word_of_nat h) = False" using rd(2) ne sz by (simp add: isUsed_def)
    then show "setSize ?s2 (word_of_nat h) (word_of_nat fr) = Inr ?s3" using fr by (simp add: setSize_nat)
    show "IsValid s4 (word_of_nat hn)" by (rule IsValid_nat [OF m4]) (use sz' hn h nsz in auto)
    show "IsValid ?s3 (word_of_nat h)" using fr h by (intro IsValid_nat) auto
    show "IsValid ?s2 (word_of_nat hn)" using nsz hn h by (intro IsValid_nat) auto
  qed (use nsz d in \<open>simp_all add: setSize_nat setUsed_write\<close>)
  have "Partition (Suc (Suc n)) s (word_of_nat h) (word_of_nat d) (2 ^ k) = Inr (word_of_nat hn, s4)"
    using rd v align_test [of h k] h k RoundUp_nat [OF k(1), of "h + 4"] w new c e ne s4 rd4 sz
    by (simp add: sizeof_MallocHeader_def Let_def del: of_nat_add Partition.simps(2)
          add: Partition.simps(2) [of "Suc n" s "word_of_nat h"])
  moreover have "mem s4 (word_of_nat h) = mem ?s3 (word_of_nat h)"
    using o4 hn(4) h unfolding same_outside_def by (elim conjE allE [of _ h]) simp
  then have "blocks_at (mem s4) h ((fr, False) # (sz', False) # post)"
    using b4 fr(4) by simp
  moreover have "same_outside h (h + 4 + sz) s s4"
    using hn h nsz
    by (intro same_outside_trans [OF same_outside_trans [OF same_outside_write same_outside_write]
          same_outside_mono [OF o4]]) auto
  ultimately show ?thesis by (auto simp: hn_def fr_def)
qed


lemma Partition_no_room:
  assumes m: "mem s (word_of_nat h) = hdr (word_of_nat sz) False"
    and sz: "4 dvd sz" "sz \<le> 0x400000" and h: "4 dvd h" "h + 4 + sz \<le> 0xFFC00000"
    and d: "4 dvd d" "d < sz" and k: "k < 32" "2 \<le> k" "\<not> 2 ^ k dvd h + 4"
    and nofit: "h + 4 + sz < aligned_start (h + 4) (2 ^ k) + d"
  shows "Partition (Suc n) s (word_of_nat h) (word_of_nat d) (2 ^ k) = Inr (0, s)"
proof -
  let ?al = "2 ^ k :: nat" and ?ru = "round_up (h + 4) (2 ^ k)" and ?na = "aligned_start (h + 4) (2 ^ k)"
  note rd = hdr_read [OF m]
  have v: "IsValid s (word_of_nat h)" using m sz h by (intro IsValid_nat) auto
  have dsz: "d + 4 \<le> sz" using sz(1) d by presburger
  have al: "4 dvd ?al" using k(2) le_imp_power_dvd [of 2 k "2::nat"] by simp
  have h4: "4 dvd h + 4" using h(1) by simp
  have ru: "?al dvd ?ru" "h + 4 \<le> ?ru" "?ru < h + 4 + ?al" by (rule round_up_props, simp)+
  have "4 dvd ?ru" "?ru \<noteq> h + 4" using al ru k(3) by (auto intro: dvd_trans)
  then have ru8: "h + 8 \<le> ?ru" using h4 ru(2) by presburger
  have ru32: "?ru \<le> 4294967296"
    using dvd_step_le [OF exp_dvd_32 [OF k(1)] ru(1)] ru(3) h by linarith
  have w: "(word_of_nat h + 4 :: u32) = word_of_nat (h + 4)"
    "(word_of_nat (h + 4) :: u32) + word_of_nat sz = word_of_nat (h + 4 + sz)"
    "(word_of_nat sz :: u32) - word_of_nat d = word_of_nat (sz - d)"
    "(word_of_nat ?ru :: u32) - word_of_nat (h + 4) = word_of_nat (?ru - (h + 4))"
    "(word_of_nat ?na :: u32) + word_of_nat d = word_of_nat (?na + d)"
    using d ru by (simp_all add: of_nat_diff)
  have new: "(if word_of_nat (?ru - (h + 4)) = (4 :: u32) then word_of_nat ?ru + 2 ^ k else word_of_nat ?ru)
      = (word_of_nat ?na :: u32)"
    using ru of_nat_eq_u32 [of "?ru - (h + 4)" 4] ru32 h
    by (auto simp: aligned_start_def Let_def)
  have c: "(4 :: u32) \<le> word_of_nat (sz - d)" "(4 :: u32) \<le> word_of_nat (?ru - (h + 4))"
    "(word_of_nat ?ru :: u32) mod 2 ^ k = 0"
    "(word_of_nat sz :: u32) \<noteq> word_of_nat d" "\<not> (word_of_nat sz :: u32) < word_of_nat d"
  proof -
    show "(4 :: u32) \<le> word_of_nat (sz - d)" using of_nat_le_u32 [of 4 "sz - d"] sz dsz by simp
    show "(4 :: u32) \<le> word_of_nat (?ru - (h + 4))"
      using of_nat_le_u32 [of 4 "?ru - (h + 4)"] ru8 ru32 by simp
    show "(word_of_nat ?ru :: u32) mod 2 ^ k = 0"
    proof (cases "?ru = 4294967296")
      case False
      with ru32 ru(1) unat_exp_u32 [OF k(1)] show ?thesis
        by (simp add: word_unat_eq_iff unat_mod unat_of_nat_u32 dvd_eq_mod_eq_0)
    next
      case True
      then have "word_of_nat ?ru = (0 :: u32)" by simp
      then show ?thesis by simp
    qed
  qed (use d sz in \<open>simp_all add: u32_nat\<close>)
  from aligned_start_cases [OF k(1,3) h(2) sz(2) dsz]
  have "word_of_nat (h + 4 + sz) < (word_of_nat (?na + d) :: u32)
    \<or> \<not> SizeFits (word_of_nat (h + 4 + sz) - word_of_nat ?na)"
  proof
    assume "?na = 4294967296 \<and> 2147483648 \<le> h + 4 + sz"
    then have "word_of_nat ?na = (0 :: u32)" "unat (word_of_nat (h + 4 + sz) :: u32) > 2147483647"
      using h by (auto simp: unat_of_nat_u32 simp del: of_nat_add)
    then show ?thesis by (simp add: SizeFits_def kSizeMax_def word_le_nat_alt del: of_nat_add)
  qed (use nofit h in \<open>simp add: of_nat_less_u32 del: of_nat_add\<close>)
  with rd v align_test [of h k] h k RoundUp_nat [OF k(1), of "h + 4"] w new c sz show ?thesis
    by (auto simp: sizeof_MallocHeader_def Let_def simp del: of_nat_add)
qed


text \<open>\<open>Partition\<close> implements \<open>split_free\<close>.\<close>

lemma Partition_refines:
  assumes m: "mem s (word_of_nat h) = hdr (word_of_nat sz) False"
    and sz: "4 dvd sz" "sz \<le> 0x400000" and h: "4 dvd h" "h + 4 + sz \<le> 0xFFC00000"
    and d: "0 < d" "4 dvd d" "d < 2147483648" and k: "k < 32" "2 \<le> k"
  shows "case split_free (h + 4) sz d (2 ^ k) of
      None \<Rightarrow> Partition (Suc (Suc n)) s (word_of_nat h) (word_of_nat d) (2 ^ k) = Inr (0, s)
    | Some (pre, sz', post) \<Rightarrow>
        \<exists>s'. Partition (Suc (Suc n)) s (word_of_nat h) (word_of_nat d) (2 ^ k) =
            Inr (word_of_nat (h + bytes pre), s')
          \<and> blocks_at (mem s') h (pre @ (sz', False) # post) \<and> same_outside h (h + 4 + sz) s s'"
proof -
  have al: "4 dvd (2::nat) ^ k" using k(2) le_imp_power_dvd [of 2 k "2::nat"] by simp
  note rd = hdr_read [OF m]
  have v: "IsValid s (word_of_nat h)" using m sz h by (intro IsValid_nat) auto
  note tst = align_test [of h k]
  consider "sz < d" | "d \<le> sz" "2 ^ k dvd h + 4" | "\<not> 2 ^ k dvd h + 4" "sz = d"
    | "\<not> 2 ^ k dvd h + 4" "d < sz" "h + 4 + sz < aligned_start (h + 4) (2 ^ k) + d"
    | "\<not> 2 ^ k dvd h + 4" "d < sz" "aligned_start (h + 4) (2 ^ k) + d \<le> h + 4 + sz"
    by linarith
  then show ?thesis
  proof cases
    case 1
    with rd v tst h k sz d show ?thesis
      by (simp add: split_free_def sizeof_MallocHeader_def Let_def u32_nat)
  next
    case 2
    obtain sz' post where sf: "split_front sz d = (sz', post)" by fastforce
    with Partition_front [OF m sz h d(1,2) 2(1) k(1) 2(2) sf, of "Suc n"] 2 show ?thesis
      by (simp add: split_free_def)
  next
    case 3
    with rd v tst h k sz d show ?thesis
      by (simp add: split_free_def sizeof_MallocHeader_def Let_def)
  next
    case 4
    with Partition_no_room [OF m sz h d(2) 4(2) k 4(1,3), of "Suc n"] show ?thesis
      by (simp add: split_free_def Let_def del: Partition.simps)
  next
    case 5
    obtain sz' post where sf: "split_front (h + 4 + sz - aligned_start (h + 4) (2 ^ k)) d = (sz', post)"
      by fastforce
    have "h + 12 \<le> aligned_start (h + 4) (2 ^ k)"
      using aligned_start_props(2) [OF al _ _ 5(1)] h(1) by simp
    with Partition_middle [OF m sz h d(1,2) 5(2) k 5(1,3) sf, of n] sf 5 show ?thesis
      by (simp add: split_free_def Let_def del: Partition.simps of_nat_add of_nat_diff)
  qed
qed


section \<open>Merging\<close>

abbreviation free_run :: "block list \<Rightarrow> block list" where
  "free_run bs \<equiv> takeWhile (\<lambda>b. \<not> snd b) bs"

abbreviation after_run :: "block list \<Rightarrow> block list" where
  "after_run bs \<equiv> dropWhile (\<lambda>b. \<not> snd b) bs"

lemma merge_blocks_run:
  "merge_blocks ((sz, False) # bs) = (sz + bytes (free_run bs), False) # merge_blocks (after_run bs)"
proof (induction bs arbitrary: sz)
  case (Cons b bs)
  then show ?case by (cases b) (auto simp: add.assoc)
qed simp

lemma ends_free_run:
  "ends_free ((sz, u) # bs) = (if bs = [] then \<not> u else ends_free bs)"
  "bs \<noteq> [] \<Longrightarrow> ends_free bs = (after_run bs = [] \<or> ends_free (after_run bs))"
proof -
  show "bs \<noteq> [] \<Longrightarrow> ends_free bs = (after_run bs = [] \<or> ends_free (after_run bs))"
    by (induction bs) (auto simp: ends_free_def)
qed (auto simp: ends_free_def)

lemma IncSize_nat:
  assumes "mem s h = hdr (word_of_nat sz) u" "0 < sz" "sz + inc < 2147483648"
  shows "IncSize s h (word_of_nat inc) = Inr (write_word s h (hdr (word_of_nat (sz + inc)) u))"
proof -
  note rd = hdr_read [OF assms(1)]
  have w: "(word_of_nat sz :: u32) + word_of_nat inc = word_of_nat (sz + inc)" by simp
  have "SizeFits_inc (word_of_nat sz) (word_of_nat inc)" unfolding SizeFits_inc_def w
    using assms of_nat_le_u32 [of "sz + inc" 2147483647]
    by (simp add: of_nat_less_u32 kSizeMax_def del: of_nat_add)
  moreover have "word_of_nat (sz + inc) \<noteq> (0 :: u32)"
    using of_nat_eq_u32 [of "sz + inc" 0] assms by simp
  moreover have "getSize (write_word s h (hdr (word_of_nat (sz + inc)) u)) h = word_of_nat (sz + inc)"
    using assms(3) by (intro hdr_read(1)) auto
  ultimately show ?thesis using rd assms(3) w
    by (simp add: IncSize_def Let_def del: of_nat_add)
qed

lemma merge_loop_run:
  assumes "mem s (word_of_nat h) = hdr (word_of_nat sz) False" "blocks_at (mem s) (h + 4 + sz) bs"
    "\<forall>b \<in> set bs. block_ok b" "bs \<noteq> []" "length bs \<le> n" "0 < sz" "4 dvd sz" "4 dvd h"
    "h + 4 + sz + bytes bs = lim" "lim \<le> 0xFFC00000" "sz + bytes bs \<le> 0x400000"
  shows "\<exists>s'. merge_loop n (word_of_nat h) (word_of_nat lim) (word_of_nat (h + 4 + sz)) s =
      Inr (after_run bs \<noteq> [], s')
    \<and> blocks_at (mem s') h ((sz + bytes (free_run bs), False) # after_run bs)
    \<and> same_outside h lim s s'"
  using assms
proof (induction bs arbitrary: sz s n)
  case (Cons b bs)
  obtain t v where b: "b = (t, v)" by (cases b)
  from Cons(6) obtain n' where n: "n = Suc n'" by (cases n) auto
  have mt: "mem s (word_of_nat (h + 4 + sz)) = hdr (word_of_nat t) v" using Cons(3) b by simp
  have t: "0 < t" "4 dvd t" "t < 2147483648" using Cons(4,12) b by (auto simp: block_ok_def)
  note rd = hdr_read [OF mt t(3)]
  have nz: "word_of_nat t \<noteq> (0 :: u32)" using t of_nat_eq_u32 [of t 0] by simp
  show ?case
  proof (cases v)
    case True
    with n rd nz b Cons(2,3) show ?thesis by (intro exI [of _ s]) (simp del: of_nat_add)
  next
    case False
    let ?s1 = "write_word s (word_of_nat h) (hdr (word_of_nat (sz + (4 + t))) False)"
    have inc: "IncSize s (word_of_nat h) (4 + word_of_nat t) = Inr ?s1"
      using IncSize_nat [OF Cons(2,7), of "4 + t"] Cons(12) b by simp
    have m1: "mem ?s1 (word_of_nat h) = hdr (word_of_nat (sz + (4 + t))) False" by simp
    have rd1: "getSize ?s1 (word_of_nat h) = word_of_nat (sz + (4 + t))"
      by (rule hdr_read(1) [OF m1]) (use Cons(12) b in simp)
    have nx: "word_of_nat h + 4 + word_of_nat (sz + (4 + t)) = (word_of_nat (h + 4 + (sz + (4 + t))) :: u32)"
      by (simp add: ac_simps)
    have o1: "same_outside h (h + 4) s ?s1" using Cons(10,11) by (intro same_outside_write) auto
    have b1: "blocks_at (mem ?s1) (h + 4 + (sz + (4 + t))) bs"
      by (rule blocks_at_frame [OF _ o1]) (use Cons(3,10,11) b in \<open>auto simp: ac_simps\<close>)
    have v1: "IsValid ?s1 (word_of_nat h)"
      using m1 by (rule IsValid_nat) (use Cons(8,9,10,11,12) t b in auto)
    have o2: "same_outside h lim s ?s1" by (rule same_outside_mono [OF o1]) (use Cons(10) in auto)
    show ?thesis
    proof (cases "bs = []")
      case True
      then have "\<not> word_of_nat (h + 4 + (sz + (4 + t))) < (word_of_nat lim :: u32)"
        using Cons(10) b by (simp add: ac_simps)
      with n rd inc rd1 nx False b True o2 show ?thesis
        by (intro exI [of _ ?s1]) (simp add: sizeof_MallocHeader_def Let_def not_less del: of_nat_add)
    next
      case ne: False
      have lt: "\<not> (word_of_nat lim :: u32) \<le> word_of_nat (h + 4 + (sz + (4 + t)))" unfolding not_le
      proof (subst of_nat_less_u32)
        have "0 < bytes bs" using ne by (cases bs rule: bytes.cases) auto
        then show "h + 4 + (sz + (4 + t)) < lim" using Cons(10) b by simp
      qed (use Cons(10,11) b in auto)
      from Cons(1) [OF m1 b1 _ ne, of n'] Cons(4-12) t n b obtain s' where
        s': "merge_loop n' (word_of_nat h) (word_of_nat lim) (word_of_nat (h + 4 + (sz + (4 + t)))) ?s1 =
            Inr (after_run bs \<noteq> [], s')"
        "blocks_at (mem s') h ((sz + (4 + t) + bytes (free_run bs), False) # after_run bs)"
        "same_outside h lim ?s1 s'" by auto
      with same_outside_trans [OF o2 s'(3)] n rd inc rd1 nx False b lt v1 show ?thesis
        by (intro exI [of _ s']) (simp add: sizeof_MallocHeader_def Let_def add.assoc del: of_nat_add)
    qed
  qed
qed simp


lemma merge_callback_free:
  assumes ma: "mem s (word_of_nat a) = hdr (word_of_nat sz) False"
    and bb: "blocks_at (mem s) (a + 4 + sz) bs"
    and ok: "\<forall>b \<in> set bs. block_ok b" "length bs \<le> N" "0 < sz" "4 dvd sz" "4 dvd a"
    and lim: "a + 4 + sz + bytes bs = lim" "lim \<le> 0xFFC00000" "sz + bytes bs \<le> 0x400000"
      "alloc + asz = word_of_nat lim"
  shows "\<exists>s'. merge_callback N s (word_of_nat a) alloc asz () = Inr (after_run bs \<noteq> [], s', ())
    \<and> blocks_at (mem s') a ((sz + bytes (free_run bs), False) # after_run bs)
    \<and> same_outside a lim s s'"
proof -
  note rd = hdr_read [OF ma]
  have nx: "word_of_nat a + 4 + word_of_nat sz = (word_of_nat (a + 4 + sz) :: u32)" by simp
  show ?thesis
  proof (cases "bs = []")
    case True
    then have "(word_of_nat lim :: u32) \<le> word_of_nat (a + 4 + sz)" using lim(1) by (simp add: ac_simps)
    with True rd nx ma lim show ?thesis
      by (intro exI [of _ s]) (simp add: merge_callback_def Let_def sizeof_MallocHeader_def del: of_nat_add)
  next
    case ne: False
    have "0 < bytes bs" using ne by (cases bs rule: bytes.cases) auto
    then have "\<not> (word_of_nat lim :: u32) \<le> word_of_nat (a + 4 + sz)" unfolding not_le
      using lim by (subst of_nat_less_u32) auto
    moreover obtain s1 where "merge_loop N (word_of_nat a) (word_of_nat lim) (word_of_nat (a + 4 + sz)) s =
          Inr (after_run bs \<noteq> [], s1)"
      "blocks_at (mem s1) a ((sz + bytes (free_run bs), False) # after_run bs)" "same_outside a lim s s1"
      using merge_loop_run [OF ma bb ok(1) ne ok(2-5) lim(1-3)] by blast
    ultimately show ?thesis using rd nx lim
      by (intro exI [of _ s1])
        (simp add: merge_callback_def Let_def sizeof_MallocHeader_def del: of_nat_add dropWhile_eq_Nil_conv)
  qed
qed

lemma merge_headers:
  assumes "blocks_at (mem s) a bs" "\<forall>b \<in> set bs. block_ok b" "length bs < n" "length bs \<le> N"
    "4 dvd a" "a + bytes bs = lim" "lim \<le> 0xFFC00000" "bytes bs \<le> 0x400000"
    "alloc + asz = word_of_nat lim"
  shows "\<exists>s'. iter_headers n (merge_callback N) alloc asz (word_of_nat lim) (word_of_nat a) s () =
      Inr (\<not> ends_free bs, s', ())
    \<and> blocks_at (mem s') a (merge_blocks bs) \<and> same_outside a lim s s'"
  using assms
proof (induction "length bs" arbitrary: a bs s n rule: less_induct)
  case less
  from less(4) obtain n' where n: "n = Suc n'" by (cases n) auto
  show ?case
  proof (cases bs)
    case Nil
    with less(7) n show ?thesis by (intro exI [of _ s]) (simp add: ends_free_def)
  next
    case (Cons b bs')
    obtain sz u where b: "b = (sz, u)" by (cases b)
    let ?run = "if u then [] else free_run bs'" and ?rest = "if u then bs' else after_run bs'"
    have ma: "mem s (word_of_nat a) = hdr (word_of_nat sz) u" and
      bb: "blocks_at (mem s) (a + 4 + sz) bs'" using less(2) Cons b by auto
    have sz: "0 < sz" "4 dvd sz" "sz < 2147483648" using less(3,9) Cons b by (auto simp: block_ok_def)
    have split: "bs' = ?run @ ?rest" by simp
    then have bt: "bytes bs' = bytes ?run + bytes ?rest" by (metis bytes_append)
    have ok: "\<forall>b \<in> set ?run. block_ok b" "\<forall>b \<in> set ?rest. block_ok b" "length ?rest \<le> length bs'"
      using less(3) Cons split by (auto dest: set_takeWhileD set_dropWhileD simp: length_dropWhile_le)
    have lt: "word_of_nat a < (word_of_nat lim :: u32)"
      using less(7,8) Cons b by (subst of_nat_less_u32) auto
    obtain s1 where cb: "merge_callback N s (word_of_nat a) alloc asz () = Inr (u \<or> ?rest \<noteq> [], s1, ())"
      and b1: "blocks_at (mem s1) a ((sz + bytes ?run, u) # ?rest)" and o1: "same_outside a lim s s1"
    proof (cases u)
      case True
      with ma bb hdr_read [OF ma sz(3)] show ?thesis by (intro that [of s]) (simp_all add: merge_callback_def)
    next
      case False
      with merge_callback_free [of s a sz bs' N lim alloc asz] ma bb less(3,5-10) sz Cons b that
      show ?thesis by auto
    qed
    let ?a' = "a + 4 + (sz + bytes ?run)"
    have m1: "mem s1 (word_of_nat a) = hdr (word_of_nat (sz + bytes ?run)) u" using b1 by simp
    have g1: "getSize s1 (word_of_nat a) = word_of_nat (sz + bytes ?run)"
      by (rule hdr_read(1) [OF m1]) (use less(9) Cons b bt in simp)
    have nx: "word_of_nat a + (4 + word_of_nat (sz + bytes ?run)) = (word_of_nat ?a' :: u32)"
      by (simp add: ac_simps)
    obtain s' where s': "iter_headers n' (merge_callback N) alloc asz (word_of_nat lim) (word_of_nat ?a') s1 () =
          Inr (\<not> ends_free ?rest, s', ())"
      "blocks_at (mem s') ?a' (merge_blocks ?rest)" "same_outside ?a' lim s1 s'"
      using less(1) [of ?rest s1 ?a' n'] less(4-10) b1 sz n Cons b bt ok bytes_dvd [OF ok(1)] by auto
    have m': "mem s' (word_of_nat a) = mem s1 (word_of_nat a)"
      using s'(3) less(7,8) Cons b unfolding same_outside_def by auto
    have o': "same_outside a lim s s'"
      by (rule same_outside_trans [OF o1 same_outside_mono [OF s'(3)]]) auto
    have mb: "merge_blocks bs = (sz + bytes ?run, u) # merge_blocks ?rest"
      using Cons b by (simp add: merge_blocks_hd_used merge_blocks_run)
    show ?thesis
    proof (cases "u \<or> ?rest \<noteq> []")
      case True
      have "ends_free bs = ends_free ?rest"
      proof (cases u)
        case False
        with True have "bs' \<noteq> []" "after_run bs' \<noteq> []" by auto
        with False Cons b show ?thesis using ends_free_run(1) [of sz u bs'] ends_free_run(2) [of bs']
          by (simp del: dropWhile_eq_Nil_conv)
      qed (use Cons b ends_free_run(1) [of sz u bs'] in \<open>auto simp: ends_free_def\<close>)
      with True s' m' m1 o' mb n lt cb g1 nx show ?thesis
        by (intro exI [of _ s']) (simp add: sizeof_MallocHeader_def del: of_nat_add dropWhile_eq_Nil_conv)
    next
      case False
      then have "ends_free bs" using Cons b ends_free_run(1) [of sz u bs'] ends_free_run(2) [of bs']
        by (simp del: dropWhile_eq_Nil_conv split: if_splits)
      moreover from False have "\<not> u" "after_run bs' = []" by (auto simp del: dropWhile_eq_Nil_conv)
      ultimately show ?thesis using n lt cb o1 b1 mb
        by (intro exI [of _ s1]) (simp del: of_nat_add dropWhile_eq_Nil_conv)
    qed
  qed
qed


end
