(* ===== verification/Malloc_Heap.thy ===== *)
theory Malloc_Heap
  imports Malloc_Refine
begin

text \<open>
  The whole heap: the chain of allocations, and what \<open>MallocImpl\<close>, \<open>malloc\<close>, \<open>free\<close> and
  \<open>Initialize\<close> of \<open>src/libc/malloc.cpp\<close> do to the set of live blocks.
\<close>

section \<open>Allocations in memory\<close>

record arena =
  base :: nat
  blocks :: "block list"

definition asize :: "arena \<Rightarrow> nat" where
  "asize A = 8 + bytes (blocks A)"

definition arena_ok :: "arena \<Rightarrow> bool" where
  "arena_ok A \<longleftrightarrow> 4 dvd base A \<and> 0 < base A \<and> base A + asize A \<le> 0xFFC00000 \<and> asize A \<le> 0x400000
     \<and> blocks A \<noteq> [] \<and> (\<forall>b \<in> set (blocks A). block_ok b)"

fun heap_at :: "(u32 \<Rightarrow> u32) \<Rightarrow> u32 \<Rightarrow> arena list \<Rightarrow> bool" where
  "heap_at m p [] \<longleftrightarrow> p = 0"
| "heap_at m p (A # As) \<longleftrightarrow> p = word_of_nat (base A) \<and> m (word_of_nat (base A + 4)) = word_of_nat (asize A)
     \<and> blocks_at m (base A + 8) (blocks A) \<and> heap_at m (m p) As"

definition apart1 :: "arena \<Rightarrow> arena \<Rightarrow> bool" where
  "apart1 A B \<longleftrightarrow> base A + asize A \<le> base B \<or> base B + asize B \<le> base A"

fun apart :: "arena list \<Rightarrow> bool" where
  "apart [] \<longleftrightarrow> True"
| "apart (A # As) \<longleftrightarrow> (\<forall>B \<in> set As. apart1 A B) \<and> apart As"

definition arenas_ok :: "arena list \<Rightarrow> bool" where
  "arenas_ok As \<longleftrightarrow> (\<forall>A \<in> set As. arena_ok A) \<and> apart As"

definition heap_wf :: "mstate \<Rightarrow> arena list \<Rightarrow> bool" where
  "heap_wf s As \<longleftrightarrow> heap_at (mem s) (gFirstAlloc s) As \<and> arenas_ok As"

definition live :: "arena list \<Rightarrow> (nat \<times> nat) set" where
  "live As = (\<Union>A \<in> set As. live_at (base A + 8) (blocks A))"

definition free_total :: "arena list \<Rightarrow> nat" where
  "free_total As = sum_list (map (\<lambda>A. free_bytes (blocks A)) As)"

lemma live_simps [simp]:
  "live [] = {}" "live (A # As) = live_at (base A + 8) (blocks A) \<union> live As"
  by (auto simp: live_def)

lemma free_total_simps [simp]:
  "free_total [] = 0" "free_total (A # As) = free_bytes (blocks A) + free_total As"
  by (simp_all add: free_total_def)

lemma arenas_ok_simps [simp]:
  "arenas_ok []" "arenas_ok (A # As) \<longleftrightarrow> arena_ok A \<and> (\<forall>B \<in> set As. apart1 A B) \<and> arenas_ok As"
  by (auto simp: arenas_ok_def)

text \<open>Replacing the blocks of an allocation by others of the same total size.\<close>

lemma arena_ok_blocks:
  "arena_ok A \<Longrightarrow> bytes bs = bytes (blocks A) \<Longrightarrow> \<forall>b \<in> set bs. block_ok b \<Longrightarrow> arena_ok (A\<lparr>blocks := bs\<rparr>)"
  by (cases "blocks A" rule: bytes.cases) (auto simp: arena_ok_def asize_def)

lemma list_all2_in_set2: "list_all2 P xs ys \<Longrightarrow> y \<in> set ys \<Longrightarrow> \<exists>x \<in> set xs. P x y"
  by (induction xs ys rule: list_all2_induct) auto

definition same_shape :: "arena \<Rightarrow> arena \<Rightarrow> bool" where
  "same_shape A B \<longleftrightarrow> base A = base B \<and> asize A = asize B"

lemma same_shape_simps [simp]:
  "same_shape A A" "same_shape A (A\<lparr>blocks := bs\<rparr>) \<longleftrightarrow> bytes bs = bytes (blocks A)"
  by (auto simp: same_shape_def asize_def)

lemma arenas_ok_same_shape:
  "list_all2 same_shape As Bs \<Longrightarrow> arenas_ok As \<Longrightarrow> \<forall>B \<in> set Bs. arena_ok B \<Longrightarrow> arenas_ok Bs"
proof (induction As Bs rule: list_all2_induct)
  case (Cons A As B Bs)
  have "apart1 B C" if C: "C \<in> set Bs" for C
  proof -
    obtain D where "D \<in> set As" "same_shape D C"
      using list_all2_in_set2 [OF Cons(2) C] by blast
    with Cons(1,4) show ?thesis by (auto simp: apart1_def same_shape_def)
  qed
  with Cons show ?case by auto
qed simp

text \<open>Memory changes only inside the block areas of the given allocations.\<close>

definition same_except :: "arena list \<Rightarrow> mstate \<Rightarrow> mstate \<Rightarrow> bool" where
  "same_except As s s' \<longleftrightarrow> gFirstAlloc s' = gFirstAlloc s
     \<and> (\<forall>x. x < 4294967296 \<longrightarrow> (\<forall>A \<in> set As. x < base A + 8 \<or> base A + asize A \<le> x) \<longrightarrow>
          mem s' (word_of_nat x) = mem s (word_of_nat x))"

lemma same_except_refl [simp]: "same_except As s s"
  by (simp add: same_except_def)

lemma same_exceptD:
  "same_except As s s' \<Longrightarrow> x < 4294967296 \<Longrightarrow> (\<And>A. A \<in> set As \<Longrightarrow> x < base A + 8 \<or> base A + asize A \<le> x) \<Longrightarrow>
    mem s' (word_of_nat x) = mem s (word_of_nat x)"
  by (simp add: same_except_def)

lemma same_except_trans: "same_except As s s' \<Longrightarrow> same_except As s' s'' \<Longrightarrow> same_except As s s''"
  by (simp add: same_except_def)

lemma same_except_mono: "same_except As s s' \<Longrightarrow> set As \<subseteq> set Bs \<Longrightarrow> same_except Bs s s'"
  by (auto simp: same_except_def)

lemma same_except_shape:
  assumes "same_except Bs s s'" "list_all2 same_shape As Bs" shows "same_except As s s'"
  using assms(1) list_all2_in_set2 [OF assms(2)] unfolding same_except_def same_shape_def by metis

lemma same_outside_except:
  "same_outside (base A + 8) (base A + asize A) s s' \<Longrightarrow> same_except [A] s s'"
  by (simp add: same_outside_def same_except_def)

lemma blocks_at_except:
  assumes "blocks_at (mem s) a bs" "same_except As s s'" "a + bytes bs < 4294967296"
    "\<forall>A \<in> set As. a + bytes bs \<le> base A + 8 \<or> base A + asize A \<le> a"
  shows "blocks_at (mem s') a bs"
  using assms
proof (induction "mem s" a bs rule: blocks_at.induct)
  case (2 a sz u bs)
  have "mem s' (word_of_nat a) = mem s (word_of_nat a)"
    by (rule same_exceptD [OF 2(3)]) (use 2(4,5) in fastforce)+
  moreover have "blocks_at (mem s') (a + 4 + sz) bs"
    by (rule 2(1)) (use 2(2-5) in \<open>auto simp: ac_simps\<close>)
  ultimately show ?case using 2(2) by simp
qed simp

lemma arena_at_except:
  assumes "same_except Bs s s'" "\<forall>B \<in> set Bs. apart1 A B" "arena_ok A" "heap_at (mem s) p (A # As)"
  shows "mem s' p = mem s p" "mem s' (word_of_nat (base A + 4)) = mem s (word_of_nat (base A + 4))"
    "blocks_at (mem s') (base A + 8) (blocks A)"
proof -
  have b: "base A + asize A < 4294967296" "8 \<le> asize A" "\<forall>B \<in> set Bs. 8 \<le> asize B"
    using assms(3) by (auto simp: arena_ok_def asize_def)
  have "mem s' (word_of_nat x) = mem s (word_of_nat x)" if "x = base A \<or> x = base A + 4" for x
    by (rule same_exceptD [OF assms(1)]) (use that b assms(2) in \<open>fastforce simp: apart1_def\<close>)+
  then show "mem s' p = mem s p" "mem s' (word_of_nat (base A + 4)) = mem s (word_of_nat (base A + 4))"
    using assms(4) by (simp_all del: of_nat_add)
  show "blocks_at (mem s') (base A + 8) (blocks A)"
    by (rule blocks_at_except [OF _ assms(1)]) (use assms b in \<open>auto simp: apart1_def asize_def\<close>)
qed

lemma heap_at_except:
  "heap_at (mem s) p As \<Longrightarrow> same_except Bs s s' \<Longrightarrow> \<forall>A \<in> set As. arena_ok A \<and> (\<forall>B \<in> set Bs. apart1 A B) \<Longrightarrow>
    heap_at (mem s') p As"
proof (induction As arbitrary: p)
  case (Cons A As)
  note e = arena_at_except [OF Cons(3) _ _ Cons(2)]
  with Cons show ?case by auto
qed simp


section \<open>Iterating over the heap\<close>

definition heap_fuel :: "nat \<Rightarrow> arena list \<Rightarrow> bool" where
  "heap_fuel n As \<longleftrightarrow> length As < n \<and> 0x100000 \<le> n"

lemma arena_bounds:
  assumes "arena_ok A"
  shows "base A + 8 + bytes (blocks A) = base A + asize A" "base A + asize A \<le> 0xFFC00000"
    "bytes (blocks A) \<le> 0x400000" "length (blocks A) \<le> 0x80000" "\<forall>b \<in> set (blocks A). block_ok b"
    "4 dvd base A + 8" "word_of_nat (base A) \<noteq> (0 :: u32)"
proof -
  have "8 * length (blocks A) \<le> bytes (blocks A)"
    using assms by (intro length_blocks_le) (auto simp: arena_ok_def)
  then show "length (blocks A) \<le> 0x80000" using assms by (auto simp: arena_ok_def asize_def)
  show "word_of_nat (base A) \<noteq> (0 :: u32)"
    using assms of_nat_eq_u32 [of "base A" 0] by (auto simp: arena_ok_def)
qed (use assms in \<open>auto simp: arena_ok_def asize_def\<close>)

lemma first_header:
  assumes "arena_ok A" "heap_at (mem s) p (A # As)"
  shows "getSize s (p + kAllocOffset) \<noteq> 0"
proof -
  obtain sz u bs where b: "blocks A = (sz, u) # bs"
    using assms(1) by (cases "blocks A" rule: bytes.cases) (auto simp: arena_ok_def)
  with arena_bounds(3,5) [OF assms(1)] have sz: "0 < sz" "sz < 2147483648" by (auto simp: block_ok_def)
  have "mem s (word_of_nat (base A + 8)) = hdr (word_of_nat sz) u" using assms(2) b by simp
  from hdr_read(1) [OF this sz(2)] sz of_nat_eq_u32 [of sz 0] assms(2) show ?thesis
    by (simp add: kAllocOffset_def)
qed

text \<open>One step of the outer loop.\<close>

lemma iter_allocs_step:
  assumes "arena_ok A" "heap_at (mem s) p (A # As)"
  shows "iter_allocs (Suc k) n cb p s x =
    bindr (iter_headers n cb p (word_of_nat (asize A)) (word_of_nat (base A + asize A))
        (word_of_nat (base A + 8)) s x)
      (\<lambda>(go, s', x'). if go then iter_allocs k n cb (mem s' p) s' x' else Inr (s', x'))"
proof -
  have p: "p = word_of_nat (base A)" using assms(2) by simp
  show ?thesis
    using first_header [OF assms] assms(2) arena_bounds(7) [OF assms(1)] unfolding p
    by (simp add: Let_def GetAllocSize_def kAllocOffset_def GetNextAlloc_def cong: if_cong)
qed

lemma iter_allocs_all:
  assumes "heap_at (mem s) p As" "\<forall>A \<in> set As. arena_ok A" "length As < k" "0x100000 \<le> n"
    "\<And>A h sz u alloc asz y. A \<in> set As \<Longrightarrow> (h, sz, u) \<in> set (headers_at (base A + 8) (blocks A)) \<Longrightarrow>
       cb s (word_of_nat h) alloc asz y = Inr (True, s, f sz u y)"
  shows "iter_allocs k n cb p s x = Inr (s, fold (\<lambda>A. fold (\<lambda>(sz, u). f sz u) (blocks A)) As x)"
  using assms
proof (induction As arbitrary: p k x)
  case Nil
  then show ?case by (cases k) auto
next
  case (Cons A As)
  then obtain k' where k: "k = Suc k'" by (cases k) auto
  have ok: "arena_ok A" using Cons(3) by simp
  note b = arena_bounds [OF ok]
  have "iter_headers n cb p (word_of_nat (asize A)) (word_of_nat (base A + 8 + bytes (blocks A)))
      (word_of_nat (base A + 8)) s x = Inr (True, s, fold (\<lambda>(sz, u). f sz u) (blocks A) x)"
  proof (rule iter_headers_all)
    show "cb s (word_of_nat h) p (word_of_nat (asize A)) y = Inr (True, s, f sz u y)"
      if "(h, sz, u) \<in> set (headers_at (base A + 8) (blocks A))" for h sz u y
      by (rule Cons(6) [OF _ that]) simp
  qed (use Cons(2-5) b in auto)
  moreover have "iter_allocs k' n cb (mem s p) s y = Inr (s, fold (\<lambda>A. fold (\<lambda>(sz, u). f sz u) (blocks A)) As y)" for y
  proof (rule Cons(1))
    show "cb s (word_of_nat h) alloc asz y = Inr (True, s, f sz u y)"
      if "B \<in> set As" "(h, sz, u) \<in> set (headers_at (base B + 8) (blocks B))" for B h sz u alloc asz y
      by (rule Cons(6) [OF _ that(2)]) (use that in simp)
  qed (use Cons(2-5) k in auto)
  ultimately show ?case using k b(1)
    by (simp add: iter_allocs_step [OF ok Cons(2)] del: of_nat_add iter_allocs.simps)
qed

text \<open>What the code reads at a header of the heap.\<close>

lemma heap_wf_blocks: "heap_wf s As \<Longrightarrow> A \<in> set As \<Longrightarrow> arena_ok A \<and> blocks_at (mem s) (base A + 8) (blocks A)"
proof -
  have "heap_at m p As \<Longrightarrow> A \<in> set As \<Longrightarrow> blocks_at m (base A + 8) (blocks A)" for m p
    by (induction As arbitrary: p) auto
  then show "heap_wf s As \<Longrightarrow> A \<in> set As \<Longrightarrow> arena_ok A \<and> blocks_at (mem s) (base A + 8) (blocks A)"
    by (auto simp: heap_wf_def arenas_ok_def)
qed

lemma headers_at_block: "(h, sz, u) \<in> set (headers_at a bs) \<Longrightarrow> (sz, u) \<in> set bs"
  by (induction a bs rule: headers_at.induct) auto

lemma heap_header:
  assumes "heap_wf s As" "A \<in> set As" "(h, sz, u) \<in> set (headers_at (base A + 8) (blocks A))"
  shows "getSize s (word_of_nat h) = word_of_nat sz" "isUsed s (word_of_nat h) = u"
    "0 < sz" "4 dvd sz" "sz < 0x400000" "h + 4 + sz \<le> 0xFFC00000"
proof -
  have A: "arena_ok A" "blocks_at (mem s) (base A + 8) (blocks A)" using heap_wf_blocks [OF assms(1,2)] by auto
  note b = arena_bounds [OF A(1)] and r = headers_at_range [OF assms(3)] and m = blocks_at_header [OF A(2) assms(3)]
  have "block_ok (sz, u)" using b(5) headers_at_block [OF assms(3)] by auto
  then show sz: "0 < sz" "4 dvd sz" "sz < 0x400000" "h + 4 + sz \<le> 0xFFC00000"
    using r b A(1) by (auto simp: block_ok_def arena_ok_def asize_def)
  then show "getSize s (word_of_nat h) = word_of_nat sz" "isUsed s (word_of_nat h) = u"
    using hdr_read [OF m] by auto
qed

lemma GetAvailMemory_refines:
  assumes "heap_wf s As" "heap_fuel n As"
  shows "GetAvailMemory n s = Inr (word_of_nat (free_total As))"
proof -
  let ?f = "\<lambda>sz u x. if u then x else x + word_of_nat sz :: u32"
  have cb: "avail_callback s (word_of_nat h) alloc asz y = Inr (True, s, ?f sz u y)"
    if "A \<in> set As" "(h, sz, u) \<in> set (headers_at (base A + 8) (blocks A))" for A h sz u alloc asz y
    using heap_header [OF assms(1) that] by (simp add: avail_callback_def)
  have f1: "fold (\<lambda>(sz, u). ?f sz u) bs x = x + word_of_nat (free_bytes bs)" for bs x
    by (induction bs arbitrary: x) (auto simp: ac_simps)
  have f2: "fold (\<lambda>A. fold (\<lambda>(sz, u). ?f sz u) (blocks A)) Bs x = x + word_of_nat (free_total Bs)" for Bs x
    by (induction Bs arbitrary: x) (auto simp: ac_simps f1)
  show ?thesis
    using iter_allocs_all [where cb = avail_callback and f = ?f and s = s and As = As and p = "gFirstAlloc s" and k = n and n = n and x = 0, OF _ _ _ _ cb] assms f2 [of As 0]
    by (simp add: GetAvailMemory_def IterMallocHeaders_def heap_wf_def heap_fuel_def arenas_ok_def)
qed

lemma ValidateMalloc_refines:
  assumes "heap_wf s As" "heap_fuel n As"
  shows "ValidateMalloc n s = Inr s"
proof -
  have cb: "validate_callback s (word_of_nat h) alloc asz y = Inr (True, s, (\<lambda>sz u x. x) sz u y)"
    if "A \<in> set As" "(h, sz, u) \<in> set (headers_at (base A + 8) (blocks A))" for A h sz u alloc asz y
    using heap_header [OF assms(1) that] of_nat_eq_u32 [of sz 0] by (auto simp: validate_callback_def)
  show ?thesis
    using iter_allocs_all [where cb = validate_callback and s = s and As = As and p = "gFirstAlloc s" and k = n and n = n and x = "()", OF _ _ _ _ cb] assms
    by (simp add: ValidateMalloc_def IterMallocHeaders_def heap_wf_def heap_fuel_def arenas_ok_def)
qed


section \<open>The first-fit search\<close>

lemma search_skip:
  assumes "mem s (word_of_nat h) = hdr (word_of_nat sz) u" "4 dvd sz" "sz \<le> 0x400000" "4 dvd h"
    "h + 4 + sz \<le> 0xFFC00000" "0 < d" "4 dvd d" "d < 2147483648" "k < 32" "2 \<le> k" "2 \<le> n"
    "u \<or> split_free (h + 4) sz d (2 ^ k) = None"
  shows "search_callback n (word_of_nat d) (2 ^ k) s (word_of_nat h) alloc asz x = Inr (True, s, x)"
proof (cases u)
  case True
  with hdr_read [OF assms(1)] assms(3) show ?thesis by (simp add: search_callback_def)
next
  case False
  obtain n' where n: "n = Suc (Suc n')" using assms(11) by (metis add_2_eq_Suc le_Suc_ex)
  from Partition_refines [of s h sz d k n'] assms False hdr_read [OF assms(1)] n show ?thesis
    by (simp add: search_callback_def del: Partition.simps)
qed

lemma search_hit:
  assumes m: "mem s (word_of_nat h) = hdr (word_of_nat sz) False" "4 dvd sz" "sz \<le> 0x400000" "4 dvd h"
    "h + 4 + sz \<le> 0xFFC00000" and d: "0 < d" "4 dvd d" "d < 2147483648" "k < 32" "2 \<le> k" and n: "2 \<le> n"
    and sp: "split_free (h + 4) sz d (2 ^ k) = Some (pre, sz', post)" and h: "0 < h"
  shows "\<exists>s'. search_callback n (word_of_nat d) (2 ^ k) s (word_of_nat h) alloc asz x =
      Inr (False, s', word_of_nat (h + bytes pre))
    \<and> blocks_at (mem s') h (pre @ (sz', True) # post) \<and> same_outside h (h + 4 + sz) s s'"
proof -
  obtain n' where n': "n = Suc (Suc n')" using n by (metis add_2_eq_Suc le_Suc_ex)
  have al: "4 dvd (2::nat) ^ k" using d(5) le_imp_power_dvd [of 2 k "2::nat"] by simp
  have pr: "4 + sz = bytes pre + 4 + sz' + bytes post"
    using split_free_props [OF sp d(1,2) m(2) al] m(4) by auto
  from Partition_refines [OF m d, of n'] sp n' obtain s1 where
    p1: "Partition n s (word_of_nat h) (word_of_nat d) (2 ^ k) = Inr (word_of_nat (h + bytes pre), s1)"
    and b1: "blocks_at (mem s1) h (pre @ (sz', False) # post)" and o1: "same_outside h (h + 4 + sz) s s1"
    by (auto simp del: Partition.simps)
  let ?r = "h + bytes pre"
  let ?s2 = "write_word s1 (word_of_nat ?r) (hdr (word_of_nat sz') True)"
  have r: "?r + 4 + sz' + bytes post = h + 4 + sz" using pr by linarith
  have m1: "mem s1 (word_of_nat ?r) = hdr (word_of_nat sz') False" using b1 by simp
  have sz': "sz' < 2147483648" using pr m(3) by linarith
  note rd1 = hdr_read [OF m1 sz']
  have nz: "word_of_nat ?r \<noteq> (0 :: u32)" using of_nat_eq_u32 [of ?r 0] r m h by (simp del: of_nat_add)
  have o2: "same_outside ?r (?r + 4) s1 ?s2" by (rule same_outside_write) (use r m in auto)
  have "setUsed s1 (word_of_nat ?r) True = ?s2" by (simp add: setUsed_def rd1(1) del: of_nat_add)
  with p1 nz rd1 hdr_read [OF m(1)] m(3)
  have "search_callback n (word_of_nat d) (2 ^ k) s (word_of_nat h) alloc asz x = Inr (False, ?s2, word_of_nat ?r)"
    by (simp add: search_callback_def del: of_nat_add)
  moreover have "blocks_at (mem ?s2) h pre" "blocks_at (mem ?s2) (?r + 4 + sz') post"
    using blocks_at_frame [OF _ o2] b1 r m(5) by auto
  moreover have "same_outside h (h + 4 + sz) s ?s2"
    by (rule same_outside_trans [OF o1 same_outside_mono [OF o2]]) (use r in auto)
  ultimately show ?thesis by (intro exI [of _ ?s2]) (simp del: of_nat_add)
qed


lemma search_headers:
  assumes "blocks_at (mem s) a bs" "\<forall>b \<in> set bs. block_ok b" "length bs < n" "0 < a" "4 dvd a"
    "a + bytes bs = lim" "lim \<le> 0xFFC00000" "bytes bs \<le> 0x400000"
    and d: "0 < d" "4 dvd d" "d < 2147483648" "k < 32" "2 \<le> k" and N: "2 \<le> N"
  shows "case find_fit a bs d (2 ^ k) of
      None \<Rightarrow> iter_headers n (search_callback N (word_of_nat d) (2 ^ k)) alloc asz (word_of_nat lim)
          (word_of_nat a) s x = Inr (True, s, x)
    | Some (p, bs') \<Rightarrow> \<exists>s'. iter_headers n (search_callback N (word_of_nat d) (2 ^ k)) alloc asz (word_of_nat lim)
          (word_of_nat a) s x = Inr (False, s', word_of_nat (p - 4))
        \<and> blocks_at (mem s') a bs' \<and> same_outside a lim s s'"
  using assms(1-8)
proof (induction bs arbitrary: a n)
  case Nil
  then show ?case by (cases n) auto
next
  case (Cons b bs)
  obtain sz u where b: "b = (sz, u)" by (cases b)
  from Cons(4) obtain n' where n: "n = Suc n'" by (cases n) auto
  have ma: "mem s (word_of_nat a) = hdr (word_of_nat sz) u" and bb: "blocks_at (mem s) (a + 4 + sz) bs"
    using Cons(2) b by auto
  have sz: "4 dvd sz" "sz \<le> 0x400000" "a + 4 + sz \<le> 0xFFC00000" "sz < 2147483648"
    using Cons(3,7,8,9) b by (auto simp: block_ok_def)
  have lt: "word_of_nat a < (word_of_nat lim :: u32)"
    using Cons(7,8) b by (subst of_nat_less_u32) auto
  show ?case
  proof (cases "if u then None else split_free (a + 4) sz d (2 ^ k)")
    case None
    have cb: "search_callback N (word_of_nat d) (2 ^ k) s (word_of_nat a) alloc asz x = Inr (True, s, x)"
      by (rule search_skip [OF ma sz(1,2) Cons(6) sz(3) d N]) (use None in \<open>auto split: if_splits\<close>)
    have nx: "word_of_nat a + (4 + word_of_nat sz) = (word_of_nat (a + 4 + sz) :: u32)" by (simp add: ac_simps)
    have step: "iter_headers n (search_callback N (word_of_nat d) (2 ^ k)) alloc asz (word_of_nat lim) (word_of_nat a) s x =
      iter_headers n' (search_callback N (word_of_nat d) (2 ^ k)) alloc asz (word_of_nat lim) (word_of_nat (a + 4 + sz)) s x"
      using n lt cb nx hdr_read(1) [OF ma sz(4)] by (simp add: sizeof_MallocHeader_def del: of_nat_add)
    have "\<forall>b \<in> set bs. block_ok b" "length bs < n'" "0 < a + 4 + sz" "4 dvd a + 4 + sz" "a + 4 + sz + bytes bs = lim"
      "bytes bs \<le> 0x400000" using Cons(3-9) b n sz by auto
    note IH = Cons(1) [OF bb this(1-5) Cons(8) this(6)]
    show ?thesis
    proof (cases "find_fit (a + 4 + sz) bs d (2 ^ k)")
      case N2: None
      with IH None b step show ?thesis by simp
    next
      case (Some r)
      obtain p bs' where r: "r = (p, bs')" by (cases r)
      with Some IH obtain s' where s': "iter_headers n' (search_callback N (word_of_nat d) (2 ^ k)) alloc asz (word_of_nat lim)
          (word_of_nat (a + 4 + sz)) s x = Inr (False, s', word_of_nat (p - 4))"
        "blocks_at (mem s') (a + 4 + sz) bs'" "same_outside (a + 4 + sz) lim s s'" by auto
      have "mem s' (word_of_nat a) = mem s (word_of_nat a)"
        using s'(3) Cons(7,8) b unfolding same_outside_def by auto
      moreover have "same_outside a lim s s'" by (rule same_outside_mono [OF s'(3)]) auto
      ultimately show ?thesis using s' ma step None Some r b by auto
    qed
  next
    case (Some y)
    obtain pre sz' post where y: "y = (pre, sz', post)" by (cases y)
    with Some have u: "u = False" and sp: "split_free (a + 4) sz d (2 ^ k) = Some (pre, sz', post)"
      by (auto split: if_splits)
    from search_hit [OF ma [unfolded u] sz(1,2) Cons(6) sz(3) d N sp Cons(5)] obtain s' where
      s': "search_callback N (word_of_nat d) (2 ^ k) s (word_of_nat a) alloc asz x = Inr (False, s', word_of_nat (a + bytes pre))"
      "blocks_at (mem s') a (pre @ (sz', True) # post)" "same_outside a (a + 4 + sz) s s'" by blast
    have al: "4 dvd (2::nat) ^ k" using d(5) le_imp_power_dvd [of 2 k "2::nat"] by simp
    have pr: "4 + sz = bytes pre + 4 + sz' + bytes post"
      using split_free_props [OF sp d(1,2) sz(1) al] Cons(6) by auto
    have e: "a + bytes pre + 4 + sz' + bytes post = a + 4 + sz" using pr by linarith
    have "blocks_at (mem s') (a + 4 + sz) bs"
      by (rule blocks_at_frame [OF bb s'(3)]) (use Cons(7,8) b in auto)
    then have "blocks_at (mem s') a (pre @ (sz', True) # post @ bs)" using s'(2) by (simp add: e)
    moreover have "same_outside a lim s s'"
      by (rule same_outside_mono [OF s'(3)]) (use Cons(7) b in auto)
    ultimately show ?thesis using n lt s'(1) u sp b by auto
  qed
qed


fun find_arena :: "nat \<Rightarrow> nat \<Rightarrow> arena list \<Rightarrow> (nat \<times> arena list) option" where
  "find_arena d al [] = None"
| "find_arena d al (A # As) =
     (case find_fit (base A + 8) (blocks A) d al of
        Some (p, bs) \<Rightarrow> Some (p, A\<lparr>blocks := bs\<rparr> # As)
      | None \<Rightarrow> map_option (\<lambda>(p, As'). (p, A # As')) (find_arena d al As))"

text \<open>After a step that changed only the blocks of \<open>A\<close>, or only those of allocations behind it.\<close>

lemma heap_at_head_changed:
  assumes "heap_at (mem s) p (A # As)" "arenas_ok (A # As)"
    "same_outside (base A + 8) (base A + asize A) s s'" "blocks_at (mem s') (base A + 8) bs"
    "bytes bs = bytes (blocks A)"
  shows "heap_at (mem s') p (A\<lparr>blocks := bs\<rparr> # As)" "mem s' p = mem s p" "same_except (A # As) s s'"
proof -
  note o = same_outside_except [OF assms(3)]
  have e: "mem s' (word_of_nat x) = mem s (word_of_nat x)" if "x = base A \<or> x = base A + 4" for x
    by (rule same_exceptD [OF o]) (use that assms(2) in \<open>auto simp: arena_ok_def\<close>)
  then show p: "mem s' p = mem s p" using assms(1) by simp
  have "heap_at (mem s') (mem s p) As"
    by (rule heap_at_except [OF _ o]) (use assms(1,2) in \<open>auto simp: apart1_def arenas_ok_def\<close>)
  with p e [of "base A + 4"] assms(1,4,5) show "heap_at (mem s') p (A\<lparr>blocks := bs\<rparr> # As)"
    by (auto simp: asize_def simp del: of_nat_add)
  show "same_except (A # As) s s'" by (rule same_except_mono [OF o]) auto
qed

lemma heap_at_tail_changed:
  assumes "heap_at (mem s) p (A # As)" "arenas_ok (A # As)" "same_except As s s'"
    "heap_at (mem s') (mem s p) As'"
  shows "heap_at (mem s') p (A # As')" "mem s' p = mem s p" "same_except (A # As) s s'"
proof -
  note e = arena_at_except [OF assms(3) _ _ assms(1)]
  show "mem s' p = mem s p" using e assms(2) by auto
  then show "heap_at (mem s') p (A # As')" using e assms(1,2,4) by (auto simp del: of_nat_add)
  show "same_except (A # As) s s'" by (rule same_except_mono [OF assms(3)]) auto
qed

lemma search_allocs:
  assumes "heap_at (mem s) p As" "arenas_ok As" "length As < j" "0x100000 \<le> n"
    and d: "0 < d" "4 dvd d" "d < 2147483648" "k < 32" "2 \<le> k"
  shows "case find_arena d (2 ^ k) As of
      None \<Rightarrow> iter_allocs j n (search_callback n (word_of_nat d) (2 ^ k)) p s 0 = Inr (s, 0)
    | Some (q, As') \<Rightarrow> \<exists>s'. iter_allocs j n (search_callback n (word_of_nat d) (2 ^ k)) p s 0 = Inr (s', word_of_nat (q - 4))
        \<and> heap_at (mem s') p As' \<and> same_except As s s'"
  using assms(1-3)
proof (induction As arbitrary: p j)
  case Nil
  then show ?case by (cases j) auto
next
  case (Cons A As)
  let ?cb = "search_callback n (word_of_nat d) (2 ^ k)"
  from Cons(4) obtain j' where j: "j = Suc j'" by (cases j) auto
  have ok: "arena_ok A" using Cons(3) by simp
  note b = arena_bounds [OF ok]
  have N: "2 \<le> n" "length (blocks A) < n" using assms(4) b(4) by auto
  have h: "blocks_at (mem s) (base A + 8) (blocks A)" "0 < base A + 8" using Cons(2) by auto
  note hd = search_headers [OF h(1) b(5) N(2) h(2) b(6,1,2,3) d N(1), of p "word_of_nat (asize A)" 0]
  note st = iter_allocs_step [OF ok Cons(2), of j' n ?cb 0]
  have "length As < j'" "arenas_ok As" "heap_at (mem s) (mem s p) As" using Cons(2-4) j by auto
  note IH = Cons(1) [OF this(3,2,1)]
  show ?case
  proof (cases "find_fit (base A + 8) (blocks A) d (2 ^ k)")
    case None
    then have st': "iter_allocs j n ?cb p s 0 = iter_allocs j' n ?cb (mem s p) s 0"
      using hd st j by (simp del: iter_allocs.simps of_nat_add)
    show ?thesis
    proof (cases "find_arena d (2 ^ k) As")
      case N2: None
      with IH None st' show ?thesis by simp
    next
      case (Some r)
      obtain q As' where r: "r = (q, As')" by (cases r)
      with Some IH obtain s' where "iter_allocs j' n ?cb (mem s p) s 0 = Inr (s', word_of_nat (q - 4))"
        "heap_at (mem s') (mem s p) As'" "same_except As s s'" by auto
      with heap_at_tail_changed [OF Cons(2,3)] None Some r st' show ?thesis by (auto simp del: iter_allocs.simps heap_at.simps)
    qed
  next
    case (Some r)
    obtain q bs' where r: "r = (q, bs')" by (cases r)
    with Some hd obtain s' where s': "iter_headers n ?cb p (word_of_nat (asize A)) (word_of_nat (base A + asize A))
          (word_of_nat (base A + 8)) s 0 = Inr (False, s', word_of_nat (q - 4))"
      "blocks_at (mem s') (base A + 8) bs'" "same_outside (base A + 8) (base A + asize A) s s'" by auto
    have "bytes bs' = bytes (blocks A)"
      using find_fit_props [OF Some [unfolded r] b(5) d(1,2)] d(5) b(6) le_imp_power_dvd [of 2 k "2::nat"] by auto
    with heap_at_head_changed [OF Cons(2,3) s'(3,2)] s'(1) st j Some r show ?thesis
      by (auto simp del: iter_allocs.simps heap_at.simps of_nat_add)
  qed
qed


lemma find_arena_props:
  assumes "find_arena d al As = Some (p, As')" "arenas_ok As" "0 < d" "4 dvd d" "4 dvd al" "0 < al"
  shows "\<exists>sz. d \<le> sz \<and> live As' = insert (p, sz) (live As) \<and> p \<notin> fst ` live As \<and> al dvd p
    \<and> arenas_ok As' \<and> list_all2 same_shape As As'"
proof -
  have "\<exists>sz. d \<le> sz \<and> live As' = insert (p, sz) (live As) \<and> p \<notin> fst ` live As \<and> al dvd p
      \<and> (\<forall>A \<in> set As'. arena_ok A) \<and> list_all2 same_shape As As'
      \<and> (\<exists>A \<in> set As. base A + 12 \<le> p \<and> p + sz \<le> base A + asize A)"
    using assms
  proof (induction As arbitrary: As')
    case (Cons A As)
    note b = arena_bounds [of A]
    have ok: "arena_ok A" "arenas_ok As" "\<forall>B \<in> set As. apart1 A B" using Cons(3) by auto
    have refl: "list_all2 same_shape As As" by (simp add: list_all2_same)
    show ?case
    proof (cases "find_fit (base A + 8) (blocks A) d al")
      case None
      with Cons(2) obtain Bs where f: "find_arena d al As = Some (p, Bs)" and As': "As' = A # Bs" by auto
      from Cons(1) [OF f ok(2) Cons(4-7)] obtain sz B where sz: "d \<le> sz" "live Bs = insert (p, sz) (live As)"
        "p \<notin> fst ` live As" "al dvd p" "\<forall>A \<in> set Bs. arena_ok A" "list_all2 same_shape As Bs"
        and B: "B \<in> set As" "base B + 12 \<le> p" "p + sz \<le> base B + asize B" by blast
      have "p \<notin> fst ` live_at (base A + 8) (blocks A)"
        using live_at_range [of _ _ "base A + 8" "blocks A"] ok(3) B \<open>d \<le> sz\<close> Cons(4)
        by (force simp: apart1_def asize_def)
      with sz B ok As' show ?thesis
        by (intro exI [of _ sz]) (auto simp: image_Un)
    next
      case (Some r)
      obtain bs where r: "r = (p, bs)" and As': "As' = A\<lparr>blocks := bs\<rparr> # As"
        using Cons(2) Some by (cases r) auto
      from find_fit_props [OF Some [unfolded r] b(5) Cons(4-7)] ok(1) b(6) obtain sz where
        sz: "d \<le> sz" "live_at (base A + 8) bs = insert (p, sz) (live_at (base A + 8) (blocks A))"
        "p \<notin> fst ` live_at (base A + 8) (blocks A)" "al dvd p" "bytes bs = bytes (blocks A)"
        "\<forall>b \<in> set bs. block_ok b" by auto
      have rg: "base A + 12 \<le> p" "p + sz \<le> base A + asize A"
        using live_at_range [of p sz "base A + 8" bs] sz by (auto simp: asize_def)
      have "p \<notin> fst ` live As"
      proof
        assume "p \<in> fst ` live As"
        then obtain t B where "B \<in> set As" "(p, t) \<in> live_at (base B + 8) (blocks B)" by (auto simp: live_def)
        with live_at_range [of p t "base B + 8" "blocks B"] ok(3) rg sz(1) Cons(4) show False
          by (auto simp: apart1_def asize_def)
      qed
      moreover have "arena_ok (A\<lparr>blocks := bs\<rparr>)" by (rule arena_ok_blocks [OF ok(1) sz(5,6)])
      ultimately show ?thesis using sz rg ok As' refl
        by (intro exI [of _ sz]) (auto simp: image_Un arenas_ok_def)
    qed
  qed simp
  then show ?thesis using arenas_ok_same_shape [OF _ assms(2)] by blast
qed

section \<open>Merging the heap\<close>

text \<open>\<open>MergeMallocHeaders\<close> ends with the first allocation whose last block is free.\<close>

fun merge_arenas :: "arena list \<Rightarrow> arena list" where
  "merge_arenas [] = []"
| "merge_arenas (A # As) =
     A\<lparr>blocks := merge_blocks (blocks A)\<rparr> # (if ends_free (blocks A) then As else merge_arenas As)"

lemma merge_allocs:
  assumes "heap_at (mem s) p As" "arenas_ok As" "length As < j" "0x100000 \<le> n"
  shows "\<exists>s'. iter_allocs j n (merge_callback n) p s () = Inr (s', ())
    \<and> heap_at (mem s') p (merge_arenas As) \<and> same_except As s s'"
  using assms(1-3)
proof (induction As arbitrary: s p j)
  case Nil
  then show ?case by (cases j) auto
next
  case (Cons A As)
  from Cons(4) obtain j' where j: "j = Suc j'" by (cases j) auto
  have ok: "arena_ok A" using Cons(3) by simp
  note b = arena_bounds [OF ok]
  have N: "length (blocks A) < n" "length (blocks A) \<le> n" using assms(4) b(4) by auto
  have h: "blocks_at (mem s) (base A + 8) (blocks A)"
    "p + word_of_nat (asize A) = word_of_nat (base A + asize A)" using Cons(2) by auto
  from merge_headers [OF h(1) b(5) N b(6,1,2,3) h(2)] obtain s1 where
    s1: "iter_headers n (merge_callback n) p (word_of_nat (asize A)) (word_of_nat (base A + asize A))
        (word_of_nat (base A + 8)) s () = Inr (\<not> ends_free (blocks A), s1, ())"
      "blocks_at (mem s1) (base A + 8) (merge_blocks (blocks A))"
      "same_outside (base A + 8) (base A + asize A) s s1" by blast
  note hd = heap_at_head_changed [OF Cons(2,3) s1(3,2) merge_blocks_bytes]
  note st = iter_allocs_step [OF ok Cons(2), of j' n "merge_callback n" "()"]
  show ?case
  proof (cases "ends_free (blocks A)")
    case True
    with st s1(1) hd j show ?thesis by (auto simp del: iter_allocs.simps of_nat_add)
  next
    case False
    let ?A = "A\<lparr>blocks := merge_blocks (blocks A)\<rparr>"
    have t: "heap_at (mem s1) (mem s1 p) As" "arenas_ok As" "length As < j'" using hd(1) Cons(3,4) j by auto
    from Cons(1) [OF t] obtain s' where s': "iter_allocs j' n (merge_callback n) (mem s1 p) s1 () = Inr (s', ())"
      "heap_at (mem s') (mem s1 p) (merge_arenas As)" "same_except As s1 s'" by blast
    have "arenas_ok (?A # As)"
    proof (rule arenas_ok_same_shape [of "A # As"])
      show "list_all2 same_shape (A # As) (?A # As)" by (simp add: list_all2_same)
      show "\<forall>B \<in> set (?A # As). arena_ok B"
        using Cons(3) arena_ok_blocks [OF ok merge_blocks_bytes] merge_blocks_ok [OF b(5)] by (auto simp: arenas_ok_def)
    qed (rule Cons(3))
    note tl = heap_at_tail_changed [OF hd(1) this s'(3,2)]
    have "same_except (A # As) s s'"
      by (rule same_except_trans [OF hd(3) same_except_mono [OF s'(3)]]) auto
    with False st s1(1) s'(1) j tl(1) show ?thesis
      by (auto simp del: iter_allocs.simps of_nat_add heap_at.simps)
  qed
qed

lemma merge_arenas_props:
  assumes "arenas_ok As"
  shows "live (merge_arenas As) = live As" "arenas_ok (merge_arenas As)" "length (merge_arenas As) = length As"
    "list_all2 same_shape As (merge_arenas As)"
proof -
  have ok: "\<forall>A \<in> set (merge_arenas As). arena_ok A" and sh: "list_all2 same_shape As (merge_arenas As)"
    using assms
  proof (induction As)
    case (Cons A As)
    case 1
    with Cons show ?case
      using arena_ok_blocks [OF _ merge_blocks_bytes] merge_blocks_ok [OF arena_bounds(5)] by (auto simp: arenas_ok_def)
    case 2
    with Cons show ?case by (auto simp: list_all2_same)
  qed simp_all
  show "live (merge_arenas As) = live As" by (induction As) auto
  show "arenas_ok (merge_arenas As)" by (rule arenas_ok_same_shape [OF sh assms ok])
  show "list_all2 same_shape As (merge_arenas As)" by (rule sh)
  then show "length (merge_arenas As) = length As" by (simp add: list_all2_lengthD)
qed

lemma MergeMallocHeaders_refines:
  assumes "heap_wf s As" "heap_fuel n As"
  shows "\<exists>s'. MergeMallocHeaders n s = Inr s' \<and> heap_wf s' (merge_arenas As) \<and> same_except As s s'"
proof -
  obtain s' where "iter_allocs n n (merge_callback n) (gFirstAlloc s) s () = Inr (s', ())"
    "heap_at (mem s') (gFirstAlloc s) (merge_arenas As)" "same_except As s s'"
    using merge_allocs [of s "gFirstAlloc s" As n n] assms by (auto simp: heap_wf_def heap_fuel_def)
  with merge_arenas_props(2) [of As] assms(1) show ?thesis
    by (auto simp: MergeMallocHeaders_def IterMallocHeaders_def heap_wf_def same_except_def)
qed


section \<open>Space and live blocks\<close>

lemma arenas_total: "arenas_ok As \<Longrightarrow> sum_list (map asize As) \<le> 0xFFC00000"
proof -
  let ?R = "\<lambda>A. {base A ..< base A + asize A}"
  assume ok: "arenas_ok As"
  then have "sum_list (map asize As) = card (\<Union>A \<in> set As. ?R A)"
  proof (induction As)
    case (Cons A As)
    have "?R A \<inter> (\<Union>B \<in> set As. ?R B) = {}" using Cons(2) by (auto simp: apart1_def)
    with Cons show ?case by (simp add: card_Un_disjoint)
  qed simp
  also have "\<dots> \<le> card {0 ..< 0xFFC00000 :: nat}"
  proof (rule card_mono)
    have "base A + asize A \<le> 0xFFC00000" if "A \<in> set As" for A
      using ok that by (auto simp: arenas_ok_def arena_ok_def)
    then show "(\<Union>A \<in> set As. ?R A) \<subseteq> {0 ..< 0xFFC00000}" by fastforce
  qed simp
  finally show ?thesis by simp
qed

lemma free_total_le: "free_total As \<le> sum_list (map asize As)"
  unfolding free_total_def
  by (rule sum_list_mono) (use free_bytes_le in \<open>auto simp: asize_def intro: le_trans trans_le_add2\<close>)

lemma free_total_lt: "arenas_ok As \<Longrightarrow> free_total As < 4294967296"
  using arenas_total [of As] free_total_le [of As] by linarith

lemma arenas_count: "arenas_ok As \<Longrightarrow> 16 * length As \<le> 0xFFC00000"
proof -
  assume ok: "arenas_ok As"
  have "16 \<le> asize A" if "A \<in> set As" for A
  proof -
    have "arena_ok A" using ok that by (auto simp: arenas_ok_def)
    then have "1 \<le> length (blocks A)" "8 * length (blocks A) \<le> bytes (blocks A)"
      by (auto simp: arena_ok_def Suc_le_eq intro!: length_blocks_le)
    then show ?thesis by (simp add: asize_def)
  qed
  then have "16 * length As \<le> sum_list (map asize As)"
    by (induction As) fastforce+
  with arenas_total [OF ok] show ?thesis by simp
qed

text \<open>So a fixed amount of fuel is always enough.\<close>

lemma heap_fuel_enough: "arenas_ok As \<Longrightarrow> 0x10000000 \<le> n \<Longrightarrow> heap_fuel n As"
  using arenas_count [of As] by (auto simp: heap_fuel_def)

lemma find_arena_le_free:
  assumes "find_arena d al As = Some (p, As')" shows "d \<le> free_total As"
proof -
  have fit: "d \<le> free_bytes bs" if "find_fit a bs d al = Some (q, bs')" for a bs q bs'
    using that
    by (induction a bs d al arbitrary: q bs' rule: find_fit.induct)
      (fastforce simp: split_free_def split: if_splits option.splits)+
  from assms show ?thesis
    by (induction As arbitrary: As') (fastforce dest: fit split: option.splits)+
qed

lemma live_header:
  assumes "heap_wf s As" "(p, sz) \<in> live As"
  shows "getSize s (word_of_nat (p - 4)) = word_of_nat sz" "isUsed s (word_of_nat (p - 4))"
    "0 < sz" "sz < 0x400000" "12 < p" "4 dvd p" "p + sz \<le> 0xFFC00000"
proof -
  obtain A where A: "A \<in> set As" "(p, sz) \<in> live_at (base A + 8) (blocks A)"
    using assms(2) by (auto simp: live_def)
  then have h: "(p - 4, sz, True) \<in> set (headers_at (base A + 8) (blocks A))" "4 \<le> p"
    by (auto simp: live_at_def)
  note hh = heap_header [OF assms(1) A(1) h(1)]
  show "getSize s (word_of_nat (p - 4)) = word_of_nat sz" "isUsed s (word_of_nat (p - 4))"
    "0 < sz" "sz < 0x400000" "p + sz \<le> 0xFFC00000" using hh h by auto
  show "12 < p" using live_at_range [OF A(2)] heap_wf_blocks [OF assms(1) A(1)] by (auto simp: arena_ok_def)
  have "4 dvd q" if "\<forall>b \<in> set bs. block_ok b" "4 dvd a" "(q, sz) \<in> live_at a bs" for a bs q
    using that by (induction a bs rule: headers_at.induct) (auto simp: block_ok_def split: if_splits)
  then show "4 dvd p" using A heap_wf_blocks [OF assms(1) A(1)] arena_bounds(5,6) [of A] by blast
qed

lemma live_disjoint:
  assumes "arenas_ok As" "(p, sz) \<in> live As" "(q, sz') \<in> live As"
  shows "(p, sz) = (q, sz') \<or> p + sz + 4 \<le> q \<or> q + sz' + 4 \<le> p"
proof -
  obtain A B where A: "A \<in> set As" "(p, sz) \<in> live_at (base A + 8) (blocks A)"
    and B: "B \<in> set As" "(q, sz') \<in> live_at (base B + 8) (blocks B)" using assms(2,3) by (auto simp: live_def)
  show ?thesis
  proof (cases "A = B")
    case True
    with A B live_at_disjoint show ?thesis by blast
  next
    case False
    have "apart1 A B \<or> apart1 B A" using assms(1) A(1) B(1) False by (induction As) auto
    with live_at_range [OF A(2)] live_at_range [OF B(2)] show ?thesis
      by (auto simp: apart1_def asize_def)
  qed
qed


section \<open>The operations on the heap\<close>

definition request_size :: "u32 \<Rightarrow> nat" where
  "request_size sz = round_up (max (unat sz) 4) 4"

definition bad_request :: "u32 \<Rightarrow> u32 \<Rightarrow> bool" where
  "bad_request sz al \<longleftrightarrow> sz = 0 \<or> \<not> IsPowerOf2 al \<or> 0x7FFFFFFC < unat sz"

lemma request_size_props:
  "unat sz \<le> request_size sz" "4 \<le> request_size sz" "4 dvd request_size sz"
  "unat sz \<le> 0x7FFFFFFC \<Longrightarrow> request_size sz \<le> 0x7FFFFFFC"
  using round_up_props [of 4 "max (unat sz) 4"] by (auto simp: request_size_def)

lemma RoundUp_request: "RoundUp (max sz kMinSize) kMinAlign = Inr (word_of_nat (request_size sz))"
proof -
  have "max sz 4 = (word_of_nat (max (unat sz) 4) :: u32)"
    by (auto simp: max_def word_le_nat_alt)
  then show ?thesis
    using RoundUp_nat [of 2 "max (unat sz) 4"] by (simp add: kMinSize_def kMinAlign_def request_size_def)
qed

lemma max_align: "k < 32 \<Longrightarrow> max (2 ^ k) kMinAlign = (2 ^ max k 2 :: u32)"
proof -
  assume k: "k < 32"
  have "(2 ^ k :: u32) \<le> 2 ^ 2 \<longleftrightarrow> k \<le> 2" using k by (simp add: word_le_nat_alt unat_exp_u32 del: power_numeral)
  then show ?thesis by (auto simp: max_def kMinAlign_def kMinSize_def)
qed

lemma MallocImpl_bad:
  assumes "bad_request sz al" "unat sz \<le> 0xFFFFFFFC"
  shows "MallocImpl n s sz al = Inr (0, s)"
proof (cases "sz = 0 \<or> \<not> IsPowerOf2 al")
  case False
  with assms(1) have "0x7FFFFFFC < unat sz" by (simp add: bad_request_def)
  moreover have "request_size sz < 4294967296" "0x7FFFFFFC < request_size sz"
    using request_size_props [of sz] round_up_props [of 4 "max (unat sz) 4"] calculation assms(2)
    by (auto simp: request_size_def)
  moreover have "4 dvd request_size sz" by (rule request_size_props)
  ultimately have "\<not> SizeFits (word_of_nat (request_size sz))"
    by (auto simp: SizeFits_def kSizeMax_def word_le_nat_alt unat_of_nat_u32)
  with False show ?thesis by (simp add: MallocImpl_def RoundUp_request Let_def)
qed (auto simp: MallocImpl_def)

lemma MallocImpl_refines:
  assumes wf: "heap_wf s As" and n: "heap_fuel n As" and sz: "sz \<noteq> 0" "unat sz \<le> 0x7FFFFFFC" and k: "k < 32"
  shows "case find_arena (request_size sz) (2 ^ max k 2) As of
      None \<Rightarrow> \<exists>s'. MallocImpl n s sz (2 ^ k) = Inr (0, s') \<and> (heap_wf s' As \<or> heap_wf s' (merge_arenas As))
        \<and> same_except As s s'
    | Some (p, As') \<Rightarrow> \<exists>s'. MallocImpl n s sz (2 ^ k) = Inr (word_of_nat p, s') \<and> heap_wf s' (merge_arenas As')
        \<and> same_except As s s'"
proof -
  let ?d = "request_size sz" and ?k = "max k 2"
  have d: "0 < ?d" "4 dvd ?d" "?d < 2147483648" "?k < 32" "2 \<le> ?k"
    using request_size_props [of sz] sz k by auto
  have al: "4 dvd (2::nat) ^ ?k" using le_imp_power_dvd [of 2 ?k "2::nat"] by simp
  have fits: "SizeFits (word_of_nat ?d)" using d
    by (simp add: SizeFits_def kSizeMax_def word_le_nat_alt unat_of_nat_u32)
  have ok: "arenas_ok As" and hp: "heap_at (mem s) (gFirstAlloc s) As" using wf by (auto simp: heap_wf_def)
  have cmp: "word_of_nat (free_total As) < (word_of_nat ?d :: u32) \<longleftrightarrow> free_total As < ?d"
    using free_total_lt [OF ok] d by (subst of_nat_less_u32) auto
  note unf = MallocImpl_def RoundUp_request Let_def max_align [OF k] GetAvailMemory_refines [OF wf n] IsPowerOf2_exp [OF k]
  note se = search_allocs [OF hp ok _ _ d, of n n]
  show ?thesis
  proof (cases "find_arena ?d (2 ^ ?k) As")
    case None
    with se n have it: "IterMallocHeaders n (search_callback n (word_of_nat ?d) (2 ^ ?k)) s 0 = Inr (s, 0)"
      by (simp add: IterMallocHeaders_def heap_fuel_def)
    show ?thesis
    proof (cases "free_total As < ?d")
      case True
      with None sz fits cmp wf show ?thesis by (simp add: unf)
    next
      case False
      from MergeMallocHeaders_refines [OF wf n] obtain s' where
        "MergeMallocHeaders n s = Inr s'" "heap_wf s' (merge_arenas As)" "same_except As s s'" by blast
      with None False sz fits cmp it show ?thesis by (simp add: unf)
    qed
  next
    case (Some r)
    obtain p As' where r: "r = (p, As')" by (cases r)
    have "\<not> free_total As < ?d" using find_arena_le_free Some r by (metis not_less)
    from find_arena_props [OF Some [unfolded r] ok d(1,2) al] obtain bz where
      bz: "?d \<le> bz" "live As' = insert (p, bz) (live As)" "2 ^ ?k dvd p" "arenas_ok As'" "list_all2 same_shape As As'"
      by auto
    obtain s1 where s1: "IterMallocHeaders n (search_callback n (word_of_nat ?d) (2 ^ ?k)) s 0 = Inr (s1, word_of_nat (p - 4))"
      "heap_at (mem s1) (gFirstAlloc s) As'" "same_except As s s1"
      using se Some r n by (auto simp: IterMallocHeaders_def heap_fuel_def)
    have wf1: "heap_wf s1 As'" using s1 bz(4) by (simp add: heap_wf_def same_except_def)
    have n1: "heap_fuel n As'" using n list_all2_lengthD [OF bz(5)] by (simp add: heap_fuel_def)
    from MergeMallocHeaders_refines [OF wf1 n1] obtain s2 where
      s2: "MergeMallocHeaders n s1 = Inr s2" "heap_wf s2 (merge_arenas As')" "same_except As' s1 s2" by blast
    have "(p, bz) \<in> live (merge_arenas As')" using bz(2) merge_arenas_props(1) [OF bz(4)] by simp
    note lh = live_header [OF s2(2) this]
    have "same_except As s s2" using same_except_trans [OF s1(3) same_except_shape [OF s2(3) bz(5)]] .
    moreover have "word_of_nat (p - 4) \<noteq> (0 :: u32)" using lh(5,7) of_nat_eq_u32 [of "p - 4" 0] by simp
    moreover have "word_of_nat (p - 4) + 4 = (word_of_nat p :: u32)" using lh(5) by (simp add: of_nat_diff)
    moreover have "(word_of_nat p :: u32) mod 2 ^ ?k = 0"
      using lh(7) bz(3) unat_exp_u32 [OF d(4)]
      by (simp add: word_unat_eq_iff unat_mod unat_of_nat_u32 dvd_eq_mod_eq_0)
    moreover have "(word_of_nat ?d :: u32) \<le> word_of_nat bz"
      using bz(1) lh(4) d(3) by (subst of_nat_le_u32) auto
    ultimately show ?thesis
      using Some r sz fits cmp s1(1) s2 lh(1,2) \<open>\<not> free_total As < ?d\<close>
      by (simp add: unf sizeof_MallocHeader_def)
  qed
qed


text \<open>\<open>free\<close>: the block is found, marked free, and the heap is merged.\<close>

definition release_arenas :: "nat \<Rightarrow> arena list \<Rightarrow> arena list" where
  "release_arenas p As = map (\<lambda>A. A\<lparr>blocks := release p (base A + 8) (blocks A)\<rparr>) As"

lemma release_absent: "\<forall>(h, sz, u) \<in> set (headers_at a bs). h + 4 \<noteq> p \<Longrightarrow> release p a bs = bs"
  by (induction p a bs rule: release.induct) auto

lemma no_header_apart:
  assumes "(p, sz) \<in> live_at (base A + 8) (blocks A)" "apart1 A B \<or> apart1 B A" "0 < sz"
    "(h, t, u) \<in> set (headers_at (base B + 8) (blocks B))"
  shows "h + 4 \<noteq> p"
  using live_at_range [OF assms(1)] headers_at_range [OF assms(4)] assms(2,3)
  by (auto simp: apart1_def asize_def)

lemma release_apart:
  "(p, sz) \<in> live_at (base A + 8) (blocks A) \<Longrightarrow> apart1 A B \<or> apart1 B A \<Longrightarrow> 0 < sz \<Longrightarrow>
    release p (base B + 8) (blocks B) = blocks B"
  by (rule release_absent) (use no_header_apart in blast)

lemma live_at_pos: "(p, sz) \<in> live_at a bs \<Longrightarrow> \<forall>b \<in> set bs. block_ok b \<Longrightarrow> 0 < sz"
  by (auto simp: live_at_def block_ok_def dest!: headers_at_block)

lemma free_headers:
  assumes "blocks_at (mem s) a bs" "\<forall>b \<in> set bs. block_ok b" "length bs < n"
    "a + bytes bs = lim" "lim \<le> 0xFFC00000" "bytes bs \<le> 0x400000" "4 \<le> p" "p < 4294967296"
    "(p, sz) \<in> live_at a bs"
  shows "\<exists>s'. iter_headers n (free_callback (word_of_nat p)) alloc asz (word_of_nat lim) (word_of_nat a) s x =
      Inr (False, s', True) \<and> blocks_at (mem s') a (release p a bs) \<and> same_outside a lim s s'"
  using assms
proof (induction bs arbitrary: a n)
  case (Cons b bs)
  obtain t u where b: "b = (t, u)" by (cases b)
  from Cons(4) obtain n' where n: "n = Suc n'" by (cases n) auto
  have ma: "mem s (word_of_nat a) = hdr (word_of_nat t) u" and bb: "blocks_at (mem s) (a + 4 + t) bs"
    using Cons(2) b by auto
  have t: "t < 2147483648" using Cons(7) b by auto
  note rd = hdr_read [OF ma t]
  have lt: "word_of_nat a < (word_of_nat lim :: u32)" using Cons(5,6) b by (subst of_nat_less_u32) auto
  have eq: "word_of_nat a + 4 = (word_of_nat p :: u32) \<longleftrightarrow> a + 4 = p"
    using of_nat_eq_u32 [of "a + 4" p] Cons(5,6,9) b by simp
  have nx: "word_of_nat a + (4 + word_of_nat t) = (word_of_nat (a + 4 + t) :: u32)" by (simp add: ac_simps)
  show ?case
  proof (cases "a + 4 = p")
    case True
    let ?s1 = "write_word s (word_of_nat a) (hdr (word_of_nat t) False)"
    have u using Cons(10) b True by (auto dest: live_at_range split: if_splits)
    moreover have "setUsed s (word_of_nat a) False = ?s1" by (simp add: setUsed_def rd)
    moreover have o: "same_outside a (a + 4) s ?s1" by (rule same_outside_write) (use Cons(5,6) b in auto)
    moreover have "blocks_at (mem ?s1) (a + 4 + t) bs" by (rule blocks_at_frame [OF bb o]) (use Cons(5,6) b in auto)
    moreover have "same_outside a lim s ?s1" by (rule same_outside_mono [OF o]) (use Cons(5) b in auto)
    moreover have "mem ?s1 (word_of_nat a) = hdr (word_of_nat t) False" by simp
    ultimately show ?thesis using True n lt rd eq b
      by (intro exI [of _ ?s1]) (simp add: free_callback_def sizeof_MallocHeader_def del: write_word_simps)
  next
    case False
    have st: "iter_headers n (free_callback (word_of_nat p)) alloc asz (word_of_nat lim) (word_of_nat a) s x =
      iter_headers n' (free_callback (word_of_nat p)) alloc asz (word_of_nat lim) (word_of_nat (a + 4 + t)) s x"
      using n lt nx rd(1) eq False by (simp add: free_callback_def sizeof_MallocHeader_def del: of_nat_add)
    have "\<exists>s'. iter_headers n' (free_callback (word_of_nat p)) alloc asz (word_of_nat lim) (word_of_nat (a + 4 + t)) s x =
      Inr (False, s', True) \<and> blocks_at (mem s') (a + 4 + t) (release p (a + 4 + t) bs) \<and> same_outside (a + 4 + t) lim s s'"
      by (rule Cons(1) [OF bb]) (use Cons(3-10) False b n in \<open>auto split: if_splits\<close>)
    then obtain s' where s': "iter_headers n (free_callback (word_of_nat p)) alloc asz (word_of_nat lim) (word_of_nat a) s x =
        Inr (False, s', True)" "blocks_at (mem s') (a + 4 + t) (release p (a + 4 + t) bs)"
      "same_outside (a + 4 + t) lim s s'" unfolding st by blast
    have "mem s' (word_of_nat a) = mem s (word_of_nat a)"
      using s'(3) Cons(5,6) b unfolding same_outside_def by auto
    moreover have "same_outside a lim s s'" by (rule same_outside_mono [OF s'(3)]) auto
    ultimately show ?thesis using s' ma False b by auto
  qed
qed simp

lemma free_allocs:
  assumes "heap_at (mem s) q As" "arenas_ok As" "length As < j" "0x100000 \<le> n" "4 \<le> p" "p < 4294967296"
    "(p, sz) \<in> live As"
  shows "\<exists>s'. iter_allocs j n (free_callback (word_of_nat p)) q s x = Inr (s', True)
    \<and> heap_at (mem s') q (release_arenas p As) \<and> same_except As s s'"
  using assms
proof (induction As arbitrary: q j x)
  case (Cons A As)
  let ?cb = "free_callback (word_of_nat p)"
  from Cons(4) obtain j' where j: "j = Suc j'" by (cases j) auto
  have ok: "arena_ok A" using Cons(3) by simp
  note b = arena_bounds [OF ok]
  have N: "length (blocks A) < n" using Cons(5) b(4) by auto
  have h: "blocks_at (mem s) (base A + 8) (blocks A)" using Cons(2) by auto
  note st = iter_allocs_step [OF ok Cons(2), of j' n ?cb x]
  show ?case
  proof (cases "(p, sz) \<in> live_at (base A + 8) (blocks A)")
    case True
    from free_headers [OF h b(5) N b(1-3) Cons(6,7) True] obtain s' where
      s': "iter_headers n ?cb q (word_of_nat (asize A)) (word_of_nat (base A + asize A)) (word_of_nat (base A + 8)) s x =
        Inr (False, s', True)" "blocks_at (mem s') (base A + 8) (release p (base A + 8) (blocks A))"
      "same_outside (base A + 8) (base A + asize A) s s'" by blast
    note hd = heap_at_head_changed [OF Cons(2,3) s'(3,2) release_bytes]
    have "release_arenas p As = As" unfolding release_arenas_def
      by (rule map_idI) (use release_apart [OF True _ live_at_pos [OF True b(5)]] Cons(3) in auto)
    with hd st s'(1) j show ?thesis by (auto simp: release_arenas_def simp del: iter_allocs.simps heap_at.simps of_nat_add)
  next
    case False
    with Cons(8) obtain B where B: "B \<in> set As" "(p, sz) \<in> live_at (base B + 8) (blocks B)"
      by (auto simp: live_def)
    have ap: "apart1 A B" "0 < sz"
      using B Cons(3) arena_bounds(5) [of B] by (auto simp: arenas_ok_def intro: live_at_pos)
    have skip: "?cb s (word_of_nat h) q (word_of_nat (asize A)) y = Inr (True, s, y)"
      if h: "(h, t, u) \<in> set (headers_at (base A + 8) (blocks A))" for h t u y
    proof -
      have "word_of_nat h + 4 \<noteq> (word_of_nat p :: u32)"
        using no_header_apart [OF B(2) _ ap(2) h] ap(1) headers_at_range [OF h] b(1,2) Cons(7)
          of_nat_eq_u32 [of "h + 4" p] by simp
      then show ?thesis by (simp add: free_callback_def sizeof_MallocHeader_def)
    qed
    have "iter_headers n ?cb q (word_of_nat (asize A)) (word_of_nat (base A + 8 + bytes (blocks A)))
        (word_of_nat (base A + 8)) s x = Inr (True, s, fold (\<lambda>(sz, u) y. y) (blocks A) x)"
      by (rule iter_headers_all [where f = "\<lambda>sz u y. y"]) (use h b N skip in auto)
    moreover have "fold (\<lambda>(sz, u) y. y) bs x = x" for bs :: "block list" by (induction bs) auto
    moreover have t: "heap_at (mem s) (mem s q) As" "arenas_ok As" "length As < j'" "(p, sz) \<in> live As"
      using Cons(2-4,8) False j by auto
    moreover from Cons(1) [OF t(1-3) Cons(5-7) t(4), of x] obtain s' where s': "iter_allocs j' n ?cb (mem s q) s x = Inr (s', True)"
      "heap_at (mem s') (mem s q) (release_arenas p As)" "same_except As s s'" by blast
    moreover note heap_at_tail_changed [OF Cons(2,3) s'(3,2)]
    moreover have "release p (base A + 8) (blocks A) = blocks A"
      by (rule release_apart [OF B(2)]) (use ap in auto)
    ultimately show ?thesis using st j b(1)
      by (auto simp: release_arenas_def simp del: iter_allocs.simps heap_at.simps of_nat_add)
  qed
qed simp


lemma release_arenas_props:
  assumes "arenas_ok As" "(p, sz) \<in> live As"
  shows "live (release_arenas p As) = live As - {(p, sz)}" "arenas_ok (release_arenas p As)"
    "list_all2 same_shape As (release_arenas p As)"
proof -
  show sh: "list_all2 same_shape As (release_arenas p As)"
    by (induction As) (auto simp: release_arenas_def)
  have "\<forall>A \<in> set (release_arenas p As). arena_ok A"
    using assms(1) arena_ok_blocks [OF _ release_bytes release_ok [OF arena_bounds(5)]]
    by (auto simp: release_arenas_def arenas_ok_def)
  then show "arenas_ok (release_arenas p As)" by (rule arenas_ok_same_shape [OF sh assms(1)])
  show "live (release_arenas p As) = live As - {(p, sz)}" using assms
  proof (induction As)
    case (Cons A As)
    have ok: "arena_ok A" "arenas_ok As" "\<forall>B \<in> set As. apart1 A B \<and> arena_ok B" using Cons(2) by (auto simp: arenas_ok_def)
    show ?case
    proof (cases "(p, sz) \<in> live_at (base A + 8) (blocks A)")
      case True
      note pos = live_at_pos [OF True arena_bounds(5) [OF ok(1)]]
      have "release_arenas p As = As" unfolding release_arenas_def
        by (rule map_idI) (use release_apart [OF True _ pos] ok(3) in auto)
      moreover have "(p, sz) \<notin> live As"
      proof
        assume "(p, sz) \<in> live As"
        then obtain B where "B \<in> set As" "(p, sz) \<in> live_at (base B + 8) (blocks B)" by (auto simp: live_def)
        with live_at_range [of p sz "base B + 8" "blocks B"] live_at_range [OF True] ok(3) pos show False
          by (auto simp: apart1_def asize_def)
      qed
      ultimately show ?thesis using release_live [OF True] by (auto simp: release_arenas_def)
    next
      case False
      with Cons(3) obtain B where B: "B \<in> set As" "(p, sz) \<in> live_at (base B + 8) (blocks B)" by (auto simp: live_def)
      have "release p (base A + 8) (blocks A) = blocks A"
        by (rule release_apart [OF B(2)]) (use ok B arena_bounds(5) [of B] live_at_pos [OF B(2)] in auto)
      with False Cons show ?thesis by (auto simp: release_arenas_def)
    qed
  qed simp
qed

lemma release_header:
  "(p, sz) \<in> live_at a bs \<Longrightarrow> (p - 4, sz, False) \<in> set (headers_at a (release p a bs))"
proof (induction p a bs rule: release.induct)
  case (2 p a t u bs)
  then show ?case by (auto split: if_splits dest: live_at_range)
qed simp

lemma release_arenas_unused:
  assumes "heap_wf s (release_arenas p As)" "(p, sz) \<in> live As"
  shows "\<not> isUsed s (word_of_nat (p - 4))"
proof -
  obtain A where A: "A \<in> set As" "(p, sz) \<in> live_at (base A + 8) (blocks A)"
    using assms(2) by (auto simp: live_def)
  then have "A\<lparr>blocks := release p (base A + 8) (blocks A)\<rparr> \<in> set (release_arenas p As)"
    by (simp add: release_arenas_def)
  from heap_header(2) [OF assms(1) this, of "p - 4" sz False] release_header [OF A(2)] show ?thesis by simp
qed

lemma free_refines:
  assumes wf: "heap_wf s As" and n: "heap_fuel n As" and p: "(unat ptr, sz) \<in> live As"
  shows "\<exists>s'. free n s ptr = Inr s' \<and> heap_wf s' (merge_arenas (release_arenas (unat ptr) As)) \<and> same_except As s s'"
proof -
  let ?p = "unat ptr" and ?As = "release_arenas (unat ptr) As"
  have ok: "arenas_ok As" using wf by (simp add: heap_wf_def)
  note lh = live_header [OF wf p]
  note rp = release_arenas_props [OF ok p]
  obtain s1 where s1: "IterMallocHeaders n (free_callback ptr) s False = Inr (s1, True)"
    "heap_at (mem s1) (gFirstAlloc s) ?As" "same_except As s s1"
    using free_allocs [of s "gFirstAlloc s" As n n ?p sz False] wf n lh p
    by (auto simp: heap_wf_def heap_fuel_def IterMallocHeaders_def)
  have wf1: "heap_wf s1 ?As" using s1 rp(2) by (simp add: heap_wf_def same_except_def)
  have n1: "heap_fuel n ?As" using n by (simp add: heap_fuel_def release_arenas_def)
  have n2: "heap_fuel n (merge_arenas ?As)" using n1 merge_arenas_props(3) [OF rp(2)] by (simp add: heap_fuel_def)
  from MergeMallocHeaders_refines [OF wf1 n1] obtain s2 where s2: "MergeMallocHeaders n s1 = Inr s2"
    "heap_wf s2 (merge_arenas ?As)" "same_except ?As s1 s2" by blast
  have "same_except As s s2" by (rule same_except_trans [OF s1(3) same_except_shape [OF s2(3) rp(3)]])
  moreover have "\<not> isUsed s1 (ptr - 4)" using release_arenas_unused [OF wf1 p] lh(5) by (simp add: of_nat_diff)
  moreover have "ptr \<noteq> 0" using lh(5) by auto
  moreover have "ptr mod 4 = 0" using lh(6) hdr_word_of_nat_ok [of ?p] unat_lt_u32 [of ptr] by simp
  ultimately show ?thesis using s1(1) s2 ValidateMalloc_refines [OF s2(2) n2]
    by (simp add: free_def kMinAlign_def kMinSize_def sizeof_MallocHeader_def)
qed


text \<open>A pointer that is not a live block is caught.\<close>

lemma free_headers_bad:
  assumes "blocks_at (mem s) a bs" "\<forall>b \<in> set bs. block_ok b" "length bs < n"
    "a + bytes bs = lim" "lim \<le> 0xFFC00000" "bytes bs \<le> 0x400000" "p \<notin> fst ` live_at a bs" "p < 4294967296"
  shows "iter_headers n (free_callback (word_of_nat p)) alloc asz (word_of_nat lim) (word_of_nat a) s x
    \<in> {Inl Assert_failed, Inr (True, s, x)}"
  using assms
proof (induction bs arbitrary: a n)
  case Nil
  then show ?case by (cases n) auto
next
  case (Cons b bs)
  obtain t u where b: "b = (t, u)" by (cases b)
  from Cons(4) obtain n' where n: "n = Suc n'" by (cases n) auto
  have ma: "mem s (word_of_nat a) = hdr (word_of_nat t) u" and bb: "blocks_at (mem s) (a + 4 + t) bs"
    using Cons(2) b by auto
  have t: "t < 2147483648" using Cons(7) b by auto
  note rd = hdr_read [OF ma t]
  have lt: "word_of_nat a < (word_of_nat lim :: u32)" using Cons(5,6) b by (subst of_nat_less_u32) auto
  have eq: "word_of_nat a + 4 = (word_of_nat p :: u32) \<longleftrightarrow> a + 4 = p"
    using of_nat_eq_u32 [of "a + 4" p] Cons(5,6,9) b by simp
  have nx: "word_of_nat a + (4 + word_of_nat t) = (word_of_nat (a + 4 + t) :: u32)" by (simp add: ac_simps)
  have nl: "p \<notin> fst ` live_at (a + 4 + t) bs" using Cons(8) b by (cases u) auto
  have "iter_headers n' (free_callback (word_of_nat p)) alloc asz (word_of_nat lim) (word_of_nat (a + 4 + t)) s x
    \<in> {Inl Assert_failed, Inr (True, s, x)}"
    by (rule Cons(1) [OF bb]) (use Cons(3-7,9) b n nl in auto)
  moreover have "free_callback (word_of_nat p) s (word_of_nat a) alloc asz x =
      (if a + 4 = p then Inl Assert_failed else Inr (True, s, x))"
  proof (cases "a + 4 = p")
    case True
    with Cons(8) b have "\<not> u" by auto
    with True rd eq show ?thesis by (simp add: free_callback_def sizeof_MallocHeader_def)
  qed (use eq in \<open>simp add: free_callback_def sizeof_MallocHeader_def\<close>)
  ultimately show ?case using n lt nx rd(1)
    by (cases "a + 4 = p") (simp_all add: sizeof_MallocHeader_def del: of_nat_add)
qed

lemma free_allocs_bad:
  assumes "heap_at (mem s) q As" "arenas_ok As" "length As < j" "0x100000 \<le> n" "p < 4294967296" "p \<notin> fst ` live As"
  shows "iter_allocs j n (free_callback (word_of_nat p)) q s x \<in> {Inl Assert_failed, Inr (s, x)}"
  using assms
proof (induction As arbitrary: q j)
  case Nil
  then show ?case by (cases j) auto
next
  case (Cons A As)
  from Cons(4) obtain j' where j: "j = Suc j'" by (cases j) auto
  have ok: "arena_ok A" using Cons(3) by simp
  note b = arena_bounds [OF ok]
  have N: "length (blocks A) < n" using Cons(5) b(4) by auto
  have h: "blocks_at (mem s) (base A + 8) (blocks A)" "p \<notin> fst ` live_at (base A + 8) (blocks A)"
    using Cons(2,7) by (auto simp: image_Un)
  have "iter_allocs j' n (free_callback (word_of_nat p)) (mem s q) s x \<in> {Inl Assert_failed, Inr (s, x)}"
    by (rule Cons(1)) (use Cons(2-7) j in \<open>auto simp: image_Un\<close>)
  with free_headers_bad [OF h(1) b(5) N b(1-3) h(2) Cons(6), of q "word_of_nat (asize A)" x]
    iter_allocs_step [OF ok Cons(2), of j' n "free_callback (word_of_nat p)" x] j
  show ?case by (auto simp del: iter_allocs.simps of_nat_add)
qed

lemma free_bad:
  assumes "heap_wf s As" "heap_fuel n As" "ptr \<noteq> 0" "unat ptr \<notin> fst ` live As"
  shows "free n s ptr = Inl Assert_failed"
  using free_allocs_bad [of s "gFirstAlloc s" As n n "unat ptr" False] assms unat_lt_u32 [of ptr]
  by (auto simp: free_def IterMallocHeaders_def heap_wf_def heap_fuel_def check_def)

end
