(* ===== verification/Malloc_Props.thy ===== *)
theory Malloc_Props
  imports Malloc_Heap
begin

text \<open>
  New allocations (\<open>SetupNewAllocation\<close>, \<open>Initialize\<close>), the interface that the allocator offers
  to its clients as a locale, and the properties of \<open>malloc\<close> and \<open>free\<close>.
\<close>

section \<open>New allocations\<close>

lemma last_alloc_loop_end:
  "heap_at (mem s) p (As @ [L]) \<Longrightarrow> arenas_ok (As @ [L]) \<Longrightarrow> length As < n \<Longrightarrow>
    last_alloc_loop n s p = Inr (word_of_nat (base L))"
proof (induction As arbitrary: p n)
  case Nil
  then show ?case by (cases n) (auto simp: GetNextAlloc_def)
next
  case (Cons A As)
  then obtain n' where n: "n = Suc n'" by (cases n) auto
  obtain B Bs where "As @ [L] = B # Bs" by (cases As) auto
  with Cons(2,3) have "mem s p \<noteq> 0" using arena_bounds(7) [of B] by auto
  moreover have "last_alloc_loop n' s (mem s p) = Inr (word_of_nat (base L))"
    by (rule Cons(1)) (use Cons(2-4) n in auto)
  ultimately show ?case using n by (simp add: GetNextAlloc_def)
qed

lemma GetLastAlloc_refines:
  assumes "heap_wf s (As @ [L])" "heap_fuel n (As @ [L])"
  shows "GetLastAlloc n s = Inr (word_of_nat (base L))"
proof -
  obtain B Bs where "As @ [L] = B # Bs" by (cases As) auto
  with assms(1) arena_bounds(7) [of B] have "gFirstAlloc s \<noteq> 0" by (auto simp: heap_wf_def)
  with last_alloc_loop_end [of s "gFirstAlloc s" As L n] assms show ?thesis
    by (simp add: GetLastAlloc_def heap_wf_def heap_fuel_def)
qed

text \<open>Linking a new allocation behind the last one.\<close>

lemma blocks_at_upd:
  "blocks_at m a bs \<Longrightarrow> x < a \<or> a + bytes bs \<le> x \<Longrightarrow> x < 4294967296 \<Longrightarrow> a + bytes bs < 4294967296 \<Longrightarrow>
    blocks_at (m(word_of_nat x := v)) a bs"
proof (induction m a bs rule: blocks_at.induct)
  case (2 m a sz u bs)
  then have "word_of_nat a \<noteq> (word_of_nat x :: u32)" by (subst of_nat_eq_u32) auto
  with 2 show ?case by auto
qed simp

definition outside_arena :: "nat \<Rightarrow> arena \<Rightarrow> bool" where
  "outside_arena x A \<longleftrightarrow> x < base A \<or> base A + asize A \<le> x"

lemma arena_at_upd:
  assumes "arena_ok A" "outside_arena x A" "x < 4294967296" "heap_at m p (A # As)"
  shows "(m(word_of_nat x := v)) p = m p" "(m(word_of_nat x := v)) (word_of_nat (base A + 4)) = word_of_nat (asize A)"
    "blocks_at (m(word_of_nat x := v)) (base A + 8) (blocks A)"
proof -
  note b = arena_bounds [OF assms(1)]
  have "word_of_nat y \<noteq> (word_of_nat x :: u32)" if "y = base A \<or> y = base A + 4" for y
    using that b(1,2) assms(2,3) by (subst of_nat_eq_u32) (auto simp: outside_arena_def asize_def)
  then show "(m(word_of_nat x := v)) p = m p" "(m(word_of_nat x := v)) (word_of_nat (base A + 4)) = word_of_nat (asize A)"
    using assms(4) by (simp_all del: of_nat_add)
  show "blocks_at (m(word_of_nat x := v)) (base A + 8) (blocks A)"
    by (rule blocks_at_upd) (use assms b in \<open>auto simp: outside_arena_def\<close>)
qed

lemma heap_at_upd:
  "heap_at m p As \<Longrightarrow> \<forall>A \<in> set As. arena_ok A \<and> outside_arena x A \<Longrightarrow> x < 4294967296 \<Longrightarrow>
    heap_at (m(word_of_nat x := v)) p As"
proof (induction As arbitrary: p)
  case (Cons A As)
  note u = arena_at_upd [OF _ _ Cons(4,2), of v]
  have "heap_at (m(word_of_nat x := v)) (m p) As" by (rule Cons(1)) (use Cons(2-4) in auto)
  with u Cons(2,3) show ?case by (auto simp del: of_nat_add fun_upd_apply)
qed simp

lemma heap_at_link:
  assumes "heap_at m p (As @ [L])" "arenas_ok (As @ [L])" "heap_at (m(word_of_nat (base L) := q)) q [N]"
  shows "heap_at (m(word_of_nat (base L) := q)) p (As @ [L, N])"
  using assms
proof (induction As arbitrary: p)
  case Nil
  have L: "arena_ok L" using Nil(2) by simp
  note b = arena_bounds [OF L]
  define m' where "m' = m(word_of_nat (base L) := q)"
  have "word_of_nat (base L + 4) \<noteq> (word_of_nat (base L) :: u32)"
    using b by (subst of_nat_eq_u32) (auto simp: asize_def)
  then have "m' (word_of_nat (base L + 4)) = word_of_nat (asize L)" "m' (word_of_nat (base L)) = q"
    using Nil(1) by (simp_all add: m'_def del: of_nat_add)
  moreover have "blocks_at m' (base L + 8) (blocks L)" unfolding m'_def
    by (rule blocks_at_upd) (use Nil b in auto)
  moreover have "heap_at m' q [N]" unfolding m'_def by (rule Nil(3))
  ultimately show ?case using Nil(1) unfolding m'_def [symmetric] by (auto simp del: of_nat_add)
next
  case (Cons A As)
  have ok: "arena_ok A" "outside_arena (base L) A" "base L < 4294967296"
    using Cons(3) by (auto simp: outside_arena_def apart1_def arenas_ok_def arena_ok_def asize_def)
  have h: "heap_at m p (A # (As @ [L]))" using Cons(2) by (simp only: append_Cons)
  note u = arena_at_upd [OF ok h, of q]
  have "heap_at (m(word_of_nat (base L) := q)) (m p) (As @ [L, N])" by (rule Cons(1)) (use Cons(2-4) in auto)
  with u Cons(2) show ?case by (auto simp del: of_nat_add fun_upd_apply)
qed


text \<open>The state after the writes of \<open>SetupNewAllocation\<close> to the allocation itself.\<close>

definition fresh_arena :: "nat \<Rightarrow> nat \<Rightarrow> arena" where
  "fresh_arena b sz = \<lparr>base = b, blocks = [(sz - 12, False)]\<rparr>"

lemma fresh_arena_simps [simp]:
  "base (fresh_arena b sz) = b" "blocks (fresh_arena b sz) = [(sz - 12, False)]"
  "12 \<le> sz \<Longrightarrow> asize (fresh_arena b sz) = sz"
  by (simp_all add: fresh_arena_def asize_def)

lemma fresh_arena_ok:
  "4 dvd b \<Longrightarrow> 4 dvd sz \<Longrightarrow> 0 < b \<Longrightarrow> 12 < sz \<Longrightarrow> sz \<le> 0x400000 \<Longrightarrow> b + sz \<le> 0xFFC00000 \<Longrightarrow> arena_ok (fresh_arena b sz)"
  by (auto simp: arena_ok_def block_ok_def intro: dvd_diff_nat)

lemma SetupNewAllocation_unfold:
  assumes ok: "arena_ok (fresh_arena b sz)" and sz: "12 < sz"
    and last: "GetLastAlloc n (write_word (write_word s (word_of_nat b) 0) (word_of_nat b + 4) (word_of_nat sz)) = Inr l"
    and l: "l = 0 \<or> l \<noteq> word_of_nat b + 8"
  shows "SetupNewAllocation n s (word_of_nat b) (word_of_nat sz) =
    Inr (write_word (let s2 = write_word (write_word s (word_of_nat b) 0) (word_of_nat b + 4) (word_of_nat sz)
       in if l \<noteq> 0 then write_word s2 l (word_of_nat b) else s2)
      (word_of_nat b + 8) (hdr (word_of_nat (sz - 12)) False))" (is "_ = Inr (write_word ?s3 _ _)")
proof -
  have b: "word_of_nat b \<noteq> (0 :: u32)" "4 dvd b" "b + sz \<le> 0xFFC00000" "sz \<le> 0x400000" "4 dvd sz - 12"
    using arena_bounds [OF ok] ok sz by (auto simp: arena_ok_def block_ok_def)
  have z: "(8 :: u32) < word_of_nat sz" "word_of_nat sz - 4 - 8 = (word_of_nat (sz - 12) :: u32)"
    using of_nat_less_u32 [of 8 sz] sz b by (simp_all add: of_nat_diff)
  let ?s4 = "write_word ?s3 (word_of_nat b + 8) (hdr (word_of_nat (sz - 12)) (isUsed ?s3 (word_of_nat b + 8)))"
  have "setSize ?s3 (word_of_nat b + 8) (word_of_nat (sz - 12)) = Inr ?s4"
    by (rule setSize_nat) (use sz b in auto)
  moreover have "setUsed ?s4 (word_of_nat b + 8) False = write_word ?s3 (word_of_nat b + 8) (hdr (word_of_nat (sz - 12)) False)"
    by (rule setUsed_write) (use b in auto)
  moreover have "IsValid (write_word ?s3 (word_of_nat (b + 8)) (hdr (word_of_nat (sz - 12)) False)) (word_of_nat (b + 8))"
    by (rule IsValid_nat [where sz = "sz - 12" and u = False]) (use b in auto)
  ultimately show ?thesis using b z last
    by (simp add: SetupNewAllocation_def Let_def kAllocOffset_def sizeof_MallocHeader_def)
qed


lemma fresh_arena_at:
  assumes "arena_ok (fresh_arena b sz)" "12 < sz" "m (word_of_nat b) = 0" "m (word_of_nat b + 4) = word_of_nat sz"
    "m (word_of_nat b + 8) = hdr (word_of_nat (sz - 12)) False"
  shows "heap_at m (word_of_nat b) [fresh_arena b sz]"
  using assms by simp

lemma fresh_words:
  assumes "b + sz \<le> 0xFFC00000" "12 < sz"
  shows "(word_of_nat b + 4 :: u32) \<noteq> word_of_nat b" "(word_of_nat b + 8 :: u32) \<noteq> word_of_nat b"
    "(word_of_nat b + 8 :: u32) \<noteq> word_of_nat b + 4"
  using of_nat_eq_u32 [of "b + 4" b] of_nat_eq_u32 [of "b + 8" b] of_nat_eq_u32 [of "b + 8" "b + 4"] assms by simp_all

lemma Setup_first:
  assumes ok: "arena_ok (fresh_arena b sz)" and sz: "12 < sz" and z: "gFirstAlloc s = 0"
  shows "\<exists>s'. SetupNewAllocation n s (word_of_nat b) (word_of_nat sz) = Inr s'
    \<and> heap_at (mem s') (word_of_nat b) [fresh_arena b sz]"
proof -
  have b: "b + sz \<le> 0xFFC00000" using ok sz by (simp add: arena_ok_def)
  have "GetLastAlloc n (write_word (write_word s (word_of_nat b) 0) (word_of_nat b + 4) (word_of_nat sz)) = Inr 0"
    using z by (simp add: GetLastAlloc_def)
  from SetupNewAllocation_unfold [OF ok sz this] fresh_words [OF b sz] fresh_arena_at [OF ok sz] show ?thesis
    by (simp del: heap_at.simps)
qed

lemma Setup_more:
  assumes wf: "heap_wf s (As @ [L])" and n: "heap_fuel n (As @ [L])"
    and ok: "arena_ok (fresh_arena b sz)" and sz: "12 < sz" and ap: "\<forall>A \<in> set (As @ [L]). apart1 A (fresh_arena b sz)"
  shows "\<exists>s'. SetupNewAllocation n s (word_of_nat b) (word_of_nat sz) = Inr s'
    \<and> heap_wf s' ((As @ [L]) @ [fresh_arena b sz])"
proof -
  let ?N = "fresh_arena b sz"
  let ?s2 = "write_word (write_word s (word_of_nat b) 0) (word_of_nat b + 4) (word_of_nat sz)"
  have b: "b + sz \<le> 0xFFC00000" using ok sz by (simp add: arena_ok_def)
  have oks: "arenas_ok (As @ [L])" "heap_at (mem s) (gFirstAlloc s) (As @ [L])" using wf by (auto simp: heap_wf_def)
  have out: "\<forall>A \<in> set (As @ [L]). arena_ok A \<and> outside_arena x A" if "b \<le> x" "x < b + sz" for x
    using that oks(1) ap sz unfolding arenas_ok_def by (force simp: outside_arena_def apart1_def)
  note u = heap_at_upd [OF _ out]
  have "heap_at ((mem s)(word_of_nat b := 0, word_of_nat (b + 4) := word_of_nat sz)) (gFirstAlloc s) (As @ [L])"
    by (intro u oks) (use sz b in auto)
  then have wf2: "heap_wf ?s2 (As @ [L])" using oks(1) by (simp add: heap_wf_def)
  have L: "arena_ok L" "outside_arena (base L) ?N"
    using oks(1) ap by (auto simp: arenas_ok_def outside_arena_def apart1_def asize_def)
  have ne: "(word_of_nat (base L) :: u32) \<noteq> word_of_nat x" if "b \<le> x" "x < b + sz" for x
    using that L b sz arena_bounds(2) [OF L(1)] by (subst of_nat_eq_u32) (auto simp: outside_arena_def)
  define m3 where "m3 = (mem ?s2)(word_of_nat (b + 8) := hdr (word_of_nat (sz - 12)) False)"
  have h3: "heap_at m3 (gFirstAlloc s) (As @ [L])" unfolding m3_def
    by (rule u) (use wf2 sz b in \<open>auto simp: heap_wf_def\<close>)
  have "heap_at (m3(word_of_nat (base L) := word_of_nat b)) (word_of_nat b) [?N]"
    by (rule fresh_arena_at [OF ok sz])
      (use fresh_words [OF b sz] ne [of b] ne [of "b + 4"] ne [of "b + 8"] sz in \<open>auto simp: m3_def\<close>)
  from heap_at_link [OF h3 oks(1) this]
  have h4: "heap_at (m3(word_of_nat (base L) := word_of_nat b)) (gFirstAlloc s) ((As @ [L]) @ [?N])" by simp
  have "arenas_ok (Bs @ [?N])" if "arenas_ok Bs" "\<forall>A \<in> set Bs. apart1 A ?N" for Bs
    using that ok by (induction Bs) auto
  then have "arenas_ok ((As @ [L]) @ [?N])" using oks(1) ap by blast
  moreover have "write_word (write_word ?s2 (word_of_nat (base L)) (word_of_nat b)) (word_of_nat b + 8)
      (hdr (word_of_nat (sz - 12)) False) = s\<lparr>mem := m3(word_of_nat (base L) := word_of_nat b)\<rparr>"
    using ne [of "b + 8"] sz by (auto simp: m3_def write_word_def fun_upd_twist)
  ultimately show ?thesis
    using SetupNewAllocation_unfold [OF ok sz GetLastAlloc_refines [OF wf2 n]] ne [of "b + 8"] sz
      arena_bounds(7) [OF L(1)] h4
    by (simp add: heap_wf_def)
qed


section \<open>The allocator as its clients see it\<close>

text \<open>\<open>rep s h\<close>: the state holds the heap \<open>h\<close>; \<open>held h\<close>: the live blocks, address and size.\<close>

datatype request = Get nat nat | Put nat

fun client_run :: "(nat \<Rightarrow> nat \<Rightarrow> 's \<Rightarrow> (nat \<times> 's) result) \<Rightarrow> (nat \<Rightarrow> 's \<Rightarrow> 's result) \<Rightarrow>
    request list \<Rightarrow> nat list \<Rightarrow> 's \<Rightarrow> (nat list \<times> 's) result" where
  "client_run get put [] ps s = Inr (ps, s)"
| "client_run get put (Get n al # rs) ps s =
     bindr (get n al s) (\<lambda>(p, s'). client_run get put rs (if p = 0 then ps else p # ps) s')"
| "client_run get put (Put i # rs) ps s =
     (if i < length ps
      then bindr (put (ps ! i) s) (\<lambda>s'. client_run get put rs (take i ps @ drop (Suc i) ps) s')
      else client_run get put rs ps s)"

locale allocator =
  fixes rep :: "'s \<Rightarrow> 'h \<Rightarrow> bool"
    and held :: "'h \<Rightarrow> (nat \<times> nat) set"
    and valid :: "nat \<Rightarrow> nat \<Rightarrow> bool"
    and get :: "nat \<Rightarrow> nat \<Rightarrow> 's \<Rightarrow> (nat \<times> 's) result"
    and put :: "nat \<Rightarrow> 's \<Rightarrow> 's result"
  assumes get_law: "rep s h \<Longrightarrow> valid n al \<Longrightarrow> \<exists>p s' h'. get n al s = Inr (p, s') \<and> rep s' h' \<and>
      (p = 0 \<and> held h' = held h \<or>
       (\<exists>m. n \<le> m \<and> al dvd p \<and> held h' = insert (p, m) (held h) \<and> p \<notin> fst ` held h))"
    and put_law: "rep s h \<Longrightarrow> (p, m) \<in> held h \<Longrightarrow> \<exists>s' h'. put p s = Inr s' \<and> rep s' h' \<and> held h' = held h - {(p, m)}"
    and apart_law: "rep s h \<Longrightarrow> (p, m) \<in> held h \<Longrightarrow> (q, n) \<in> held h \<Longrightarrow>
      (p, m) = (q, n) \<or> p + m \<le> q \<or> q + n \<le> p"
    and pos_law: "rep s h \<Longrightarrow> (p, m) \<in> held h \<Longrightarrow> 0 < p \<and> 0 < m"
begin

lemma held_inj: assumes "rep s h" shows "inj_on fst (held h)"
proof (rule inj_onI)
  fix x y assume xy: "x \<in> held h" "y \<in> held h" "fst x = fst y"
  obtain p m n where [simp]: "x = (p, m)" "y = (p, n)" using xy(3) by (cases x; cases y) auto
  show "x = y" using apart_law [OF assms, of p m p n] pos_law [OF assms, of p m] pos_law [OF assms, of p n] xy by auto
qed

lemma put_addresses:
  assumes "rep s h" "fst ` held h = set ps" "distinct ps" "i < length ps"
  shows "\<exists>s' h'. put (ps ! i) s = Inr s' \<and> rep s' h' \<and> fst ` held h' = set (take i ps @ drop (Suc i) ps)"
proof -
  have "ps ! i \<in> fst ` held h" using assms(2,4) by simp
  then obtain m where m: "(ps ! i, m) \<in> held h" by auto
  from put_law [OF assms(1) this] obtain s' h' where
    s': "put (ps ! i) s = Inr s'" "rep s' h'" "held h' = held h - {(ps ! i, m)}" by blast
  have "fst ` held h' = fst ` held h - {ps ! i}"
    using s'(3) m inj_on_image_set_diff [OF held_inj [OF assms(1)], of "held h" "{(ps ! i, m)}"] by simp
  also have "\<dots> = set (take i ps @ drop (Suc i) ps)"
  proof -
    define xs ys where "xs = take i ps" and "ys = drop (Suc i) ps"
    have ps: "ps = xs @ ps ! i # ys" using assms(4) by (simp add: id_take_nth_drop xs_def ys_def)
    have "distinct (xs @ ps ! i # ys)" "fst ` held h = set (xs @ ps ! i # ys)" using assms(2,3) ps by simp_all
    then show ?thesis unfolding xs_def [symmetric] ys_def [symmetric] by auto
  qed
  finally show ?thesis using s' by blast
qed

text \<open>Any sequence of requests runs without a fault; the client holds exactly the live blocks.\<close>

lemma client_run_ok:
  assumes "rep s h" "fst ` held h = set ps" "distinct ps" "\<forall>n al. Get n al \<in> set rs \<longrightarrow> valid n al"
  shows "\<exists>ps' s' h'. client_run get put rs ps s = Inr (ps', s') \<and> rep s' h' \<and> fst ` held h' = set ps' \<and> distinct ps'"
  using assms
proof (induction rs arbitrary: s h ps)
  case (Cons r rs)
  show ?case
  proof (cases r)
    case (Get n al)
    from get_law [OF Cons(2), of n al] Cons(5) Get obtain p s' h' where
      g: "get n al s = Inr (p, s')" "rep s' h'" "p = 0 \<and> held h' = held h \<or>
        (\<exists>m. n \<le> m \<and> al dvd p \<and> held h' = insert (p, m) (held h) \<and> p \<notin> fst ` held h)" by auto
    from g(3) have "fst ` held h' = set (if p = 0 then ps else p # ps) \<and> distinct (if p = 0 then ps else p # ps)"
    proof (elim disjE exE conjE)
      fix m assume m: "held h' = insert (p, m) (held h)" "p \<notin> fst ` held h"
      then have "p \<noteq> 0" using pos_law [OF g(2), of p m] by simp
      with m Cons(3,4) show ?thesis by simp
    qed (use Cons(3,4) in simp)
    then have "fst ` held h' = set (if p = 0 then ps else p # ps)" "distinct (if p = 0 then ps else p # ps)" by blast+
    from Cons(1) [OF g(2) this] Cons(5) Get g(1) show ?thesis by simp
  next
    case (Put i)
    show ?thesis
    proof (cases "i < length ps")
      case True
      from put_addresses [OF Cons(2-4) True] obtain s' h' where
        s': "put (ps ! i) s = Inr s'" "rep s' h'" "fst ` held h' = set (take i ps @ drop (Suc i) ps)" by blast
      have "distinct (take i ps @ drop (Suc i) ps)"
        using Cons(4) set_take_disj_set_drop_if_distinct [of ps i "Suc i"] by simp
      from Cons(1) [OF s'(2,3) this] Cons(5) Put s'(1) True show ?thesis by simp
    qed (use Cons Put in auto)
  qed
qed auto

end

section \<open>The allocator of the code\<close>

definition malloc_fuel :: nat where
  "malloc_fuel = 0x10000000"

definition code_get :: "nat \<Rightarrow> nat \<Rightarrow> mstate \<Rightarrow> (nat \<times> mstate) result" where
  "code_get sz al s = bindr (malloc malloc_fuel (None :: unit ask_for_more option) () s (word_of_nat sz) (word_of_nat al))
     (\<lambda>(p, _, s'). Inr (unat p, s'))"

definition code_put :: "nat \<Rightarrow> mstate \<Rightarrow> mstate result" where
  "code_put p s = free malloc_fuel s (word_of_nat p)"

lemma MallocImpl_cases:
  assumes wf: "heap_wf s As" and n: "heap_fuel n As" and sz: "unat sz \<le> 0xFFFFFFFC"
  shows "\<exists>r s' As'. MallocImpl n s sz al = Inr (r, s') \<and> heap_wf s' As' \<and> list_all2 same_shape As As' \<and> same_except As s s'
    \<and> (if bad_request sz al \<or> find_arena (request_size sz) (max (unat al) 4) As = None then r = 0 \<and> live As' = live As
       else r \<noteq> 0 \<and> unat al dvd unat r \<and> (\<exists>bz \<ge> unat sz. live As' = insert (unat r, bz) (live As)
            \<and> unat r \<notin> fst ` live As))"
proof (cases "bad_request sz al")
  case True
  with MallocImpl_bad [OF True sz] wf show ?thesis by (auto simp: list_all2_same)
next
  case False
  then have sz': "sz \<noteq> 0" "unat sz \<le> 0x7FFFFFFC" by (auto simp: bad_request_def)
  obtain k where k: "k < 32" "al = 2 ^ k" using False by (auto simp: bad_request_def IsPowerOf2_iff)
  have m: "max (unat al) 4 = 2 ^ max k 2"
  proof -
    have "(2::nat) ^ k \<le> 2 ^ 2 \<longleftrightarrow> k \<le> 2" by (rule power_increasing_iff) simp
    then show ?thesis using k unat_exp_u32 [OF k(1)] by (auto simp: max_def)
  qed
  have ok: "arenas_ok As" using wf by (simp add: heap_wf_def)
  note ref = MallocImpl_refines [OF wf n sz' k(1)]
  show ?thesis
  proof (cases "find_arena (request_size sz) (2 ^ max k 2) As")
    case None
    have "list_all2 same_shape As As" by (simp add: list_all2_same)
    with ref None obtain s' As' where "MallocImpl n s sz (2 ^ k) = Inr (0, s')" "heap_wf s' As'" "same_except As s s'"
      "list_all2 same_shape As As'" "live As' = live As"
      using merge_arenas_props [OF ok] by auto
    with None k(2) m show ?thesis by (intro exI [of _ 0] exI [of _ s'] exI [of _ As']) simp
  next
    case (Some x)
    obtain p As1 where x: "x = (p, As1)" by (cases x)
    have al: "4 dvd (2::nat) ^ max k 2" using le_imp_power_dvd [of 2 "max k 2" "2::nat"] by simp
    note rq = request_size_props [of sz]
    have rq0: "0 < request_size sz" using rq by linarith
    from find_arena_props [OF Some [unfolded x] ok rq0 rq(3) al] obtain bz where
      bz: "request_size sz \<le> bz" "live As1 = insert (p, bz) (live As)" "p \<notin> fst ` live As" "2 ^ max k 2 dvd p"
      "arenas_ok As1" "list_all2 same_shape As As1" by auto
    from ref Some x k(2) obtain s' where s': "MallocImpl n s sz al = Inr (word_of_nat p, s')"
      "heap_wf s' (merge_arenas As1)" "same_except As s s'" by auto
    note ma = merge_arenas_props [OF bz(5)]
    have "(p, bz) \<in> live (merge_arenas As1)" using bz(2) ma(1) by simp
    note lh = live_header [OF s'(2) this]
    have u: "unat (word_of_nat p :: u32) = p" using lh(7) by (intro unat_of_nat_u32) simp
    have "list_all2 same_shape As (merge_arenas As1)"
      by (rule list_all2_trans [OF _ bz(6) ma(4)]) (auto simp: same_shape_def)
    moreover have "unat al dvd p" using bz(4) k unat_exp_u32 [OF k(1)] power_le_dvd [of 2 "max k 2" p k] by simp
    moreover have "word_of_nat p \<noteq> (0::u32)" using u lh(5) by (metis unat_0 not_less0)
    ultimately show ?thesis using s' Some x m False bz ma(1) u rq(1)
      by (intro exI [of _ "word_of_nat p"] exI [of _ s'] exI [of _ "merge_arenas As1"]) (auto intro!: exI [of _ bz])
  qed
qed


lemma malloc_no_ask:
  assumes wf: "heap_wf s As" and n: "0x10000000 \<le> n" and sz: "unat sz \<le> 0xFFFFFFFC"
  shows "\<exists>r s' As'. malloc n None k s sz al = Inr (r, k, s') \<and> heap_wf s' As' \<and> list_all2 same_shape As As' \<and> same_except As s s'
    \<and> (if bad_request sz al \<or> find_arena (request_size sz) (max (unat al) 4) As = None then r = 0 \<and> live As' = live As
       else r \<noteq> 0 \<and> unat al dvd unat r \<and> (\<exists>bz \<ge> unat sz. live As' = insert (unat r, bz) (live As)
            \<and> unat r \<notin> fst ` live As))"
proof -
  have f: "heap_fuel n As" using heap_fuel_enough [of As n] wf n by (simp add: heap_wf_def)
  from MallocImpl_cases [OF wf f sz, of al] obtain r s' As' where
    m: "MallocImpl n s sz al = Inr (r, s')" "heap_wf s' As'" "list_all2 same_shape As As'" "same_except As s s'"
    "if bad_request sz al \<or> find_arena (request_size sz) (max (unat al) 4) As = None then r = 0 \<and> live As' = live As
       else r \<noteq> 0 \<and> unat al dvd unat r \<and> (\<exists>bz \<ge> unat sz. live As' = insert (unat r, bz) (live As)
            \<and> unat r \<notin> fst ` live As)" by blast
  have "heap_fuel n As'" using heap_fuel_enough [of As' n] m(2) n by (simp add: heap_wf_def)
  from ValidateMalloc_refines [OF m(2) this] m show ?thesis
    by (intro exI [of _ r] exI [of _ s'] exI [of _ As']) (simp add: malloc_def)
qed

interpretation code: allocator heap_wf live "\<lambda>n al. n \<le> 0xFFFFFFFC \<and> al < 0x100000000" code_get code_put
proof
  fix s h and n al :: nat assume wf: "heap_wf s h" and v: "n \<le> 0xFFFFFFFC \<and> al < (0x100000000 :: nat)"
  then have u: "unat (word_of_nat n :: u32) = n" "unat (word_of_nat al :: u32) = al" by (simp_all add: unat_of_nat_u32)
  from malloc_no_ask [OF wf, of malloc_fuel "word_of_nat n" "()" "word_of_nat al"] u v obtain r s' As' where
    m: "malloc malloc_fuel None () s (word_of_nat n) (word_of_nat al) = Inr (r, (), s')" "heap_wf s' As'"
    "r = 0 \<and> live As' = live h \<or> al dvd unat r \<and> (\<exists>bz \<ge> n. live As' = insert (unat r, bz) (live h) \<and> unat r \<notin> fst ` live h)"
    by (auto simp: malloc_fuel_def split: if_splits)
  then show "\<exists>p s' h'. code_get n al s = Inr (p, s') \<and> heap_wf s' h' \<and>
      (p = 0 \<and> live h' = live h \<or>
       (\<exists>m. n \<le> m \<and> al dvd p \<and> live h' = insert (p, m) (live h) \<and> p \<notin> fst ` live h))"
    by (intro exI [of _ "unat r"] exI [of _ s'] exI [of _ As']) (auto simp: code_get_def)
next
  fix s h p m assume wf: "heap_wf s h" and p: "(p, m) \<in> live h"
  have ok: "arenas_ok h" using wf by (simp add: heap_wf_def)
  have f: "heap_fuel malloc_fuel h" by (rule heap_fuel_enough [OF ok]) (simp add: malloc_fuel_def)
  have u: "unat (word_of_nat p :: u32) = p" using live_header(7) [OF wf p] by (simp add: unat_of_nat_u32)
  have p': "(unat (word_of_nat p :: u32), m) \<in> live h" using p u by simp
  note rp = release_arenas_props [OF ok p] and fr = free_refines [OF wf f p']
  from fr obtain s' where "code_put p s = Inr s'" "heap_wf s' (merge_arenas (release_arenas p h))"
    unfolding u code_put_def by blast
  with rp merge_arenas_props(1) [OF rp(2)] show "\<exists>s' h'. code_put p s = Inr s' \<and> heap_wf s' h' \<and> live h' = live h - {(p, m)}"
    by auto
next
  fix s h p m q n assume "heap_wf s h" "(p, m) \<in> live h" "(q, n) \<in> live h"
  then show "(p, m) = (q, n) \<or> p + m \<le> q \<or> q + n \<le> p"
    using live_disjoint [of h p m q n] by (auto simp: heap_wf_def)
next
  fix s h p m assume "heap_wf s h" "(p, m) \<in> live h"
  then show "0 < p \<and> 0 < m" using live_header [of s h p m] by auto
qed



lemma Initialize_refines:
  assumes z: "gFirstAlloc s = 0" and ok: "arena_ok (fresh_arena b sz)" and sz: "12 < sz" and n: "0x100000 \<le> n"
  shows "\<exists>s'. malloc_Initialize n s (word_of_nat b) (word_of_nat sz) = Inr s' \<and> heap_wf s' [fresh_arena b sz]"
proof -
  from Setup_first [OF ok sz z, of n] obtain s1 where
    s1: "SetupNewAllocation n s (word_of_nat b) (word_of_nat sz) = Inr s1" "heap_at (mem s1) (word_of_nat b) [fresh_arena b sz]"
    by blast
  let ?s2 = "s1\<lparr>gFirstAlloc := word_of_nat b\<rparr>"
  have wf: "heap_wf ?s2 ([] @ [fresh_arena b sz])" using s1(2) ok by (simp add: heap_wf_def)
  have f: "heap_fuel n ([] @ [fresh_arena b sz])" using n by (simp add: heap_fuel_def)
  have "GetAvailMemory n ?s2 = Inr (word_of_nat (sz - 12))" using GetAvailMemory_refines [OF wf f] by simp
  moreover have "word_of_nat (sz - 12) = (word_of_nat sz - 4 - 8 :: u32)" using sz by (simp add: of_nat_diff)
  ultimately show ?thesis using s1(1) wf GetLastAlloc_refines [OF wf f]
    by (simp add: malloc_Initialize_def sizeof_MallocHeader_def kAllocOffset_def)
qed

lemma find_arena_fresh:
  assumes "4 dvd b" "d \<le> sz - 12" shows "find_arena d 4 (As @ [fresh_arena b sz]) \<noteq> None"
proof (induction As)
  case Nil
  have "4 dvd b + 8 + 4" using assms(1) by simp
  with assms(2) show ?case by (auto simp: split_free_def split_front_def)
qed (auto split: option.splits)

lemma SetupNewAllocation_grows:
  assumes "heap_wf s As" "As \<noteq> []" "0x10000000 \<le> n" "arena_ok (fresh_arena b sz)" "12 < sz" "\<forall>A \<in> set As. apart1 A (fresh_arena b sz)"
  shows "\<exists>s'. SetupNewAllocation n s (word_of_nat b) (word_of_nat sz) = Inr s' \<and> heap_wf s' (As @ [fresh_arena b sz])"
proof -
  have f: "heap_fuel n As" using heap_fuel_enough [of As n] assms(1,3) by (simp add: heap_wf_def)
  obtain Bs L where "As = Bs @ [L]" using assms(2) by (metis rev_exhaust)
  with Setup_more [of s Bs L n b sz] assms f show ?thesis by simp
qed

lemma max_kMinAlign: "max (unat kMinAlign) 4 = 4"
  by (simp add: kMinAlign_def kMinSize_def)

lemma same_shape_bases: "list_all2 same_shape As As' \<Longrightarrow> map base As' = map base As"
  by (induction rule: list_all2_induct) (simp_all add: same_shape_def)

lemma MallocImpl_hit:
  assumes "heap_wf s As" "heap_fuel n As" "\<not> bad_request sz kMinAlign" "find_arena (request_size sz) 4 As \<noteq> None"
  shows "\<exists>p s' As' bz. MallocImpl n s sz kMinAlign = Inr (p, s') \<and> p \<noteq> 0 \<and> heap_wf s' As' \<and> map base As' = map base As
    \<and> live As' = insert (unat p, bz) (live As) \<and> unat sz \<le> bz"
proof -
  have "unat sz \<le> 0xFFFFFFFC" using assms(3) by (auto simp: bad_request_def)
  from MallocImpl_cases [OF assms(1,2) this, of kMinAlign] show ?thesis
    using assms(3,4) by (simp add: max_kMinAlign) (metis same_shape_bases)
qed

lemma MallocImpl_miss:
  assumes "heap_wf s As" "heap_fuel n As" "\<not> bad_request sz kMinAlign" "find_arena (request_size sz) 4 As = None"
  shows "\<exists>s' As'. MallocImpl n s sz kMinAlign = Inr (0, s') \<and> heap_wf s' As' \<and> list_all2 same_shape As As' \<and> live As' = live As"
proof -
  have "unat sz \<le> 0xFFFFFFFC" using assms(3) by (auto simp: bad_request_def)
  from MallocImpl_cases [OF assms(1,2) this, of kMinAlign] show ?thesis
    using assms(3,4) by (simp add: max_kMinAlign) metis
qed

section \<open>Properties\<close>

text \<open>Two small heaps on which the properties are applied: one block free; one block in use.\<close>

definition example_heap :: mstate where
  "example_heap = \<lparr>mem = (\<lambda>_. 0)(0x1004 := 0x100, 0x1008 := 244), gFirstAlloc = 0x1000\<rparr>"

definition example_used :: mstate where
  "example_used = \<lparr>mem = (\<lambda>_. 0)(0x1004 := 0x100, 0x1008 := 0x80000010, 0x101C := 224), gFirstAlloc = 0x1000\<rparr>"

definition example_arena :: arena where
  "example_arena = \<lparr>base = 0x1000, blocks = [(16, True), (224, False)]\<rparr>"

lemma example_heap_wf: "heap_wf example_heap [fresh_arena 0x1000 0x100]"
  by (simp add: heap_wf_def example_heap_def arena_ok_def block_ok_def hdr_def)

lemma example_used_wf: "heap_wf example_used [example_arena]"
  by (simp add: heap_wf_def example_used_def example_arena_def arena_ok_def block_ok_def hdr_def asize_def)

lemma example_used_live: "live [example_arena] = {(0x100C, 16)}"
  by (simp add: example_arena_def)

text \<open>C1: With a free block that fits, \<open>malloc\<close> returns the address of a new live block: at least as
  large as the request, aligned as asked, apart from every block that is live, and memory changes
  only inside the allocations. No assertion fails and the loops end.\<close>

theorem malloc_block:
  assumes "heap_wf s As" "0x10000000 \<le> n" "\<not> bad_request sz al"
    "find_arena (request_size sz) (max (unat al) 4) As \<noteq> None"
  shows "\<exists>p bz s' As'. malloc n None k s sz al = Inr (p, k, s') \<and> heap_wf s' As'
    \<and> live As' = insert (unat p, bz) (live As) \<and> unat sz \<le> bz \<and> unat al dvd unat p
    \<and> (\<forall>(q, m) \<in> live As. unat p + bz \<le> q \<or> q + m \<le> unat p) \<and> same_except As s s'"
proof -
  have "unat sz \<le> 0xFFFFFFFC" using assms(3) by (auto simp: bad_request_def)
  from malloc_no_ask [OF assms(1,2) this, of k al] assms(3,4) obtain p s' As' bz where
    m: "malloc n None k s sz al = Inr (p, k, s')" "heap_wf s' As'" "same_except As s s'" "unat al dvd unat p"
    "unat sz \<le> bz" "live As' = insert (unat p, bz) (live As)" "unat p \<notin> fst ` live As" by auto
  have "unat p + bz \<le> q \<or> q + t \<le> unat p" if "(q, t) \<in> live As" for q t
    using live_disjoint [of As' "unat p" bz q t] that m(2,6,7) by (force simp: heap_wf_def)
  with m show ?thesis by blast
qed

theorem malloc_block_witness:
  "\<exists>p bz s' As'. malloc 0x10000000 None () example_used 10 8 = Inr (p, (), s') \<and> heap_wf s' As'
    \<and> live As' = insert (unat p, bz) {(0x100C, 16)} \<and> 10 \<le> bz \<and> 8 dvd unat p"
proof -
  have "\<not> bad_request 10 8" by (simp add: bad_request_def IsPowerOf2_def)
  moreover have "find_arena (request_size 10) (max (unat (8 :: u32)) 4) [example_arena] \<noteq> None"
    by (simp add: example_arena_def request_size_def round_up_def split_free_def aligned_start_def split_front_def)
  ultimately show ?thesis
    using malloc_block [OF example_used_wf order_refl, of 10 8 "()"] unfolding example_used_live by fastforce
qed

text \<open>C3: \<open>free\<close> of a live block ends without a fault, removes exactly that block from the live set and
  leaves a well-formed heap.\<close>

theorem free_releases:
  assumes "heap_wf s As" "0x10000000 \<le> n" "(unat ptr, sz) \<in> live As"
  shows "\<exists>s' As'. free n s ptr = Inr s' \<and> heap_wf s' As' \<and> live As' = live As - {(unat ptr, sz)} \<and> same_except As s s'"
proof -
  have ok: "arenas_ok As" using assms(1) by (simp add: heap_wf_def)
  note rp = release_arenas_props [OF ok assms(3)]
  show ?thesis using free_refines [OF assms(1) heap_fuel_enough [OF ok assms(2)] assms(3)]
      rp(1) merge_arenas_props(1) [OF rp(2)] by auto
qed

theorem free_releases_witness:
  "\<exists>s' As'. free 0x10000000 example_used 0x100C = Inr s' \<and> heap_wf s' As' \<and> live As' = {}"
  using free_releases [OF example_used_wf order_refl, of "0x100C" 16] unfolding example_used_live by auto

text \<open>\<open>free\<close> of any other non-null address, a double free among them, fails an assertion.\<close>

theorem free_rejects:
  assumes "heap_wf s As" "0x10000000 \<le> n" "ptr \<noteq> 0" "unat ptr \<notin> fst ` live As"
  shows "free n s ptr = Inl Assert_failed"
  by (rule free_bad [OF assms(1) heap_fuel_enough [OF _ assms(2)] assms(3,4)]) (use assms(1) in \<open>simp add: heap_wf_def\<close>)

theorem free_rejects_witness: "free 0x10000000 example_heap 0x100C = Inl Assert_failed"
  by (rule free_rejects [OF example_heap_wf order_refl]) simp_all

lemma malloc_grows_cases:
  assumes "heap_wf s As" "As \<noteq> []" "0x10000000 \<le> n" "sz \<noteq> 0" "ask k = Inr (word_of_nat b, word_of_nat asz, k')"
    "arena_ok (fresh_arena b asz)" "12 < asz" "\<forall>A \<in> set As. apart1 A (fresh_arena b asz)" "request_size sz \<le> asz - 12"
  shows "\<exists>p bz k'' s' As'. malloc n (Some ask) k s sz kMinAlign = Inr (p, k'', s') \<and> p \<noteq> 0 \<and> heap_wf s' As'
    \<and> live As' = insert (unat p, bz) (live As) \<and> unat sz \<le> bz
    \<and> (k'' = k \<and> map base As' = map base As
       \<or> find_arena (request_size sz) 4 As = None \<and> k'' = k' \<and> map base As' = map base As @ [b])"
proof -
  let ?N = "fresh_arena b asz"
  have "asz \<le> 0x400000" using assms(6,7) by (simp add: arena_ok_def)
  then have rs: "unat sz \<le> 0x400000" using assms(9) request_size_props(1) [of sz] by linarith
  then have nb: "\<not> bad_request sz kMinAlign" and sz: "\<not> sz > kSizeMax"
    using assms(4) by (auto simp: bad_request_def kMinAlign_def kMinSize_def IsPowerOf2_def kSizeMax_def word_less_nat_alt)
  have f: "heap_fuel n Bs" if "heap_wf t Bs" for t Bs
    using heap_fuel_enough [of Bs n] that assms(3) by (simp add: heap_wf_def)
  show ?thesis
  proof (cases "find_arena (request_size sz) 4 As = None")
    case False
    from MallocImpl_hit [OF assms(1) f [OF assms(1)] nb False] obtain p s1 As1 bz where
      p: "MallocImpl n s sz kMinAlign = Inr (p, s1)" "p \<noteq> 0" "heap_wf s1 As1" "map base As1 = map base As"
      "live As1 = insert (unat p, bz) (live As)" "unat sz \<le> bz" by blast
    from ValidateMalloc_refines [OF p(3) f [OF p(3)]] p show ?thesis
      by (intro exI [of _ p] exI [of _ bz] exI [of _ k] exI [of _ s1] exI [of _ As1]) (simp add: malloc_def)
  next
    case True
    from MallocImpl_miss [OF assms(1) f [OF assms(1)] nb True] obtain s1 As1 where
      m: "MallocImpl n s sz kMinAlign = Inr (0, s1)" "heap_wf s1 As1" "list_all2 same_shape As As1" "live As1 = live As" by blast
    have len: "map base As1 = map base As" by (rule same_shape_bases [OF m(3)])
    have ne: "As1 \<noteq> []" using arg_cong [OF len, of length] assms(2) by auto
    have ap: "\<forall>A \<in> set As1. apart1 A ?N"
      using list_all2_in_set2 [OF m(3)] assms(8) by (fastforce simp: same_shape_def apart1_def)
    from SetupNewAllocation_grows [OF m(2) ne assms(3,6,7) ap] obtain s2 where
      s2: "SetupNewAllocation n s1 (word_of_nat b) (word_of_nat asz) = Inr s2" "heap_wf s2 (As1 @ [?N])" by blast
    have fit: "find_arena (request_size sz) 4 (As1 @ [?N]) \<noteq> None"
      by (rule find_arena_fresh) (use assms(6,9) in \<open>auto simp: arena_ok_def\<close>)
    from MallocImpl_hit [OF s2(2) f [OF s2(2)] nb fit] obtain p s3 As3 bz where
      p: "MallocImpl n s2 sz kMinAlign = Inr (p, s3)" "p \<noteq> 0" "heap_wf s3 As3" "map base As3 = map base (As1 @ [?N])"
      "live As3 = insert (unat p, bz) (live (As1 @ [?N]))" "unat sz \<le> bz" by blast
    have "live (As1 @ [?N]) = live As" using m(4) by (auto simp: live_def)
    moreover have "malloc n (Some ask) k s sz kMinAlign = Inr (p, k', s3)"
      using m(1) ValidateMalloc_refines [OF m(2) f [OF m(2)]] sz assms(4,5) s2(1) p(1) by (simp add: malloc_def)
    ultimately show ?thesis using p len True
      by (intro exI [of _ p] exI [of _ bz] exI [of _ k'] exI [of _ s3] exI [of _ As3]) simp
  qed
qed

text \<open>C6: With a growth callback, \<open>malloc\<close> at the default alignment never returns null for a request that
  fits into the allocation the callback supplies: the heap grows by that allocation only when no
  block fits, and the result is a new live block. The callback is code of the caller; it is assumed
  to deliver memory that is apart from the heap.\<close>

theorem malloc_grows:
  assumes "heap_wf s As" "As \<noteq> []" "0x10000000 \<le> n" "sz \<noteq> 0" "ask k = Inr (word_of_nat b, word_of_nat asz, k')"
    "arena_ok (fresh_arena b asz)" "12 < asz" "\<forall>A \<in> set As. apart1 A (fresh_arena b asz)" "request_size sz \<le> asz - 12"
  shows "\<exists>p bz k'' s' As'. malloc n (Some ask) k s sz kMinAlign = Inr (p, k'', s') \<and> p \<noteq> 0 \<and> heap_wf s' As'
    \<and> live As' = insert (unat p, bz) (live As) \<and> unat sz \<le> bz
    \<and> (k'' = k \<and> map base As' = map base As
       \<or> find_arena (request_size sz) 4 As = None \<and> k'' = k' \<and> map base As' = map base As @ [b])"
  by (rule malloc_grows_cases [where ask = ask and k = k, OF assms])

theorem malloc_grows_witness:
  "\<exists>p bz k'' s' As'. malloc 0x10000000 (Some (\<lambda>k. Inr (0x800000, 0x400000, Suc k))) 0 example_used 1000 kMinAlign = Inr (p, k'', s')
    \<and> p \<noteq> 0 \<and> heap_wf s' As' \<and> live As' = insert (unat p, bz) {(0x100C, 16)} \<and> 1000 \<le> bz"
proof -
  have "request_size 1000 \<le> 0x400000 - 12" by (simp add: request_size_def round_up_def)
  moreover have "arena_ok (fresh_arena 0x800000 0x400000)" by (simp add: arena_ok_def block_ok_def)
  moreover have "\<forall>A \<in> set [example_arena]. apart1 A (fresh_arena 0x800000 0x400000)"
    by (simp add: apart1_def example_arena_def asize_def)
  ultimately show ?thesis
    using malloc_grows [OF example_used_wf _ order_refl, of 1000 "\<lambda>k. Inr (0x800000, 0x400000, Suc k)" 0 "0x800000" "0x400000" "Suc 0"]
    unfolding example_used_live by fastforce
qed

text \<open>C7: In a heap of one allocation with no two adjacent free blocks, a \<open>malloc\<close> that succeeds followed
  by \<open>free\<close> of its result restores the heap exactly, the available memory with it.\<close>

theorem malloc_free_roundtrip:
  assumes "heap_wf s [A]" "merged (blocks A)" "0x10000000 \<le> n" "malloc n None k s sz al = Inr (p, k, s1)" "p \<noteq> 0"
    "unat sz \<le> 0xFFFFFFFC"
  shows "\<exists>s2. free n s1 p = Inr s2 \<and> heap_wf s2 [A] \<and> GetAvailMemory n s2 = GetAvailMemory n s"
proof -
  have ok: "arenas_ok [A]" "arena_ok A" using assms(1) by (auto simp: heap_wf_def)
  note b = arena_bounds [OF ok(2)]
  have f: "heap_fuel n Bs" if "heap_wf t Bs" for t Bs
    using heap_fuel_enough [of Bs n] that assms(3) by (simp add: heap_wf_def)
  obtain s0 where m: "MallocImpl n s sz al = Inr (p, s0)" "ValidateMalloc n s0 = Inr s1"
    using assms(4,5) by (auto simp: malloc_def split: if_splits)
  have nb: "\<not> bad_request sz al" using MallocImpl_bad [OF _ assms(6), of al n s] m(1) assms(5) by auto
  then obtain k where sz: "sz \<noteq> 0" "unat sz \<le> 0x7FFFFFFC" and k: "k < 32" "al = 2 ^ k"
    by (auto simp: bad_request_def IsPowerOf2_iff)
  note ref = MallocImpl_refines [OF assms(1) f [OF assms(1)] sz k(1)]
  obtain q bs where fit: "find_fit (base A + 8) (blocks A) (request_size sz) (2 ^ max k 2) = Some (q, bs)"
    using ref m(1) assms(5) k(2) by (auto split: option.splits)
  with ref m(1) k(2) have p: "p = word_of_nat q" and wf0: "heap_wf s0 [A\<lparr>blocks := merge_blocks bs\<rparr>]"
    by (auto cong: if_cong)
  have rq: "0 < request_size sz" "4 dvd request_size sz" using request_size_props [of sz] by auto
  have al: "4 dvd (2::nat) ^ max k 2" using le_imp_power_dvd [of 2 "max k 2" "2::nat"] by simp
  from find_fit_props [OF fit b(5) rq al _ b(6)] obtain bz where
    bz: "live_at (base A + 8) bs = insert (q, bz) (live_at (base A + 8) (blocks A))" by auto
  have lv: "(q, bz) \<in> live [A\<lparr>blocks := merge_blocks bs\<rparr>]" using bz by simp
  have u: "unat p = q" using live_header(7) [OF wf0 lv] p by (simp add: unat_of_nat_u32)
  have s1: "s1 = s0" using m(2) ValidateMalloc_refines [OF wf0 f [OF wf0]] by simp
  from free_refines [OF wf0 f [OF wf0], of p bz] lv u obtain s2 where
    s2: "free n s0 p = Inr s2" "heap_wf s2 [A\<lparr>blocks := merge_blocks (release q (base A + 8) (merge_blocks bs))\<rparr>]"
    by (auto simp: release_arenas_def cong: if_cong)
  have "merge_blocks (release q (base A + 8) (merge_blocks bs)) = blocks A"
    using find_fit_release [OF fit b(5) rq al _ b(6)] merge_merged [OF assms(2)] by simp
  then have "heap_wf s2 [A]" using s2(2) by simp
  with s2(1) s1 GetAvailMemory_refines [OF _ f] assms(1) show ?thesis by auto
qed

theorem malloc_free_roundtrip_witness:
  "\<exists>p s1 s2. malloc 0x10000000 None () example_heap 8 4 = Inr (p, (), s1) \<and> free 0x10000000 s1 p = Inr s2
    \<and> heap_wf s2 [fresh_arena 0x1000 0x100] \<and> GetAvailMemory 0x10000000 s2 = GetAvailMemory 0x10000000 example_heap"
proof -
  have nb: "\<not> bad_request 8 4" by (simp add: bad_request_def IsPowerOf2_def)
  have "find_arena (request_size 8) (max (unat (4 :: u32)) 4) [fresh_arena 0x1000 0x100] \<noteq> None"
    by (simp add: request_size_def round_up_def split_free_def split_front_def)
  with malloc_no_ask [OF example_heap_wf order_refl, of 8 "()" 4] nb obtain p s1 where
    m: "malloc 0x10000000 None () example_heap 8 4 = Inr (p, (), s1)" "p \<noteq> 0" by auto
  from malloc_free_roundtrip [OF example_heap_wf _ order_refl m] m show ?thesis by simp
qed

text \<open>\<open>MergeMallocHeaders\<close> never changes the live blocks; it joins adjacent free blocks in the allocations
  up to the first one whose last block is free and leaves all later allocations as they are.\<close>

theorem merge_stops_at_free_end:
  assumes "heap_wf s (Xs @ A # Ys)" "0x10000000 \<le> n" "\<forall>X \<in> set Xs. \<not> ends_free (blocks X)" "ends_free (blocks A)"
  shows "\<exists>s'. MergeMallocHeaders n s = Inr s'
    \<and> heap_wf s' (map (\<lambda>X. X\<lparr>blocks := merge_blocks (blocks X)\<rparr>) Xs @ A\<lparr>blocks := merge_blocks (blocks A)\<rparr> # Ys)
    \<and> live (map (\<lambda>X. X\<lparr>blocks := merge_blocks (blocks X)\<rparr>) Xs @ A\<lparr>blocks := merge_blocks (blocks A)\<rparr> # Ys) = live (Xs @ A # Ys)"
proof -
  have e: "merge_arenas (Xs @ A # Ys) = map (\<lambda>X. X\<lparr>blocks := merge_blocks (blocks X)\<rparr>) Xs @ A\<lparr>blocks := merge_blocks (blocks A)\<rparr> # Ys"
    using assms(3,4) by (induction Xs) auto
  have ok: "arenas_ok (Xs @ A # Ys)" using assms(1) by (simp add: heap_wf_def)
  show ?thesis
    using MergeMallocHeaders_refines [OF assms(1) heap_fuel_enough [OF ok assms(2)]] merge_arenas_props(1) [OF ok]
    unfolding e by blast
qed

theorem merge_stops_at_free_end_witness:
  "\<exists>s'. MergeMallocHeaders 0x10000000 example_used = Inr s' \<and> heap_wf s' [example_arena]"
  using merge_stops_at_free_end [of example_used "[]" example_arena "[]" "0x10000000"] example_used_wf
  by (simp add: example_arena_def ends_free_def)


lemma Partition_zero:
  assumes m: "mem s (word_of_nat h) = hdr (word_of_nat sz) False" and sz: "4 dvd sz" "4 < sz" "sz \<le> 0x400000"
    and h: "4 dvd h" "h + 4 + sz \<le> 0xFFC00000"
  shows "Partition (Suc n) s (word_of_nat h) 0 kMinAlign = Inl Assert_failed"
proof -
  note rd = hdr_read [OF m]
  have v: "IsValid s (word_of_nat h)" using m sz h by (intro IsValid_nat) auto
  have al: "(word_of_nat h + 4 :: u32) \<noteq> 0" "kMinAlign \<le> push_bit (ctz (word_of_nat h + 4)) 1"
    using align_test [of h 2] h by (auto simp: kMinAlign_def kMinSize_def)
  let ?n = "word_of_nat h + 4 :: u32"
  let ?s2 = "write_word s ?n (hdr (word_of_nat (sz - 4)) False)"
  have r: "0 < sz - 4" "4 dvd sz - 4" "sz - 4 < 2147483648" using sz by (auto intro: dvd_diff_nat)
  have "setSize s ?n (word_of_nat (sz - 4)) = Inr (write_word s ?n (hdr (word_of_nat (sz - 4)) (isUsed s ?n)))"
    by (rule setSize_nat [OF r])
  moreover have "setUsed (write_word s ?n (hdr (word_of_nat (sz - 4)) (isUsed s ?n))) ?n False = ?s2"
    by (rule setUsed_write [OF r(3)])
  moreover have "setSize ?s2 (word_of_nat h) 0 = Inl Assert_failed" by (simp add: setSize_def check_def)
  moreover have "(word_of_nat sz :: u32) - 4 = word_of_nat (sz - 4)" using sz by (simp add: of_nat_diff)
  moreover have "(word_of_nat sz :: u32) \<noteq> 0" "(word_of_nat sz :: u32) \<noteq> 4" "(4 :: u32) \<le> word_of_nat sz"
    using of_nat_eq_u32 [of sz 0] of_nat_eq_u32 [of sz 4] of_nat_le_u32 [of 4 sz] sz by auto
  ultimately show ?thesis using rd v al sz(3)
    by (simp add: sizeof_MallocHeader_def Let_def)
qed

text \<open>A request within three bytes of 2^32 makes the rounding of the size wrap to 0: on a heap of one
  free block \<open>malloc\<close> fails an assertion instead of returning null.\<close>

theorem malloc_size_wraps:
  assumes "heap_wf s [fresh_arena b asz]" "0x10000000 \<le> n" "16 < asz" "0xFFFFFFFD \<le> unat sz"
  shows "malloc n gask k s sz kMinAlign = Inl Assert_failed"
proof -
  let ?A = "fresh_arena b asz"
  have ok: "arena_ok ?A" and hp: "heap_at (mem s) (gFirstAlloc s) [?A]" using assms(1) by (auto simp: heap_wf_def)
  have f: "heap_fuel n [?A]" using assms(2) by (simp add: heap_fuel_def)
  obtain n' where n: "n = Suc n'" using assms(2) by (cases n) auto
  have b: "4 dvd b" "b + asz \<le> 0xFFC00000" "asz \<le> 0x400000" "4 dvd asz - 12"
    using ok assms(3) by (auto simp: arena_ok_def block_ok_def)
  have "unat sz \<in> {0xFFFFFFFD, 0xFFFFFFFE, 0xFFFFFFFF}" using assms(4) unat_lt_u32 [of sz] by auto
  then have "request_size sz = 4294967296" by (auto simp: request_size_def round_up_def)
  then have r: "RoundUp (max sz kMinSize) kMinAlign = Inr 0" by (simp add: RoundUp_request)
  have z: "sz \<noteq> 0" "IsPowerOf2 kMinAlign" using assms(4) by (auto simp: kMinAlign_def kMinSize_def IsPowerOf2_def)
  have m8: "mem s (word_of_nat (b + 8)) = hdr (word_of_nat (asz - 12)) False" using hp by simp
  have rd: "getSize s (word_of_nat (b + 8)) = word_of_nat (asz - 12)" "\<not> isUsed s (word_of_nat (b + 8))"
    using hdr_read [OF m8] b(3) by auto
  have "Partition n s (word_of_nat (b + 8)) 0 kMinAlign = Inl Assert_failed"
    unfolding n by (rule Partition_zero [OF m8]) (use b assms(3) in auto)
  with rd have cb: "search_callback n 0 kMinAlign s (word_of_nat (b + 8)) al az x = Inl Assert_failed" for al az x
    by (simp add: search_callback_def)
  have "word_of_nat (b + 8) < (word_of_nat (b + asz) :: u32)" using b assms(3) by (subst of_nat_less_u32) auto
  then have "IterMallocHeaders n (search_callback n 0 kMinAlign) s 0 = Inl Assert_failed"
    using iter_allocs_step [OF ok hp, of n' n "search_callback n 0 kMinAlign" 0] cb n assms(3)
    by (simp add: IterMallocHeaders_def)
  then show ?thesis
    using r z GetAvailMemory_refines [OF assms(1) f]
    by (simp add: malloc_def MallocImpl_def SizeFits_def)
qed


theorem malloc_size_wraps_witness: "malloc 0x10000000 None () example_heap 0xFFFFFFFF kMinAlign = Inl Assert_failed"
  by (rule malloc_size_wraps [OF example_heap_wf order_refl]) simp_all





end
