(* ===== verification/Boot.thy ===== *)
theory Boot
  imports Hardware Malloc_Props
begin

text \<open>
  Starting the kernel: \<open>src/kernel/multiboot.cpp\<close> and \<open>multiboot.h\<close>, \<open>kmalloc.cpp\<close> and \<open>main.cpp\<close>. The state
  of the whole machine is the record \<open>machine\<close>: the kernel's state with the heap, the ports, the
  descriptor tables and the interrupt handlers. What the linker and \<open>new\<close> decide (addresses) is in
  \<open>boot_env\<close>; the boot loader's structures are read through a function from addresses.
  The self-tests, \<open>KernelSetup\<close> as a whole and \<open>kernel_main\<close> are in \<open>KernelTests\<close>.
\<close>

section \<open>The boot loader's information\<close>

record multiboot_memory_map_t =
  mm_size :: u32
  mm_addr :: u64
  mm_len :: u64
  mm_type :: u32

definition MULTIBOOT_BOOTLOADER_MAGIC :: u32 where "MULTIBOOT_BOOTLOADER_MAGIC = 0x2BADB002"
definition MULTIBOOT_MEMORY_AVAILABLE :: u32 where "MULTIBOOT_MEMORY_AVAILABLE = 1"
definition sizeof_memory_map :: nat where "sizeof_memory_map = 24"

record Multiboot =
  mb_flags :: u32
  mb_mem_lower :: u32
  mb_mem_upper :: u32
  mb_boot_device :: u32
  mb_cmdline :: u32
  mb_mods_count :: u32
  mb_mods_addr :: u32
  mb_u :: "u32 \<times> u32 \<times> u32 \<times> u32"
  mb_mmap_length :: u32
  mb_mmap_addr :: u32

record ModuleInfo =
  mod_start :: u32
  mod_end :: u32
  mod_cmdline :: u32
  mod_padding :: u32

definition hasFlag :: "Multiboot \<Rightarrow> nat \<Rightarrow> bool" where
  "hasFlag b i \<longleftrightarrow> mb_flags b AND push_bit i 1 \<noteq> 0"

definition hasModules :: "Multiboot \<Rightarrow> bool" where "hasModules b = hasFlag b 3"
definition hasMmap :: "Multiboot \<Rightarrow> bool" where "hasMmap b = hasFlag b 6"

definition getMemUpper :: "Multiboot \<Rightarrow> u32 result" where
  "getMemUpper b = check (hasFlag b 0) (Inr (mb_mem_upper b))"

text \<open>\<open>IterMmap\<close>: the loop ends when the address passes the end; an entry whose size field is \<open>-4\<close> would
  make it run forever, so it has fuel. \<open>rd\<close> reads the entry at an address.\<close>

fun iter_mmap :: "nat \<Rightarrow> (u32 \<Rightarrow> multiboot_memory_map_t) \<Rightarrow> u32 \<Rightarrow> u32 \<Rightarrow> (multiboot_memory_map_t \<Rightarrow> 'a \<Rightarrow> 'a) \<Rightarrow> 'a \<Rightarrow> 'a result" where
  "iter_mmap 0 rd addr fin callback x = Inl Out_of_fuel"
| "iter_mmap (Suc n) rd addr fin callback x =
     (if addr < fin then let e = rd addr in iter_mmap n rd (addr + (mm_size e + 4)) fin callback (callback e x) else Inr x)"

definition IterMmap :: "nat \<Rightarrow> (u32 \<Rightarrow> multiboot_memory_map_t) \<Rightarrow> Multiboot \<Rightarrow> (multiboot_memory_map_t \<Rightarrow> 'a \<Rightarrow> 'a) \<Rightarrow> 'a \<Rightarrow> 'a result" where
  "IterMmap n rd b callback x = check (hasMmap b) (iter_mmap n rd (mb_mmap_addr b) (mb_mmap_addr b + mb_mmap_length b) callback x)"

text \<open>The callback of \<open>getMmap\<close>: the entries copied so far and the count, which may exceed the buffer.\<close>

definition copy_entry :: "nat \<Rightarrow> multiboot_memory_map_t \<Rightarrow> multiboot_memory_map_t list \<times> nat \<Rightarrow> multiboot_memory_map_t list \<times> nat" where
  "copy_entry buffer_size e = (\<lambda>(buf, num).
     if (num + 1) * sizeof_memory_map > buffer_size then (buf, num + 1) else (buf @ [e], num + 1))"

text \<open>\<open>Dump\<close>: its assertions and its walk along the entries.\<close>

definition Multiboot_Dump :: "nat \<Rightarrow> (u32 \<Rightarrow> multiboot_memory_map_t) \<Rightarrow> Multiboot \<Rightarrow> unit result" where
  "Multiboot_Dump n rd b =
     check (hasFlag b 0) (check (\<not> (hasFlag b 4 \<and> hasFlag b 5)) (if hasMmap b then IterMmap n rd b (\<lambda>_ x. x) () else Inr ()))"

definition getMmap :: "nat \<Rightarrow> (u32 \<Rightarrow> multiboot_memory_map_t) \<Rightarrow> Multiboot \<Rightarrow> nat \<Rightarrow> (multiboot_memory_map_t list \<times> nat) result" where
  "getMmap n rd b buffer_size = check (hasMmap b) (IterMmap n rd b (copy_entry buffer_size) ([], 0))"

section \<open>Physical pages at boot\<close>

definition RoundUp64 :: "u64 \<Rightarrow> u64 \<Rightarrow> u64 result" where
  "RoundUp64 x align = check (align \<noteq> 0 \<and> align AND (align - 1) = 0) (Inr ((x + (align - 1)) AND NOT (align - 1)))"

definition AddrToPage64 :: "u64 \<Rightarrow> nat" where
  "AddrToPage64 addr = unat (addr div ucast kPageSize4M)"

text \<open>The two \<open>do\<close> loops of \<open>InitPmm\<close>.\<close>

function free_range :: "pmm \<Rightarrow> nat \<Rightarrow> nat \<Rightarrow> pmm result" where
  "free_range s start_page end_page =
     bindr (PageIsUsed s start_page) (\<lambda>used.
     bindr (if used then SetPageFree s start_page else Inr s) (\<lambda>s'.
     if Suc start_page < end_page then free_range s' (Suc start_page) end_page else Inr s'))"
  by pat_completeness auto
termination by (relation "measure (\<lambda>(s, p, e). e - p)") auto

function use_range :: "pmm \<Rightarrow> nat \<Rightarrow> nat \<Rightarrow> pmm result" where
  "use_range s start_page end_page =
     bindr (PageIsUsed s start_page) (\<lambda>used.
     bindr (if \<not> used then SetPageUsed s start_page else Inr s) (\<lambda>s'.
     if Suc start_page < end_page then use_range s' (Suc start_page) end_page else Inr s'))"
  by pat_completeness auto
termination by (relation "measure (\<lambda>(s, p, e). e - p)") auto

declare free_range.simps [simp del] use_range.simps [simp del]

definition free_available :: "multiboot_memory_map_t \<Rightarrow> pmm \<Rightarrow> pmm result" where
  "free_available e s =
     (if mm_type e = MULTIBOOT_MEMORY_AVAILABLE
      then check (mm_addr e \<le> 0xFFFFFFFF) (check (mm_len e \<le> 0xFFFFFFFF)
        (let start = ucast (mm_addr e) :: u32 in
         check (start + ucast (mm_len e) \<ge> start)
         (bindr (RoundUp (start + ucast (mm_len e)) kPageSize4M) (\<lambda>fin.
          let start_page = AddrToPage start; end_page = AddrToPage fin in
          check (end_page > start_page) (free_range s start_page end_page)))))
      else Inr s)"

definition use_reserved :: "multiboot_memory_map_t \<Rightarrow> pmm \<Rightarrow> pmm result" where
  "use_reserved e s =
     (if mm_type e \<noteq> MULTIBOOT_MEMORY_AVAILABLE \<and> mm_len e > 0
      then check (mm_addr e \<le> 0xFFFFFFFF) (check (mm_len e \<le> 0xFFFFFFFF)
        (let start = mm_addr e in
         check (start + mm_len e \<ge> start)
         (bindr (RoundUp64 (start + mm_len e) (ucast kPageSize4M)) (\<lambda>fin.
          let start_page = AddrToPage64 start; end_page = AddrToPage64 fin in
          check (end_page > start_page) (use_range s start_page end_page)))))
      else Inr s)"

fun for_entries :: "('e \<Rightarrow> pmm \<Rightarrow> pmm result) \<Rightarrow> 'e list \<Rightarrow> pmm \<Rightarrow> pmm result" where
  "for_entries f [] s = Inr s"
| "for_entries f (e # es) s = bindr (f e s) (for_entries f es)"

definition InitPmm :: "pmm \<Rightarrow> u32 \<Rightarrow> u32 \<Rightarrow> multiboot_memory_map_t list \<Rightarrow> pmm result" where
  "InitPmm s0 mem_upper kernel_begin mmaps =
     bindr (pmm_Initialize s0 mem_upper) (\<lambda>s1.
     bindr (GetNumFree4MPages s1) (\<lambda>free_pages. check (free_pages = GetNum4MPages s1)
     (bindr (SetPageUsed s1 (AddrToPage kernel_begin)) (\<lambda>s2.
      bindr (for_entries free_available mmaps s2) (\<lambda>s3.
      bindr (for_entries use_reserved mmaps s3) (\<lambda>s4.
      bindr (PageIsUsed s4 (AddrToPage kernel_begin)) (\<lambda>used. check (\<not> used)
       (SetPageUsed s4 (AddrToPage kernel_begin)))))))))"

section \<open>The kernel's heap\<close>

definition AskForMoreKernelSpace :: "kernel ask_for_more" where
  "AskForMoreKernelSpace k =
     bindr (load_pd (paging_of k) GetKernelPageDirectory) (\<lambda>pd.
     let free_vpage = getNextFreePage pd 1 in
     check (free_vpage \<ge> 0)
     (let page_vaddr = PageToAddr (nat free_vpage) in
      bindr (GetNextFreePage (pmm_of k)) (\<lambda>free_ppage. check (free_ppage \<ge> 0)
      (bindr (MapPage pd page_vaddr (PageToAddr (nat free_ppage)) 0) (\<lambda>pd'.
       bindr (SetPageUsed (pmm_of k) (nat free_ppage)) (\<lambda>p'.
       Inr (page_vaddr, kPageSize4M, k\<lparr>paging_of := store_pd (paging_of k) GetKernelPageDirectory pd', pmm_of := p'\<rparr>)))))))"

definition kmalloc_Initialize :: "nat \<Rightarrow> u32 \<Rightarrow> kernel \<Rightarrow> mstate \<Rightarrow> (kernel \<times> mstate) result" where
  "kmalloc_Initialize fuel kernel_begin k h =
     (let kmalloc_vaddr = kernel_begin + kPageSize4M; cur = GetCurrentPageDirectory (paging_of k) in
      bindr (load_pd (paging_of k) cur) (\<lambda>pd.
      bindr (VaddrIsMapped pd kmalloc_vaddr) (\<lambda>mapped. check (\<not> mapped)
      (bindr (GetNextFreePage (pmm_of k)) (\<lambda>free_ppage. check (free_ppage \<ge> 0)
       (bindr (PageIsUsed (pmm_of k) (nat free_ppage)) (\<lambda>used. check (\<not> used)
        (bindr (SetPageUsed (pmm_of k) (nat free_ppage)) (\<lambda>p'.
         bindr (MapPage pd kmalloc_vaddr (word_of_nat (nat free_ppage) * kPageSize4M) 0) (\<lambda>pd'.
         bindr (malloc_Initialize fuel h kmalloc_vaddr kPageSize4M) (\<lambda>h'.
         Inr (k\<lparr>paging_of := store_pd (paging_of k) cur pd', pmm_of := p'\<rparr>, h'))))))))))))"

text \<open>\<open>kmalloc\<close>, \<open>kfree\<close>, \<open>GetAvailMemory\<close>: the library allocator with \<open>AskForMoreKernelSpace\<close>.\<close>

definition kmalloc :: "nat \<Rightarrow> kernel \<Rightarrow> mstate \<Rightarrow> u32 \<Rightarrow> u32 \<Rightarrow> (u32 \<times> kernel \<times> mstate) result" where
  "kmalloc fuel k h sz align = malloc fuel (Some AskForMoreKernelSpace) k h sz align"

section \<open>The start of the kernel\<close>

record boot_env =
  be_fuel :: nat
  kernel_begin_addr :: u32
  kernel_end_addr :: u32
  gdt_addr :: u32
  tss_addr :: u32
  idt_addr :: u32
  isr_addr :: "nat \<Rightarrow> u32"
  irq_addr :: "nat \<Rightarrow> u32"
  ktask_addr :: u32
  kstack_addr :: u32
  knode_addr :: u32
  upd_addr :: u32
  utask_addr :: u32
  ustack_addr :: u32
  unode_addr :: u32

record machine =
  mkernel :: kernel
  mheap :: mstate
  mports :: ports
  mgdt :: gdt_state
  midt :: idt_state
  mhandlers :: handler_table
  menabled :: bool

definition JumpToUserMode :: "boot_env \<Rightarrow> machine \<Rightarrow> u32 \<Rightarrow> u32 \<Rightarrow> machine result" where
  "JumpToUserMode b m initrd_start initrd_end =
     (let k = mkernel m in
      check (\<not> menabled m) (check (initrd_start < initrd_end)
      (bindr (Clone (paging_of k) GetKernelPageDirectory (upd_addr b)) (\<lambda>(user_pd, p1).
       bindr (load_pd p1 (GetCurrentPageDirectory p1)) (\<lambda>cur.
       let free_vpage = getNextFreePage cur 1 in
       check (free_vpage > 0)
       (let user_start = PageToAddr (nat free_vpage) in
        bindr (GetNextFreePage (pmm_of k)) (\<lambda>free_ppage. check (free_ppage \<ge> 0)
        (bindr (load_pd p1 user_pd) (\<lambda>upd.
         bindr (MapPage upd user_start (PageToAddr (nat free_ppage)) PG_USER) (\<lambda>upd'.
         bindr (Memcpy_from_current (store_pd p1 user_pd upd') user_pd user_start initrd_start (unat (min (initrd_end - initrd_start) kPageSize4M))) (\<lambda>p2.
         let k1 = k\<lparr>paging_of := p2\<rparr> in
         bindr (new_Task k1 (utask_addr b) (ustack_addr b) True user_pd (gKernelTask k1)) (\<lambda>k2.
         bindr (get_task k2 (utask_addr b)) (\<lambda>tk.
         let k3 = set_task k2 (utask_addr b) (tk\<lparr>task_regs := (task_regs tk)\<lparr>r_eip := user_start\<rparr>\<rparr>) in
         bindr (RegisterTask (be_fuel b) k3 (unode_addr b) (utask_addr b)) (\<lambda>k4.
         Inr (m\<lparr>mkernel := k4, menabled := True\<rparr>)))))))))))))))"

text \<open>\<open>KernelSetup\<close> up to the self-tests.\<close>

definition kernel_setup_components :: "boot_env \<Rightarrow> machine \<Rightarrow> u32 \<Rightarrow> multiboot_memory_map_t list \<Rightarrow> machine result" where
  "kernel_setup_components b m mem_upper mmaps =
     check (kernel_begin_addr b mod kPageSize4M = 0)
     (check (kernel_end_addr b - kernel_begin_addr b \<le> kPageSize4M)
      (bindr (InitPmm (pmm_of (mkernel m)) mem_upper (kernel_begin_addr b) mmaps) (\<lambda>p1.
       bindr (paging_Initialize (kernel_begin_addr b) (kernel_end_addr b) p1 (paging_of (mkernel m))) (\<lambda>g1.
       bindr (kmalloc_Initialize (be_fuel b) (kernel_begin_addr b) ((mkernel m)\<lparr>pmm_of := p1, paging_of := g1\<rparr>) (mheap m)) (\<lambda>(k1, h1).
       bindr (gdt_Initialize (gdt_addr b) (tss_addr b) (mgdt m)) (\<lambda>gdt1.
       let idt1 = isr_Initialize (isr_addr b) (idt_Initialize (idt_addr b));
           (io1, idt2) = irq_Initialize (irq_addr b) (mports m) idt1;
           io2 = timer_Initialize io1 in
       bindr (scheduler_Initialize k1 (ktask_addr b) (kstack_addr b) (knode_addr b)) (\<lambda>k2.
       bindr (InitializeHandlers (mhandlers m)) (\<lambda>t1.
       Inr (m\<lparr>mkernel := k2\<lparr>chans_of := channel_Initialize\<rparr>, mheap := h1, mports := io2, mgdt := gdt1, midt := idt2, mhandlers := t1\<rparr>)))))))))"

section \<open>Physical pages at boot\<close>

text \<open>The pages an entry of the memory map touches, and the entries \<open>InitPmm\<close> accepts.\<close>

definition entry_pages :: "multiboot_memory_map_t \<Rightarrow> nat set" where
  "entry_pages e = {unat (mm_addr e) div 0x400000..<(unat (mm_addr e) + unat (mm_len e) + 0x3FFFFF) div 0x400000}"

definition available :: "multiboot_memory_map_t \<Rightarrow> bool" where
  "available e \<longleftrightarrow> mm_type e = MULTIBOOT_MEMORY_AVAILABLE"

definition entry_ok :: "multiboot_memory_map_t \<Rightarrow> bool" where
  "entry_ok e \<longleftrightarrow> 0 < unat (mm_len e) \<and> unat (mm_len e) \<le> 0xFFFFFFFF \<and> unat (mm_addr e) \<le> 0xFFFFFFFF
     \<and> unat (mm_addr e) + unat (mm_len e) \<le> (if available e then 0xFFC00000 else 0x100000000)"

lemma free_range_wf:
  assumes "pmm_wf s" "p < e" "e \<le> 1024"
  shows "\<exists>s'. free_range s p e = Inr s' \<and> pmm_wf s' \<and> used_pages s' = used_pages s - {p..<e} \<and> gNum4MPages s' = gNum4MPages s"
  using assms
proof (induction "e - p" arbitrary: s p)
  case (Suc d)
  have p: "p < kNumPageDirEntries" using Suc.prems by (simp add: kNumPageDirEntries_def)
  obtain s1 where s1: "(if p \<in> used_pages s then SetPageFree s p else Inr s) = Inr s1" "pmm_wf s1" "used_pages s1 = used_pages s - {p}"
    "gNum4MPages s1 = gNum4MPages s"
  proof (cases "p \<in> used_pages s")
    case True
    with frames.set_free_total [OF Suc.prems(1)] obtain s1 where "SetPageFree s p = Inr s1" by blast
    with SetPageFree_used [OF Suc.prems(1) p] True that show thesis by simp
  qed (use Suc.prems that in auto)
  have r: "{p..<e} = insert p {Suc p..<e}" using Suc.prems(2) by auto
  have f: "free_range s p e = (if Suc p < e then free_range s1 (Suc p) e else Inr s1)"
    using s1(1) PageIsUsed_wf [OF Suc.prems(1) p] by (subst free_range.simps) simp
  show ?case
  proof (cases "Suc p < e")
    case True
    then have "d = e - Suc p" using Suc.hyps(2) by simp
    from Suc.hyps(1) [OF this s1(2) True Suc.prems(3)] f True s1(3,4) r show ?thesis by auto
  next
    case False
    then have "{p..<e} = {p}" using Suc.prems(2) by auto
    with f False s1 show ?thesis by simp
  qed
qed simp

lemma use_range_wf:
  assumes "pmm_wf s" "p < e" "e \<le> 1024"
  shows "\<exists>s'. use_range s p e = Inr s' \<and> pmm_wf s' \<and> used_pages s' = used_pages s \<union> {p..<e} \<and> gNum4MPages s' = gNum4MPages s"
  using assms
proof (induction "e - p" arbitrary: s p)
  case (Suc d)
  have p: "p < kNumPageDirEntries" using Suc.prems by (simp add: kNumPageDirEntries_def)
  obtain s1 where s1: "(if p \<notin> used_pages s then SetPageUsed s p else Inr s) = Inr s1" "pmm_wf s1" "used_pages s1 = insert p (used_pages s)"
    "gNum4MPages s1 = gNum4MPages s"
  proof (cases "p \<in> used_pages s")
    case False
    with frames.set_used_total [OF Suc.prems(1) p] obtain s1 where "SetPageUsed s p = Inr s1" by blast
    with SetPageUsed_used [OF Suc.prems(1) p] False that show thesis by simp
  qed (use Suc.prems that in auto)
  have r: "{p..<e} = insert p {Suc p..<e}" using Suc.prems(2) by auto
  have f: "use_range s p e = (if Suc p < e then use_range s1 (Suc p) e else Inr s1)"
    using s1(1) PageIsUsed_wf [OF Suc.prems(1) p] by (subst use_range.simps) simp
  show ?case
  proof (cases "Suc p < e")
    case True
    then have "d = e - Suc p" using Suc.hyps(2) by simp
    from Suc.hyps(1) [OF this s1(2) True Suc.prems(3)] f True s1(3,4) r show ?thesis by auto
  next
    case False
    then have "{p..<e} = {p}" using Suc.prems(2) by auto
    with f False s1 show ?thesis by simp
  qed
qed simp

lemma entry_pages_bounds:
  assumes "entry_ok e"
  shows "unat (mm_addr e) div 0x400000 < (unat (mm_addr e) + unat (mm_len e) + 0x3FFFFF) div 0x400000"
    "(unat (mm_addr e) + unat (mm_len e) + 0x3FFFFF) div 0x400000 \<le> 1024"
proof -
  have "unat (mm_addr e) + 0x400000 \<le> unat (mm_addr e) + unat (mm_len e) + 0x3FFFFF" using assms by (simp add: entry_ok_def)
  then have "(unat (mm_addr e) + 0x400000) div 0x400000 \<le> (unat (mm_addr e) + unat (mm_len e) + 0x3FFFFF) div 0x400000" by (rule div_le_mono)
  then show "unat (mm_addr e) div 0x400000 < (unat (mm_addr e) + unat (mm_len e) + 0x3FFFFF) div 0x400000" by simp
  have "unat (mm_addr e) + unat (mm_len e) \<le> 0x100000000" using assms by (auto simp: entry_ok_def split: if_splits)
  then have "unat (mm_addr e) + unat (mm_len e) + 0x3FFFFF \<le> 0x1003FFFFF" by simp
  then have "(unat (mm_addr e) + unat (mm_len e) + 0x3FFFFF) div 0x400000 \<le> 0x1003FFFFF div 0x400000" by (rule div_le_mono)
  then show "(unat (mm_addr e) + unat (mm_len e) + 0x3FFFFF) div 0x400000 \<le> 1024" by simp
qed

lemma ucast_u64_u32: "unat (x :: u64) \<le> 0xFFFFFFFF \<Longrightarrow> unat (ucast x :: u32) = unat x"
  by (simp add: unsigned_ucast_eq take_bit_eq_mod)

lemma free_available_wf:
  assumes "pmm_wf s" "entry_ok e"
  shows "\<exists>s'. free_available e s = Inr s' \<and> pmm_wf s' \<and> used_pages s' = used_pages s - (if available e then entry_pages e else {})
    \<and> gNum4MPages s' = gNum4MPages s"
proof (cases "available e")
  case True
  let ?a = "ucast (mm_addr e) :: u32" and ?l = "ucast (mm_len e) :: u32"
  have b: "unat (mm_addr e) + unat (mm_len e) \<le> 0xFFC00000" "0 < unat (mm_len e)" using assms(2) True by (auto simp: entry_ok_def)
  then have u: "unat ?a = unat (mm_addr e)" "unat ?l = unat (mm_len e)" by (auto intro!: ucast_u64_u32)
  then have sum: "unat (?a + ?l) = unat (mm_addr e) + unat (mm_len e)" using b by (subst unat_add_u32) auto
  then have "unat (?a + ?l) \<le> 0xFFC00000" using b(1) by simp
  from RoundUp_page [OF this] obtain f where f: "RoundUp (?a + ?l) kPageSize4M = Inr f" "AddrToPage f = (unat (mm_addr e) + unat (mm_len e) + 0x3FFFFF) div 0x400000"
    using sum by (auto simp: AddrToPage_def)
  have sp: "AddrToPage ?a = unat (mm_addr e) div 0x400000" using u(1) by (simp add: AddrToPage_def unat_div kPageSize4M_def)
  have le: "mm_addr e \<le> 0xFFFFFFFF" "mm_len e \<le> 0xFFFFFFFF" "?a \<le> ?a + ?l" using b sum u by (simp_all add: word_le_nat_alt)
  note bnd = entry_pages_bounds [OF assms(2)]
  have "free_available e s = free_range s (unat (mm_addr e) div 0x400000) ((unat (mm_addr e) + unat (mm_len e) + 0x3FFFFF) div 0x400000)"
    using True le f sp bnd(1) by (simp add: free_available_def available_def Let_def)
  with free_range_wf [OF assms(1) bnd] True show ?thesis by (simp add: entry_pages_def)
next
  case False
  then show ?thesis using assms(1) by (auto simp: free_available_def available_def)
qed

lemma drop_bit_not_mask: "drop_bit k ((y :: u64) AND NOT (mask k)) = drop_bit k y"
  by (rule bit_word_eqI) (auto simp: bit_simps dest: bit_imp_le_length)

lemma RoundUp64_page:
  assumes "unat x \<le> 0x100000000"
  shows "\<exists>r. RoundUp64 x (ucast kPageSize4M) = Inr r \<and> AddrToPage64 r = (unat x + 0x3FFFFF) div 0x400000"
proof -
  have k: "(ucast kPageSize4M :: u64) = 2 ^ 22" by (simp add: kPageSize4M_def)
  let ?y = "x + (2 ^ 22 - 1)"
  have "unat ?y = unat x + 0x3FFFFF" using assms by (simp add: unat_plus_if')
  moreover have "(?y AND NOT (2 ^ 22 - 1)) div 2 ^ 22 = drop_bit 22 ?y"
    unfolding drop_bit_eq_div [symmetric] mask_eq_exp_minus_1 [symmetric] by (rule drop_bit_not_mask)
  moreover have "unat (drop_bit 22 ?y) = unat ?y div 2 ^ 22" by (simp add: unsigned_drop_bit_eq drop_bit_eq_div unat_div)
  moreover have "(2 ^ 22 :: u64) \<noteq> 0 \<and> (2 ^ 22 :: u64) AND (2 ^ 22 - 1) = 0" by simp
  ultimately show ?thesis unfolding RoundUp64_def AddrToPage64_def k by simp
qed

lemma use_reserved_wf:
  assumes "pmm_wf s" "entry_ok e"
  shows "\<exists>s'. use_reserved e s = Inr s' \<and> pmm_wf s' \<and> used_pages s' = used_pages s \<union> (if available e then {} else entry_pages e)
    \<and> gNum4MPages s' = gNum4MPages s"
proof (cases "available e")
  case False
  have b: "unat (mm_addr e) + unat (mm_len e) \<le> 0x100000000" "0 < unat (mm_len e)" "unat (mm_addr e) \<le> 0xFFFFFFFF" "unat (mm_len e) \<le> 0xFFFFFFFF"
    using assms(2) False by (auto simp: entry_ok_def)
  have sum: "unat (mm_addr e + mm_len e) = unat (mm_addr e) + unat (mm_len e)" using b(1) by (simp add: unat_plus_if')
  then have "unat (mm_addr e + mm_len e) \<le> 0x100000000" using b(1) by simp
  from RoundUp64_page [OF this] obtain f where f: "RoundUp64 (mm_addr e + mm_len e) (ucast kPageSize4M) = Inr f"
      "AddrToPage64 f = (unat (mm_addr e) + unat (mm_len e) + 0x3FFFFF) div 0x400000"
    using sum by auto
  have sp: "AddrToPage64 (mm_addr e) = unat (mm_addr e) div 0x400000" by (simp add: AddrToPage64_def unat_div kPageSize4M_def)
  have le: "mm_addr e \<le> 0xFFFFFFFF" "mm_len e \<le> 0xFFFFFFFF" "mm_addr e \<le> mm_addr e + mm_len e" "0 < mm_len e"
    using b sum by (simp_all add: word_le_nat_alt word_less_nat_alt)
  note bnd = entry_pages_bounds [OF assms(2)]
  have "use_reserved e s = use_range s (unat (mm_addr e) div 0x400000) ((unat (mm_addr e) + unat (mm_len e) + 0x3FFFFF) div 0x400000)"
    using False le f sp bnd(1) by (simp add: use_reserved_def available_def Let_def)
  with use_range_wf [OF assms(1) bnd] False show ?thesis by (simp add: entry_pages_def)
next
  case True
  then show ?thesis using assms(1) by (auto simp: use_reserved_def available_def)
qed


definition available_pages :: "multiboot_memory_map_t list \<Rightarrow> nat set" where
  "available_pages es = (\<Union>e \<in> {e \<in> set es. available e}. entry_pages e)"

definition reserved_pages :: "multiboot_memory_map_t list \<Rightarrow> nat set" where
  "reserved_pages es = (\<Union>e \<in> {e \<in> set es. \<not> available e}. entry_pages e)"

lemma pages_Cons:
  "available_pages (e # es) = (if available e then entry_pages e else {}) \<union> available_pages es"
  "reserved_pages (e # es) = (if available e then {} else entry_pages e) \<union> reserved_pages es"
  by (auto simp: available_pages_def reserved_pages_def)

lemma free_entries_wf:
  "pmm_wf s \<Longrightarrow> \<forall>e \<in> set es. entry_ok e \<Longrightarrow>
    \<exists>s'. for_entries free_available es s = Inr s' \<and> pmm_wf s' \<and> used_pages s' = used_pages s - available_pages es \<and> gNum4MPages s' = gNum4MPages s"
proof (induction es arbitrary: s)
  case (Cons e es)
  then have "entry_ok e" by simp
  from free_available_wf [OF Cons.prems(1) this] obtain s1 where s1: "free_available e s = Inr s1" "pmm_wf s1"
    "used_pages s1 = used_pages s - (if available e then entry_pages e else {})" "gNum4MPages s1 = gNum4MPages s" by blast
  with Cons.IH [OF s1(2)] Cons.prems(2) show ?case unfolding pages_Cons by (auto simp: Diff_eq)
qed (simp add: available_pages_def)

lemma use_entries_wf:
  "pmm_wf s \<Longrightarrow> \<forall>e \<in> set es. entry_ok e \<Longrightarrow>
    \<exists>s'. for_entries use_reserved es s = Inr s' \<and> pmm_wf s' \<and> used_pages s' = used_pages s \<union> reserved_pages es \<and> gNum4MPages s' = gNum4MPages s"
proof (induction es arbitrary: s)
  case (Cons e es)
  then have "entry_ok e" by simp
  from use_reserved_wf [OF Cons.prems(1) this] obtain s1 where s1: "use_reserved e s = Inr s1" "pmm_wf s1"
    "used_pages s1 = used_pages s \<union> (if available e then {} else entry_pages e)" "gNum4MPages s1 = gNum4MPages s" by blast
  with Cons.IH [OF s1(2)] Cons.prems(2) show ?case unfolding pages_Cons by auto
qed (simp add: reserved_pages_def)

lemma InitPmm_cases:
  assumes len: "length (gPhysicalBitmap s0) = bitmap_size" and mem: "0 < unat (mem_upper * 1024)" "unat (mem_upper * 1024) \<le> 0xFFC00000"
    and es: "\<forall>e \<in> set es. entry_ok e" and k: "k < pages_of_mem mem_upper"
  shows "if k \<in> available_pages es - reserved_pages es
    then \<exists>s. InitPmm s0 mem_upper (PageToAddr k) es = Inr s \<and> pmm_wf s \<and> gNum4MPages s = pages_of_mem mem_upper
      \<and> used_pages s = insert k (({pages_of_mem mem_upper..<1024} - available_pages es) \<union> reserved_pages es)
    else InitPmm s0 mem_upper (PageToAddr k) es = Inl Assert_failed"
proof -
  let ?g = "pages_of_mem mem_upper"
  obtain s1 where s1: "pmm_Initialize s0 mem_upper = Inr s1" "pmm_wf s1" "gNum4MPages s1 = ?g" "used_pages s1 = {?g..<1024}"
    using Initialize_wf [OF len mem] by blast
  have g: "?g \<le> 1024" using s1(2,3) by (simp add: pmm_wf_def kNumPageDirEntries_def)
  have n: "GetNumFree4MPages s1 = Inr ?g"
    unfolding GetNumFree_wf [OF s1(2)] s1(3) tail_used_count [OF g, of "used_pages s1", unfolded s1(4), OF subset_refl] s1(4)
    by (subst Diff_triv) auto
  have kk: "k < kNumPageDirEntries" "k < 1024" using k g by (simp_all add: kNumPageDirEntries_def)
  have pk: "AddrToPage (PageToAddr k) = k" by (rule AddrToPage_PageToAddr [OF kk(2)])
  have "k \<notin> used_pages s1" using k s1(4) by simp
  then obtain s2 where s2: "SetPageUsed s1 k = Inr s2" using frames.set_used_total [OF s1(2) kk(1)] by blast
  note u2 = SetPageUsed_used [OF s1(2) kk(1) s2]
  obtain s3 where s3: "for_entries free_available es s2 = Inr s3" "pmm_wf s3" "used_pages s3 = used_pages s2 - available_pages es" "gNum4MPages s3 = gNum4MPages s2"
    using free_entries_wf [OF _ es] u2 by blast
  obtain s4 where s4: "for_entries use_reserved es s3 = Inr s4" "pmm_wf s4" "used_pages s4 = used_pages s3 \<union> reserved_pages es" "gNum4MPages s4 = gNum4MPages s3"
    using use_entries_wf [OF s3(2) es] by blast
  have u4: "used_pages s4 = (insert k {?g..<1024} - available_pages es) \<union> reserved_pages es" using s4(3) s3(3) u2 s1(4) by simp
  have run: "InitPmm s0 mem_upper (PageToAddr k) es = check (k \<notin> used_pages s4) (SetPageUsed s4 k)"
    using s1(1,3) n pk s2 s3(1) s4(1) PageIsUsed_wf [OF s4(2) kk(1)] by (simp add: InitPmm_def GetNum4MPages_def)
  have free: "k \<notin> used_pages s4 \<longleftrightarrow> k \<in> available_pages es - reserved_pages es" using u4 k by auto
  show ?thesis
  proof (cases "k \<in> available_pages es - reserved_pages es")
    case True
    then obtain s5 where s5: "SetPageUsed s4 k = Inr s5" using free frames.set_used_total [OF s4(2) kk(1)] by blast
    have "used_pages s5 = insert k (({?g..<1024} - available_pages es) \<union> reserved_pages es)"
      using SetPageUsed_used [OF s4(2) kk(1) s5] u4 by auto
    then show ?thesis using SetPageUsed_used [OF s4(2) kk(1) s5] run s5 free True s4(4) s3(4) u2 s1(3) by simp
  next
    case False
    then have "k \<in> used_pages s4" using free by blast
    with run have "InitPmm s0 mem_upper (PageToAddr k) es = Inl Assert_failed" by simp
    with False show ?thesis by (simp only: if_False)
  qed
qed

text \<open>\<open>InitPmm\<close> decides which physical pages the kernel may hand out: those of the rounded-up memory or of an available
  region, less those any reserved region touches and the kernel's own. It ends normally exactly when
  the kernel's page lies in an available region and touches no reserved one; otherwise its last assertion fails.\<close>

theorem init_pmm_spec:
  assumes "length (gPhysicalBitmap s0) = bitmap_size" "0 < unat (mem_upper * 1024)" "unat (mem_upper * 1024) \<le> 0xFFC00000"
    "\<forall>e \<in> set es. entry_ok e" "k < pages_of_mem mem_upper"
  shows "if k \<in> available_pages es - reserved_pages es
    then \<exists>s. InitPmm s0 mem_upper (PageToAddr k) es = Inr s \<and> pmm_wf s \<and> gNum4MPages s = pages_of_mem mem_upper
      \<and> used_pages s = insert k (({pages_of_mem mem_upper..<1024} - available_pages es) \<union> reserved_pages es)
    else InitPmm s0 mem_upper (PageToAddr k) es = Inl Assert_failed"
  by (rule InitPmm_cases [OF assms])

text \<open>The memory map of a machine with 128 MB: low memory, the BIOS, and the rest.\<close>

definition example_mmaps :: "multiboot_memory_map_t list" where
  "example_mmaps =
     [\<lparr>mm_size = 20, mm_addr = 0, mm_len = 0x9FC00, mm_type = 1\<rparr>, \<lparr>mm_size = 20, mm_addr = 0xF0000, mm_len = 0x10000, mm_type = 2\<rparr>,
      \<lparr>mm_size = 20, mm_addr = 0x100000, mm_len = 0x7EE0000, mm_type = 1\<rparr>]"

lemma example_mmaps_facts:
  "\<forall>e \<in> set example_mmaps. entry_ok e" "available_pages example_mmaps = {..<32}" "reserved_pages example_mmaps = {0}" "pages_of_mem 130048 = 32"
proof -
  show "\<forall>e \<in> set example_mmaps. entry_ok e" by (simp add: example_mmaps_def entry_ok_def available_def MULTIBOOT_MEMORY_AVAILABLE_def)
  have "{0::nat..<1} \<union> ({0..<32} \<union> {}) = {..<32}" by auto
  then show "available_pages example_mmaps = {..<32}"
    by (simp add: example_mmaps_def pages_Cons entry_pages_def available_def MULTIBOOT_MEMORY_AVAILABLE_def available_pages_def [of "[]"])
  show "reserved_pages example_mmaps = {0}"
    by (simp add: example_mmaps_def pages_Cons entry_pages_def available_def MULTIBOOT_MEMORY_AVAILABLE_def reserved_pages_def [of "[]"])
  show "pages_of_mem 130048 = 32" by (simp add: pages_of_mem_def)
qed

theorem init_pmm_spec_witness:
  "\<exists>s. InitPmm \<lparr>gNum4MPages = 0, gPhysicalBitmap = replicate 128 0\<rparr> 130048 (PageToAddr 1) example_mmaps = Inr s
    \<and> used_pages s = insert 1 ({32..<1024} \<union> {0})"
proof -
  let ?s = "\<lparr>gNum4MPages = 0, gPhysicalBitmap = replicate 128 (0::u8)\<rparr>"
  have "length (gPhysicalBitmap ?s) = bitmap_size" by (simp add: pmm_consts)
  moreover have "{32..<1024::nat} - {..<32} = {32..<1024}" by auto
  ultimately show ?thesis using init_pmm_spec [of ?s 130048 example_mmaps 1] example_mmaps_facts by auto
qed


section \<open>The kernel's heap\<close>

text \<open>The heap lies in pages of the kernel's address space: every allocation the heap consists of starts a mapped page.\<close>

definition kernel_heap :: "kernel \<Rightarrow> arena list \<Rightarrow> bool" where
  "kernel_heap k As \<longleftrightarrow> pmm_wf (pmm_of k) \<and>
     (\<exists>pd. pds (paging_of k) KernelPD = Some pd \<and> pd_wf pd \<and> (\<forall>b \<in> set (map base As). \<exists>v \<in> dom (vmap pd). b = v * 0x400000))"

lemma page_arena_ok: "1 \<le> v \<Longrightarrow> v < 1022 \<Longrightarrow> arena_ok (fresh_arena (v * 0x400000) 0x400000)"
  by (rule fresh_arena_ok) auto

lemma page_apart:
  assumes "base A = u * 0x400000" "asize A \<le> 0x400000" "u \<noteq> v"
  shows "apart1 A (fresh_arena (v * 0x400000) 0x400000)"
proof (cases "u < v")
  case True
  then have "Suc u * 0x400000 \<le> v * 0x400000" by (intro mult_le_mono1) simp
  then show ?thesis using assms(1,2) by (simp add: apart1_def)
next
  case False
  then have "Suc v * 0x400000 \<le> u * 0x400000" using assms(3) by (intro mult_le_mono1) simp
  then show ?thesis using assms(1) by (simp add: apart1_def)
qed

lemma AskForMoreKernelSpace_ok:
  assumes "pmm_wf (pmm_of k)" "pds (paging_of k) KernelPD = Some pd" "pd_wf pd" "getNextFreePage pd 1 = int v" "v < 1024" "v \<notin> dom (vmap pd)"
    "GetNextFreePage (pmm_of k) = Inr (int p)" "p < 1024" "p \<notin> used_pages (pmm_of k)"
  shows "\<exists>k' m. AskForMoreKernelSpace k = Inr (word_of_nat (v * 0x400000), word_of_nat 0x400000, k') \<and> pmm_wf m \<and> used_pages m = insert p (used_pages (pmm_of k))
    \<and> k' = k\<lparr>paging_of := store_pd (paging_of k) KernelPD (pd[v := mk_entry p 0]), pmm_of := m\<rparr>"
proof -
  have pk: "p < kNumPageDirEntries" using assms(8) by (simp add: kNumPageDirEntries_def)
  obtain m where m: "SetPageUsed (pmm_of k) p = Inr m" using frames.set_used_total [OF assms(1) pk assms(9)] by blast
  have "load_pd (paging_of k) KernelPD = Inr pd" using assms(2) by (simp add: load_pd_def)
  moreover have "PageToAddr v = word_of_nat (v * 0x400000)" "kPageSize4M = word_of_nat 0x400000" by (simp_all add: PageToAddr_def kPageSize4M_def)
  ultimately have "AskForMoreKernelSpace k = Inr (word_of_nat (v * 0x400000), word_of_nat 0x400000,
      k\<lparr>paging_of := store_pd (paging_of k) KernelPD (pd[v := mk_entry p 0]), pmm_of := m\<rparr>)"
    using assms(4-8) m MapPage_page [OF assms(3,5,8), of 0] by (simp add: AskForMoreKernelSpace_def GetKernelPageDirectory_def Let_def)
  with SetPageUsed_used [OF assms(1) pk m] show ?thesis by blast
qed


text \<open>A kernel whose heap is the page after its own.\<close>

definition example_boot_kernel :: kernel where
  "example_boot_kernel = example_kernel\<lparr>paging_of := (paging_of example_kernel)\<lparr>pds := [KernelPD \<mapsto> empty_dir[1 := mk_entry 1 0, 2 := mk_entry 2 0]]\<rparr>\<rparr>"

lemma example_boot_facts:
  "pds (paging_of example_boot_kernel) KernelPD = Some (empty_dir[1 := mk_entry 1 0, 2 := mk_entry 2 0])"
  "pd_wf (empty_dir[1 := mk_entry 1 0, 2 := mk_entry 2 0])" "vmap (empty_dir[1 := mk_entry 1 0, 2 := mk_entry 2 0]) = [1 \<mapsto> 1, 2 \<mapsto> 2]"
  "pmm_of example_boot_kernel = pmm_of example_kernel" "GetNextFreePage (pmm_of example_boot_kernel) = Inr 6"
proof -
  have a: "pd_wf (empty_dir[1 := mk_entry 1 0])" "vmap (empty_dir[1 := mk_entry 1 0]) = [1 \<mapsto> 1]"
    using vmap_map [OF empty_dir_facts(1), of 1 1 0] empty_dir_facts(2) by simp_all
  show "pd_wf (empty_dir[1 := mk_entry 1 0, 2 := mk_entry 2 0])" "vmap (empty_dir[1 := mk_entry 1 0, 2 := mk_entry 2 0]) = [1 \<mapsto> 1, 2 \<mapsto> 2]"
    using vmap_map [OF a(1), of 2 2 0] a(2) by simp_all
  show "pds (paging_of example_boot_kernel) KernelPD = Some (empty_dir[1 := mk_entry 1 0, 2 := mk_entry 2 0])" "pmm_of example_boot_kernel = pmm_of example_kernel"
    by (simp_all add: example_boot_kernel_def)
  have "gNum4MPages (pmm_of example_kernel) = 32" by (simp add: example_kernel_def)
  then have "next_free_spec (used_pages (pmm_of example_kernel)) (8 * (gNum4MPages (pmm_of example_kernel) div 8)) = int 6"
    by (intro next_free_spec_eqI) (simp_all add: example_pmm(2))
  then show "GetNextFreePage (pmm_of example_boot_kernel) = Inr 6" using GetNextFreePage_wf [OF example_pmm(1)] by (simp add: example_boot_kernel_def)
qed


section \<open>The first user task\<close>

lemma memcpy_pds: "memcpy s dst src n = Inr s' \<Longrightarrow> pds s' = pds s \<and> gCurrentPageDir s' = gCurrentPageDir s"
  by (induction n arbitrary: s dst src) (auto simp: vwrite_def)

lemma temp_map_pds: "temp_map_unless here s r a = Inr (a', s') \<Longrightarrow> gCurrentPageDir s' = gCurrentPageDir s \<and> (\<forall>u. u \<noteq> gCurrentPageDir s \<longrightarrow> pds s' u = pds s u)"
  by (auto simp: temp_map_unless_def TempMap_def GetCurrentPageDirectory_def Let_def split: if_splits)

lemma unmap_pds: "unmap_unless here s r a = Inr s' \<Longrightarrow> gCurrentPageDir s' = gCurrentPageDir s \<and> (\<forall>u. u \<noteq> r \<longrightarrow> pds s' u = pds s u)"
  by (auto simp: unmap_unless_def unmap_in_def split: if_splits)

lemma Memcpy_pds:
  assumes "Memcpy s sp dp src dst n = Inr s'" "u \<noteq> gCurrentPageDir s"
  shows "pds s' u = pds s u"
proof (cases "sp = dp \<and> gCurrentPageDir s = sp")
  case True
  then show ?thesis using assms(1) memcpy_pds by (auto simp: Memcpy_def GetCurrentPageDirectory_def Let_def)
next
  case False
  then obtain a1 s1 a2 s2 s3 s4 where st: "temp_map_unless (sp = gCurrentPageDir s) s sp src = Inr (a1, s1)"
      "temp_map_unless (dp = gCurrentPageDir s) s1 dp dst = Inr (a2, s2)" "memcpy s2 a2 a1 n = Inr s3"
      "unmap_unless (sp = gCurrentPageDir s) s3 (gCurrentPageDir s) a1 = Inr s4" "unmap_unless (dp = gCurrentPageDir s) s4 (gCurrentPageDir s) a2 = Inr s'"
    using assms(1) by (auto simp: Memcpy_def GetCurrentPageDirectory_def Let_def split: if_splits)
  have s1: "gCurrentPageDir s1 = gCurrentPageDir s" "pds s1 u = pds s u" using temp_map_pds [OF st(1)] assms(2) by simp_all
  then have "pds s2 u = pds s u" using temp_map_pds [OF st(2)] assms(2) by simp
  moreover have "pds s3 u = pds s2 u" using memcpy_pds [OF st(3)] by simp
  moreover have "pds s4 u = pds s3 u" "pds s' u = pds s4 u" using unmap_pds [OF st(4)] unmap_pds [OF st(5)] assms(2) by simp_all
  ultimately show ?thesis by simp
qed

lemma RegisterTask_fresh:
  assumes "RegisterTask n k node t = Inr k'" "tasks k t = Some tk" "listening_for_signals tk = []"
  shows "tasks k' = tasks k \<and> paging_of k' = paging_of k \<and> pmm_of k' = pmm_of k"
  using assms by (auto simp: RegisterTask_def SendSignal_def get_task_def)

text \<open>C22: The page the first user program is loaded into is not marked as used: after \<open>JumpToUserMode\<close> the user's address space
  maps the entry point to a physical page that is free for \<open>GetNextFreePage\<close>, which hands it out next, to \<open>AllocPage\<close>
  or to the kernel's heap, while the program runs in it.\<close>

theorem user_page_handed_out_again:
  assumes "JumpToUserMode b m s e = Inr m'" "pmm_wf (pmm_of (mkernel m))" "pds (paging_of (mkernel m)) KernelPD = Some kpd" "pd_wf kpd"
    "gCurrentPageDir (paging_of (mkernel m)) = KernelPD"
  shows "\<exists>tk upd v p. tasks (mkernel m') (utask_addr b) = Some tk \<and> is_user tk \<and> r_eip (task_regs tk) = PageToAddr v
    \<and> pds (paging_of (mkernel m')) (task_pd tk) = Some upd \<and> vmap upd v = Some p
    \<and> p \<notin> used_pages (pmm_of (mkernel m')) \<and> GetNextFreePage (pmm_of (mkernel m')) = Inr (int p)"
proof -
  let ?k = "mkernel m" and ?r = "HeapPD (upd_addr b)"
  let ?p1 = "store_pd (paging_of ?k) ?r kpd"
  have cl: "Clone (paging_of ?k) GetKernelPageDirectory (upd_addr b) = check (upd_addr b \<noteq> 0) (Inr (?r, ?p1))"
    using assms(3) by (simp add: Clone_def GetKernelPageDirectory_def load_pd_def)
  have ld: "load_pd ?p1 (GetCurrentPageDirectory ?p1) = Inr kpd" "load_pd ?p1 ?r = Inr kpd"
    using assms(3,5) by (simp_all add: GetCurrentPageDirectory_def load_pd_def)
  obtain fp upd' p2 k2 tk k4 where
    v: "0 < getNextFreePage kpd 1" and p: "GetNextFreePage (pmm_of ?k) = Inr fp" "0 \<le> fp"
    and mp: "MapPage kpd (PageToAddr (nat (getNextFreePage kpd 1))) (PageToAddr (nat fp)) PG_USER = Inr upd'"
    and cp: "Memcpy (store_pd ?p1 ?r upd') (gCurrentPageDir (store_pd ?p1 ?r upd')) ?r s (PageToAddr (nat (getNextFreePage kpd 1))) (unat (min (e - s) kPageSize4M)) = Inr p2"
    and nt: "new_Task (?k\<lparr>paging_of := p2\<rparr>) (utask_addr b) (ustack_addr b) True ?r (gKernelTask ?k) = Inr k2" "get_task k2 (utask_addr b) = Inr tk"
    and rg: "RegisterTask (be_fuel b) (set_task k2 (utask_addr b) (tk\<lparr>task_regs := (task_regs tk)\<lparr>r_eip := PageToAddr (nat (getNextFreePage kpd 1))\<rparr>\<rparr>)) (unode_addr b) (utask_addr b) = Inr k4"
    and m': "mkernel m' = k4"
    using assms(1) cl ld by (auto simp: JumpToUserMode_def Memcpy_from_current_def GetCurrentPageDirectory_def Let_def)
  let ?tk = "tk\<lparr>task_regs := (task_regs tk)\<lparr>r_eip := PageToAddr (nat (getNextFreePage kpd 1))\<rparr>\<rparr>"
  have tk: "is_user tk" "task_pd tk = ?r" "listening_for_signals tk = []" "paging_of k2 = p2" "pmm_of k2 = pmm_of ?k"
    using nt by (auto simp: new_Task_def get_task_def set_task_def split: if_splits)
  have k4: "tasks k4 (utask_addr b) = Some ?tk" "paging_of k4 = p2" "pmm_of k4 = pmm_of ?k"
    using RegisterTask_fresh [OF rg] tk(3,4,5) by simp_all
  obtain w where w: "getNextFreePage kpd 1 = int w" "w < 1024" "w \<notin> dom (vmap kpd)"
    using getNextFreePage_spec [OF assms(4), of 1] v by auto
  obtain q where q: "fp = int q" "q < 1024" "q \<notin> used_pages (pmm_of ?k)"
    using frames.next_free_D [OF assms(2) p] p(2) that [of "nat fp"] by (simp add: kNumPageDirEntries_def)
  have upd: "upd' = kpd[w := mk_entry q PG_USER]" using mp w q MapPage_page [OF assms(4) w(2) q(2), of PG_USER] by simp
  have "pds p2 ?r = Some upd'" using Memcpy_pds [OF cp, of ?r] assms(5) by simp
  moreover have "vmap upd' w = Some q" unfolding upd using vmap_map(1) [OF assms(4) w(2) q(2)] by simp
  ultimately show ?thesis using k4 tk(1,2) m' w(1) q p(1)
    by (intro exI [of _ ?tk] exI [of _ upd'] exI [of _ w] exI [of _ q]) simp
qed

text \<open>The kernel above with a ramdisk of four bytes at the start of its page.\<close>

definition example_boot_env :: boot_env where
  "example_boot_env = \<lparr>be_fuel = 8, kernel_begin_addr = 0x400000, kernel_end_addr = 0x500000, gdt_addr = 0x401000, tss_addr = 0x402000, idt_addr = 0x403000,
     isr_addr = (\<lambda>_. 0x404000), irq_addr = (\<lambda>_. 0x405000), ktask_addr = 0x100, kstack_addr = 0x8000, knode_addr = 0x10,
     upd_addr = 0x6000, utask_addr = 0x700, ustack_addr = 0x9000, unode_addr = 0x40\<rparr>"

definition example_machine :: machine where
  "example_machine = \<lparr>mkernel = example_boot_kernel, mheap = \<lparr>mem = (\<lambda>_. 0), gFirstAlloc = 0\<rparr>, mports = \<lparr>written = [], answers = (\<lambda>_ _. 0), reads = (\<lambda>_. 0)\<rparr>,
     mgdt = example_gdt, midt = idt_Initialize 0x403000, mhandlers = replicate 256 None, menabled = False\<rparr>"

lemma example_jump: "\<exists>m'. JumpToUserMode example_boot_env example_machine 0x400000 0x400004 = Inr m'"
proof -
  let ?k = example_boot_kernel and ?pd = "empty_dir[1 := mk_entry 1 0, 2 := mk_entry 2 0]" and ?r = "HeapPD 0x6000"
  note f = example_boot_facts
  let ?upd = "?pd[3 := mk_entry 6 PG_USER]"
  let ?p1 = "store_pd (paging_of ?k) ?r ?pd"
  let ?p2 = "store_pd (paging_of ?k) ?r ?upd"
  have g: "gCurrentPageDir (paging_of ?k) = KernelPD" "menabled example_machine = False" "mkernel example_machine = ?k"
    by (simp_all add: example_boot_kernel_def example_kernel_def example_machine_def)
  have fv: "getNextFreePage ?pd 1 = 3"
  proof -
    have "3 \<in> {1..<1024::nat}" "3 \<notin> {1, 2::nat}" by simp_all
    then have "\<not> {1..<1024} \<subseteq> {1, 2::nat}" by blast
    then obtain v where v: "getNextFreePage ?pd 1 = int v" "1 \<le> v" "v \<notin> {1, 2}" "{1..<v} \<subseteq> {1, 2}"
      using getNextFreePage_spec [OF f(2), of 1] unfolding f(3) by auto
    from v(2,3) have "3 \<le> v" by auto
    moreover have "\<not> 3 < v" using subsetD [OF v(4), of 3] by auto
    ultimately show ?thesis using v(1) by simp
  qed
  have vm: "vmap ?upd = [1 \<mapsto> 1, 2 \<mapsto> 2, 3 \<mapsto> 6]" "pd_wf ?upd" using vmap_map [OF f(2), of 3 6 PG_USER] f(3) by (simp_all add: fun_upd_twist)
  have mp: "MapPage ?pd (PageToAddr 3) (PageToAddr 6) PG_USER = Inr ?upd" using MapPage_page [OF f(2), of 3 6 PG_USER] f(3) by simp
  have a: "PageToAddr 1 = 0x400000" "PageToAddr 1 + word_of_nat 0 = 0x400000" "PageToAddr 3 + word_of_nat 0 = PageToAddr 3" by (simp_all add: PageToAddr_def kPageSize4M_def)
  have "pds ?p2 KernelPD = Some ?pd" "pds ?p2 ?r = Some ?upd" "gCurrentPageDir ?p2 = KernelPD" using f(1) g(1) by simp_all
  then obtain p3 where cp: "Memcpy ?p2 KernelPD ?r 0x400000 (PageToAddr 3) 4 = Inr p3"
    using Memcpy_pages [of ?p2 ?pd KernelPD ?pd 1 1 0 4 ?r ?upd 3 6 0] f(2,3) vm unfolding a by auto
  obtain h where ap: "Append 8 (task_nodes ?k) (gTaskQueue ?k) 0x40 0x700 = Inr (0x40, h)"
    using Append_chain [of "task_nodes ?k" "gTaskQueue ?k" "[(0x20, 0x200), (0x30, 0x300), (0x10, 0x100)]" 8 "0x40" "0x700"] sched_wfD(1) [OF example_sched_wf]
    by (auto simp: example_boot_kernel_def example_kernel_def)
  have q: "gTaskQueue ?k \<noteq> 0" by (simp add: example_boot_kernel_def example_kernel_def)
  show ?thesis unfolding JumpToUserMode_def g Let_def
    using f(1,5) g(1) fv mp cp ap q
    by (simp add: example_boot_env_def Clone_def GetKernelPageDirectory_def GetCurrentPageDirectory_def load_pd_def Memcpy_from_current_def kPageSize4M_def min_def new_Task_def
        get_task_def set_task_def RegisterTask_def SendSignal_def kReady_def)
qed

theorem user_page_handed_out_again_witness:
  "\<exists>m' p. JumpToUserMode example_boot_env example_machine 0x400000 0x400004 = Inr m' \<and> p \<notin> used_pages (pmm_of (mkernel m'))
    \<and> GetNextFreePage (pmm_of (mkernel m')) = Inr (int p)"
proof -
  obtain m' where m': "JumpToUserMode example_boot_env example_machine 0x400000 0x400004 = Inr m'" using example_jump by blast
  have "pmm_wf (pmm_of (mkernel example_machine))" "pds (paging_of (mkernel example_machine)) KernelPD = Some (empty_dir[1 := mk_entry 1 0, 2 := mk_entry 2 0])"
    "gCurrentPageDir (paging_of (mkernel example_machine)) = KernelPD"
    using example_pmm(1) example_boot_facts by (simp_all add: example_machine_def) (simp add: example_boot_kernel_def example_kernel_def)
  from user_page_handed_out_again [OF m' this(1,2) example_boot_facts(2) this(3)] m' show ?thesis by blast
qed

end
