(* ===== verification/Algorithm.thy ===== *)
theory Algorithm
  imports Prelude "HOL-Library.List_Lexorder" "HOL-Library.Multiset"
begin

text \<open>
  \<open>src/libcxx/include/iterator\<close> and \<open>src/libcxx/include/algorithm\<close>. The elements are a list, a pointer into them is a position, which may be outside, and an access
  there is a fault. A template over an iterator type takes the operations of the type as a record, whose instances are the pointer (which \<open>std::iterator\<close> wraps) and
  \<open>std::reverse_iterator\<close> of it. Loops that test \<open>!=\<close> on iterators need not end and have fuel. The interface \<open>iterator_range\<close> says that an iterator type walks along the
  elements in some order; the searches are proved for it once, and \<open>next_permutation\<close> rests on both instances.
\<close>

section \<open>Iterators\<close>

datatype iterator_category = Input_iterator_tag | Bidirectional_iterator_tag | Random_access_iterator_tag

record 'i iter_ops =
  it_category :: iterator_category
  it_inc :: "'i \<Rightarrow> 'i"
  it_dec :: "'i \<Rightarrow> 'i"
  it_plus :: "'i \<Rightarrow> int \<Rightarrow> 'i"
  it_minus :: "'i \<Rightarrow> 'i \<Rightarrow> int"
  it_ref :: "'i \<Rightarrow> int"

text \<open>Reading and writing the element that a reference refers to.\<close>

definition elem_get :: "'a list \<Rightarrow> int \<Rightarrow> 'a result" where
  "elem_get xs i = (if 0 \<le> i \<and> i < int (length xs) then Inr (xs ! nat i) else Inl Out_of_bounds)"

definition elem_set :: "'a list \<Rightarrow> int \<Rightarrow> 'a \<Rightarrow> 'a list result" where
  "elem_set xs i x = (if 0 \<le> i \<and> i < int (length xs) then Inr (xs[nat i := x]) else Inl Out_of_bounds)"

definition it_get :: "'i iter_ops \<Rightarrow> 'a list \<Rightarrow> 'i \<Rightarrow> 'a result" where
  "it_get I xs it = elem_get xs (it_ref I it)"

text \<open>\<open>do_advance\<close> and \<open>do_distance\<close> for each category, and the dispatch on it.\<close>

function do_advance_input :: "'i iter_ops \<Rightarrow> 'i \<Rightarrow> int \<Rightarrow> 'i" where
  "do_advance_input I it n = (if n > 0 then do_advance_input I (it_inc I it) (n - 1) else it)"
  by pat_completeness auto
termination by (relation "measure (\<lambda>(I, it, n). nat n)") auto

function do_advance_back :: "'i iter_ops \<Rightarrow> 'i \<Rightarrow> int \<Rightarrow> 'i" where
  "do_advance_back I it n = (if n < 0 then do_advance_back I (it_dec I it) (n + 1) else it)"
  by pat_completeness auto
termination by (relation "measure (\<lambda>(I, it, n). nat (- n))") auto

declare do_advance_input.simps [simp del] do_advance_back.simps [simp del]

definition do_advance_bidirectional :: "'i iter_ops \<Rightarrow> 'i \<Rightarrow> int \<Rightarrow> 'i" where
  "do_advance_bidirectional I it n = do_advance_back I (do_advance_input I it n) (if n > 0 then 0 else n)"

definition do_advance_random :: "'i iter_ops \<Rightarrow> 'i \<Rightarrow> int \<Rightarrow> 'i" where
  "do_advance_random I it n = it_plus I it n"

fun do_distance_input :: "nat \<Rightarrow> 'i iter_ops \<Rightarrow> 'i \<Rightarrow> 'i \<Rightarrow> int \<Rightarrow> int result" where
  "do_distance_input fuel I first lst r =
     (if first \<noteq> lst then (case fuel of 0 \<Rightarrow> Inl Out_of_fuel | Suc f \<Rightarrow> do_distance_input f I (it_inc I first) lst (r + 1)) else Inr r)"

declare do_distance_input.simps [simp del]

definition do_distance_random :: "'i iter_ops \<Rightarrow> 'i \<Rightarrow> 'i \<Rightarrow> int" where
  "do_distance_random I first lst = it_minus I lst first"

definition advance :: "'i iter_ops \<Rightarrow> 'i \<Rightarrow> int \<Rightarrow> 'i" where
  "advance I it n =
     (case it_category I of
        Input_iterator_tag \<Rightarrow> do_advance_input I it n
      | Bidirectional_iterator_tag \<Rightarrow> do_advance_bidirectional I it n
      | Random_access_iterator_tag \<Rightarrow> do_advance_random I it n)"

definition it_prev :: "'i iter_ops \<Rightarrow> 'i \<Rightarrow> int \<Rightarrow> 'i" where
  "it_prev I it n = advance I it (- n)"

definition it_next :: "'i iter_ops \<Rightarrow> 'i \<Rightarrow> int \<Rightarrow> 'i" where
  "it_next I it n = advance I it n"

definition distance :: "nat \<Rightarrow> 'i iter_ops \<Rightarrow> 'i \<Rightarrow> 'i \<Rightarrow> int result" where
  "distance fuel I first lst =
     (case it_category I of
        Random_access_iterator_tag \<Rightarrow> Inr (do_distance_random I first lst)
      | _ \<Rightarrow> do_distance_input fuel I first lst 0)"

text \<open>A pointer; \<open>std::iterator\<close> hands each operation to the pointer it holds.\<close>

definition ptr_ops :: "int iter_ops" where
  "ptr_ops = \<lparr>it_category = Random_access_iterator_tag, it_inc = (\<lambda>p. p + 1), it_dec = (\<lambda>p. p - 1), it_plus = (\<lambda>p n. p + n), it_minus = (\<lambda>p q. p - q), it_ref = (\<lambda>p. p)\<rparr>"

text \<open>
  \<open>reverse_iterator\<close>: it refers to the element before the pointer it holds. It has no \<open>--\<close>; the field for it has \<open>operator-(1)\<close>, and only the branches for
  bidirectional iterators, which it is not, look at that field.
\<close>

datatype reverse_iterator = Reverse (rev_base: int)

definition make_reverse_iterator :: "int \<Rightarrow> reverse_iterator" where
  "make_reverse_iterator i = Reverse i"

definition rev_ops :: "reverse_iterator iter_ops" where
  "rev_ops = \<lparr>it_category = it_category ptr_ops, it_inc = (\<lambda>r. Reverse (it_dec ptr_ops (rev_base r))), it_dec = (\<lambda>r. Reverse (it_plus ptr_ops (rev_base r) 1)),
     it_plus = (\<lambda>r n. Reverse (it_plus ptr_ops (rev_base r) (- n))), it_minus = (\<lambda>x y. it_minus ptr_ops (rev_base y) (rev_base x)), it_ref = (\<lambda>r. it_ref ptr_ops (it_prev ptr_ops (rev_base r) 1))\<rparr>"

section \<open>Algorithms\<close>

definition std_min :: "'a::ord \<Rightarrow> 'a \<Rightarrow> 'a" where
  "std_min a b = (if b < a then b else a)"

definition std_max :: "'a::ord \<Rightarrow> 'a \<Rightarrow> 'a" where
  "std_max a b = (if b > a then b else a)"

definition std_less :: "'a::ord \<Rightarrow> 'a \<Rightarrow> bool" where
  "std_less t u \<longleftrightarrow> t < u"

fun is_sorted_until_loop :: "nat \<Rightarrow> 'i iter_ops \<Rightarrow> 'a list \<Rightarrow> 'i \<Rightarrow> 'i \<Rightarrow> 'i \<Rightarrow> ('a \<Rightarrow> 'a \<Rightarrow> bool) \<Rightarrow> 'i result" where
  "is_sorted_until_loop 0 I xs first nxt lst cmp = Inl Out_of_fuel"
| "is_sorted_until_loop (Suc fuel) I xs first nxt lst cmp =
     (let nxt' = it_inc I nxt in
      if nxt' = lst then Inr lst
      else bindr (it_get I xs nxt') (\<lambda>y. bindr (it_get I xs first) (\<lambda>x.
        if cmp y x then Inr nxt' else is_sorted_until_loop fuel I xs nxt' nxt' lst cmp)))"

definition is_sorted_until :: "nat \<Rightarrow> 'i iter_ops \<Rightarrow> 'a list \<Rightarrow> 'i \<Rightarrow> 'i \<Rightarrow> ('a \<Rightarrow> 'a \<Rightarrow> bool) \<Rightarrow> 'i result" where
  "is_sorted_until fuel I xs first lst cmp = (if first \<noteq> lst then is_sorted_until_loop fuel I xs first first lst cmp else Inr lst)"

text \<open>The loop of \<open>upper_bound\<close>: \<open>cnt\<close> is positive where it is halved.\<close>

function upper_bound_loop :: "'i iter_ops \<Rightarrow> 'a list \<Rightarrow> 'i \<Rightarrow> int \<Rightarrow> 'b \<Rightarrow> ('b \<Rightarrow> 'a \<Rightarrow> bool) \<Rightarrow> 'i result" where
  "upper_bound_loop I xs first cnt val cmp =
     (if cnt > 0
      then let step = cnt div 2; it = advance I first step in
        bindr (it_get I xs it) (\<lambda>x.
          if \<not> cmp val x then upper_bound_loop I xs (it_inc I it) (cnt - (step + 1)) val cmp
          else upper_bound_loop I xs first step val cmp)
      else Inr first)"
  by pat_completeness auto
termination by (relation "measure (\<lambda>(I, xs, first, cnt, val, cmp). nat cnt)") auto

declare upper_bound_loop.simps [simp del]

definition upper_bound :: "nat \<Rightarrow> 'i iter_ops \<Rightarrow> 'a list \<Rightarrow> 'i \<Rightarrow> 'i \<Rightarrow> 'b \<Rightarrow> ('b \<Rightarrow> 'a \<Rightarrow> bool) \<Rightarrow> 'i result" where
  "upper_bound fuel I xs first lst val cmp = bindr (distance fuel I first lst) (\<lambda>cnt. upper_bound_loop I xs first cnt val cmp)"

definition iter_swap :: "'a list \<Rightarrow> int \<Rightarrow> int \<Rightarrow> 'a list result" where
  "iter_swap xs a b = bindr (elem_get xs a) (\<lambda>temp. bindr (elem_get xs b) (\<lambda>t2. bindr (elem_set xs a t2) (\<lambda>xs'. elem_set xs' b temp)))"

text \<open>\<open>reverse\<close> for pointers, and its other branch for iterators that only go by steps.\<close>

function reverse_loop :: "'a list \<Rightarrow> int \<Rightarrow> int \<Rightarrow> 'a list result" where
  "reverse_loop xs first lst =
     (if first < lst then bindr (iter_swap xs first lst) (\<lambda>xs'. reverse_loop xs' (first + 1) (lst - 1)) else Inr xs)"
  by pat_completeness auto
termination by (relation "measure (\<lambda>(xs, first, lst). nat (lst - first))") auto

declare reverse_loop.simps [simp del]

definition reverse :: "'a list \<Rightarrow> int \<Rightarrow> int \<Rightarrow> 'a list result" where
  "reverse xs first lst = (if first = lst then Inr xs else reverse_loop xs first (lst - 1))"

fun reverse_steps :: "nat \<Rightarrow> 'a list \<Rightarrow> int \<Rightarrow> int \<Rightarrow> 'a list result" where
  "reverse_steps 0 xs first lst = Inl Out_of_fuel"
| "reverse_steps (Suc fuel) xs first lst =
     (if first \<noteq> lst \<and> first \<noteq> lst - 1
      then bindr (iter_swap xs first (lst - 1)) (\<lambda>xs'. reverse_steps fuel xs' (first + 1) (lst - 1)) else Inr xs)"

definition next_permutation :: "nat \<Rightarrow> 'a::ord list \<Rightarrow> int \<Rightarrow> int \<Rightarrow> (bool \<times> 'a list) result" where
  "next_permutation fuel xs first lst =
     (let r_first = make_reverse_iterator lst; r_last = make_reverse_iterator first in
      bindr (is_sorted_until fuel rev_ops xs r_first r_last std_less) (\<lambda>left.
      bindr (if left \<noteq> r_last
             then bindr (it_get rev_ops xs left) (\<lambda>x.
                  bindr (upper_bound fuel rev_ops xs r_first left x (<)) (\<lambda>right. iter_swap xs (it_ref rev_ops left) (it_ref rev_ops right)))
             else Inr xs) (\<lambda>xs'.
      bindr (reverse xs' (rev_base left) lst) (\<lambda>xs''. Inr (left \<noteq> r_last, xs'')))))"

fun find_if :: "nat \<Rightarrow> 'i iter_ops \<Rightarrow> 'a list \<Rightarrow> 'i \<Rightarrow> 'i \<Rightarrow> ('a \<Rightarrow> bool) \<Rightarrow> 'i result" where
  "find_if fuel I xs first lst p =
     (if first \<noteq> lst
      then bindr (it_get I xs first) (\<lambda>x. if p x then Inr first else (case fuel of 0 \<Rightarrow> Inl Out_of_fuel | Suc f \<Rightarrow> find_if f I xs (it_inc I first) lst p))
      else Inr lst)"

declare find_if.simps [simp del]

definition any_of :: "nat \<Rightarrow> 'i iter_ops \<Rightarrow> 'a list \<Rightarrow> 'i \<Rightarrow> 'i \<Rightarrow> ('a \<Rightarrow> bool) \<Rightarrow> bool result" where
  "any_of fuel I xs first lst p = bindr (find_if fuel I xs first lst p) (\<lambda>it. Inr (it \<noteq> lst))"

definition none_of :: "nat \<Rightarrow> 'i iter_ops \<Rightarrow> 'a list \<Rightarrow> 'i \<Rightarrow> 'i \<Rightarrow> ('a \<Rightarrow> bool) \<Rightarrow> bool result" where
  "none_of fuel I xs first lst p = bindr (find_if fuel I xs first lst p) (\<lambda>it. Inr (it = lst))"

section \<open>Permutations in lexicographic order\<close>

lemma sorted_least_perm: "sorted xs \<Longrightarrow> mset ys = mset xs \<Longrightarrow> xs \<le> (ys :: 'a::linorder list)"
proof (induction xs arbitrary: ys)
  case (Cons x xs)
  then obtain c t where ys: "ys = c # t" by (cases ys) auto
  have "c \<in> set (x # xs)" using Cons.prems(2) ys by (metis list.set_intros(1) set_mset_mset)
  then have "x \<le> c" using Cons.prems(1) by auto
  moreover have "c = x \<Longrightarrow> xs \<le> t" using Cons ys by simp
  ultimately show ?case using ys by auto
qed simp

lemma desc_greatest_perm: "sorted (rev xs) \<Longrightarrow> mset ys = mset xs \<Longrightarrow> ys \<le> (xs :: 'a::linorder list)"
proof (induction xs arbitrary: ys)
  case (Cons x xs)
  then obtain c t where ys: "ys = c # t" by (cases ys) auto
  have "c \<in> set (x # xs)" using Cons.prems(2) ys by (metis list.set_intros(1) set_mset_mset)
  then have "c \<le> x" using Cons.prems(1) by (auto simp: sorted_append)
  moreover have "c = x \<Longrightarrow> t \<le> xs" using Cons ys by (simp add: sorted_append)
  ultimately show ?case using ys by auto
qed simp

lemma append_less_append: "p @ xs < p @ ys \<longleftrightarrow> xs < (ys :: 'a::linorder list)"
  by (induction p) auto

lemma append_le_append: "p @ xs \<le> p @ ys \<longleftrightarrow> xs \<le> (ys :: 'a::linorder list)"
  by (induction p) auto

text \<open>Above a list with a given start is a list with a greater start, or one with the same start.\<close>

lemma less_same_length:
  "p @ xs < zs \<Longrightarrow> length zs = length p + length xs \<Longrightarrow> (\<exists>ys. zs = p @ ys \<and> xs < ys) \<or> (\<forall>us. p @ us < (zs :: 'a::linorder list))"
proof (induction p arbitrary: zs)
  case (Cons a p)
  then obtain c t where zs: "zs = c # t" by (cases zs) auto
  then show ?case using Cons by (cases "a = c") auto
qed auto

text \<open>The successor: \<open>x\<close> is the last element with a greater one behind it, \<open>y\<close> the last element behind it that is greater.\<close>

lemma successor_least:
  fixes x y :: "'a::linorder"
  assumes s: "sorted (rev (s1 @ y # s2))" and xy: "x < y" and s2: "\<forall>z \<in> set s2. z \<le> x"
    and zs: "mset zs = mset (p @ x # s1 @ y # s2)" and gr: "p @ x # s1 @ y # s2 < zs"
  shows "p @ y # rev (s1 @ x # s2) \<le> zs"
proof -
  have "length zs = length p + length (x # s1 @ y # s2)" using mset_eq_length [OF zs] by simp
  from less_same_length [OF gr this] consider (same) ys where "zs = p @ ys" "x # s1 @ y # s2 < ys" | (above) "p @ y # rev (s1 @ x # s2) < zs" by blast
  then show ?thesis
  proof cases
    case same
    then have m: "mset ys = mset (x # s1 @ y # s2)" using zs by simp
    then obtain c t where ys: "ys = c # t" by (cases ys) auto
    have "c \<noteq> x"
    proof
      assume "c = x"
      then have "mset t = mset (s1 @ y # s2)" "s1 @ y # s2 < t" using m ys same(2) by auto
      then show False using desc_greatest_perm [OF s] by fastforce
    qed
    then have "x < c" using same(2) ys by auto
    moreover have "c \<in> set (x # s1 @ y # s2)" using m ys by (metis list.set_intros(1) set_mset_mset)
    ultimately have "y \<le> c" using s s2 by (auto simp: sorted_append)
    moreover have "rev (s1 @ x # s2) \<le> t" if "c = y"
    proof (rule sorted_least_perm)
      show "sorted (rev (s1 @ x # s2))" using s s2 xy by (fastforce simp: sorted_append)
      show "mset t = mset (rev (s1 @ x # s2))" using m ys that by simp
    qed
    ultimately show ?thesis using same(1) ys by (auto simp: append_le_append)
  qed simp
qed


section \<open>Iterators that walk along a range\<close>

locale iterator_range =
  fixes I :: "'i iter_ops"
    and pos :: "'a list \<Rightarrow> 'a list \<Rightarrow> nat \<Rightarrow> 'i"
    and seen :: "'a list \<Rightarrow> 'a list"
  assumes pos_inc: "it_inc I (pos p m j) = pos p m (Suc j)"
    and pos_advance: "advance I (pos p m j) (int n) = pos p m (j + n)"
    and pos_distance: "j \<le> k \<Longrightarrow> k \<le> j + fuel \<Longrightarrow> distance fuel I (pos p m j) (pos p m k) = Inr (int (k - j))"
    and pos_eq: "pos p m j = pos p m k \<longleftrightarrow> j = k"
    and pos_get: "j < length m \<Longrightarrow> it_get I (p @ m @ q) (pos p m j) = Inr (seen m ! j)"
    and length_seen: "length (seen m) = length m"
begin

lemma is_sorted_until_loop_range:
  "j < n \<Longrightarrow> n \<le> length m \<Longrightarrow> n \<le> j + fuel \<Longrightarrow>
    \<exists>k. is_sorted_until_loop fuel I (p @ m @ q) (pos p m j) (pos p m j) (pos p m n) cmp = Inr (pos p m k) \<and> j < k \<and> k \<le> n
      \<and> (\<forall>i. j < i \<and> i < k \<longrightarrow> \<not> cmp (seen m ! i) (seen m ! (i - 1))) \<and> (k < n \<longrightarrow> cmp (seen m ! k) (seen m ! (k - 1)))"
proof (induction fuel arbitrary: j)
  case (Suc fuel)
  show ?case
  proof (cases "Suc j = n")
    case True
    then show ?thesis by (intro exI [of _ n]) (auto simp: pos_inc)
  next
    case False
    then have j: "Suc j < n" using Suc.prems(1) by simp
    have step: "is_sorted_until_loop (Suc fuel) I (p @ m @ q) (pos p m j) (pos p m j) (pos p m n) cmp
      = (if cmp (seen m ! Suc j) (seen m ! j) then Inr (pos p m (Suc j))
         else is_sorted_until_loop fuel I (p @ m @ q) (pos p m (Suc j)) (pos p m (Suc j)) (pos p m n) cmp)"
      using j Suc.prems(2) False by (simp add: pos_inc pos_eq pos_get Let_def)
    show ?thesis
    proof (cases "cmp (seen m ! Suc j) (seen m ! j)")
      case True
      then show ?thesis using step j by (intro exI [of _ "Suc j"]) auto
    next
      case no: False
      from Suc.IH [OF j Suc.prems(2)] Suc.prems(3) obtain k where
        k: "is_sorted_until_loop fuel I (p @ m @ q) (pos p m (Suc j)) (pos p m (Suc j)) (pos p m n) cmp = Inr (pos p m k)" "Suc j < k" "k \<le> n"
          "\<forall>i. Suc j < i \<and> i < k \<longrightarrow> \<not> cmp (seen m ! i) (seen m ! (i - 1))" "k < n \<longrightarrow> cmp (seen m ! k) (seen m ! (k - 1))" by auto
      have "\<not> cmp (seen m ! i) (seen m ! (i - 1))" if "j < i" "i < k" for i
        using that k(4) no by (cases "i = Suc j") auto
      then show ?thesis using step no k by (intro exI [of _ k]) auto
    qed
  qed
qed simp

lemma is_sorted_until_range:
  assumes "n \<le> length m" "n \<le> fuel"
  shows "\<exists>k. is_sorted_until fuel I (p @ m @ q) (pos p m 0) (pos p m n) cmp = Inr (pos p m k) \<and> k \<le> n \<and> (0 < n \<longrightarrow> 0 < k)
      \<and> (\<forall>i. 0 < i \<and> i < k \<longrightarrow> \<not> cmp (seen m ! i) (seen m ! (i - 1))) \<and> (k < n \<longrightarrow> cmp (seen m ! k) (seen m ! (k - 1)))"
  using is_sorted_until_loop_range [of 0 n m fuel p q cmp] assms by (cases "n = 0") (auto simp: is_sorted_until_def pos_eq)

lemma upper_bound_loop_range:
  assumes n: "n \<le> length m" and mono: "\<And>i i'. i \<le> i' \<Longrightarrow> i' < n \<Longrightarrow> cmp v (seen m ! i) \<Longrightarrow> cmp v (seen m ! i')"
  shows "j + c \<le> n \<Longrightarrow> \<exists>k. upper_bound_loop I (p @ m @ q) (pos p m j) (int c) v cmp = Inr (pos p m k) \<and> j \<le> k \<and> k \<le> j + c
      \<and> (\<forall>i. j \<le> i \<and> i < k \<longrightarrow> \<not> cmp v (seen m ! i)) \<and> (\<forall>i. k \<le> i \<and> i < j + c \<longrightarrow> cmp v (seen m ! i))"
proof (induction c arbitrary: j rule: less_induct)
  case (less c)
  show ?case
  proof (cases "c = 0")
    case False
    let ?s = "c div 2"
    have s: "?s < c" "c - (?s + 1) < c" and e: "Suc (j + ?s) + (c - (?s + 1)) = j + c" using False by simp_all
    have half: "int c div 2 = int ?s" and rest: "int c - (int ?s + 1) = int (c - (?s + 1))" using s by linarith+
    have step: "upper_bound_loop I (p @ m @ q) (pos p m j) (int c) v cmp
      = (if \<not> cmp v (seen m ! (j + ?s)) then upper_bound_loop I (p @ m @ q) (pos p m (Suc (j + ?s))) (int (c - (?s + 1))) v cmp
         else upper_bound_loop I (p @ m @ q) (pos p m j) (int ?s) v cmp)"
      using False s less.prems n by (subst upper_bound_loop.simps) (simp add: Let_def half rest pos_advance pos_get pos_inc)
    show ?thesis
    proof (cases "cmp v (seen m ! (j + ?s))")
      case True
      obtain k where k: "upper_bound_loop I (p @ m @ q) (pos p m j) (int ?s) v cmp = Inr (pos p m k)" "j \<le> k" "k \<le> j + ?s"
          "\<forall>i. j \<le> i \<and> i < k \<longrightarrow> \<not> cmp v (seen m ! i)" "\<forall>i. k \<le> i \<and> i < j + ?s \<longrightarrow> cmp v (seen m ! i)"
        using less.IH [OF s(1), of j] less.prems s by auto
      have "cmp v (seen m ! i)" if "k \<le> i" "i < j + c" for i
        using that k(5) mono [of "j + ?s" i] True less.prems by (cases "i < j + ?s") auto
      then show ?thesis using step True k s by (intro exI [of _ k]) auto
    next
      case False
      obtain k where k: "upper_bound_loop I (p @ m @ q) (pos p m (Suc (j + ?s))) (int (c - (?s + 1))) v cmp = Inr (pos p m k)" "Suc (j + ?s) \<le> k" "k \<le> j + c"
          "\<forall>i. Suc (j + ?s) \<le> i \<and> i < k \<longrightarrow> \<not> cmp v (seen m ! i)" "\<forall>i. k \<le> i \<and> i < j + c \<longrightarrow> cmp v (seen m ! i)"
        using less.IH [OF s(2), of "Suc (j + ?s)", unfolded e, OF less.prems] by blast
      have "\<not> cmp v (seen m ! i)" if "j \<le> i" "i < k" for i
        using that k(4) mono [of i "j + ?s"] False s(1) less.prems by (cases "Suc (j + ?s) \<le> i") auto
      then show ?thesis using step False k by (intro exI [of _ k]) auto
    qed
  qed (auto simp: upper_bound_loop.simps intro!: exI [of _ j])
qed

lemma upper_bound_range:
  assumes "n \<le> length m" "n \<le> fuel" "\<And>i i'. i \<le> i' \<Longrightarrow> i' < n \<Longrightarrow> cmp v (seen m ! i) \<Longrightarrow> cmp v (seen m ! i')"
  shows "\<exists>k \<le> n. upper_bound fuel I (p @ m @ q) (pos p m 0) (pos p m n) v cmp = Inr (pos p m k)
      \<and> (\<forall>i < k. \<not> cmp v (seen m ! i)) \<and> (\<forall>i. k \<le> i \<and> i < n \<longrightarrow> cmp v (seen m ! i))"
  using upper_bound_loop_range [of n m cmp v 0 n p q, OF assms(1)] assms(2,3) by (auto simp: upper_bound_def pos_distance)

lemma find_if_range:
  "j \<le> length m \<Longrightarrow> length m \<le> j + fuel \<Longrightarrow>
    find_if fuel I (p @ m @ q) (pos p m j) (pos p m (length m)) pr = Inr (pos p m (j + length (takeWhile (\<lambda>x. \<not> pr x) (drop j (seen m)))))"
proof (induction fuel arbitrary: j)
  case 0
  then show ?case by (simp add: find_if.simps length_seen)
next
  case (Suc fuel)
  show ?case
  proof (cases "j = length m")
    case False
    then have j: "j < length m" using Suc.prems(1) by simp
    then have "drop j (seen m) = seen m ! j # drop (Suc j) (seen m)" by (simp add: Cons_nth_drop_Suc length_seen)
    then show ?thesis using j Suc by (subst find_if.simps) (auto simp: pos_eq pos_get pos_inc)
  qed (simp add: find_if.simps length_seen)
qed

lemma any_none_range:
  assumes "length m \<le> fuel"
  shows "any_of fuel I (p @ m @ q) (pos p m 0) (pos p m (length m)) pr = Inr (\<exists>x \<in> set (seen m). pr x)"
    and "none_of fuel I (p @ m @ q) (pos p m 0) (pos p m (length m)) pr = Inr (\<forall>x \<in> set (seen m). \<not> pr x)"
proof -
  have "length (takeWhile (\<lambda>x. \<not> pr x) (seen m)) = length m \<longleftrightarrow> (\<forall>x \<in> set (seen m). \<not> pr x)"
    by (metis length_seen takeWhile_eq_all_conv takeWhile_eq_take take_all_iff order_refl)
  then show "any_of fuel I (p @ m @ q) (pos p m 0) (pos p m (length m)) pr = Inr (\<exists>x \<in> set (seen m). pr x)"
    and "none_of fuel I (p @ m @ q) (pos p m 0) (pos p m (length m)) pr = Inr (\<forall>x \<in> set (seen m). \<not> pr x)"
    using find_if_range [of 0 m fuel p q pr] assms by (auto simp: any_of_def none_of_def pos_eq)
qed

end


text \<open>The positions of a pointer and of a reverse iterator in a part of the elements.\<close>

definition ptr_pos :: "'a list \<Rightarrow> 'a list \<Rightarrow> nat \<Rightarrow> int" where
  "ptr_pos p m j = int (length p) + int j"

definition rev_pos :: "'a list \<Rightarrow> 'a list \<Rightarrow> nat \<Rightarrow> reverse_iterator" where
  "rev_pos p m j = Reverse (int (length p) + int (length m) - int j)"

lemmas iter_defs = ptr_ops_def rev_ops_def advance_def distance_def do_advance_random_def do_distance_random_def it_get_def it_prev_def elem_get_def ptr_pos_def rev_pos_def

lemma elem_get_mid: "j < length m \<Longrightarrow> elem_get (p @ m @ q) (int (length p) + int j) = Inr (m ! j)"
  by (auto simp: elem_get_def nat_int_add nth_append)

interpretation fwd: iterator_range ptr_ops ptr_pos "\<lambda>m. m"
  by unfold_locales (auto simp: iter_defs nat_int_add nth_append)

interpretation bwd: iterator_range rev_ops rev_pos rev
proof unfold_locales
  fix j and p m q :: "'a list"
  assume j: "j < length m"
  then have "it_ref rev_ops (rev_pos p m j) = int (length p) + int (length m - Suc j)"
    by (simp add: rev_ops_def rev_pos_def it_prev_def advance_def ptr_ops_def do_advance_random_def)
  then show "it_get rev_ops (p @ m @ q) (rev_pos p m j) = Inr (rev m ! j)"
    using j elem_get_mid [of "length m - Suc j" m p q] by (simp add: it_get_def rev_nth)
qed (auto simp: iter_defs)

text \<open>Swapping and reversing.\<close>

lemma iter_swap_two: "iter_swap (p @ x # m @ y # q) (int (length p)) (int (length p) + int (length m) + 1) = Inr (p @ y # m @ x # q)"
proof -
  have n: "nat (int (length p) + int (length m) + 1) = length p + Suc (length m)" by simp
  show ?thesis by (simp add: iter_swap_def elem_get_def elem_set_def n nth_append list_update_append)
qed

lemma two_ends: "2 \<le> length m \<Longrightarrow> \<exists>x m' y. m = x # m' @ [y]"
  by (cases m; cases "tl m" rule: rev_cases) auto

lemma reverse_loop_range: "reverse_loop (p @ m @ q) (int (length p)) (int (length p) + int (length m) - 1) = Inr (p @ rev m @ q)"
proof (induction "length m" arbitrary: p m q rule: less_induct)
  case less
  show ?case
  proof (cases "length m < 2")
    case True
    then have "rev m = m" by (cases m) auto
    then show ?thesis using True by (simp add: reverse_loop.simps)
  next
    case False
    then obtain x m' y where m: "m = x # m' @ [y]" using two_ends [of m] by auto
    have "reverse_loop (p @ m @ q) (int (length p)) (int (length p) + int (length m) - 1)
        = reverse_loop ((p @ [y]) @ m' @ (x # q)) (int (length (p @ [y]))) (int (length (p @ [y])) + int (length m') - 1)"
      using iter_swap_two [of p x m' y q] unfolding m by (subst reverse_loop.simps) (simp add: add.commute add.left_commute)
    also have "\<dots> = Inr ((p @ [y]) @ rev m' @ x # q)" by (rule less) (simp add: m)
    finally show ?thesis by (simp add: m)
  qed
qed

lemma reverse_range: "reverse (p @ m @ q) (int (length p)) (int (length p) + int (length m)) = Inr (p @ rev m @ q)"
  using reverse_loop_range [of p m q] by (cases m) (auto simp: reverse_def)

lemma reverse_steps_range: "length m < fuel + fuel \<Longrightarrow> reverse_steps fuel (p @ m @ q) (int (length p)) (int (length p) + int (length m)) = Inr (p @ rev m @ q)"
proof (induction fuel arbitrary: p m q)
  case (Suc fuel)
  show ?case
  proof (cases "length m < 2")
    case True
    then have "rev m = m" by (cases m) auto
    then show ?thesis using True by (cases "length m") auto
  next
    case False
    then obtain x m' y where m: "m = x # m' @ [y]" using two_ends [of m] by auto
    have "reverse_steps (Suc fuel) (p @ m @ q) (int (length p)) (int (length p) + int (length m))
        = reverse_steps fuel ((p @ [y]) @ m' @ (x # q)) (int (length (p @ [y]))) (int (length (p @ [y])) + int (length m'))"
      using iter_swap_two [of p x m' y q] unfolding m by (simp add: add.commute add.left_commute)
    also have "\<dots> = Inr ((p @ [y]) @ rev m' @ x # q)" by (rule Suc.IH) (use Suc.prems m in simp)
    finally show ?thesis by (simp add: m)
  qed
qed simp


text \<open>The branches for the categories agree where more than one applies.\<close>

lemma do_advance_input_ptr: "0 \<le> n \<Longrightarrow> do_advance_input ptr_ops it n = it + n"
proof (induction "nat n" arbitrary: it n)
  case (Suc k)
  then show ?case by (subst do_advance_input.simps) (auto simp: ptr_ops_def)
qed (simp add: do_advance_input.simps)

lemma do_advance_back_ptr: "n \<le> 0 \<Longrightarrow> do_advance_back ptr_ops it n = it + n"
proof (induction "nat (- n)" arbitrary: it n)
  case (Suc k)
  then show ?case by (subst do_advance_back.simps) (auto simp: ptr_ops_def)
qed (simp add: do_advance_back.simps)

lemma do_advance_agree: "do_advance_bidirectional ptr_ops it n = do_advance_random ptr_ops it n"
proof (cases "n > 0")
  case False
  then show ?thesis using do_advance_back_ptr [of n it]
    by (simp add: do_advance_bidirectional_def do_advance_random_def do_advance_input.simps [of _ _ n] ptr_ops_def)
qed (simp add: do_advance_bidirectional_def do_advance_random_def do_advance_input_ptr do_advance_back.simps, simp add: ptr_ops_def)

lemma do_distance_agree: "first \<le> lst \<Longrightarrow> nat (lst - first) \<le> fuel \<Longrightarrow> do_distance_input fuel ptr_ops first lst r = Inr (r + do_distance_random ptr_ops first lst)"
proof (induction fuel arbitrary: first r)
  case (Suc fuel)
  then show ?case using Suc.IH [of "first + 1" "r + 1"] by (subst do_distance_input.simps) (auto simp: ptr_ops_def do_distance_random_def)
qed (simp add: do_distance_input.simps do_distance_random_def ptr_ops_def)


section \<open>The next permutation\<close>

lemma it_ref_rev_pos: "it_ref rev_ops (rev_pos p m j) = int (length p) + int (length m) - int j - 1"
  by (simp add: rev_ops_def rev_pos_def it_prev_def advance_def ptr_ops_def do_advance_random_def)

lemma rev_pos_ends: "make_reverse_iterator (int (length p) + int (length m)) = rev_pos p m 0" "make_reverse_iterator (int (length p)) = rev_pos p m (length m)"
  by (simp_all add: make_reverse_iterator_def rev_pos_def)

lemma next_permutation_last:
  assumes "is_sorted_until fuel rev_ops (p @ m @ q) (rev_pos p m 0) (rev_pos p m (length m)) std_less = Inr (rev_pos p m (length m))"
  shows "next_permutation fuel (p @ m @ q) (int (length p)) (int (length p) + int (length m)) = Inr (False, p @ rev m @ q)"
  unfolding next_permutation_def rev_pos_ends(1) rev_pos_ends(2) [of p m] Let_def assms using reverse_range [of p m q] by (simp add: rev_pos_def)

text \<open>The step at position \<open>k\<close> from the end, with the element to swap at position \<open>j\<close>.\<close>

lemma next_permutation_swaps:
  fixes m :: "'a::linorder list"
  assumes m: "m = p' @ x # s1 @ y # s2"
    and u: "is_sorted_until fuel rev_ops (p @ m @ q) (rev_pos p m 0) (rev_pos p m (length m)) std_less = Inr (rev_pos p m (length (s1 @ y # s2)))"
    and b: "upper_bound fuel rev_ops (p @ m @ q) (rev_pos p m 0) (rev_pos p m (length (s1 @ y # s2))) x (<) = Inr (rev_pos p m (length s2))"
  shows "next_permutation fuel (p @ m @ q) (int (length p)) (int (length p) + int (length m)) = Inr (True, p @ (p' @ y # rev (s1 @ x # s2)) @ q)"
proof -
  let ?k = "length (s1 @ y # s2)"
  have k: "?k < length m" using m by simp
  then have g: "it_get rev_ops (p @ m @ q) (rev_pos p m ?k) = Inr x" using bwd.pos_get [OF k, of p q] m by (simp add: rev_nth nth_append)
  have l: "it_ref rev_ops (rev_pos p m ?k) = int (length (p @ p'))" "it_ref rev_ops (rev_pos p m (length s2)) = int (length (p @ p')) + int (length s1) + 1"
    by (simp_all add: it_ref_rev_pos m)
  have sw: "iter_swap (p @ m @ q) (it_ref rev_ops (rev_pos p m ?k)) (it_ref rev_ops (rev_pos p m (length s2))) = Inr ((p @ p' @ [y]) @ (s1 @ x # s2) @ q)"
    unfolding l using iter_swap_two [of "p @ p'" x s1 y "s2 @ q"] m by simp
  have "rev_base (rev_pos p m ?k) = int (length (p @ p' @ [y]))" "int (length p) + int (length m) = int (length (p @ p' @ [y])) + int (length (s1 @ x # s2))"
    by (simp_all add: rev_pos_def m)
  then have r: "reverse ((p @ p' @ [y]) @ (s1 @ x # s2) @ q) (rev_base (rev_pos p m ?k)) (int (length p) + int (length m)) = Inr ((p @ p' @ [y]) @ rev (s1 @ x # s2) @ q)"
    by (simp only: reverse_range)
  have ne: "rev_pos p m ?k \<noteq> rev_pos p m (length m)" using k bwd.pos_eq [of p m ?k "length m"] by simp
  show ?thesis unfolding next_permutation_def rev_pos_ends(1) rev_pos_ends(2) [of p m] Let_def u bindr.simps if_P [OF ne] g b sw r using ne by simp
qed

lemma next_permutation_shape:
  fixes m :: "'a::linorder list"
  assumes fuel: "length m \<le> fuel"
  shows "(sorted (rev m) \<and> next_permutation fuel (p @ m @ q) (int (length p)) (int (length p) + int (length m)) = Inr (False, p @ rev m @ q))
    \<or> (\<exists>p' x s1 y s2. m = p' @ x # s1 @ y # s2 \<and> sorted (rev (s1 @ y # s2)) \<and> x < y \<and> (\<forall>z \<in> set s2. z \<le> x)
        \<and> next_permutation fuel (p @ m @ q) (int (length p)) (int (length p) + int (length m)) = Inr (True, p @ (p' @ y # rev (s1 @ x # s2)) @ q))"
proof -
  let ?R = "rev m"
  obtain k where k: "is_sorted_until fuel rev_ops (p @ m @ q) (rev_pos p m 0) (rev_pos p m (length m)) std_less = Inr (rev_pos p m k)" "k \<le> length m"
      "\<forall>i. 0 < i \<and> i < k \<longrightarrow> \<not> std_less (?R ! i) (?R ! (i - 1))" "k < length m \<longrightarrow> std_less (?R ! k) (?R ! (k - 1))" "0 < length m \<longrightarrow> 0 < k"
    using bwd.is_sorted_until_range [of "length m" m fuel p q std_less] fuel by auto
  have "?R ! i \<le> ?R ! Suc i" if "Suc i < k" for i using k(3) [rule_format, of "Suc i"] that by (simp add: std_less_def)
  then have so: "sorted (take k ?R)" using k(2) by (simp add: sorted_iff_nth_Suc)
  show ?thesis
  proof (cases "k = length m")
    case True
    then show ?thesis using next_permutation_last [of fuel p m q] k(1) so by simp
  next
    case False
    then have kl: "k < length m" using k(2) by simp
    have mono: "?R ! k < ?R ! i'" if "i \<le> i'" "i' < k" "?R ! k < ?R ! i" for i i'
      using that so sorted_nth_mono [OF so, of i i'] kl by simp
    then obtain j where j: "j \<le> k" "upper_bound fuel rev_ops (p @ m @ q) (rev_pos p m 0) (rev_pos p m k) (?R ! k) (<) = Inr (rev_pos p m j)"
        "\<forall>i < j. \<not> ?R ! k < ?R ! i" "\<forall>i. j \<le> i \<and> i < k \<longrightarrow> ?R ! k < ?R ! i"
      using bwd.upper_bound_range [of k m fuel "(<)" "?R ! k" p q] fuel kl by auto
    have k0: "0 < k" "?R ! k < ?R ! (k - 1)" using k(4,5) kl by (auto simp: std_less_def)
    then have jk: "j < k" using j(1,3) by (metis diff_less le_neq_implies_less zero_less_one)
    define p' s1 s2 where "p' = rev (drop (Suc k) ?R)" and "s1 = rev (drop (Suc j) (take k ?R))" and "s2 = rev (take j ?R)"
    have t: "take k ?R = rev (s1 @ ?R ! j # s2)" using jk kl id_take_nth_drop [of j "take k ?R"] by (simp add: s1_def s2_def min_def)
    have "?R = take k ?R @ ?R ! k # drop (Suc k) ?R" using kl by (simp add: id_take_nth_drop)
    then have m: "m = p' @ ?R ! k # s1 @ ?R ! j # s2" unfolding t p'_def by (metis append.assoc append_Cons rev_append rev_rev_ident rev.simps(2) append_Nil)
    have lk: "length (s1 @ ?R ! j # s2) = k" and lj: "length s2 = j" using kl jk by (simp_all add: s1_def s2_def)
    have "\<forall>z \<in> set s2. z \<le> ?R ! k" using j(3) jk kl by (auto simp: s2_def in_set_conv_nth not_less)
    moreover have "next_permutation fuel (p @ m @ q) (int (length p)) (int (length p) + int (length m)) = Inr (True, p @ (p' @ ?R ! j # rev (s1 @ ?R ! k # s2)) @ q)"
      by (rule next_permutation_swaps [OF m]) (simp_all only: lk lj k(1) j(2))
    ultimately show ?thesis using m so j(4) jk unfolding t by blast
  qed
qed


lemma next_permutation_cases:
  fixes m :: "'a::linorder list"
  assumes fuel: "length m \<le> fuel"
  shows "\<exists>b m'. next_permutation fuel (p @ m @ q) (int (length p)) (int (length p) + int (length m)) = Inr (b, p @ m' @ q)
    \<and> mset m' = mset m \<and> (b \<longleftrightarrow> (\<exists>zs. mset zs = mset m \<and> m < zs))
    \<and> (b \<longrightarrow> m < m' \<and> (\<forall>zs. mset zs = mset m \<and> m < zs \<longrightarrow> m' \<le> zs)) \<and> (\<not> b \<longrightarrow> m' = sort m)"
  using next_permutation_shape [OF fuel, of p q]
proof (elim disjE exE conjE)
  assume s: "sorted (rev m)" and e: "next_permutation fuel (p @ m @ q) (int (length p)) (int (length p) + int (length m)) = Inr (False, p @ rev m @ q)"
  have "\<not> m < zs" if "mset zs = mset m" for zs using desc_greatest_perm [OF s that] by simp
  moreover have "rev m = sort m" using s by (metis mset_rev properties_for_sort)
  ultimately show ?thesis using e by (intro exI [of _ False] exI [of _ "rev m"]) auto
next
  fix p' x s1 y s2
  assume m: "m = p' @ x # s1 @ y # s2" and s: "sorted (rev (s1 @ y # s2))" "x < y" "\<forall>z \<in> set s2. z \<le> x"
    and e: "next_permutation fuel (p @ m @ q) (int (length p)) (int (length p) + int (length m)) = Inr (True, p @ (p' @ y # rev (s1 @ x # s2)) @ q)"
  let ?m' = "p' @ y # rev (s1 @ x # s2)"
  have "mset ?m' = mset m" "m < ?m'" using m s(2) by (simp_all add: append_less_append)
  moreover have "?m' \<le> zs" if "mset zs = mset m" "m < zs" for zs using successor_least [OF s, of zs p'] that m by simp
  ultimately show ?thesis using e by (intro exI [of _ True] exI [of _ ?m']) blast
qed

text \<open>The \<open>do\<close>-\<open>while\<close> loop that runs a body for each permutation, with the list of what it saw.\<close>

fun visit_permutations :: "nat \<Rightarrow> nat \<Rightarrow> 'a::ord list \<Rightarrow> int \<Rightarrow> int \<Rightarrow> 'a list list result" where
  "visit_permutations 0 fuel xs first lst = Inl Out_of_fuel"
| "visit_permutations (Suc f) fuel xs first lst =
     bindr (next_permutation fuel xs first lst) (\<lambda>(b, xs'). if b then bindr (visit_permutations f fuel xs' first lst) (\<lambda>vs. Inr (xs # vs)) else Inr [xs])"

definition perms_from :: "'a::linorder list \<Rightarrow> 'a list set" where
  "perms_from m = {zs. mset zs = mset m \<and> m \<le> zs}"

lemma finite_perms_from: "finite (perms_from m)"
  by (rule finite_subset [OF _ finite_lists_length_eq [of "set m" "length m"]]) (auto simp: perms_from_def dest: mset_eq_length mset_eq_setD)

lemma sorted_perms_step:
  assumes "mset m' = mset m" "m < m'" "\<And>zs. mset zs = mset m \<Longrightarrow> m < zs \<Longrightarrow> m' \<le> zs"
  shows "sorted_list_of_set (perms_from m) = m # sorted_list_of_set (perms_from m')" "card (perms_from m) = Suc (card (perms_from m'))"
proof -
  have e: "perms_from m = insert m (perms_from m')" using assms by (auto simp: perms_from_def)
  have n: "m \<notin> perms_from m'" and lb: "\<And>x. x \<in> perms_from m' \<Longrightarrow> m \<le> x" using assms(2) by (auto simp: perms_from_def)
  show "sorted_list_of_set (perms_from m) = m # sorted_list_of_set (perms_from m')"
    unfolding e using n lb finite_perms_from [of m'] by (simp add: insort_is_Cons)
  show "card (perms_from m) = Suc (card (perms_from m'))" unfolding e using n finite_perms_from [of m'] by simp
qed

lemma visit_permutations_from:
  "length m \<le> fuel \<Longrightarrow> card (perms_from m) \<le> f \<Longrightarrow>
    visit_permutations f fuel (p @ m @ q) (int (length p)) (int (length p) + int (length m)) = Inr (map (\<lambda>zs. p @ zs @ q) (sorted_list_of_set (perms_from m)))"
proof (induction f arbitrary: m)
  case 0
  then have "perms_from m = {}" using finite_perms_from [of m] by simp
  then show ?case by (auto simp: perms_from_def)
next
  case (Suc f)
  obtain b m' where n: "next_permutation fuel (p @ m @ q) (int (length p)) (int (length p) + int (length m)) = Inr (b, p @ m' @ q)" "mset m' = mset m"
      "b \<longleftrightarrow> (\<exists>zs. mset zs = mset m \<and> m < zs)" "b \<Longrightarrow> m < m'" "\<And>zs. b \<Longrightarrow> mset zs = mset m \<Longrightarrow> m < zs \<Longrightarrow> m' \<le> zs"
    using next_permutation_cases [OF Suc.prems(1), of p q] by blast
  show ?case
  proof (cases b)
    case True
    note st = sorted_perms_step [OF n(2) n(4) [OF True] n(5) [OF True]]
    have l: "length m' = length m" using n(2) by (rule mset_eq_length)
    have "visit_permutations f fuel (p @ m' @ q) (int (length p)) (int (length p) + int (length m')) = Inr (map (\<lambda>zs. p @ zs @ q) (sorted_list_of_set (perms_from m')))"
      by (rule Suc.IH) (use Suc.prems l st(2) in simp_all)
    then show ?thesis using n(1) True st(1) l by simp
  next
    case False
    then have "perms_from m = {m}" using n(3) by (auto simp: perms_from_def order_le_less)
    then show ?thesis using n(1) False by simp
  qed
qed


lemma perms_from_sorted: "sorted m \<Longrightarrow> perms_from m = {zs. mset zs = mset m}"
  by (auto simp: perms_from_def sorted_least_perm)

lemma card_perms_le: "card {zs. mset zs = mset m} \<le> fact (length m)"
proof (induction m)
  case (Cons x m)
  let ?P = "{zs. mset zs = mset m}" and ?Q = "{zs. mset zs = mset (x # m)}"
  have fin: "finite ?P" by (rule finite_subset [OF _ finite_lists_length_eq [of "set m" "length m"]]) (auto dest: mset_eq_length mset_eq_setD)
  have sub: "?Q \<subseteq> (\<lambda>(i, zs). take i zs @ x # drop i zs) ` ({..length m} \<times> ?P)"
  proof
    fix zs assume "zs \<in> ?Q"
    then have z: "mset zs = mset (x # m)" by simp
    then have "x \<in> set zs" by (metis list.set_intros(1) mset_eq_setD)
    then obtain us vs where e: "zs = us @ x # vs" by (meson split_list)
    have "mset (us @ vs) = mset m" using z e by simp
    moreover from mset_eq_length [OF this] have "length us \<le> length m" by simp
    ultimately show "zs \<in> (\<lambda>(i, zs). take i zs @ x # drop i zs) ` ({..length m} \<times> ?P)"
      by (intro image_eqI [of _ _ "(length us, us @ vs)"]) (auto simp: e)
  qed
  have "card ?Q \<le> card ({..length m} \<times> ?P)" by (rule surj_card_le [OF _ sub]) (use fin in simp)
  also have "\<dots> = Suc (length m) * card ?P" by (simp add: card_cartesian_product)
  also have "\<dots> \<le> Suc (length m) * fact (length m)" using Cons.IH by (intro mult_le_mono) auto
  finally show ?case by simp
qed simp


text \<open>C37: \<open>next_permutation\<close> on a part of an array: every loop ends within as many steps as there are elements and no access leaves the part; the rest of the array is unchanged;
  the part is rearranged; the answer says whether there is a rearrangement above it in lexicographic order; if there is, the part becomes the least such rearrangement, otherwise it becomes
  sorted.\<close>

theorem next_permutation_successor:
  fixes m :: "'a::linorder list"
  assumes "length m \<le> fuel"
  shows "\<exists>b m'. next_permutation fuel (p @ m @ q) (int (length p)) (int (length p) + int (length m)) = Inr (b, p @ m' @ q)
    \<and> mset m' = mset m \<and> (b \<longleftrightarrow> (\<exists>zs. mset zs = mset m \<and> m < zs))
    \<and> (b \<longrightarrow> m < m' \<and> (\<forall>zs. mset zs = mset m \<and> m < zs \<longrightarrow> m' \<le> zs)) \<and> (\<not> b \<longrightarrow> m' = sort m)"
  by (rule next_permutation_cases [OF assms])

theorem next_permutation_successor_witness:
  "next_permutation 4 [9, 1, 3, 2, 2, 7 :: nat] 1 5 = Inr (True, [9, 2, 1, 2, 3, 7])
    \<and> \<not> (\<exists>zs. mset zs = mset [1, 3, 2, 2 :: nat] \<and> [1, 3, 2, 2] < zs \<and> zs < [2, 1, 2, 3])"
proof -
  have e: "next_permutation 4 [9, 1, 3, 2, 2, 7 :: nat] 1 5 = Inr (True, [9, 2, 1, 2, 3, 7])" by code_simp
  have "\<forall>zs. mset zs = mset [1, 3, 2, 2 :: nat] \<and> [1, 3, 2, 2] < zs \<longrightarrow> [2, 1, 2, 3] \<le> zs"
    using next_permutation_successor [of "[1, 3, 2, 2 :: nat]" 4 "[9]" "[7]"] e by (auto simp del: mset.simps)
  then show ?thesis using e by (auto simp: not_less [symmetric] simp del: mset.simps)
qed


text \<open>A \<open>do\<close>-\<open>while\<close> loop over \<open>next_permutation\<close> that starts with a sorted part ends, and its body sees every rearrangement of the part exactly once, in lexicographic order,
  between the same surroundings.\<close>

theorem permutations_enumerated:
  fixes m :: "'a::linorder list"
  assumes "sorted m" "length m \<le> fuel" "card {zs. mset zs = mset m} \<le> f"
  shows "visit_permutations f fuel (p @ m @ q) (int (length p)) (int (length p) + int (length m)) = Inr (map (\<lambda>zs. p @ zs @ q) (sorted_list_of_set {zs. mset zs = mset m}))"
  using visit_permutations_from [OF assms(2), of f p q] assms(3) unfolding perms_from_sorted [OF assms(1)] .

theorem permutations_enumerated_witness:
  "visit_permutations 6 3 [1, 2, 3 :: nat] 0 3 = Inr [[1, 2, 3], [1, 3, 2], [2, 1, 3], [2, 3, 1], [3, 1, 2], [3, 2, 1]]
    \<and> sorted_list_of_set {zs. mset zs = mset [1, 2, 3 :: nat]} = [[1, 2, 3], [1, 3, 2], [2, 1, 3], [2, 3, 1], [3, 1, 2], [3, 2, 1]]"
proof -
  have v: "visit_permutations 6 3 [1, 2, 3 :: nat] 0 3 = Inr [[1, 2, 3], [1, 3, 2], [2, 1, 3], [2, 3, 1], [3, 1, 2], [3, 2, 1]]" by code_simp
  have "card {zs. mset zs = mset [1, 2, 3 :: nat]} \<le> 6" using card_perms_le [of "[1, 2, 3 :: nat]"] by (simp add: numeral_eq_Suc)
  then show ?thesis using permutations_enumerated [of "[1, 2, 3 :: nat]" 3 6 "[]" "[]"] v by simp
qed


end
