(* ===== verification/MallocTests.thy ===== *)
theory MallocTests
  imports Malloc_Props Algorithm
begin

text \<open>
  The self-tests of the allocator, \<open>src/libc/tests/malloc.cpp\<close> with \<open>src/libc/include/libc/tests\<close>: the kernel runs them at every start before it looks at the ramdisk. The tests call
  \<open>malloc\<close> with the callback for more memory that the allocator has; a failed test ends in \<open>abort\<close>, so the theorem that the tests return is a theorem about the start of the kernel. It rests on
  the canonical form of a heap: the blocks of an allocation without adjacent free blocks are determined by the live ones.
\<close>

section \<open>The tests\<close>

definition AssertEq :: "'a \<Rightarrow> 'a \<Rightarrow> 'b result \<Rightarrow> 'b result" where
  "AssertEq found expected r = (if found \<noteq> expected then Inl Abort_called else r)"

definition AssertNe :: "'a \<Rightarrow> 'a \<Rightarrow> 'b result \<Rightarrow> 'b result" where
  "AssertNe found expected r = (if found = expected then Inl Abort_called else r)"

text \<open>A counting loop.\<close>

fun for_each :: "('x \<Rightarrow> 's \<Rightarrow> 's result) \<Rightarrow> 'x list \<Rightarrow> 's \<Rightarrow> 's result" where
  "for_each f [] s = Inr s"
| "for_each f (x # xs) s = bindr (f x s) (for_each f xs)"

definition basic_step :: "nat \<Rightarrow> 'k ask_for_more option \<Rightarrow> u32 \<Rightarrow> nat \<Rightarrow> nat \<Rightarrow> 'k \<times> mstate \<Rightarrow> ('k \<times> mstate) result" where
  "basic_step n gAskFunc avail sz shift = (\<lambda>(k, s).
     bindr (malloc n gAskFunc k s (word_of_nat sz) (push_bit shift 1)) (\<lambda>(ptr, k', s1).
     AssertNe ptr 0
     (bindr (free n s1 ptr) (\<lambda>s2.
      bindr (GetAvailMemory n s2) (\<lambda>now. AssertEq avail now (Inr (k', s2)))))))"

definition TestBasicMalloc :: "nat \<Rightarrow> 'k ask_for_more option \<Rightarrow> 'k \<times> mstate \<Rightarrow> ('k \<times> mstate) result" where
  "TestBasicMalloc n gAskFunc st =
     bindr (GetAvailMemory n (snd st)) (\<lambda>avail.
     for_each (\<lambda>sz. for_each (basic_step n gAskFunc avail sz) [0..<21]) [1..<1001] st)"

fun malloc_each :: "nat \<Rightarrow> 'k ask_for_more option \<Rightarrow> u32 list \<Rightarrow> u32 list \<Rightarrow> 'k \<times> mstate \<Rightarrow> (u32 list \<times> 'k \<times> mstate) result" where
  "malloc_each n gAskFunc [] ptrs st = Inr (ptrs, st)"
| "malloc_each n gAskFunc (sz # sizes) ptrs (k, s) =
     bindr (malloc_default n gAskFunc k s sz) (\<lambda>(ptr, k', s'). AssertNe ptr 0 (malloc_each n gAskFunc sizes (ptrs @ [ptr]) (k', s')))"

definition multiple_body :: "nat \<Rightarrow> 'k ask_for_more option \<Rightarrow> u32 \<Rightarrow> u32 list \<Rightarrow> 'k \<times> mstate \<Rightarrow> ('k \<times> mstate) result" where
  "multiple_body n gAskFunc avail sizes st =
     bindr (malloc_each n gAskFunc sizes [] st) (\<lambda>(ptrs, k, s).
     bindr (for_each (\<lambda>p s. free n s p) ptrs s) (\<lambda>s'.
     bindr (GetAvailMemory n s') (\<lambda>now. AssertEq avail now (Inr (k, s')))))"

fun multiple_loop :: "nat \<Rightarrow> nat \<Rightarrow> nat \<Rightarrow> 'k ask_for_more option \<Rightarrow> u32 \<Rightarrow> u32 list \<Rightarrow> int \<Rightarrow> int \<Rightarrow> 'k \<times> mstate \<Rightarrow> ('k \<times> mstate) result" where
  "multiple_loop 0 fuel n gAskFunc avail sizes first lst st = Inl Out_of_fuel"
| "multiple_loop (Suc f) fuel n gAskFunc avail sizes first lst st =
     bindr (multiple_body n gAskFunc avail sizes st) (\<lambda>st'.
     bindr (next_permutation fuel sizes first lst) (\<lambda>(more, sizes'). if more then multiple_loop f fuel n gAskFunc avail sizes' first lst st' else Inr st'))"

text \<open>\<open>end\<close> is the address of the last size, so the loop permutes the others.\<close>

definition test_sizes :: "u32 list" where
  "test_sizes = [1, 10, 100, 1000, 10000, 100000, 1000000]"

definition TestMultipleMallocs :: "nat \<Rightarrow> nat \<Rightarrow> nat \<Rightarrow> 'k ask_for_more option \<Rightarrow> 'k \<times> mstate \<Rightarrow> ('k \<times> mstate) result" where
  "TestMultipleMallocs f fuel n gAskFunc st =
     bindr (GetAvailMemory n (snd st)) (\<lambda>avail. multiple_loop f fuel n gAskFunc avail test_sizes 0 (int (length test_sizes) - 1) st)"

text \<open>\<open>TestFramework::Run\<close> with the \<open>Setup\<close> and \<open>Teardown\<close> of \<open>MallocTests\<close>.\<close>

definition Run_malloc_test :: "nat \<Rightarrow> ('k \<times> mstate \<Rightarrow> ('k \<times> mstate) result) \<Rightarrow> 'k \<times> mstate \<Rightarrow> ('k \<times> mstate) result" where
  "Run_malloc_test n func st =
     bindr (GetAvailMemory n (snd st)) (\<lambda>starting_avail_mem.
     bindr (func st) (\<lambda>st'.
     bindr (GetAvailMemory n (snd st')) (\<lambda>now. AssertEq starting_avail_mem now (Inr st'))))"

definition RunAllMallocTests :: "nat \<Rightarrow> nat \<Rightarrow> nat \<Rightarrow> 'k ask_for_more option \<Rightarrow> 'k \<times> mstate \<Rightarrow> ('k \<times> mstate) result" where
  "RunAllMallocTests f fuel n gAskFunc st =
     bindr (Run_malloc_test n (TestBasicMalloc n gAskFunc) st) (\<lambda>st1. Run_malloc_test n (TestMultipleMallocs f fuel n gAskFunc) st1)"

section \<open>The canonical form of a heap\<close>

lemma live_at_above: "(p, sz) \<in> live_at a bs \<Longrightarrow> a + 4 \<le> p"
  using live_at_range by blast

lemma merged_Cons: "merged (b # bs) \<Longrightarrow> merged bs"
  by (cases b; cases bs) auto

lemma merged_first:
  assumes "merged ((s, False) # bs)" "bs \<noteq> []" shows "\<exists>sz. (a + 4, sz) \<in> live_at a bs"
  using assms by (cases bs) auto

lemma merged_size_le:
  assumes "merged ((s, False) # bs)" "4 + s + bytes bs = 4 + t + bytes cs" "live_at (a + 4 + s) bs = live_at (a + 4 + t) cs"
  shows "t \<le> s"
proof (cases "bs = []")
  case True
  then show ?thesis using assms(2) by simp
next
  case False
  from merged_first [OF assms(1) False, of "a + 4 + s"] obtain sz where "(a + 4 + s + 4, sz) \<in> live_at (a + 4 + t) cs" using assms(3) by auto
  from live_at_above [OF this] show ?thesis by simp
qed

lemma merged_unique:
  "merged bs \<Longrightarrow> merged cs \<Longrightarrow> bytes bs = bytes cs \<Longrightarrow> live_at a bs = live_at a cs \<Longrightarrow> bs = cs"
proof (induction bs arbitrary: a cs)
  case Nil
  then show ?case by (cases cs rule: bytes.cases) auto
next
  case (Cons b bs)
  obtain s u where b: "b = (s, u)" by (cases b)
  obtain t v cs' where cs: "cs = (t, v) # cs'" using Cons.prems(3) b by (cases cs rule: bytes.cases) auto
  have tails: "merged bs" "merged cs'" using Cons.prems(1,2) cs by (auto dest: merged_Cons)
  have above: "(a + 4, z) \<notin> live_at (a + 4 + r) xs" for z r xs using live_at_above [of "a + 4" z "a + 4 + r" xs] by auto
  have l: "(if u then {(a + 4, s)} else {}) \<union> live_at (a + 4 + s) bs = (if v then {(a + 4, t)} else {}) \<union> live_at (a + 4 + t) cs'"
    using Cons.prems(4) b cs by simp
  have uv: "u = v" using l above [of s t cs'] above [of t s bs] by (auto split: if_splits)
  have st: "s = t"
  proof (cases u)
    case True
    then show ?thesis using l uv above [of s t cs'] by auto
  next
    case False
    then have f: "merged ((s, False) # bs)" "merged ((t, False) # cs')" and e: "live_at (a + 4 + s) bs = live_at (a + 4 + t) cs'"
      and n: "4 + s + bytes bs = 4 + t + bytes cs'" using Cons.prems b cs uv l by auto
    show ?thesis using merged_size_le [OF f(1) n e] merged_size_le [OF f(2) n [symmetric] e [symmetric]] by simp
  qed
  have "live_at (a + 4 + s) bs = live_at (a + 4 + s) cs'"
    using l uv st above [of s s bs] above [of s s cs'] by (cases u) (simp_all add: insert_ident)
  then show ?case using Cons.IH [OF tails, of "a + 4 + s"] Cons.prems(3) b cs uv st by simp
qed

section \<open>Room in a heap\<close>

definition roomy :: "nat \<Rightarrow> block list \<Rightarrow> bool" where
  "roomy F bs \<longleftrightarrow> F = 0 \<or> (\<exists>sz. (sz, False) \<in> set bs \<and> F \<le> sz)"

lemma roomy_mono: "roomy F bs \<Longrightarrow> F' \<le> F \<Longrightarrow> roomy F' bs"
  by (auto simp: roomy_def)

lemma roomy_merge: "roomy F bs \<Longrightarrow> roomy F (merge_blocks bs)"
proof (induction bs rule: merge_blocks.induct)
  case (3 s u t v bs)
  show ?case
  proof (cases "\<not> u \<and> \<not> v")
    case True
    then have "roomy F ((s + 4 + t, False) # bs)" using 3(3) by (auto simp: roomy_def)
    then show ?thesis using 3(1) True by simp
  next
    case False
    then show ?thesis using 3(2,3) by (auto simp: roomy_def)
  qed
qed auto

lemma split_free_roomy:
  assumes "d + 2 * al \<le> sz" "0 < al" "0 < d" shows "split_free ad sz d al \<noteq> None"
proof -
  have "aligned_start ad al < ad + 2 * al" using round_up_props [OF assms(2), of ad] assms(2) by (auto simp: aligned_start_def Let_def)
  then show ?thesis using assms by (auto simp: split_free_def Let_def)
qed

lemma find_fit_found:
  "(sz, False) \<in> set bs \<Longrightarrow> (\<And>ad. 4 dvd ad \<Longrightarrow> split_free ad sz d al \<noteq> None) \<Longrightarrow> \<forall>b \<in> set bs. block_ok b \<Longrightarrow> 4 dvd a \<Longrightarrow> find_fit a bs d al \<noteq> None"
proof (induction a bs d al rule: find_fit.induct)
  case (2 a s u bs d al)
  show ?case
  proof (cases "(s, u) = (sz, False)")
    case True
    then show ?thesis using 2(3) [of "a + 4"] 2(5) by (auto split: option.splits)
  next
    case False
    have "4 dvd a + 4 + s" using 2(4,5) by (auto simp: block_ok_def)
    then have "find_fit (a + 4 + s) bs d al \<noteq> None" if "(if u then None else split_free (a + 4) s d al) = None"
      using 2(1) [OF that] 2(2-4) False by auto
    then show ?thesis by (auto split: option.splits)
  qed
qed simp

text \<open>At the default alignment a block that is taken from a large free block leaves the rest of it.\<close>

lemma split_free_front: "4 dvd ad \<Longrightarrow> split_free ad sz d 4 = (if sz < d then None else Some ([], split_front sz d))"
  by (simp add: split_free_def)

lemma find_fit_leaves:
  assumes "find_fit a bs d 4 = Some (p, bs')" "roomy F bs" "d + 8 \<le> F" "\<forall>b \<in> set bs. block_ok b" "4 dvd a"
  shows "roomy (F - (d + 8)) bs'"
  using assms
proof (induction a bs d "4::nat" arbitrary: p bs' rule: find_fit.induct)
  case (2 a s u bs d)
  have a4: "4 dvd a + 4" "4 dvd a + 4 + s" using 2(5,6) by (auto simp: block_ok_def)
  show ?case
  proof (cases "if u then None else split_free (a + 4) s d 4")
    case None
    with 2(2) obtain bs'' where f: "find_fit (a + 4 + s) bs d 4 = Some (p, bs'')" "bs' = (s, u) # bs''" by auto
    have "s < F" if "\<not> u" using None that a4 2(4) by (auto simp: split_free_front split: if_splits)
    then have "roomy F bs" using 2(3) by (auto simp: roomy_def)
    from 2(1) [OF None f(1) this 2(4)] 2(5) a4 f(2) show ?thesis by (auto simp: roomy_def)
  next
    case (Some x)
    then have u: "\<not> u" "d \<le> s" and x: "x = ([], split_front s d)" using a4 by (auto simp: split_free_front split: if_splits)
    obtain sz' post where sf: "split_front s d = (sz', post)" by (cases "split_front s d")
    have bs': "bs' = (sz', True) # post @ bs" using 2(2) Some x sf by auto
    show ?thesis
    proof (cases "F \<le> s")
      case True
      then have "post = [(s - d - 4, False)]" using sf 2(4) by (auto simp: split_front_def split: if_splits)
      then show ?thesis using bs' True by (auto simp: roomy_def)
    next
      case False
      then show ?thesis using 2(3) u bs' by (fastforce simp: roomy_def)
    qed
  qed
qed simp


section \<open>The operations on one allocation\<close>

text \<open>The heap is one allocation without adjacent free blocks, its live blocks are \<open>L\<close>, and a free block has at least \<open>F\<close> bytes.\<close>

definition arena_holds :: "mstate \<Rightarrow> arena \<Rightarrow> (nat \<times> nat) set \<Rightarrow> nat \<Rightarrow> bool" where
  "arena_holds s A L F \<longleftrightarrow> (\<exists>bs. heap_wf s [A\<lparr>blocks := bs\<rparr>] \<and> merged bs \<and> bytes bs = bytes (blocks A) \<and> live_at (base A + 8) bs = L \<and> roomy F bs)"

lemma arena_holds_restored:
  assumes "arena_holds s A (live_at (base A + 8) (blocks A)) F" "merged (blocks A)"
  shows "heap_wf s [A]"
proof -
  obtain bs where bs: "heap_wf s [A\<lparr>blocks := bs\<rparr>]" "merged bs" "bytes bs = bytes (blocks A)" "live_at (base A + 8) bs = live_at (base A + 8) (blocks A)"
    using assms(1) by (auto simp: arena_holds_def)
  have "bs = blocks A" by (rule merged_unique [OF bs(2) assms(2) bs(3,4)])
  then show ?thesis using bs(1) by simp
qed

lemma heap_wf_facts:
  assumes "heap_wf s [A\<lparr>blocks := bs\<rparr>]"
  shows "\<forall>b \<in> set bs. block_ok b" "4 dvd base A + 8" "0x10000000 \<le> n \<Longrightarrow> heap_fuel n [A\<lparr>blocks := bs\<rparr>]" "bs \<noteq> []"
  using assms heap_fuel_enough [of "[A\<lparr>blocks := bs\<rparr>]" n] by (auto simp: heap_wf_def arena_ok_def)

lemma malloc_fit:
  assumes wf: "heap_wf s [A\<lparr>blocks := cs\<rparr>]" and n: "0x10000000 \<le> n" and sz: "sz \<noteq> 0" "unat sz \<le> 0x7FFFFFFC" and k: "k < 32"
    and fit: "find_fit (base A + 8) cs (request_size sz) (2 ^ max k 2) = Some (q, bs)"
  shows "\<exists>s' bz. malloc n ask c s sz (2 ^ k) = Inr (word_of_nat q, c, s') \<and> heap_wf s' [A\<lparr>blocks := merge_blocks bs\<rparr>]
    \<and> (word_of_nat q :: u32) \<noteq> 0 \<and> unat (word_of_nat q :: u32) = q \<and> bytes bs = bytes cs
    \<and> live_at (base A + 8) bs = insert (q, bz) (live_at (base A + 8) cs) \<and> q \<notin> fst ` live_at (base A + 8) cs"
proof -
  note h = heap_wf_facts [OF wf]
  note ref = MallocImpl_refines [OF wf h(3) [OF n] sz k]
  with fit obtain s' where m: "MallocImpl n s sz (2 ^ k) = Inr (word_of_nat q, s')" and wf': "heap_wf s' [A\<lparr>blocks := merge_blocks bs\<rparr>]"
    by (auto cong: if_cong)
  have rq: "0 < request_size sz" "4 dvd request_size sz" using request_size_props [of sz] by auto
  have al: "4 dvd (2::nat) ^ max k 2" using le_imp_power_dvd [of 2 "max k 2" "2::nat"] by simp
  from find_fit_props [OF fit h(1) rq al _ h(2)] obtain bz where
    bz: "live_at (base A + 8) bs = insert (q, bz) (live_at (base A + 8) cs)" "q \<notin> fst ` live_at (base A + 8) cs" "bytes bs = bytes cs" by auto
  have lv: "(q, bz) \<in> live [A\<lparr>blocks := merge_blocks bs\<rparr>]" using bz by simp
  have u: "unat (word_of_nat q :: u32) = q" using live_header(7) [OF wf' lv] by (simp add: unat_of_nat_u32)
  then have q0: "(word_of_nat q :: u32) \<noteq> 0" using live_header(5) [OF wf' lv] by (metis unat_0 not_less0)
  have "malloc n ask c s sz (2 ^ k) = Inr (word_of_nat q, c, s')"
    using m ValidateMalloc_refines [OF wf' heap_wf_facts(3) [OF wf' n]] q0 by (simp add: malloc_def)
  then show ?thesis using wf' bz u q0 by blast
qed

lemma roomy_release: "roomy F bs \<Longrightarrow> roomy F (release p a bs)"
proof (induction p a bs rule: release.induct)
  case (2 p a sz u bs)
  then show ?case by (auto simp: roomy_def)
qed simp

lemma free_holds:
  assumes "arena_holds s A L F" "(unat p, bz) \<in> L" "0x10000000 \<le> n"
  shows "\<exists>s'. free n s p = Inr s' \<and> arena_holds s' A (L - {(unat p, bz)}) F"
proof -
  obtain bs where bs: "heap_wf s [A\<lparr>blocks := bs\<rparr>]" "bytes bs = bytes (blocks A)" "live_at (base A + 8) bs = L" "roomy F bs"
    using assms(1) by (auto simp: arena_holds_def)
  let ?r = "merge_blocks (release (unat p) (base A + 8) bs)"
  have lv: "(unat p, bz) \<in> live [A\<lparr>blocks := bs\<rparr>]" using assms(2) bs(3) by simp
  from free_refines [OF bs(1) heap_wf_facts(3) [OF bs(1) assms(3)] lv] obtain s' where
    s': "free n s p = Inr s'" "heap_wf s' [A\<lparr>blocks := ?r\<rparr>]" by (auto simp: release_arenas_def cong: if_cong)
  have "live_at (base A + 8) ?r = L - {(unat p, bz)}" using release_live [of "unat p" bz "base A + 8" bs] assms(2) bs(3) by simp
  then have "arena_holds s' A (L - {(unat p, bz)}) F" using s'(2) bs(2) roomy_merge [OF roomy_release [OF bs(4)]] merged_merge_blocks
    unfolding arena_holds_def by (intro exI [of _ ?r]) simp
  then show ?thesis using s'(1) by blast
qed

text \<open>A request that fits well within the free block is granted, with a little less room afterwards at the default alignment.\<close>

lemma malloc_holds:
  assumes h: "arena_holds s A L F" and n: "0x10000000 \<le> n" and sz: "sz \<noteq> 0" "request_size sz + 8 \<le> F"
  shows "\<exists>p s' bz. malloc_default n ask c s sz = Inr (p, c, s') \<and> p \<noteq> 0 \<and> unat p \<notin> fst ` L
    \<and> arena_holds s' A (insert (unat p, bz) L) (F - (request_size sz + 8))"
proof -
  obtain cs where cs: "heap_wf s [A\<lparr>blocks := cs\<rparr>]" "bytes cs = bytes (blocks A)" "live_at (base A + 8) cs = L" "roomy F cs"
    using h by (auto simp: arena_holds_def)
  note f = heap_wf_facts [OF cs(1)]
  obtain t where t: "(t, False) \<in> set cs" "F \<le> t" using cs(4) sz(2) by (auto simp: roomy_def)
  have "t \<le> bytes cs" using t(1) by (induction cs rule: bytes.induct) auto
  also have "bytes cs < 0x400000" using cs(1) by (auto simp: heap_wf_def arena_ok_def asize_def)
  finally have small: "unat sz \<le> 0x7FFFFFFC" using t(2) sz(2) request_size_props(1) [of sz] by simp
  have "find_fit (base A + 8) cs (request_size sz) 4 \<noteq> None"
    by (rule find_fit_found [OF t(1) _ f(1,2)]) (use t(2) sz(2) in \<open>simp add: split_free_front\<close>)
  then obtain q bs where fit: "find_fit (base A + 8) cs (request_size sz) 4 = Some (q, bs)" by auto
  have k2: "(2::nat) < 32" "2 ^ max 2 2 = (4::nat)" "kMinAlign = 2 ^ 2" by (simp_all add: kMinAlign_def kMinSize_def)
  from malloc_fit [OF cs(1) n sz(1) small k2(1), unfolded k2(2), OF fit, of ask c] obtain s' bz where
    m: "malloc n ask c s sz kMinAlign = Inr (word_of_nat q, c, s')" "heap_wf s' [A\<lparr>blocks := merge_blocks bs\<rparr>]" "(word_of_nat q :: u32) \<noteq> 0"
      "unat (word_of_nat q :: u32) = q" "bytes bs = bytes cs" "live_at (base A + 8) bs = insert (q, bz) L" "q \<notin> fst ` L"
    unfolding k2(3) cs(3) by blast
  have "roomy (F - (request_size sz + 8)) (merge_blocks bs)" by (rule roomy_merge [OF find_fit_leaves [OF fit cs(4) sz(2) f(1,2)]])
  then have "arena_holds s' A (insert (unat (word_of_nat q :: u32), bz) L) (F - (request_size sz + 8))"
    using m cs(2) merged_merge_blocks unfolding arena_holds_def by (intro exI [of _ "merge_blocks bs"]) simp
  then show ?thesis using m unfolding malloc_default_def by (metis (no_types))
qed

lemma GetAvail_arena: "heap_wf s [A] \<Longrightarrow> 0x10000000 \<le> n \<Longrightarrow> GetAvailMemory n s = Inr (word_of_nat (free_total [A]))"
  by (metis GetAvailMemory_refines heap_fuel_enough heap_wf_def)


section \<open>The tests pass\<close>

lemma for_each_inv:
  "(\<And>x s. x \<in> set xs \<Longrightarrow> P s \<Longrightarrow> \<exists>s'. f x s = Inr s' \<and> P s') \<Longrightarrow> P s \<Longrightarrow> \<exists>s'. for_each f xs s = Inr s' \<and> P s'"
proof (induction xs arbitrary: s)
  case (Cons x xs)
  obtain s1 where s1: "f x s = Inr s1" "P s1" using Cons.prems(1) [of x s] Cons.prems(2) by auto
  have "\<exists>s'. for_each f xs s1 = Inr s' \<and> P s'" by (rule Cons.IH [OF _ s1(2)]) (use Cons.prems(1) in auto)
  then show ?case using s1(1) by simp
qed simp

lemma basic_step_passes:
  assumes wf: "heap_wf s [A]" and mg: "merged (blocks A)" and room: "roomy 0x200400 (blocks A)" and n: "0x10000000 \<le> n"
    and sz: "0 < sz" "sz \<le> 1000" and sh: "shift < 21"
  shows "\<exists>s'. basic_step n ask (word_of_nat (free_total [A])) sz shift (c, s) = Inr (c, s') \<and> heap_wf s' [A]"
proof -
  let ?w = "word_of_nat sz :: u32" and ?al = "2 ^ max shift 2 :: nat"
  have w: "unat ?w = sz" using sz by (simp add: unat_of_nat_u32)
  then have w0: "?w \<noteq> 0" "unat ?w \<le> 0x7FFFFFFC" using sz by auto
  have d: "request_size ?w \<le> 1003" "0 < request_size ?w" using round_up_props [of 4 "max sz 4"] sz w by (auto simp: request_size_def)
  have al: "?al \<le> 2 ^ 20" using sh by (intro power_increasing) auto
  have wf0: "heap_wf s [A\<lparr>blocks := blocks A\<rparr>]" using wf by simp
  note h = heap_wf_facts [OF wf0]
  obtain t where t: "(t, False) \<in> set (blocks A)" "0x200400 \<le> t" using room by (auto simp: roomy_def)
  have big: "request_size ?w + 2 * ?al \<le> t" using t(2) d(1) al by simp
  have "find_fit (base A + 8) (blocks A) (request_size ?w) ?al \<noteq> None"
    by (rule find_fit_found [OF t(1) split_free_roomy [OF big] h(1,2)]) (use d(2) in simp_all)
  then obtain q bs where fit: "find_fit (base A + 8) (blocks A) (request_size ?w) ?al = Some (q, bs)" by auto
  have sh32: "shift < 32" using sh by simp
  from malloc_fit [OF wf0 n w0 sh32 fit, of ask c] obtain s1 bz where
    m: "malloc n ask c s ?w (2 ^ shift) = Inr (word_of_nat q, c, s1)" "heap_wf s1 [A\<lparr>blocks := merge_blocks bs\<rparr>]" "(word_of_nat q :: u32) \<noteq> 0"
      "unat (word_of_nat q :: u32) = q" "bytes bs = bytes (blocks A)" "live_at (base A + 8) bs = insert (q, bz) (live_at (base A + 8) (blocks A))"
      "q \<notin> fst ` live_at (base A + 8) (blocks A)" by blast
  have "arena_holds s1 A (insert (q, bz) (live_at (base A + 8) (blocks A))) 0"
    using m merged_merge_blocks unfolding arena_holds_def by (intro exI [of _ "merge_blocks bs"]) (simp add: roomy_def)
  from free_holds [OF this _ n, of "word_of_nat q" bz] m(4) obtain s2 where
    s2: "free n s1 (word_of_nat q) = Inr s2" "arena_holds s2 A (insert (q, bz) (live_at (base A + 8) (blocks A)) - {(q, bz)}) 0" by auto
  have "insert (q, bz) (live_at (base A + 8) (blocks A)) - {(q, bz)} = live_at (base A + 8) (blocks A)" using m(7) by force
  then have "heap_wf s2 [A]" using s2(2) arena_holds_restored mg by metis
  then show ?thesis using m(1,3) s2(1) GetAvail_arena [of s2 A n] n by (simp add: basic_step_def AssertNe_def AssertEq_def push_bit_eq_mult)
qed

lemma malloc_each_holds:
  "arena_holds s A L F \<Longrightarrow> \<forall>z \<in> set szs. z \<noteq> 0 \<Longrightarrow> sum_list (map (\<lambda>z. request_size z + 8) szs) \<le> F \<Longrightarrow> 0x10000000 \<le> n \<Longrightarrow>
    \<exists>ps s' Q. malloc_each n ask szs acc (c, s) = Inr (acc @ ps, c, s') \<and> arena_holds s' A (L \<union> set Q) 0
      \<and> map fst Q = map unat ps \<and> distinct (map fst Q) \<and> fst ` L \<inter> fst ` set Q = {}"
proof (induction szs arbitrary: s L F acc)
  case Nil
  then have "arena_holds s A L 0" by (auto simp: arena_holds_def roomy_def)
  then show ?case by (intro exI [of _ "[]"]) simp
next
  case (Cons z szs)
  have "request_size z + 8 \<le> F" using Cons.prems(3) by simp
  from malloc_holds [OF Cons.prems(1,4) _ this, of ask c] Cons.prems(2) obtain p s1 bz where
    p: "malloc_default n ask c s z = Inr (p, c, s1)" "p \<noteq> 0" "unat p \<notin> fst ` L" "arena_holds s1 A (insert (unat p, bz) L) (F - (request_size z + 8))" by auto
  have "\<forall>z \<in> set szs. z \<noteq> 0" "sum_list (map (\<lambda>z. request_size z + 8) szs) \<le> F - (request_size z + 8)" using Cons.prems(2,3) by simp_all
  from Cons.IH [OF p(4) this Cons.prems(4), of "acc @ [p]"] obtain ps s' Q where
    q: "malloc_each n ask szs (acc @ [p]) (c, s1) = Inr (acc @ p # ps, c, s')" "arena_holds s' A (insert (unat p, bz) L \<union> set Q) 0"
      "map fst Q = map unat ps" "distinct (map fst Q)" "fst ` insert (unat p, bz) L \<inter> fst ` set Q = {}" by auto
  have "insert (unat p, bz) L \<union> set Q = L \<union> set ((unat p, bz) # Q)" by auto
  then have "arena_holds s' A (L \<union> set ((unat p, bz) # Q)) 0" using q(2) by metis
  moreover have "distinct (map fst ((unat p, bz) # Q))" "fst ` L \<inter> fst ` set ((unat p, bz) # Q) = {}" using p(3) q(4,5) by auto
  ultimately show ?case using p(1,2) q(1,3) by (intro exI [of _ "p # ps"] exI [of _ s'] exI [of _ "(unat p, bz) # Q"]) (simp add: AssertNe_def)
qed

lemma free_each_holds:
  "arena_holds s A (L \<union> set Q) F \<Longrightarrow> map fst Q = map unat ps \<Longrightarrow> distinct (map fst Q) \<Longrightarrow> fst ` L \<inter> fst ` set Q = {} \<Longrightarrow> 0x10000000 \<le> n \<Longrightarrow>
    \<exists>s'. for_each (\<lambda>p s. free n s p) ps s = Inr s' \<and> arena_holds s' A L F"
proof (induction Q arbitrary: s ps)
  case (Cons x Q)
  obtain p ps' bz where e: "ps = p # ps'" "x = (unat p, bz)" "map fst Q = map unat ps'" using Cons.prems(2) by (cases ps; cases x) auto
  have "(unat p, bz) \<in> L \<union> set (x # Q)" using e(2) by simp
  from free_holds [OF Cons.prems(1) this Cons.prems(5)] obtain s1 where
    s1: "free n s p = Inr s1" "arena_holds s1 A (L \<union> set (x # Q) - {(unat p, bz)}) F" by blast
  have "L \<union> set (x # Q) - {(unat p, bz)} = L \<union> set Q" using Cons.prems(3,4) e(2) by force
  then have "\<exists>s'. for_each (\<lambda>p s. free n s p) ps' s1 = Inr s' \<and> arena_holds s' A L F"
    using Cons.IH [of s1 ps'] s1(2) e(3) Cons.prems(3-5) by auto
  then show ?case using s1(1) e(1) by simp
qed simp


lemma multiple_body_passes:
  assumes wf: "heap_wf s [A]" and mg: "merged (blocks A)" and room: "roomy F (blocks A)" and n: "0x10000000 \<le> n"
    and szs: "\<forall>z \<in> set szs. z \<noteq> 0" "sum_list (map (\<lambda>z. request_size z + 8) szs) \<le> F"
  shows "\<exists>s'. multiple_body n ask (word_of_nat (free_total [A])) szs (c, s) = Inr (c, s') \<and> heap_wf s' [A]"
proof -
  let ?L = "live_at (base A + 8) (blocks A)"
  have "heap_wf s [A\<lparr>blocks := blocks A\<rparr>]" using wf by simp
  then have "arena_holds s A ?L F" using mg room unfolding arena_holds_def by blast
  from malloc_each_holds [OF this szs n, of ask "[]" c] obtain ps s1 Q where
    m: "malloc_each n ask szs [] (c, s) = Inr (ps, c, s1)" "arena_holds s1 A (?L \<union> set Q) 0"
      "map fst Q = map unat ps" "distinct (map fst Q)" "fst ` ?L \<inter> fst ` set Q = {}" by auto
  from free_each_holds [OF m(2-5) n] obtain s2 where s2: "for_each (\<lambda>p s. free n s p) ps s1 = Inr s2" "arena_holds s2 A ?L 0" by blast
  have "heap_wf s2 [A]" by (rule arena_holds_restored [OF s2(2) mg])
  then show ?thesis using m(1) s2(1) GetAvail_arena [of s2 A n] n by (simp add: multiple_body_def AssertEq_def)
qed

text \<open>The loop runs the body on the arrays that \<open>next_permutation\<close> produces.\<close>

lemma multiple_loop_visits:
  "visit_permutations f fuel xs first lst = Inr vs \<Longrightarrow> (\<And>v st. v \<in> set vs \<Longrightarrow> P st \<Longrightarrow> \<exists>st'. multiple_body n ask av v st = Inr st' \<and> P st') \<Longrightarrow> P st \<Longrightarrow>
    \<exists>st'. multiple_loop f fuel n ask av xs first lst st = Inr st' \<and> P st'"
proof (induction f arbitrary: xs vs st)
  case (Suc f)
  obtain b xs' where np: "next_permutation fuel xs first lst = Inr (b, xs')" using Suc.prems(1) by auto
  have "xs \<in> set vs" using Suc.prems(1) np by (auto split: if_splits)
  then obtain st1 where st1: "multiple_body n ask av xs st = Inr st1" "P st1" using Suc.prems(2) [of xs st] Suc.prems(3) by auto
  show ?case
  proof (cases b)
    case True
    then obtain vs' where vs': "visit_permutations f fuel xs' first lst = Inr vs'" "vs = xs # vs'" using Suc.prems(1) np by auto
    have "\<exists>st'. multiple_loop f fuel n ask av xs' first lst st1 = Inr st' \<and> P st'"
      by (rule Suc.IH [OF vs'(1) _ st1(2)]) (use Suc.prems(2) vs'(2) in auto)
    then show ?thesis using np st1(1) True by simp
  qed (use np st1 in simp)
qed simp

lemma sum_list_perm: "mset xs = mset ys \<Longrightarrow> sum_list (map f xs) = (sum_list (map f ys) :: nat)"
  by (metis mset_map sum_mset_sum_list)

lemma multiple_passes:
  assumes wf: "heap_wf s [A]" and mg: "merged (blocks A)" and room: "roomy 0x200400 (blocks A)" and n: "0x10000000 \<le> n"
    and f: "720 \<le> f" "6 \<le> fuel"
  shows "\<exists>s'. TestMultipleMallocs f fuel n ask (c, s) = Inr (c, s') \<and> heap_wf s' [A]"
proof -
  let ?m = "[1, 10, 100, 1000, 10000, 100000] :: u32 list" and ?P = "\<lambda>(c', s'). c' = c \<and> heap_wf s' [A]"
  have "card {zs. mset zs = mset ?m} \<le> f" using card_perms_le [of ?m] f(1) by (simp add: fact_numeral)
  then have v: "visit_permutations f fuel test_sizes 0 (int (length test_sizes) - 1) = Inr (map (\<lambda>zs. zs @ [1000000]) (sorted_list_of_set (perms_from ?m)))"
    using visit_permutations_from [of ?m fuel f "[]" "[1000000]"] perms_from_sorted [of ?m] f(2) by (simp add: test_sizes_def)
  have body: "\<exists>st'. multiple_body n ask (word_of_nat (free_total [A])) v st = Inr st' \<and> ?P st'"
    if v: "v \<in> set (map (\<lambda>zs. zs @ [1000000]) (sorted_list_of_set (perms_from ?m)))" and P: "?P st" for v st
  proof -
    obtain zs where zs: "v = zs @ [1000000]" "mset zs = mset ?m" using v finite_perms_from [of ?m] by (auto simp: perms_from_def)
    have "mset v = mset test_sizes" using zs by (simp add: test_sizes_def)
    then have e: "set v = set test_sizes" "sum_list (map (\<lambda>z. request_size z + 8) v) = sum_list (map (\<lambda>z. request_size z + 8) test_sizes)"
      by (metis mset_eq_setD) (rule sum_list_perm [OF \<open>mset v = _\<close>])
    have nz: "\<forall>z \<in> set v. z \<noteq> 0" and sm: "sum_list (map (\<lambda>z. request_size z + 8) v) \<le> 0x200400"
      unfolding e by (simp_all add: test_sizes_def request_size_def round_up_def)
    from P obtain s0 where "st = (c, s0)" "heap_wf s0 [A]" by (cases st) auto
    with multiple_body_passes [OF _ mg room n nz sm, of s0 ask c] show ?thesis by auto
  qed
  from multiple_loop_visits [OF v body, of "(c, s)"] wf show ?thesis
    using GetAvail_arena [OF wf n] by (auto simp: TestMultipleMallocs_def)
qed

lemma basic_passes:
  assumes wf: "heap_wf s [A]" and mg: "merged (blocks A)" and room: "roomy 0x200400 (blocks A)" and n: "0x10000000 \<le> n"
  shows "\<exists>s'. TestBasicMalloc n ask (c, s) = Inr (c, s') \<and> heap_wf s' [A]"
proof -
  let ?P = "\<lambda>(c', s'). c' = c \<and> heap_wf s' [A]" and ?av = "word_of_nat (free_total [A]) :: u32"
  have st: "\<exists>st'. basic_step n ask ?av sz shift st = Inr st' \<and> ?P st'" if "sz \<in> set [1..<1001]" "shift \<in> set [0..<21]" "?P st" for sz shift st
    using basic_step_passes [of "snd st" A n sz shift ask c] mg room n that by (cases st) auto
  have inner: "\<exists>st'. for_each (basic_step n ask ?av sz) [0..<21] st = Inr st' \<and> ?P st'" if "sz \<in> set [1..<1001]" "?P st" for sz st
    by (rule for_each_inv [where P = ?P, OF st [OF that(1)] that(2)])
  have "\<exists>st'. for_each (\<lambda>sz. for_each (basic_step n ask ?av sz) [0..<21]) [1..<1001] (c, s) = Inr st' \<and> ?P st'"
    by (rule for_each_inv [where P = ?P, OF inner]) (use wf in simp_all)
  then show ?thesis using GetAvail_arena [OF wf n] by (auto simp: TestBasicMalloc_def simp del: upt_rec_numeral)
qed


lemma Run_passes:
  assumes "heap_wf s [A]" "0x10000000 \<le> n" "\<exists>s'. func (c, s) = Inr (c, s') \<and> heap_wf s' [A]"
  shows "\<exists>s'. Run_malloc_test n func (c, s) = Inr (c, s') \<and> heap_wf s' [A]"
  using assms GetAvail_arena [OF _ assms(2)] by (auto simp: Run_malloc_test_def AssertEq_def)

lemma all_malloc_tests_pass:
  assumes "heap_wf s [A]" "merged (blocks A)" "roomy 0x200400 (blocks A)" "0x10000000 \<le> n" "720 \<le> f" "6 \<le> fuel"
  shows "\<exists>s'. RunAllMallocTests f fuel n ask (c, s) = Inr (c, s') \<and> heap_wf s' [A]"
proof -
  from Run_passes [of s A n "TestBasicMalloc n ask" c, OF assms(1,4) basic_passes [OF assms(1-4)]] obtain s1 where
    s1: "Run_malloc_test n (TestBasicMalloc n ask) (c, s) = Inr (c, s1)" "heap_wf s1 [A]" by blast
  from Run_passes [of s1 A n "TestMultipleMallocs f fuel n ask" c, OF s1(2) assms(4) multiple_passes [OF s1(2) assms(2-6)]] s1(1) show ?thesis by (auto simp: RunAllMallocTests_def)
qed

text \<open>C36: The self-tests of the allocator pass: on a heap of one allocation without adjacent free blocks, one of which has 0x200400 bytes, with any callback for more memory, whatever blocks are live,
  \<open>RunAllMallocTests\<close> returns (21000 aligned blocks one after the other, then seven blocks in 720 orders), no assertion fails, the callback is not called and the heap is the one it was.\<close>

theorem malloc_tests_pass:
  assumes "heap_wf s [A]" "merged (blocks A)" "roomy 0x200400 (blocks A)" "0x10000000 \<le> n" "720 \<le> f" "6 \<le> fuel"
  shows "\<exists>s'. RunAllMallocTests f fuel n ask (c, s) = Inr (c, s') \<and> heap_wf s' [A]"
  by (rule all_malloc_tests_pass [OF assms])

text \<open>The heap that \<open>kmalloc::Initialize\<close> makes: one page.\<close>

definition page_heap :: mstate where
  "page_heap = \<lparr>mem = (\<lambda>_. 0)(0x800004 := 0x400000, 0x800008 := 0x3FFFF4), gFirstAlloc = 0x800000\<rparr>"

theorem malloc_tests_pass_witness:
  "\<exists>s'. RunAllMallocTests 720 6 0x10000000 None ((), page_heap) = Inr ((), s') \<and> heap_wf s' [fresh_arena 0x800000 0x400000]"
proof -
  have "heap_wf page_heap [fresh_arena 0x800000 0x400000]"
    by (simp add: page_heap_def heap_wf_def fresh_arena_def arena_ok_def asize_def block_ok_def hdr_def)
  then show ?thesis using malloc_tests_pass [of page_heap "fresh_arena 0x800000 0x400000" "0x10000000" 720 6 None "()"]
    by (simp add: fresh_arena_def roomy_def)
qed


end
