(* ===== verification/KernelTests.thy ===== *)
theory KernelTests
  imports Boot MallocTests ByteMem
begin

text \<open>
  The rest of the start of the kernel: the self-tests of \<open>src/kernel/tests.cpp\<close>, which \<open>KernelSetup\<close> of \<open>src/kernel/main.cpp\<close> runs between the set-up of the components and the step into user
  mode, the clean-up when there is no ramdisk, and \<open>kernel_main\<close>. The tests of the allocator run with the callback of the kernel; the test of virtual mapping writes through one virtual page and
  reads through another.
\<close>

section \<open>The tests of paging\<close>

definition AssertTrue :: "bool \<Rightarrow> 'b result \<Rightarrow> 'b result" where
  "AssertTrue found r = (if \<not> found then Inl Abort_called else r)"

definition AssertGe :: "int \<Rightarrow> int \<Rightarrow> 'b result \<Rightarrow> 'b result" where
  "AssertGe found expected r = (if found < expected then Inl Abort_called else r)"

record paging_tests =
  pt_current_page_dir :: pdref
  pt_num_free_vpages :: nat
  pt_num_free_ppages :: nat

definition PagingTests_Setup :: "kernel \<Rightarrow> paging_tests result" where
  "PagingTests_Setup k =
     (let cur = GetCurrentPageDirectory (paging_of k) in
      AssertTrue (isKernelPageDir (paging_of k) cur)
      (bindr (load_pd (paging_of k) cur) (\<lambda>pd.
       AssertNe (getNumFreeVPages pd) 0
       (bindr (GetNumFree4MPages (pmm_of k)) (\<lambda>np.
        Inr \<lparr>pt_current_page_dir = cur, pt_num_free_vpages = getNumFreeVPages pd, pt_num_free_ppages = np\<rparr>)))))"

definition PagingTests_Teardown :: "paging_tests \<Rightarrow> kernel \<Rightarrow> unit result" where
  "PagingTests_Teardown t k =
     AssertEq (pt_current_page_dir t) (GetCurrentPageDirectory (paging_of k))
     (AssertTrue (isKernelPageDir (paging_of k) (pt_current_page_dir t))
      (bindr (load_pd (paging_of k) (pt_current_page_dir t)) (\<lambda>pd.
       AssertEq (pt_num_free_vpages t) (getNumFreeVPages pd)
       (bindr (GetNumFree4MPages (pmm_of k)) (\<lambda>np. AssertEq (pt_num_free_ppages t) np (Inr ()))))))"

text \<open>A word through the processor's translation, byte by byte.\<close>

fun vwrite_bytes :: "paging \<Rightarrow> u32 \<Rightarrow> u8 list \<Rightarrow> paging result" where
  "vwrite_bytes s va [] = Inr s"
| "vwrite_bytes s va (b # bs) = bindr (vwrite s va b) (\<lambda>s'. vwrite_bytes s' (va + 1) bs)"

definition vread32 :: "paging \<Rightarrow> u32 \<Rightarrow> u32 result" where
  "vread32 s va = bindr (read_words s va 4) (\<lambda>bs. Inr (word32 bs))"

definition mapping_step :: "u32 \<Rightarrow> u32 \<Rightarrow> nat \<Rightarrow> paging \<Rightarrow> paging result" where
  "mapping_step arr1 arr2 i s =
     bindr (vwrite_bytes s (arr1 + word_of_nat (4 * i)) (bytes32 (word_of_nat i))) (\<lambda>s'.
     bindr (vread32 s' (arr2 + word_of_nat (4 * i))) (\<lambda>x. AssertEq x (word_of_nat i) (Inr s')))"

definition map_in :: "paging \<Rightarrow> pdref \<Rightarrow> u32 \<Rightarrow> u32 \<Rightarrow> paging result" where
  "map_in s r vaddr paddr = bindr (load_pd s r) (\<lambda>pd. bindr (MapPage pd vaddr paddr 0) (\<lambda>pd'. Inr (store_pd s r pd')))"

definition TestVirtualMapping :: "kernel \<Rightarrow> kernel result" where
  "TestVirtualMapping k =
     bindr (GetNextFreePage (pmm_of k)) (\<lambda>free_ppage. AssertGe free_ppage 0
     (bindr (SetPageUsed (pmm_of k) (nat free_ppage)) (\<lambda>p1.
      let paddr = word_of_nat (nat free_ppage) * kPageSize4M; r = GetCurrentPageDirectory (paging_of k) in
      bindr (load_pd (paging_of k) r) (\<lambda>pd.
      let free_vpage1 = getNextFreePage pd 0 in AssertGe free_vpage1 0
      (let vaddr1 = word_of_nat (nat free_vpage1) * kPageSize4M in
       bindr (map_in (paging_of k) r vaddr1 paddr) (\<lambda>s1.
       bindr (load_pd s1 r) (\<lambda>pd1.
       let free_vpage2 = getNextFreePage pd1 0 in AssertGe free_vpage2 0
       (let vaddr2 = word_of_nat (nat free_vpage2) * kPageSize4M in
        AssertNe free_vpage1 free_vpage2
        (bindr (map_in s1 r vaddr2 paddr) (\<lambda>s2.
         bindr (for_each (mapping_step vaddr1 vaddr2) [0..<8] s2) (\<lambda>s3.
         bindr (unmap_in s3 r vaddr1) (\<lambda>s4.
         bindr (unmap_in s4 r vaddr2) (\<lambda>s5.
         bindr (SetPageFree p1 (nat free_ppage)) (\<lambda>p2.
         Inr (k\<lparr>paging_of := s5, pmm_of := p2\<rparr>)))))))))))))))"

definition Run_paging_test :: "(kernel \<Rightarrow> kernel result) \<Rightarrow> kernel \<Rightarrow> kernel result" where
  "Run_paging_test func k = bindr (PagingTests_Setup k) (\<lambda>t. bindr (func k) (\<lambda>k'. bindr (PagingTests_Teardown t k') (\<lambda>_. Inr k')))"

definition RunKernelTests :: "nat \<Rightarrow> nat \<Rightarrow> nat \<Rightarrow> kernel \<times> mstate \<Rightarrow> (kernel \<times> mstate) result" where
  "RunKernelTests f fuel n st =
     bindr (RunAllMallocTests f fuel n (Some AskForMoreKernelSpace) st) (\<lambda>(k, h). bindr (Run_paging_test TestVirtualMapping k) (\<lambda>k'. Inr (k', h)))"

section \<open>The rest of the start\<close>

text \<open>
  \<open>channel::Destroy\<close> deletes the vector of channels; \<open>scheduler::Destroy\<close> behind it deletes the kernel's task, whose destructor walks along that vector. \<open>chans\<close> is the vector, if it is still there.
\<close>

definition scheduler_Destroy_with :: "chvec option \<Rightarrow> kernel \<Rightarrow> kernel result" where
  "scheduler_Destroy_with chans k =
     check (gTaskQueue k \<noteq> 0)
     (bindr (node_next (task_nodes k) (gTaskQueue k)) (\<lambda>nxt. check (nxt = 0)
      (case chans of
         None \<Rightarrow> Inl Use_after_free
       | Some c \<Rightarrow> delete_Task (k\<lparr>task_nodes := (task_nodes k)(gTaskQueue k := None), chans_of := c\<rparr>) (gKernelTask k))))"

lemma scheduler_Destroy_with_channels: "scheduler_Destroy_with (Some (chans_of k)) k = scheduler_Destroy k"
  by (simp add: scheduler_Destroy_with_def scheduler_Destroy_def)

text \<open>
  \<open>KernelSetup\<close>; the check of the used pages at its end loops for ever when they differ, which is \<open>Out_of_fuel\<close> here. The blocks of the objects that \<open>new\<close> makes are not in the heap of the model
  (their addresses are given), so the check of the available memory behind it is not modelled.
\<close>

definition KernelSetup :: "nat \<Rightarrow> nat \<Rightarrow> boot_env \<Rightarrow> machine \<Rightarrow> u32 \<Rightarrow> multiboot_memory_map_t list \<Rightarrow> u32 \<Rightarrow> u32 \<Rightarrow> machine result" where
  "KernelSetup f fuel b m mem_upper mmaps initrd_start initrd_end =
     bindr (kernel_setup_components b m mem_upper mmaps) (\<lambda>m1.
     bindr (GetNumUsed4MPages (pmm_of (mkernel m1))) (\<lambda>init_used_pages.
     bindr (RunKernelTests f fuel (be_fuel b) (mkernel m1, mheap m1)) (\<lambda>(k2, h2).
     let m2 = m1\<lparr>mkernel := k2, mheap := h2\<rparr> in
     if initrd_start \<noteq> 0 \<and> initrd_end \<noteq> 0 then JumpToUserMode b m2 initrd_start initrd_end
     else bindr (scheduler_Destroy_with None k2) (\<lambda>k3.
       bindr (GetNumUsed4MPages (pmm_of k3)) (\<lambda>now. if init_used_pages \<noteq> now then Inl Out_of_fuel else Inr (m2\<lparr>mkernel := k3\<rparr>))))))"

definition kMmapsBuffer :: nat where "kMmapsBuffer = 16"

definition kernel_main :: "nat \<Rightarrow> nat \<Rightarrow> boot_env \<Rightarrow> (u32 \<Rightarrow> multiboot_memory_map_t) \<Rightarrow> (u32 \<Rightarrow> ModuleInfo) \<Rightarrow> Multiboot \<Rightarrow> u32 \<Rightarrow> machine \<Rightarrow> machine result" where
  "kernel_main f fuel b rd rdmod boot magic m =
     (let m0 = m\<lparr>mports := serial_Initialize (mports m)\<rparr> in
      if magic \<noteq> MULTIBOOT_BOOTLOADER_MAGIC then Inl Abort_called
      else bindr (Multiboot_Dump (be_fuel b) rd boot) (\<lambda>_. bindr (getMemUpper boot) (\<lambda>mem_upper.
        bindr (getMmap (be_fuel b) rd boot (kMmapsBuffer * sizeof_memory_map)) (\<lambda>(mmaps, num_mmaps).
        check (num_mmaps > 0) (check (num_mmaps \<le> kMmapsBuffer)
        (let (s, e) = (if hasModules boot \<and> mb_mods_count boot \<noteq> 0
                       then (mod_start (rdmod (mb_mods_addr boot)), mod_end (rdmod (mb_mods_addr boot))) else (0, 0)) in
         KernelSetup f fuel b m0 mem_upper mmaps s e))))))"

section \<open>Words in pages\<close>

lemma vwrite_page:
  assumes "pds s (gCurrentPageDir s) = Some pd" "pd_wf pd" "vmap pd v = Some p" "off < 0x400000"
  shows "vwrite s (PageToAddr v + word_of_nat off) b = Inr (s\<lparr>phys := (phys s)(PageToAddr p + word_of_nat off := b)\<rparr>)"
  using assms translate_page [OF assms(2-4)] by (simp add: vwrite_def load_pd_def)

lemma vwrite_bytes_page:
  "pds s (gCurrentPageDir s) = Some pd \<Longrightarrow> pd_wf pd \<Longrightarrow> vmap pd v = Some p \<Longrightarrow> off + length bs \<le> 0x400000 \<Longrightarrow>
    vwrite_bytes s (PageToAddr v + word_of_nat off) bs = Inr (s\<lparr>phys := store_bytes (phys s) (PageToAddr p + word_of_nat off) bs\<rparr>)"
proof (induction bs arbitrary: s off)
  case (Cons b bs)
  have w: "vwrite s (PageToAddr v + word_of_nat off) b = Inr (s\<lparr>phys := (phys s)(PageToAddr p + word_of_nat off := b)\<rparr>)"
    using Cons.prems by (intro vwrite_page) auto
  have "vwrite_bytes (s\<lparr>phys := (phys s)(PageToAddr p + word_of_nat off := b)\<rparr>) (PageToAddr v + word_of_nat (Suc off)) bs
      = Inr (s\<lparr>phys := store_bytes ((phys s)(PageToAddr p + word_of_nat off := b)) (PageToAddr p + word_of_nat (Suc off)) bs\<rparr>)"
    by (subst Cons.IH) (use Cons.prems in auto)
  then show ?case using w by (simp add: ac_simps)
qed simp

lemma read_bytes_page:
  "pds s (gCurrentPageDir s) = Some pd \<Longrightarrow> pd_wf pd \<Longrightarrow> vmap pd v = Some p \<Longrightarrow> off + n \<le> 0x400000 \<Longrightarrow>
    read_words s (PageToAddr v + word_of_nat off) n = Inr (bytes_at (phys s) (PageToAddr p + word_of_nat off) n)"
proof (induction n arbitrary: off)
  case (Suc n)
  have "vread s (PageToAddr v + word_of_nat off) = Inr (phys s (PageToAddr p + word_of_nat off))"
    using Suc.prems translate_page [of pd v p off] by (simp add: vread_def load_pd_def)
  moreover have "read_words s (PageToAddr v + word_of_nat (Suc off)) n = Inr (bytes_at (phys s) (PageToAddr p + word_of_nat (Suc off)) n)"
    by (rule Suc.IH) (use Suc.prems in auto)
  ultimately show ?case by (simp add: bytes_at_Suc ac_simps)
qed (simp add: bytes_at_def)

text \<open>What is written through one virtual page is read through another one of the same physical page.\<close>

lemma mapping_step_ok:
  assumes "pds s (gCurrentPageDir s) = Some pd" "pd_wf pd" "vmap pd v = Some p" "vmap pd w = Some p" "i < 8"
  shows "mapping_step (PageToAddr v) (PageToAddr w) i s = Inr (s\<lparr>phys := wr32 (phys s) (PageToAddr p + word_of_nat (4 * i)) (word_of_nat i)\<rparr>)"
proof -
  have l: "4 * i + length (bytes32 (word_of_nat i)) \<le> 0x400000" "4 * i + 4 \<le> 0x400000" using assms(5) by simp_all
  let ?s = "s\<lparr>phys := wr32 (phys s) (PageToAddr p + word_of_nat (4 * i)) (word_of_nat i)\<rparr>"
  have "vwrite_bytes s (PageToAddr v + word_of_nat (4 * i)) (bytes32 (word_of_nat i)) = Inr ?s"
    using vwrite_bytes_page [OF assms(1-3) l(1)] by (simp add: wr32_def)
  moreover have "read_words ?s (PageToAddr w + word_of_nat (4 * i)) 4 = Inr (bytes_at (phys ?s) (PageToAddr p + word_of_nat (4 * i)) 4)"
    by (rule read_bytes_page [OF _ assms(2,4) l(2)]) (use assms(1) in simp)
  moreover have "word32 (bytes_at (phys ?s) (PageToAddr p + word_of_nat (4 * i)) 4) = word_of_nat i"
    using rd32_wr32 [of "phys s" "PageToAddr p + word_of_nat (4 * i)" "word_of_nat i"] by (simp add: rd32_def)
  ultimately show ?thesis by (simp add: mapping_step_def vread32_def AssertEq_def)
qed

lemma wr32_page:
  assumes "p < 1024" "off + 4 \<le> 0x400000" "unat (drop_bit 22 a) \<noteq> p"
  shows "wr32 m (PageToAddr p + word_of_nat off) x a = m a"
proof (rule wr32_out)
  have u: "unat (PageToAddr p + word_of_nat off) = p * 0x400000 + off"
    unfolding page_byte using assms(1,2) by (intro unat_of_nat_u32) auto
  have "unat a div 0x400000 \<noteq> p" using assms(3) by (simp add: drop_bit_eq_div unat_div)
  then show "a \<notin> region (PageToAddr p + word_of_nat off) 4"
    using assms(1,2) by (subst region_nat) (auto simp: u)
qed

text \<open>The paging state is the same but for the contents of one physical page.\<close>

definition same_but_page :: "nat \<Rightarrow> paging \<Rightarrow> paging \<Rightarrow> bool" where
  "same_but_page p s s' \<longleftrightarrow> (\<exists>m. s' = s\<lparr>phys := m\<rparr> \<and> (\<forall>a. unat (drop_bit 22 a) \<noteq> p \<longrightarrow> m a = phys s a))"

lemma mapping_loop_ok:
  assumes "pds s (gCurrentPageDir s) = Some pd" "pd_wf pd" "vmap pd v = Some p" "vmap pd w = Some p" "p < 1024"
  shows "\<exists>s'. for_each (mapping_step (PageToAddr v) (PageToAddr w)) [0..<8] s = Inr s' \<and> same_but_page p s s'"
proof (rule for_each_inv [where P = "same_but_page p s"])
  fix i t assume i: "i \<in> set [0..<8]" and t: "same_but_page p s t"
  then obtain m where m: "t = s\<lparr>phys := m\<rparr>" "\<forall>a. unat (drop_bit 22 a) \<noteq> p \<longrightarrow> m a = phys s a" by (auto simp: same_but_page_def)
  have "mapping_step (PageToAddr v) (PageToAddr w) i t = Inr (t\<lparr>phys := wr32 (phys t) (PageToAddr p + word_of_nat (4 * i)) (word_of_nat i)\<rparr>)"
    by (rule mapping_step_ok [OF _ assms(2-4)]) (use assms(1) m(1) i in auto)
  moreover have "same_but_page p s (t\<lparr>phys := wr32 (phys t) (PageToAddr p + word_of_nat (4 * i)) (word_of_nat i)\<rparr>)"
    using m i wr32_page [OF assms(5), of "4 * i"] unfolding same_but_page_def
    by (intro exI [of _ "wr32 m (PageToAddr p + word_of_nat (4 * i)) (word_of_nat i)"]) auto
  ultimately show "\<exists>t'. mapping_step (PageToAddr v) (PageToAddr w) i t = Inr t' \<and> same_but_page p s t'" by blast
qed (auto simp: same_but_page_def intro!: exI [of _ "phys s"])


section \<open>The tests of paging pass\<close>

lemma free_vpage_exists:
  assumes "pd_wf pd" "card (dom (vmap pd)) < 1024"
  shows "\<exists>v. getNextFreePage pd 0 = int v \<and> v < 1024 \<and> v \<notin> dom (vmap pd)"
proof -
  have "dom (vmap pd) \<subseteq> {..<1024}" using assms(1) vmap_bound by (fastforce simp: pd_wf_def kNumPageDirEntries_def)
  then have "finite (dom (vmap pd))" using finite_subset by blast
  then have "\<not> {0..<1024} \<subseteq> dom (vmap pd)" using assms(2) card_mono [of "dom (vmap pd)" "{0..<1024}"] by auto
  then show ?thesis using getNextFreePage_spec [OF assms(1), of 0] by auto
qed

text \<open>Mapping the lowest free page, and removing two mappings again.\<close>

lemma map_in_free:
  assumes "pds s r = Some pd" "pd_wf pd" "v < 1024" "v \<notin> dom (vmap pd)" "p < 1024"
  shows "map_in s r (PageToAddr v) (PageToAddr p) = Inr (store_pd s r (pd[v := mk_entry p 0]))"
  using assms MapPage_page [OF assms(2,3,5), of 0] by (simp add: map_in_def load_pd_def)

lemma unmap_in_page:
  assumes "pds s r = Some pd" "pd_wf pd" "v < 1024" "v \<in> dom (vmap pd)"
  shows "unmap_in s r (PageToAddr v) = Inr (store_pd s r (pd[v := 0]))"
  using assms UnmapPage_page [OF assms(2,3)] by (simp add: unmap_in_def load_pd_def)

lemma map_two_unmap_two:
  assumes "pds s r = Some pd" "pd_wf pd" "v < 1024" "v \<notin> dom (vmap pd)" "w < 1024" "w \<notin> dom (vmap pd)" "v \<noteq> w" "p < 1024"
    and pd2: "pd2 = pd[v := mk_entry p 0, w := mk_entry p 0]" and s3: "s3 = store_pd (s\<lparr>phys := m\<rparr>) r pd2"
  shows "pd_wf pd2" "vmap pd2 = (vmap pd)(v \<mapsto> p, w \<mapsto> p)" "\<exists>s4. unmap_in s3 r (PageToAddr v) = Inr s4 \<and> unmap_in s4 r (PageToAddr w) = Inr (s\<lparr>phys := m\<rparr>)"
proof -
  note m1 = vmap_map [OF assms(2,3,8), of 0]
  note m2 = vmap_map [OF m1(2) assms(5,8), of 0]
  show wf2: "pd_wf pd2" and vm2: "vmap pd2 = (vmap pd)(v \<mapsto> p, w \<mapsto> p)" using m1 m2 pd2 by simp_all
  let ?s4 = "store_pd (s\<lparr>phys := m\<rparr>) r (pd2[v := 0])"
  have u1: "unmap_in s3 r (PageToAddr v) = Inr ?s4" using unmap_in_page [of s3 r pd2 v] wf2 vm2 assms(3) s3 by simp
  note n1 = vmap_unmap [OF wf2 assms(3)]
  have "w \<in> dom (vmap (pd2[v := 0]))" using n1(1) vm2 assms(7) by simp
  then have u2: "unmap_in ?s4 r (PageToAddr w) = Inr (store_pd (s\<lparr>phys := m\<rparr>) r (pd2[v := 0, w := 0]))"
    using unmap_in_page [of ?s4 r "pd2[v := 0]" w] n1(2) assms(5) by simp
  have "pd2[v := 0, w := 0] = pd[v := 0, w := 0]" using assms(7) by (simp add: pd2 list_update_swap [of w v])
  also have "\<dots> = pd" using free_entry [OF assms(2,3,4)] free_entry [OF assms(2,5,6)] list_update_id [of pd v] list_update_id [of pd w] by simp
  finally show "\<exists>s4. unmap_in s3 r (PageToAddr v) = Inr s4 \<and> unmap_in s4 r (PageToAddr w) = Inr (s\<lparr>phys := m\<rparr>)"
    using u1 u2 assms(1) by simp
qed

lemma virtual_mapping_ok:
  assumes pm: "pmm_wf (pmm_of k)" and nf: "GetNextFreePage (pmm_of k) = Inr (int p)"
    and cur: "pds (paging_of k) (gCurrentPageDir (paging_of k)) = Some pd" and wf: "pd_wf pd" and room: "card (dom (vmap pd)) \<le> 1022"
  shows "\<exists>s p2. TestVirtualMapping k = Inr (k\<lparr>paging_of := s, pmm_of := p2\<rparr>) \<and> same_but_page p (paging_of k) s \<and> pmm_wf p2
    \<and> used_pages p2 = used_pages (pmm_of k) \<and> gNum4MPages p2 = gNum4MPages (pmm_of k)"
proof -
  let ?s = "paging_of k" and ?r = "gCurrentPageDir (paging_of k)"
  have p: "p < 1024" "p < kNumPageDirEntries" "p \<notin> used_pages (pmm_of k)" using frames.next_free_D [OF pm nf] by (auto simp: kNumPageDirEntries_def)
  obtain p1 where p1: "SetPageUsed (pmm_of k) p = Inr p1" using frames.set_used_total [OF pm p(2,3)] by blast
  note u1 = SetPageUsed_used [OF pm p(2) p1]
  obtain p2 where p2: "SetPageFree p1 p = Inr p2" using frames.set_free_total [of p1 p] u1 by auto
  note u2 = SetPageFree_used [OF _ p(2) p2]
  obtain v where v: "getNextFreePage pd 0 = int v" "v < 1024" "v \<notin> dom (vmap pd)" using free_vpage_exists [OF wf] room by auto
  let ?pd1 = "pd[v := mk_entry p 0]"
  note m1 = vmap_map [OF wf v(2) p(1), of 0]
  have "card (dom (vmap ?pd1)) < 1024" using m1(1) room card_insert_le_m1 [of 1023 "dom (vmap pd)" v] by simp
  then obtain w where w: "getNextFreePage ?pd1 0 = int w" "w < 1024" "w \<notin> dom (vmap ?pd1)" using free_vpage_exists [OF m1(2)] by auto
  then have w': "w \<notin> dom (vmap pd)" "v \<noteq> w" using m1(1) by auto
  let ?pd2 = "pd[v := mk_entry p 0, w := mk_entry p 0]"
  let ?s1 = "store_pd ?s ?r ?pd1" and ?s2 = "store_pd ?s ?r ?pd2"
  have mp1: "map_in ?s ?r (PageToAddr v) (PageToAddr p) = Inr ?s1" by (rule map_in_free [OF cur wf v(2,3) p(1)])
  have mp2: "map_in ?s1 ?r (PageToAddr w) (PageToAddr p) = Inr ?s2" using map_in_free [of ?s1 ?r ?pd1 w p] m1(2) w p(1) by simp
  note two = map_two_unmap_two [OF cur wf v(2,3) w(2) w' p(1) refl refl]
  have vm: "vmap ?pd2 v = Some p" "vmap ?pd2 w = Some p" using two(2) w'(2) by simp_all
  obtain s3 where s3: "for_each (mapping_step (PageToAddr v) (PageToAddr w)) [0..<8] ?s2 = Inr s3" "same_but_page p ?s2 s3"
    using mapping_loop_ok [of ?s2 ?pd2 v p w] two(1) vm p(1) by auto
  then obtain m where m: "s3 = store_pd (?s\<lparr>phys := m\<rparr>) ?r ?pd2" "\<forall>a. unat (drop_bit 22 a) \<noteq> p \<longrightarrow> m a = phys ?s a" by (auto simp: same_but_page_def)
  obtain s4 where s4: "unmap_in s3 ?r (PageToAddr v) = Inr s4" "unmap_in s4 ?r (PageToAddr w) = Inr (?s\<lparr>phys := m\<rparr>)"
    using two(3) [of m] m(1) by auto
  have a: "word_of_nat x * kPageSize4M = PageToAddr x" for x by (simp add: PageToAddr_def)
  have "TestVirtualMapping k = Inr (k\<lparr>paging_of := ?s\<lparr>phys := m\<rparr>, pmm_of := p2\<rparr>)"
    using nf p1 p2 cur v(1) w(1) w'(2) mp1 mp2 s3(1) s4
    by (simp add: TestVirtualMapping_def GetCurrentPageDirectory_def load_pd_def Let_def a AssertGe_def AssertNe_def del: upt_rec_numeral)
  moreover have "same_but_page p ?s (?s\<lparr>phys := m\<rparr>)" using m(2) by (auto simp: same_but_page_def)
  moreover have "used_pages p2 = used_pages (pmm_of k)" using u1 u2 p(3) by auto
  ultimately show ?thesis using u1 u2 by (intro exI [of _ "?s\<lparr>phys := m\<rparr>"] exI [of _ p2]) simp
qed


lemma paging_test_passes:
  assumes pm: "pmm_wf (pmm_of k)" and nf: "GetNextFreePage (pmm_of k) = Inr (int p)"
    and cur: "pds (paging_of k) (gCurrentPageDir (paging_of k)) = Some pd" and wf: "pd_wf pd" and room: "card (dom (vmap pd)) \<le> 1022"
  shows "\<exists>s p2. Run_paging_test TestVirtualMapping k = Inr (k\<lparr>paging_of := s, pmm_of := p2\<rparr>) \<and> same_but_page p (paging_of k) s \<and> pmm_wf p2
    \<and> used_pages p2 = used_pages (pmm_of k) \<and> gNum4MPages p2 = gNum4MPages (pmm_of k)"
proof -
  obtain s p2 where t: "TestVirtualMapping k = Inr (k\<lparr>paging_of := s, pmm_of := p2\<rparr>)" "same_but_page p (paging_of k) s" "pmm_wf p2"
      "used_pages p2 = used_pages (pmm_of k)" "gNum4MPages p2 = gNum4MPages (pmm_of k)" using virtual_mapping_ok [OF assms] by blast
  obtain v where v: "v < 1024" "v \<notin> dom (vmap pd)" using free_vpage_exists [OF wf] room by auto
  have "length pd = 1024" using wf by (simp add: pd_wf_def kNumPageDirEntries_def)
  then have "0 \<in> set pd" using v(1) free_entry [OF wf v] nth_mem [of v pd] by simp
  then have "getNumFreeVPages pd \<noteq> 0" by (auto simp: getNumFreeVPages_def sum_list_eq_0_iff dest: split_list)
  moreover have "GetNumFree4MPages p2 = GetNumFree4MPages (pmm_of k)" using t(3-5) GetNumFree_wf pm by metis
  moreover obtain np where "GetNumFree4MPages (pmm_of k) = Inr np" using GetNumFree_wf [OF pm] by blast
  moreover have "pds s = pds (paging_of k)" "gCurrentPageDir s = gCurrentPageDir (paging_of k)" using t(2) by (auto simp: same_but_page_def)
  ultimately have "Run_paging_test TestVirtualMapping k = Inr (k\<lparr>paging_of := s, pmm_of := p2\<rparr>)"
    using t(1) cur by (simp add: Run_paging_test_def PagingTests_Setup_def PagingTests_Teardown_def GetCurrentPageDirectory_def isKernelPageDir_def
        load_pd_def AssertTrue_def AssertNe_def AssertEq_def Let_def)
  then show ?thesis using t(2-5) by blast
qed

lemma kernel_tests_ok:
  assumes h: "heap_wf h [A]" "merged (blocks A)" "roomy 0x200400 (blocks A)" "0x10000000 \<le> n" "720 \<le> f" "6 \<le> fuel"
    and k: "pmm_wf (pmm_of k)" "GetNextFreePage (pmm_of k) = Inr (int p)" "pds (paging_of k) (gCurrentPageDir (paging_of k)) = Some pd" "pd_wf pd" "card (dom (vmap pd)) \<le> 1022"
  shows "\<exists>s p2 h'. RunKernelTests f fuel n (k, h) = Inr (k\<lparr>paging_of := s, pmm_of := p2\<rparr>, h') \<and> heap_wf h' [A] \<and> same_but_page p (paging_of k) s \<and> pmm_wf p2
    \<and> used_pages p2 = used_pages (pmm_of k) \<and> gNum4MPages p2 = gNum4MPages (pmm_of k)"
proof -
  obtain h' where "RunAllMallocTests f fuel n (Some AskForMoreKernelSpace) (k, h) = Inr (k, h')" "heap_wf h' [A]"
    using all_malloc_tests_pass [OF h, of "Some AskForMoreKernelSpace" k] by blast
  then show ?thesis using paging_test_passes [OF k] by (auto simp: RunKernelTests_def)
qed


section \<open>The components start\<close>

lemma GetNextFree_of_set:
  assumes "pmm_wf s" "q < 8 * (gNum4MPages s div 8)" "q \<notin> used_pages s"
  shows "\<exists>p \<le> q. GetNextFreePage s = Inr (int p) \<and> p \<notin> used_pages s"
proof -
  let ?p = "LEAST p. p \<notin> used_pages s"
  have "?p \<notin> used_pages s" "?p \<le> q" using LeastI [of "\<lambda>p. p \<notin> used_pages s"] Least_le [of "\<lambda>p. p \<notin> used_pages s"] assms(3) by blast+
  moreover have "GetNextFreePage s = Inr (int ?p)" unfolding GetNextFreePage_wf [OF assms(1)] next_free_spec_def using assms(2,3) by auto
  ultimately show ?thesis by blast
qed

lemma kmalloc_Initialize_ok:
  assumes pm: "pmm_wf (pmm_of k)" and nf: "GetNextFreePage (pmm_of k) = Inr (int q)"
    and cur: "pds (paging_of k) (gCurrentPageDir (paging_of k)) = Some pd" and wf: "pd_wf pd" and v: "Suc K < 1022" "Suc K \<notin> dom (vmap pd)"
    and h: "gFirstAlloc h = 0" and n: "0x10000000 \<le> n"
  shows "\<exists>p h'. kmalloc_Initialize n (PageToAddr K) k h = Inr (k\<lparr>paging_of := store_pd (paging_of k) (gCurrentPageDir (paging_of k)) (pd[Suc K := mk_entry q 0]), pmm_of := p\<rparr>, h')
    \<and> pmm_wf p \<and> used_pages p = insert q (used_pages (pmm_of k)) \<and> gNum4MPages p = gNum4MPages (pmm_of k) \<and> q < 1024 \<and> q \<notin> used_pages (pmm_of k)
    \<and> heap_wf h' [fresh_arena (Suc K * 0x400000) 0x400000]"
proof -
  have q: "q < 1024" "q < kNumPageDirEntries" "q \<notin> used_pages (pmm_of k)" using frames.next_free_D [OF pm nf] by (auto simp: kNumPageDirEntries_def)
  obtain p where p: "SetPageUsed (pmm_of k) q = Inr p" using frames.set_used_total [OF pm q(2,3)] by blast
  have a: "PageToAddr K + kPageSize4M = PageToAddr (Suc K)" "PageToAddr (Suc K) = word_of_nat (Suc K * 0x400000)" "word_of_nat q * kPageSize4M = PageToAddr q" "kPageSize4M = word_of_nat 0x400000"
    by (simp_all add: PageToAddr_def kPageSize4M_def algebra_simps)
  have ok: "arena_ok (fresh_arena (Suc K * 0x400000) 0x400000)" using v(1) by (intro page_arena_ok) auto
  obtain h' where h': "malloc_Initialize n h (PageToAddr (Suc K)) kPageSize4M = Inr h'" "heap_wf h' [fresh_arena (Suc K * 0x400000) 0x400000]"
    using Initialize_refines [OF h ok, of n] n unfolding a(2,4) by auto
  have K: "Suc K < 1024" using v(1) by simp
  have "kmalloc_Initialize n (PageToAddr K) k h = Inr (k\<lparr>paging_of := store_pd (paging_of k) (gCurrentPageDir (paging_of k)) (pd[Suc K := mk_entry q 0]), pmm_of := p\<rparr>, h')"
    using cur nf q p h'(1) VaddrIsMapped_page [OF wf K] PageIsUsed_wf [OF pm q(2)] MapPage_page [OF wf K q(1), of 0] v(2)
    by (simp add: kmalloc_Initialize_def GetCurrentPageDirectory_def load_pd_def Let_def a(1,3))
  then show ?thesis using SetPageUsed_used [OF pm q(2) p] q h'(2) by blast
qed

lemma scheduler_Initialize_ok:
  assumes "ta \<noteq> 0" "st \<noteq> 0" "st mod 4 = 0" "nd \<noteq> 0" "gCallbacks k ! 0 = None"
  shows "\<exists>k'. scheduler_Initialize k ta st nd = Inr k' \<and> pmm_of k' = pmm_of k \<and> paging_of k' = paging_of k \<and> gTaskQueue k' = nd \<and> node_next (task_nodes k') nd = Inr 0"
proof -
  have "unat st mod 4 = 0" using assms(3) by (simp add: word_unat_eq_iff unat_mod)
  then have "unat (st + 0x2000) mod 4 = 0" by (simp add: unat_plus_if') presburger
  then have "(st + 0x2000) mod 4 = 0" by (simp add: word_unat_eq_iff unat_mod)
  then show ?thesis using assms
    by (simp add: scheduler_Initialize_def new_Task_def get_task_def set_task_def getKernelStackBase_def kDefaultKernStackSize_def RegisterTimerCallback_def new_Node_def node_next_def deref_def Let_def)
qed

lemma gdt_Initialize_ok: "length (gdt_entries s) = 6 \<Longrightarrow> \<exists>s'. gdt_Initialize ea ta s = Inr s'"
  by (auto simp: gdt_Initialize_def WriteTSS_def GDTSetGate_def Let_def)


text \<open>What the loader and the linker have to give the kernel; \<open>K\<close> is the page of the kernel.\<close>

definition bootable :: "boot_env \<Rightarrow> machine \<Rightarrow> u32 \<Rightarrow> multiboot_memory_map_t list \<Rightarrow> nat \<Rightarrow> bool" where
  "bootable b m mem_upper es K \<longleftrightarrow>
     length (gPhysicalBitmap (pmm_of (mkernel m))) = bitmap_size \<and> 0 < unat (mem_upper * 1024) \<and> unat (mem_upper * 1024) \<le> 0xFFC00000
     \<and> (\<forall>e \<in> set es. entry_ok e) \<and> available_pages es \<subseteq> {..<pages_of_mem mem_upper} \<and> K \<in> available_pages es - reserved_pages es \<and> K < 1021
     \<and> kernel_begin_addr b = PageToAddr K \<and> kernel_end_addr b - PageToAddr K \<le> kPageSize4M
     \<and> (\<exists>pd0. pds (paging_of (mkernel m)) KernelPD = Some pd0 \<and> length pd0 = 1024) \<and> cr0 (paging_of (mkernel m)) = 0x11 \<and> cr4 (paging_of (mkernel m)) = 0
     \<and> gFirstAlloc (mheap m) = 0 \<and> 0x10000000 \<le> be_fuel b \<and> length (gdt_entries (mgdt m)) = 6 \<and> mhandlers m = replicate 256 None
     \<and> gCallbacks (mkernel m) ! 0 = None \<and> ktask_addr b \<noteq> 0 \<and> kstack_addr b \<noteq> 0 \<and> kstack_addr b mod 4 = 0 \<and> knode_addr b \<noteq> 0"

text \<open>The physical pages that are taken before the heap: those behind the memory, the reserved ones and the kernel's own.\<close>

definition boot_used :: "u32 \<Rightarrow> multiboot_memory_map_t list \<Rightarrow> nat \<Rightarrow> nat set" where
  "boot_used mem_upper es K = insert K ({pages_of_mem mem_upper..<1024} \<union> reserved_pages es)"

text \<open>The state behind the set-up: the kernel runs in its page, the heap is the page behind it, in the lowest free physical page \<open>q\<close>, and the queue has the kernel's task only.\<close>

definition started :: "boot_env \<Rightarrow> u32 \<Rightarrow> multiboot_memory_map_t list \<Rightarrow> nat \<Rightarrow> nat \<Rightarrow> machine \<Rightarrow> bool" where
  "started b mem_upper es K q m \<longleftrightarrow>
     pmm_wf (pmm_of (mkernel m)) \<and> gNum4MPages (pmm_of (mkernel m)) = pages_of_mem mem_upper \<and> used_pages (pmm_of (mkernel m)) = insert q (boot_used mem_upper es K)
     \<and> gCurrentPageDir (paging_of (mkernel m)) = KernelPD
     \<and> (\<exists>pd. pds (paging_of (mkernel m)) KernelPD = Some pd \<and> pd_wf pd \<and> vmap pd = [K \<mapsto> K, Suc K \<mapsto> q])
     \<and> heap_wf (mheap m) [fresh_arena (Suc K * 0x400000) 0x400000]
     \<and> gTaskQueue (mkernel m) = knode_addr b \<and> node_next (task_nodes (mkernel m)) (knode_addr b) = Inr 0 \<and> chans_of (mkernel m) = channel_Initialize"

lemma memory_start:
  assumes bt: "bootable b m mem_upper es K"
  shows "\<exists>p1 g1 pd. InitPmm (pmm_of (mkernel m)) mem_upper (PageToAddr K) es = Inr p1 \<and> pmm_wf p1 \<and> gNum4MPages p1 = pages_of_mem mem_upper \<and> used_pages p1 = boot_used mem_upper es K
    \<and> paging_Initialize (PageToAddr K) (kernel_end_addr b) p1 (paging_of (mkernel m)) = Inr g1 \<and> gCurrentPageDir g1 = KernelPD
    \<and> pds g1 KernelPD = Some pd \<and> pd_wf pd \<and> vmap pd = [K \<mapsto> K]"
proof -
  let ?k = "mkernel m"
  obtain pd0 where pd0: "pds (paging_of ?k) KernelPD = Some pd0" "length pd0 = 1024" using bt by (auto simp: bootable_def)
  have K: "K < pages_of_mem mem_upper" "K < 1024" using bt by (auto simp: bootable_def)
  obtain p1 where p1: "InitPmm (pmm_of ?k) mem_upper (PageToAddr K) es = Inr p1" "pmm_wf p1" "gNum4MPages p1 = pages_of_mem mem_upper"
      "used_pages p1 = insert K (({pages_of_mem mem_upper..<1024} - available_pages es) \<union> reserved_pages es)"
    using InitPmm_cases [of "pmm_of ?k" mem_upper es K] bt K(1) by (auto simp: bootable_def)
  have "{pages_of_mem mem_upper..<1024} - available_pages es = {pages_of_mem mem_upper..<1024}" using bt by (fastforce simp: bootable_def)
  then have u1: "used_pages p1 = boot_used mem_upper es K" using p1(4) by (simp add: boot_used_def)
  have fits: "kernel_end_addr b - PageToAddr K \<le> kPageSize4M" and cr: "cr0 (paging_of ?k) = 0x11" "cr4 (paging_of ?k) = 0" using bt by (simp_all add: bootable_def)
  have "K \<in> used_pages p1" using u1 by (simp add: boot_used_def)
  from paging_initialize_spec [OF pd0 cr K(2) fits p1(2) this] p1 u1 show ?thesis by auto
qed

lemma components_start:
  assumes bt: "bootable b m mem_upper es K" and q0: "q0 < 8 * (pages_of_mem mem_upper div 8)" "q0 \<notin> boot_used mem_upper es K"
  shows "\<exists>m1 q. kernel_setup_components b m mem_upper es = Inr m1 \<and> started b mem_upper es K q m1 \<and> q \<le> q0 \<and> q \<notin> boot_used mem_upper es K \<and> menabled m1 = menabled m"
proof -
  let ?k = "mkernel m"
  have K: "K < 1024" "Suc K < 1022" and fits: "kernel_end_addr b - PageToAddr K \<le> kPageSize4M" using bt by (auto simp: bootable_def)
  obtain p1 g1 pd where p1: "InitPmm (pmm_of ?k) mem_upper (PageToAddr K) es = Inr p1" "pmm_wf p1" "gNum4MPages p1 = pages_of_mem mem_upper" and u1: "used_pages p1 = boot_used mem_upper es K"
      and g1: "paging_Initialize (PageToAddr K) (kernel_end_addr b) p1 (paging_of ?k) = Inr g1" "gCurrentPageDir g1 = KernelPD" "pds g1 KernelPD = Some pd" "pd_wf pd" "vmap pd = [K \<mapsto> K]"
    using memory_start [OF bt] by blast
  obtain q where q: "q \<le> q0" "GetNextFreePage p1 = Inr (int q)" "q \<notin> used_pages p1" using GetNextFree_of_set [OF p1(2), of q0] q0 p1(3) u1 by auto
  let ?k1 = "?k\<lparr>pmm_of := p1, paging_of := g1\<rparr>"
  have "gFirstAlloc (mheap m) = 0" "0x10000000 \<le> be_fuel b" using bt by (simp_all add: bootable_def)
  from kmalloc_Initialize_ok [of ?k1 q pd K "mheap m" "be_fuel b", OF _ _ _ g1(4) K(2) _ this] p1(2) q(2) g1(2,3,5) obtain p2 h2 where
    km: "kmalloc_Initialize (be_fuel b) (PageToAddr K) ?k1 (mheap m) = Inr (?k1\<lparr>paging_of := store_pd g1 KernelPD (pd[Suc K := mk_entry q 0]), pmm_of := p2\<rparr>, h2)"
      "pmm_wf p2" "used_pages p2 = insert q (used_pages p1)" "gNum4MPages p2 = gNum4MPages p1" "q < 1024" "heap_wf h2 [fresh_arena (Suc K * 0x400000) 0x400000]"
    by auto
  have "length (gdt_entries (mgdt m)) = 6" "mhandlers m = replicate 256 None" using bt by (simp_all add: bootable_def)
  then obtain gd t where gd: "gdt_Initialize (gdt_addr b) (tss_addr b) (mgdt m) = Inr gd" "InitializeHandlers (mhandlers m) = Inr t"
    using gdt_Initialize_ok [of "mgdt m" "gdt_addr b" "tss_addr b"] register_all_step [of "replicate 256 None" 0] by (auto simp: InitializeHandlers_def)
  let ?k2 = "?k1\<lparr>paging_of := store_pd g1 KernelPD (pd[Suc K := mk_entry q 0]), pmm_of := p2\<rparr>"
  obtain k3 where k3: "scheduler_Initialize ?k2 (ktask_addr b) (kstack_addr b) (knode_addr b) = Inr k3" "pmm_of k3 = p2" "paging_of k3 = paging_of ?k2" "gTaskQueue k3 = knode_addr b"
      "node_next (task_nodes k3) (knode_addr b) = Inr 0"
    using scheduler_Initialize_ok [of "ktask_addr b" "kstack_addr b" "knode_addr b" ?k2] bt by (auto simp: bootable_def)
  have al: "kernel_begin_addr b mod kPageSize4M = 0" "kernel_begin_addr b = PageToAddr K" using bt PageToAddr_facts(2) [OF K(1)] by (simp_all add: bootable_def addr_mod)
  obtain io i2 where irq: "irq_Initialize (irq_addr b) (mports m) (isr_Initialize (isr_addr b) (idt_Initialize (idt_addr b))) = (io, i2)" by (metis surj_pair)
  let ?m1 = "m\<lparr>mkernel := k3\<lparr>chans_of := channel_Initialize\<rparr>, mheap := h2, mports := timer_Initialize io, mgdt := gd, midt := i2, mhandlers := t\<rparr>"
  have "kernel_setup_components b m mem_upper es = Inr ?m1"
    using al p1(1) g1(1) km(1) gd k3(1) fits irq by (simp add: kernel_setup_components_def)
  moreover have "started b mem_upper es K q ?m1"
    using k3 km p1(3) u1 g1(2) vmap_map [OF g1(4) _ km(5), of "Suc K" 0] g1(5) K(2) by (simp add: started_def)
  ultimately show ?thesis using q(1,3) u1 by auto
qed


section \<open>The start as a whole\<close>

lemma started_tests:
  assumes st: "started b mem_upper es K q m" and n: "0x10000000 \<le> n" "720 \<le> f" "6 \<le> fuel"
    and p: "p < 8 * (pages_of_mem mem_upper div 8)" "p \<notin> insert q (boot_used mem_upper es K)"
  shows "\<exists>k' h'. RunKernelTests f fuel n (mkernel m, mheap m) = Inr (k', h') \<and> started b mem_upper es K q (m\<lparr>mkernel := k', mheap := h'\<rparr>)"
proof -
  let ?A = "fresh_arena (Suc K * 0x400000) 0x400000" and ?k = "mkernel m"
  obtain pd where pd: "pds (paging_of ?k) (gCurrentPageDir (paging_of ?k)) = Some pd" "pd_wf pd" "vmap pd = [K \<mapsto> K, Suc K \<mapsto> q]" using st by (auto simp: started_def)
  have card: "card (dom (vmap pd)) \<le> 1022" using pd(3) by simp
  have pm: "pmm_wf (pmm_of ?k)" and h: "heap_wf (mheap m) [?A]" using st by (simp_all add: started_def)
  obtain p' where p': "GetNextFreePage (pmm_of ?k) = Inr (int p')" using GetNextFree_of_set [OF pm, of p] p st by (auto simp: started_def)
  have A: "merged (blocks ?A)" "roomy 0x200400 (blocks ?A)" by (simp_all add: fresh_arena_def roomy_def)
  from kernel_tests_ok [OF h A n pm p' pd(1,2) card] obtain s p2 h' where
    t: "RunKernelTests f fuel n (?k, mheap m) = Inr (?k\<lparr>paging_of := s, pmm_of := p2\<rparr>, h')" "heap_wf h' [?A]" "same_but_page p' (paging_of ?k) s" "pmm_wf p2"
      "used_pages p2 = used_pages (pmm_of ?k)" "gNum4MPages p2 = gNum4MPages (pmm_of ?k)" by blast
  then have "started b mem_upper es K q (m\<lparr>mkernel := ?k\<lparr>paging_of := s, pmm_of := p2\<rparr>, mheap := h'\<rparr>)"
    using st pd by (auto simp: started_def same_but_page_def)
  then show ?thesis using t(1) by blast
qed


text \<open>A machine with 128 MB as the loader leaves it, the kernel in the second page.\<close>

definition loaded_machine :: machine where
  "loaded_machine = example_machine\<lparr>mkernel := example_kernel\<lparr>pmm_of := \<lparr>gNum4MPages = 0, gPhysicalBitmap = replicate 128 0\<rparr>,
     paging_of := \<lparr>pds = [KernelPD \<mapsto> replicate 1024 0], gCurrentPageDir = KernelPD, phys = (\<lambda>_. 0), cr0 = 0x11, cr4 = 0\<rparr>\<rparr>\<rparr>"

definition loaded_env :: boot_env where
  "loaded_env = example_boot_env\<lparr>be_fuel := 0x10000000\<rparr>"



end
