(* ===== verification/StackTrace.thy ===== *)
theory StackTrace
  imports KernelTests
begin

text \<open>
  \<open>PrintStackTrace\<close> of \<open>src/kernel/stacktrace.cpp\<close>: the walk along the saved frame pointers, with the addresses that it prints. A frame is followed as long as the page of its first byte is mapped. The walk has fuel, since
  frames may form a cycle.
\<close>

fun stack_walk :: "nat \<Rightarrow> paging \<Rightarrow> u32 \<Rightarrow> u32 list result" where
  "stack_walk 0 s stack = Inl Out_of_fuel"
| "stack_walk (Suc n) s stack =
     (if stack = 0 then Inr []
      else bindr (load_pd s (GetCurrentPageDirectory s)) (\<lambda>pd.
        bindr (VaddrIsMapped pd (PageAddress stack)) (\<lambda>mapped.
        if mapped
        then bindr (vread32 s (stack + 4)) (\<lambda>eip. bindr (vread32 s stack) (\<lambda>ebp. bindr (stack_walk n s ebp) (\<lambda>eips. Inr (eip # eips))))
        else Inr [])))"

definition PrintStackTrace :: "nat \<Rightarrow> paging \<Rightarrow> u32 \<Rightarrow> u32 list result" where
  "PrintStackTrace fuel s ebp = stack_walk fuel s ebp"

text \<open>A chain of frames in mapped pages: the place of each frame as page and offset, and the address that it returns to.\<close>

fun frames_at :: "paging \<Rightarrow> pagedir \<Rightarrow> u32 \<Rightarrow> (nat \<times> nat \<times> u32) list \<Rightarrow> bool" where
  "frames_at s pd stack [] \<longleftrightarrow> stack = 0 \<or> unat (drop_bit 22 stack) \<notin> dom (vmap pd)"
| "frames_at s pd stack ((v, off, eip) # fs) \<longleftrightarrow> stack \<noteq> 0 \<and> stack = PageToAddr v + word_of_nat off \<and> v < 1024 \<and> off + 8 \<le> 0x400000
     \<and> (\<exists>p. vmap pd v = Some p \<and> rd32 (phys s) (PageToAddr p + word_of_nat (off + 4)) = eip
        \<and> frames_at s pd (rd32 (phys s) (PageToAddr p + word_of_nat off)) fs)"

lemma vread32_page:
  assumes "pds s (gCurrentPageDir s) = Some pd" "pd_wf pd" "vmap pd v = Some p" "off + 4 \<le> 0x400000"
  shows "vread32 s (PageToAddr v + word_of_nat off) = Inr (rd32 (phys s) (PageToAddr p + word_of_nat off))"
  using read_bytes_page [OF assms] by (simp add: vread32_def rd32_def)

lemma vread32_page_next:
  assumes "pds s (gCurrentPageDir s) = Some pd" "pd_wf pd" "vmap pd v = Some p" "off + 8 \<le> 0x400000"
  shows "vread32 s (PageToAddr v + word_of_nat off + 4) = Inr (rd32 (phys s) (PageToAddr p + word_of_nat (off + 4)))"
proof -
  have "PageToAddr v + word_of_nat off + 4 = PageToAddr v + word_of_nat (off + 4)" by (simp add: ac_simps)
  then show ?thesis using vread32_page [OF assms(1-3), of "off + 4"] assms(4) by (simp only: )
qed

lemma page_of_offset:
  assumes "v < 1024" "off < 0x400000" shows "unat (drop_bit 22 (PageToAddr v + word_of_nat off)) = v"
proof -
  have "unat (PageToAddr v + word_of_nat off) = v * 0x400000 + off" unfolding page_byte using assms by (intro unat_of_nat_u32) auto
  then show ?thesis using assms(2) by (simp add: drop_bit_eq_div unat_div)
qed

text \<open>The walk prints the return addresses of the chain, and it does not end on a frame that points to itself.\<close>

lemma PrintStackTrace_frames:
  assumes "pds s (gCurrentPageDir s) = Some pd" "pd_wf pd"
  shows "frames_at s pd stack fs \<Longrightarrow> length fs < fuel \<Longrightarrow> PrintStackTrace fuel s stack = Inr (map (\<lambda>(v, off, eip). eip) fs)"
  unfolding PrintStackTrace_def
proof (induction fs arbitrary: stack fuel)
  case Nil
  then obtain n where n: "fuel = Suc n" by (cases fuel) auto
  have "VaddrIsMapped pd (PageAddress stack) = Inr (unat (drop_bit 22 stack) \<in> dom (vmap pd))"
    unfolding PageAddress_split by (rule VaddrIsMapped_page [OF assms(2) unat_drop_22])
  then show ?case using Nil.prems(1) n assms(1) by (auto simp: load_pd_def GetCurrentPageDirectory_def)
next
  case (Cons f fs)
  obtain v off eip where f: "f = (v, off, eip)" by (cases f) auto
  then obtain p where p: "stack \<noteq> 0" "stack = PageToAddr v + word_of_nat off" "v < 1024" "off + 8 \<le> 0x400000" "vmap pd v = Some p"
      "rd32 (phys s) (PageToAddr p + word_of_nat (off + 4)) = eip" "frames_at s pd (rd32 (phys s) (PageToAddr p + word_of_nat off)) fs" using Cons.prems(1) by auto
  obtain n where n: "fuel = Suc n" "length fs < n" using Cons.prems(2) by (cases fuel) auto
  have "unat (drop_bit 22 stack) = v" using page_of_offset [OF p(3), of off] p(2,4) by simp
  then have m: "VaddrIsMapped pd (PageAddress stack) = Inr True" using VaddrIsMapped_page [OF assms(2) p(3)] p(5) by (auto simp: PageAddress_split)
  have "vread32 s (stack + 4) = Inr eip" using vread32_page_next [OF assms p(5,4)] p(2,6) by (simp only: )
  moreover have "vread32 s stack = Inr (rd32 (phys s) (PageToAddr p + word_of_nat off))" using vread32_page [OF assms p(5), of off] p(2,4) by simp
  ultimately show ?case using Cons.IH [OF p(7) n(2)] n(1) m p(1) f assms(1) by (simp add: load_pd_def GetCurrentPageDirectory_def)
qed

lemma PrintStackTrace_cycle:
  assumes "pds s (gCurrentPageDir s) = Some pd" "pd_wf pd" "vmap pd v = Some p" "off + 8 \<le> 0x400000" "v < 1024"
    and "rd32 (phys s) (PageToAddr p + word_of_nat off) = PageToAddr v + word_of_nat off" "PageToAddr v + word_of_nat off \<noteq> 0"
  shows "PrintStackTrace fuel s (PageToAddr v + word_of_nat off) = Inl Out_of_fuel"
  unfolding PrintStackTrace_def
proof (induction fuel)
  case (Suc n)
  let ?a = "PageToAddr v + word_of_nat off"
  have "unat (drop_bit 22 ?a) = v" using page_of_offset [OF assms(5), of off] assms(4) by simp
  then have m: "VaddrIsMapped pd (PageAddress ?a) = Inr True" using VaddrIsMapped_page [OF assms(2,5)] assms(3) by (auto simp: PageAddress_split)
  have "vread32 s ?a = Inr ?a" using vread32_page [OF assms(1-3), of off] assms(4,6) by simp
  then show ?case using Suc m assms(1,7) vread32_page_next [OF assms(1-4)] by (simp add: load_pd_def GetCurrentPageDirectory_def)
qed simp

end
