(* ===== verification/Spec2Isabelle.thy ===== *)
theory Spec2Isabelle
  imports Printf Programs Vector StringOrder UniquePtr StackTrace
begin

text \<open>
  A verification development for a small operating system for the i386: a kernel in C++ (\<open>src/kernel\<close>), a C library that the kernel
  and the user programs share (\<open>src/libc\<close>), a part of the C++ library (\<open>src/libcxx\<close>) and the first user programs (\<open>src/userboot\<close>).

  \<^bold>\<open>The program.\<close> A multiboot loader starts \<open>kernel_main\<close> with the description of the memory and a ramdisk. The kernel marks which physical
  pages of 4 MB are free (\<open>pmm.cpp\<close>), turns paging on (\<open>paging.cpp\<close>), gives \<open>malloc\<close> a first page and a callback for more (\<open>kmalloc.cpp\<close>,
  \<open>libc/malloc.cpp\<close>), fills the descriptor tables and interrupt handlers (\<open>gdt.cpp\<close>, \<open>idt.cpp\<close>, \<open>isr.cpp\<close>, \<open>irq.cpp\<close>, \<open>exceptions.cpp\<close>), starts
  the timer and the scheduler (\<open>timer.cpp\<close>, \<open>scheduler.cpp\<close>) and copies the ramdisk to a page of the first user program. From then on
  control comes back through interrupts: the timer calls the scheduler, system calls (\<open>syscalls.cpp\<close>) allocate and map pages, create tasks and
  pass bytes through channels (\<open>channel.cpp\<close>). A user program reads its files, environment and arguments from a channel, builds a tree of
  the files (\<open>vfs.cpp\<close>) from the tar archive it was sent (\<open>ustar.cpp\<close>), and starts other programs with the ELF loader (\<open>elf.cpp\<close>).

  \<^bold>\<open>Conventions.\<close> Machine words are \<open>word\<close> types, so sums wrap as in the code. A computation that can end in an assertion, a trap or an access
  outside an object has the type \<open>'a result\<close> of \<open>Prelude\<close>, with \<open>Inl\<close> for the fault. What comes from outside the code (addresses that \<open>new\<close>
  or the linker choose, the answers of devices, the bytes of fresh memory) is an argument. Loops that need not end have fuel or answer \<open>None\<close>; the
  theorems that say that such a loop ends state how much fuel is enough: the length of the list that is walked (queue of tasks, headers of the
  heap, entries of an archive, relocations, variables), which each theorem has as a hypothesis or chooses itself.

  \<^bold>\<open>The heap.\<close> \<open>Bits\<close> has \<open>IsPowerOf2\<close> and \<open>RoundUp\<close>. \<open>Malloc\<close> is \<open>libc/malloc.cpp\<close> on words of memory. \<open>Malloc_Blocks\<close> is the abstract
  allocator on lists of blocks, \<open>Malloc_Refine\<close> and \<open>Malloc_Heap\<close> show that the code implements it. \<open>Malloc_Props\<close> states the interface
  \<open>allocator\<close>, interprets it with the code and proves what clients rely on: a block from \<open>malloc\<close> is large enough, aligned and apart from all live
  ones; \<open>free\<close> removes exactly its block; every client that frees only what it holds runs without a fault; with a callback for more memory no
  request that fits is refused; a block that is freed at once leaves the heap as it was.

  \<^bold>\<open>Pages.\<close> \<open>Pmm\<close> is the bitmap of physical pages, shown to be a set of pages (interface \<open>frame_allocator\<close>). \<open>Paging\<close> is the page directories
  and the copy between address spaces, shown to be a map from virtual to physical pages (interface \<open>address_space\<close>), and \<open>Memcpy\<close> to copy the bytes
  and to restore the directories.

  \<^bold>\<open>Channels and tasks.\<close> \<open>Channel\<close> is the vector of channels at its address, with the interfaces \<open>byte_source\<close> and \<open>byte_queue\<close>: what is written at one end is read at
  the other in order; the theorems also show what happens to handles when the vector moves. \<open>LinkedList\<close> is the list that the scheduler turns
  (interface \<open>ring\<close>). \<open>Scheduler\<close> and \<open>Scheduler_Props\<close> are the tasks: every turn goes to the next task of the queue, a task that ends leaves the
  queue and wakes those that wait for it, and which pointers it leaves behind.

  \<^bold>\<open>System calls.\<close> \<open>Syscalls\<close> has one definition per handler of \<open>syscalls.cpp\<close> and \<open>ExceptionDispatcher\<close>. \<open>Syscall_Props\<close> proves the invariant on
  the ownership of physical pages over all interrupts, that an interrupt leaves the address space of the task in place, and the calls on pages.

  \<^bold>\<open>Start of the kernel.\<close> \<open>Hardware\<close> is port I/O as a trace, the serial port, the timer's set-up, the descriptor tables and the handlers. \<open>Boot\<close> is the
  walk along the loader's structures, \<open>InitPmm\<close>, the kernel heap over pages and the step into user mode. \<open>MallocTests\<close> and \<open>KernelTests\<close> are the self-tests that the kernel runs at every
  start (\<open>libc/tests/malloc.cpp\<close>, \<open>kernel/tests.cpp\<close>), then \<open>KernelSetup\<close> as a whole and \<open>kernel_main\<close>: the theorems compose the components above, so that the set-up and all tests pass on every
  memory map with two free pages behind the kernel. The fuel there is 720 for the orders of the six sizes that the test moves, 6 for the steps within one of them, and \<open>0x10000000\<close> for the
  walks along the heap, the number of headers of 16 bytes that fit into the address space. \<open>StackTrace\<close> is the walk along saved frame pointers (\<open>stacktrace.cpp\<close>).

  \<^bold>\<open>The C library of the programs.\<close> \<open>CString\<close> and \<open>ByteMem\<close> are bytes of memory with the functions of \<open>string.cpp\<close> and \<open>ctype.cpp\<close>; \<open>Printf\<close> is
  \<open>printf.cpp\<close> with the numbers that read back and the rendering of every format. \<open>StdString\<close> is \<open>std::string\<close> as a block and as its
  characters. \<open>Buffer\<close> is \<open>ResizableBuffer\<close>, another \<open>byte_queue\<close>. \<open>Startup\<close> is the arguments and the environment, packed by the parent and unpacked by
  the child, with \<open>getenv\<close> and \<open>setenv\<close>. \<open>Ustar\<close> is the walk along a tar archive, \<open>Vfs\<close> the tree of files and the search for paths, refined to a
  map from paths; \<open>Vfs_Props\<close> composes the two (interface \<open>path_store\<close>): after \<open>InitVFS\<close> on the bytes of an archive exactly its files are found, with
  their content. \<open>Elf\<close> is the structures of ELF files, the segments and the relocations.

  \<^bold>\<open>The C++ library.\<close> \<open>Vector\<close> is \<open>std::vector\<close> with its storage, refined to lists (interface \<open>growing_array\<close>). \<open>Algorithm\<close> is the iterators of \<open>libcxx/include/iterator\<close> and the algorithms over them: the
  interface \<open>iterator_range\<close> holds for pointers and for reversed iterators, so the loops are proved once for both directions, and \<open>next_permutation\<close> is the successor in the
  lexicographic order. \<open>StringOrder\<close> is the comparisons of strings, \<open>UniquePtr\<close> the ownership of objects by \<open>std::unique_ptr\<close> over all sequences of its operations.

  \<^bold>\<open>Programs.\<close> \<open>UserSys\<close> is the stubs of the system calls on the program's side (\<open>userboot/syscalls.cpp\<close>), which enter the handlers of \<open>Syscalls\<close> through the
  registers, and \<open>getchar\<close> and \<open>wait\<close>; bytes written by one task are read in the address space of another. \<open>Process\<close> is the start of a program:
  \<open>LoadElfProgram\<close> and \<open>exec.cpp\<close> in the parent, \<open>__libc_start_main\<close> in the child, over the interface \<open>os\<close> that \<open>kernel_os\<close> fills with the stubs; through the
  locale \<open>byte_queue\<close>, interpreted with the channels of the kernel, the child gets the files, the environment and the arguments that the parent sent. \<open>Shell\<close>
  is \<open>shell.cpp\<close>: the edited line is that of a reference function on lists, its words are the arguments, \<open>cd\<close> moves the process, and the completion is that of
  \<open>PATH\<close>. \<open>Programs\<close> is both stages of \<open>userboot.cpp\<close>, \<open>ls\<close>, \<open>printenv\<close> and \<open>hello\<close>.

  \<^bold>\<open>Not modelled.\<close> The assembly files (\<open>boot.S\<close>, \<open>gdt.S\<close>, \<open>isr.S\<close>, \<open>switchtask.S\<close>, \<open>start.S\<close>) beyond the registers they save and load; the TLB and the
  masking of interrupts; functions that only print (\<open>Dump\<close>, \<open>Tree\<close>, \<open>panic.cpp\<close>); the templates of \<open>libcxx\<close> that compute with types only (\<open>type_traits\<close>, \<open>utility\<close>); the table of
  numbers in \<open>errno.h\<close> (the codes that are set are values of the model); the check for leaks of the heap at the end of \<open>KernelSetup\<close>, since the blocks of objects that the kernel makes with \<open>new\<close> are not in the model's heap;
  \<open>multiboot2.h\<close>, which no code includes. The addresses that \<open>malloc\<close> returns to a program are arguments of the models above it; that the allocator keeps its blocks
  apart is proved for the allocator.
\<close>

end
